(* ===== verification/Prelude.thy ===== *)
theory Prelude imports Main "HOL-Library.Word" begin

text \<open>
  Shared vocabulary of the development: the machine integer types of the shipped
  configuration (armeabi-v7a, so int, long, INT32 and size\_t are 32 bits wide), results that
  can be an error exit, bit lists, and the generic lemmas the components share.
\<close>

unbundle bit_operations_syntax

section \<open>Machine types\<close>

type_synonym u8 = "8 word"
type_synonym u16 = "16 word"
type_synonym u32 = "32 word"
type_synonym u64 = "64 word"

text \<open>Facts about results of fallible operations are collected here.\<close>

named_theorems result_simps

section \<open>Fallible operations\<close>

text \<open>
  \<open>ERREXIT\<close> never returns to its caller (the application's error manager unwinds or exits), so
  an operation that may take it returns \<open>error + 'a\<close> and \<open>ebind\<close> sequences two of them.
\<close>

definition ebind :: "'e + 'a \<Rightarrow> ('a \<Rightarrow> 'e + 'b) \<Rightarrow> 'e + 'b" where
  "ebind m f = (case m of Inl e \<Rightarrow> Inl e | Inr x \<Rightarrow> f x)"

lemma ebind_simps [simp]:
  "ebind (Inl e) f = Inl e"
  "ebind (Inr x) f = f x"
  by (simp_all add: ebind_def)

lemma ebind_eq_Inr [result_simps]:
  "ebind m f = Inr y \<longleftrightarrow> (\<exists>x. m = Inr x \<and> f x = Inr y)"
  by (cases m) simp_all

lemma ebind_eq_Inl [result_simps]:
  "ebind m f = Inl e \<longleftrightarrow> m = Inl e \<or> (\<exists>x. m = Inr x \<and> f x = Inl e)"
  by (cases m) auto

lemma ebind_cong [fundef_cong]:
  "m = m' \<Longrightarrow> (\<And>x. m' = Inr x \<Longrightarrow> f x = f' x) \<Longrightarrow> ebind m f = ebind m' f'"
  by (cases m') simp_all

lemma ebind_assoc: "ebind (ebind m f) g = ebind m (\<lambda>x. ebind (f x) g)"
  by (cases m) simp_all

section \<open>Lists updated by index\<close>

lemma list_update_append_drop:
  "n < length xs \<Longrightarrow> (take n xs @ drop n xs)[n := x] = take n xs @ x # drop (Suc n) xs"
  by (simp add: list_update_append Cons_nth_drop_Suc [symmetric])

lemma list_update_at_prefix:
  "length p = n \<Longrightarrow> n < length xs \<Longrightarrow> (p @ drop n xs)[n := x] = (p @ [x]) @ drop (Suc n) xs"
  by (simp add: list_update_append Cons_nth_drop_Suc [symmetric])

section \<open>Row and column arithmetic\<close>

lemma mult_add_div [simp]: "r < w \<Longrightarrow> (p * w + r) div w = (p::nat)"
  by simp

lemma mult_add_mod [simp]: "r < w \<Longrightarrow> (p * w + r) mod w = (r::nat)"
  by simp

section \<open>Bit strings\<close>

text \<open>
  \<open>bits_of n v\<close> are the \<open>n\<close> low bits of \<open>v\<close>, most significant first, as they are sent; \<open>bits_val\<close>
  reads a bit string back.
\<close>

definition bits_of :: "nat \<Rightarrow> 'a::semiring_bits \<Rightarrow> bool list" where
  "bits_of n v = map (bit v) (rev [0..<n])"

definition bits_val :: "bool list \<Rightarrow> nat" where
  "bits_val bs = horner_sum of_bool 2 (rev bs)"

lemma length_bits_of [simp]: "length (bits_of n v) = n"
  by (simp add: bits_of_def)

lemma bits_of_0 [simp]: "bits_of 0 v = []"
  by (simp add: bits_of_def)

lemma bits_of_nth: "i < n \<Longrightarrow> bits_of n v ! i = bit v (n - Suc i)"
  by (simp add: bits_of_def rev_map [symmetric] rev_nth)

lemma bits_of_eq_iff: "bits_of n v = bits_of n w \<longleftrightarrow> (\<forall>i<n. bit v i = bit w i)"
  by (auto simp: bits_of_def)

lemma bits_of_append:
  "bits_of (m + n) v = map (\<lambda>i. bit v (n + i)) (rev [0..<m]) @ bits_of n v"
proof (rule nth_equalityI)
  fix i assume i: "i < length (bits_of (m + n) v)"
  then show "bits_of (m + n) v ! i = (map (\<lambda>i. bit v (n + i)) (rev [0..<m]) @ bits_of n v) ! i"
    by (auto simp: bits_of_nth nth_append rev_nth intro!: arg_cong [where f = "bit v"])
qed simp

lemma bits_val_of [simp]: "bits_val (bits_of n (v::nat)) = take_bit n v"
  by (simp add: bits_val_def bits_of_def rev_map [symmetric] horner_sum_bit_eq_take_bit)

lemma bits_val_Nil [simp]: "bits_val [] = 0"
  by (simp add: bits_val_def)

lemma bits_val_snoc: "bits_val (bs @ [b]) = of_bool b + 2 * bits_val bs"
  by (simp add: bits_val_def)

lemma bits_val_less: "bits_val bs < 2 ^ length bs"
proof (induction bs rule: rev_induct)
  case (snoc b bs)
  then show ?case by (cases b) (simp_all add: bits_val_snoc)
qed simp

lemma bits_val_append: "bits_val (as @ bs) = bits_val as * 2 ^ length bs + bits_val bs"
proof (induction bs rule: rev_induct)
  case (snoc b bs)
  then show ?case by (simp add: bits_val_snoc flip: append_assoc)
qed simp

lemma bits_of_val [simp]: "bits_of (length bs) (bits_val bs) = bs"
proof (rule nth_equalityI)
  fix i assume "i < length (bits_of (length bs) (bits_val bs))"
  then show "bits_of (length bs) (bits_val bs) ! i = bs ! i"
    by (auto simp: bits_of_nth bits_val_def bit_horner_sum_bit_iff rev_nth)
qed simp

lemma bits_of_unat [simp]: "bits_of n (unat (w :: 'a::len word)) = bits_of n w"
  by (auto simp: bits_of_def bit_unsigned_iff dest: bit_imp_le_length)

lemma bits_of_take_bit: "n \<le> m \<Longrightarrow> bits_of n (take_bit m v) = bits_of n (v :: 'a::semiring_bit_operations)"
  by (auto simp: bits_of_def bit_take_bit_iff)

lemma bits_of_take:
  "m \<le> n \<Longrightarrow> take m (bits_of n v) = bits_of m (v div 2 ^ (n - m) :: nat)"
  by (rule nth_equalityI) (auto simp: bits_of_nth bit_iff_odd power_add [symmetric] div_mult2_eq [symmetric])

lemma bits_of_inj: "v < 2 ^ n \<Longrightarrow> w < 2 ^ n \<Longrightarrow> bits_of n v = bits_of n (w::nat) \<Longrightarrow> v = w"
  by (metis bits_val_of take_bit_nat_eq_self)

end
