(* ===== verification/Screen.thy ===== *)
theory Screen imports Prelude begin

text \<open>
  The frame module of the server (\<open>server/app/src/main/jni/frame\<close>): \<open>Screen::initDisplay\<close> and
  \<open>Screen::updateFrame\<close> of \<open>Screen.cpp\<close>, and the JNI entry points of \<open>Frame.cpp\<close>.
  What the Android services answer (status codes, the screenshot's stride and pixels, whether
  the bitmap could be locked) is an argument of the definitions.
\<close>

section \<open>State\<close>

text \<open>The members of \<open>class Screen\<close> that the code reads or writes.\<close>

record screen =
  sc_width :: u32
  sc_height :: u32
  sc_pixels :: u32
  sc_index :: u32
  sc_count :: u32
  sc_stride :: u32
  sc_r :: u16
  sc_g :: u16
  sc_b :: u16
  sc_rgb :: u16

definition SIZE_PIXEL :: u32 where
  "SIZE_PIXEL = 4"

definition SIZE_CONVERTED_PIXEL :: u32 where
  "SIZE_CONVERTED_PIXEL = 2"

text \<open>Accesses outside the buffers and a division by zero are undefined behaviour.\<close>

datatype ub = ReadOutOfBounds | WriteOutOfBounds | DivisionByZero

text \<open>What \<open>ScreenshotClient\<close> answers to \<open>update\<close>, \<open>getStride\<close> and \<open>getPixels\<close>.\<close>

record screenshot =
  shot_status :: int
  shot_stride :: u32
  shot_pixels :: "u8 list"

section \<open>Operations\<close>

definition initDisplay :: "bool \<Rightarrow> u32 \<Rightarrow> u32 \<Rightarrow> screen \<Rightarrow> int \<times> screen" where
  "initDisplay have_display w h s =
     (let s = s\<lparr>sc_width := w, sc_height := h, sc_pixels := w * h * SIZE_CONVERTED_PIXEL\<rparr>
      in (if have_display then 0 else 1, s))"

text \<open>The padding of a finished row is skipped when \<open>index\<close> is at the start of a row.\<close>

definition row_count :: "screen \<Rightarrow> u32" where
  "row_count s =
     (if sc_index s mod (sc_width s * SIZE_CONVERTED_PIXEL) = 0 \<and> sc_count s \<noteq> 0
      then sc_count s + sc_stride s else sc_count s)"

text \<open>The three components of a 16-bit pixel, from the bytes of a 32-bit one.\<close>

definition red565 :: "u8 \<Rightarrow> u16" where
  "red565 x = push_bit 11 (drop_bit 3 (ucast x) AND 0x001f)"

definition green565 :: "u8 \<Rightarrow> u16" where
  "green565 x = push_bit 5 (drop_bit 2 (ucast x) AND 0x003f)"

definition blue565 :: "u8 \<Rightarrow> u16" where
  "blue565 x = drop_bit 3 (ucast x) AND 0x001f"

text \<open>One pass of the conversion loop, the increment of \<open>index\<close> included.\<close>

definition update_step :: "u8 list \<Rightarrow> screen \<Rightarrow> u8 list \<Rightarrow> ub + (screen \<times> u8 list)" where
  "update_step bitmap s dst =
     (if sc_width s * SIZE_CONVERTED_PIXEL = 0 then Inl DivisionByZero else
      let c = row_count s; i = unat (sc_index s)
      in if length bitmap \<le> unat c \<or> length bitmap \<le> unat (c + 1) \<or> length bitmap \<le> unat (c + 2)
         then Inl ReadOutOfBounds
         else if length dst \<le> i \<or> length dst \<le> i + 1 then Inl WriteOutOfBounds
         else
           let r = red565 (bitmap ! unat c);
               g = green565 (bitmap ! unat (c + 1));
               b = blue565 (bitmap ! unat (c + 2));
               rgb = r OR g OR b
           in Inr (s\<lparr>sc_index := sc_index s + SIZE_CONVERTED_PIXEL, sc_count := c + SIZE_PIXEL,
                     sc_r := r, sc_g := g, sc_b := b, sc_rgb := rgb\<rparr>,
                   dst[i := ucast (rgb AND 0xFF), i + 1 := ucast (drop_bit 8 rgb)]))"

text \<open>The loop: \<open>None\<close> would be a run that does not end.\<close>

partial_function (option) update_loop ::
  "u8 list \<Rightarrow> screen \<Rightarrow> u8 list \<Rightarrow> (ub + (screen \<times> u8 list)) option" where
  "update_loop bitmap s dst =
     (if sc_index s < sc_pixels s
      then (case update_step bitmap s dst of
              Inl e \<Rightarrow> Some (Inl e)
            | Inr (s', dst') \<Rightarrow> update_loop bitmap s' dst')
      else Some (Inr (s, dst)))"

definition updateFrame ::
  "screenshot \<Rightarrow> screen \<Rightarrow> u8 list \<Rightarrow> (ub + (int \<times> screen \<times> u8 list)) option" where
  "updateFrame shot s dst =
     (if shot_status shot \<noteq> 0 then Some (Inr (shot_status shot, s, dst)) else
      let s = s\<lparr>sc_stride := (shot_stride shot - sc_width s) * SIZE_PIXEL,
                sc_count := 0, sc_index := 0\<rparr>
      in map_option (map_sum id (\<lambda>(s', dst'). (0, s', dst'))) (update_loop (shot_pixels shot) s dst))"

section \<open>JNI entry points (\<open>Frame.cpp\<close>)\<close>

text \<open>
  \<open>init\<close> returns the pointer of the new screen as a Java long, or \<open>-1\<close>; the address is an
  argument. \<open>updateFrame\<close> locks the bitmap (the status is an argument), converts and unlocks it;
  the last component says which bitmap calls were made, in order.
\<close>

definition FrameModule_init :: "bool \<Rightarrow> int \<Rightarrow> u32 \<Rightarrow> u32 \<Rightarrow> screen \<Rightarrow> int \<times> screen" where
  "FrameModule_init have_display address w h fresh =
     (case initDisplay have_display w h fresh of (err, s) \<Rightarrow>
        if err \<noteq> 0 then (-1, s) else (address, s))"

datatype bitmap_call = LockPixels | UnlockPixels

definition FrameModule_updateFrame ::
  "int \<Rightarrow> screenshot \<Rightarrow> screen \<Rightarrow> u8 list \<Rightarrow>
   (ub + (int \<times> screen \<times> u8 list \<times> bitmap_call list)) option" where
  "FrameModule_updateFrame lock_err shot s bitmap =
     (if lock_err \<noteq> 0 then Some (Inr (lock_err, s, bitmap, [LockPixels]))
      else map_option (map_sum id (\<lambda>(err, s', bitmap'). (err, s', bitmap', [LockPixels, UnlockPixels])))
             (updateFrame shot s bitmap))"

section \<open>Conversion of one pixel\<close>

text \<open>What a 16-bit pixel should hold: the leading 5, 6 and 5 bits of the three components.\<close>

definition rgb565 :: "u8 \<Rightarrow> u8 \<Rightarrow> u8 \<Rightarrow> nat" where
  "rgb565 r g b = unat r div 8 * 2048 + unat g div 4 * 32 + unat b div 8"

lemma pack565: "unat (red565 R OR green565 G OR blue565 B) = rgb565 R G B"
proof -
  define r where "r = red565 R"
  define g where "g = green565 G"
  define b where "b = blue565 B"
  note r_def' = r_def [unfolded red565_def] and g_def' = g_def [unfolded green565_def] and b_def' = b_def [unfolded blue565_def]
  have m: "(0x1f::u16) = mask 5" "(0x3f::u16) = mask 6" by (simp_all add: mask_eq_exp_minus_1)
  have R: "unat R < 256" and G: "unat G < 256" and B: "unat B < 256"
    using unsigned_less [of R, where 'a=nat] unsigned_less [of G, where 'a=nat] unsigned_less [of B, where 'a=nat] by simp_all
  have r: "unat r = unat R div 8 * 2048"
    using R unfolding r_def' m take_bit_eq_mask [symmetric]
    by (simp only: unsigned_push_bit_eq unsigned_take_bit_eq unsigned_drop_bit_eq unsigned_ucast_eq)
      (simp add: take_bit_eq_mod push_bit_eq_mult drop_bit_eq_div)
  have g: "unat g = unat G div 4 * 32"
    using G unfolding g_def' m take_bit_eq_mask [symmetric]
    by (simp only: unsigned_push_bit_eq unsigned_take_bit_eq unsigned_drop_bit_eq unsigned_ucast_eq)
      (simp add: take_bit_eq_mod push_bit_eq_mult drop_bit_eq_div)
  have b: "unat b = unat B div 8"
    using B unfolding b_def' m take_bit_eq_mask [symmetric]
    by (simp only: unsigned_push_bit_eq unsigned_take_bit_eq unsigned_drop_bit_eq unsigned_ucast_eq)
      (simp add: take_bit_eq_mod push_bit_eq_mult drop_bit_eq_div)
  have d1: "r OR g = r + g"
    by (rule disjunctive_add_eq_or [symmetric]) (auto simp: r_def' g_def' m take_bit_eq_mask [symmetric] bit_eq_iff bit_simps)
  have d2: "(r + g) OR b = r + g + b"
    unfolding d1 [symmetric]
    by (rule disjunctive_add_eq_or [symmetric]) (auto simp: r_def' g_def' b_def' m take_bit_eq_mask [symmetric] bit_eq_iff bit_simps)
  have "r OR g OR b = r + g + b" using d1 d2 by (metis or.assoc)
  moreover have "unat R div 8 \<le> 31" "unat G div 4 \<le> 63" "unat B div 8 \<le> 31"
    using R G B by simp_all
  ultimately show ?thesis
    unfolding r_def [symmetric] g_def [symmetric] b_def [symmetric]
    by (simp add: rgb565_def unat_word_ariths r g b)
qed

lemma ucast_low_byte: "(ucast (x AND 0xFF :: u16) :: u8) = word_of_nat (unat x mod 256)"
proof -
  have "(x AND 0xFF) = take_bit 8 x" by (simp add: take_bit_eq_mask mask_eq_exp_minus_1)
  then have "unat (ucast (x AND 0xFF) :: u8) = unat x mod 256"
    by (simp only: unsigned_ucast_eq unsigned_take_bit_eq) (simp add: take_bit_eq_mod)
  then show ?thesis by (simp only: word_unat_eq_iff) (simp add: unsigned_of_nat take_bit_eq_mod)
qed

lemma ucast_high_byte: "(ucast (drop_bit 8 x :: u16) :: u8) = word_of_nat (unat x div 256)"
proof -
  have "unat (ucast (drop_bit 8 x) :: u8) = unat x div 256 mod 256"
    using unsigned_less [of x, where 'a = nat]
    by (simp only: unsigned_ucast_eq unsigned_drop_bit_eq) (simp add: take_bit_eq_mod drop_bit_eq_div)
  then show ?thesis by (simp only: word_unat_eq_iff) (simp add: unsigned_of_nat take_bit_eq_mod)
qed

section \<open>The loop\<close>

text \<open>Offset of pixel \<open>k\<close> of a \<open>w\<close> wide frame in a buffer whose rows are \<open>S\<close> pixels apart.\<close>

definition src_off :: "nat \<Rightarrow> nat \<Rightarrow> nat \<Rightarrow> nat" where
  "src_off w S k = 4 * ((k div w) * S + k mod w)"

definition pixel_bytes :: "u8 list \<Rightarrow> nat \<Rightarrow> u8 list" where
  "pixel_bytes src p =
     (let v = rgb565 (src ! p) (src ! (p + 1)) (src ! (p + 2))
      in [word_of_nat (v mod 256), word_of_nat (v div 256)])"

definition frame_bytes :: "nat \<Rightarrow> nat \<Rightarrow> u8 list \<Rightarrow> nat \<Rightarrow> u8 list" where
  "frame_bytes w S src n = concat (map (\<lambda>k. pixel_bytes src (src_off w S k)) [0..<n])"

lemma length_frame_bytes [simp]: "length (frame_bytes w S src n) = 2 * n"
  by (induction n) (simp_all add: frame_bytes_def pixel_bytes_def Let_def)

lemma frame_bytes_Suc:
  "frame_bytes w S src (Suc n) = frame_bytes w S src n @ pixel_bytes src (src_off w S n)"
  by (simp add: frame_bytes_def)

text \<open>The byte offset after pixel \<open>k - 1\<close>, before the padding of a finished row is skipped.\<close>

definition count_at :: "nat \<Rightarrow> nat \<Rightarrow> nat \<Rightarrow> nat" where
  "count_at w S k = (if k = 0 then 0 else src_off w S (k - 1) + 4)"

lemma count_at_next:
  assumes "0 < w" "w \<le> S"
  shows "(if k mod w = 0 \<and> count_at w S k \<noteq> 0 then count_at w S k + 4 * (S - w) else count_at w S k)
    = src_off w S k"
proof (cases k)
  case 0
  then show ?thesis by (simp add: count_at_def src_off_def)
next
  case (Suc j)
  show ?thesis
  proof (cases "k mod w = 0")
    case True
    then obtain q where q: "k = q * w" by (metis mod_0_imp_dvd dvd_def mult.commute)
    with Suc obtain p where p: "q = Suc p" by (cases q) auto
    have j: "j = p * w + (w - 1)" using Suc q p assms by simp
    have "j div w = p" unfolding j by (rule mult_add_div) (use assms in simp)
    moreover have "j mod w = w - 1" unfolding j by (rule mult_add_mod) (use assms in simp)
    moreover have "k div w = q" "k mod w = 0" using assms by (simp_all add: q)
    ultimately show ?thesis
      using Suc p assms by (simp add: count_at_def src_off_def algebra_simps)
  next
    case False
    then have "j div w = k div w" "k mod w = Suc (j mod w)"
      using Suc by (simp_all add: div_Suc mod_Suc split: if_splits)
    then show ?thesis using Suc False by (simp add: count_at_def src_off_def)
  qed
qed

lemma src_off_bound:
  assumes "k < w * h" "w \<le> S"
  shows "src_off w S k + 4 \<le> 4 * S * h"
proof -
  have w: "0 < w" using assms by (cases w) auto
  have "k div w < h" using assms w by (simp add: less_mult_imp_div_less mult.commute)
  moreover have "k mod w < S" using w assms(2) by (meson mod_less_divisor less_le_trans)
  ultimately have "(k div w) * S + k mod w + 1 \<le> (k div w + 1) * S" by simp
  also have "\<dots> \<le> h * S" using \<open>k div w < h\<close> by (intro mult_right_mono) auto
  finally show ?thesis by (simp add: src_off_def algebra_simps)
qed

text \<open>The state of the loop before pixel \<open>k\<close>.\<close>

definition at_pixel :: "nat \<Rightarrow> nat \<Rightarrow> nat \<Rightarrow> nat \<Rightarrow> screen \<Rightarrow> bool" where
  "at_pixel w h S k s \<longleftrightarrow>
     unat (sc_width s) = w \<and> unat (sc_height s) = h \<and> unat (sc_pixels s) = w * h * 2 \<and>
     unat (sc_stride s) = 4 * (S - w) \<and> unat (sc_index s) = 2 * k \<and> unat (sc_count s) = count_at w S k"

lemma update_step_pixel:
  assumes at: "at_pixel w h S k s" and k: "k < w * h" and S: "w \<le> S"
    and small: "2 * w * h < 2 ^ 32" "4 * S * h < 2 ^ 32"
    and src: "4 * S * h \<le> length src" and dst: "2 * w * h \<le> length dst0"
  shows "\<exists>s'. update_step src s (frame_bytes w S src k @ drop (2 * k) dst0)
      = Inr (s', frame_bytes w S src (Suc k) @ drop (2 * Suc k) dst0) \<and> at_pixel w h S (Suc k) s'"
proof -
  have w: "0 < w" and h: "0 < h" using k by (cases w; cases h; auto)+
  have "2 * w \<le> 2 * w * h" using h by simp
  then have "w * 2 < 2 ^ 32" using small by linarith
  then have w2: "unat (sc_width s * SIZE_CONVERTED_PIXEL) = 2 * w"
    using at small by (simp add: at_pixel_def SIZE_CONVERTED_PIXEL_def unat_word_ariths)
  have nz: "sc_width s * SIZE_CONVERTED_PIXEL \<noteq> 0" using w2 w by auto
  have md: "sc_index s mod (sc_width s * SIZE_CONVERTED_PIXEL) = 0 \<longleftrightarrow> k mod w = 0"
    using at w2 by (simp add: word_unat_eq_iff unat_mod at_pixel_def)
  have cz: "sc_count s \<noteq> 0 \<longleftrightarrow> count_at w S k \<noteq> 0"
    using at by (simp add: at_pixel_def word_unat_eq_iff)
  define c where "c = row_count s"
  note bnd = src_off_bound [OF k S]
  have c: "unat c = src_off w S k"
    using count_at_next [OF w S, of k] bnd small at unfolding c_def row_count_def md cz
    by (auto simp: at_pixel_def unat_word_ariths split: if_splits)
  have c1: "unat (c + 1) = src_off w S k + 1" "unat (c + 2) = src_off w S k + 2"
      "unat (c + SIZE_PIXEL) \<le> src_off w S k + 4"
    using c bnd small by (simp_all add: unat_word_ariths SIZE_PIXEL_def)
  have ix: "unat (sc_index s) = 2 * k" and lt: "2 * k + 1 < length dst0"
    using at k dst by (simp_all add: at_pixel_def)
  let ?o = "src_off w S k"
  let ?v = "rgb565 (src ! ?o) (src ! (?o + 1)) (src ! (?o + 2))"
  let ?f = "frame_bytes w S src k @ drop (2 * k) dst0"
  obtain s' where st: "update_step src s ?f = Inr (s', ?f[2 * k := word_of_nat (?v mod 256), 2 * k + 1 := word_of_nat (?v div 256)])"
    and s': "sc_width s' = sc_width s" "sc_height s' = sc_height s" "sc_pixels s' = sc_pixels s"
      "sc_stride s' = sc_stride s" "sc_index s' = sc_index s + 2" "sc_count s' = c + SIZE_PIXEL"
    using nz c c1 ix lt src bnd unfolding update_step_def c_def [symmetric]
    by (simp add: Let_def ucast_low_byte ucast_high_byte pack565 SIZE_CONVERTED_PIXEL_def)
  have "2 * k + 2 < 2 ^ 32" "src_off w S k + 4 < 2 ^ 32" using bnd small k by linarith+
  then have "at_pixel w h S (Suc k) s'"
    using at s' c by (auto simp: at_pixel_def unat_word_ariths SIZE_PIXEL_def count_at_def)
  moreover have "?f[2 * k := x, 2 * k + 1 := y] = frame_bytes w S src k @ [x, y] @ drop (2 * Suc k) dst0" for x y
    using lt by (simp add: list_update_append Cons_nth_drop_Suc [symmetric])
  ultimately show ?thesis using st by (auto simp: frame_bytes_Suc pixel_bytes_def Let_def)
qed

lemma update_loop_frame:
  assumes "at_pixel w h S k s" and "k \<le> w * h" and S: "w \<le> S"
    and small: "2 * w * h < 2 ^ 32" "4 * S * h < 2 ^ 32"
    and src: "4 * S * h \<le> length src" and dst: "2 * w * h \<le> length dst0"
  shows "\<exists>s'. update_loop src s (frame_bytes w S src k @ drop (2 * k) dst0)
      = Some (Inr (s', frame_bytes w S src (w * h) @ drop (2 * (w * h)) dst0))"
  using assms(1,2)
proof (induction "w * h - k" arbitrary: k s)
  case 0
  then have "k = w * h" "\<not> sc_index s < sc_pixels s"
    by (simp_all add: at_pixel_def word_less_nat_alt)
  then show ?case by (simp add: update_loop.simps)
next
  case (Suc n)
  then have k: "k < w * h" by simp
  from update_step_pixel [OF Suc.prems(1) k S small src dst] obtain s' where
    st: "update_step src s (frame_bytes w S src k @ drop (2 * k) dst0)
      = Inr (s', frame_bytes w S src (Suc k) @ drop (2 * Suc k) dst0)"
    and at': "at_pixel w h S (Suc k) s'" by blast
  have "sc_index s < sc_pixels s"
    using Suc.prems(1) k by (simp add: at_pixel_def word_less_nat_alt)
  then show ?case
    using Suc.hyps(1) [OF _ at'] Suc.hyps(2) k st by (simp add: update_loop.simps)
qed

lemma frame_pixel:
  fixes x y :: nat
  assumes "y < H" "x < W"
  defines "k \<equiv> y * W + x"
  shows "(frame_bytes W S src (W * H) @ tail) ! (2 * k) = pixel_bytes src (4 * (y * S + x)) ! 0"
    and "(frame_bytes W S src (W * H) @ tail) ! (2 * k + 1) = pixel_bytes src (4 * (y * S + x)) ! 1"
proof -
  have "k < (y + 1) * W" using assms by simp
  also have "\<dots> \<le> H * W" using assms by (intro mult_right_mono) auto
  finally have k: "k < W * H" by (simp add: mult.commute)
  have o: "src_off W S k = 4 * (y * S + x)"
    using assms(2) by (simp add: src_off_def k_def)
  have "frame_bytes W S src n ! (2 * k) = pixel_bytes src (src_off W S k) ! 0 \<and>
        frame_bytes W S src n ! (2 * k + 1) = pixel_bytes src (src_off W S k) ! 1" if "k < n" for n
    using that
  proof (induction n)
    case (Suc n)
    have "length (pixel_bytes src p) = 2" for p by (simp add: pixel_bytes_def Let_def)
    with Suc show ?case
      by (cases "k = n") (simp_all add: frame_bytes_Suc nth_append)
  qed simp
  from this [OF k] show "(frame_bytes W S src (W * H) @ tail) ! (2 * k) = pixel_bytes src (4 * (y * S + x)) ! 0"
    and "(frame_bytes W S src (W * H) @ tail) ! (2 * k + 1) = pixel_bytes src (4 * (y * S + x)) ! 1"
    using k by (simp_all add: nth_append o)
qed

lemma at_pixel_start:
  assumes "2 * unat w * unat h < 2 ^ 32" "unat w \<le> unat S" "4 * unat S * unat h < 2 ^ 32" "0 < unat h"
  shows "at_pixel (unat w) (unat h) (unat S) 0
    (snd (initDisplay b w h s0)\<lparr>sc_stride := (S - w) * SIZE_PIXEL, sc_count := 0, sc_index := 0\<rparr>)"
proof -
  have "unat w * unat h < 2 ^ 31" using assms by (simp add: mult.commute)
  moreover have "4 * unat S \<le> 4 * unat S * unat h" using assms(4) by simp
  then have "(unat S - unat w) * 4 < 2 ^ 32" using assms(3) by linarith
  moreover have "unat (S - w) = unat S - unat w" using assms(2) by (simp add: unat_sub word_le_nat_alt)
  ultimately have "unat (w * h * 2) = unat w * unat h * 2" "unat ((S - w) * 4) = 4 * (unat S - unat w)"
    by (simp_all add: unat_word_ariths mult.commute del: left_diff_distrib_numeral)
  then show ?thesis
    by (simp add: at_pixel_def initDisplay_def Let_def SIZE_PIXEL_def SIZE_CONVERTED_PIXEL_def count_at_def
        del: left_diff_distrib_numeral)
qed

section \<open>Termination\<close>

lemma update_step_index:
  "update_step src s dst = Inr (s', dst') \<Longrightarrow>
   sc_index s' = sc_index s + 2 \<and> sc_pixels s' = sc_pixels s \<and> length dst' = length dst"
  by (auto simp: update_step_def Let_def SIZE_CONVERTED_PIXEL_def split: if_splits)

lemma update_loop_returns:
  assumes "even (unat (sc_pixels s))" "even (unat (sc_index s))" "unat (sc_index s) \<le> unat (sc_pixels s)"
  shows "\<exists>r. update_loop src s dst = Some r"
  using assms
proof (induction "unat (sc_pixels s) - unat (sc_index s)" arbitrary: s dst rule: less_induct)
  case less
  show ?case
  proof (cases "sc_index s < sc_pixels s")
    case False
    then show ?thesis by (simp add: update_loop.simps)
  next
    case lt: True
    show ?thesis
    proof (cases "update_step src s dst")
      case (Inl e)
      with lt show ?thesis by (simp add: update_loop.simps)
    next
      case (Inr r)
      then obtain s' dst' where st: "update_step src s dst = Inr (s', dst')" by (cases r) auto
      note nx = update_step_index [OF st]
      have le: "unat (sc_index s) + 2 \<le> unat (sc_pixels s)"
        using lt less.prems by (simp add: word_less_nat_alt) presburger
      then have "unat (sc_index s') = unat (sc_index s) + 2"
        using nx unsigned_less [of "sc_pixels s", where 'a = nat] by (simp add: unat_word_ariths)
      with nx le less.prems have "\<exists>r. update_loop src s' dst' = Some r"
        by (intro less.hyps) simp_all
      then show ?thesis using lt st by (simp add: update_loop.simps)
    qed
  qed
qed

text \<open>
  C15. Converting a frame ends, for every display size accepted by \<open>initDisplay\<close> (also when
  \<open>width * height * 2\<close> wraps around), every screenshot and every bitmap: the loop counter meets
  its bound exactly.
\<close>

theorem updateFrame_returns: "\<exists>r. updateFrame shot (snd (initDisplay d w h s0)) dst = Some r"
proof -
  have "even (unat (w * h * 2))" unfolding unat_word_ariths by (intro dvd_mod) simp_all
  then have "\<exists>r. update_loop src
      (snd (initDisplay d w h s0)\<lparr>sc_stride := t, sc_count := 0, sc_index := 0\<rparr>) dst = Some r" for src t
    by (intro update_loop_returns) (simp_all add: initDisplay_def Let_def SIZE_CONVERTED_PIXEL_def)
  then show ?thesis by (simp add: updateFrame_def Let_def)
qed

section \<open>A whole frame\<close>

text \<open>
  C4. \<open>updateFrame\<close> converts the whole screenshot: for a screen initialised to \<open>W\<close> by \<open>H\<close> pixels and
  a screenshot whose rows are \<open>S \<ge> W\<close> pixels apart, the call returns \<open>NO_ERROR\<close>, reads and writes
  only inside the two buffers, pixel \<open>(x, y)\<close> of the bitmap holds (low byte first) the leading
  5/6/5 bits of the three colour bytes of pixel \<open>(x, y)\<close> of the screenshot, the padding at
  the end of each source row is skipped, and bytes after the frame are untouched.
\<close>

theorem updateFrame_converts:
  fixes shot :: screenshot and w h :: u32 and dst :: "u8 list"
  defines "S \<equiv> unat (shot_stride shot)" and "W \<equiv> unat w" and "H \<equiv> unat h" and "src \<equiv> shot_pixels shot"
  assumes "shot_status shot = 0" and "W \<le> S" and "2 * W * H < 2 ^ 32" and "4 * S * H < 2 ^ 32"
    and "4 * S * H \<le> length src" and "2 * W * H \<le> length dst"
  shows "\<exists>s' out. updateFrame shot (snd (initDisplay True w h s0)) dst = Some (Inr (0, s', out)) \<and>
    length out = length dst \<and>
    (\<forall>y<H. \<forall>x<W. let p = 4 * (y * S + x); v = rgb565 (src ! p) (src ! (p + 1)) (src ! (p + 2))
       in out ! (2 * (y * W + x)) = word_of_nat (v mod 256) \<and>
          out ! (2 * (y * W + x) + 1) = word_of_nat (v div 256)) \<and>
    (\<forall>i. 2 * W * H \<le> i \<longrightarrow> i < length dst \<longrightarrow> out ! i = dst ! i)"
proof -
  let ?s = "snd (initDisplay True w h s0)\<lparr>sc_stride := (shot_stride shot - w) * SIZE_PIXEL, sc_count := 0, sc_index := 0\<rparr>"
  let ?out = "frame_bytes W S src (W * H) @ drop (2 * (W * H)) dst"
  have "\<exists>s'. update_loop src ?s dst = Some (Inr (s', ?out))"
  proof (cases "H = 0")
    case True
    then have "sc_pixels ?s = 0" "sc_index ?s = 0"
      by (simp_all add: initDisplay_def Let_def H_def unat_eq_0)
    then have "\<not> sc_index ?s < sc_pixels ?s" by simp
    with True show ?thesis by (simp add: update_loop.simps frame_bytes_def)
  next
    case False
    then have "at_pixel W H S 0 ?s"
      using assms(6-8) unfolding W_def H_def S_def by (intro at_pixel_start) simp_all
    from update_loop_frame [OF this _ assms(6-10)] show ?thesis by (simp add: frame_bytes_def)
  qed
  then obtain s' where run: "update_loop src ?s dst = Some (Inr (s', ?out))" ..
  have "sc_width (snd (initDisplay True w h s0)) = w" by (simp add: initDisplay_def Let_def)
  then have "updateFrame shot (snd (initDisplay True w h s0)) dst = Some (Inr (0, s', ?out))"
    using run assms(5) by (simp add: updateFrame_def Let_def src_def)
  moreover have "?out ! i = dst ! i" if "2 * W * H \<le> i" "i < length dst" for i
    using that by (simp add: nth_append mult.assoc)
  ultimately show ?thesis
    using assms(10) by (intro exI [of _ s'] exI [of _ ?out])
     (simp add: Let_def frame_pixel [simplified] pixel_bytes_def distrib_left)
qed

theorem updateFrame_converts_witness:
  "\<exists>s' out. updateFrame \<lparr>shot_status = 0, shot_stride = 2, shot_pixels = [255, 0, 8, 255, 1, 1, 1, 1, 0, 255, 0, 0, 1, 1, 1, 1]\<rparr>
      (snd (initDisplay True 1 2
        \<lparr>sc_width = 0, sc_height = 0, sc_pixels = 0, sc_index = 0, sc_count = 0, sc_stride = 0,
         sc_r = 0, sc_g = 0, sc_b = 0, sc_rgb = 0\<rparr>)) [9, 9, 9, 9, 9] = Some (Inr (0, s', out)) \<and>
    length out = 5 \<and> out ! 0 = 1 \<and> out ! 1 = 0xF8 \<and> out ! 2 = 0xE0 \<and> out ! 3 = 0x07 \<and> out ! 4 = 9"
proof -
  let ?shot = "\<lparr>shot_status = 0, shot_stride = 2, shot_pixels = [255, 0, 8, 255, 1, 1, 1, 1, 0, 255, 0, 0, 1, 1, 1, 1]\<rparr>"
  let ?s0 = "\<lparr>sc_width = 0, sc_height = 0, sc_pixels = 0, sc_index = 0, sc_count = 0, sc_stride = 0,
         sc_r = 0, sc_g = 0, sc_b = 0, sc_rgb = 0\<rparr>"
  from updateFrame_converts [of ?shot 1 2 "[9, 9, 9, 9, 9]" ?s0] obtain s' out where
    u: "updateFrame ?shot (snd (initDisplay True 1 2 ?s0)) [9, 9, 9, 9, 9] = Some (Inr (0, s', out))"
    and l: "length out = 5"
    and p: "\<And>y. y < 2 \<Longrightarrow> let p = 8 * y; v = rgb565 (shot_pixels ?shot ! p) (shot_pixels ?shot ! (p + 1)) (shot_pixels ?shot ! (p + 2))
       in out ! (2 * y) = word_of_nat (v mod 256) \<and> out ! (2 * y + 1) = word_of_nat (v div 256)"
    and k: "out ! 4 = 9"
    by (auto simp: Let_def algebra_simps)
  show ?thesis
    using u l k p [of 0] p [of 1] by (intro exI [of _ s'] exI [of _ out]) (simp add: rgb565_def Let_def)
qed

end
