(* ===== verification/Jutils.thy ===== *)
theory Jutils imports Prelude "HOL-Library.Signed_Division" begin

text \<open>
  \<open>jutils.c\<close> and the error codes of \<open>jerror.h\<close> that the modelled code raises: rounding
  arithmetic and the zigzag table shared by the entropy coders and the transforms.
\<close>

section \<open>Error exits\<close>

text \<open>The codes passed to \<open>ERREXIT\<close>, with the parameters the message carries.\<close>

datatype jerr =
    JERR_BAD_HUFF_TABLE
  | JERR_NO_HUFF_TABLE int
  | JERR_HUFF_CLEN_OVERFLOW
  | JERR_CANT_SUSPEND
  | JERR_FILE_WRITE
  | JERR_OUT_OF_MEMORY int
  | JERR_BUFFER_SIZE
  | JERR_BAD_STATE int
  | JERR_DQT_INDEX int
  | JERR_COMPONENT_COUNT int int
  | JERR_BAD_IN_COLORSPACE
  | JERR_BAD_J_COLORSPACE
  | JERR_EMPTY_IMAGE
  | JERR_IMAGE_TOO_BIG int
  | JERR_WIDTH_OVERFLOW
  | JERR_BAD_PRECISION int
  | JERR_BAD_SAMPLING
  | JERR_BAD_SCAN_SCRIPT int
  | JERR_BAD_PROG_SCRIPT int
  | JERR_MISSING_DATA
  | JERR_BAD_MCU_SIZE
  | JERR_NOT_COMPILED
  | JERR_TOO_LITTLE_DATA
  | JERR_INPUT_EMPTY
  | JERR_BAD_LIB_VERSION int int
  | JERR_BAD_STRUCT_SIZE int int
  | JERR_NO_QUANT_TABLE int
  | JERR_BAD_LENGTH
  | JERR_SOI_DUPLICATE
  | JERR_SOF_DUPLICATE
  | JERR_SOS_NO_SOF
  | JERR_SOF_NO_SOS
  | JERR_EOI_EXPECTED
  | JERR_BAD_COMPONENT_ID int
  | JERR_DAC_INDEX int
  | JERR_DAC_VALUE int
  | JERR_DHT_INDEX int
  | JERR_NO_SOI int int
  | JERR_SOF_UNSUPPORTED int
  | JERR_UNKNOWN_MARKER int
  | JERR_NO_IMAGE
  | JERR_BAD_DCTSIZE int
  | JERR_CONVERSION_NOTIMPL
  | JERR_CCIR601_NOTIMPL
  | JERR_FRACT_SAMPLE_NOTIMPL
  | JERR_NOTIMPL
  | JERR_MODE_CHANGE
  | JERR_BAD_PROGRESSION int int int int
  | JERR_QUANT_COMPONENTS int
  | JERR_QUANT_FEW_COLORS int
  | JERR_QUANT_MANY_COLORS int
  | JERR_BAD_BUFFER_MODE
  | JERR_BAD_VIRTUAL_ACCESS
  | JERR_VIRTUAL_BUG
  | JERR_BAD_POOL_ID int
  | JERR_NO_BACKING_STORE
  | JERR_MISMATCHED_QUANT_TABLE int

text \<open>
  What ends an operation early: an error exit, or an access outside an array, after which the
  behaviour of the C code is undefined. \<open>RoundsExhausted\<close> is no behaviour of the code: it is what a
  loop modelled with a bound on its rounds gives beyond the bound, and each such loop comes with a
  lemma that the bound is enough.
\<close>

datatype fault = ErrExit jerr | OutOfBounds | RoundsExhausted

section \<open>Rounding\<close>

definition jdiv_round_up :: "int \<Rightarrow> int \<Rightarrow> int" where
  "jdiv_round_up a b = (a + b - 1) sdiv b"

definition jround_up :: "int \<Rightarrow> int \<Rightarrow> int" where
  "jround_up a b = (let a = a + (b - 1) in a - (a smod b))"

lemma sdiv_nonneg: "0 \<le> a \<Longrightarrow> 0 \<le> (b::int) \<Longrightarrow> a sdiv b = a div b"
  by (simp add: signed_divide_int_def sgn_if)

lemma jdiv_round_up_pos:
  "0 \<le> a \<Longrightarrow> 0 < b \<Longrightarrow> jdiv_round_up a b = (a + b - 1) div b"
  by (simp add: jdiv_round_up_def sdiv_nonneg)

lemma jdiv_round_up_iff:
  assumes "0 \<le> a" "0 < b"
  shows "jdiv_round_up a b \<le> q \<longleftrightarrow> a \<le> q * b"
proof -
  define x where "x = a + b - 1"
  have "x div b \<le> q \<longleftrightarrow> x < (q + 1) * b"
  proof
    assume "x div b \<le> q"
    then have "(x div b + 1) * b \<le> (q + 1) * b" using assms(2) by (intro mult_right_mono) simp_all
    moreover have "x - x div b * b < b"
      using pos_mod_bound [OF assms(2), of x] by (simp add: minus_div_mult_eq_mod)
    then have "x < (x div b + 1) * b" by (simp add: distrib_right)
    ultimately show "x < (q + 1) * b" by simp
  next
    assume "x < (q + 1) * b"
    moreover have "x div b * b \<le> x" using assms(2) by (simp flip: minus_mod_eq_div_mult)
    ultimately have "x div b * b < (q + 1) * b" by simp
    then show "x div b \<le> q" using assms(2) by (simp add: mult_less_cancel_right)
  qed
  then have "(a + b - 1) div b \<le> q \<longleftrightarrow> a + b - 1 < (q + 1) * b" by (simp add: x_def)
  then show ?thesis using assms by (auto simp: jdiv_round_up_pos algebra_simps)
qed

lemma jround_up_eq: "0 \<le> a \<Longrightarrow> 0 < b \<Longrightarrow> jround_up a b = jdiv_round_up a b * b"
proof -
  assume a: "0 \<le> a" "0 < b"
  define x where "x = a + (b - 1)"
  have "0 \<le> x" using a by (simp add: x_def)
  have "jround_up a b = x - x smod b" by (simp add: jround_up_def x_def Let_def)
  also have "x smod b = x mod b"
    using a \<open>0 \<le> x\<close> by (cases "x = 0") (simp_all add: signed_modulo_int_def)
  also have "x - x mod b = x div b * b" by (simp add: minus_mod_eq_div_mult)
  finally show ?thesis using a by (simp add: jdiv_round_up_pos x_def add_diff_eq)
qed

text \<open>
  The rounding helpers compute a least upper bound: \<open>jdiv_round_up a b\<close> is the least \<open>q\<close> with
  \<open>a \<le> q * b\<close>, and \<open>jround_up a b\<close> is the least multiple of \<open>b\<close> that is at least \<open>a\<close>.
\<close>

lemma jround_up_least:
  assumes "0 \<le> a" "0 < b"
  shows "b dvd jround_up a b" "a \<le> jround_up a b" "jround_up a b < a + b"
proof -
  show "b dvd jround_up a b" using assms by (simp add: jround_up_eq)
  show "a \<le> jround_up a b" using assms jdiv_round_up_iff [of a b "jdiv_round_up a b"]
    by (simp add: jround_up_eq)
  have "\<not> jdiv_round_up a b \<le> jdiv_round_up a b - 1" by simp
  then show "jround_up a b < a + b"
    using assms jdiv_round_up_iff [of a b "jdiv_round_up a b - 1"] by (simp add: jround_up_eq algebra_simps)
qed

section \<open>Zigzag order\<close>

definition DCTSIZE2 :: nat where
  "DCTSIZE2 = 64"

text \<open>The entries after the first 64 protect the decoders against runs past the end of a block.\<close>

definition jpeg_natural_order :: "nat list" where
  "jpeg_natural_order =
    [0,  1,  8, 16,  9,  2,  3, 10,
     17, 24, 32, 25, 18, 11,  4,  5,
     12, 19, 26, 33, 40, 48, 41, 34,
     27, 20, 13,  6,  7, 14, 21, 28,
     35, 42, 49, 56, 57, 50, 43, 36,
     29, 22, 15, 23, 30, 37, 44, 51,
     58, 59, 52, 45, 38, 31, 39, 46,
     53, 60, 61, 54, 47, 55, 62, 63,
     63, 63, 63, 63, 63, 63, 63, 63,
     63, 63, 63, 63, 63, 63, 63, 63]"

lemma length_natural_order [simp]: "length jpeg_natural_order = 80"
  by (simp add: jpeg_natural_order_def)

lemma natural_order_0 [simp]: "jpeg_natural_order ! 0 = 0"
  by (simp add: jpeg_natural_order_def)

lemma natural_order_distinct: "distinct (take 64 jpeg_natural_order)"
  by (simp add: jpeg_natural_order_def)

lemma natural_order_range: "set jpeg_natural_order = {..<64}"
  by (simp add: jpeg_natural_order_def lessThan_nat_numeral lessThan_Suc) auto

lemma natural_order_less: "k < 80 \<Longrightarrow> jpeg_natural_order ! k < 64"
  using natural_order_range nth_mem [of k jpeg_natural_order] by auto

lemma natural_order_extra: "64 \<le> k \<Longrightarrow> k < 80 \<Longrightarrow> jpeg_natural_order ! k = 63"
proof -
  assume k: "64 \<le> k" "k < 80"
  then have "drop 64 jpeg_natural_order ! (k - 64) = jpeg_natural_order ! k" by simp
  moreover have "drop 64 jpeg_natural_order = replicate 16 63"
    by (simp add: jpeg_natural_order_def numeral_eq_Suc)
  ultimately show ?thesis using k by (simp add: less_diff_conv2 flip: nth_drop)
qed

lemma natural_order_inj: "i < 64 \<Longrightarrow> j < 64 \<Longrightarrow> jpeg_natural_order ! i = jpeg_natural_order ! j \<Longrightarrow> i = j"
  using natural_order_distinct nth_eq_iff_index_eq [of "take 64 jpeg_natural_order" i j] by simp

lemma natural_order_surj: "p < 64 \<Longrightarrow> \<exists>k<64. jpeg_natural_order ! k = p"
proof -
  assume "p < 64"
  moreover have "set (take 64 jpeg_natural_order) = {..<64}"
    by (simp add: jpeg_natural_order_def lessThan_nat_numeral lessThan_Suc) auto
  ultimately have "p \<in> set (take 64 jpeg_natural_order)" by simp
  then obtain k where "k < length (take 64 jpeg_natural_order)" "take 64 jpeg_natural_order ! k = p"
    by (auto simp: in_set_conv_nth)
  then show ?thesis by (intro exI [of _ k]) simp
qed

end
