(* ===== verification/HuffTables.thy ===== *)
theory HuffTables imports Jutils begin

text \<open>
  Huffman tables: the table of a DHT segment (\<open>JHUFF_TBL\<close> of \<open>jpeglib.h\<close>), the standard tables
  (\<open>jstdhuff.c\<close>), the encoder's derived table (\<open>jpeg_make_c_derived_tbl\<close> of \<open>jchuff.c\<close>) and the
  decoder's derived table (\<open>jpeg_make_d_derived_tbl\<close> of \<open>jdhuff.c\<close>), with the properties of the
  canonical code they share.

  Codes are natural numbers here: Figure C.2's check keeps every code below \<open>2 ^ 16\<close>
  (lemma \<open>canonical_less\<close>), so the code's unsigned int never wraps.
\<close>

section \<open>Tables\<close>

record JHUFF_TBL =
  bits :: "u8 list"
  huffval :: "u8 list"
  sent_table :: bool

text \<open>The two arrays have their C lengths.\<close>

definition wf_htbl :: "JHUFF_TBL \<Rightarrow> bool" where
  "wf_htbl h \<longleftrightarrow> length (bits h) = 17 \<and> length (huffval h) = 256"

definition NUM_HUFF_TBLS :: nat where
  "NUM_HUFF_TBLS = 4"

section \<open>Figure C.1: code lengths\<close>

text \<open>The loop over \<open>l\<close>; the terminating zero of \<open>huffsize\<close> is the end of the list.\<close>

fun fill_huffsize :: "JHUFF_TBL \<Rightarrow> nat list \<Rightarrow> nat list \<Rightarrow> jerr + nat list" where
  "fill_huffsize htbl [] huffsize = Inr huffsize"
| "fill_huffsize htbl (l # ls) huffsize =
     (let i = unat (bits htbl ! l)
      in if 256 < length huffsize + i then Inl JERR_BAD_HUFF_TABLE
         else fill_huffsize htbl ls (huffsize @ replicate i l))"

definition huff_sizes :: "JHUFF_TBL \<Rightarrow> jerr + nat list" where
  "huff_sizes htbl = fill_huffsize htbl [1..<17] []"

section \<open>Figure C.2: the codes\<close>

text \<open>
  The outer loop without the inner one: \<open>k\<close> rounds of the all-ones check, the shift and \<open>si++\<close>,
  done before the next code of length \<open>si + k\<close> is assigned.
\<close>

fun next_length :: "nat \<Rightarrow> nat \<Rightarrow> nat \<Rightarrow> jerr + nat" where
  "next_length 0 si code = Inr code"
| "next_length (Suc k) si code =
     (if 2 ^ si \<le> code then Inl JERR_BAD_HUFF_TABLE else next_length k (Suc si) (2 * code))"

fun gen_codes :: "nat list \<Rightarrow> nat \<Rightarrow> nat \<Rightarrow> jerr + nat list" where
  "gen_codes [] si code = (if 2 ^ si \<le> code then Inl JERR_BAD_HUFF_TABLE else Inr [])"
| "gen_codes (s # huffsize) si code =
     ebind (next_length (s - si) si code) (\<lambda>code.
     ebind (gen_codes huffsize s (code + 1)) (\<lambda>codes. Inr (code # codes)))"

definition huff_codes :: "nat list \<Rightarrow> jerr + nat list" where
  "huff_codes huffsize = gen_codes huffsize (case huffsize of [] \<Rightarrow> 0 | s # _ \<Rightarrow> s) 0"

text \<open>\<open>ERREXIT\<close> unless the slot \<open>tblno\<close> holds a table.\<close>

definition find_htbl :: "JHUFF_TBL option list \<Rightarrow> int \<Rightarrow> jerr + JHUFF_TBL" where
  "find_htbl ptrs tblno =
     (if tblno < 0 \<or> int NUM_HUFF_TBLS \<le> tblno then Inl (JERR_NO_HUFF_TABLE tblno)
      else case ptrs ! nat tblno of None \<Rightarrow> Inl (JERR_NO_HUFF_TABLE tblno) | Some h \<Rightarrow> Inr h)"

section \<open>Figure C.3: the encoder's table\<close>

record c_derived_tbl =
  ehufco :: "nat list"
  ehufsi :: "nat list"

text \<open>
  \<open>dtbl\<close> is the workspace being filled: \<open>ehufsi\<close> is cleared first, \<open>ehufco\<close> keeps what it held
  for symbols that get no code.
\<close>

fun fill_ehuf :: "nat \<Rightarrow> (u8 \<times> nat \<times> nat) list \<Rightarrow> c_derived_tbl \<Rightarrow> jerr + c_derived_tbl" where
  "fill_ehuf maxsymbol [] dtbl = Inr dtbl"
| "fill_ehuf maxsymbol ((v, co, sz) # rest) dtbl =
     (let i = unat v
      in if maxsymbol < i \<or> ehufsi dtbl ! i \<noteq> 0 then Inl JERR_BAD_HUFF_TABLE
         else fill_ehuf maxsymbol rest
           (dtbl\<lparr>ehufco := (ehufco dtbl)[i := co], ehufsi := (ehufsi dtbl)[i := sz]\<rparr>))"

definition jpeg_make_c_derived_tbl ::
  "JHUFF_TBL option list \<Rightarrow> bool \<Rightarrow> int \<Rightarrow> c_derived_tbl \<Rightarrow> jerr + c_derived_tbl" where
  "jpeg_make_c_derived_tbl ptrs isDC tblno dtbl =
     ebind (find_htbl ptrs tblno) (\<lambda>htbl.
     ebind (huff_sizes htbl) (\<lambda>huffsize.
     ebind (huff_codes huffsize) (\<lambda>huffcode.
     fill_ehuf (if isDC then 15 else 255) (zip (huffval htbl) (zip huffcode huffsize))
       (dtbl\<lparr>ehufsi := replicate 256 0\<rparr>))))"

section \<open>Figure F.15: the decoder's table\<close>

definition HUFF_LOOKAHEAD :: nat where
  "HUFF_LOOKAHEAD = 8"

record d_derived_tbl =
  maxcode :: "int list"
  valoffset :: "int list"
  pub :: JHUFF_TBL
  lookup :: "nat list"

text \<open>Tables for bit-sequential decoding: \<open>p\<close> counts the symbols of the shorter lengths.\<close>

fun fill_maxcode :: "JHUFF_TBL \<Rightarrow> nat list \<Rightarrow> nat list \<Rightarrow> nat \<Rightarrow> d_derived_tbl \<Rightarrow> d_derived_tbl" where
  "fill_maxcode htbl huffcode [] p dtbl = dtbl"
| "fill_maxcode htbl huffcode (l # ls) p dtbl =
     (let n = unat (bits htbl ! l)
      in if n \<noteq> 0
         then fill_maxcode htbl huffcode ls (p + n)
           (dtbl\<lparr>valoffset := (valoffset dtbl)[l := int p - int (huffcode ! p)],
                 maxcode := (maxcode dtbl)[l := int (huffcode ! (p + n - 1))]\<rparr>)
         else fill_maxcode htbl huffcode ls p (dtbl\<lparr>maxcode := (maxcode dtbl)[l := -1]\<rparr>))"

text \<open>All left-justified bit patterns that start with one short code.\<close>

fun fill_patterns :: "nat \<Rightarrow> nat \<Rightarrow> nat \<Rightarrow> nat list \<Rightarrow> nat list" where
  "fill_patterns 0 lookbits entry tab = tab"
| "fill_patterns (Suc ctr) lookbits entry tab = fill_patterns ctr (Suc lookbits) entry (tab[lookbits := entry])"

text \<open>
  The two nested loops run over the codes of length at most \<open>HUFF_LOOKAHEAD\<close> in order; the
  entry is \<open>(l << HUFF_LOOKAHEAD) | huffval[p]\<close>.
\<close>

fun fill_lookup :: "(u8 \<times> nat \<times> nat) list \<Rightarrow> nat list \<Rightarrow> nat list" where
  "fill_lookup [] tab = tab"
| "fill_lookup ((v, code, l) # rest) tab =
     (if l \<le> HUFF_LOOKAHEAD
      then fill_lookup rest (fill_patterns (2 ^ (HUFF_LOOKAHEAD - l)) (push_bit (HUFF_LOOKAHEAD - l) code)
             (push_bit HUFF_LOOKAHEAD l OR unat v) tab)
      else fill_lookup rest tab)"

definition jpeg_make_d_derived_tbl ::
  "JHUFF_TBL option list \<Rightarrow> bool \<Rightarrow> int \<Rightarrow> d_derived_tbl \<Rightarrow> jerr + d_derived_tbl" where
  "jpeg_make_d_derived_tbl ptrs isDC tblno dtbl =
     ebind (find_htbl ptrs tblno) (\<lambda>htbl.
     ebind (huff_sizes htbl) (\<lambda>huffsize.
     ebind (huff_codes huffsize) (\<lambda>huffcode.
       let dtbl = fill_maxcode htbl huffcode [1..<17] 0 (dtbl\<lparr>pub := htbl\<rparr>);
           dtbl = dtbl\<lparr>valoffset := (valoffset dtbl)[17 := 0], maxcode := (maxcode dtbl)[17 := 0xFFFFF],
                       lookup := fill_lookup (zip (huffval htbl) (zip huffcode huffsize))
                         (replicate 256 (push_bit HUFF_LOOKAHEAD (HUFF_LOOKAHEAD + 1)))\<rparr>
       in if isDC \<and> (\<exists>v \<in> set (take (length huffsize) (huffval htbl)). 15 < unat v)
          then Inl JERR_BAD_HUFF_TABLE else Inr dtbl)))"

section \<open>The standard tables (\<open>jstdhuff.c\<close>)\<close>

definition bits_dc_luminance :: "u8 list" where
  "bits_dc_luminance =
    [0, 0, 1, 5, 1, 1, 1, 1, 1, 1, 0, 0, 0, 0, 0, 0, 0]"

definition val_dc_luminance :: "u8 list" where
  "val_dc_luminance =
    [0, 1, 2, 3, 4, 5, 6, 7, 8, 9, 10, 11]"

definition bits_dc_chrominance :: "u8 list" where
  "bits_dc_chrominance =
    [0, 0, 3, 1, 1, 1, 1, 1, 1, 1, 1, 1, 0, 0, 0, 0, 0]"

definition val_dc_chrominance :: "u8 list" where
  "val_dc_chrominance =
    [0, 1, 2, 3, 4, 5, 6, 7, 8, 9, 10, 11]"

definition bits_ac_luminance :: "u8 list" where
  "bits_ac_luminance =
    [0, 0, 2, 1, 3, 3, 2, 4, 3, 5, 5, 4, 4, 0, 0, 1, 125]"

definition val_ac_luminance :: "u8 list" where
  "val_ac_luminance =
    [1, 2, 3, 0, 4, 17, 5, 18, 33, 49, 65, 6, 19, 81, 97, 7, 34, 113, 20, 50,
     129, 145, 161, 8, 35, 66, 177, 193, 21, 82, 209, 240, 36, 51, 98, 114, 130, 9, 10, 22,
     23, 24, 25, 26, 37, 38, 39, 40, 41, 42, 52, 53, 54, 55, 56, 57, 58, 67, 68, 69,
     70, 71, 72, 73, 74, 83, 84, 85, 86, 87, 88, 89, 90, 99, 100, 101, 102, 103, 104, 105,
     106, 115, 116, 117, 118, 119, 120, 121, 122, 131, 132, 133, 134, 135, 136, 137, 138, 146, 147, 148,
     149, 150, 151, 152, 153, 154, 162, 163, 164, 165, 166, 167, 168, 169, 170, 178, 179, 180, 181, 182,
     183, 184, 185, 186, 194, 195, 196, 197, 198, 199, 200, 201, 202, 210, 211, 212, 213, 214, 215, 216,
     217, 218, 225, 226, 227, 228, 229, 230, 231, 232, 233, 234, 241, 242, 243, 244, 245, 246, 247, 248,
     249, 250]"

definition bits_ac_chrominance :: "u8 list" where
  "bits_ac_chrominance =
    [0, 0, 2, 1, 2, 4, 4, 3, 4, 7, 5, 4, 4, 0, 1, 2, 119]"

definition val_ac_chrominance :: "u8 list" where
  "val_ac_chrominance =
    [0, 1, 2, 3, 17, 4, 5, 33, 49, 6, 18, 65, 81, 7, 97, 113, 19, 34, 50, 129,
     8, 20, 66, 145, 161, 177, 193, 9, 35, 51, 82, 240, 21, 98, 114, 209, 10, 22, 36, 52,
     225, 37, 241, 23, 24, 25, 26, 38, 39, 40, 41, 42, 53, 54, 55, 56, 57, 58, 67, 68,
     69, 70, 71, 72, 73, 74, 83, 84, 85, 86, 87, 88, 89, 90, 99, 100, 101, 102, 103, 104,
     105, 106, 115, 116, 117, 118, 119, 120, 121, 122, 130, 131, 132, 133, 134, 135, 136, 137, 138, 146,
     147, 148, 149, 150, 151, 152, 153, 154, 162, 163, 164, 165, 166, 167, 168, 169, 170, 178, 179, 180,
     181, 182, 183, 184, 185, 186, 194, 195, 196, 197, 198, 199, 200, 201, 202, 210, 211, 212, 213, 214,
     215, 216, 217, 218, 226, 227, 228, 229, 230, 231, 232, 233, 234, 242, 243, 244, 245, 246, 247, 248,
     249, 250]"

text \<open>
  An existing table is kept. The bytes of \<open>huffval\<close> after the copied symbols are what the
  freshly allocated table held, \<open>junk\<close>.
\<close>

definition add_huff_table ::
  "u8 list \<Rightarrow> JHUFF_TBL option \<Rightarrow> u8 list \<Rightarrow> u8 list \<Rightarrow> jerr + JHUFF_TBL" where
  "add_huff_table junk htblptr bits' val' =
     (case htblptr of
        Some h \<Rightarrow> Inr h
      | None \<Rightarrow>
          let nsymbols = sum_list (map (\<lambda>len. unat (bits' ! len)) [1..<17])
          in if nsymbols < 1 \<or> 256 < nsymbols then Inl JERR_BAD_HUFF_TABLE
             else Inr \<lparr>bits = bits', huffval = take nsymbols val' @ drop nsymbols junk, sent_table = False\<rparr>)"

definition std_huff_tables ::
  "u8 list \<Rightarrow> JHUFF_TBL option list \<Rightarrow> JHUFF_TBL option list \<Rightarrow>
   jerr + (JHUFF_TBL option list \<times> JHUFF_TBL option list)" where
  "std_huff_tables junk dcs acs =
     ebind (add_huff_table junk (dcs ! 0) bits_dc_luminance val_dc_luminance) (\<lambda>d0.
     ebind (add_huff_table junk (acs ! 0) bits_ac_luminance val_ac_luminance) (\<lambda>a0.
     ebind (add_huff_table junk (dcs ! 1) bits_dc_chrominance val_dc_chrominance) (\<lambda>d1.
     ebind (add_huff_table junk (acs ! 1) bits_ac_chrominance val_ac_chrominance) (\<lambda>a1.
     Inr (dcs[0 := Some d0, 1 := Some d1], acs[0 := Some a0, 1 := Some a1])))))"

section \<open>The lengths\<close>

definition sizes_of :: "JHUFF_TBL \<Rightarrow> nat list \<Rightarrow> nat list" where
  "sizes_of htbl ls = concat (map (\<lambda>l. replicate (unat (bits htbl ! l)) l) ls)"

lemma sizes_of_simps [simp]:
  "sizes_of htbl [] = []"
  "sizes_of htbl (l # ls) = replicate (unat (bits htbl ! l)) l @ sizes_of htbl ls"
  "sizes_of htbl (ls @ ms) = sizes_of htbl ls @ sizes_of htbl ms"
  by (simp_all add: sizes_of_def)

lemma set_sizes_of: "set (sizes_of htbl ls) \<subseteq> set ls"
  by (auto simp: sizes_of_def)

lemma sorted_sizes_of: "sorted ls \<Longrightarrow> sorted (sizes_of htbl ls)"
proof (induction ls)
  case (Cons l ls)
  then show ?case using set_sizes_of [of htbl ls] by (auto simp: sorted_append)
qed simp

lemma fill_huffsize_eq:
  "length acc \<le> 256 \<Longrightarrow> fill_huffsize htbl ls acc =
     (if length acc + length (sizes_of htbl ls) \<le> 256 then Inr (acc @ sizes_of htbl ls)
      else Inl JERR_BAD_HUFF_TABLE)"
  by (induction htbl ls acc rule: fill_huffsize.induct) (simp_all add: Let_def)

lemma huff_sizes_eq:
  "huff_sizes htbl =
     (if length (sizes_of htbl [1..<17]) \<le> 256 then Inr (sizes_of htbl [1..<17]) else Inl JERR_BAD_HUFF_TABLE)"
  by (simp add: huff_sizes_def fill_huffsize_eq)

section \<open>Canonical codes\<close>

definition canonical :: "nat list \<Rightarrow> nat list \<Rightarrow> bool" where
  "canonical hs cs \<longleftrightarrow> length cs = length hs \<and> sorted hs \<and> (\<forall>s \<in> set hs. 1 \<le> s \<and> s \<le> 16) \<and>
     (hs \<noteq> [] \<longrightarrow> cs ! 0 = 0) \<and>
     (\<forall>p. Suc p < length hs \<longrightarrow> cs ! Suc p = (cs ! p + 1) * 2 ^ (hs ! Suc p - hs ! p)) \<and>
     (\<forall>p < length hs. cs ! p + 1 < 2 ^ (hs ! p))"

lemma next_length_eq:
  "next_length k si code = (if k = 0 \<or> code < 2 ^ si then Inr (code * 2 ^ k) else Inl JERR_BAD_HUFF_TABLE)"
  by (induction k si code rule: next_length.induct) auto

lemma gen_codes_check: "gen_codes hs si code = Inr cs \<Longrightarrow> sorted (si # hs) \<Longrightarrow> code < 2 ^ si"
proof (induction hs si code arbitrary: cs rule: gen_codes.induct)
  case (2 s hs si code)
  from "2.prems" obtain c cs' where c: "next_length (s - si) si code = Inr c"
    and g: "gen_codes hs s (c + 1) = Inr cs'"
    by (auto simp: result_simps)
  show ?case
  proof (cases "s = si")
    case True
    with c have "c = code" by simp
    with "2.IH" [OF c g] "2.prems" True show ?thesis by simp
  next
    case False
    with "2.prems" c show ?thesis by (auto simp: next_length_eq split: if_splits)
  qed
qed (auto split: if_splits)

lemma gen_codes_length: "gen_codes hs si code = Inr cs \<Longrightarrow> length cs = length hs"
  by (induction hs si code arbitrary: cs rule: gen_codes.induct) (auto simp: result_simps split: if_splits)

lemma gen_codes_props:
  assumes "gen_codes hs si code = Inr cs" "sorted (si # hs)"
  shows "(hs \<noteq> [] \<longrightarrow> cs ! 0 = code * 2 ^ (hs ! 0 - si)) \<and>
    (\<forall>p. Suc p < length hs \<longrightarrow> cs ! Suc p = (cs ! p + 1) * 2 ^ (hs ! Suc p - hs ! p)) \<and>
    (\<forall>p < length hs. cs ! p + 1 < 2 ^ (hs ! p))"
  using assms
proof (induction hs si code arbitrary: cs rule: gen_codes.induct)
  case (2 s hs si code)
  from "2.prems" obtain c cs' where c: "next_length (s - si) si code = Inr c"
    and g: "gen_codes hs s (c + 1) = Inr cs'" and cs: "cs = c # cs'"
    by (auto simp: result_simps)
  have srt: "sorted (s # hs)" using "2.prems" by simp
  note IH = "2.IH" [OF c g srt]
  have "c + 1 < 2 ^ s" using gen_codes_check [OF g srt] .
  moreover have "c = code * 2 ^ (s - si)" using c by (auto simp: next_length_eq split: if_splits)
  ultimately show ?case using IH
    by (auto simp: cs nth_Cons split: nat.splits)
qed (auto split: if_splits)

lemma huff_codes_canonical:
  assumes "huff_sizes htbl = Inr hs" "huff_codes hs = Inr cs"
  shows "canonical hs cs"
proof -
  have hs: "hs = sizes_of htbl [1..<17]" using assms(1) by (simp add: huff_sizes_eq split: if_splits)
  have "sorted hs" "\<forall>s \<in> set hs. 1 \<le> s \<and> s \<le> 16"
    using set_sizes_of [of htbl "[1..<17]"] by (force simp: hs intro!: sorted_sizes_of)+
  moreover have "sorted ((case hs of [] \<Rightarrow> 0 | s # _ \<Rightarrow> s) # hs)"
    using \<open>sorted hs\<close> by (cases hs) auto
  with assms(2) have "(hs \<noteq> [] \<longrightarrow> cs ! 0 = 0) \<and>
    (\<forall>p. Suc p < length hs \<longrightarrow> cs ! Suc p = (cs ! p + 1) * 2 ^ (hs ! Suc p - hs ! p)) \<and>
    (\<forall>p < length hs. cs ! p + 1 < 2 ^ (hs ! p))"
    unfolding huff_codes_def by (auto dest!: gen_codes_props)
  ultimately show ?thesis
    using gen_codes_length assms(2) unfolding canonical_def huff_codes_def by blast
qed

lemma canonical_step:
  assumes "canonical hs cs" "p < q" "q < length hs"
  shows "(cs ! p + 1) * 2 ^ (hs ! q - hs ! p) \<le> cs ! q"
  using assms(2,3)
proof (induction q)
  case (Suc q)
  have nx: "cs ! Suc q = (cs ! q + 1) * 2 ^ (hs ! Suc q - hs ! q)"
    using assms(1) Suc.prems by (simp add: canonical_def)
  show ?case
  proof (cases "p = q")
    case True
    with nx show ?thesis by simp
  next
    case False
    then have IH: "(cs ! p + 1) * 2 ^ (hs ! q - hs ! p) \<le> cs ! q" using Suc by simp
    have le: "hs ! p \<le> hs ! q" "hs ! q \<le> hs ! Suc q"
      using assms(1) Suc.prems False by (auto simp: canonical_def intro: sorted_nth_mono)
    then have "(2::nat) ^ (hs ! Suc q - hs ! p) = 2 ^ (hs ! q - hs ! p) * 2 ^ (hs ! Suc q - hs ! q)"
      by (simp flip: power_add)
    then have "(cs ! p + 1) * 2 ^ (hs ! Suc q - hs ! p) \<le> cs ! q * 2 ^ (hs ! Suc q - hs ! q)"
      using IH by (simp add: mult.assoc [symmetric] del: mult_Suc)
    also have "\<dots> \<le> cs ! Suc q" by (simp add: nx)
    finally show ?thesis .
  qed
qed simp

lemma canonical_less: "canonical hs cs \<Longrightarrow> p < length hs \<Longrightarrow> cs ! p < 2 ^ (hs ! p)"
  by (auto simp: canonical_def intro: Suc_lessD)

lemma canonical_prefix:
  assumes can: "canonical hs cs" and p: "p < length hs" and q: "q < length hs"
    and le: "hs ! p \<le> hs ! q" and eq: "cs ! q div 2 ^ (hs ! q - hs ! p) = cs ! p"
  shows "p = q"
proof (rule ccontr)
  assume "p \<noteq> q"
  then consider "p < q" | "q < p" by arith
  then show False
  proof cases
    case 1
    from canonical_step [OF can this q] have "cs ! p + 1 \<le> cs ! q div 2 ^ (hs ! q - hs ! p)"
      by (simp add: less_eq_div_iff_mult_less_eq)
    with eq show False by simp
  next
    case 2
    then have "hs ! q \<le> hs ! p" using can p by (auto simp: canonical_def intro: sorted_nth_mono)
    with le have "hs ! p = hs ! q" by simp
    with canonical_step [OF can 2 p] eq show False by simp
  qed
qed

section \<open>The encoder's table\<close>

definition derived_enc :: "c_derived_tbl \<Rightarrow> JHUFF_TBL \<Rightarrow> nat list \<Rightarrow> nat list \<Rightarrow> bool" where
  "derived_enc dtbl htbl hs cs \<longleftrightarrow> length (ehufco dtbl) = 256 \<and> length (ehufsi dtbl) = 256 \<and>
     (\<forall>p < length hs. ehufco dtbl ! unat (huffval htbl ! p) = cs ! p \<and> ehufsi dtbl ! unat (huffval htbl ! p) = hs ! p) \<and>
     (\<forall>i < 256. ehufsi dtbl ! i \<noteq> 0 \<longrightarrow> (\<exists>p < length hs. unat (huffval htbl ! p) = i))"

lemma fill_ehuf_props:
  assumes "fill_ehuf m xs d = Inr d'" "length (ehufco d) = 256" "length (ehufsi d) = 256"
    "\<forall>(v, co, sz) \<in> set xs. sz \<noteq> 0"
  shows "length (ehufco d') = 256 \<and> length (ehufsi d') = 256 \<and> distinct (map fst xs) \<and>
    (\<forall>(v, co, sz) \<in> set xs. ehufco d' ! unat v = co \<and> ehufsi d' ! unat v = sz \<and> unat v \<le> m \<and> ehufsi d ! unat v = 0) \<and>
    (\<forall>i. i \<notin> unat ` fst ` set xs \<longrightarrow> ehufco d' ! i = ehufco d ! i \<and> ehufsi d' ! i = ehufsi d ! i)"
  using assms
proof (induction m xs d arbitrary: d' rule: fill_ehuf.induct)
  case (2 m v co sz rest d)
  have v: "unat v < 256" using unsigned_less [of v, where 'a = nat] by simp
  let ?d = "d\<lparr>ehufco := (ehufco d)[unat v := co], ehufsi := (ehufsi d)[unat v := sz]\<rparr>"
  from "2.prems"(1) have c: "unat v \<le> m" "ehufsi d ! unat v = 0" and f: "fill_ehuf m rest ?d = Inr d'"
    by (auto simp: Let_def split: if_splits)
  have "\<not> (m < unat v \<or> ehufsi d ! unat v \<noteq> 0)" using c by simp
  note IH = "2.IH" [OF refl this f, simplified]
  have nv: "v \<notin> fst ` set rest"
  proof
    assume "v \<in> fst ` set rest"
    then obtain co' sz' where "(v, co', sz') \<in> set rest" by auto
    then have "ehufsi ?d ! unat v = 0" using IH "2.prems" by fastforce
    then show False using "2.prems" v by simp
  qed
  then have nv': "unat v \<notin> unat ` fst ` set rest" by (force simp: word_unat_eq_iff [symmetric])
  have old: "ehufsi d ! unat v' = 0" if "(v', co', sz') \<in> set rest" for v' co' sz'
  proof -
    have "v' \<noteq> v" using that nv by force
    then have "unat v' \<noteq> unat v" by (simp add: word_unat_eq_iff)
    then show ?thesis using IH that "2.prems" by fastforce
  qed
  show ?case
    using IH "2.prems" c v nv nv' old by (auto simp: nth_list_update)
qed auto

lemma huff_sizes_le: "huff_sizes htbl = Inr hs \<Longrightarrow> length hs \<le> 256"
  unfolding huff_sizes_eq by (simp split: if_splits del: upt.simps)

lemma find_htbl_mem: "find_htbl ptrs tblno = Inr h \<Longrightarrow> length ptrs = 4 \<Longrightarrow> Some h \<in> set ptrs"
proof -
  assume f: "find_htbl ptrs tblno = Inr h" and l: "length ptrs = 4"
  then have "nat tblno < length ptrs" "ptrs ! nat tblno = Some h"
    by (auto simp: find_htbl_def NUM_HUFF_TBLS_def split: if_splits option.splits)
  then show ?thesis by (metis nth_mem)
qed

lemma make_c_derived:
  assumes "jpeg_make_c_derived_tbl ptrs isDC tblno d = Inr dtbl"
    and "length (ehufco d) = 256" "\<forall>h. Some h \<in> set ptrs \<longrightarrow> wf_htbl h" "length ptrs = 4"
  obtains htbl hs cs where "find_htbl ptrs tblno = Inr htbl" "wf_htbl htbl" "huff_sizes htbl = Inr hs" "huff_codes hs = Inr cs"
    "canonical hs cs" "length hs \<le> 256" "derived_enc dtbl htbl hs cs" "distinct (take (length hs) (huffval htbl))"
    "\<forall>p < length hs. unat (huffval htbl ! p) \<le> (if isDC then 15 else 255)"
proof -
  from assms(1) obtain htbl hs cs where f: "find_htbl ptrs tblno = Inr htbl" and hs: "huff_sizes htbl = Inr hs"
    and cs: "huff_codes hs = Inr cs"
    and fe: "fill_ehuf (if isDC then 15 else 255) (zip (huffval htbl) (zip cs hs)) (d\<lparr>ehufsi := replicate 256 0\<rparr>) = Inr dtbl"
    by (auto simp: jpeg_make_c_derived_tbl_def result_simps)
  have wf: "wf_htbl htbl" using find_htbl_mem [OF f assms(4)] assms(3) by simp
  have can: "canonical hs cs" using hs cs by (rule huff_codes_canonical)
  have len: "length hs \<le> 256" "length cs = length hs" "length (huffval htbl) = 256"
    using huff_sizes_le [OF hs] can wf by (simp_all add: canonical_def wf_htbl_def)
  let ?xs = "zip (huffval htbl) (zip cs hs)"
  have "\<forall>(v, co, sz) \<in> set ?xs. sz \<noteq> 0"
    using can by (auto simp: canonical_def dest!: set_zip_rightD)
  from fill_ehuf_props [OF fe _ _ this] assms(2)
  have P: "length (ehufco dtbl) = 256 \<and> length (ehufsi dtbl) = 256 \<and> distinct (map fst ?xs) \<and>
    (\<forall>(v, co, sz) \<in> set ?xs. ehufco dtbl ! unat v = co \<and> ehufsi dtbl ! unat v = sz \<and> unat v \<le> (if isDC then 15 else 255)) \<and>
    (\<forall>i. i \<notin> unat ` fst ` set ?xs \<longrightarrow> ehufsi dtbl ! i = replicate 256 0 ! i)"
    by auto
  have el: "(huffval htbl ! p, cs ! p, hs ! p) \<in> set ?xs" if "p < length hs" for p
    using that len by (auto simp: set_zip intro!: exI [of _ p])
  have fst: "map fst ?xs = take (length hs) (huffval htbl)" using len by (simp add: map_fst_zip_take)
  have sts: "\<exists>p < length hs. unat (huffval htbl ! p) = i" if "i \<in> unat ` fst ` set ?xs" for i
    using that len by (auto simp: set_zip)
  from P have at: "ehufco dtbl ! unat v = co \<and> ehufsi dtbl ! unat v = sz \<and> unat v \<le> (if isDC then 15 else 255)"
    if "(v, co, sz) \<in> set ?xs" for v co sz using that by blast
  have "\<exists>p < length hs. unat (huffval htbl ! p) = i" if "i < 256" "ehufsi dtbl ! i \<noteq> 0" for i
  proof (rule ccontr)
    assume "\<not> ?thesis"
    then have "ehufsi dtbl ! i = replicate 256 0 ! i" using sts P by blast
    with that show False by simp
  qed
  then have "derived_enc dtbl htbl hs cs"
    unfolding derived_enc_def using P at [OF el] by simp
  moreover have "\<forall>p < length hs. unat (huffval htbl ! p) \<le> (if isDC then 15 else 255)"
    using at [OF el] by simp
  ultimately show ?thesis
    using that [OF f wf hs cs can len(1)] P fst by simp
qed

section \<open>The decoder's table\<close>

text \<open>Index of the first symbol of length \<open>l\<close>.\<close>

definition first_of :: "JHUFF_TBL \<Rightarrow> nat \<Rightarrow> nat" where
  "first_of htbl l = length (sizes_of htbl [1..<l])"

definition derived_dec :: "d_derived_tbl \<Rightarrow> JHUFF_TBL \<Rightarrow> nat list \<Rightarrow> nat list \<Rightarrow> bool" where
  "derived_dec dtbl htbl hs cs \<longleftrightarrow> pub dtbl = htbl \<and> length (lookup dtbl) = 256 \<and>
     length (maxcode dtbl) = 18 \<and> length (valoffset dtbl) = 18 \<and>
     maxcode dtbl ! 17 = 0xFFFFF \<and> valoffset dtbl ! 17 = 0 \<and>
     (\<forall>l. 1 \<le> l \<and> l \<le> 16 \<and> l \<notin> set hs \<longrightarrow> maxcode dtbl ! l = -1) \<and>
     (\<forall>l. 1 \<le> l \<and> l \<le> 16 \<and> l \<in> set hs \<longrightarrow>
        (\<exists>q < length hs. hs ! q = l \<and> maxcode dtbl ! l = int (cs ! q) \<and> (\<forall>p < length hs. hs ! p = l \<longrightarrow> p \<le> q))) \<and>
     (\<forall>p < length hs. valoffset dtbl ! (hs ! p) = int p - int (cs ! p)) \<and>
     (\<forall>p < length hs. hs ! p \<le> 8 \<longrightarrow> (\<forall>w < 256. w div 2 ^ (8 - hs ! p) = cs ! p \<longrightarrow>
        lookup dtbl ! w = hs ! p * 256 + unat (huffval htbl ! p))) \<and>
     (\<forall>w < 256. (\<forall>p < length hs. hs ! p \<le> 8 \<longrightarrow> w div 2 ^ (8 - hs ! p) \<noteq> cs ! p) \<longrightarrow> lookup dtbl ! w = 9 * 256)"

lemma fill_maxcode_other:
  "l \<notin> set ls \<Longrightarrow> maxcode (fill_maxcode htbl cs ls p d) ! l = maxcode d ! l \<and>
     valoffset (fill_maxcode htbl cs ls p d) ! l = valoffset d ! l"
  by (induction htbl cs ls p d rule: fill_maxcode.induct) (simp_all add: Let_def)

lemma fill_maxcode_frame [simp]:
  "length (maxcode (fill_maxcode htbl cs ls p d)) = length (maxcode d)"
  "length (valoffset (fill_maxcode htbl cs ls p d)) = length (valoffset d)"
  "pub (fill_maxcode htbl cs ls p d) = pub d"
  by (induction htbl cs ls p d rule: fill_maxcode.induct) (simp_all add: Let_def)

lemma fill_maxcode_nth:
  fixes htbl :: JHUFF_TBL and p :: nat
  assumes "distinct (pre @ l # post)" "l < length (maxcode d)" "l < length (valoffset d)"
  defines "q \<equiv> p + length (sizes_of htbl pre)" and "n \<equiv> unat (bits htbl ! l)"
  shows "maxcode (fill_maxcode htbl cs (pre @ l # post) p d) ! l = (if n = 0 then -1 else int (cs ! (q + n - 1)))"
    and "n \<noteq> 0 \<Longrightarrow> valoffset (fill_maxcode htbl cs (pre @ l # post) p d) ! l = int q - int (cs ! q)"
proof -
  have "maxcode (fill_maxcode htbl cs (pre @ l # post) p d) ! l = (if n = 0 then -1 else int (cs ! (p + length (sizes_of htbl pre) + n - 1))) \<and>
    (n \<noteq> 0 \<longrightarrow> valoffset (fill_maxcode htbl cs (pre @ l # post) p d) ! l =
       int (p + length (sizes_of htbl pre)) - int (cs ! (p + length (sizes_of htbl pre))))"
    using assms(1-3) unfolding n_def
  proof (induction pre arbitrary: p d)
    case Nil
    then show ?case by (auto simp: Let_def fill_maxcode_other)
  next
    case (Cons a pre)
    then show ?case by (auto simp: Let_def add.assoc unsigned_eq_0_iff)
  qed
  then show "maxcode (fill_maxcode htbl cs (pre @ l # post) p d) ! l = (if n = 0 then -1 else int (cs ! (q + n - 1)))"
    and "n \<noteq> 0 \<Longrightarrow> valoffset (fill_maxcode htbl cs (pre @ l # post) p d) ! l = int q - int (cs ! q)"
    by (simp_all add: q_def)
qed

lemma sizes_of_split:
  assumes "1 \<le> l" "l \<le> 16"
  shows "sizes_of htbl [1..<17] = sizes_of htbl [1..<l] @ replicate (unat (bits htbl ! l)) l @ sizes_of htbl [Suc l..<17]"
    and "[1..<17] = [1..<l] @ l # [Suc l..<17]"
proof -
  show s: "[1..<17] = [1..<l] @ l # [Suc l..<17]"
    using assms upt_add_eq_append [of 1 l "17 - l"] upt_conv_Cons [of l 17] by simp
  show "sizes_of htbl [1..<17] = sizes_of htbl [1..<l] @ replicate (unat (bits htbl ! l)) l @ sizes_of htbl [Suc l..<17]"
    by (subst s) simp
qed

lemma sizes_of_nth_iff:
  assumes "1 \<le> l" "l \<le> 16" "p < length (sizes_of htbl [1..<17])"
  shows "sizes_of htbl [1..<17] ! p = l \<longleftrightarrow> first_of htbl l \<le> p \<and> p < first_of htbl l + unat (bits htbl ! l)"
proof -
  have lo: "sizes_of htbl [1..<l] ! i < l" if "i < length (sizes_of htbl [1..<l])" for i
    using set_sizes_of [of htbl "[1..<l]"] nth_mem [OF that] by auto
  have hi: "l < sizes_of htbl [Suc l..<17] ! i" if "i < length (sizes_of htbl [Suc l..<17])" for i
    using set_sizes_of [of htbl "[Suc l..<17]"] nth_mem [OF that] by auto
  show ?thesis
    using assms(3) lo [of p] hi [of "p - (first_of htbl l + unat (bits htbl ! l))"]
    unfolding sizes_of_split(1) [OF assms(1,2)] first_of_def
    by (auto simp: nth_append not_less less_diff_conv2 simp del: upt.simps)
qed

lemma fill_patterns_nth:
  "j < length tab \<Longrightarrow> fill_patterns ctr lb e tab ! j = (if lb \<le> j \<and> j < lb + ctr then e else tab ! j)"
  by (induction ctr lb e tab rule: fill_patterns.induct) (auto simp: nth_list_update)

lemma length_fill_patterns [simp]: "length (fill_patterns ctr lb e tab) = length tab"
  by (induction ctr lb e tab rule: fill_patterns.induct) simp_all

definition covers :: "nat \<Rightarrow> nat \<Rightarrow> nat \<Rightarrow> bool" where
  "covers l c j \<longleftrightarrow> l \<le> 8 \<and> j div 2 ^ (8 - l) = c"

lemma div_pow_eq_iff: "(j div 2 ^ k = c) \<longleftrightarrow> (c * 2 ^ k \<le> j \<and> j < c * 2 ^ k + (2::nat) ^ k)"
proof
  assume "j div 2 ^ k = c"
  moreover have "j = j div 2 ^ k * 2 ^ k + j mod 2 ^ k" by (rule div_mult_mod_eq [symmetric])
  moreover have "j mod 2 ^ k < 2 ^ k" by simp
  ultimately show "c * 2 ^ k \<le> j \<and> j < c * 2 ^ k + 2 ^ k"
    by (metis add_strict_left_mono le_add1)
qed (auto intro: div_nat_eqI simp: mult.commute)

lemma lookup_entry: "push_bit 8 l OR unat (v::u8) = l * 256 + unat v"
proof -
  have "push_bit 8 l + unat v = push_bit 8 l OR unat v"
  proof (rule disjunctive_add_eq_or, rule bit_eqI)
    fix n
    show "bit (push_bit 8 l AND unat v) n = bit 0 n"
      using bit_imp_le_length [of v n] by (auto simp: bit_simps)
  qed
  then show ?thesis by (simp add: push_bit_eq_mult)
qed

lemma canonical_same:
  assumes "canonical hs cs" "p \<le> q" "q < length hs" "hs ! p = hs ! q"
  shows "cs ! q = cs ! p + (q - p)"
  using assms(2-4)
proof (induction q)
  case (Suc q)
  show ?case
  proof (cases "p = Suc q")
    case False
    with Suc.prems have "p \<le> q" by simp
    then have "hs ! p \<le> hs ! q" "hs ! q \<le> hs ! Suc q"
      using assms(1) Suc.prems sorted_nth_mono [of hs p q] sorted_nth_mono [of hs q "Suc q"]
      by (simp_all add: canonical_def)
    then have "hs ! q = hs ! Suc q" "hs ! p = hs ! q" using Suc.prems by simp_all
    with Suc \<open>p \<le> q\<close> assms(1) show ?thesis by (simp add: canonical_def)
  qed simp
qed simp

lemma length_fill_lookup [simp]: "length (fill_lookup xs tab) = length tab"
  by (induction xs tab rule: fill_lookup.induct) simp_all

lemma fill_lookup_nth_Cons:
  "j < length tab \<Longrightarrow> \<forall>(v, c, l) \<in> set xs. \<not> covers l c j \<Longrightarrow> fill_lookup xs tab ! j = tab ! j"
  by (induction xs tab rule: fill_lookup.induct)
    (auto simp: fill_patterns_nth covers_def div_pow_eq_iff HUFF_LOOKAHEAD_def push_bit_eq_mult)

lemma fill_lookup_covered:
  assumes "j < length tab" "covers l c j" "\<forall>(v, c, l) \<in> set bs. \<not> covers l c j"
  shows "fill_lookup (as @ (v, c, l) # bs) tab ! j = l * 256 + unat v"
  using assms
proof (induction as arbitrary: tab)
  case Nil
  then show ?case
    using fill_lookup_nth_Cons [OF _ Nil(3), of "fill_patterns (2 ^ (8 - l)) (push_bit (8 - l) c) (push_bit 8 l OR unat v) tab"]
    by (auto simp: fill_patterns_nth covers_def div_pow_eq_iff HUFF_LOOKAHEAD_def lookup_entry [unfolded push_bit_eq_mult, simplified] push_bit_eq_mult)
next
  case (Cons a as)
  then show ?case by (cases a) auto
qed

lemma make_d_derived:
  assumes "jpeg_make_d_derived_tbl ptrs isDC tblno d = Inr dtbl"
    and "length (maxcode d) = 18" "length (valoffset d) = 18"
    and "\<forall>h. Some h \<in> set ptrs \<longrightarrow> wf_htbl h" "length ptrs = 4"
  obtains htbl hs cs where "find_htbl ptrs tblno = Inr htbl" "wf_htbl htbl" "huff_sizes htbl = Inr hs" "huff_codes hs = Inr cs"
    "canonical hs cs" "length hs \<le> 256" "derived_dec dtbl htbl hs cs"
    "isDC \<longrightarrow> (\<forall>p < length hs. unat (huffval htbl ! p) \<le> 15)"
proof -
  from assms(1) obtain htbl hs cs where f: "find_htbl ptrs tblno = Inr htbl" and hs: "huff_sizes htbl = Inr hs"
    and cs: "huff_codes hs = Inr cs"
    and dt: "dtbl = (let dtbl = fill_maxcode htbl cs [1..<17] 0 (d\<lparr>pub := htbl\<rparr>) in
      dtbl\<lparr>valoffset := (valoffset dtbl)[17 := 0], maxcode := (maxcode dtbl)[17 := 0xFFFFF],
           lookup := fill_lookup (zip (huffval htbl) (zip cs hs)) (replicate 256 (9 * 256))\<rparr>)"
    and dc: "isDC \<longrightarrow> (\<forall>v \<in> set (take (length hs) (huffval htbl)). unat v \<le> 15)"
    by (auto simp: jpeg_make_d_derived_tbl_def result_simps Let_def HUFF_LOOKAHEAD_def push_bit_eq_mult not_less
        split: if_splits simp del: upt.simps)
  have wf: "wf_htbl htbl" using find_htbl_mem [OF f assms(5)] assms(4) by simp
  have can: "canonical hs cs" using hs cs by (rule huff_codes_canonical)
  have len: "length hs \<le> 256" "length cs = length hs" "length (huffval htbl) = 256"
    using huff_sizes_le [OF hs] can wf by (simp_all add: canonical_def wf_htbl_def)
  have hse: "hs = sizes_of htbl [1..<17]" using hs unfolding huff_sizes_eq by (simp split: if_splits del: upt.simps)
  have rng: "1 \<le> hs ! p \<and> hs ! p \<le> 16" if "p < length hs" for p
    using can that by (simp add: canonical_def)
  let ?xs = "zip (huffval htbl) (zip cs hs)"
  define F where "F = fill_maxcode htbl cs [1..<17] 0 (d\<lparr>pub := htbl\<rparr>)"
  define n where "n l = unat (bits htbl ! l)" for l
  have F_l: "maxcode F ! l = (if n l = 0 then -1 else int (cs ! (first_of htbl l + n l - 1)))"
    "n l \<noteq> 0 \<Longrightarrow> valoffset F ! l = int (first_of htbl l) - int (cs ! first_of htbl l)" if "1 \<le> l" "l \<le> 16" for l
  proof -
    have "distinct ([1..<l] @ l # [Suc l..<17])" using sizes_of_split(2) [OF that] by (metis distinct_upt)
    from fill_maxcode_nth [OF this, of "d\<lparr>pub := htbl\<rparr>" htbl cs 0] assms(2,3) that
    show "maxcode F ! l = (if n l = 0 then -1 else int (cs ! (first_of htbl l + n l - 1)))"
      "n l \<noteq> 0 \<Longrightarrow> valoffset F ! l = int (first_of htbl l) - int (cs ! first_of htbl l)"
      unfolding F_def sizes_of_split(2) [OF that] n_def first_of_def by (simp_all del: upt.simps)
  qed
  have iff: "hs ! p = l \<longleftrightarrow> first_of htbl l \<le> p \<and> p < first_of htbl l + n l"
    if "1 \<le> l" "l \<le> 16" "p < length hs" for l p
    using sizes_of_nth_iff [OF that(1,2)] that(3) by (simp add: hse n_def del: upt.simps)
  have inb: "first_of htbl l + n l \<le> length hs" if "1 \<le> l" "l \<le> 16" for l
    unfolding hse sizes_of_split(1) [OF that] by (simp add: first_of_def n_def del: upt.simps)
  have mem: "l \<in> set hs \<longleftrightarrow> n l \<noteq> 0" if "1 \<le> l" "l \<le> 16" for l
  proof
    assume "l \<in> set hs"
    then obtain p where "p < length hs" "hs ! p = l" by (auto simp: in_set_conv_nth)
    with iff [OF that, of p] show "n l \<noteq> 0" by simp
  next
    assume "n l \<noteq> 0"
    then have "first_of htbl l < length hs" "hs ! first_of htbl l = l"
      using inb [OF that] iff [OF that, of "first_of htbl l"] by simp_all
    then show "l \<in> set hs" by (metis nth_mem)
  qed
  have voff: "valoffset F ! (hs ! p) = int p - int (cs ! p)" if "p < length hs" for p
  proof -
    note r = rng [OF that]
    from iff [OF _ _ that, of "hs ! p"] r have p: "first_of htbl (hs ! p) \<le> p" "n (hs ! p) \<noteq> 0" by auto
    moreover have "hs ! first_of htbl (hs ! p) = hs ! p"
      using iff [of "hs ! p" "first_of htbl (hs ! p)"] r p that by simp
    ultimately have "cs ! p = cs ! first_of htbl (hs ! p) + (p - first_of htbl (hs ! p))"
      using canonical_same [OF can] that by simp
    with F_l(2) [of "hs ! p"] r p show ?thesis by simp
  qed
  have mx: "\<exists>q < length hs. hs ! q = l \<and> maxcode F ! l = int (cs ! q) \<and> (\<forall>p < length hs. hs ! p = l \<longrightarrow> p \<le> q)"
    if "1 \<le> l" "l \<le> 16" "l \<in> set hs" for l
  proof (intro exI conjI)
    let ?q = "first_of htbl l + n l - 1"
    have "n l \<noteq> 0" using mem that by simp
    then show "?q < length hs" using inb [OF that(1,2)] by simp
    with \<open>n l \<noteq> 0\<close> show "hs ! ?q = l" using iff [OF that(1,2)] by simp
    show "maxcode F ! l = int (cs ! ?q)" using F_l(1) [OF that(1,2)] \<open>n l \<noteq> 0\<close> by simp
    show "\<forall>p < length hs. hs ! p = l \<longrightarrow> p \<le> ?q" using iff [OF that(1,2)] by auto
  qed
  have lk: "lookup dtbl ! w = hs ! p * 256 + unat (huffval htbl ! p)"
    if "p < length hs" "hs ! p \<le> 8" "w < 256" "w div 2 ^ (8 - hs ! p) = cs ! p" for p w
  proof -
    have x: "?xs ! p = (huffval htbl ! p, cs ! p, hs ! p)" "p < length ?xs" using that len by simp_all
    have "\<not> covers l c w" if "(v, c, l) \<in> set (drop (Suc p) ?xs)" for v c l
    proof
      assume cov: "covers l c w"
      from that obtain i where i: "i < length (drop (Suc p) ?xs)" "drop (Suc p) ?xs ! i = (v, c, l)"
        by (auto simp: in_set_conv_nth)
      let ?q = "Suc p + i"
      have q: "?q < length hs" "cs ! ?q = c" "hs ! ?q = l" using i len by simp_all
      have le: "hs ! p \<le> hs ! ?q" using can q by (auto simp: canonical_def intro: sorted_nth_mono)
      have "cs ! ?q = w div 2 ^ (8 - hs ! ?q)" "hs ! ?q \<le> 8" using cov q by (simp_all add: covers_def)
      then have "cs ! ?q div 2 ^ (hs ! ?q - hs ! p) = w div 2 ^ (8 - hs ! p)"
        using le by (simp add: div_mult2_eq [symmetric] power_add [symmetric])
      then show False using canonical_prefix [OF can \<open>p < length hs\<close> q(1) le] that \<open>w div _ = _\<close> by simp
    qed
    then have "fill_lookup (take p ?xs @ (huffval htbl ! p, cs ! p, hs ! p) # drop (Suc p) ?xs) (replicate 256 (9 * 256)) ! w
        = hs ! p * 256 + unat (huffval htbl ! p)"
      using that by (intro fill_lookup_covered) (auto simp: covers_def)
    then show ?thesis
      using id_take_nth_drop [OF x(2)] x(1) by (simp add: dt Let_def)
  qed
  have lk9: "lookup dtbl ! w = 9 * 256"
    if "w < 256" "\<forall>p < length hs. hs ! p \<le> 8 \<longrightarrow> w div 2 ^ (8 - hs ! p) \<noteq> cs ! p" for w
  proof -
    have "\<not> covers l c w" if "(v, c, l) \<in> set ?xs" for v c l
    proof -
      from that obtain p where "p < length hs" "cs ! p = c" "hs ! p = l" using len by (auto simp: set_zip)
      with \<open>\<forall>p < length hs. _ p\<close> show ?thesis by (auto simp: covers_def)
    qed
    then show ?thesis using fill_lookup_nth_Cons [of w "replicate 256 (9 * 256)" ?xs] \<open>w < 256\<close>
      by (auto simp: dt Let_def)
  qed
  have dF: "maxcode dtbl = (maxcode F)[17 := 0xFFFFF]" "valoffset dtbl = (valoffset F)[17 := 0]"
    "pub dtbl = htbl" "length (lookup dtbl) = 256" "length (maxcode F) = 18" "length (valoffset F) = 18"
    using assms(2,3) by (simp_all add: dt Let_def F_def)
  have "maxcode dtbl ! l = -1" if "1 \<le> l" "l \<le> 16" "l \<notin> set hs" for l
    using F_l(1) [OF that(1,2)] mem that by (simp add: dF)
  moreover have "valoffset dtbl ! (hs ! p) = int p - int (cs ! p)" if "p < length hs" for p
    using voff [OF that] rng [OF that] by (simp add: dF)
  ultimately have "derived_dec dtbl htbl hs cs"
    unfolding derived_dec_def using mx lk lk9 by (auto simp: dF)
  moreover have "isDC \<longrightarrow> (\<forall>p < length hs. unat (huffval htbl ! p) \<le> 15)"
  proof (intro impI allI)
    fix p assume "isDC" "p < length hs"
    moreover have "huffval htbl ! p \<in> set (take (length hs) (huffval htbl))"
      using \<open>p < length hs\<close> len by (auto simp: in_set_conv_nth intro!: exI [of _ p])
    ultimately show "unat (huffval htbl ! p) \<le> 15" using dc by blast
  qed
  ultimately show ?thesis using that [OF f wf hs cs can len(1)] by blast
qed

end
