(* ===== verification/DestMgr.thy ===== *)
theory DestMgr imports Jutils begin

text \<open>
  Data destinations: the public part of \<open>jpeg_destination_mgr\<close>, the stdio manager and the memory
  manager of \<open>jdatadst.c\<close>, and TurboJPEG's memory manager of \<open>jdatadst-tj.c\<close>. The interface the
  entropy coder relies on is the locale \<open>destination\<close>; each manager is an interpretation of it.

  A buffer is a byte list of its allocated size; \<open>next_output_byte\<close> is kept as the offset of the
  next byte in that buffer.
\<close>

section \<open>The public part\<close>

record jpeg_destination_mgr =
  buffer :: "u8 list"
  next_output_byte :: nat
  free_in_buffer :: nat

definition OUTPUT_BUF_SIZE :: nat where
  "OUTPUT_BUF_SIZE = 4096"

section \<open>Standard I/O\<close>

record my_destination_mgr = jpeg_destination_mgr +
  outfile :: "u8 list"

text \<open>
  \<open>fwrite_ok file data\<close> is whether the C library could append all of \<open>data\<close>; otherwise nothing is
  said about the file, since the code takes the error exit.
\<close>

definition init_destination :: "u8 list \<Rightarrow> my_destination_mgr \<Rightarrow> my_destination_mgr" where
  "init_destination fresh dest =
     dest\<lparr>buffer := take OUTPUT_BUF_SIZE fresh, next_output_byte := 0, free_in_buffer := OUTPUT_BUF_SIZE\<rparr>"

definition empty_output_buffer ::
  "(u8 list \<Rightarrow> u8 list \<Rightarrow> bool) \<Rightarrow> my_destination_mgr \<Rightarrow> fault + (bool \<times> my_destination_mgr)" where
  "empty_output_buffer fwrite_ok dest =
     (let data = take OUTPUT_BUF_SIZE (buffer dest)
      in if \<not> fwrite_ok (outfile dest) data then Inl (ErrExit JERR_FILE_WRITE)
         else Inr (True, dest\<lparr>outfile := outfile dest @ data, next_output_byte := 0,
                             free_in_buffer := OUTPUT_BUF_SIZE\<rparr>))"

definition term_destination ::
  "(u8 list \<Rightarrow> u8 list \<Rightarrow> bool) \<Rightarrow> bool \<Rightarrow> my_destination_mgr \<Rightarrow> fault + my_destination_mgr" where
  "term_destination fwrite_ok ferror dest =
     (let datacount = OUTPUT_BUF_SIZE - free_in_buffer dest; data = take datacount (buffer dest)
      in if 0 < datacount \<and> \<not> fwrite_ok (outfile dest) data then Inl (ErrExit JERR_FILE_WRITE)
         else if ferror then Inl (ErrExit JERR_FILE_WRITE)
         else Inr (dest\<lparr>outfile := outfile dest @ data\<rparr>))"

section \<open>Memory\<close>

text \<open>
  \<open>malloc sz\<close> is the fresh block the allocator returns, or \<open>None\<close>. \<open>newbuffer\<close> is whether the
  manager owns the current block (a non-NULL \<open>newbuffer\<close>), \<open>alloc\<close> TurboJPEG's flag that the
  manager may reallocate; \<open>jdatadst.c\<close> has no such flag and always may. Sizes are 32-bit, so
  doubling the size of the block wraps around.
\<close>

record my_mem_destination_mgr = jpeg_destination_mgr +
  outbuffer :: "u8 list"
  outsize :: nat
  newbuffer :: bool
  bufsize :: nat
  alloc :: bool

definition empty_mem_output_buffer ::
  "(nat \<Rightarrow> u8 list option) \<Rightarrow> my_mem_destination_mgr \<Rightarrow> fault + (bool \<times> my_mem_destination_mgr)" where
  "empty_mem_output_buffer malloc dest =
     (if \<not> alloc dest then Inl (ErrExit JERR_BUFFER_SIZE) else
      let nextsize = (bufsize dest * 2) mod 2 ^ 32
      in case malloc nextsize of
           None \<Rightarrow> Inl (ErrExit (JERR_OUT_OF_MEMORY 10))
         | Some nextbuffer \<Rightarrow>
             if nextsize < bufsize dest then Inl OutOfBounds
             else Inr (True, dest\<lparr>newbuffer := True,
               next_output_byte := bufsize dest, free_in_buffer := bufsize dest,
               buffer := take (bufsize dest) (buffer dest) @ drop (bufsize dest) nextbuffer,
               bufsize := nextsize\<rparr>))"

definition term_mem_destination :: "my_mem_destination_mgr \<Rightarrow> my_mem_destination_mgr" where
  "term_mem_destination dest =
     (let dest = (if alloc dest then dest\<lparr>outbuffer := buffer dest\<rparr> else dest)
      in dest\<lparr>outsize := bufsize dest - free_in_buffer dest\<rparr>)"

text \<open>
  \<open>jpeg_mem_dest_tj\<close>: \<open>prev\<close> is the manager of an earlier image of the same object, \<open>same\<close> whether
  the caller passes back the very block that manager filled, \<open>block\<close> and \<open>sz0\<close> the block and
  size the caller passes (\<open>None\<close> for a NULL block).
\<close>

definition jpeg_mem_dest_tj ::
  "(nat \<Rightarrow> u8 list option) \<Rightarrow> my_mem_destination_mgr option \<Rightarrow> bool \<Rightarrow> u8 list option \<Rightarrow> nat \<Rightarrow> bool \<Rightarrow>
   fault + my_mem_destination_mgr" where
  "jpeg_mem_dest_tj malloc prev same block sz0 alloc' =
     (let reused = (prev \<noteq> None \<and> same \<and> block \<noteq> None \<and> alloc');
          start = (\<lambda>blk sz own.
            let bs = (case prev of Some d \<Rightarrow> if reused then bufsize d else sz | None \<Rightarrow> sz)
            in Inr \<lparr>buffer = blk, next_output_byte = 0, free_in_buffer = bs, outbuffer = blk,
                    outsize = sz, newbuffer = own, bufsize = bs, alloc = alloc'\<rparr>)
      in if block = None \<or> sz0 = 0
         then if alloc'
              then case malloc OUTPUT_BUF_SIZE of
                     None \<Rightarrow> Inl (ErrExit (JERR_OUT_OF_MEMORY 10))
                   | Some blk \<Rightarrow> start blk OUTPUT_BUF_SIZE True
              else Inl (ErrExit JERR_BUFFER_SIZE)
         else start (the block) sz0 (case prev of Some d \<Rightarrow> newbuffer d | None \<Rightarrow> False))"

section \<open>The interface\<close>

text \<open>
  What a client of a manager may rely on. \<open>handed d\<close> are the bytes handed over in earlier
  buffers; the bytes of the current one are those before \<open>next_output_byte\<close>. Emptying a full
  buffer loses no byte and leaves room.
\<close>

definition pending :: "'z jpeg_destination_mgr_scheme \<Rightarrow> u8 list" where
  "pending d = take (next_output_byte d) (buffer d)"

locale destination =
  fixes empty_buffer :: "'z jpeg_destination_mgr_scheme \<Rightarrow> fault + (bool \<times> 'z jpeg_destination_mgr_scheme)"
    and handed :: "'z jpeg_destination_mgr_scheme \<Rightarrow> u8 list"
    and dest_ok :: "'z jpeg_destination_mgr_scheme \<Rightarrow> bool"
  assumes dest_store: "dest_ok d \<Longrightarrow> length b = length (buffer d) \<Longrightarrow> n + f = length b \<Longrightarrow>
          dest_ok (d\<lparr>buffer := b, next_output_byte := n, free_in_buffer := f\<rparr>)"
    and handed_store: "handed (d\<lparr>buffer := b, next_output_byte := n, free_in_buffer := f\<rparr>) = handed d"
    and dest_bounds: "dest_ok d \<Longrightarrow> next_output_byte d + free_in_buffer d = length (buffer d)"
    and empty_full: "dest_ok d \<Longrightarrow> empty_buffer d = Inr (True, d') \<Longrightarrow>
          dest_ok d' \<and> 0 < free_in_buffer d' \<and> handed d' @ pending d' = handed d @ buffer d"
begin

text \<open>A client that fills a buffer, empties it and goes on sees one stream of bytes.\<close>

lemma empty_stream:
  "dest_ok d \<Longrightarrow> empty_buffer d = Inr (True, d') \<Longrightarrow> next_output_byte d = length (buffer d) \<Longrightarrow>
   handed d' @ pending d' = handed d @ pending d"
  using empty_full [of d d'] by (simp add: pending_def)

end

section \<open>The managers provide it\<close>

definition stdio_ok :: "my_destination_mgr \<Rightarrow> bool" where
  "stdio_ok d \<longleftrightarrow> length (buffer d) = OUTPUT_BUF_SIZE \<and> next_output_byte d + free_in_buffer d = OUTPUT_BUF_SIZE"

text \<open>
  \<open>al\<close> and \<open>lo\<close> record what no operation changes: the \<open>alloc\<close> flag, and that the block never gets
  smaller than it was.
\<close>

definition mem_ok :: "(nat \<Rightarrow> u8 list option) \<Rightarrow> bool \<Rightarrow> nat \<Rightarrow> my_mem_destination_mgr \<Rightarrow> bool" where
  "mem_ok malloc al lo d \<longleftrightarrow> alloc d = al \<and> lo \<le> bufsize d \<and> length (buffer d) = bufsize d \<and> 0 < bufsize d \<and> bufsize d < 2 ^ 32 \<and>
     next_output_byte d + free_in_buffer d = bufsize d \<and> (\<forall>n b. malloc n = Some b \<longrightarrow> length b = n)"

interpretation stdio: destination "empty_output_buffer fw" outfile stdio_ok for fw
  by unfold_locales
    (auto simp: empty_output_buffer_def stdio_ok_def pending_def Let_def OUTPUT_BUF_SIZE_def split: if_splits)

lemma empty_mem_True:
  "mem_ok malloc al lo d \<Longrightarrow> empty_mem_output_buffer malloc d = Inr (True, d') \<Longrightarrow>
   bufsize d' = 2 * bufsize d \<and> length (buffer d') = bufsize d' \<and> bufsize d' < 2 ^ 32 \<and>
   alloc d' = alloc d \<and> take (bufsize d) (buffer d') = buffer d \<and> next_output_byte d' = bufsize d \<and> free_in_buffer d' = bufsize d"
  by (cases "bufsize d < 2 ^ 31")
    (auto simp: empty_mem_output_buffer_def mem_ok_def Let_def mod_if split: if_splits option.splits)

interpretation mem: destination "empty_mem_output_buffer ma" "\<lambda>d. []" "mem_ok ma al lo" for ma al lo
proof unfold_locales
  fix d d' :: my_mem_destination_mgr
  assume "mem_ok ma al lo d" "empty_mem_output_buffer ma d = Inr (True, d')"
  from empty_mem_True [OF this] \<open>mem_ok ma al lo d\<close>
  show "mem_ok ma al lo d' \<and> 0 < free_in_buffer d' \<and> [] @ pending d' = [] @ buffer d"
    by (simp add: mem_ok_def pending_def)
qed (simp_all add: mem_ok_def)

end
