(* ===== verification/HuffEnc.thy ===== *)
theory HuffEnc imports HuffTables DestMgr begin

text \<open>
  The sequential Huffman encoder of \<open>jchuff.c\<close> in its 32-bit configuration (\<open>SIZEOF_SIZE_T == 4\<close>):
  the bit buffer macros, one block, restart markers, one MCU, the end of a scan.

  A block is the list of its 64 coefficients in natural order. The bytes a block produces are
  collected in \<open>sk_out\<close> (the C code's \<open>buffer\<close> pointer, into \<open>_buffer\<close> or straight into the
  destination's buffer) and stored afterwards; storing more than \<open>BUFSIZE\<close> bytes in \<open>_buffer\<close>, or
  more than there is room for, is an access out of bounds.
\<close>

section \<open>Number of bits\<close>

text \<open>\<open>__builtin_clz\<close> counts the leading zero bits of a non-zero argument.\<close>

definition builtin_clz :: "u32 \<Rightarrow> nat" where
  "builtin_clz x = length (takeWhile Not (bits_of 32 x))"

definition JPEG_NBITS :: "u32 \<Rightarrow> nat" where
  "JPEG_NBITS x = (if x \<noteq> 0 then 32 - builtin_clz x else 0)"

section \<open>The bit buffer\<close>

record bit_sink =
  sk_put_buffer :: u32
  sk_put_bits :: nat
  sk_out :: "u8 list"

definition EMIT_BYTE :: "bit_sink \<Rightarrow> bit_sink" where
  "EMIT_BYTE s =
     (let pb = sk_put_bits s - 8;
          c = ucast (drop_bit pb (sk_put_buffer s)) :: u8
      in s\<lparr>sk_put_bits := pb, sk_out := sk_out s @ (if c = 0xFF then [c, 0] else [c])\<rparr>)"

definition PUT_BITS :: "u32 \<Rightarrow> nat \<Rightarrow> bit_sink \<Rightarrow> bit_sink" where
  "PUT_BITS code sz s =
     s\<lparr>sk_put_bits := sk_put_bits s + sz, sk_put_buffer := push_bit sz (sk_put_buffer s) OR code\<rparr>"

definition CHECKBUF15 :: "bit_sink \<Rightarrow> bit_sink" where
  "CHECKBUF15 s = (if 15 < sk_put_bits s then EMIT_BYTE (EMIT_BYTE s) else s)"

definition EMIT_BITS :: "u32 \<Rightarrow> nat \<Rightarrow> bit_sink \<Rightarrow> bit_sink" where
  "EMIT_BITS code sz s = CHECKBUF15 (PUT_BITS code sz s)"

definition EMIT_CODE :: "u32 \<Rightarrow> nat \<Rightarrow> u32 \<Rightarrow> nat \<Rightarrow> bit_sink \<Rightarrow> bit_sink" where
  "EMIT_CODE code sz temp2 nbits s =
     (let temp2 = temp2 AND (push_bit nbits 1 - 1)
      in CHECKBUF15 (PUT_BITS temp2 nbits (CHECKBUF15 (PUT_BITS code sz s))))"

section \<open>One block\<close>

text \<open>
  The branch-free absolute value: the pair is \<open>temp\<close> (the magnitude) and \<open>temp2\<close> (the value, or
  the complement of the magnitude of a negative value), as 32-bit patterns.
\<close>

definition abs_split :: "int \<Rightarrow> u32 \<times> u32" where
  "abs_split v =
     (let temp = word_of_int v :: u32;
          temp3 = signed_drop_bit 31 temp
      in ((temp XOR temp3) - temp3, temp + temp3))"

definition table_entry :: "c_derived_tbl \<Rightarrow> nat \<Rightarrow> fault + (u32 \<times> nat)" where
  "table_entry tbl i =
     (if i < 256 then Inr (of_nat (ehufco tbl ! i), ehufsi tbl ! i) else Inl OutOfBounds)"

definition encode_dc :: "c_derived_tbl \<Rightarrow> int \<Rightarrow> bit_sink \<Rightarrow> fault + bit_sink" where
  "encode_dc dctbl diff s =
     (case abs_split diff of (temp, temp2) \<Rightarrow>
        let nbits = JPEG_NBITS temp
        in ebind (table_entry dctbl nbits) (\<lambda>(code, sz).
             Inr (EMIT_BITS (temp2 AND (push_bit nbits 1 - 1)) nbits (EMIT_BITS code sz s))))"

fun emit_zrl :: "u32 \<Rightarrow> nat \<Rightarrow> nat \<Rightarrow> bit_sink \<Rightarrow> nat \<times> bit_sink" where
  "emit_zrl code_0xf0 sz_0xf0 r s =
     (if 15 < r then emit_zrl code_0xf0 sz_0xf0 (r - 16) (EMIT_BITS code_0xf0 sz_0xf0 s) else (r, s))"

text \<open>The unrolled \<open>kloop\<close> over the remaining positions.\<close>

fun kloop :: "c_derived_tbl \<Rightarrow> int list \<Rightarrow> nat list \<Rightarrow> nat \<Rightarrow> bit_sink \<Rightarrow> fault + (nat \<times> bit_sink)" where
  "kloop actbl block [] r s = Inr (r, s)"
| "kloop actbl block (k # ks) r s =
     (if block ! k = 0 then kloop actbl block ks (r + 1) s
      else
        (case abs_split (block ! k) of (temp, temp2) \<Rightarrow>
         let nbits = JPEG_NBITS temp
         in ebind (table_entry actbl 0xf0) (\<lambda>(code_0xf0, sz_0xf0).
            (case emit_zrl code_0xf0 sz_0xf0 r s of (r, s) \<Rightarrow>
             ebind (table_entry actbl (push_bit 4 r + nbits)) (\<lambda>(code, sz).
             kloop actbl block ks 0 (EMIT_CODE code sz temp2 nbits s))))))"

definition zigzag_ac :: "nat list" where
  "zigzag_ac = tl (take 64 jpeg_natural_order)"

definition block_bytes ::
  "c_derived_tbl \<Rightarrow> c_derived_tbl \<Rightarrow> int list \<Rightarrow> int \<Rightarrow> bit_sink \<Rightarrow> fault + bit_sink" where
  "block_bytes dctbl actbl block last_dc_val s =
     ebind (encode_dc dctbl (block ! 0 - last_dc_val) s) (\<lambda>s.
     ebind (kloop actbl block zigzag_ac 0 s) (\<lambda>(r, s).
     if 0 < r then ebind (table_entry actbl 0) (\<lambda>(code, sz). Inr (EMIT_BITS code sz s)) else Inr s))"

section \<open>Working state and the destination\<close>

definition BUFSIZE :: nat where
  "BUFSIZE = DCTSIZE2 * 4"

record savable_state =
  put_buffer :: u32
  put_bits :: nat
  last_dc_val :: "int list"

text \<open>
  While an MCU is written the position in the destination's buffer is kept in the working state;
  \<open>ws_dest\<close> is the manager itself, whose buffer is written to.
\<close>

record 'd working_state =
  ws_next :: nat
  ws_free :: nat
  ws_cur :: savable_state
  ws_dest :: 'd

text \<open>Bytes are written at \<open>next_output_byte\<close>.\<close>

definition store_at :: "nat \<Rightarrow> u8 list \<Rightarrow> u8 list \<Rightarrow> u8 list" where
  "store_at n bs buf = take n buf @ bs @ drop (n + length bs) buf"

definition dump_buffer ::
  "('z jpeg_destination_mgr_scheme \<Rightarrow> fault + (bool \<times> 'z jpeg_destination_mgr_scheme)) \<Rightarrow>
   'z jpeg_destination_mgr_scheme working_state \<Rightarrow>
   fault + (bool \<times> 'z jpeg_destination_mgr_scheme working_state)" where
  "dump_buffer emptyf st =
     ebind (emptyf (ws_dest st)) (\<lambda>(ok, d).
       if \<not> ok then Inr (False, st\<lparr>ws_dest := d\<rparr>)
       else Inr (True, st\<lparr>ws_dest := d, ws_next := next_output_byte d, ws_free := free_in_buffer d\<rparr>))"

text \<open>
  The copying loop of \<open>STORE_BUFFER\<close>: as many bytes as fit, then a dump when the buffer is full.
  \<open>fuel\<close> bounds the rounds; a round that copies nothing empties the buffer, so
  \<open>2 * length bytes\<close> rounds are enough for a manager that leaves room.
\<close>

fun store_local ::
  "('z jpeg_destination_mgr_scheme \<Rightarrow> fault + (bool \<times> 'z jpeg_destination_mgr_scheme)) \<Rightarrow> nat \<Rightarrow> u8 list \<Rightarrow>
   'z jpeg_destination_mgr_scheme working_state \<Rightarrow>
   fault + (bool \<times> 'z jpeg_destination_mgr_scheme working_state)" where
  "store_local emptyf fuel [] st = Inr (True, st)"
| "store_local emptyf 0 (b # bs) st = Inl RoundsExhausted"
| "store_local emptyf (Suc fuel) (b # bs) st =
     (let n = min (length (b # bs)) (ws_free st);
          st = st\<lparr>ws_dest := (ws_dest st)\<lparr>buffer := store_at (ws_next st) (take n (b # bs)) (buffer (ws_dest st))\<rparr>,
                  ws_next := ws_next st + n, ws_free := ws_free st - n\<rparr>
      in if ws_free st = 0
         then ebind (dump_buffer emptyf st) (\<lambda>(ok, st).
                if ok then store_local emptyf fuel (drop n (b # bs)) st else Inr (False, st))
         else store_local emptyf fuel (drop n (b # bs)) st)"

definition STORE_BUFFER ::
  "('z jpeg_destination_mgr_scheme \<Rightarrow> fault + (bool \<times> 'z jpeg_destination_mgr_scheme)) \<Rightarrow> u8 list \<Rightarrow>
   'z jpeg_destination_mgr_scheme working_state \<Rightarrow>
   fault + (bool \<times> 'z jpeg_destination_mgr_scheme working_state)" where
  "STORE_BUFFER emptyf bytes st =
     (if ws_free st < BUFSIZE
      then (if BUFSIZE < length bytes then Inl OutOfBounds
            else store_local emptyf (2 * length bytes) bytes st)
      else (if ws_free st < length bytes then Inl OutOfBounds
            else Inr (True, st\<lparr>ws_dest := (ws_dest st)\<lparr>buffer := store_at (ws_next st) bytes (buffer (ws_dest st))\<rparr>,
                               ws_next := ws_next st + length bytes, ws_free := ws_free st - length bytes\<rparr>)))"

definition load_sink :: "savable_state \<Rightarrow> bit_sink" where
  "load_sink c = \<lparr>sk_put_buffer = put_buffer c, sk_put_bits = put_bits c, sk_out = []\<rparr>"

definition encode_one_block ::
  "('z jpeg_destination_mgr_scheme \<Rightarrow> fault + (bool \<times> 'z jpeg_destination_mgr_scheme)) \<Rightarrow>
   c_derived_tbl \<Rightarrow> c_derived_tbl \<Rightarrow> int list \<Rightarrow> int \<Rightarrow>
   'z jpeg_destination_mgr_scheme working_state \<Rightarrow>
   fault + (bool \<times> 'z jpeg_destination_mgr_scheme working_state)" where
  "encode_one_block emptyf dctbl actbl block last_dc st =
     ebind (block_bytes dctbl actbl block last_dc (load_sink (ws_cur st))) (\<lambda>s.
       STORE_BUFFER emptyf (sk_out s)
         (st\<lparr>ws_cur := (ws_cur st)\<lparr>put_buffer := sk_put_buffer s, put_bits := sk_put_bits s\<rparr>\<rparr>))"

fun flush_bytes :: "nat \<Rightarrow> bit_sink \<Rightarrow> bit_sink" where
  "flush_bytes 0 s = s"
| "flush_bytes (Suc n) s = (if 8 \<le> sk_put_bits s then flush_bytes n (EMIT_BYTE s) else s)"

text \<open>A 32-bit buffer holds at most four whole bytes.\<close>

definition flush_bits ::
  "('z jpeg_destination_mgr_scheme \<Rightarrow> fault + (bool \<times> 'z jpeg_destination_mgr_scheme)) \<Rightarrow>
   'z jpeg_destination_mgr_scheme working_state \<Rightarrow>
   fault + (bool \<times> 'z jpeg_destination_mgr_scheme working_state)" where
  "flush_bits emptyf st =
     (let s = PUT_BITS 0x7F 7 (load_sink (ws_cur st));
          s = flush_bytes (sk_put_bits s div 8) s
      in STORE_BUFFER emptyf (sk_out s) (st\<lparr>ws_cur := (ws_cur st)\<lparr>put_buffer := 0, put_bits := 0\<rparr>\<rparr>))"

definition emit_byte ::
  "('z jpeg_destination_mgr_scheme \<Rightarrow> fault + (bool \<times> 'z jpeg_destination_mgr_scheme)) \<Rightarrow> u8 \<Rightarrow>
   'z jpeg_destination_mgr_scheme working_state \<Rightarrow>
   fault + (bool \<times> 'z jpeg_destination_mgr_scheme working_state)" where
  "emit_byte emptyf val st =
     (if length (buffer (ws_dest st)) \<le> ws_next st then Inl OutOfBounds else
      let st = st\<lparr>ws_dest := (ws_dest st)\<lparr>buffer := (buffer (ws_dest st))[ws_next st := val]\<rparr>,
                  ws_next := ws_next st + 1, ws_free := ws_free st - 1\<rparr>
      in if ws_free st = 0 then dump_buffer emptyf st else Inr (True, st))"

definition andthen ::
  "fault + (bool \<times> 's) \<Rightarrow> ('s \<Rightarrow> fault + (bool \<times> 's)) \<Rightarrow> fault + (bool \<times> 's)" where
  "andthen m f = ebind m (\<lambda>(ok, s). if ok then f s else Inr (False, s))"

definition emit_restart ::
  "('z jpeg_destination_mgr_scheme \<Rightarrow> fault + (bool \<times> 'z jpeg_destination_mgr_scheme)) \<Rightarrow> nat \<Rightarrow> nat \<Rightarrow>
   'z jpeg_destination_mgr_scheme working_state \<Rightarrow>
   fault + (bool \<times> 'z jpeg_destination_mgr_scheme working_state)" where
  "emit_restart emptyf comps_in_scan restart_num st =
     andthen (flush_bits emptyf st) (\<lambda>st.
     andthen (emit_byte emptyf 0xFF st) (\<lambda>st.
     andthen (emit_byte emptyf (0xD0 + of_nat restart_num) st) (\<lambda>st.
     Inr (True, st\<lparr>ws_cur := (ws_cur st)\<lparr>last_dc_val :=
       replicate comps_in_scan 0 @ drop comps_in_scan (last_dc_val (ws_cur st))\<rparr>\<rparr>))))"

section \<open>One MCU\<close>

record huff_entropy_encoder =
  saved :: savable_state
  restarts_to_go :: nat
  next_restart_num :: nat
  dc_derived_tbls :: "c_derived_tbl list"
  ac_derived_tbls :: "c_derived_tbl list"

text \<open>The scan parameters of \<open>cinfo\<close> the encoder reads; tables are per component of the scan.\<close>

record scan_params =
  restart_interval :: nat
  comps_in_scan :: nat
  MCU_membership :: "nat list"
  dc_tbl_no :: "nat list"
  ac_tbl_no :: "nat list"

text \<open>
  \<open>start_pass_huff\<close> without statistics gathering: the derived tables of every component of the
  scan, made in the workspaces the encoder already has, then the initial state.
\<close>

fun enc_tables ::
  "JHUFF_TBL option list \<Rightarrow> JHUFF_TBL option list \<Rightarrow> (nat \<times> nat) list \<Rightarrow> huff_entropy_encoder \<Rightarrow>
   jerr + huff_entropy_encoder" where
  "enc_tables dcp acp [] e = Inr e"
| "enc_tables dcp acp ((dct, act) # comps) e =
     ebind (jpeg_make_c_derived_tbl dcp True (int dct) (dc_derived_tbls e ! dct)) (\<lambda>t.
     let e = e\<lparr>dc_derived_tbls := (dc_derived_tbls e)[dct := t]\<rparr>
     in ebind (jpeg_make_c_derived_tbl acp False (int act) (ac_derived_tbls e ! act)) (\<lambda>t.
        enc_tables dcp acp comps (e\<lparr>ac_derived_tbls := (ac_derived_tbls e)[act := t]\<rparr>)))"

definition start_pass_huff ::
  "JHUFF_TBL option list \<Rightarrow> JHUFF_TBL option list \<Rightarrow> scan_params \<Rightarrow> huff_entropy_encoder \<Rightarrow> jerr + huff_entropy_encoder" where
  "start_pass_huff dcp acp sp e =
     (let n = comps_in_scan sp
      in ebind (enc_tables dcp acp (zip (take n (dc_tbl_no sp)) (take n (ac_tbl_no sp))) e) (\<lambda>e.
         Inr (e\<lparr>saved := \<lparr>put_buffer = 0, put_bits = 0, last_dc_val = replicate n 0 @ drop n (last_dc_val (saved e))\<rparr>,
                restarts_to_go := restart_interval sp, next_restart_num := 0\<rparr>)))"

fun encode_blocks ::
  "('z jpeg_destination_mgr_scheme \<Rightarrow> fault + (bool \<times> 'z jpeg_destination_mgr_scheme)) \<Rightarrow> scan_params \<Rightarrow>
   huff_entropy_encoder \<Rightarrow> (nat \<times> int list) list \<Rightarrow> 'z jpeg_destination_mgr_scheme working_state \<Rightarrow>
   fault + (bool \<times> 'z jpeg_destination_mgr_scheme working_state)" where
  "encode_blocks emptyf sp e [] st = Inr (True, st)"
| "encode_blocks emptyf sp e ((ci, block) # rest) st =
     andthen (encode_one_block emptyf (dc_derived_tbls e ! (dc_tbl_no sp ! ci)) (ac_derived_tbls e ! (ac_tbl_no sp ! ci))
                block (last_dc_val (ws_cur st) ! ci) st) (\<lambda>st.
     encode_blocks emptyf sp e rest
       (st\<lparr>ws_cur := (ws_cur st)\<lparr>last_dc_val := (last_dc_val (ws_cur st))[ci := block ! 0]\<rparr>\<rparr>))"

text \<open>
  \<open>MCU_data\<close> are the blocks of the MCU. When the destination suspends, the encoder and the
  public position of the destination stay as they were.
\<close>

definition encode_mcu_huff ::
  "('z jpeg_destination_mgr_scheme \<Rightarrow> fault + (bool \<times> 'z jpeg_destination_mgr_scheme)) \<Rightarrow> scan_params \<Rightarrow>
   int list list \<Rightarrow> huff_entropy_encoder \<Rightarrow> 'z jpeg_destination_mgr_scheme \<Rightarrow>
   fault + (bool \<times> huff_entropy_encoder \<times> 'z jpeg_destination_mgr_scheme)" where
  "encode_mcu_huff emptyf sp MCU_data e d =
     (let st = \<lparr>ws_next = next_output_byte d, ws_free = free_in_buffer d, ws_cur = saved e, ws_dest = d\<rparr>
      in ebind (andthen
           (if restart_interval sp \<noteq> 0 \<and> restarts_to_go e = 0
            then emit_restart emptyf (comps_in_scan sp) (next_restart_num e) st else Inr (True, st))
           (encode_blocks emptyf sp e (zip (MCU_membership sp) MCU_data)))
         (\<lambda>(ok, st).
           if \<not> ok then Inr (False, e, ws_dest st)
           else
             let d = (ws_dest st)\<lparr>next_output_byte := ws_next st, free_in_buffer := ws_free st\<rparr>;
                 e = e\<lparr>saved := ws_cur st\<rparr>;
                 e = (if restart_interval sp \<noteq> 0
                      then let e = (if restarts_to_go e = 0
                             then e\<lparr>restarts_to_go := restart_interval sp,
                                    next_restart_num := (next_restart_num e + 1) AND 7\<rparr> else e)
                           in e\<lparr>restarts_to_go := restarts_to_go e - 1\<rparr>
                      else e)
             in Inr (True, e, d)))"

definition finish_pass_huff ::
  "('z jpeg_destination_mgr_scheme \<Rightarrow> fault + (bool \<times> 'z jpeg_destination_mgr_scheme)) \<Rightarrow>
   huff_entropy_encoder \<Rightarrow> 'z jpeg_destination_mgr_scheme \<Rightarrow>
   fault + (huff_entropy_encoder \<times> 'z jpeg_destination_mgr_scheme)" where
  "finish_pass_huff emptyf e d =
     ebind (flush_bits emptyf
        \<lparr>ws_next = next_output_byte d, ws_free = free_in_buffer d, ws_cur = saved e, ws_dest = d\<rparr>) (\<lambda>(ok, st).
       if \<not> ok then Inl (ErrExit JERR_CANT_SUSPEND)
       else Inr (e\<lparr>saved := ws_cur st\<rparr>,
                 (ws_dest st)\<lparr>next_output_byte := ws_next st, free_in_buffer := ws_free st\<rparr>))"

section \<open>The bit stream of a block\<close>

text \<open>
  The abstract counterpart: a block is a list of symbols, each with its extra bits; the bit stream
  is their codes and extra bits one after another, cut into bytes, and \<open>stuff\<close> puts a zero byte
  after every \<open>0xFF\<close>.
\<close>

definition byte_bits :: "u8 list \<Rightarrow> bool list" where
  "byte_bits bs = concat (map (bits_of 8) bs)"

definition stuff :: "u8 list \<Rightarrow> u8 list" where
  "stuff bs = concat (map (\<lambda>c. if c = 0xFF then [c, 0] else [c]) bs)"

fun bitlen :: "nat \<Rightarrow> nat" where
  "bitlen n = (if n = 0 then 0 else Suc (bitlen (n div 2)))"

declare bitlen.simps [simp del]

definition magnitude :: "int \<Rightarrow> nat" where
  "magnitude v = bitlen (nat \<bar>v\<bar>)"

definition extra_bits :: "int \<Rightarrow> bool list" where
  "extra_bits v = bits_of (magnitude v) (if v < 0 then v - 1 else v)"

fun ac_symbols :: "nat \<Rightarrow> int list \<Rightarrow> (nat \<times> bool list) list" where
  "ac_symbols r [] = (if 0 < r then [(0, [])] else [])"
| "ac_symbols r (v # vs) =
     (if v = 0 then ac_symbols (Suc r) vs
      else replicate (r div 16) (0xF0, []) @
           (16 * (r mod 16) + magnitude v, extra_bits v) # ac_symbols 0 vs)"

definition code_bits :: "c_derived_tbl \<Rightarrow> nat \<Rightarrow> bool list" where
  "code_bits tbl s = bits_of (ehufsi tbl ! s) (ehufco tbl ! s)"

definition symbol_bits :: "c_derived_tbl \<Rightarrow> (nat \<times> bool list) list \<Rightarrow> bool list" where
  "symbol_bits tbl ss = concat (map (\<lambda>(s, e). code_bits tbl s @ e) ss)"

definition block_bits :: "c_derived_tbl \<Rightarrow> c_derived_tbl \<Rightarrow> int list \<Rightarrow> int \<Rightarrow> bool list" where
  "block_bits dctbl actbl block last_dc =
     symbol_bits dctbl [(magnitude (block ! 0 - last_dc), extra_bits (block ! 0 - last_dc))] @
     symbol_bits actbl (ac_symbols 0 (map ((!) block) zigzag_ac))"

text \<open>A symbol the table has a code for.\<close>

definition coded :: "c_derived_tbl \<Rightarrow> nat \<Rightarrow> bool" where
  "coded tbl s \<longleftrightarrow> s < 256 \<and> 1 \<le> ehufsi tbl ! s \<and> ehufsi tbl ! s \<le> 16 \<and> ehufco tbl ! s < 2 ^ (ehufsi tbl ! s)"

section \<open>The bit buffer\<close>

definition carries :: "bool list \<Rightarrow> bit_sink \<Rightarrow> bool" where
  "carries bv s \<longleftrightarrow>
     (\<exists>bs. sk_out s = stuff bs \<and> byte_bits bs @ bits_of (sk_put_bits s) (sk_put_buffer s) = bv)"

lemma stuff_snoc: "stuff (bs @ [c]) = stuff bs @ (if c = 0xFF then [c, 0] else [c])"
  by (simp add: stuff_def)

lemma byte_bits_append [simp]: "byte_bits (as @ bs) = byte_bits as @ byte_bits bs"
  by (simp add: byte_bits_def)

lemma byte_bits_simps [simp]: "byte_bits [] = []" "byte_bits (b # bs) = bits_of 8 b @ byte_bits bs"
  by (simp_all add: byte_bits_def)

lemma bits_of_put:
  fixes b c :: "'a::len word"
  assumes "p + n \<le> LENGTH('a)" "unat c < 2 ^ n"
  shows "bits_of (p + n) (push_bit n b OR c) = bits_of p b @ bits_of n c"
proof (rule nth_equalityI)
  have hi: "\<not> bit c i" if "n \<le> i" for i
  proof -
    have "unat c = take_bit n (unat c)" using assms(2) by (simp add: take_bit_nat_eq_self)
    then have "bit (unat c) i \<longleftrightarrow> i < n \<and> bit (unat c) i" by (metis bit_take_bit_iff)
    then show ?thesis using that bit_imp_le_length [of c i] by (auto simp: bit_unsigned_iff)
  qed
  fix i assume i: "i < length (bits_of (p + n) (push_bit n b OR c))"
  then show "bits_of (p + n) (push_bit n b OR c) ! i = (bits_of p b @ bits_of n c) ! i"
  proof (cases "i < p")
    case True
    then have "p + n - Suc i = n + (p - Suc i)" by simp
    with True i assms(1) hi [of "n + (p - Suc i)"] show ?thesis
      by (auto simp: nth_append bits_of_nth bit_or_iff bit_push_bit_iff dest: bit_imp_le_length)
  next
    case False
    with i have "p + n - Suc i < n" "n - Suc (i - p) = p + n - Suc i" by simp_all
    with False i show ?thesis
      by (simp add: nth_append bits_of_nth bit_or_iff bit_push_bit_iff)
  qed
qed simp

lemma bits_of_byte:
  fixes b :: u32
  assumes "8 \<le> p" "p \<le> 32"
  shows "bits_of p b = bits_of 8 (ucast (drop_bit (p - 8) b) :: u8) @ bits_of (p - 8) b"
proof (rule nth_equalityI)
  fix i assume "i < length (bits_of p b)"
  then show "bits_of p b ! i = (bits_of 8 (ucast (drop_bit (p - 8) b) :: u8) @ bits_of (p - 8) b) ! i"
    using assms by (cases "i < 8") (auto simp: nth_append bits_of_nth bit_ucast_iff bit_drop_bit_eq)
qed (use assms in simp)

lemma EMIT_BYTE_carries:
  assumes "carries bv s" "8 \<le> sk_put_bits s" "sk_put_bits s \<le> 32"
  shows "carries bv (EMIT_BYTE s)" "sk_put_bits (EMIT_BYTE s) = sk_put_bits s - 8"
proof -
  define c where "c = (ucast (drop_bit (sk_put_bits s - 8) (sk_put_buffer s)) :: u8)"
  from assms(1) obtain bs where "sk_out s = stuff bs"
    "byte_bits bs @ bits_of (sk_put_bits s) (sk_put_buffer s) = bv"
    by (auto simp: carries_def)
  then have "sk_out (EMIT_BYTE s) = stuff (bs @ [c])"
    "byte_bits (bs @ [c]) @ bits_of (sk_put_bits (EMIT_BYTE s)) (sk_put_buffer (EMIT_BYTE s)) = bv"
    using bits_of_byte [OF assms(2,3), of "sk_put_buffer s"] unfolding EMIT_BYTE_def Let_def c_def [symmetric]
    by (simp_all add: stuff_snoc)
  then show "carries bv (EMIT_BYTE s)" unfolding carries_def by blast
qed (simp add: EMIT_BYTE_def Let_def)

lemma PUT_BITS_carries:
  assumes "carries bv s" "sk_put_bits s + n \<le> 32" "unat code < 2 ^ n"
  shows "carries (bv @ bits_of n code) (PUT_BITS code n s)" "sk_put_bits (PUT_BITS code n s) = sk_put_bits s + n"
  using assms bits_of_put [of "sk_put_bits s" n code "sk_put_buffer s"] by (auto simp: carries_def PUT_BITS_def)

text \<open>Between two macros fewer than 16 bits wait in the buffer.\<close>

definition sink_ok :: "bool list \<Rightarrow> bit_sink \<Rightarrow> bool" where
  "sink_ok bv s \<longleftrightarrow> carries bv s \<and> sk_put_bits s \<le> 15"

lemma CHECKBUF15_ok: "carries bv s \<Longrightarrow> sk_put_bits s \<le> 31 \<Longrightarrow> sink_ok bv (CHECKBUF15 s)"
  using EMIT_BYTE_carries [of bv s] EMIT_BYTE_carries [of bv "EMIT_BYTE s"]
  by (auto simp: CHECKBUF15_def sink_ok_def)

lemma EMIT_BITS_ok:
  "sink_ok bv s \<Longrightarrow> n \<le> 16 \<Longrightarrow> unat code < 2 ^ n \<Longrightarrow> sink_ok (bv @ bits_of n code) (EMIT_BITS code n s)"
  unfolding EMIT_BITS_def
  by (rule CHECKBUF15_ok) (use PUT_BITS_carries [of bv s n code] in \<open>auto simp: sink_ok_def\<close>)

lemma EMIT_CODE_eq:
  "EMIT_CODE code n temp2 m s = EMIT_BITS (temp2 AND (push_bit m 1 - 1)) m (EMIT_BITS code n s)"
  by (simp add: EMIT_CODE_def EMIT_BITS_def)

section \<open>Magnitudes\<close>

lemma bitlen_0 [simp]: "bitlen 0 = 0"
  by (simp add: bitlen.simps)

lemma bitlen_pos: "0 < n \<Longrightarrow> bitlen n = Suc (bitlen (n div 2))"
  by (subst bitlen.simps) simp

lemma bitlen_le_iff: "bitlen n \<le> k \<longleftrightarrow> n < 2 ^ k"
proof (induction n arbitrary: k rule: bitlen.induct)
  case (1 n)
  show ?case
  proof (cases "n = 0")
    case False
    with 1 [of "k - 1"] show ?thesis by (cases k) (auto simp: bitlen_pos less_mult_imp_div_less)
  qed simp
qed

lemma bitlen_bounds: "0 < n \<Longrightarrow> 2 ^ (bitlen n - 1) \<le> n \<and> n < 2 ^ bitlen n"
  using bitlen_le_iff [of n "bitlen n"] bitlen_le_iff [of n "bitlen n - 1"]
  by (auto simp: bitlen_pos not_le)

lemma bitlen_unique: "2 ^ k \<le> n \<Longrightarrow> n < 2 ^ Suc k \<Longrightarrow> bitlen n = Suc k"
  using bitlen_le_iff [of n "Suc k"] bitlen_le_iff [of n k] by simp

lemma takeWhile_high_zeros:
  assumes "n < 2 ^ k"
  shows "length (takeWhile Not (bits_of k n)) = k - bitlen n"
  using assms
proof (induction k)
  case (Suc k)
  have split: "bits_of (Suc k) n = bit n k # bits_of k n" by (simp add: bits_of_def)
  show ?case
  proof (cases "n < 2 ^ k")
    case True
    then have "\<not> bit n k" by (simp add: bit_iff_odd)
    with True Suc.IH bitlen_le_iff [of n k] show ?thesis by (simp add: split Suc_diff_le)
  next
    case False
    then have "n div 2 ^ k = 1" using Suc.prems by (intro div_nat_eqI) simp_all
    then have "bit n k" by (simp add: bit_iff_odd)
    moreover have "bitlen n = Suc k" using False Suc.prems by (intro bitlen_unique) simp_all
    ultimately show ?thesis by (simp add: split)
  qed
qed simp

text \<open>\<open>JPEG_NBITS\<close> is the number of bits of the magnitude.\<close>

lemma JPEG_NBITS_eq: "JPEG_NBITS x = bitlen (unat x)"
proof (cases "x = 0")
  case False
  have "unat x < 2 ^ 32" by (rule order_less_le_trans [OF unsigned_less]) simp
  moreover from this have "bitlen (unat x) \<le> 32" by (simp add: bitlen_le_iff)
  ultimately show ?thesis
    using False takeWhile_high_zeros [of "unat x" 32] by (simp add: JPEG_NBITS_def builtin_clz_def)
qed (simp add: JPEG_NBITS_def)

lemma sign_mask:
  assumes "- (2 ^ 31) \<le> v" "v < 2 ^ 31"
  shows "signed_drop_bit 31 (word_of_int v :: u32) = (if v < 0 then -1 else 0)"
proof -
  have b: "bit v 31 \<longleftrightarrow> v < 0"
  proof (cases "v < 0")
    case True
    then have "(v + 2 ^ 31) div 2 ^ 31 = 0" using assms by (intro div_pos_pos_trivial) simp_all
    then have "v div 2 ^ 31 = -1" by simp
    with True show ?thesis by (simp add: bit_iff_odd)
  next
    case False
    then have "v div 2 ^ 31 = 0" using assms by simp
    with False show ?thesis by (simp add: bit_iff_odd)
  qed
  show ?thesis
  proof (rule bit_word_eqI)
    fix i assume "i < LENGTH(32)"
    then have "bit (signed_drop_bit 31 (word_of_int v :: u32)) i \<longleftrightarrow> bit v 31"
      by (cases i) (simp_all add: bit_signed_drop_bit_iff bit_word_of_int_iff)
    with b \<open>i < LENGTH(32)\<close> show "bit (signed_drop_bit 31 (word_of_int v :: u32)) i = bit (if v < 0 then - 1 else 0 :: u32) i"
      by simp
  qed
qed

lemma abs_split_eq:
  assumes "\<bar>v\<bar> < 2 ^ 31"
  shows "abs_split v = (word_of_int \<bar>v\<bar>, word_of_int (if v < 0 then v - 1 else v))"
proof -
  have n: "(x XOR - 1) - - 1 = - (x::u32)" for x
    by (simp only: bit.xor_one_right minus_eq_not_plus_1 [of x] diff_minus_eq_add)
  show ?thesis
  proof (cases "v < 0")
    case True
    with assms have t: "signed_drop_bit 31 (word_of_int v :: u32) = - 1" using sign_mask [of v] by simp
    from True show ?thesis unfolding abs_split_def t Let_def n by simp
  next
    case False
    with assms have t: "signed_drop_bit 31 (word_of_int v :: u32) = 0" using sign_mask [of v] by simp
    from False show ?thesis unfolding abs_split_def t Let_def by simp
  qed
qed

lemma unat_abs: "\<bar>v\<bar> < 2 ^ 31 \<Longrightarrow> unat (word_of_int \<bar>v\<bar> :: u32) = nat \<bar>v\<bar>"
  by (simp add: unat_eq_nat_uint uint_word_of_int_eq take_bit_int_eq_self)

lemma abs_split_nbits:
  "\<bar>v\<bar> < 2 ^ 31 \<Longrightarrow> JPEG_NBITS (fst (abs_split v)) = magnitude v"
  by (simp add: abs_split_eq JPEG_NBITS_eq unat_abs magnitude_def)

lemma mask_bits:
  fixes x :: u32
  assumes "n < 32"
  shows "bits_of n (x AND (push_bit n 1 - 1)) = bits_of n x" "unat (x AND (push_bit n 1 - 1)) < 2 ^ n"
proof -
  have m: "push_bit n 1 - 1 = (mask n :: u32)" by (simp add: mask_eq_exp_minus_1 push_bit_eq_mult)
  show "bits_of n (x AND (push_bit n 1 - 1)) = bits_of n x"
    unfolding m by (simp add: bits_of_take_bit flip: take_bit_eq_mask)
  show "unat (x AND (push_bit n 1 - 1)) < 2 ^ n"
    unfolding m by (simp add: unsigned_take_bit_eq flip: take_bit_eq_mask)
qed

lemma abs_split_extra:
  assumes "\<bar>v\<bar> < 2 ^ 31" "n \<le> 32"
  shows "bits_of n (snd (abs_split v)) = bits_of n (if v < 0 then v - 1 else v)"
  using assms(2) by (auto simp: abs_split_eq [OF assms(1)] bits_of_eq_iff bit_word_of_int_iff)

lemma magnitude_le: "\<bar>v\<bar> < 2 ^ k \<longleftrightarrow> magnitude v \<le> k"
proof -
  have "\<bar>v\<bar> < 2 ^ k \<longleftrightarrow> nat \<bar>v\<bar> < 2 ^ k" by (simp add: nat_less_iff)
  then show ?thesis by (simp add: magnitude_def bitlen_le_iff)
qed

section \<open>A block is encoded as its bit stream\<close>

lemma table_entry_coded:
  assumes "coded tbl s"
  obtains code where "table_entry tbl s = Inr (code, ehufsi tbl ! s)" "bits_of (ehufsi tbl ! s) code = code_bits tbl s"
    "unat code < 2 ^ (ehufsi tbl ! s)" "ehufsi tbl ! s \<le> 16"
proof
  let ?n = "ehufsi tbl ! s" and ?c = "of_nat (ehufco tbl ! s) :: u32"
  have "(2::nat) ^ ?n \<le> 2 ^ 16" using assms by (intro power_increasing) (simp_all add: coded_def)
  then have u: "unat ?c = ehufco tbl ! s"
    using assms by (simp add: coded_def unat_of_nat)
  show "table_entry tbl s = Inr (?c, ?n)" "unat ?c < 2 ^ ?n" "?n \<le> 16"
    using assms u by (simp_all add: table_entry_def coded_def)
  show "bits_of ?n ?c = code_bits tbl s"
    unfolding code_bits_def by (metis bits_of_unat u)
qed

lemma emit_symbol:
  assumes "sink_ok b s" "coded tbl i"
  shows "\<exists>code. table_entry tbl i = Inr (code, ehufsi tbl ! i) \<and>
     sink_ok (b @ code_bits tbl i) (EMIT_BITS code (ehufsi tbl ! i) s)"
  using table_entry_coded [OF assms(2)] EMIT_BITS_ok [OF assms(1)] by metis

lemma emit_extra:
  assumes "sink_ok b s" "\<bar>v\<bar> < 2 ^ 16"
  shows "sink_ok (b @ extra_bits v)
    (EMIT_BITS (snd (abs_split v) AND (push_bit (magnitude v) 1 - 1)) (magnitude v) s)"
proof -
  have m: "magnitude v \<le> 16" using assms(2) magnitude_le by blast
  have a: "\<bar>v\<bar> < 2 ^ 31" using assms(2) by simp
  from m have n: "magnitude v < 32" "magnitude v \<le> 32" by simp_all
  show ?thesis
    using EMIT_BITS_ok [OF assms(1) m mask_bits(2) [OF n(1), of "snd (abs_split v)"]]
    unfolding mask_bits(1) [OF n(1)] abs_split_extra [OF a n(2)] extra_bits_def .
qed

lemma symbol_bits_simps [simp]:
  "symbol_bits tbl [] = []"
  "symbol_bits tbl ((i, e) # ss) = code_bits tbl i @ e @ symbol_bits tbl ss"
  "symbol_bits tbl (as @ bs) = symbol_bits tbl as @ symbol_bits tbl bs"
  by (simp_all add: symbol_bits_def)

lemma encode_dc_bits:
  assumes "sink_ok b s" "\<bar>diff\<bar> < 2 ^ 16" "coded tbl (magnitude diff)"
  obtains s' where "encode_dc tbl diff s = Inr s'"
    "sink_ok (b @ symbol_bits tbl [(magnitude diff, extra_bits diff)]) s'"
proof -
  from emit_symbol [OF assms(1,3)] obtain code where c: "table_entry tbl (magnitude diff) = Inr (code, ehufsi tbl ! magnitude diff)"
    and ok: "sink_ok (b @ code_bits tbl (magnitude diff)) (EMIT_BITS code (ehufsi tbl ! magnitude diff) s)" by blast
  have "JPEG_NBITS (fst (abs_split diff)) = magnitude diff" using assms(2) by (intro abs_split_nbits) simp
  with c have "encode_dc tbl diff s = Inr (EMIT_BITS (snd (abs_split diff) AND (push_bit (magnitude diff) 1 - 1))
     (magnitude diff) (EMIT_BITS code (ehufsi tbl ! magnitude diff) s))"
    by (simp add: encode_dc_def split_beta Let_def)
  with emit_extra [OF ok assms(2)] show ?thesis by (auto intro: that)
qed

declare emit_zrl.simps [simp del]

lemma emit_zrl_bits:
  assumes "sink_ok b s" "16 \<le> r \<longrightarrow> coded tbl 0xF0" "table_entry tbl 0xF0 = Inr (code, sz)"
  shows "\<exists>s'. emit_zrl code sz r s = (r mod 16, s') \<and>
    sink_ok (b @ symbol_bits tbl (replicate (r div 16) (0xF0, []))) s'"
  using assms
proof (induction code sz r s arbitrary: b rule: emit_zrl.induct)
  case (1 code sz r s)
  show ?case
  proof (cases "15 < r")
    case True
    with emit_symbol [OF "1.prems"(1), of tbl 240] "1.prems"(2,3)
    have ok: "sink_ok (b @ code_bits tbl 240) (EMIT_BITS code sz s)" by auto
    have n: "r div 16 = Suc ((r - 16) div 16)" "r mod 16 = (r - 16) mod 16"
      using True by (simp_all add: le_div_geq le_mod_geq)
    from "1.IH" [OF True ok] "1.prems" True show ?thesis
      by (subst emit_zrl.simps) (simp add: n)
  qed (use "1.prems"(1) in \<open>simp add: emit_zrl.simps [of _ _ r]\<close>)
qed

definition ac_codable :: "c_derived_tbl \<Rightarrow> nat \<Rightarrow> int list \<Rightarrow> bool" where
  "ac_codable tbl r vs \<longleftrightarrow> (\<forall>(i, e) \<in> set (ac_symbols r vs). coded tbl i) \<and> (\<forall>v \<in> set vs. \<bar>v\<bar> < 2 ^ 15)"

lemma push_add16: "push_bit 4 r + n = 16 * r + (n::nat)"
  by (simp add: push_bit_eq_mult)

text \<open>The part of \<open>block_bytes\<close> after \<open>kloop\<close>: the end-of-block code.\<close>

definition emit_eob :: "c_derived_tbl \<Rightarrow> nat \<times> bit_sink \<Rightarrow> fault + bit_sink" where
  "emit_eob tbl = (\<lambda>(r, s). if 0 < r then ebind (table_entry tbl 0) (\<lambda>(code, sz). Inr (EMIT_BITS code sz s)) else Inr s)"

lemma kloop_nonzero:
  assumes "sink_ok b s" "v = block ! k" "v \<noteq> 0" "\<bar>v\<bar> < 2 ^ 15" "16 \<le> r \<longrightarrow> coded tbl 0xF0"
    "coded tbl (16 * (r mod 16) + magnitude v)"
  obtains s' where "kloop tbl block (k # ks) r s = kloop tbl block ks 0 s'"
    "sink_ok (b @ symbol_bits tbl (replicate (r div 16) (0xF0, []) @ [(16 * (r mod 16) + magnitude v, extra_bits v)])) s'"
proof -
  define i where "i = 16 * (r mod 16) + magnitude v"
  obtain code0 sz0 where t0: "table_entry tbl 0xF0 = Inr (code0, sz0)" by (auto simp: table_entry_def)
  from emit_zrl_bits [OF assms(1,5) t0] obtain s1 where z: "emit_zrl code0 sz0 r s = (r mod 16, s1)"
    and s1: "sink_ok (b @ symbol_bits tbl (replicate (r div 16) (0xF0, []))) s1" by blast
  from emit_symbol [OF s1 assms(6)] obtain code where t: "table_entry tbl i = Inr (code, ehufsi tbl ! i)"
    and s2: "sink_ok (b @ symbol_bits tbl (replicate (r div 16) (0xF0, [])) @ code_bits tbl i) (EMIT_BITS code (ehufsi tbl ! i) s1)"
    by (auto simp: i_def)
  have nb: "JPEG_NBITS (fst (abs_split v)) = magnitude v" using assms(4) by (intro abs_split_nbits) simp
  have "kloop tbl block (k # ks) r s = kloop tbl block ks 0 (EMIT_CODE code (ehufsi tbl ! i) (snd (abs_split v)) (magnitude v) s1)"
    using assms(3) nb t by (simp add: assms(2) [symmetric] split_beta Let_def t0 z push_add16 i_def [symmetric])
  with emit_extra [OF s2, of v] assms(4) show ?thesis
    by (intro that) (simp_all add: EMIT_CODE_eq i_def [symmetric])
qed

lemma kloop_bits:
  "sink_ok b s \<Longrightarrow> ac_codable tbl r (map ((!) block) ks) \<Longrightarrow>
   \<exists>s'. ebind (kloop tbl block ks r s) (emit_eob tbl) = Inr s' \<and>
        sink_ok (b @ symbol_bits tbl (ac_symbols r (map ((!) block) ks))) s'"
proof (induction ks arbitrary: r s b)
  case Nil
  then show ?case
    using emit_symbol [OF Nil(1), of tbl 0] by (auto simp: emit_eob_def ac_codable_def)
next
  case (Cons k ks)
  show ?case
  proof (cases "block ! k = 0")
    case True
    with Cons.IH [OF Cons.prems(1)] Cons.prems(2) show ?thesis by (simp add: ac_codable_def)
  next
    case False
    have v: "\<bar>block ! k\<bar> < 2 ^ 15" and c: "16 \<le> r \<longrightarrow> coded tbl 0xF0" "coded tbl (16 * (r mod 16) + magnitude (block ! k))"
      and rest: "ac_codable tbl 0 (map ((!) block) ks)"
      using Cons.prems(2) False by (auto simp: ac_codable_def)
    from kloop_nonzero [OF Cons.prems(1) refl False v c] obtain s1 where
      k: "kloop tbl block (k # ks) r s = kloop tbl block ks 0 s1" and
      s1: "sink_ok (b @ symbol_bits tbl (replicate (r div 16) (0xF0, []) @ [(16 * (r mod 16) + magnitude (block ! k), extra_bits (block ! k))])) s1"
      by metis
    from Cons.IH [OF s1 rest] False show ?thesis unfolding k by simp
  qed
qed

definition block_codable :: "c_derived_tbl \<Rightarrow> c_derived_tbl \<Rightarrow> int list \<Rightarrow> int \<Rightarrow> bool" where
  "block_codable dctbl actbl block last_dc \<longleftrightarrow>
     \<bar>block ! 0 - last_dc\<bar> < 2 ^ 16 \<and> coded dctbl (magnitude (block ! 0 - last_dc)) \<and>
     ac_codable actbl 0 (map ((!) block) zigzag_ac)"

lemma block_bytes_bits:
  assumes "sink_ok b s" "block_codable dctbl actbl block last_dc"
  obtains s' where "block_bytes dctbl actbl block last_dc s = Inr s'"
    "sink_ok (b @ block_bits dctbl actbl block last_dc) s'"
proof -
  let ?d = "block ! 0 - last_dc"
  from assms(2) encode_dc_bits [OF assms(1), of ?d dctbl] obtain s1 where
    dc: "encode_dc dctbl ?d s = Inr s1" and s1: "sink_ok (b @ symbol_bits dctbl [(magnitude ?d, extra_bits ?d)]) s1"
    by (auto simp: block_codable_def)
  from kloop_bits [OF s1] assms(2) obtain s' where
    "ebind (kloop actbl block zigzag_ac 0 s1) (emit_eob actbl) = Inr s'"
    "sink_ok (b @ block_bits dctbl actbl block last_dc) s'"
    by (fastforce simp: block_codable_def block_bits_def)
  with dc show ?thesis by (intro that) (simp_all add: block_bytes_def emit_eob_def)
qed

end
