(* ===== verification/HuffScan.thy ===== *)
theory HuffScan imports HuffEnc "HOL-Library.Sublist" begin

text \<open>
  The encoder of \<open>HuffEnc\<close> on a destination: a block, a restart, an MCU and a scan put exactly the
  stuffed bytes of their bits into the destination's stream. The lemmas are proved once in the
  locale \<open>destination\<close>; the theorems at the end are their instances for the stdio manager and
  for TurboJPEG's memory manager.
\<close>

section \<open>Bytes reach the destination\<close>

text \<open>
  \<open>ws_stream\<close> is everything written so far: the bytes handed over and those before
  \<open>next_output_byte\<close> in the current buffer.
\<close>

definition ws_stream :: "('z jpeg_destination_mgr_scheme \<Rightarrow> u8 list) \<Rightarrow> 'z jpeg_destination_mgr_scheme working_state \<Rightarrow> u8 list" where
  "ws_stream handed st = handed (ws_dest st) @ take (ws_next st) (buffer (ws_dest st))"

definition ws_ok :: "('z jpeg_destination_mgr_scheme \<Rightarrow> bool) \<Rightarrow> 'z jpeg_destination_mgr_scheme working_state \<Rightarrow> bool" where
  "ws_ok dest_ok st \<longleftrightarrow> dest_ok (ws_dest st) \<and> ws_next st + ws_free st = length (buffer (ws_dest st))"

lemma ws_simps [simp]:
  "ws_ok dest_ok (st\<lparr>ws_cur := c\<rparr>) = ws_ok dest_ok st"
  "ws_stream handed (st\<lparr>ws_cur := c\<rparr>) = ws_stream handed st"
  by (simp_all add: ws_ok_def ws_stream_def)

text \<open>
  The manager refused to empty its full buffer: what had been handed over and the buffer were the
  beginning of the stream.
\<close>

definition refused ::
  "('z jpeg_destination_mgr_scheme \<Rightarrow> fault + (bool \<times> 'z jpeg_destination_mgr_scheme)) \<Rightarrow>
   ('z jpeg_destination_mgr_scheme \<Rightarrow> u8 list) \<Rightarrow> ('z jpeg_destination_mgr_scheme \<Rightarrow> bool) \<Rightarrow> u8 list \<Rightarrow>
   fault + (bool \<times> 'z jpeg_destination_mgr_scheme) \<Rightarrow> bool" where
  "refused emptyf handed dest_ok stream res \<longleftrightarrow>
     (\<exists>d. dest_ok d \<and> emptyf d = res \<and> prefix (handed d @ buffer d) stream)"

lemma refused_mono: "refused emptyf handed dest_ok s res \<Longrightarrow> prefix s s' \<Longrightarrow> refused emptyf handed dest_ok s' res"
  unfolding refused_def using prefix_order.trans by blast

lemma refused_append: "refused emptyf handed dest_ok s res \<Longrightarrow> refused emptyf handed dest_ok (s @ t) res"
  by (erule refused_mono) simp

text \<open>The outcomes of an operation that is to write \<open>bs\<close>: written, suspended, or the manager's own fault.\<close>

definition wrote ::
  "('z jpeg_destination_mgr_scheme \<Rightarrow> fault + (bool \<times> 'z jpeg_destination_mgr_scheme)) \<Rightarrow>
   ('z jpeg_destination_mgr_scheme \<Rightarrow> u8 list) \<Rightarrow> ('z jpeg_destination_mgr_scheme \<Rightarrow> bool) \<Rightarrow> u8 list \<Rightarrow>
   savable_state \<Rightarrow> 'z jpeg_destination_mgr_scheme working_state \<Rightarrow>
   fault + (bool \<times> 'z jpeg_destination_mgr_scheme working_state) \<Rightarrow> bool" where
  "wrote emptyf handed dest_ok bs c st res \<longleftrightarrow>
     (case res of
        Inl f \<Rightarrow> refused emptyf handed dest_ok (ws_stream handed st @ bs) (Inl f)
      | Inr (ok, st') \<Rightarrow>
          (if ok then ws_ok dest_ok st' \<and> ws_stream handed st' = ws_stream handed st @ bs \<and> ws_cur st' = c
           else refused emptyf handed dest_ok (ws_stream handed st @ bs) (Inr (False, ws_dest st'))))"

definition leaves_room :: "fault + (bool \<times> 'd working_state) \<Rightarrow> bool" where
  "leaves_room res \<longleftrightarrow> (\<forall>st'. res = Inr (True, st') \<longrightarrow> 0 < ws_free st')"

lemma wrote_andthen:
  assumes "wrote emptyf handed dest_ok as c st r"
    and "\<And>st'. r = Inr (True, st') \<Longrightarrow> ws_ok dest_ok st' \<Longrightarrow> ws_cur st' = c \<Longrightarrow> ws_stream handed st' = ws_stream handed st @ as \<Longrightarrow>
           wrote emptyf handed dest_ok bs c' st' (g st')"
  shows "wrote emptyf handed dest_ok (as @ bs) c' st (andthen r g)"
proof (cases r)
  case (Inr p)
  obtain ok st' where p: "p = (ok, st')" by (cases p)
  show ?thesis
  proof (cases ok)
    case True
    then have "ws_ok dest_ok st'" "ws_cur st' = c" and s: "ws_stream handed st' = ws_stream handed st @ as"
      using assms(1) Inr p by (auto simp: wrote_def)
    then have "wrote emptyf handed dest_ok bs c' st' (g st')" using assms(2) True Inr p by blast
    then show ?thesis using True Inr p s by (auto simp: wrote_def andthen_def split: sum.splits prod.splits if_splits)
  qed (use assms(1) Inr p in \<open>auto simp: wrote_def andthen_def dest: refused_append [where t = bs]\<close>)
qed (use assms(1) in \<open>auto simp: wrote_def andthen_def dest: refused_append [where t = bs]\<close>)

lemma store_at_length: "n + length bs \<le> length b \<Longrightarrow> length (store_at n bs b) = length b"
  by (simp add: store_at_def)

lemma store_at_take: "n \<le> length b \<Longrightarrow> take (n + length bs) (store_at n bs b) = take n b @ bs"
  by (simp add: store_at_def min_def)

context destination
begin

lemma store_ok:
  assumes "ws_ok dest_ok st" "length bs \<le> ws_free st"
  shows "ws_ok dest_ok (st\<lparr>ws_dest := (ws_dest st)\<lparr>buffer := store_at (ws_next st) bs (buffer (ws_dest st))\<rparr>,
           ws_next := ws_next st + length bs, ws_free := ws_free st - length bs\<rparr>)"
    and "ws_stream handed (st\<lparr>ws_dest := (ws_dest st)\<lparr>buffer := store_at (ws_next st) bs (buffer (ws_dest st))\<rparr>,
           ws_next := ws_next st + length bs, ws_free := k\<rparr>) = ws_stream handed st @ bs"
proof -
  let ?d = "ws_dest st" and ?b = "store_at (ws_next st) bs (buffer (ws_dest st))"
  have l: "length ?b = length (buffer ?d)" using assms by (intro store_at_length) (simp add: ws_ok_def)
  have d: "?d\<lparr>buffer := ?b\<rparr> = ?d\<lparr>buffer := ?b, next_output_byte := next_output_byte ?d, free_in_buffer := free_in_buffer ?d\<rparr>"
    by simp
  have "dest_ok (?d\<lparr>buffer := ?b\<rparr>)"
    by (subst d, rule dest_store) (use assms(1) l dest_bounds [of ?d] in \<open>simp_all add: ws_ok_def\<close>)
  with assms l show "ws_ok dest_ok (st\<lparr>ws_dest := ?d\<lparr>buffer := ?b\<rparr>,
           ws_next := ws_next st + length bs, ws_free := ws_free st - length bs\<rparr>)"
    by (simp add: ws_ok_def)
  have "handed (?d\<lparr>buffer := ?b\<rparr>) = handed ?d" by (subst d, rule handed_store)
  then show "ws_stream handed (st\<lparr>ws_dest := ?d\<lparr>buffer := ?b\<rparr>,
           ws_next := ws_next st + length bs, ws_free := k\<rparr>) = ws_stream handed st @ bs"
    using assms(1) by (simp add: ws_stream_def ws_ok_def store_at_take)
qed

lemma dump_ok:
  assumes "ws_ok dest_ok st" "ws_free st = 0"
  shows "wrote empty_buffer handed dest_ok [] (ws_cur st) st (dump_buffer empty_buffer st)"
    and "dump_buffer empty_buffer st = Inr (True, st') \<Longrightarrow> 0 < ws_free st'"
proof -
  have ok: "dest_ok (ws_dest st)" and n: "ws_next st = length (buffer (ws_dest st))"
    using assms by (simp_all add: ws_ok_def)
  show "wrote empty_buffer handed dest_ok [] (ws_cur st) st (dump_buffer empty_buffer st)"
  proof (cases "empty_buffer (ws_dest st)")
    case (Inr p)
    then show ?thesis
      using ok n empty_full [OF ok] dest_bounds
      by (cases p; cases "fst p") (auto simp: wrote_def dump_buffer_def ws_ok_def ws_stream_def pending_def refused_def)
  qed (use ok n in \<open>auto simp: wrote_def dump_buffer_def refused_def ws_stream_def\<close>)
  show "dump_buffer empty_buffer st = Inr (True, st') \<Longrightarrow> 0 < ws_free st'"
    using empty_full [OF ok] by (auto simp: dump_buffer_def result_simps split: if_splits)
qed

end

definition copied :: "nat \<Rightarrow> u8 list \<Rightarrow> 'z jpeg_destination_mgr_scheme working_state \<Rightarrow> 'z jpeg_destination_mgr_scheme working_state" where
  "copied n bs st = st\<lparr>ws_dest := (ws_dest st)\<lparr>buffer := store_at (ws_next st) (take n bs) (buffer (ws_dest st))\<rparr>,
     ws_next := ws_next st + n, ws_free := ws_free st - n\<rparr>"

lemma copied_simps [simp]: "ws_cur (copied n bs st) = ws_cur st" "ws_free (copied n bs st) = ws_free st - n"
  by (simp_all add: copied_def)

lemma store_local_Cons:
  "store_local emptyf (Suc fuel) (b # bs) st =
     (let n = min (length (b # bs)) (ws_free st); st1 = copied n (b # bs) st
      in andthen (if ws_free st1 = 0 then dump_buffer emptyf st1 else Inr (True, st1))
           (store_local emptyf fuel (drop n (b # bs))))"
  by (simp add: copied_def andthen_def Let_def)

declare store_local.simps(3) [simp del]

context destination
begin

lemma copied_ok:
  assumes "ws_ok dest_ok st" "n \<le> ws_free st" "n \<le> length bs"
  shows "ws_ok dest_ok (copied n bs st)" "ws_stream handed (copied n bs st) = ws_stream handed st @ take n bs"
proof -
  have l: "length (take n bs) = n" using assms(3) by simp
  from assms(2) show "ws_ok dest_ok (copied n bs st)" "ws_stream handed (copied n bs st) = ws_stream handed st @ take n bs"
    using store_ok [OF assms(1), of "take n bs"] unfolding l copied_def by blast+
qed

lemma wrote_Nil: "ws_ok dest_ok st \<Longrightarrow> wrote empty_buffer handed dest_ok [] (ws_cur st) st (Inr (True, st))"
  by (simp add: wrote_def)

lemma wrote_shift:
  assumes "wrote empty_buffer handed dest_ok as c st' r" "ws_stream handed st' = ws_stream handed st @ bs"
  shows "wrote empty_buffer handed dest_ok (bs @ as) c st r"
proof (cases r)
  case (Inr p)
  with assms show ?thesis by (cases p; cases "fst p") (simp_all add: wrote_def)
qed (use assms in \<open>simp add: wrote_def\<close>)

lemma store_local_wrote:
  assumes "ws_ok dest_ok st" "length bs + (if bs \<noteq> [] \<and> ws_free st = 0 then 1 else 0) \<le> fuel"
  shows "wrote empty_buffer handed dest_ok bs (ws_cur st) st (store_local empty_buffer fuel bs st) \<and>
    (0 < ws_free st \<or> bs \<noteq> [] \<longrightarrow> leaves_room (store_local empty_buffer fuel bs st))"
  using assms
proof (induction fuel arbitrary: bs st)
  case 0
  then have "bs = []" by simp
  with 0 wrote_Nil show ?case by (auto simp: leaves_room_def)
next
  case (Suc fuel)
  show ?case
  proof (cases bs)
    case Nil
    with Suc.prems wrote_Nil show ?thesis by (auto simp: leaves_room_def)
  next
    case (Cons b bs')
    define n where "n = min (length bs) (ws_free st)"
    define st1 where "st1 = copied n bs st"
    define r where "r = (if ws_free st1 = 0 then dump_buffer empty_buffer st1 else Inr (True, st1))"
    have ok1: "ws_ok dest_ok st1" "ws_stream handed st1 = ws_stream handed st @ take n bs"
      using copied_ok [OF Suc.prems(1), of n bs] by (simp_all add: st1_def n_def)
    have w: "wrote empty_buffer handed dest_ok [] (ws_cur st) st1 r" and room: "leaves_room r"
      using dump_ok [OF ok1(1)] wrote_Nil [OF ok1(1)] by (auto simp: r_def leaves_room_def st1_def)
    have IH: "wrote empty_buffer handed dest_ok (drop n bs) (ws_cur st) st' (store_local empty_buffer fuel (drop n bs) st') \<and>
        leaves_room (store_local empty_buffer fuel (drop n bs) st')"
      if "r = Inr (True, st')" "ws_ok dest_ok st'" "ws_cur st' = ws_cur st" for st'
    proof -
      have f: "0 < ws_free st'" using room that(1) by (simp add: leaves_room_def)
      have "length (drop n bs) \<le> fuel" using Suc.prems(2) Cons by (cases "ws_free st") (auto simp: n_def)
      with Suc.IH [OF that(2), of "drop n bs"] that(3) f show ?thesis by simp
    qed
    have e: "store_local empty_buffer (Suc fuel) bs st = andthen r (store_local empty_buffer fuel (drop n bs))"
      unfolding Cons store_local_Cons by (simp add: n_def st1_def r_def Cons [symmetric] Let_def)
    have "wrote empty_buffer handed dest_ok ([] @ drop n bs) (ws_cur st) st1 (andthen r (store_local empty_buffer fuel (drop n bs)))"
      by (rule wrote_andthen [OF w]) (use IH in blast)
    then have "wrote empty_buffer handed dest_ok bs (ws_cur st) st (store_local empty_buffer (Suc fuel) bs st)"
      unfolding e using wrote_shift [OF _ ok1(2)] by fastforce
    moreover have "leaves_room (andthen r (store_local empty_buffer fuel (drop n bs)))"
    proof (unfold leaves_room_def, intro allI impI)
      fix st'' assume "andthen r (store_local empty_buffer fuel (drop n bs)) = Inr (True, st'')"
      then obtain st' where st': "r = Inr (True, st')" "store_local empty_buffer fuel (drop n bs) st' = Inr (True, st'')"
        by (auto simp: andthen_def result_simps split: if_splits)
      with w have "ws_ok dest_ok st'" "ws_cur st' = ws_cur st" by (auto simp: wrote_def)
      with IH [OF st'(1)] st'(2) show "0 < ws_free st''" by (simp add: leaves_room_def)
    qed
    ultimately show ?thesis unfolding e by blast
  qed
qed

lemma STORE_BUFFER_wrote:
  assumes "ws_ok dest_ok st" "length bs \<le> BUFSIZE"
  shows "wrote empty_buffer handed dest_ok bs (ws_cur st) st (STORE_BUFFER empty_buffer bs st)"
    and "0 < ws_free st \<Longrightarrow> length bs < BUFSIZE \<Longrightarrow> leaves_room (STORE_BUFFER empty_buffer bs st)"
proof -
  have "length bs + (if bs \<noteq> [] \<and> ws_free st = 0 then 1 else 0) \<le> 2 * length bs" by (cases bs) simp_all
  note sl = store_local_wrote [OF assms(1) this]
  have c: "STORE_BUFFER empty_buffer bs st =
     (if ws_free st < BUFSIZE then store_local empty_buffer (2 * length bs) bs st
      else Inr (True, copied (length bs) bs st))"
    using assms(2) by (simp add: STORE_BUFFER_def copied_def)
  show "wrote empty_buffer handed dest_ok bs (ws_cur st) st (STORE_BUFFER empty_buffer bs st)"
    using sl copied_ok [OF assms(1), of "length bs" bs] assms(2) by (auto simp: c wrote_def)
  show "0 < ws_free st \<Longrightarrow> length bs < BUFSIZE \<Longrightarrow> leaves_room (STORE_BUFFER empty_buffer bs st)"
    using sl by (auto simp: c leaves_room_def)
qed

end

section \<open>One block, end to end\<close>

definition waiting :: "savable_state \<Rightarrow> bool list" where
  "waiting c = bits_of (put_bits c) (put_buffer c)"

lemma length_waiting [simp]: "length (waiting c) = put_bits c"
  by (simp add: waiting_def)

lemma length_stuff: "length (stuff bs) \<le> 2 * length bs"
  by (induction bs) (simp_all add: stuff_def)

lemma stuff_append [simp]: "stuff (as @ bs) = stuff as @ stuff bs"
  by (simp add: stuff_def)

lemma length_byte_bits [simp]: "length (byte_bits bs) = 8 * length bs"
  by (induction bs) simp_all

lemma carries_load: "carries (waiting c) (load_sink c)"
  unfolding carries_def waiting_def load_sink_def by (rule exI [of _ "[]"]) (simp add: stuff_def)

context destination
begin

text \<open>
  What a block's worth of bits becomes: stuffed bytes for the whole bytes, the rest waits. The
  1016 bits of the bound leave room in \<open>_buffer\<close> even when every byte has to be stuffed.
\<close>

lemma encode_one_block_wrote:
  assumes "ws_ok dest_ok st" "put_bits (ws_cur st) \<le> 15" "block_codable dctbl actbl block last_dc"
    and "length (block_bits dctbl actbl block last_dc) \<le> 1016"
  obtains bs c where
    "wrote empty_buffer handed dest_ok (stuff bs) c st (encode_one_block empty_buffer dctbl actbl block last_dc st)"
    "byte_bits bs @ waiting c = waiting (ws_cur st) @ block_bits dctbl actbl block last_dc"
    "put_bits c \<le> 15" "last_dc_val c = last_dc_val (ws_cur st)"
proof -
  have "sink_ok (waiting (ws_cur st)) (load_sink (ws_cur st))"
    using carries_load assms(2) by (simp add: sink_ok_def load_sink_def)
  from block_bytes_bits [OF this assms(3)] obtain s where
    s: "block_bytes dctbl actbl block last_dc (load_sink (ws_cur st)) = Inr s"
    and ok: "sink_ok (waiting (ws_cur st) @ block_bits dctbl actbl block last_dc) s" by metis
  from ok obtain bs where bs: "sk_out s = stuff bs"
    "byte_bits bs @ bits_of (sk_put_bits s) (sk_put_buffer s) = waiting (ws_cur st) @ block_bits dctbl actbl block last_dc"
    by (auto simp: sink_ok_def carries_def)
  define c where "c = (ws_cur st)\<lparr>put_buffer := sk_put_buffer s, put_bits := sk_put_bits s\<rparr>"
  have "8 * length bs \<le> put_bits (ws_cur st) + length (block_bits dctbl actbl block last_dc)"
    using arg_cong [OF bs(2), of length] by simp
  with assms(2,4) have "length bs \<le> 128" by simp
  then have "length (sk_out s) \<le> BUFSIZE"
    using length_stuff [of bs] by (simp add: bs(1) BUFSIZE_def DCTSIZE2_def)
  from STORE_BUFFER_wrote(1) [OF _ this, of "st\<lparr>ws_cur := c\<rparr>"] assms(1)
  have "wrote empty_buffer handed dest_ok (stuff bs) c (st\<lparr>ws_cur := c\<rparr>)
     (encode_one_block empty_buffer dctbl actbl block last_dc st)"
    by (simp add: encode_one_block_def s c_def [symmetric] bs(1))
  then have "wrote empty_buffer handed dest_ok (stuff bs) c st
     (encode_one_block empty_buffer dctbl actbl block last_dc st)"
    using wrote_shift [where bs = "[]" and st = st and st' = "st\<lparr>ws_cur := c\<rparr>"] by simp
  moreover have "byte_bits bs @ waiting c = waiting (ws_cur st) @ block_bits dctbl actbl block last_dc"
    using bs(2) by (simp add: waiting_def c_def)
  ultimately show ?thesis using that ok by (simp add: sink_ok_def c_def)
qed

end

section \<open>Padding and restart markers\<close>

text \<open>The last byte is filled up with ones.\<close>

definition pad_ones :: "bool list \<Rightarrow> bool list" where
  "pad_ones b = b @ replicate ((7 * length b) mod 8) True"

lemma flush_bytes_carries:
  "carries b s \<Longrightarrow> sk_put_bits s \<le> 32 \<Longrightarrow> n = sk_put_bits s div 8 \<Longrightarrow>
   carries b (flush_bytes n s) \<and> sk_put_bits (flush_bytes n s) = sk_put_bits s mod 8"
proof (induction n s rule: flush_bytes.induct)
  case (1 s)
  then show ?case by simp
next
  case (2 n s)
  then have g: "8 \<le> sk_put_bits s" by linarith
  note e = EMIT_BYTE_carries [OF "2.prems"(1) g "2.prems"(2)]
  have "n = sk_put_bits (EMIT_BYTE s) div 8" using "2.prems"(3) g by (simp add: e(2))
  with "2.IH" [OF g e(1)] "2.prems"(2) g show ?case by (simp add: e(2) le_mod_geq [OF g])
qed

lemma pad_arith:
  assumes "8 * k + (a + 7) mod 8 = a + 7" "a \<le> (15::nat)"
  shows "8 * k = a + 7 * a mod 8"
proof -
  have "a \<in> {0, 1, 2, 3, 4, 5, 6, 7, 8, 9, 10, 11, 12, 13, 14, 15}" using assms(2) by (simp add: le_Suc_eq numeral_eq_Suc)  
  with assms(1) show ?thesis by (elim insertE emptyE) simp_all
qed

lemma flush_bits_bytes:
  assumes "put_bits c \<le> 15"
  obtains bs where "sk_out (flush_bytes (sk_put_bits (PUT_BITS 0x7F 7 (load_sink c)) div 8) (PUT_BITS 0x7F 7 (load_sink c))) = stuff bs"
    "byte_bits bs = pad_ones (waiting c)"
proof -
  let ?s = "PUT_BITS 0x7F 7 (load_sink c)"
  have ones: "bits_of 7 (0x7F::u32) = replicate 7 True" by (simp add: bits_of_def upt_rec numeral_eq_Suc)
  have p: "sk_put_bits (load_sink c) + 7 \<le> 32" using assms by (simp add: load_sink_def)
  from PUT_BITS_carries [OF carries_load p, of "0x7F"]
  have c: "carries (waiting c @ replicate 7 True) ?s" and n: "sk_put_bits ?s = put_bits c + 7"
    by (simp_all add: ones load_sink_def)
  let ?f = "flush_bytes (sk_put_bits ?s div 8) ?s"
  from flush_bytes_carries [OF c _ refl] n assms
  have "carries (waiting c @ replicate 7 True) ?f" and r: "sk_put_bits ?f = (put_bits c + 7) mod 8"
    by simp_all
  then obtain bs where bs: "sk_out ?f = stuff bs"
    "byte_bits bs @ bits_of ((put_bits c + 7) mod 8) (sk_put_buffer ?f) = waiting c @ replicate 7 True"
    by (auto simp: carries_def)
  have l: "8 * length bs = put_bits c + (7 * put_bits c) mod 8"
    using arg_cong [OF bs(2), of length] by (intro pad_arith assms) simp
  have "(7 * put_bits c) mod 8 < 8" by simp
  then have m7: "(7 * put_bits c) mod 8 \<le> 7" by linarith
  have "byte_bits bs = take (8 * length bs) (waiting c @ replicate 7 True)"
    using arg_cong [OF bs(2), of "take (8 * length bs)"] by simp
  also have "\<dots> = pad_ones (waiting c)"
    unfolding l by (simp add: pad_ones_def min_absorb2 m7)
  finally show ?thesis using bs(1) that by blast
qed

lemma mod8_le7: "m mod 8 \<le> (7::nat)"
proof -
  have "m mod 8 < 8" by simp
  then show ?thesis by linarith
qed

context destination
begin

lemma flush_bits_wrote:
  assumes "ws_ok dest_ok st" "put_bits (ws_cur st) \<le> 15"
  obtains bs where "byte_bits bs = pad_ones (waiting (ws_cur st))"
    "wrote empty_buffer handed dest_ok (stuff bs) ((ws_cur st)\<lparr>put_buffer := 0, put_bits := 0\<rparr>) st (flush_bits empty_buffer st)"
    "0 < ws_free st \<Longrightarrow> leaves_room (flush_bits empty_buffer st)"
proof -
  let ?c = "(ws_cur st)\<lparr>put_buffer := 0, put_bits := 0\<rparr>"
  from flush_bits_bytes [OF assms(2)] obtain bs where bs: "byte_bits bs = pad_ones (waiting (ws_cur st))"
    and out: "sk_out (flush_bytes (sk_put_bits (PUT_BITS 0x7F 7 (load_sink (ws_cur st))) div 8)
      (PUT_BITS 0x7F 7 (load_sink (ws_cur st)))) = stuff bs" by metis
  have "8 * length bs \<le> 22"
    using arg_cong [OF bs, of length] assms(2) mod8_le7 [of "7 * put_bits (ws_cur st)"] by (simp add: pad_ones_def)
  then have len: "length (stuff bs) < BUFSIZE"
    using length_stuff [of bs] by (simp add: BUFSIZE_def DCTSIZE2_def)
  have e: "flush_bits empty_buffer st = STORE_BUFFER empty_buffer (stuff bs) (st\<lparr>ws_cur := ?c\<rparr>)"
    by (simp add: flush_bits_def out)
  show ?thesis
  proof (rule that [OF bs])
    have "wrote empty_buffer handed dest_ok (stuff bs) ?c (st\<lparr>ws_cur := ?c\<rparr>) (flush_bits empty_buffer st)"
      using STORE_BUFFER_wrote(1) [of "st\<lparr>ws_cur := ?c\<rparr>" "stuff bs"] assms(1) len unfolding e by simp
    then show "wrote empty_buffer handed dest_ok (stuff bs) ?c st (flush_bits empty_buffer st)"
      using wrote_shift [where bs = "[]" and st = st and st' = "st\<lparr>ws_cur := ?c\<rparr>"] by simp
    show "leaves_room (flush_bits empty_buffer st)" if "0 < ws_free st"
      using STORE_BUFFER_wrote(2) [of "st\<lparr>ws_cur := ?c\<rparr>" "stuff bs"] assms(1) len that unfolding e by simp
  qed
qed

lemma emit_byte_wrote:
  assumes "ws_ok dest_ok st" "0 < ws_free st"
  shows "wrote empty_buffer handed dest_ok [v] (ws_cur st) st (emit_byte empty_buffer v st)"
    and "leaves_room (emit_byte empty_buffer v st)"
proof -
  have lt: "ws_next st < length (buffer (ws_dest st))" using assms by (simp add: ws_ok_def)
  define st1 where "st1 = copied 1 [v] st"
  have "(buffer (ws_dest st))[ws_next st := v] = store_at (ws_next st) [v] (buffer (ws_dest st))"
    using lt by (simp add: store_at_def upd_conv_take_nth_drop)
  then have e: "emit_byte empty_buffer v st = (if ws_free st1 = 0 then dump_buffer empty_buffer st1 else Inr (True, st1))"
    using lt by (simp add: emit_byte_def st1_def copied_def)
  have ok: "ws_ok dest_ok st1" "ws_stream handed st1 = ws_stream handed st @ [v]" "ws_cur st1 = ws_cur st"
    using copied_ok [OF assms(1), of 1 "[v]"] assms(2) by (simp_all add: st1_def)
  have "wrote empty_buffer handed dest_ok [] (ws_cur st) st1 (emit_byte empty_buffer v st)"
    unfolding e using dump_ok(1) [OF ok(1)] wrote_Nil [OF ok(1)] ok(3) by simp
  then show "wrote empty_buffer handed dest_ok [v] (ws_cur st) st (emit_byte empty_buffer v st)"
    using wrote_shift [OF _ ok(2)] by fastforce
  show "leaves_room (emit_byte empty_buffer v st)"
    unfolding e using dump_ok(2) [OF ok(1)] by (auto simp: leaves_room_def)
qed

text \<open>A restart: the waiting bits padded to a byte, then the marker; the predictions are cleared.\<close>

lemma emit_restart_wrote:
  assumes "ws_ok dest_ok st" "put_bits (ws_cur st) \<le> 15" "0 < ws_free st"
  obtains bs where "byte_bits bs = pad_ones (waiting (ws_cur st))"
    "wrote empty_buffer handed dest_ok (stuff bs @ [0xFF, 0xD0 + of_nat num])
       \<lparr>put_buffer = 0, put_bits = 0, last_dc_val = replicate n 0 @ drop n (last_dc_val (ws_cur st))\<rparr> st
       (emit_restart empty_buffer n num st)"
proof -
  let ?c1 = "(ws_cur st)\<lparr>put_buffer := 0, put_bits := 0\<rparr>"
  let ?c2 = "\<lparr>put_buffer = 0, put_bits = 0, last_dc_val = replicate n 0 @ drop n (last_dc_val (ws_cur st))\<rparr>"
  let ?reset = "\<lambda>st. Inr (True, st\<lparr>ws_cur := (ws_cur st)\<lparr>last_dc_val := replicate n 0 @ drop n (last_dc_val (ws_cur st))\<rparr>\<rparr>)"
  from flush_bits_wrote [OF assms(1,2)] obtain bs where bs: "byte_bits bs = pad_ones (waiting (ws_cur st))"
    and fl: "wrote empty_buffer handed dest_ok (stuff bs) ?c1 st (flush_bits empty_buffer st)"
    and room: "leaves_room (flush_bits empty_buffer st)" using assms(3) by metis
  have reset: "wrote empty_buffer handed dest_ok [] ?c2 st' (?reset st')" if "ws_ok dest_ok st'" "ws_cur st' = ?c1" for st'
    using that by (simp add: wrote_def)
  have two: "wrote empty_buffer handed dest_ok ([0xD0 + of_nat num] @ []) ?c2 st1
      (andthen (emit_byte empty_buffer (0xD0 + of_nat num) st1) ?reset)"
    if "ws_ok dest_ok st1" "ws_cur st1 = ?c1" "0 < ws_free st1" for st1
    using emit_byte_wrote(1) [OF that(1,3)] that(2) by (intro wrote_andthen [OF _ reset]) simp_all
  have one: "wrote empty_buffer handed dest_ok ([0xFF] @ [0xD0 + of_nat num] @ []) ?c2 st1
      (andthen (emit_byte empty_buffer 0xFF st1) (\<lambda>st. andthen (emit_byte empty_buffer (0xD0 + of_nat num) st) ?reset))"
    if "ws_ok dest_ok st1" "ws_cur st1 = ?c1" "0 < ws_free st1" for st1
    using emit_byte_wrote [OF that(1,3)] that(2)
    by (intro wrote_andthen [OF _ two]) (simp_all add: leaves_room_def)
  have "wrote empty_buffer handed dest_ok (stuff bs @ [0xFF] @ [0xD0 + of_nat num] @ []) ?c2 st (emit_restart empty_buffer n num st)"
    unfolding emit_restart_def
    by (rule wrote_andthen [OF fl one]) (use room in \<open>simp_all add: leaves_room_def\<close>)
  with that [OF bs] show ?thesis by simp
qed

end

section \<open>An MCU and a scan\<close>

text \<open>The bits of the blocks of an MCU, with the DC predictions before and after.\<close>

fun mcu_bits :: "scan_params \<Rightarrow> huff_entropy_encoder \<Rightarrow> (nat \<times> int list) list \<Rightarrow> int list \<Rightarrow> bool list" where
  "mcu_bits sp e [] dcs = []"
| "mcu_bits sp e ((ci, block) # rest) dcs =
     block_bits (dc_derived_tbls e ! (dc_tbl_no sp ! ci)) (ac_derived_tbls e ! (ac_tbl_no sp ! ci)) block (dcs ! ci) @
     mcu_bits sp e rest (dcs[ci := block ! 0])"

fun mcu_last :: "(nat \<times> int list) list \<Rightarrow> int list \<Rightarrow> int list" where
  "mcu_last [] dcs = dcs"
| "mcu_last ((ci, block) # rest) dcs = mcu_last rest (dcs[ci := block ! 0])"

fun mcu_codable :: "scan_params \<Rightarrow> huff_entropy_encoder \<Rightarrow> (nat \<times> int list) list \<Rightarrow> int list \<Rightarrow> bool" where
  "mcu_codable sp e [] dcs = True"
| "mcu_codable sp e ((ci, block) # rest) dcs =
     (let dctbl = dc_derived_tbls e ! (dc_tbl_no sp ! ci); actbl = ac_derived_tbls e ! (ac_tbl_no sp ! ci)
      in block_codable dctbl actbl block (dcs ! ci) \<and> length (block_bits dctbl actbl block (dcs ! ci)) \<le> 1008 \<and>
         mcu_codable sp e rest (dcs[ci := block ! 0]))"

fun bytes_of :: "bool list \<Rightarrow> u8 list" where
  "bytes_of b = (if length b < 8 then [] else of_nat (bits_val (take 8 b)) # bytes_of (drop 8 b))"

declare bytes_of.simps [simp del]

lemma bits_of_8_inj: "bits_of 8 (x::u8) = bits_of 8 y \<Longrightarrow> x = y"
  by (rule bit_word_eqI) (simp add: bits_of_eq_iff)

lemma bytes_of_byte_bits [simp]: "bytes_of (byte_bits bs) = bs"
proof (induction bs)
  case (Cons b bs)
  have "of_nat (bits_val (bits_of 8 b)) = b"
  proof -
    have "take_bit 8 (unat b) = unat b" using unsigned_less [of b] by (intro take_bit_nat_eq_self) simp
    then show ?thesis using bits_val_of [of 8 "unat b"] by simp
  qed
  with Cons show ?case by (subst bytes_of.simps) simp
qed (simp add: bytes_of.simps)

lemma byte_bits_of: "8 dvd length b \<Longrightarrow> byte_bits (bytes_of b) = b"
proof (induction b rule: bytes_of.induct)
  case (1 b)
  show ?case
  proof (cases "length b < 8")
    case True
    with "1.prems" have "b = []" by (auto dest: dvd_imp_le)
    then show ?thesis by (simp add: bytes_of.simps)
  next
    case False
    with "1.prems" have "8 dvd length (drop 8 b)" by (simp add: dvd_minus_self)
    from "1.IH" [OF False this] have "byte_bits (bytes_of (drop 8 b)) = drop 8 b" .
    moreover have "bits_of 8 (of_nat (bits_val (take 8 b)) :: u8) = take 8 b"
    proof -
      have l: "length (take 8 b) = 8" using False by simp
      then have "bits_val (take 8 b) < 2 ^ 8" using bits_val_less [of "take 8 b"] by simp
      then have "unat (of_nat (bits_val (take 8 b)) :: u8) = bits_val (take 8 b)" by (simp add: unat_of_nat)
      then show ?thesis using bits_of_val [of "take 8 b"] unfolding l by (metis bits_of_unat)
    qed
    ultimately show ?thesis using False by (subst bytes_of.simps) simp
  qed
qed

definition flushed :: "bool list \<Rightarrow> u8 list" where
  "flushed b = stuff (bytes_of (pad_ones b))"

context destination
begin

lemma encode_blocks_wrote:
  "ws_ok dest_ok st \<Longrightarrow> put_bits (ws_cur st) \<le> 15 \<Longrightarrow> mcu_codable sp e blocks (last_dc_val (ws_cur st)) \<Longrightarrow>
   \<exists>bs c. wrote empty_buffer handed dest_ok (stuff bs) c st (encode_blocks empty_buffer sp e blocks st) \<and>
     byte_bits bs @ waiting c = waiting (ws_cur st) @ mcu_bits sp e blocks (last_dc_val (ws_cur st)) \<and>
     put_bits c \<le> 15 \<and> last_dc_val c = mcu_last blocks (last_dc_val (ws_cur st))"
proof (induction blocks arbitrary: st)
  case Nil
  then show ?case using wrote_Nil by (intro exI [of _ "[]"] exI [of _ "ws_cur st"]) (simp add: stuff_def)
next
  case (Cons cb blocks)
  obtain ci block where cb: "cb = (ci, block)" by (cases cb)
  define dct where "dct = dc_derived_tbls e ! (dc_tbl_no sp ! ci)"
  define act where "act = ac_derived_tbls e ! (ac_tbl_no sp ! ci)"
  define l0 where "l0 = last_dc_val (ws_cur st)"
  have cod: "block_codable dct act block (l0 ! ci)" "length (block_bits dct act block (l0 ! ci)) \<le> 1016"
    and rest: "mcu_codable sp e blocks (l0[ci := block ! 0])"
    using Cons.prems(3) by (simp_all add: cb Let_def dct_def act_def l0_def)
  from encode_one_block_wrote [OF Cons.prems(1,2) cod] obtain bs1 c1 where
    w1: "wrote empty_buffer handed dest_ok (stuff bs1) c1 st (encode_one_block empty_buffer dct act block (l0 ! ci) st)"
    and b1: "byte_bits bs1 @ waiting c1 = waiting (ws_cur st) @ block_bits dct act block (l0 ! ci)"
    and c1: "put_bits c1 \<le> 15" "last_dc_val c1 = l0" by (metis l0_def)
  define c1' where "c1' = c1\<lparr>last_dc_val := l0[ci := block ! 0]\<rparr>"
  define g where "g st = encode_blocks empty_buffer sp e blocks
       (st\<lparr>ws_cur := (ws_cur st)\<lparr>last_dc_val := (last_dc_val (ws_cur st))[ci := block ! 0]\<rparr>\<rparr>)" for st
  have "\<exists>bs c. byte_bits bs @ waiting c = waiting c1 @ mcu_bits sp e blocks (l0[ci := block ! 0]) \<and>
     put_bits c \<le> 15 \<and> last_dc_val c = mcu_last blocks (l0[ci := block ! 0]) \<and>
     wrote empty_buffer handed dest_ok (stuff bs) c st' (g st')"
    if "ws_ok dest_ok st'" "ws_cur st' = c1" for st'
  proof -
    have "waiting c1' = waiting c1" by (simp add: waiting_def c1'_def)
    with Cons.IH [of "st'\<lparr>ws_cur := c1'\<rparr>"] that c1 rest show ?thesis
      using wrote_shift [where bs = "[]" and st = st' and st' = "st'\<lparr>ws_cur := c1'\<rparr>"]
      by (fastforce simp: g_def c1'_def)
  qed
  note tail = this
  define r where "r = encode_one_block empty_buffer dct act block (l0 ! ci) st"
  define st1 where "st1 = (case r of Inr (True, st1) \<Rightarrow> st1 | _ \<Rightarrow> st\<lparr>ws_cur := c1\<rparr>)"
  have "ws_ok dest_ok st1" "ws_cur st1 = c1"
    using w1 Cons.prems(1) unfolding r_def [symmetric]
    by (auto simp: st1_def wrote_def split: sum.splits prod.splits bool.splits)
  from tail [OF this] obtain bs c where b2: "byte_bits bs @ waiting c = waiting c1 @ mcu_bits sp e blocks (l0[ci := block ! 0])"
    and c: "put_bits c \<le> 15" "last_dc_val c = mcu_last blocks (l0[ci := block ! 0])"
    and w2: "wrote empty_buffer handed dest_ok (stuff bs) c st1 (g st1)" by blast
  have "wrote empty_buffer handed dest_ok (stuff bs1 @ stuff bs) c st (andthen r g)"
    using w1 unfolding r_def [symmetric]
    by (rule wrote_andthen) (use w2 in \<open>simp add: st1_def\<close>)
  moreover have "encode_blocks empty_buffer sp e (cb # blocks) st = andthen r g"
    by (simp add: cb r_def g_def [abs_def] dct_def act_def l0_def)
  moreover have "byte_bits (bs1 @ bs) @ waiting c = waiting (ws_cur st) @ mcu_bits sp e (cb # blocks) l0"
    using b1 b2 by (simp add: cb dct_def act_def) 
  ultimately show ?case
    using c by (intro exI [of _ "bs1 @ bs"] exI [of _ c]) (simp add: cb l0_def)
qed

end

text \<open>
  The simulation relation: \<open>out\<close> are the bytes up to the last marker, \<open>b\<close> the bits sent since,
  of which the last ones may still wait in the encoder.
\<close>

definition holds ::
  "('z jpeg_destination_mgr_scheme \<Rightarrow> u8 list) \<Rightarrow> ('z jpeg_destination_mgr_scheme \<Rightarrow> bool) \<Rightarrow> u8 list \<Rightarrow> bool list \<Rightarrow>
   huff_entropy_encoder \<Rightarrow> 'z jpeg_destination_mgr_scheme \<Rightarrow> bool" where
  "holds handed dest_ok out b e d \<longleftrightarrow> dest_ok d \<and> put_bits (saved e) \<le> 15 \<and>
     (\<exists>bs. handed d @ pending d = out @ stuff bs \<and> byte_bits bs @ waiting (saved e) = b)"

definition restart_due :: "scan_params \<Rightarrow> huff_entropy_encoder \<Rightarrow> bool" where
  "restart_due sp e \<longleftrightarrow> restart_interval sp \<noteq> 0 \<and> restarts_to_go e = 0"

definition predictions :: "scan_params \<Rightarrow> huff_entropy_encoder \<Rightarrow> int list" where
  "predictions sp e =
     (if restart_due sp e
      then replicate (comps_in_scan sp) 0 @ drop (comps_in_scan sp) (last_dc_val (saved e)) else last_dc_val (saved e))"

definition mcu_of :: "scan_params \<Rightarrow> int list list \<Rightarrow> (nat \<times> int list) list" where
  "mcu_of sp MCU_data = zip (MCU_membership sp) MCU_data"

definition marker_bytes :: "huff_entropy_encoder \<Rightarrow> u8 list" where
  "marker_bytes e = [0xFF, 0xD0 + of_nat (next_restart_num e)]"

definition next_restart :: "scan_params \<Rightarrow> huff_entropy_encoder \<Rightarrow> nat \<times> nat" where
  "next_restart sp e =
     (if restart_interval sp = 0 then (restarts_to_go e, next_restart_num e)
      else if restarts_to_go e = 0 then (restart_interval sp - 1, (next_restart_num e + 1) mod 8)
      else (restarts_to_go e - 1, next_restart_num e))"

text \<open>The outcome of an MCU, or of the end of a scan.\<close>

definition refused_within ::
  "('z jpeg_destination_mgr_scheme \<Rightarrow> fault + (bool \<times> 'z jpeg_destination_mgr_scheme)) \<Rightarrow>
   ('z jpeg_destination_mgr_scheme \<Rightarrow> u8 list) \<Rightarrow> ('z jpeg_destination_mgr_scheme \<Rightarrow> bool) \<Rightarrow> u8 list \<Rightarrow> bool list \<Rightarrow>
   fault + (bool \<times> 'z jpeg_destination_mgr_scheme) \<Rightarrow> bool" where
  "refused_within emptyf handed dest_ok out b res \<longleftrightarrow>
     (\<exists>ds. prefix (byte_bits ds) b \<and> refused emptyf handed dest_ok (out @ stuff ds) res)"

definition mcu_done ::
  "('z jpeg_destination_mgr_scheme \<Rightarrow> fault + (bool \<times> 'z jpeg_destination_mgr_scheme)) \<Rightarrow>
   ('z jpeg_destination_mgr_scheme \<Rightarrow> u8 list) \<Rightarrow> ('z jpeg_destination_mgr_scheme \<Rightarrow> bool) \<Rightarrow>
   u8 list \<Rightarrow> bool list \<Rightarrow> huff_entropy_encoder \<Rightarrow> huff_entropy_encoder \<Rightarrow>
   fault + (bool \<times> huff_entropy_encoder \<times> 'z jpeg_destination_mgr_scheme) \<Rightarrow> bool" where
  "mcu_done emptyf handed dest_ok out b e e1 res \<longleftrightarrow>
     (case res of
        Inl f \<Rightarrow> refused_within emptyf handed dest_ok out b (Inl f)
      | Inr (ok, e', d') \<Rightarrow>
          if ok then holds handed dest_ok out b e' d' \<and> e' = e1\<lparr>saved := (saved e1)\<lparr>put_buffer := put_buffer (saved e'), put_bits := put_bits (saved e')\<rparr>\<rparr>
          else e' = e \<and> refused_within emptyf handed dest_ok out b (Inr (False, d')))"

definition after_mcu :: "scan_params \<Rightarrow> int list list \<Rightarrow> huff_entropy_encoder \<Rightarrow> huff_entropy_encoder" where
  "after_mcu sp MCU_data e =
     e\<lparr>saved := (saved e)\<lparr>last_dc_val := mcu_last (mcu_of sp MCU_data) (predictions sp e)\<rparr>,
       restarts_to_go := fst (next_restart sp e), next_restart_num := snd (next_restart sp e)\<rparr>"

lemma and_7: "n AND 7 = (n::nat) mod 8"
  using take_bit_eq_mask [of 3 n] by (simp add: mask_eq_exp_minus_1 take_bit_eq_mod)

lemma pad_ones_bytes: "pad_ones (byte_bits bs @ b) = byte_bits bs @ pad_ones b"
proof -
  have "7 * (8 * length bs + length b) = 7 * length b + 8 * (7 * length bs)" by simp
  then have "(7 * (8 * length bs + length b)) mod 8 = (7 * length b) mod 8" by (metis mod_mult_self2)
  then show ?thesis by (simp add: pad_ones_def)
qed

context destination
begin

lemma put_back:
  assumes "ws_ok dest_ok st"
  shows "dest_ok ((ws_dest st)\<lparr>next_output_byte := ws_next st, free_in_buffer := ws_free st\<rparr>)"
    and "handed ((ws_dest st)\<lparr>next_output_byte := ws_next st, free_in_buffer := ws_free st\<rparr>) @
         pending ((ws_dest st)\<lparr>next_output_byte := ws_next st, free_in_buffer := ws_free st\<rparr>) = ws_stream handed st"
  using assms dest_store [of "ws_dest st" "buffer (ws_dest st)" "ws_next st" "ws_free st"]
    handed_store [where d = "ws_dest st" and b = "buffer (ws_dest st)" and n = "ws_next st" and f = "ws_free st"]
  by (simp_all add: ws_ok_def ws_stream_def pending_def)

end

section \<open>Room for a marker\<close>

lemma leaves_room_andthen:
  "(\<And>st'. r = Inr (True, st') \<Longrightarrow> leaves_room (g st')) \<Longrightarrow> leaves_room (andthen r g)"
  by (auto simp: leaves_room_def andthen_def result_simps split: if_splits)

context destination
begin

text \<open>
  A block of at most 1008 bits never fills the buffer to the last byte without emptying it, so
  that the next marker byte finds room.
\<close>

lemma encode_one_block_room:
  assumes "ws_ok dest_ok st" "put_bits (ws_cur st) \<le> 15" "block_codable dctbl actbl block dcs"
    and "length (block_bits dctbl actbl block dcs) \<le> 1008" "0 < ws_free st"
  shows "leaves_room (encode_one_block empty_buffer dctbl actbl block dcs st)"
proof -
  have "sink_ok (waiting (ws_cur st)) (load_sink (ws_cur st))"
    using carries_load assms(2) by (simp add: sink_ok_def load_sink_def)
  from block_bytes_bits [OF this assms(3)] obtain s where
    s: "block_bytes dctbl actbl block dcs (load_sink (ws_cur st)) = Inr s"
    and ok: "sink_ok (waiting (ws_cur st) @ block_bits dctbl actbl block dcs) s" by metis
  from ok obtain bs where bs: "sk_out s = stuff bs"
    "byte_bits bs @ bits_of (sk_put_bits s) (sk_put_buffer s) = waiting (ws_cur st) @ block_bits dctbl actbl block dcs"
    by (auto simp: sink_ok_def carries_def)
  have "8 * length bs \<le> put_bits (ws_cur st) + length (block_bits dctbl actbl block dcs)"
    using arg_cong [OF bs(2), of length] by simp
  with assms(2,4) have "length bs \<le> 127" by simp
  then have "length (sk_out s) < BUFSIZE"
    using length_stuff [of bs] by (simp add: bs(1) BUFSIZE_def DCTSIZE2_def)
  with STORE_BUFFER_wrote(2) [OF _ order_less_imp_le [OF this]] assms(1,5) show ?thesis
    by (simp add: encode_one_block_def s)
qed

lemma encode_blocks_room:
  "ws_ok dest_ok st \<Longrightarrow> put_bits (ws_cur st) \<le> 15 \<Longrightarrow> mcu_codable sp e blocks (last_dc_val (ws_cur st)) \<Longrightarrow>
   0 < ws_free st \<Longrightarrow> leaves_room (encode_blocks empty_buffer sp e blocks st)"
proof (induction blocks arbitrary: st)
  case Nil
  then show ?case by (simp add: leaves_room_def)
next
  case (Cons cb blocks)
  obtain ci block where cb: "cb = (ci, block)" by (cases cb)
  define dct where "dct = dc_derived_tbls e ! (dc_tbl_no sp ! ci)"
  define act where "act = ac_derived_tbls e ! (ac_tbl_no sp ! ci)"
  define l0 where "l0 = last_dc_val (ws_cur st)"
  have cod: "block_codable dct act block (l0 ! ci)" "length (block_bits dct act block (l0 ! ci)) \<le> 1008"
    and rest: "mcu_codable sp e blocks (l0[ci := block ! 0])"
    using Cons.prems(3) by (simp_all add: cb Let_def dct_def act_def l0_def)
  note room = encode_one_block_room [OF Cons.prems(1,2) cod Cons.prems(4)]
  have "length (block_bits dct act block (l0 ! ci)) \<le> 1016" using cod(2) by simp
  from encode_one_block_wrote [OF Cons.prems(1,2) cod(1) this] obtain bs1 c1 where
    w1: "wrote empty_buffer handed dest_ok (stuff bs1) c1 st (encode_one_block empty_buffer dct act block (l0 ! ci) st)"
    and c1: "put_bits c1 \<le> 15" "last_dc_val c1 = l0" by (metis l0_def)
  show ?case
    unfolding cb encode_blocks.simps dct_def [symmetric] act_def [symmetric] l0_def [symmetric]
  proof (rule leaves_room_andthen)
    fix st' assume r: "encode_one_block empty_buffer dct act block (l0 ! ci) st = Inr (True, st')"
    with w1 room have "ws_ok dest_ok st'" "ws_cur st' = c1" "0 < ws_free st'"
      by (simp_all add: wrote_def leaves_room_def)
    with c1 rest show "leaves_room (encode_blocks empty_buffer sp e blocks
       (st'\<lparr>ws_cur := (ws_cur st')\<lparr>last_dc_val := (last_dc_val (ws_cur st'))[ci := block ! 0]\<rparr>\<rparr>))"
      by (intro Cons.IH) simp_all
  qed
qed

end

section \<open>The simulation\<close>

text \<open>The parts of \<open>encode_mcu_huff\<close>: loading the state, the restart, and storing the state.\<close>

definition mcu_start :: "huff_entropy_encoder \<Rightarrow> 'z jpeg_destination_mgr_scheme \<Rightarrow> 'z jpeg_destination_mgr_scheme working_state" where
  "mcu_start e d = \<lparr>ws_next = next_output_byte d, ws_free = free_in_buffer d, ws_cur = saved e, ws_dest = d\<rparr>"

definition mcu_restart ::
  "('z jpeg_destination_mgr_scheme \<Rightarrow> fault + (bool \<times> 'z jpeg_destination_mgr_scheme)) \<Rightarrow> scan_params \<Rightarrow>
   huff_entropy_encoder \<Rightarrow> 'z jpeg_destination_mgr_scheme working_state \<Rightarrow>
   fault + (bool \<times> 'z jpeg_destination_mgr_scheme working_state)" where
  "mcu_restart emptyf sp e st =
     (if restart_due sp e then emit_restart emptyf (comps_in_scan sp) (next_restart_num e) st else Inr (True, st))"

definition mcu_store ::
  "scan_params \<Rightarrow> huff_entropy_encoder \<Rightarrow> 'z jpeg_destination_mgr_scheme working_state \<Rightarrow>
   huff_entropy_encoder \<times> 'z jpeg_destination_mgr_scheme" where
  "mcu_store sp e st =
     (e\<lparr>saved := ws_cur st, restarts_to_go := fst (next_restart sp e), next_restart_num := snd (next_restart sp e)\<rparr>,
      (ws_dest st)\<lparr>next_output_byte := ws_next st, free_in_buffer := ws_free st\<rparr>)"

lemma encode_mcu_eq:
  "encode_mcu_huff emptyf sp MCU_data e d =
     ebind (andthen (mcu_restart emptyf sp e (mcu_start e d)) (encode_blocks emptyf sp e (mcu_of sp MCU_data)))
       (\<lambda>(ok, st). if \<not> ok then Inr (False, e, ws_dest st) else Inr (True, mcu_store sp e st))"
  unfolding encode_mcu_huff_def Let_def mcu_restart_def restart_due_def mcu_start_def mcu_of_def mcu_store_def
  by (rule arg_cong2 [where f = ebind]) (auto simp: next_restart_def and_7 fun_eq_iff)

text \<open>What is on the wire before the blocks of the MCU, and the bits that are still open then.\<close>

definition mcu_out :: "scan_params \<Rightarrow> huff_entropy_encoder \<Rightarrow> u8 list \<Rightarrow> bool list \<Rightarrow> u8 list" where
  "mcu_out sp e out b = (if restart_due sp e then out @ flushed b @ marker_bytes e else out)"

definition mcu_open :: "scan_params \<Rightarrow> huff_entropy_encoder \<Rightarrow> bool list \<Rightarrow> bool list" where
  "mcu_open sp e b = (if restart_due sp e then [] else b)"

context destination
begin

lemma mcu_start_ok:
  "dest_ok d \<Longrightarrow> ws_ok dest_ok (mcu_start e d) \<and> ws_stream handed (mcu_start e d) = handed d @ pending d \<and>
     ws_cur (mcu_start e d) = saved e \<and> ws_free (mcu_start e d) = free_in_buffer d"
  using dest_bounds [of d] by (simp add: mcu_start_def ws_ok_def ws_stream_def pending_def)

lemma mcu_restart_wrote:
  assumes "holds handed dest_ok out b e d" "restart_due sp e \<longrightarrow> 0 < free_in_buffer d"
  obtains w c ds where
    "wrote empty_buffer handed dest_ok w c (mcu_start e d) (mcu_restart empty_buffer sp e (mcu_start e d))"
    "ws_stream handed (mcu_start e d) @ w = mcu_out sp e out b @ stuff ds"
    "byte_bits ds @ waiting c = mcu_open sp e b" "put_bits c \<le> 15" "last_dc_val c = predictions sp e"
proof -
  from assms(1) obtain bs where bs: "handed d @ pending d = out @ stuff bs" "byte_bits bs @ waiting (saved e) = b"
    and dok: "dest_ok d" and p: "put_bits (saved e) \<le> 15" by (auto simp: holds_def)
  note st = mcu_start_ok [OF dok, of e]
  show thesis
  proof (cases "restart_due sp e")
    case True
    then have "0 < ws_free (mcu_start e d)" using assms(2) st by simp
    from emit_restart_wrote [OF _ _ this, where num = "next_restart_num e" and n = "comps_in_scan sp"] p st obtain rs where
      rs: "byte_bits rs = pad_ones (waiting (saved e))"
      and w: "wrote empty_buffer handed dest_ok (stuff rs @ [0xFF, 0xD0 + of_nat (next_restart_num e)])
       \<lparr>put_buffer = 0, put_bits = 0, last_dc_val = predictions sp e\<rparr> (mcu_start e d) (mcu_restart empty_buffer sp e (mcu_start e d))"
      using True by (auto simp: mcu_restart_def predictions_def)
    have "pad_ones b = byte_bits (bs @ rs)"
      using bs(2) rs by (simp add: pad_ones_bytes flip: bs(2))
    then have "flushed b = stuff (bs @ rs)" by (simp add: flushed_def del: byte_bits_append)
    then show thesis
      using that [OF w, of "[]"] True bs(1) st by (simp add: stuff_def waiting_def marker_bytes_def mcu_out_def mcu_open_def)
  next
    case False
    then show thesis
      using that [of "[]" "saved e" bs] wrote_Nil [of "mcu_start e d"] bs p st
      by (simp add: mcu_restart_def predictions_def mcu_out_def mcu_open_def)
  qed
qed

lemma mcu_wrote:
  assumes "holds handed dest_ok out b e d"
    and "mcu_codable sp e (mcu_of sp MCU_data) (predictions sp e)" "restart_due sp e \<longrightarrow> 0 < free_in_buffer d"
  obtains w c ds where
    "wrote empty_buffer handed dest_ok w c (mcu_start e d)
       (andthen (mcu_restart empty_buffer sp e (mcu_start e d)) (encode_blocks empty_buffer sp e (mcu_of sp MCU_data)))"
    "ws_stream handed (mcu_start e d) @ w = mcu_out sp e out b @ stuff ds"
    "byte_bits ds @ waiting c = mcu_open sp e b @ mcu_bits sp e (mcu_of sp MCU_data) (predictions sp e)"
    "put_bits c \<le> 15" "last_dc_val c = mcu_last (mcu_of sp MCU_data) (predictions sp e)"
proof -
  define st where "st = mcu_start e d"
  define r where "r = mcu_restart empty_buffer sp e st"
  from mcu_restart_wrote [OF assms(1,3)] obtain w c1 ds where w1: "wrote empty_buffer handed dest_ok w c1 st r"
    and o1: "ws_stream handed st @ w = mcu_out sp e out b @ stuff ds" "byte_bits ds @ waiting c1 = mcu_open sp e b"
      "put_bits c1 \<le> 15" "last_dc_val c1 = predictions sp e" unfolding st_def r_def by metis
  define st1 where "st1 = (case r of Inr (True, st1) \<Rightarrow> st1 | _ \<Rightarrow> st\<lparr>ws_cur := c1\<rparr>)"
  have "ws_ok dest_ok st" using assms(1) mcu_start_ok by (simp add: holds_def st_def)
  then have s1: "ws_ok dest_ok st1" "ws_cur st1 = c1"
    using w1 by (auto simp: st1_def wrote_def split: sum.splits prod.splits bool.splits)
  from encode_blocks_wrote [OF s1(1), of sp e "mcu_of sp MCU_data"] s1(2) o1 assms(2) obtain bs2 c2 where
    w2: "wrote empty_buffer handed dest_ok (stuff bs2) c2 st1 (encode_blocks empty_buffer sp e (mcu_of sp MCU_data) st1)"
    and b2: "byte_bits bs2 @ waiting c2 = waiting c1 @ mcu_bits sp e (mcu_of sp MCU_data) (predictions sp e)"
      "put_bits c2 \<le> 15" "last_dc_val c2 = mcu_last (mcu_of sp MCU_data) (predictions sp e)" by metis
  have w: "wrote empty_buffer handed dest_ok (w @ stuff bs2) c2 st
     (andthen r (encode_blocks empty_buffer sp e (mcu_of sp MCU_data)))"
    by (rule wrote_andthen [OF w1]) (use w2 in \<open>simp add: st1_def\<close>)
  show ?thesis
  proof (rule that [OF w [unfolded st_def r_def] _ _ b2(2,3)])
    show "ws_stream handed (mcu_start e d) @ w @ stuff bs2 = mcu_out sp e out b @ stuff (ds @ bs2)"
      using o1(1) by (simp add: st_def flip: append_assoc)
    show "byte_bits (ds @ bs2) @ waiting c2 = mcu_open sp e b @ mcu_bits sp e (mcu_of sp MCU_data) (predictions sp e)"
      using o1(2) b2(1) by (simp flip: o1(2))
  qed
qed

lemma encode_mcu_done:
  assumes "holds handed dest_ok out b e d"
    and "mcu_codable sp e (mcu_of sp MCU_data) (predictions sp e)" "restart_due sp e \<longrightarrow> 0 < free_in_buffer d"
  shows "mcu_done empty_buffer handed dest_ok (mcu_out sp e out b)
     (mcu_open sp e b @ mcu_bits sp e (mcu_of sp MCU_data) (predictions sp e))
     e (after_mcu sp MCU_data e) (encode_mcu_huff empty_buffer sp MCU_data e d)"
    (is "mcu_done _ _ _ ?out ?b _ _ _")
proof -
  define res where "res = andthen (mcu_restart empty_buffer sp e (mcu_start e d)) (encode_blocks empty_buffer sp e (mcu_of sp MCU_data))"
  from mcu_wrote [OF assms] obtain w c ds where wr: "wrote empty_buffer handed dest_ok w c (mcu_start e d) res"
    and fin: "ws_stream handed (mcu_start e d) @ w = ?out @ stuff ds" "byte_bits ds @ waiting c = ?b"
    and c: "put_bits c \<le> 15" "last_dc_val c = mcu_last (mcu_of sp MCU_data) (predictions sp e)"
    unfolding res_def by metis
  have "mcu_done empty_buffer handed dest_ok ?out ?b e (after_mcu sp MCU_data e) (Inr (True, mcu_store sp e st'))"
    if res: "res = Inr (True, st')" for st'
  proof -
    from wr res have ok: "ws_ok dest_ok st'" "ws_stream handed st' = ?out @ stuff ds" "ws_cur st' = c"
      using fin(1) by (simp_all add: wrote_def)
    then have "holds handed dest_ok ?out ?b (fst (mcu_store sp e st')) (snd (mcu_store sp e st'))"
      using put_back [OF ok(1)] fin(2) c unfolding holds_def mcu_store_def
      by (intro conjI exI [of _ ds]) simp_all
    moreover have "fst (mcu_store sp e st') = (after_mcu sp MCU_data e)\<lparr>saved := (saved (after_mcu sp MCU_data e))
       \<lparr>put_buffer := put_buffer c, put_bits := put_bits c\<rparr>\<rparr>"
      using ok(3) c(2) by (simp add: mcu_store_def after_mcu_def)
    ultimately show ?thesis using ok(3) by (simp add: mcu_done_def mcu_store_def)
  qed
  moreover have "refused_within empty_buffer handed dest_ok ?out ?b x"
    if "refused empty_buffer handed dest_ok (ws_stream handed (mcu_start e d) @ w) x" for x
    using that fin unfolding refused_within_def by (metis prefixI)
  ultimately show ?thesis
    using wr unfolding encode_mcu_eq res_def [symmetric]
    by (cases res) (auto simp: mcu_done_def wrote_def split: prod.splits bool.splits if_splits)
qed

end

section \<open>A whole scan\<close>

text \<open>The MCUs of a scan one after another, then the end of the pass.\<close>

fun encode_mcus ::
  "('z jpeg_destination_mgr_scheme \<Rightarrow> fault + (bool \<times> 'z jpeg_destination_mgr_scheme)) \<Rightarrow> scan_params \<Rightarrow> int list list list \<Rightarrow>
   huff_entropy_encoder \<Rightarrow> 'z jpeg_destination_mgr_scheme \<Rightarrow>
   fault + (bool \<times> huff_entropy_encoder \<times> 'z jpeg_destination_mgr_scheme)" where
  "encode_mcus emptyf sp [] e d = Inr (True, e, d)"
| "encode_mcus emptyf sp (m # ms) e d =
     ebind (encode_mcu_huff emptyf sp m e d) (\<lambda>(ok, e, d).
       if ok then encode_mcus emptyf sp ms e d else Inr (False, e, d))"

definition encode_scan ::
  "('z jpeg_destination_mgr_scheme \<Rightarrow> fault + (bool \<times> 'z jpeg_destination_mgr_scheme)) \<Rightarrow> scan_params \<Rightarrow> int list list list \<Rightarrow>
   huff_entropy_encoder \<Rightarrow> 'z jpeg_destination_mgr_scheme \<Rightarrow>
   fault + (bool \<times> 'z jpeg_destination_mgr_scheme)" where
  "encode_scan emptyf sp ms e d =
     ebind (encode_mcus emptyf sp ms e d) (\<lambda>(ok, e, d).
       if ok then ebind (finish_pass_huff emptyf e d) (\<lambda>(e, d). Inr (True, d)) else Inr (False, d))"

text \<open>The bytes of a scan, from the tables, the MCUs and the restart state alone.\<close>

fun scan_bytes :: "scan_params \<Rightarrow> int list list list \<Rightarrow> huff_entropy_encoder \<Rightarrow> u8 list \<Rightarrow> bool list \<Rightarrow> u8 list" where
  "scan_bytes sp [] e out b = out @ flushed b"
| "scan_bytes sp (m # ms) e out b =
     scan_bytes sp ms (after_mcu sp m e) (mcu_out sp e out b)
       (mcu_open sp e b @ mcu_bits sp e (mcu_of sp m) (predictions sp e))"

fun scan_codable :: "scan_params \<Rightarrow> int list list list \<Rightarrow> huff_entropy_encoder \<Rightarrow> bool" where
  "scan_codable sp [] e = True"
| "scan_codable sp (m # ms) e =
     (mcu_codable sp e (mcu_of sp m) (predictions sp e) \<and> scan_codable sp ms (after_mcu sp m e))"

text \<open>None of these depends on the bits that wait in the encoder.\<close>

definition with_waiting :: "u32 \<Rightarrow> nat \<Rightarrow> huff_entropy_encoder \<Rightarrow> huff_entropy_encoder" where
  "with_waiting pb n e = e\<lparr>saved := (saved e)\<lparr>put_buffer := pb, put_bits := n\<rparr>\<rparr>"

lemma mcu_bits_saved [simp]: "mcu_bits sp (e\<lparr>saved := s\<rparr>) bl dcs = mcu_bits sp e bl dcs"
  by (induction sp e bl dcs rule: mcu_bits.induct) simp_all

lemma mcu_codable_saved [simp]: "mcu_codable sp (e\<lparr>saved := s\<rparr>) bl dcs = mcu_codable sp e bl dcs"
  by (induction sp e bl dcs rule: mcu_codable.induct) (simp_all add: Let_def)

lemma with_waiting_simps [simp]:
  "predictions sp (with_waiting pb n e) = predictions sp e"
  "restart_due sp (with_waiting pb n e) = restart_due sp e"
  "mcu_out sp (with_waiting pb n e) out b = mcu_out sp e out b"
  "mcu_open sp (with_waiting pb n e) b = mcu_open sp e b"
  "mcu_bits sp (with_waiting pb n e) bl dcs = mcu_bits sp e bl dcs"
  "mcu_codable sp (with_waiting pb n e) bl dcs = mcu_codable sp e bl dcs"
  "after_mcu sp m (with_waiting pb n e) = with_waiting pb n (after_mcu sp m e)"
  by (simp_all add: with_waiting_def predictions_def restart_due_def mcu_out_def mcu_open_def marker_bytes_def
      after_mcu_def next_restart_def)

lemma scan_waiting [simp]:
  "scan_bytes sp ms (with_waiting pb n e) out b = scan_bytes sp ms e out b"
  "scan_codable sp ms (with_waiting pb n e) = scan_codable sp ms e"
  by (induction ms arbitrary: e out b) simp_all

context destination
begin

lemma emit_restart_room:
  assumes "ws_ok dest_ok st" "put_bits (ws_cur st) \<le> 15" "0 < ws_free st"
  shows "leaves_room (emit_restart empty_buffer n num st)"
  unfolding emit_restart_def
proof (intro leaves_room_andthen)
  fix st1 st2 st3
  assume 1: "flush_bits empty_buffer st = Inr (True, st1)" and 2: "emit_byte empty_buffer 0xFF st1 = Inr (True, st2)"
    and 3: "emit_byte empty_buffer (0xD0 + of_nat num) st2 = Inr (True, st3)"
  from flush_bits_wrote [OF assms(1,2)] assms(3) obtain bs c where
    "wrote empty_buffer handed dest_ok (stuff bs) c st (flush_bits empty_buffer st)" "leaves_room (flush_bits empty_buffer st)" by metis
  with 1 have s1: "ws_ok dest_ok st1" "0 < ws_free st1" by (simp_all add: wrote_def leaves_room_def)
  from emit_byte_wrote [OF s1, of "0xFF"] 2 have s2: "ws_ok dest_ok st2" "0 < ws_free st2"
    by (simp_all add: wrote_def leaves_room_def)
  from emit_byte_wrote(2) [OF s2, of "0xD0 + of_nat num"] 3 have "0 < ws_free st3" by (simp add: leaves_room_def)
  then show "leaves_room (Inr (True, st3\<lparr>ws_cur := (ws_cur st3)\<lparr>last_dc_val := replicate n 0 @ drop n (last_dc_val (ws_cur st3))\<rparr>\<rparr>))"
    by (simp add: leaves_room_def)
qed

lemma encode_mcu_room:
  assumes "holds handed dest_ok out b e d" "0 < free_in_buffer d"
    and "mcu_codable sp e (mcu_of sp MCU_data) (predictions sp e)"
    and "encode_mcu_huff empty_buffer sp MCU_data e d = Inr (True, e', d')"
  shows "0 < free_in_buffer d'"
proof -
  define st where "st = mcu_start e d"
  have dok: "dest_ok d" using assms(1) by (simp add: holds_def)
  from mcu_restart_wrote [OF assms(1), of sp] assms(2) obtain w c where
    w: "wrote empty_buffer handed dest_ok w c st (mcu_restart empty_buffer sp e st)"
    and c: "put_bits c \<le> 15" "last_dc_val c = predictions sp e" unfolding st_def by metis
  from assms(4) obtain st1 st2 where r: "mcu_restart empty_buffer sp e st = Inr (True, st1)"
    "encode_blocks empty_buffer sp e (mcu_of sp MCU_data) st1 = Inr (True, st2)" and d': "d' = snd (mcu_store sp e st2)"
    by (auto simp: encode_mcu_eq andthen_def result_simps st_def split: if_splits)
  have "ws_ok dest_ok st1" "ws_cur st1 = c" using w r(1) by (simp_all add: wrote_def)
  moreover have "0 < ws_free st1"
  proof (cases "restart_due sp e")
    case True
    have "put_bits (saved e) \<le> 15" using assms(1) by (simp add: holds_def)
    with emit_restart_room [of st] mcu_start_ok [OF dok, of e] assms(2) r(1) True show ?thesis
      by (auto simp: mcu_restart_def leaves_room_def st_def)
  next
    case False
    with r(1) mcu_start_ok [OF dok, of e] assms(2) show ?thesis by (auto simp: mcu_restart_def st_def)
  qed
  ultimately have "0 < ws_free st2"
    using encode_blocks_room [of st1 sp e "mcu_of sp MCU_data"] c assms(3) r(2) by (simp add: leaves_room_def)
  then show ?thesis by (simp add: d' mcu_store_def)
qed

lemma finish_pass_bytes:
  assumes "holds handed dest_ok out b e d"
  shows "case finish_pass_huff empty_buffer e d of
      Inl f \<Rightarrow> refused empty_buffer handed dest_ok (out @ flushed b) (Inl f) \<or>
               f = ErrExit JERR_CANT_SUSPEND \<and> (\<exists>d'. refused empty_buffer handed dest_ok (out @ flushed b) (Inr (False, d')))
    | Inr (e', d') \<Rightarrow> dest_ok d' \<and> handed d' @ pending d' = out @ flushed b"
proof -
  from assms obtain bs where bs: "handed d @ pending d = out @ stuff bs" "byte_bits bs @ waiting (saved e) = b"
    and dok: "dest_ok d" and p: "put_bits (saved e) \<le> 15" by (auto simp: holds_def)
  note st = mcu_start_ok [OF dok, of e]
  from flush_bits_wrote [of "mcu_start e d"] st p obtain rs c where rs: "byte_bits rs = pad_ones (waiting (saved e))"
    and w: "wrote empty_buffer handed dest_ok (stuff rs) c (mcu_start e d) (flush_bits empty_buffer (mcu_start e d))"
    by metis
  have "pad_ones b = byte_bits (bs @ rs)" using bs(2) rs by (simp add: pad_ones_bytes flip: bs(2))
  then have fl: "flushed b = stuff (bs @ rs)" by (simp add: flushed_def del: byte_bits_append)
  have e: "finish_pass_huff empty_buffer e d =
     ebind (flush_bits empty_buffer (mcu_start e d)) (\<lambda>(ok, st). if \<not> ok then Inl (ErrExit JERR_CANT_SUSPEND)
       else Inr (e\<lparr>saved := ws_cur st\<rparr>, (ws_dest st)\<lparr>next_output_byte := ws_next st, free_in_buffer := ws_free st\<rparr>))"
    by (simp add: finish_pass_huff_def mcu_start_def)
  show ?thesis
  proof (cases "flush_bits empty_buffer (mcu_start e d)")
    case (Inl f)
    with w st bs(1) show ?thesis unfolding e fl by (simp add: wrote_def)
  next
    case (Inr p)
    then show ?thesis
      using w put_back [of "snd p"] st bs(1) unfolding e fl
      by (cases p; cases "fst p") (auto simp: wrote_def)
  qed
qed

end

lemma bytes_of_append [simp]: "bytes_of (byte_bits ds @ b) = ds @ bytes_of b"
proof (induction ds)
  case (Cons d ds)
  have "of_nat (bits_val (bits_of 8 d)) = d" using bytes_of_byte_bits [of "[d]"] by (simp add: bytes_of.simps)
  with Cons show ?case by (subst bytes_of.simps) simp
qed simp

lemma prefix_flushed: "prefix (byte_bits ds) b \<Longrightarrow> prefix (stuff ds) (flushed b)"
  by (auto simp: prefix_def flushed_def pad_ones_bytes)

lemma prefix_scan_bytes:
  "prefix (byte_bits ds) b \<Longrightarrow> prefix (out @ stuff ds) (scan_bytes sp ms e out b)"
proof (induction sp ms e out b arbitrary: ds rule: scan_bytes.induct)
  case (1 sp e out b)
  then show ?case by (simp add: prefix_flushed)
next
  case (2 sp m ms e out b)
  show ?case
  proof (cases "restart_due sp e")
    case True
    have "prefix (out @ stuff ds) (mcu_out sp e out b)"
      using True prefix_flushed [OF "2.prems"] by (auto simp: mcu_out_def prefix_def)
    moreover have "prefix (mcu_out sp e out b) (scan_bytes sp (m # ms) e out b)"
      using "2.IH" [of "[]"] by (simp add: stuff_def)
    ultimately show ?thesis by (rule prefix_order.trans)
  next
    case False
    with "2.prems" "2.IH" [of ds] show ?thesis by (simp add: mcu_out_def mcu_open_def)
  qed
qed

lemma refused_scan:
  "refused_within emptyf handed dest_ok out b r \<Longrightarrow> refused emptyf handed dest_ok (scan_bytes sp ms e out b) r"
  unfolding refused_within_def using refused_mono prefix_scan_bytes by blast

context destination
begin

lemma encode_scan_bytes:
  "holds handed dest_ok out b e d \<Longrightarrow> 0 < free_in_buffer d \<Longrightarrow> scan_codable sp ms e \<Longrightarrow>
   (case encode_scan empty_buffer sp ms e d of
      Inl f \<Rightarrow> refused empty_buffer handed dest_ok (scan_bytes sp ms e out b) (Inl f) \<or>
               f = ErrExit JERR_CANT_SUSPEND \<and> (\<exists>d'. refused empty_buffer handed dest_ok (scan_bytes sp ms e out b) (Inr (False, d')))
    | Inr (ok, d') \<Rightarrow>
        if ok then dest_ok d' \<and> handed d' @ pending d' = scan_bytes sp ms e out b
        else refused empty_buffer handed dest_ok (scan_bytes sp ms e out b) (Inr (False, d')))"
proof (induction ms arbitrary: out b e d)
  case Nil
  from finish_pass_bytes [OF Nil(1)] show ?case
    by (auto simp: encode_scan_def split: sum.splits prod.splits)
next
  case (Cons m ms)
  let ?out = "mcu_out sp e out b" and ?b = "mcu_open sp e b @ mcu_bits sp e (mcu_of sp m) (predictions sp e)"
  have cod: "mcu_codable sp e (mcu_of sp m) (predictions sp e)" "scan_codable sp ms (after_mcu sp m e)"
    using Cons.prems(3) by simp_all
  have s: "encode_scan empty_buffer sp (m # ms) e d =
     ebind (encode_mcu_huff empty_buffer sp m e d) (\<lambda>(ok, e, d). if ok then encode_scan empty_buffer sp ms e d else Inr (False, d))"
    by (cases "encode_mcu_huff empty_buffer sp m e d") (auto simp: encode_scan_def)
  note dn = encode_mcu_done [OF Cons.prems(1) cod(1) impI [OF Cons.prems(2)]]
  show ?case
  proof (cases "encode_mcu_huff empty_buffer sp m e d")
    case (Inl f)
    with dn show ?thesis by (simp add: s mcu_done_def refused_scan)
  next
    case (Inr p)
    obtain ok e' d' where p: "p = (ok, e', d')" by (cases p)
    show ?thesis
    proof (cases ok)
      case False
      with dn Inr p show ?thesis by (simp add: s mcu_done_def refused_scan)
    next
      case True
      have mcu: "encode_mcu_huff empty_buffer sp m e d = Inr (True, e', d')" using Inr p True by simp
      have h: "holds handed dest_ok ?out ?b e' d'"
        and e': "e' = with_waiting (put_buffer (saved e')) (put_bits (saved e')) (after_mcu sp m e)"
        using dn True mcu by (simp_all add: mcu_done_def with_waiting_def)
      have room: "0 < free_in_buffer d'" using encode_mcu_room [OF Cons.prems(1,2) cod(1) mcu] .
      have cod': "scan_codable sp ms e'" using cod(2) e' by (metis scan_waiting(2))
      have sb: "scan_bytes sp (m # ms) e out b = scan_bytes sp ms e' ?out ?b"
        using e' by simp (metis scan_waiting(1))
      have "encode_scan empty_buffer sp (m # ms) e d = encode_scan empty_buffer sp ms e' d'" by (simp add: s mcu)
      with Cons.IH [OF h room cod'] show ?thesis unfolding sb by (simp only:)
    qed
  qed
qed

end

lemma mcu_out_prefix: "mcu_out sp e (p @ out) b = p @ mcu_out sp e out b"
  by (simp add: mcu_out_def)

lemma scan_bytes_prefix: "scan_bytes sp ms e (p @ out) b = p @ scan_bytes sp ms e out b"
  by (induction sp ms e out b rule: scan_bytes.induct) (simp_all add: mcu_out_prefix)

lemma holds_start:
  "dest_ok d \<Longrightarrow> put_bits (saved e) = 0 \<Longrightarrow> holds handed dest_ok (handed d @ pending d) [] e d"
  by (auto simp: holds_def waiting_def stuff_def intro!: exI [of _ "[]"])

text \<open>
  C6. A scan written to a file is the byte string of its symbols, if every symbol has a code and no block
  takes more than 1008 bits: after all MCUs (with their
  restart markers) and the end of the pass, the file and the pending bytes of its buffer have
  grown by exactly \<open>scan_bytes\<close>, unless the C library refused to append some buffer \<open>x\<close>, whose
  bytes are the next ones of the stream, to the file \<open>f\<close>. The limit on the blocks (\<open>scan_codable\<close>) is not checked
  by the code, and legal blocks can exceed it: with the bits that were waiting, 1008 bits are at most 127 bytes,
  254 with stuffing, so that the 256 bytes of \<open>_buffer\<close> are enough and the direct path never fills the
  destination to its last byte. A longer block can overflow the one or the other.
\<close>

theorem encode_scan_stdio:
  assumes "stdio_ok d" "0 < free_in_buffer d" "put_bits (saved e) = 0" "scan_codable sp ms e"
  shows "(\<exists>d'. encode_scan (empty_output_buffer fw) sp ms e d = Inr (True, d') \<and> stdio_ok d' \<and>
            outfile d' @ pending d' = outfile d @ pending d @ scan_bytes sp ms e [] []) \<or>
         encode_scan (empty_output_buffer fw) sp ms e d = Inl (ErrExit JERR_FILE_WRITE) \<and>
           (\<exists>f x. \<not> fw f x \<and> prefix (f @ x) (outfile d @ pending d @ scan_bytes sp ms e [] []))"
proof -
  have nosusp: "\<not> refused (empty_output_buffer fw) outfile stdio_ok s (Inr (False, y))"
    and err: "refused (empty_output_buffer fw) outfile stdio_ok s (Inl z) \<Longrightarrow>
     z = ErrExit JERR_FILE_WRITE \<and> (\<exists>f x. \<not> fw f x \<and> prefix (f @ x) s)" for s y z
    by (auto simp: empty_output_buffer_def refused_def stdio_ok_def Let_def split: if_splits) blast
  from stdio.encode_scan_bytes [OF holds_start [where dest_ok = stdio_ok, OF assms(1,3)] assms(2,4), of fw]
  show ?thesis
    using scan_bytes_prefix [of sp ms e "outfile d @ pending d" "[]" "[]"]
    by (auto simp: nosusp dest: err split: sum.splits prod.splits if_splits)
qed

text \<open>
  C7. The same for TurboJPEG's memory destination, again if every symbol has a code and no block takes more
  than 1008 bits, a limit the code does not check: the buffer holds the bytes it held and
  \<open>scan_bytes\<close> after them, however often it had to be enlarged. Such a scan fails only when a block of
  some size \<open>n\<close> has been filled, and then because the manager may not reallocate, \<open>malloc\<close> has no
  memory, or the doubled size passes \<open>2 ^ 32\<close>; a block larger than the output is always enough.
\<close>

theorem encode_scan_mem:
  assumes "mem_ok ma (alloc d) (bufsize d) d" "0 < free_in_buffer d" "put_bits (saved e) = 0" "scan_codable sp ms e"
  shows "(\<exists>d'. encode_scan (empty_mem_output_buffer ma) sp ms e d = Inr (True, d') \<and> mem_ok ma (alloc d) (bufsize d) d' \<and>
            pending d' = pending d @ scan_bytes sp ms e [] []) \<or>
         (\<exists>f n. encode_scan (empty_mem_output_buffer ma) sp ms e d = Inl f \<and>
            bufsize d \<le> n \<and> n \<le> length (pending d @ scan_bytes sp ms e [] []) \<and>
            (f = ErrExit JERR_BUFFER_SIZE \<and> \<not> alloc d \<or>
             f = ErrExit (JERR_OUT_OF_MEMORY 10) \<and> ma (2 * n mod 2 ^ 32) = None \<or>
             f = OutOfBounds \<and> 2 ^ 31 \<le> n))"
proof -
  let ?ok = "mem_ok ma (alloc d) (bufsize d)"
  let ?why = "\<lambda>f n. f = ErrExit JERR_BUFFER_SIZE \<and> \<not> alloc d \<or>
      f = ErrExit (JERR_OUT_OF_MEMORY 10) \<and> ma (2 * n mod 2 ^ 32) = None \<or> f = OutOfBounds \<and> 2 ^ 31 \<le> n"
  have nosusp: "\<not> refused (empty_mem_output_buffer ma) (\<lambda>_. []) ?ok s (Inr (False, y))" for s y
    by (auto simp: empty_mem_output_buffer_def refused_def Let_def split: if_splits option.splits)
  have err: "\<exists>n. bufsize d \<le> n \<and> n \<le> length s \<and> ?why f n"
    if r: "refused (empty_mem_output_buffer ma) (\<lambda>_. []) ?ok s (Inl f)" for s f
  proof -
    from r obtain x where x: "?ok x" "empty_mem_output_buffer ma x = Inl f" "prefix (buffer x) s"
      by (auto simp: refused_def)
    then have "?why f (bufsize x)"
      by (auto simp: empty_mem_output_buffer_def Let_def mult.commute mem_ok_def mod_if not_le split: if_splits option.splits)
    moreover have "bufsize d \<le> bufsize x" "bufsize x \<le> length s"
      using x(1) prefix_length_le [OF x(3)] by (simp_all add: mem_ok_def)
    ultimately show ?thesis by blast
  qed
  note res = mem.encode_scan_bytes [OF holds_start [where dest_ok = "?ok", OF assms(1,3)] assms(2,4)]
  have "scan_bytes sp ms e (pending d) [] = pending d @ scan_bytes sp ms e [] []"
    using scan_bytes_prefix [of sp ms e "pending d" "[]" "[]"] by simp
  then show ?thesis
    using res err [of "pending d @ scan_bytes sp ms e [] []"]
    by (auto simp: nosusp split: sum.splits prod.splits if_splits)
qed

section \<open>A small scan\<close>

text \<open>One component, one MCU of one block, and a table that gives symbol \<open>i\<close> the 8-bit code \<open>i\<close>.\<close>

definition flat_tbl :: c_derived_tbl where
  "flat_tbl = \<lparr>ehufco = [0..<256], ehufsi = replicate 256 8\<rparr>"

definition small_sp :: scan_params where
  "small_sp = \<lparr>restart_interval = 0, comps_in_scan = 1, MCU_membership = [0], dc_tbl_no = [0], ac_tbl_no = [0]\<rparr>"

definition small_encoder :: huff_entropy_encoder where
  "small_encoder = \<lparr>saved = \<lparr>put_buffer = 0, put_bits = 0, last_dc_val = [0]\<rparr>, restarts_to_go = 0,
     next_restart_num = 0, dc_derived_tbls = [flat_tbl], ac_derived_tbls = [flat_tbl]\<rparr>"

definition small_scan :: "int list list list" where
  "small_scan = [[3 # replicate 63 0]]"

lemma zero_ac: "map ((!) (3 # replicate 63 0)) zigzag_ac = replicate 63 (0::int)"
  by code_simp

lemma zero_symbols: "ac_symbols r (replicate n 0) = (if r + n = 0 then [] else [(0, [])])"
  by (induction n arbitrary: r) simp_all

lemma small_bits:
  "block_bits flat_tbl flat_tbl (3 # replicate 63 0) 0 = [False, False, False, False, False, False, True, False, True, True,
     False, False, False, False, False, False, False, False]"
  unfolding block_bits_def zero_ac zero_symbols by code_simp

lemma small_codable: "scan_codable small_sp small_scan small_encoder"
proof -
  have "block_codable flat_tbl flat_tbl (3 # replicate 63 0) 0"
    unfolding block_codable_def ac_codable_def zero_ac zero_symbols
    by (auto simp: coded_def flat_tbl_def magnitude_def bitlen.simps)
  then show ?thesis
    by (simp add: small_scan_def small_sp_def small_encoder_def mcu_of_def predictions_def restart_due_def small_bits)
qed

lemma small_scan_bytes: "scan_bytes small_sp small_scan small_encoder [] [] = [0x02, 0xC0, 0x3F]"
proof -
  have "flushed (block_bits flat_tbl flat_tbl (3 # replicate 63 0) 0) = [0x02, 0xC0, 0x3F]"
    unfolding small_bits by code_simp
  then show ?thesis
    by (simp add: small_scan_def small_sp_def small_encoder_def mcu_of_def predictions_def restart_due_def
      mcu_open_def mcu_out_def)
qed

theorem encode_scan_stdio_witness:
  "\<exists>d'. encode_scan (empty_output_buffer (\<lambda>_ _. True)) small_sp small_scan small_encoder
      (init_destination (replicate 4096 0) \<lparr>buffer = [], next_output_byte = 0, free_in_buffer = 0, outfile = [0xFF, 0xDA]\<rparr>) =
      Inr (True, d') \<and> stdio_ok d' \<and> outfile d' @ pending d' = [0xFF, 0xDA, 0x02, 0xC0, 0x3F]"
proof -
  have "put_bits (saved small_encoder) = 0" by (simp add: small_encoder_def)
  from encode_scan_stdio [OF _ _ this small_codable,
    of "init_destination (replicate 4096 0) \<lparr>buffer = [], next_output_byte = 0, free_in_buffer = 0, outfile = [0xFF, 0xDA]\<rparr>"
       "\<lambda>_ _. True"]
  show ?thesis by (simp add: small_scan_bytes stdio_ok_def init_destination_def OUTPUT_BUF_SIZE_def pending_def)
qed

theorem encode_scan_mem_witness:
  "\<exists>d'. encode_scan (empty_mem_output_buffer (\<lambda>n. Some (replicate n 0))) small_sp small_scan small_encoder
      \<lparr>buffer = [0xFF, 0], next_output_byte = 1, free_in_buffer = 1, outbuffer = [], outsize = 0, newbuffer = True,
       bufsize = 2, alloc = True\<rparr> = Inr (True, d') \<and> pending d' = [0xFF, 0x02, 0xC0, 0x3F]"
proof -
  have "put_bits (saved small_encoder) = 0" by (simp add: small_encoder_def)
  from encode_scan_mem [OF _ _ this small_codable,
    of "\<lambda>n. Some (replicate n 0)" "\<lparr>buffer = [0xFF, 0], next_output_byte = 1, free_in_buffer = 1, outbuffer = [],
       outsize = 0, newbuffer = True, bufsize = 2, alloc = True\<rparr>"]
  show ?thesis by (auto simp: small_scan_bytes mem_ok_def pending_def)
qed

end
