(* ===== verification/DecSource.thy ===== *)
theory DecSource imports Jutils "HOL-Library.Sublist" begin

text \<open>
  The decoder's view of a data source, and the routines of \<open>jdmarker.c\<close> that look for the next
  marker: \<open>next_marker\<close>, \<open>read_restart_marker\<close> and \<open>jpeg_resync_to_restart\<close>.

  \<open>input\<close> are the bytes from \<open>next_input_byte\<close> on, \<open>bytes_in_buffer\<close> of them. What the source's
  \<open>fill_input_buffer\<close> will do is the list \<open>fills\<close>: the buffers its next calls deliver, in order; a
  call after them (or one that delivers no byte) returns FALSE, that is suspends. Any finite run
  of the decoder sees such a list.
\<close>

section \<open>The source\<close>

record dec_source =
  input :: "u8 list"
  fills :: "u8 list list"
  unread_marker :: nat
  next_restart_num :: nat
  discarded_bytes :: u32

definition upcoming :: "'z dec_source_scheme \<Rightarrow> u8 list" where
  "upcoming s = input s @ concat (fills s)"

text \<open>\<open>INPUT_BYTE\<close>: \<open>None\<close> when the source suspends.\<close>

definition next_byte :: "'z dec_source_scheme \<Rightarrow> (u8 \<times> 'z dec_source_scheme) option" where
  "next_byte s =
     (case input s of
        c # cs \<Rightarrow> Some (c, s\<lparr>input := cs\<rparr>)
      | [] \<Rightarrow> (case fills s of
          (c # cs) # fs \<Rightarrow> Some (c, s\<lparr>input := cs, fills := fs\<rparr>)
        | _ \<Rightarrow> None))"

definition live :: "'z dec_source_scheme \<Rightarrow> bool" where
  "live s \<longleftrightarrow> [] \<notin> set (fills s)"

definition same_decoder :: "'z dec_source_scheme \<Rightarrow> 'z dec_source_scheme \<Rightarrow> bool" where
  "same_decoder s s' \<longleftrightarrow> s' = s\<lparr>input := input s', fills := fills s'\<rparr>"

lemma next_byte_Some:
  "next_byte s = Some (c, s') \<Longrightarrow> upcoming s = c # upcoming s' \<and> same_decoder s s' \<and> (live s \<longrightarrow> live s')"
  by (auto simp: next_byte_def upcoming_def live_def same_decoder_def split: list.splits)

lemma next_byte_live:
  "live s \<Longrightarrow> upcoming s = c # cs \<Longrightarrow>
   \<exists>s'. next_byte s = Some (c, s') \<and> upcoming s' = cs \<and> live s' \<and> same_decoder s s'"
  by (auto simp: next_byte_def upcoming_def live_def same_decoder_def split: list.splits)

lemma next_byte_less [termination_simp]:
  "next_byte s = Some (c, s') \<Longrightarrow> length (upcoming s') < length (upcoming s)"
  by (drule next_byte_Some) simp

lemma same_decoder_refl [simp]: "same_decoder s s"
  by (simp add: same_decoder_def)

lemma same_decoder_trans: "same_decoder s t \<Longrightarrow> same_decoder t u \<Longrightarrow> same_decoder s u"
proof -
  assume a: "same_decoder s t" "same_decoder t u"
  have "u = t\<lparr>input := input u, fills := fills u\<rparr>" using a(2) by (simp add: same_decoder_def)
  also have "\<dots> = (s\<lparr>input := input t, fills := fills t\<rparr>)\<lparr>input := input u, fills := fills u\<rparr>"
    using a(1) by (simp add: same_decoder_def)
  finally show ?thesis by (simp add: same_decoder_def)
qed

lemma same_decoder_fields:
  "same_decoder s s' \<Longrightarrow> unread_marker s' = unread_marker s \<and> next_restart_num s' = next_restart_num s \<and>
     discarded_bytes s' = discarded_bytes s \<and> dec_source.more s' = dec_source.more s"
  unfolding same_decoder_def by (metis dec_source.select_convs dec_source.surjective dec_source.update_convs(1,2))

section \<open>Markers\<close>

text \<open>The loop that swallows \<open>0xFF\<close> bytes; the first other byte ends it.\<close>

function skip_ff :: "'z dec_source_scheme \<Rightarrow> (u8 \<times> 'z dec_source_scheme) option" where
  "skip_ff s =
     (case next_byte s of
        None \<Rightarrow> None
      | Some (c, s) \<Rightarrow> if c = 0xFF then skip_ff s else Some (c, s))"
  by pat_completeness auto
termination by (relation "measure (length \<circ> upcoming)") (auto intro: next_byte_less)

declare skip_ff.simps [simp del]

lemma skip_ff_Some:
  "skip_ff s = Some (c, s') \<Longrightarrow>
   c \<noteq> 0xFF \<and> same_decoder s s' \<and> (live s \<longrightarrow> live s') \<and> (\<exists>n. upcoming s = replicate n 0xFF @ c # upcoming s')"
proof (induction s rule: skip_ff.induct)
  case (1 s)
  from "1.prems" obtain b t where b: "next_byte s = Some (b, t)"
    by (subst (asm) skip_ff.simps) (auto split: option.splits)
  note nb = next_byte_Some [OF b]
  show ?case
  proof (cases "b = 0xFF")
    case True
    then have "skip_ff t = Some (c, s')" using "1.prems" b by (subst (asm) skip_ff.simps) simp
    from "1.IH" [OF b refl True this] obtain n where "c \<noteq> 0xFF" "same_decoder t s'" "live t \<longrightarrow> live s'"
      "upcoming t = replicate n 0xFF @ c # upcoming s'" by auto
    then show ?thesis
      using nb True by (auto intro: same_decoder_trans exI [of _ "Suc n"])
  next
    case False
    then have "skip_ff s = Some (b, t)" using b by (subst skip_ff.simps) simp
    then have "c = b" "s' = t" using "1.prems" by simp_all
    then show ?thesis using nb False by (auto intro: exI [of _ 0])
  qed
qed

lemma skip_ff_less: "skip_ff s = Some (c, s') \<Longrightarrow> length (upcoming s') < length (upcoming s)"
  by (drule skip_ff_Some) auto

text \<open>
  \<open>next_marker\<close>: FALSE leaves the position of the last \<open>INPUT_SYNC\<close>. The warning about
  discarded bytes only goes to the message handler.
\<close>

function next_marker :: "'z dec_source_scheme \<Rightarrow> bool \<times> 'z dec_source_scheme" where
  "next_marker s =
     (case next_byte s of
        None \<Rightarrow> (False, s)
      | Some (c, s1) \<Rightarrow>
          if c \<noteq> 0xFF then next_marker (s1\<lparr>discarded_bytes := discarded_bytes s1 + 1\<rparr>)
          else (case skip_ff s1 of
                  None \<Rightarrow> (False, s)
                | Some (c, s2) \<Rightarrow>
                    if c = 0 then next_marker (s2\<lparr>discarded_bytes := discarded_bytes s2 + 2\<rparr>)
                    else (True, s2\<lparr>discarded_bytes := 0, unread_marker := unat c\<rparr>)))"
  by pat_completeness auto

lemma upcoming_update [simp]:
  "upcoming (s\<lparr>discarded_bytes := d\<rparr>) = upcoming s"
  "upcoming (s\<lparr>unread_marker := m\<rparr>) = upcoming s"
  "upcoming (s\<lparr>next_restart_num := n\<rparr>) = upcoming s"
  "live (s\<lparr>discarded_bytes := d\<rparr>) = live s"
  "live (s\<lparr>unread_marker := m\<rparr>) = live s"
  "live (s\<lparr>next_restart_num := n\<rparr>) = live s"
  by (simp_all add: upcoming_def live_def)

termination next_marker
  by (relation "measure (length \<circ> upcoming)")
    (auto dest!: next_byte_less skip_ff_less)

declare next_marker.simps [simp del]

definition M_SOF0 :: nat where "M_SOF0 = 0xC0"
definition M_RST0 :: nat where "M_RST0 = 0xD0"
definition M_RST7 :: nat where "M_RST7 = 0xD7"

lemma next_marker_True:
  "next_marker s = (True, s') \<Longrightarrow> length (upcoming s') + 2 \<le> length (upcoming s)"
proof (induction s rule: next_marker.induct)
  case (1 s)
  from "1.prems" obtain b t where b: "next_byte s = Some (b, t)"
    by (subst (asm) next_marker.simps) (auto split: option.splits)
  have l: "length (upcoming s) = Suc (length (upcoming t))" using next_byte_Some [OF b] by simp
  show ?case
  proof (cases "b = 0xFF")
    case False
    with "1.prems" b have "next_marker (t\<lparr>discarded_bytes := discarded_bytes t + 1\<rparr>) = (True, s')"
      by (subst (asm) next_marker.simps) simp
    from "1.IH"(1) [OF b refl False this] l show ?thesis by simp
  next
    case True
    with "1.prems" b obtain c u where c: "skip_ff t = Some (c, u)"
      by (subst (asm) next_marker.simps) (auto split: option.splits)
    have l2: "length (upcoming u) < length (upcoming t)" by (rule skip_ff_less [OF c])
    show ?thesis
    proof (cases "c = 0")
      case True
      with "1.prems" b c \<open>b = 0xFF\<close> have "next_marker (u\<lparr>discarded_bytes := discarded_bytes u + 2\<rparr>) = (True, s')"
        by (subst (asm) next_marker.simps) simp
      from "1.IH"(2) [OF b refl _ c refl True this] \<open>b = 0xFF\<close> l l2 show ?thesis by simp
    next
      case False
      with "1.prems" b c \<open>b = 0xFF\<close> have "s' = u\<lparr>discarded_bytes := 0, unread_marker := unat c\<rparr>"
        by (subst (asm) next_marker.simps) simp
      with l l2 show ?thesis by simp
    qed
  qed
qed

section \<open>Restart markers\<close>

definition resync_action :: "nat \<Rightarrow> nat \<Rightarrow> nat" where
  "resync_action marker desired =
     (if marker < M_SOF0 then 2
      else if marker < M_RST0 \<or> M_RST7 < marker then 3
      else if int marker = int M_RST0 + ((int desired + 1) AND 7) \<or> int marker = int M_RST0 + ((int desired + 2) AND 7) then 3
      else if int marker = int M_RST0 + ((int desired - 1) AND 7) \<or> int marker = int M_RST0 + ((int desired - 2) AND 7) then 2
      else 1)"

function jpeg_resync_to_restart :: "nat \<Rightarrow> 'z dec_source_scheme \<Rightarrow> bool \<times> 'z dec_source_scheme" where
  "jpeg_resync_to_restart desired s =
     (let action = resync_action (unread_marker s) desired
      in if action = 1 then (True, s\<lparr>unread_marker := 0\<rparr>)
         else if action = 2
         then (case next_marker s of
                 (False, s) \<Rightarrow> (False, s)
               | (True, s) \<Rightarrow> jpeg_resync_to_restart desired s)
         else (True, s))"
  by pat_completeness auto

termination jpeg_resync_to_restart
  by (relation "measure (\<lambda>(d, s). length (upcoming s))") (auto dest!: next_marker_True [OF sym])

declare jpeg_resync_to_restart.simps [simp del]

text \<open>\<open>resync\<close> is the source manager's \<open>resync_to_restart\<close> method.\<close>

definition read_restart_marker ::
  "(nat \<Rightarrow> 'z dec_source_scheme \<Rightarrow> bool \<times> 'z dec_source_scheme) \<Rightarrow> 'z dec_source_scheme \<Rightarrow> bool \<times> 'z dec_source_scheme" where
  "read_restart_marker resync s =
     (case (if unread_marker s = 0 then next_marker s else (True, s)) of
        (False, s) \<Rightarrow> (False, s)
      | (True, s) \<Rightarrow>
          (case (if unread_marker s = M_RST0 + next_restart_num s then (True, s\<lparr>unread_marker := 0\<rparr>)
                 else resync (next_restart_num s) s) of
             (False, s) \<Rightarrow> (False, s)
           | (True, s) \<Rightarrow> (True, s\<lparr>next_restart_num := (next_restart_num s + 1) AND 7\<rparr>)))"

text \<open>The marker is found where it is expected.\<close>

lemma next_marker_here:
  assumes "live s" "upcoming s = 0xFF # m # rest" "m \<noteq> 0xFF" "m \<noteq> 0"
  obtains s' where "next_marker s = (True, s')" "upcoming s' = rest" "live s'" "unread_marker s' = unat m"
    "next_restart_num s' = next_restart_num s" "dec_source.more s' = dec_source.more s"
proof -
  from next_byte_live [OF assms(1,2)] obtain t where t: "next_byte s = Some (0xFF, t)" "upcoming t = m # rest" "live t"
    "same_decoder s t" by auto
  from next_byte_live [OF t(3,2)] obtain u where u: "next_byte t = Some (m, u)" "upcoming u = rest" "live u"
    "same_decoder t u" by auto
  have "skip_ff t = Some (m, u)" using u(1) assms(3) by (subst skip_ff.simps) simp
  with t(1) assms(4) have "next_marker s = (True, u\<lparr>discarded_bytes := 0, unread_marker := unat m\<rparr>)"
    by (subst next_marker.simps) simp
  moreover have "same_decoder s u" using t(4) u(4) by (rule same_decoder_trans)
  then have "next_restart_num u = next_restart_num s" "dec_source.more u = dec_source.more s"
    using same_decoder_fields by blast+
  ultimately show ?thesis using that u by simp
qed

lemma rst_byte: "n < 8 \<Longrightarrow> unat (0xD0 + of_nat n :: u8) = M_RST0 + n \<and> (0xD0 + of_nat n :: u8) \<noteq> 0xFF \<and> (0xD0 + of_nat n :: u8) \<noteq> 0"
proof -
  assume "n < 8"
  then have u: "unat (0xD0 + of_nat n :: u8) = 0xD0 + n" by (simp add: unat_word_ariths unat_of_nat)
  then show ?thesis using \<open>n < 8\<close> by (auto simp: M_RST0_def)
qed

lemma read_restart_marker_here:
  assumes "live s" "next_restart_num s < 8"
    and "unread_marker s = 0 \<and> upcoming s = 0xFF # (0xD0 + of_nat (next_restart_num s)) # rest \<or>
         unread_marker s = M_RST0 + next_restart_num s \<and> upcoming s = rest"
  obtains s' where "read_restart_marker resync s = (True, s')" "upcoming s' = rest" "live s'" "unread_marker s' = 0"
    "next_restart_num s' = (next_restart_num s + 1) mod 8" "dec_source.more s' = dec_source.more s"
proof -
  have and7: "n AND 7 = (n::nat) mod 8" for n
    using take_bit_eq_mask [of 3 n] by (simp add: mask_eq_exp_minus_1 take_bit_eq_mod)
  note r = rst_byte [OF assms(2)]
  obtain t where t: "(if unread_marker s = 0 then next_marker s else (True, s)) = (True, t)" "upcoming t = rest" "live t"
    "unread_marker t = M_RST0 + next_restart_num s" "next_restart_num t = next_restart_num s" "dec_source.more t = dec_source.more s"
    using assms(3)
  proof
    assume a: "unread_marker s = 0 \<and> upcoming s = 0xFF # (0xD0 + of_nat (next_restart_num s)) # rest"
    with next_marker_here [OF assms(1), of _ rest] r that show thesis by (metis (full_types))
  next
    assume "unread_marker s = M_RST0 + next_restart_num s \<and> upcoming s = rest"
    with that [of s] assms(1) show thesis by (simp add: M_RST0_def)
  qed
  have "read_restart_marker resync s = (True, t\<lparr>unread_marker := 0, next_restart_num := (next_restart_num t + 1) AND 7\<rparr>)"
    unfolding read_restart_marker_def t(1) using t(4,5) by simp
  with that t show ?thesis by (simp add: and7)
qed

lemma skip_ff_suffix: "skip_ff s = Some (c, s') \<Longrightarrow> suffix (upcoming s') (upcoming s)"
  using skip_ff_Some [of s c s'] by (auto simp: suffix_def)

lemma next_marker_suffix: "next_marker s = (ok, s') \<Longrightarrow> suffix (upcoming s') (upcoming s)"
proof (induction s rule: next_marker.induct)
  case (1 s)
  show ?case
  proof (cases "next_byte s")
    case None
    with "1.prems" show ?thesis by (subst (asm) next_marker.simps) simp
  next
    case (Some p)
    obtain b t where b: "next_byte s = Some (b, t)" using Some by (cases p) simp
    have st: "suffix (upcoming t) (upcoming s)" using next_byte_Some [OF b] by (simp add: suffix_ConsI)
    show ?thesis
    proof (cases "b = 0xFF")
      case False
      with "1.prems" b have "next_marker (t\<lparr>discarded_bytes := discarded_bytes t + 1\<rparr>) = (ok, s')"
        by (subst (asm) next_marker.simps) simp
      from "1.IH"(1) [OF b refl False this] st show ?thesis by (simp add: suffix_order.trans)
    next
      case True
      show ?thesis
      proof (cases "skip_ff t")
        case None
        with True "1.prems" b show ?thesis by (subst (asm) next_marker.simps) simp
      next
        case (Some q)
        obtain c u where c: "skip_ff t = Some (c, u)" using Some by (cases q) simp
        have su: "suffix (upcoming u) (upcoming s)" using skip_ff_suffix [OF c] st by (rule suffix_order.trans)
        have "next_marker s = (if c = 0 then next_marker (u\<lparr>discarded_bytes := discarded_bytes u + 2\<rparr>)
            else (True, u\<lparr>discarded_bytes := 0, unread_marker := unat c\<rparr>))"
          using b c True by (subst next_marker.simps) simp
        with "1.prems" "1.IH"(2) [OF b refl _ c refl, of] True su show ?thesis
          by (auto split: if_splits intro: suffix_order.trans)
      qed
    qed
  qed
qed

section \<open>Resynchronisation\<close>

text \<open>
  The markers ahead in a byte string, each with the bytes after it: an \<open>0xFF\<close> followed by a byte that is
  neither zero (stuffing) nor another \<open>0xFF\<close> (fill).
\<close>

fun markers_in :: "u8 list \<Rightarrow> (nat \<times> u8 list) list" where
  "markers_in [] = []"
| "markers_in [c] = []"
| "markers_in (c # b # bs) =
     (if c = 0xFF \<and> b \<noteq> 0xFF \<and> b \<noteq> 0 then (unat b, bs) # markers_in bs else markers_in (b # bs))"

text \<open>The bytes the source delivers before it suspends.\<close>

definition available :: "'z dec_source_scheme \<Rightarrow> u8 list" where
  "available s = input s @ concat (takeWhile (\<lambda>b. b \<noteq> []) (fills s))"

text \<open>
  What the comment before \<open>jpeg_resync_to_restart\<close> demands for each marker, by how many restarts it is
  ahead of the desired one, counted modulo 8: the next two and every legal marker that is no restart stay
  for the decoder, the two before and illegal markers are passed over, the others are dropped.
\<close>

datatype resync_choice = Keep_marker | Pass_over | Drop_marker

definition resync_choice_of :: "nat \<Rightarrow> nat \<Rightarrow> resync_choice" where
  "resync_choice_of desired m =
     (if m < 0xC0 then Pass_over
      else if m < 0xD0 \<or> 0xD7 < m then Keep_marker
      else let ahead = (int m - 0xD0 - int desired) mod 8
           in if ahead = 1 \<or> ahead = 2 then Keep_marker else if ahead = 6 \<or> ahead = 7 then Pass_over else Drop_marker)"

lemma available_update [simp]:
  "available (s\<lparr>discarded_bytes := d\<rparr>) = available s"
  "available (s\<lparr>unread_marker := m\<rparr>) = available s"
  by (simp_all add: available_def)

lemma next_byte_available:
  "next_byte s = (case available s of [] \<Rightarrow> None | c # cs \<Rightarrow> next_byte s)"
  "next_byte s = Some (c, s') \<Longrightarrow> available s = c # available s'"
  "available s = c # cs \<Longrightarrow> \<exists>s'. next_byte s = Some (c, s')"
  by (auto simp: next_byte_def available_def split: list.splits)

lemma skip_ff_available: "skip_ff s = Some (c, s') \<Longrightarrow> \<exists>n. available s = replicate n 0xFF @ c # available s'"
proof (induction s rule: skip_ff.induct)
  case (1 s)
  from "1.prems" obtain b t where b: "next_byte s = Some (b, t)"
    by (subst (asm) skip_ff.simps) (auto split: option.splits)
  note nb = next_byte_available(2) [OF b]
  show ?case
  proof (cases "b = 0xFF")
    case True
    then have "skip_ff t = Some (c, s')" using "1.prems" b by (subst (asm) skip_ff.simps) simp
    from "1.IH" [OF b refl True this] obtain n where "available t = replicate n 0xFF @ c # available s'" by auto
    then show ?thesis using nb True by (auto intro: exI [of _ "Suc n"])
  next
    case False
    then have "skip_ff s = Some (b, t)" using b by (subst skip_ff.simps) simp
    then show ?thesis using "1.prems" nb by (auto intro: exI [of _ 0])
  qed
qed

lemma skip_ff_None: "skip_ff s = None \<Longrightarrow> \<exists>n. available s = replicate n 0xFF"
proof (induction s rule: skip_ff.induct)
  case (1 s)
  show ?case
  proof (cases "next_byte s")
    case None
    then show ?thesis using next_byte_available(3) [of s] by (cases "available s") (auto intro: exI [of _ 0])
  next
    case (Some p)
    obtain b t where b: "next_byte s = Some (b, t)" using Some by (cases p) simp
    have "b = 0xFF" "skip_ff t = None" using "1.prems" b by (subst (asm) skip_ff.simps, simp split: if_splits)+
    from "1.IH" [OF b refl this] obtain n where "available t = replicate n 0xFF" by auto
    then show ?thesis using next_byte_available(2) [OF b] \<open>b = 0xFF\<close> by (auto intro: exI [of _ "Suc n"])
  qed
qed

lemma resync_action_range: "resync_action m d \<in> {1, 2, 3}"
  by (simp add: resync_action_def)

lemma markers_in_fill: "markers_in (0xFF # replicate n 0xFF) = []"
  by (induction n) simp_all

lemma markers_in_ff: "c \<noteq> 0xFF \<Longrightarrow> markers_in (0xFF # replicate n 0xFF @ c # bs) = (if c = 0 then markers_in (0 # bs) else (unat c, bs) # markers_in bs)"
  by (induction n) simp_all

lemma markers_in_skip: "c \<noteq> 0xFF \<Longrightarrow> markers_in (c # bs) = markers_in bs"
  by (cases bs) simp_all

lemma next_marker_markers:
  "case next_marker s of (ok, s') \<Rightarrow>
     (case markers_in (available s) of [] \<Rightarrow> \<not> ok
      | (m, bs) # ms \<Rightarrow> ok \<and> unread_marker s' = m \<and> available s' = bs \<and> ms = markers_in bs)"
proof (induction s rule: next_marker.induct)
  case (1 s)
  show ?case
  proof (cases "next_byte s")
    case None
    then have "available s = []" using next_byte_available(3) [of s] by (cases "available s") auto
    with None show ?thesis by (subst next_marker.simps) simp
  next
    case (Some p)
    obtain b t where b: "next_byte s = Some (b, t)" using Some by (cases p) simp
    note nb = next_byte_available(2) [OF b]
    show ?thesis
    proof (cases "b = 0xFF")
      case False
      have "next_marker s = next_marker (t\<lparr>discarded_bytes := discarded_bytes t + 1\<rparr>)" using b False by (subst next_marker.simps) simp
      then show ?thesis using "1.IH"(1) [OF b refl False] by (simp add: nb markers_in_skip [OF False])
    next
      case True
      show ?thesis
      proof (cases "skip_ff t")
        case None
        then obtain n where n: "available t = replicate n 0xFF" using skip_ff_None by blast
        have "next_marker s = (False, s)" using b True None by (subst next_marker.simps) simp
        then show ?thesis by (simp add: nb True n markers_in_fill)
      next
        case (Some q)
        obtain c u where c: "skip_ff t = Some (c, u)" using Some by (cases q) simp
        have cf: "c \<noteq> 0xFF" using skip_ff_Some [OF c] by simp
        obtain n where n: "available t = replicate n 0xFF @ c # available u" using skip_ff_available [OF c] by blast
        show ?thesis
        proof (cases "c = 0")
          case c0: True
          have "next_marker s = next_marker (u\<lparr>discarded_bytes := discarded_bytes u + 2\<rparr>)" using b True c c0 by (subst next_marker.simps) simp
          moreover have "markers_in (available s) = markers_in (available u)"
            using markers_in_ff [OF cf] c0 by (simp add: nb True n markers_in_skip)
          ultimately show ?thesis using "1.IH"(2) [OF b refl _ c refl c0] True by simp
        next
          case False
          have "next_marker s = (True, u\<lparr>discarded_bytes := 0, unread_marker := unat c\<rparr>)" using b True c False by (subst next_marker.simps) simp
          then show ?thesis using markers_in_ff [OF cf] False by (simp add: nb True n)
        qed
      qed
    qed
  qed
qed

lemma and_7_int: "x AND 7 = (x :: int) mod 8"
  using take_bit_eq_mask [of 3 x] by (simp add: mask_eq_exp_minus_1 take_bit_eq_mod)

lemma same_restart: "0 \<le> x \<Longrightarrow> x < 8 \<Longrightarrow> x = (d + j) mod 8 \<longleftrightarrow> (x - d) mod 8 = j mod (8 :: int)"
  using mod_eq_dvd_iff [of "x - d" 8 j] mod_eq_dvd_iff [of x 8 "d + j"] by (simp add: algebra_simps)

lemma resync_action_choice:
  "resync_action m d = (case resync_choice_of d m of Keep_marker \<Rightarrow> 3 | Pass_over \<Rightarrow> 2 | Drop_marker \<Rightarrow> 1)"
proof (cases "0xD0 \<le> m \<and> m \<le> 0xD7")
  case True
  define x where "x = int m - 0xD0"
  have x: "0 \<le> x" "x < 8" using True by (simp_all add: x_def)
  have e: "int m = int M_RST0 + ((int d + j) AND 7) \<longleftrightarrow> (x - int d) mod 8 = j mod 8" for j
    using same_restart [OF x, of "int d" j] unfolding and_7_int by (simp add: x_def M_RST0_def) linarith
  have r: "\<not> m < M_SOF0" "\<not> (m < M_RST0 \<or> M_RST7 < m)" "\<not> m < 0xC0" "\<not> (m < 0xD0 \<or> 0xD7 < m)"
    using True by (simp_all add: M_SOF0_def M_RST0_def M_RST7_def)
  show ?thesis
    unfolding resync_action_def resync_choice_of_def if_not_P [OF r(1)] if_not_P [OF r(2)] if_not_P [OF r(3)] if_not_P [OF r(4)]
    using e [of 1] e [of 2] e [of "- 1"] e [of "- 2"] by (simp add: x_def Let_def)
qed (auto simp: resync_action_def resync_choice_of_def M_SOF0_def M_RST0_def M_RST7_def)

text \<open>
  C13. Resynchronising always ends, skips input only, and does what its comment promises. Of the marker at
  hand and those ahead in the data the source delivers, take the first that is not to be passed over. If
  there is none, the decoder is suspended; otherwise it stands behind that marker, which is still unread if
  it is one of the next two restarts or a legal marker that is no restart, and gone if it is another restart.
\<close>

theorem resync_result:
  "case jpeg_resync_to_restart desired s of (ok, s') \<Rightarrow>
     suffix (upcoming s') (upcoming s) \<and>
     (case find (\<lambda>(m, _). resync_choice_of desired m \<noteq> Pass_over) ((unread_marker s, available s) # markers_in (available s)) of
        None \<Rightarrow> \<not> ok
      | Some (m, bs) \<Rightarrow> ok \<and> available s' = bs \<and>
          unread_marker s' = (if resync_choice_of desired m = Keep_marker then m else 0))"
proof (induction desired s rule: jpeg_resync_to_restart.induct)
  case (1 desired s)
  let ?m = "unread_marker s"
  note step = jpeg_resync_to_restart.simps [of desired s] resync_action_choice
  show ?case
  proof (cases "resync_choice_of desired ?m")
    case Pass_over
    then have a: "resync_action ?m desired = 2" by (simp add: resync_action_choice)
    obtain ok t where t: "next_marker s = (ok, t)" by (cases "next_marker s")
    note nm = next_marker_markers [of s, unfolded t] and sf = next_marker_suffix [OF t]
    show ?thesis
    proof (cases ok)
      case False
      then show ?thesis using nm sf t Pass_over by (simp add: step split: list.splits prod.splits)
    next
      case True
      then obtain m bs where m: "markers_in (available s) = (m, bs) # markers_in bs" "unread_marker t = m" "available t = bs"
        using nm by (auto split: list.splits)
      have "jpeg_resync_to_restart desired s = jpeg_resync_to_restart desired t" using t True Pass_over by (simp add: step)
      then show ?thesis
        using "1.IH" [OF refl _ a t [symmetric] eqTrueI [OF True]] a m Pass_over sf by (auto intro: suffix_order.trans)
    qed
  qed (simp_all add: step)
qed

text \<open>An invalid marker is skipped together with the data after it, up to restart 4, the next one.\<close>

definition resync_example :: dec_source where
  "resync_example = \<lparr>input = [1, 2, 0xFF], fills = [[0xFF, 0xD4, 7], [8]], unread_marker = 1, next_restart_num = 3,
     discarded_bytes = 0\<rparr>"

lemma resync_example_result:
  "jpeg_resync_to_restart 3 resync_example =
     (True, \<lparr>input = [7], fills = [[8]], unread_marker = 0xD4, next_restart_num = 3, discarded_bytes = 0\<rparr>)"
  by code_simp

end
