(* ===== verification/HuffDec.thy ===== *)
theory HuffDec imports HuffTables DecSource begin

text \<open>
  The sequential Huffman decoder of \<open>jdhuff.c\<close> and the bit-reading macros of \<open>jdhuff.h\<close>, in the
  32-bit configuration (\<open>BIT_BUF_SIZE\<close> 32). \<open>decode_mcu_slow\<close> and \<open>decode_mcu_fast\<close> have the same text
  with different macros for getting at the bits; these macros are the record \<open>bit_macros\<close>.

  An operation that returns FALSE (or -1) because the source suspends gives \<open>Inl Suspended\<close>: the
  working state is dropped, as the code drops its local copies. An array access outside the array
  gives \<open>Inl BadIndex\<close>, a read past the end of the source's buffer \<open>Inl OverRead\<close>, a shift by a
  negative count \<open>Inl BadShift\<close>.
\<close>

section \<open>Reading bits\<close>

datatype stop = Suspended | BadIndex | OverRead | BadShift

text \<open>
  \<open>bitread\<close> is the working state (\<open>bitread_working_state\<close>) together with the two fields of
  \<open>cinfo\<close> it may change; \<open>insufficient_data\<close> belongs to the entropy decoder.
\<close>

record bitread = dec_source +
  get_buffer :: u32
  bits_left :: nat
  insufficient_data :: bool

definition MIN_GET_BITS :: nat where
  "MIN_GET_BITS = 32 - 7"

definition load_byte :: "u8 \<Rightarrow> bitread \<Rightarrow> bitread" where
  "load_byte c s = s\<lparr>get_buffer := push_bit 8 (get_buffer s) OR ucast c, bits_left := bits_left s + 8\<rparr>"

text \<open>The reading loop; \<open>True\<close> in the result is the jump to \<open>no_more_bytes\<close>.\<close>

function fill_loop :: "bitread \<Rightarrow> stop + (bool \<times> bitread)" where
  "fill_loop s =
     (if bits_left s < MIN_GET_BITS
      then (case next_byte s of
              None \<Rightarrow> Inl Suspended
            | Some (c, s) \<Rightarrow>
                if c = 0xFF
                then (case skip_ff s of
                        None \<Rightarrow> Inl Suspended
                      | Some (c, s) \<Rightarrow>
                          if c = 0 then fill_loop (load_byte 0xFF s)
                          else Inr (True, s\<lparr>unread_marker := unat c\<rparr>))
                else fill_loop (load_byte c s))
      else Inr (False, s))"
  by pat_completeness auto

lemma load_byte_simps [simp]:
  "upcoming (load_byte c s) = upcoming s" "live (load_byte c s) = live s"
  "unread_marker (load_byte c s) = unread_marker s" "next_restart_num (load_byte c s) = next_restart_num s"
  "bits_left (load_byte c s) = bits_left s + 8" "insufficient_data (load_byte c s) = insufficient_data s"
  by (simp_all add: load_byte_def upcoming_def live_def)

termination fill_loop
  by (relation "measure (length \<circ> upcoming)") (auto dest!: next_byte_less skip_ff_less)

declare fill_loop.simps [simp del]

text \<open>\<open>no_more_bytes\<close>: zero bits stand in for missing data.\<close>

definition no_more_bytes :: "nat \<Rightarrow> bitread \<Rightarrow> bitread" where
  "no_more_bytes nbits s =
     (if bits_left s < nbits
      then s\<lparr>insufficient_data := True, get_buffer := push_bit (MIN_GET_BITS - bits_left s) (get_buffer s),
             bits_left := MIN_GET_BITS\<rparr>
      else s)"

definition jpeg_fill_bit_buffer :: "nat \<Rightarrow> bitread \<Rightarrow> stop + bitread" where
  "jpeg_fill_bit_buffer nbits s =
     (if unread_marker s = 0
      then ebind (fill_loop s) (\<lambda>(hit, s). Inr (if hit then no_more_bytes nbits s else s))
      else Inr (no_more_bytes nbits s))"

definition CHECK_BIT_BUFFER :: "nat \<Rightarrow> bitread \<Rightarrow> stop + bitread" where
  "CHECK_BIT_BUFFER nbits s = (if bits_left s < nbits then jpeg_fill_bit_buffer nbits s else Inr s)"

text \<open>\<open>bit_buf_type\<close> is signed, so the shift copies the top bit; the mask removes the copies.\<close>

definition PEEK_BITS :: "nat \<Rightarrow> bitread \<Rightarrow> nat" where
  "PEEK_BITS n s = unat (signed_drop_bit (bits_left s - n) (get_buffer s) AND (push_bit n 1 - 1))"

definition DROP_BITS :: "nat \<Rightarrow> bitread \<Rightarrow> bitread" where
  "DROP_BITS n s = s\<lparr>bits_left := bits_left s - n\<rparr>"

definition GET_BITS :: "nat \<Rightarrow> bitread \<Rightarrow> nat \<times> bitread" where
  "GET_BITS n s = (PEEK_BITS n s, DROP_BITS n s)"

section \<open>Decoding a symbol\<close>

text \<open>
  The while loop of \<open>jpeg_huff_decode\<close>: one bit at a time until the code is at most \<open>maxcode[l]\<close>.
  \<open>maxcode\<close> has 18 entries.
\<close>

function code_loop :: "d_derived_tbl \<Rightarrow> nat \<Rightarrow> nat \<Rightarrow> bitread \<Rightarrow> stop + (nat \<times> nat \<times> bitread)" where
  "code_loop htbl l code s =
     (if 17 < l then Inl BadIndex
      else if maxcode htbl ! l < int code
      then ebind (CHECK_BIT_BUFFER 1 s) (\<lambda>s.
           case GET_BITS 1 s of (b, s) \<Rightarrow> code_loop htbl (l + 1) (push_bit 1 code OR b) s)
      else Inr (l, code, s))"
  by pat_completeness auto

termination code_loop by (relation "measure (\<lambda>(h, l, c, s). 18 - l)") auto

declare code_loop.simps [simp del]

definition jpeg_huff_decode :: "d_derived_tbl \<Rightarrow> nat \<Rightarrow> bitread \<Rightarrow> stop + (nat \<times> bitread)" where
  "jpeg_huff_decode htbl min_bits s =
     ebind (CHECK_BIT_BUFFER min_bits s) (\<lambda>s.
     case GET_BITS min_bits s of (code, s) \<Rightarrow>
     ebind (code_loop htbl min_bits code s) (\<lambda>(l, code, s).
     if 16 < l then Inr (0, s)
     else
       let i = int code + valoffset htbl ! l
       in if i < 0 \<or> 256 \<le> i then Inl BadIndex else Inr (unat (huffval (pub htbl) ! nat i), s)))"

definition HUFF_DECODE :: "d_derived_tbl \<Rightarrow> bitread \<Rightarrow> stop + (nat \<times> bitread)" where
  "HUFF_DECODE htbl s =
     ebind (if bits_left s < HUFF_LOOKAHEAD then jpeg_fill_bit_buffer 0 s else Inr s) (\<lambda>s.
     if bits_left s < HUFF_LOOKAHEAD then jpeg_huff_decode htbl 1 s
     else
       let look = PEEK_BITS HUFF_LOOKAHEAD s; nb = drop_bit HUFF_LOOKAHEAD (lookup htbl ! look)
       in if nb \<le> HUFF_LOOKAHEAD
          then Inr ((lookup htbl ! look) AND (push_bit HUFF_LOOKAHEAD 1 - 1), DROP_BITS nb s)
          else jpeg_huff_decode htbl nb s)"

definition HUFF_EXTEND :: "int \<Rightarrow> nat \<Rightarrow> int" where
  "HUFF_EXTEND x s = x + (drop_bit 31 (x - push_bit (s - 1) 1) AND (push_bit s (-1) + 1))"

text \<open>The \<open>s\<close> bits after a symbol, extended to a signed value.\<close>

definition receive_extend :: "nat \<Rightarrow> bitread \<Rightarrow> stop + (int \<times> bitread)" where
  "receive_extend n br =
     ebind (CHECK_BIT_BUFFER n br) (\<lambda>br. case GET_BITS n br of (r, br) \<Rightarrow> Inr (HUFF_EXTEND (int r) n, br))"

text \<open>The discarded bits of a value.\<close>

definition discard :: "nat \<Rightarrow> bitread \<Rightarrow> stop + bitread" where
  "discard n br = ebind (CHECK_BIT_BUFFER n br) (\<lambda>br. Inr (DROP_BITS n br))"

section \<open>The fast variants\<close>

text \<open>
  \<open>decode_mcu_fast\<close> reads from the current buffer of the source through its own pointer; here the
  pointer is \<open>input\<close>. \<open>GET_BYTE\<close> always looks at the byte after the one it takes. At a marker it puts
  the pointer back and supplies a zero byte.
\<close>

definition GET_BYTE :: "bitread \<Rightarrow> stop + bitread" where
  "GET_BYTE s = (case input s of
       c0 # c1 # cs \<Rightarrow>
         let t = load_byte c0 s
         in if c0 = 0xFF
            then if c1 \<noteq> 0 then Inr (t\<lparr>unread_marker := unat c1, get_buffer := get_buffer t AND NOT 0xFF\<rparr>)
                 else Inr (t\<lparr>input := cs\<rparr>)
            else Inr (t\<lparr>input := c1 # cs\<rparr>)
     | _ \<Rightarrow> Inl OverRead)"

definition FILL_BIT_BUFFER_FAST :: "bitread \<Rightarrow> stop + bitread" where
  "FILL_BIT_BUFFER_FAST s = (if bits_left s < 16 then ebind (GET_BYTE s) GET_BYTE else Inr s)"

function fast_loop :: "d_derived_tbl \<Rightarrow> nat \<Rightarrow> nat \<Rightarrow> bitread \<Rightarrow> stop + (nat \<times> nat \<times> bitread)" where
  "fast_loop htbl nb s br =
     (if 17 < nb then Inl BadIndex
      else if maxcode htbl ! nb < int s
      then if bits_left br = 0 then Inl BadShift
           else case GET_BITS 1 br of (b, br) \<Rightarrow> fast_loop htbl (nb + 1) (push_bit 1 s OR b) br
      else Inr (nb, s, br))"
  by pat_completeness auto

termination fast_loop by (relation "measure (\<lambda>(h, l, c, s). 18 - l)") auto

declare fast_loop.simps [simp del]

definition HUFF_DECODE_FAST :: "d_derived_tbl \<Rightarrow> bitread \<Rightarrow> stop + (nat \<times> bitread)" where
  "HUFF_DECODE_FAST htbl br =
     ebind (FILL_BIT_BUFFER_FAST br) (\<lambda>br.
     let s = lookup htbl ! PEEK_BITS HUFF_LOOKAHEAD br; nb = drop_bit HUFF_LOOKAHEAD s
     in if HUFF_LOOKAHEAD < nb
        then ebind (fast_loop htbl nb (PEEK_BITS nb br) (DROP_BITS nb br)) (\<lambda>(nb, s, br).
             Inr (unat (huffval (pub htbl) ! nat ((int s + valoffset htbl ! nb) AND 0xFF)), br))
        else Inr (s AND (push_bit HUFF_LOOKAHEAD 1 - 1), DROP_BITS nb br))"

definition receive_fast :: "nat \<Rightarrow> bitread \<Rightarrow> stop + (int \<times> bitread)" where
  "receive_fast n br =
     ebind (FILL_BIT_BUFFER_FAST br) (\<lambda>br.
       if bits_left br < n then Inl BadShift
       else case GET_BITS n br of (r, br) \<Rightarrow> Inr (HUFF_EXTEND (int r) n, br))"

definition discard_fast :: "nat \<Rightarrow> bitread \<Rightarrow> stop + bitread" where
  "discard_fast n br = ebind (FILL_BIT_BUFFER_FAST br) (\<lambda>br. Inr (DROP_BITS n br))"

record bit_macros =
  get_symbol :: "d_derived_tbl \<Rightarrow> bitread \<Rightarrow> stop + (nat \<times> bitread)"
  get_value :: "nat \<Rightarrow> bitread \<Rightarrow> stop + (int \<times> bitread)"
  skip_value :: "nat \<Rightarrow> bitread \<Rightarrow> stop + bitread"

definition slow_macros :: bit_macros where
  "slow_macros = \<lparr>get_symbol = HUFF_DECODE, get_value = receive_extend, skip_value = discard\<rparr>"

definition fast_macros :: bit_macros where
  "fast_macros = \<lparr>get_symbol = HUFF_DECODE_FAST, get_value = receive_fast, skip_value = discard_fast\<rparr>"

section \<open>Decoding a block\<close>

text \<open>\<open>(JCOEF) s\<close>, and the int the DC prediction is kept in.\<close>

definition as_JCOEF :: "int \<Rightarrow> int" where
  "as_JCOEF v = signed_take_bit 15 v"

definition as_int :: "int \<Rightarrow> int" where
  "as_int v = signed_take_bit 31 v"

definition decode_dc :: "bit_macros \<Rightarrow> d_derived_tbl \<Rightarrow> bitread \<Rightarrow> stop + (int \<times> bitread)" where
  "decode_dc bm dctbl br =
     ebind (get_symbol bm dctbl br) (\<lambda>(s, br). if s \<noteq> 0 then get_value bm s br else Inr (0, br))"

function decode_ac :: "bit_macros \<Rightarrow> d_derived_tbl \<Rightarrow> nat \<Rightarrow> int list \<Rightarrow> bitread \<Rightarrow> stop + (int list \<times> bitread)" where
  "decode_ac bm actbl k block br =
     (if k < DCTSIZE2
      then ebind (get_symbol bm actbl br) (\<lambda>(s, br).
           let r = drop_bit 4 s; s = s AND 15
           in if s \<noteq> 0
              then ebind (get_value bm s br) (\<lambda>(v, br).
                   if length jpeg_natural_order \<le> k + r then Inl BadIndex
                   else decode_ac bm actbl (k + r + 1) (block[jpeg_natural_order ! (k + r) := as_JCOEF v]) br)
              else if r \<noteq> 15 then Inr (block, br)
              else decode_ac bm actbl (k + 15 + 1) block br)
      else Inr (block, br))"
  by pat_completeness auto

termination decode_ac by (relation "measure (\<lambda>(m, t, k, b, s). DCTSIZE2 - k)") auto

declare decode_ac.simps [simp del]

text \<open>The path that discards the values.\<close>

function skip_ac :: "bit_macros \<Rightarrow> d_derived_tbl \<Rightarrow> nat \<Rightarrow> bitread \<Rightarrow> stop + bitread" where
  "skip_ac bm actbl k br =
     (if k < DCTSIZE2
      then ebind (get_symbol bm actbl br) (\<lambda>(s, br).
           let r = drop_bit 4 s; s = s AND 15
           in if s \<noteq> 0
              then ebind (skip_value bm s br) (skip_ac bm actbl (k + r + 1))
              else if r \<noteq> 15 then Inr br
              else skip_ac bm actbl (k + 15 + 1) br)
      else Inr br)"
  by pat_completeness auto

termination skip_ac by (relation "measure (\<lambda>(m, t, k, s). DCTSIZE2 - k)") auto

declare skip_ac.simps [simp del]

text \<open>What \<open>start_pass_huff_decoder\<close> precomputes for each block of an MCU.\<close>

record block_info =
  membership :: nat
  dc_cur_tbl :: d_derived_tbl
  ac_cur_tbl :: d_derived_tbl
  dc_needed :: bool
  ac_needed :: bool

definition decode_block ::
  "bit_macros \<Rightarrow> block_info \<Rightarrow> int list \<Rightarrow> int list \<Rightarrow> bitread \<Rightarrow> stop + (int list \<times> int list \<times> bitread)" where
  "decode_block bm bi last_dc block br =
     ebind (decode_dc bm (dc_cur_tbl bi) br) (\<lambda>(s, br).
     let ci = membership bi; s' = as_int (s + last_dc ! ci);
         (last_dc, block) = (if dc_needed bi then (last_dc[ci := s'], block[0 := as_JCOEF s']) else (last_dc, block))
     in if ac_needed bi
        then ebind (decode_ac bm (ac_cur_tbl bi) 1 block br) (\<lambda>(block, br). Inr (last_dc, block, br))
        else ebind (skip_ac bm (ac_cur_tbl bi) 1 br) (\<lambda>br. Inr (last_dc, block, br)))"

fun decode_blocks ::
  "bit_macros \<Rightarrow> (block_info \<times> int list) list \<Rightarrow> int list \<Rightarrow> bitread \<Rightarrow> stop + (int list \<times> int list list \<times> bitread)" where
  "decode_blocks bm [] last_dc br = Inr (last_dc, [], br)"
| "decode_blocks bm ((bi, block) # rest) last_dc br =
     ebind (decode_block bm bi last_dc block br) (\<lambda>(last_dc, block, br).
     ebind (decode_blocks bm rest last_dc br) (\<lambda>(last_dc, blocks, br). Inr (last_dc, block # blocks, br)))"

section \<open>An MCU\<close>

text \<open>\<open>bitstate\<close> keeps the bit buffer between MCUs; the source part of it is \<open>cinfo->src\<close>.\<close>

record huff_entropy_decoder =
  bitstate :: bitread
  dec_last_dc :: "int list"
  dec_restarts_to_go :: u32
  dec_dc_tbls :: "d_derived_tbl list"
  dec_ac_tbls :: "d_derived_tbl list"
  block_infos :: "block_info list"

text \<open>
  \<open>start_pass_huff_decoder\<close>. A component of the scan is given by its table numbers,
  \<open>component_needed\<close> and \<open>_DCT_scaled_size\<close>. The warning for odd progressive parameters only
  goes to the message handler.
\<close>

record dec_component =
  d_dc_tbl_no :: nat
  d_ac_tbl_no :: nat
  d_component_needed :: bool
  d_DCT_scaled_size :: nat

fun dec_tables ::
  "JHUFF_TBL option list \<Rightarrow> JHUFF_TBL option list \<Rightarrow> dec_component list \<Rightarrow> huff_entropy_decoder \<Rightarrow>
   jerr + huff_entropy_decoder" where
  "dec_tables dcp acp [] d = Inr d"
| "dec_tables dcp acp (c # comps) d =
     ebind (jpeg_make_d_derived_tbl dcp True (int (d_dc_tbl_no c)) (dec_dc_tbls d ! d_dc_tbl_no c)) (\<lambda>t.
     let d = d\<lparr>dec_dc_tbls := (dec_dc_tbls d)[d_dc_tbl_no c := t]\<rparr>
     in ebind (jpeg_make_d_derived_tbl acp False (int (d_ac_tbl_no c)) (dec_ac_tbls d ! d_ac_tbl_no c)) (\<lambda>t.
        dec_tables dcp acp comps (d\<lparr>dec_ac_tbls := (dec_ac_tbls d)[d_ac_tbl_no c := t]\<rparr>)))"

definition start_pass_huff_decoder ::
  "JHUFF_TBL option list \<Rightarrow> JHUFF_TBL option list \<Rightarrow> dec_component list \<Rightarrow> nat list \<Rightarrow> u32 \<Rightarrow>
   huff_entropy_decoder \<Rightarrow> jerr + huff_entropy_decoder" where
  "start_pass_huff_decoder dcp acp comps MCU_membership restart_interval d =
     ebind (dec_tables dcp acp comps d) (\<lambda>d.
       let info = (\<lambda>ci. let c = comps ! ci
             in \<lparr>membership = ci, dc_cur_tbl = dec_dc_tbls d ! d_dc_tbl_no c, ac_cur_tbl = dec_ac_tbls d ! d_ac_tbl_no c,
                 dc_needed = d_component_needed c, ac_needed = d_component_needed c \<and> 1 < d_DCT_scaled_size c\<rparr>)
       in Inr (d\<lparr>dec_last_dc := replicate (length comps) 0 @ drop (length comps) (dec_last_dc d),
                block_infos := map info MCU_membership,
                bitstate := (bitstate d)\<lparr>bits_left := 0, get_buffer := 0, insufficient_data := False\<rparr>,
                dec_restarts_to_go := restart_interval\<rparr>))"

definition decode_mcu_slow :: "int list list \<Rightarrow> huff_entropy_decoder \<Rightarrow> stop + (int list list \<times> huff_entropy_decoder)" where
  "decode_mcu_slow MCU_data e =
     ebind (decode_blocks slow_macros (zip (block_infos e) MCU_data) (dec_last_dc e) (bitstate e)) (\<lambda>(last_dc, blocks, br).
       Inr (blocks, e\<lparr>bitstate := br, dec_last_dc := last_dc\<rparr>))"

text \<open>
  When the fast path has met a marker, it returns FALSE and leaves the decoder as it was, except for the
  coefficients it has stored.
\<close>

definition decode_mcu_fast :: "int list list \<Rightarrow> huff_entropy_decoder \<Rightarrow> stop + (bool \<times> int list list \<times> huff_entropy_decoder)" where
  "decode_mcu_fast MCU_data e =
     ebind (decode_blocks fast_macros (zip (block_infos e) MCU_data) (dec_last_dc e) (bitstate e)) (\<lambda>(last_dc, blocks, br).
       if unread_marker br \<noteq> 0 then Inr (False, blocks, e\<lparr>bitstate := (bitstate e)\<lparr>unread_marker := 0\<rparr>\<rparr>)
       else Inr (True, blocks, e\<lparr>bitstate := br, dec_last_dc := last_dc\<rparr>))"

definition process_restart ::
  "(nat \<Rightarrow> bitread \<Rightarrow> bool \<times> bitread) \<Rightarrow> nat \<Rightarrow> u32 \<Rightarrow> huff_entropy_decoder \<Rightarrow> bool \<times> huff_entropy_decoder" where
  "process_restart resync comps_in_scan restart_interval e =
     (let br = bitstate e;
          br = br\<lparr>discarded_bytes := discarded_bytes br + of_nat (bits_left br div 8), bits_left := 0\<rparr>
      in case read_restart_marker resync br of
           (False, br) \<Rightarrow> (False, e\<lparr>bitstate := br\<rparr>)
         | (True, br) \<Rightarrow>
             (True, e\<lparr>bitstate := (if unread_marker br = 0 then br\<lparr>insufficient_data := False\<rparr> else br),
                     dec_last_dc := replicate comps_in_scan 0 @ drop comps_in_scan (dec_last_dc e),
                     dec_restarts_to_go := restart_interval\<rparr>))"

text \<open>
  FALSE leaves the decoder as it was, apart from what \<open>process_restart\<close> did; the coefficients stored by
  then are not part of the result, since the caller zeroes the blocks before it calls again. When the
  data has run out, the blocks stay as the caller zeroed them.
\<close>

definition BUFSIZE_MCU :: nat where
  "BUFSIZE_MCU = DCTSIZE2 * 2"

definition decode_mcu ::
  "(nat \<Rightarrow> bitread \<Rightarrow> bool \<times> bitread) \<Rightarrow> nat \<Rightarrow> u32 \<Rightarrow> int list list \<Rightarrow> huff_entropy_decoder \<Rightarrow>
   stop + (bool \<times> int list list \<times> huff_entropy_decoder)" where
  "decode_mcu resync comps_in_scan restart_interval MCU_data e =
     (case (if restart_interval \<noteq> 0 \<and> dec_restarts_to_go e = 0
            then process_restart resync comps_in_scan restart_interval e else (True, e)) of
        (False, e) \<Rightarrow> Inr (False, MCU_data, e)
      | (True, e) \<Rightarrow>
          let br = bitstate e;
              usefast = (restart_interval = 0 \<and>
                \<not> (length (input br) < BUFSIZE_MCU * length (block_infos e) \<or> unread_marker br \<noteq> 0))
          in if insufficient_data br
             then Inr (True, MCU_data, e\<lparr>dec_restarts_to_go := dec_restarts_to_go e - 1\<rparr>)
             else ebind (if usefast then decode_mcu_fast MCU_data e else Inr (False, MCU_data, e)) (\<lambda>(ok, blocks, e).
               if ok then Inr (True, blocks, e\<lparr>dec_restarts_to_go := dec_restarts_to_go e - 1\<rparr>)
               else case decode_mcu_slow blocks e of
                      Inl Suspended \<Rightarrow> Inr (False, MCU_data, e)
                    | Inl f \<Rightarrow> Inl f
                    | Inr (blocks, e) \<Rightarrow> Inr (True, blocks, e\<lparr>dec_restarts_to_go := dec_restarts_to_go e - 1\<rparr>)))"

end
