(* ===== verification/HuffRead.thy ===== *)
theory HuffRead imports HuffEnc HuffDec begin

text \<open>
  The decoder reads what the encoder writes. \<open>bits_ahead w\<close> relates the bit reader's state to the
  bits \<open>w\<close> that are still to come before the next marker; every reading operation takes its bits
  from the front of \<open>w\<close>, and decoding a symbol, a coefficient and a block inverts encoding it.
\<close>

section \<open>The bits ahead\<close>

definition bits_ahead :: "bool list \<Rightarrow> u8 \<Rightarrow> u8 list \<Rightarrow> bitread \<Rightarrow> bool" where
  "bits_ahead w m rest s \<longleftrightarrow> live s \<and> bits_left s \<le> 32 \<and> m \<noteq> 0 \<and> m \<noteq> 0xFF \<and>
     (unread_marker s = 0 \<and>
        (\<exists>bs. upcoming s = stuff bs @ 0xFF # m # rest \<and> w = bits_of (bits_left s) (get_buffer s) @ byte_bits bs) \<or>
      unread_marker s = unat m \<and> upcoming s = rest \<and> w = bits_of (bits_left s) (get_buffer s))"

text \<open>Reading leaves the rest of the state alone.\<close>

definition steady :: "bitread \<Rightarrow> bitread \<Rightarrow> bool" where
  "steady s s' \<longleftrightarrow> insufficient_data s' = insufficient_data s \<and> next_restart_num s' = next_restart_num s"

lemma steady_refl [simp]: "steady s s"
  by (simp add: steady_def)

lemma steady_trans: "steady s t \<Longrightarrow> steady t u \<Longrightarrow> steady s u"
  by (simp add: steady_def)

lemma same_decoder_bits:
  "same_decoder s (t :: bitread) \<Longrightarrow> get_buffer t = get_buffer s \<and> bits_left t = bits_left s \<and> steady s t \<and> unread_marker t = unread_marker s"
proof -
  assume a: "same_decoder s t"
  then have "t = s\<lparr>input := input t, fills := fills t\<rparr>" by (simp add: same_decoder_def)
  then show ?thesis by (metis (no_types) steady_def a same_decoder_fields bitread.select_convs
    bitread.surjective dec_source.update_convs(1,2) bitread.ext_inject dec_source.surjective dec_source.ext_inject)
qed

lemma load_bits: "n + 8 \<le> 32 \<Longrightarrow> bits_of (n + 8) (push_bit 8 g OR ucast (c::u8) :: u32) = bits_of n g @ bits_of 8 c"
proof -
  assume n: "n + 8 \<le> 32"
  have l: "unat c < 2 ^ 8" using unsigned_less [of c] by simp
  then have u: "unat (ucast c :: u32) = unat c" by (simp add: unsigned_ucast_eq take_bit_nat_eq_self)
  then have "bits_of (n + 8) (push_bit 8 g OR ucast c :: u32) = bits_of n g @ bits_of 8 (ucast c :: u32)"
    using n l by (intro bits_of_put) simp_all
  then show ?thesis using u bits_of_unat [of 8 c] bits_of_unat [of 8 "ucast c :: u32"] by simp
qed

lemma load_ahead:
  assumes "bits_left s + 8 \<le> 32"
  shows "bits_of (bits_left (load_byte c s)) (get_buffer (load_byte c s)) = bits_of (bits_left s) (get_buffer s) @ bits_of 8 c"
  using load_bits [OF assms, of "get_buffer s" c] by (simp add: load_byte_def)

lemma steady_load [simp]: "steady s (load_byte c s)"
  by (simp add: steady_def)

section \<open>Filling the bit buffer\<close>

text \<open>The state \<open>fill_loop\<close> runs in: no marker seen, \<open>bs\<close> the data bytes still in the source.\<close>

definition before_marker :: "u8 list \<Rightarrow> u8 \<Rightarrow> u8 list \<Rightarrow> bitread \<Rightarrow> bool" where
  "before_marker bs m rest s \<longleftrightarrow> live s \<and> bits_left s \<le> 32 \<and> m \<noteq> 0 \<and> m \<noteq> 0xFF \<and> unread_marker s = 0 \<and>
     upcoming s = stuff bs @ 0xFF # m # rest"

lemma stuff_Cons: "stuff (b # bs) = (if b = 0xFF then [b, 0] else [b]) @ stuff bs"
  by (simp add: stuff_def)

lemma stuff_Nil [simp]: "stuff [] = []"
  by (simp add: stuff_def)

lemma before_marker_ahead:
  "before_marker bs m rest s \<Longrightarrow> bits_ahead (bits_of (bits_left s) (get_buffer s) @ byte_bits bs) m rest s"
  unfolding before_marker_def bits_ahead_def by blast

lemma before_marker_end:
  assumes "before_marker [] m rest s" "bits_left s < MIN_GET_BITS"
  obtains s' where "fill_loop s = Inr (True, s')" "unread_marker s' = unat m" "upcoming s' = rest" "live s'"
    "bits_left s' = bits_left s" "get_buffer s' = get_buffer s" "steady s s'"
proof -
  from assms have u: "live s" "upcoming s = 0xFF # m # rest" "m \<noteq> 0" "m \<noteq> 0xFF" by (simp_all add: before_marker_def)
  from next_byte_live [OF u(1,2)] obtain t where t: "next_byte s = Some (0xFF, t)" "upcoming t = m # rest" "live t"
    "same_decoder s t" by auto
  from next_byte_live [OF t(3,2)] obtain v where v: "next_byte t = Some (m, v)" "upcoming v = rest" "live v"
    "same_decoder t v" by auto
  have "skip_ff t = Some (m, v)" using v(1) u(4) by (subst skip_ff.simps) simp
  with t(1) u(3) assms(2) have "fill_loop s = Inr (True, v\<lparr>unread_marker := unat m\<rparr>)"
    by (subst fill_loop.simps) simp
  moreover have "same_decoder s v" using t(4) v(4) by (rule same_decoder_trans)
  ultimately show ?thesis using that [of "v\<lparr>unread_marker := unat m\<rparr>"] v same_decoder_bits [of s v] by (simp add: steady_def)
qed

lemma before_marker_step:
  assumes "before_marker (b # bs) m rest s" "bits_left s < MIN_GET_BITS"
  obtains t where "fill_loop s = fill_loop (load_byte b t)" "before_marker bs m rest (load_byte b t)"
    "bits_left t = bits_left s" "get_buffer t = get_buffer s" "steady s t"
proof -
  from assms have u: "live s" "upcoming s = stuff (b # bs) @ 0xFF # m # rest" "m \<noteq> 0" "m \<noteq> 0xFF" "unread_marker s = 0"
    by (simp_all add: before_marker_def)
  from u(2) have "upcoming s = b # (if b = 0xFF then 0 # stuff bs else stuff bs) @ 0xFF # m # rest"
    by (simp add: stuff_Cons)
  from next_byte_live [OF u(1) this] obtain t where t: "next_byte s = Some (b, t)"
    "upcoming t = (if b = 0xFF then 0 # stuff bs else stuff bs) @ 0xFF # m # rest" "live t" "same_decoder s t" by auto
  show ?thesis
  proof (cases "b = 0xFF")
    case False
    with t assms(2) have "fill_loop s = fill_loop (load_byte b t)" by (subst fill_loop.simps) simp
    then show ?thesis
      using that [of t] t u False same_decoder_bits [OF t(4)] assms(2) by (simp add: before_marker_def MIN_GET_BITS_def)
  next
    case True
    then have "upcoming t = 0 # stuff bs @ 0xFF # m # rest" using t(2) by simp
    from next_byte_live [OF t(3) this] obtain v where v: "next_byte t = Some (0, v)" "upcoming v = stuff bs @ 0xFF # m # rest"
      "live v" "same_decoder t v" by auto
    have "skip_ff t = Some (0, v)" using v(1) by (subst skip_ff.simps) simp
    with t True assms(2) have "fill_loop s = fill_loop (load_byte b v)" by (subst fill_loop.simps) simp
    moreover have "same_decoder s v" using t(4) v(4) by (rule same_decoder_trans)
    ultimately show ?thesis
      using that [of v] v u same_decoder_bits [of s v] assms(2) by (simp add: before_marker_def MIN_GET_BITS_def)
  qed
qed

lemma fill_loop_ahead:
  "before_marker bs m rest s \<Longrightarrow>
   \<exists>hit s'. fill_loop s = Inr (hit, s') \<and> steady s s' \<and> bits_left s \<le> bits_left s' \<and>
     bits_ahead (bits_of (bits_left s) (get_buffer s) @ byte_bits bs) m rest s' \<and>
     (if hit then unread_marker s' \<noteq> 0 else unread_marker s' = 0 \<and> MIN_GET_BITS \<le> bits_left s')"
proof (induction bs arbitrary: s)
  case Nil
  show ?case
  proof (cases "bits_left s < MIN_GET_BITS")
    case True
    from before_marker_end [OF Nil True] obtain s' where s': "fill_loop s = Inr (True, s')" "unread_marker s' = unat m"
      "upcoming s' = rest" "live s'" "bits_left s' = bits_left s" "get_buffer s' = get_buffer s" "steady s s'" by metis
    moreover have "bits_ahead (bits_of (bits_left s) (get_buffer s) @ byte_bits []) m rest s'"
      using s' Nil by (simp add: bits_ahead_def before_marker_def)
    moreover have "unat m \<noteq> 0" using Nil by (simp add: before_marker_def unsigned_eq_0_iff)
    ultimately show ?thesis by (intro exI [of _ True] exI [of _ s']) simp
  next
    case False
    then have "fill_loop s = Inr (False, s)" by (subst fill_loop.simps) simp
    with before_marker_ahead [OF Nil] Nil False show ?thesis
      by (intro exI [of _ False] exI [of _ s]) (simp add: before_marker_def)
  qed
next
  case (Cons b bs)
  show ?case
  proof (cases "bits_left s < MIN_GET_BITS")
    case True
    from before_marker_step [OF Cons.prems True] obtain t where t: "fill_loop s = fill_loop (load_byte b t)"
      "before_marker bs m rest (load_byte b t)" "bits_left t = bits_left s" "get_buffer t = get_buffer s" "steady s t" by metis
    have "bits_left t + 8 \<le> 32" using True t(3) by (simp add: MIN_GET_BITS_def)
    note l = load_ahead [OF this, of b]
    from Cons.IH [OF t(2)] obtain hit s' where s': "fill_loop (load_byte b t) = Inr (hit, s')" "steady (load_byte b t) s'"
      "bits_left (load_byte b t) \<le> bits_left s'"
      "bits_ahead (bits_of (bits_left s) (get_buffer s) @ byte_bits (b # bs)) m rest s'"
      "if hit then unread_marker s' \<noteq> 0 else unread_marker s' = 0 \<and> MIN_GET_BITS \<le> bits_left s'"
      unfolding l t(3,4) by auto
    have "steady s s'" using t(5) s'(2) by (simp add: steady_def)
    with s' t(1,3) show ?thesis by (intro exI [of _ hit] exI [of _ s']) simp
  next
    case False
    then have "fill_loop s = Inr (False, s)" by (subst fill_loop.simps) simp
    with before_marker_ahead [OF Cons.prems] Cons.prems False show ?thesis
      by (intro exI [of _ False] exI [of _ s]) (simp add: before_marker_def)
  qed
qed

lemma fill_ahead:
  assumes "bits_ahead w m rest s" "n \<le> length w" "n \<le> MIN_GET_BITS"
  obtains s' where "jpeg_fill_bit_buffer n s = Inr s'" "bits_ahead w m rest s'" "steady s s'" "n \<le> bits_left s'"
    "MIN_GET_BITS \<le> bits_left s' \<or> bits_left s' = length w"
proof (cases "unread_marker s = 0")
  case True
  with assms(1) obtain bs where bs: "before_marker bs m rest s" "w = bits_of (bits_left s) (get_buffer s) @ byte_bits bs"
    by (auto simp: bits_ahead_def before_marker_def unsigned_eq_0_iff)
  from fill_loop_ahead [OF bs(1)] obtain hit s' where s': "fill_loop s = Inr (hit, s')" "steady s s'"
    "bits_ahead w m rest s'"
    and h: "if hit then unread_marker s' \<noteq> 0 else unread_marker s' = 0 \<and> MIN_GET_BITS \<le> bits_left s'"
    unfolding bs(2) by blast
  have "n \<le> bits_left s' \<and> (MIN_GET_BITS \<le> bits_left s' \<or> bits_left s' = length w)"
    using h s'(3) assms(2,3) by (cases hit) (auto simp: bits_ahead_def)
  with s' True show ?thesis
    by (intro that [of s']) (simp_all add: jpeg_fill_bit_buffer_def no_more_bytes_def)
next
  case False
  with assms have "bits_left s = length w" by (auto simp: bits_ahead_def)
  with assms False show ?thesis
    by (intro that [of s]) (simp_all add: jpeg_fill_bit_buffer_def no_more_bytes_def)
qed

section \<open>Taking bits\<close>

lemma check_ahead:
  assumes "bits_ahead w m rest s" "n \<le> length w" "n \<le> MIN_GET_BITS"
  obtains s' where "CHECK_BIT_BUFFER n s = Inr s'" "bits_ahead w m rest s'" "steady s s'" "n \<le> bits_left s'"
proof (cases "bits_left s < n")
  case True
  with fill_ahead [OF assms] that show ?thesis by (metis CHECK_BIT_BUFFER_def)
next
  case False
  with assms(1) that [of s] show ?thesis by (simp add: CHECK_BIT_BUFFER_def)
qed

lemma bits_of_drop_low:
  assumes "n \<le> k" "k \<le> 32"
  shows "bits_of n (signed_drop_bit (k - n) (g::u32)) = take n (bits_of k g)"
  using assms by (intro nth_equalityI) (auto simp: bits_of_nth bit_signed_drop_bit_iff)

lemma peek_bits:
  assumes "n \<le> bits_left s" "bits_left s \<le> 32" "n < 32"
  shows "PEEK_BITS n s = bits_val (take n (bits_of (bits_left s) (get_buffer s)))"
proof -
  let ?x = "signed_drop_bit (bits_left s - n) (get_buffer s)"
  have "take_bit n (PEEK_BITS n s) = PEEK_BITS n s"
    unfolding PEEK_BITS_def using mask_bits(2) [OF assms(3), of ?x] by (rule take_bit_nat_eq_self)
  moreover have "bits_of n (PEEK_BITS n s) = take n (bits_of (bits_left s) (get_buffer s))"
    unfolding PEEK_BITS_def bits_of_unat mask_bits(1) [OF assms(3)] bits_of_drop_low [OF assms(1,2)] ..
  ultimately show ?thesis by (metis bits_val_of)
qed

lemma peek_ahead:
  assumes "bits_ahead w m rest s" "n \<le> bits_left s" "n < 32"
  shows "PEEK_BITS n s = bits_val (take n w)"
  using assms peek_bits [OF assms(2) _ assms(3)] by (auto simp: bits_ahead_def)

lemma drop_bits_of: "n \<le> k \<Longrightarrow> drop n (bits_of k v) = bits_of (k - n) v"
  by (rule nth_equalityI) (auto simp: bits_of_nth)

lemma drop_ahead:
  assumes "bits_ahead w m rest s" "n \<le> bits_left s"
  shows "bits_ahead (drop n w) m rest (DROP_BITS n s)"
proof -
  have u: "upcoming (DROP_BITS n s) = upcoming s" "live (DROP_BITS n s) = live s"
    by (simp_all add: DROP_BITS_def upcoming_def live_def)
  have d: "drop n (bits_of (bits_left s) (get_buffer s) @ x) = bits_of (bits_left s - n) (get_buffer s) @ x" for x
    using assms(2) by (simp add: drop_bits_of)
  show ?thesis
    using assms d [of "[]"] d unfolding bits_ahead_def u by (auto simp: DROP_BITS_def)
qed

lemma steady_drop [simp]: "steady s (DROP_BITS n s)"
  by (simp add: steady_def DROP_BITS_def)

lemma get_ahead:
  assumes "bits_ahead w m rest s" "n \<le> length w" "n \<le> MIN_GET_BITS"
  obtains s' where "ebind (CHECK_BIT_BUFFER n s) (\<lambda>s. case GET_BITS n s of (b, s) \<Rightarrow> f b s) = f (bits_val (take n w)) s'"
    "bits_ahead (drop n w) m rest s'" "steady s s'"
proof -
  from check_ahead [OF assms] obtain t where t: "CHECK_BIT_BUFFER n s = Inr t" "bits_ahead w m rest t" "steady s t" "n \<le> bits_left t"
    by metis
  have "n < 32" using assms(3) by (simp add: MIN_GET_BITS_def)
  with t peek_ahead [OF t(2,4)] drop_ahead [OF t(2,4)] that [of "DROP_BITS n t"] show ?thesis
    by (simp add: GET_BITS_def steady_def DROP_BITS_def)
qed

section \<open>Symbols\<close>

lemma derived_dec_max:
  "derived_dec dtbl htbl hs cs \<Longrightarrow> 1 \<le> l \<Longrightarrow> l \<le> 16 \<Longrightarrow> l \<in> set hs \<Longrightarrow>
   \<exists>q < length hs. hs ! q = l \<and> maxcode dtbl ! l = int (cs ! q) \<and> (\<forall>p < length hs. hs ! p = l \<longrightarrow> p \<le> q)"
  unfolding derived_dec_def by blast

text \<open>Which codes reach which length of the bit-serial search.\<close>

lemma maxcode_below:
  assumes d: "derived_dec dtbl htbl hs cs" and can: "canonical hs cs" and p: "p < length hs"
    and l: "1 \<le> l" "l < hs ! p"
  shows "maxcode dtbl ! l < int (cs ! p div 2 ^ (hs ! p - l))"
proof (cases "l \<in> set hs")
  case False
  moreover have "hs ! p \<le> 16" using can p by (simp add: canonical_def)
  ultimately have "maxcode dtbl ! l = -1" using d l by (simp add: derived_dec_def)
  then show ?thesis by simp
next
  case True
  moreover have "hs ! p \<le> 16" using can p by (simp add: canonical_def)
  ultimately obtain q where q: "q < length hs" "hs ! q = l" "maxcode dtbl ! l = int (cs ! q)"
    using derived_dec_max [OF d, of l] l by auto
  have "q < p"
  proof (rule ccontr)
    assume "\<not> q < p"
    then have "hs ! p \<le> hs ! q" using can q(1) by (auto simp: canonical_def intro: sorted_nth_mono)
    with q(2) l show False by simp
  qed
  from canonical_step [OF can this p] q(2) have "cs ! q + 1 \<le> cs ! p div 2 ^ (hs ! p - l)"
    by (simp add: less_eq_div_iff_mult_less_eq)
  with q(3) show ?thesis by simp
qed

lemma maxcode_at:
  assumes d: "derived_dec dtbl htbl hs cs" and can: "canonical hs cs" and p: "p < length hs"
  shows "int (cs ! p) \<le> maxcode dtbl ! (hs ! p)"
proof -
  have r: "1 \<le> hs ! p" "hs ! p \<le> 16" "hs ! p \<in> set hs" using can p by (simp_all add: canonical_def)
  then obtain q where q: "q < length hs" "hs ! q = hs ! p" "maxcode dtbl ! (hs ! p) = int (cs ! q)" "p \<le> q"
    using derived_dec_max [OF d, of "hs ! p"] p by blast
  with canonical_same [OF can q(4,1)] show ?thesis by simp
qed

lemma push_or_bit: "push_bit 1 c OR of_bool b = 2 * c + (of_bool b :: nat)"
  by (cases b) (simp_all add: or_Suc_0_eq push_bit_eq_mult)

lemma bits_val_take_Suc:
  assumes "l < length xs"
  shows "bits_val (take (Suc l) xs) = push_bit 1 (bits_val (take l xs)) OR bits_val [xs ! l]"
proof -
  have b: "bits_val [xs ! l] = of_bool (xs ! l)" using bits_val_snoc [of "[]" "xs ! l"] by simp
  have "bits_val (take (Suc l) xs) = of_bool (xs ! l) + 2 * bits_val (take l xs)"
    using assms by (simp add: take_Suc_conv_app_nth bits_val_snoc)
  then show ?thesis unfolding b push_or_bit by simp
qed

lemma code_prefix: "l \<le> n \<Longrightarrow> v < 2 ^ n \<Longrightarrow> bits_val (take l (bits_of n v)) = v div 2 ^ (n - l)"
proof -
  assume l: "l \<le> n" and v: "v < 2 ^ n"
  have "v div 2 ^ (n - l) < 2 ^ l" using v l by (simp add: less_mult_imp_div_less flip: power_add)
  then show ?thesis using l by (simp add: bits_of_take take_bit_nat_eq_self)
qed

lemma code_loop_ahead:
  assumes d: "derived_dec dtbl htbl hs cs" and can: "canonical hs cs" and p: "p < length hs"
  shows "bits_ahead (drop l (bits_of (hs ! p) (cs ! p)) @ w) m rest s \<Longrightarrow> 1 \<le> l \<Longrightarrow> l \<le> hs ! p \<Longrightarrow>
    code = cs ! p div 2 ^ (hs ! p - l) \<Longrightarrow>
    \<exists>s'. code_loop dtbl l code s = Inr (hs ! p, cs ! p, s') \<and> bits_ahead w m rest s' \<and> steady s s'"
proof (induction "hs ! p - l" arbitrary: l code s)
  case 0
  then have l: "l = hs ! p" by simp
  have "hs ! p \<le> 16" using can p by (simp add: canonical_def)
  with 0 l maxcode_at [OF assms] show ?case by (subst code_loop.simps) simp
next
  case (Suc x)
  let ?b = "bits_of (hs ! p) (cs ! p)"
  have lt: "l < hs ! p" "hs ! p \<le> 16" using Suc.hyps(2) can p by (simp_all add: canonical_def)
  have c: "cs ! p < 2 ^ (hs ! p)" using canonical_less [OF can p] .
  have ne: "1 \<le> length (drop l ?b @ w)" "1 \<le> MIN_GET_BITS" using lt by (simp_all add: MIN_GET_BITS_def)
  have hd: "take 1 (drop l ?b @ w) = [?b ! l]" "drop 1 (drop l ?b @ w) = drop (Suc l) ?b @ w"
    using lt by (simp_all add: take_Suc hd_drop_conv_nth drop_Suc tl_drop)
  from get_ahead [OF Suc.prems(1) ne, of "\<lambda>b s. code_loop dtbl (l + 1) (push_bit 1 code OR b) s"] obtain t where
    t: "ebind (CHECK_BIT_BUFFER 1 s) (\<lambda>s. case GET_BITS 1 s of (b, s) \<Rightarrow> code_loop dtbl (l + 1) (push_bit 1 code OR b) s) =
      code_loop dtbl (l + 1) (push_bit 1 code OR bits_val [?b ! l]) t"
      "bits_ahead (drop (Suc l) ?b @ w) m rest t" "steady s t" unfolding hd by metis
  have code: "push_bit 1 code OR bits_val [?b ! l] = cs ! p div 2 ^ (hs ! p - Suc l)"
    using bits_val_take_Suc [of l ?b] code_prefix [of l "hs ! p" "cs ! p"] code_prefix [of "Suc l" "hs ! p" "cs ! p"] c lt
      Suc.prems(4) by simp
  have "code_loop dtbl l code s = code_loop dtbl (Suc l) (cs ! p div 2 ^ (hs ! p - Suc l)) t"
    using t(1) maxcode_below [OF d can p Suc.prems(2) lt(1)] lt Suc.prems(4) unfolding code
    by (subst code_loop.simps) simp
  moreover have "x = hs ! p - Suc l" "1 \<le> Suc l" "Suc l \<le> hs ! p" using Suc.hyps(2) lt by simp_all
  from Suc.hyps(1) [OF this(1) t(2) this(2,3) refl] obtain s' where
    "code_loop dtbl (Suc l) (cs ! p div 2 ^ (hs ! p - Suc l)) t = Inr (hs ! p, cs ! p, s')" "bits_ahead w m rest s'" "steady t s'"
    by blast
  ultimately show ?case using t(3) steady_trans by auto
qed

text \<open>The symbol with index \<open>p\<close> in a table, decoded bit by bit and through the lookahead table.\<close>

definition table_pair :: "d_derived_tbl \<Rightarrow> JHUFF_TBL \<Rightarrow> nat list \<Rightarrow> nat list \<Rightarrow> bool" where
  "table_pair dtbl htbl hs cs \<longleftrightarrow> derived_dec dtbl htbl hs cs \<and> canonical hs cs \<and> length hs \<le> 256"

lemma huff_decode_ahead:
  assumes t: "table_pair dtbl htbl hs cs" and p: "p < length hs" and n: "1 \<le> n" "n \<le> hs ! p"
    and a: "bits_ahead (bits_of (hs ! p) (cs ! p) @ w) m rest s"
  obtains s' where "jpeg_huff_decode dtbl n s = Inr (unat (huffval htbl ! p), s')" "bits_ahead w m rest s'" "steady s s'"
proof -
  have d: "derived_dec dtbl htbl hs cs" and can: "canonical hs cs" and len: "length hs \<le> 256"
    using t by (simp_all add: table_pair_def)
  have L: "hs ! p \<le> 16" using can p by (simp add: canonical_def)
  let ?b = "bits_of (hs ! p) (cs ! p)"
  have c: "cs ! p < 2 ^ (hs ! p)" using canonical_less [OF can p] .
  define g where "g code s = ebind (code_loop dtbl n code s) (\<lambda>(l, code, s). if 16 < l then Inr (0, s)
     else let i = int code + valoffset dtbl ! l
       in if i < 0 \<or> 256 \<le> i then Inl BadIndex else Inr (unat (huffval (pub dtbl) ! nat i), s))" for code s
  have len': "n \<le> length (?b @ w)" "n \<le> MIN_GET_BITS" using n L by (simp_all add: MIN_GET_BITS_def)
  have e: "jpeg_huff_decode dtbl n s = ebind (CHECK_BIT_BUFFER n s) (\<lambda>s. case GET_BITS n s of (code, s) \<Rightarrow> g code s)"
    by (simp add: jpeg_huff_decode_def g_def)
  obtain u where u: "jpeg_huff_decode dtbl n s = g (bits_val (take n (?b @ w))) u"
    "bits_ahead (drop n (?b @ w)) m rest u" "steady s u"
    unfolding e by (rule get_ahead [OF a len', of g])
  have code: "bits_val (take n (?b @ w)) = cs ! p div 2 ^ (hs ! p - n)"
    using n c by (simp add: code_prefix)
  have "bits_ahead (drop n ?b @ w) m rest u" using u(2) n by simp
  from code_loop_ahead [OF d can p this n refl] obtain v where
    v: "code_loop dtbl n (cs ! p div 2 ^ (hs ! p - n)) u = Inr (hs ! p, cs ! p, v)" "bits_ahead w m rest v" "steady u v"
    by blast
  have "valoffset dtbl ! (hs ! p) = int p - int (cs ! p)" "pub dtbl = htbl" using d p by (simp_all add: derived_dec_def)
  with v(1) p len L have "g (cs ! p div 2 ^ (hs ! p - n)) u = Inr (unat (huffval htbl ! p), v)" by (simp add: g_def)
  with u(1,3) v(2,3) code show ?thesis by (intro that [of v]) (simp_all add: steady_def)
qed

lemma lookup_short:
  assumes d: "derived_dec dtbl htbl hs cs" and p: "p < length hs" "hs ! p \<le> 8"
    and w: "length w \<ge> 8" "take (hs ! p) w = bits_of (hs ! p) (cs ! p)" and c: "cs ! p < 2 ^ (hs ! p)"
  shows "lookup dtbl ! bits_val (take 8 w) = hs ! p * 256 + unat (huffval htbl ! p)"
proof -
  have lt: "bits_val (take 8 w) < 256" using bits_val_less [of "take 8 w"] w(1) by simp
  have "take 8 w = bits_of (hs ! p) (cs ! p) @ drop (hs ! p) (take 8 w)"
    using append_take_drop_id [of "hs ! p" "take 8 w"] w(2) p(2) by (simp add: min_absorb1)
  then have "bits_val (take 8 w) = cs ! p * 2 ^ (8 - hs ! p) + bits_val (drop (hs ! p) (take 8 w))"
    using bits_val_append [of "bits_of (hs ! p) (cs ! p)" "drop (hs ! p) (take 8 w)"] w(1) c
    by (simp add: take_bit_nat_eq_self)
  moreover have "bits_val (drop (hs ! p) (take 8 w)) < 2 ^ (8 - hs ! p)"
    using bits_val_less [of "drop (hs ! p) (take 8 w)"] w(1) by simp
  ultimately have "bits_val (take 8 w) div 2 ^ (8 - hs ! p) = cs ! p" by simp
  with d p lt show ?thesis unfolding derived_dec_def by blast
qed

lemma lookup_long:
  assumes d: "derived_dec dtbl htbl hs cs" and can: "canonical hs cs" and p: "p < length hs" "8 < hs ! p"
    and w: "take 8 w = take 8 (bits_of (hs ! p) (cs ! p))"
  shows "lookup dtbl ! bits_val (take 8 w) = 9 * 256"
proof -
  have c: "cs ! p < 2 ^ (hs ! p)" using canonical_less [OF can p(1)] .
  have v: "bits_val (take 8 w) = cs ! p div 2 ^ (hs ! p - 8)" unfolding w using p c by (simp add: code_prefix)
  have lt: "bits_val (take 8 w) < 256" using bits_val_less [of "take 8 w"] w p(2) by simp
  have "bits_val (take 8 w) div 2 ^ (8 - hs ! q) \<noteq> cs ! q" if q: "q < length hs" "hs ! q \<le> 8" for q
  proof
    assume "bits_val (take 8 w) div 2 ^ (8 - hs ! q) = cs ! q"
    then have "cs ! p div 2 ^ (hs ! p - hs ! q) = cs ! q"
      unfolding v using q(2) p(2) by (simp flip: div_mult2_eq power_add)
    from canonical_prefix [OF can q(1) p(1) _ this] q(2) p(2) show False by simp
  qed
  with d lt show ?thesis unfolding derived_dec_def by blast
qed

lemma ahead_length: "bits_ahead w m rest s \<Longrightarrow> bits_left s \<le> length w"
  by (auto simp: bits_ahead_def)

lemma HUFF_DECODE_ahead:
  assumes t: "table_pair dtbl htbl hs cs" and p: "p < length hs"
    and a: "bits_ahead (bits_of (hs ! p) (cs ! p) @ w) m rest s"
  obtains s' where "HUFF_DECODE dtbl s = Inr (unat (huffval htbl ! p), s')" "bits_ahead w m rest s'" "steady s s'"
proof -
  have d: "derived_dec dtbl htbl hs cs" and can: "canonical hs cs" using t by (simp_all add: table_pair_def)
  have L: "1 \<le> hs ! p" "hs ! p \<le> 16" using can p by (simp_all add: canonical_def)
  have c: "cs ! p < 2 ^ (hs ! p)" using canonical_less [OF can p] .
  let ?b = "bits_of (hs ! p) (cs ! p)"
  define f where "f s = (if bits_left s < 8 then jpeg_huff_decode dtbl 1 s else
       let look = PEEK_BITS 8 s; nb = drop_bit 8 (lookup dtbl ! look)
       in if nb \<le> 8 then Inr ((lookup dtbl ! look) AND (push_bit 8 1 - 1), DROP_BITS nb s) else jpeg_huff_decode dtbl nb s)" for s
  have e: "HUFF_DECODE dtbl s = ebind (if bits_left s < 8 then jpeg_fill_bit_buffer 0 s else Inr s) f"
    unfolding HUFF_DECODE_def HUFF_LOOKAHEAD_def f_def ..
  obtain u where u: "HUFF_DECODE dtbl s = f u" "bits_ahead (?b @ w) m rest u" "steady s u"
    "8 \<le> bits_left u \<or> bits_left u = length (?b @ w)"
  proof (cases "bits_left s < 8")
    case True
    from fill_ahead [OF a, of 0] obtain u where "jpeg_fill_bit_buffer 0 s = Inr u" "bits_ahead (?b @ w) m rest u" "steady s u"
      "MIN_GET_BITS \<le> bits_left u \<or> bits_left u = length (?b @ w)" by auto
    with True show thesis by (intro that [of u]) (auto simp: e MIN_GET_BITS_def)
  next
    case False
    with a show thesis by (intro that [of s]) (auto simp: e)
  qed
  show ?thesis
  proof (cases "bits_left u < 8")
    case True
    from huff_decode_ahead [OF t p _ L(1) u(2)] True u(1,3) show ?thesis
      by (metis (no_types, lifting) f_def order_refl steady_trans that)
  next
    case False
    have w8: "8 \<le> length (?b @ w)" using ahead_length [OF u(2)] False by simp
    have look: "PEEK_BITS 8 u = bits_val (take 8 (?b @ w))" using peek_ahead [OF u(2)] False by simp
    show ?thesis
    proof (cases "hs ! p \<le> 8")
      case True
      have lk: "lookup dtbl ! PEEK_BITS 8 u = hs ! p * 256 + unat (huffval htbl ! p)"
        unfolding look by (rule lookup_short [OF d p True w8 _ c]) simp
      have v: "unat (huffval htbl ! p) < 256" using unsigned_less [of "huffval htbl ! p"] by simp
      have "drop_bit 8 (hs ! p * 256 + unat (huffval htbl ! p)) = hs ! p"
        using v by (simp add: drop_bit_eq_div)
      moreover have "(hs ! p * 256 + unat (huffval htbl ! p)) AND (push_bit 8 1 - 1) = unat (huffval htbl ! p)"
        using v take_bit_eq_mask [of 8 "hs ! p * 256 + unat (huffval htbl ! p)"]
        by (simp add: mask_eq_exp_minus_1 take_bit_eq_mod push_bit_eq_mult)
      ultimately have "f u = Inr (unat (huffval htbl ! p), DROP_BITS (hs ! p) u)"
        using False True lk by (simp add: f_def)
      moreover have "bits_ahead w m rest (DROP_BITS (hs ! p) u)"
        using drop_ahead [OF u(2), of "hs ! p"] True False by simp
      ultimately show ?thesis using u(1,3) by (intro that [of "DROP_BITS (hs ! p) u"]) (simp_all add: steady_def DROP_BITS_def)
    next
      case long: False
      have "lookup dtbl ! PEEK_BITS 8 u = 9 * 256"
        unfolding look by (rule lookup_long [OF d can p]) (use long in simp_all)
      then have "f u = jpeg_huff_decode dtbl 9 u" using False by (simp add: f_def drop_bit_eq_div)
      moreover have "(1::nat) \<le> 9" "9 \<le> hs ! p" using long by simp_all
      ultimately show ?thesis
        using huff_decode_ahead [OF t p _ _ u(2), of 9] u(1,3) steady_trans that by metis
    qed
  qed
qed

section \<open>Values\<close>

lemma bits_val_int: "bits_val (bits_of n (x::int)) = nat (take_bit n x)"
proof -
  have "bits_of n x = bits_of n (nat (take_bit n x))"
    by (auto simp: bits_of_eq_iff bit_nat_iff bit_take_bit_iff)
  then have "bits_val (bits_of n x) = take_bit n (nat (take_bit n x))" by simp
  also have "\<dots> = nat (take_bit n x)"
    by (rule take_bit_nat_eq_self) (simp add: nat_less_iff)
  finally show ?thesis .
qed

lemma drop31_nonneg: "0 \<le> x \<Longrightarrow> x < 2 ^ 31 \<Longrightarrow> drop_bit 31 (x::int) = 0"
  by (simp add: drop_bit_eq_div)

lemma drop31_neg:
  assumes "x < 0" "- (2 ^ 31) \<le> (x::int)"
  shows "drop_bit 31 x = -1"
proof -
  have "(x + 2 ^ 31) div 2 ^ 31 = 0" using assms by (intro div_pos_pos_trivial) simp_all
  then show ?thesis by (simp add: drop_bit_eq_div)
qed

lemma magnitude_bounds: "v \<noteq> 0 \<Longrightarrow> 1 \<le> magnitude v \<and> 2 ^ (magnitude v - 1) \<le> \<bar>v\<bar> \<and> \<bar>v\<bar> < 2 ^ magnitude v"
proof -
  assume "v \<noteq> 0"
  then have p: "0 < nat \<bar>v\<bar>" by simp
  from bitlen_bounds [OF p] have "2 ^ (magnitude v - 1) \<le> nat \<bar>v\<bar>" "nat \<bar>v\<bar> < 2 ^ magnitude v"
    by (simp_all add: magnitude_def)
  then have "int (2 ^ (magnitude v - 1)) \<le> \<bar>v\<bar>" "\<bar>v\<bar> < int (2 ^ magnitude v)" by linarith+
  moreover have "1 \<le> magnitude v" using p by (simp add: magnitude_def bitlen_pos)
  ultimately show ?thesis by simp
qed

lemma HUFF_EXTEND_extra:
  assumes "v \<noteq> 0" "\<bar>v\<bar> < 2 ^ 16"
  shows "HUFF_EXTEND (int (bits_val (extra_bits v))) (magnitude v) = v"
proof -
  define n where "n = magnitude v"
  have n: "1 \<le> n" "2 ^ (n - 1) \<le> \<bar>v\<bar>" "\<bar>v\<bar> < 2 ^ n" using magnitude_bounds [OF assms(1)] by (simp_all add: n_def)
  have "n \<le> 16" using assms(2) magnitude_le [of v 16] by (simp add: n_def)
  then have le: "(2::int) ^ n \<le> 2 ^ 16" by (intro power_increasing) simp_all
  have s: "(2::int) ^ n = 2 * 2 ^ (n - 1)" using n(1) by (cases n) simp_all
  define x where "x = take_bit n (if v < 0 then v - 1 else v)"
  have x: "int (bits_val (extra_bits v)) = x" by (simp add: extra_bits_def bits_val_int x_def n_def)
  have e: "HUFF_EXTEND x n = x + (drop_bit 31 (x - 2 ^ (n - 1)) AND (- (2 ^ n) + 1))"
    by (simp add: HUFF_EXTEND_def push_bit_eq_mult)
  show ?thesis
  proof (cases "v < 0")
    case True
    have "take_bit n (v - 1) = take_bit n (v - 1 + 2 ^ n)" by (simp add: take_bit_eq_mod)
    also have "\<dots> = v - 1 + 2 ^ n" using True n by (intro take_bit_int_eq_self) simp_all
    finally have "x = v - 1 + 2 ^ n" using True by (simp add: x_def)
    moreover from this have "drop_bit 31 (x - 2 ^ (n - 1)) = -1"
      using True n s le by (intro drop31_neg) simp_all
    ultimately show ?thesis using x e by (simp add: n_def)
  next
    case False
    have "x = v" using False n by (simp add: x_def take_bit_int_eq_self)
    moreover have "0 < (2::int) ^ (n - 1)" by simp
    then have "x - 2 ^ (n - 1) < 65536" using n(3) le [simplified] calculation by linarith
    then have "x - 2 ^ (n - 1) < 2 ^ 31" by simp
    with calculation have "drop_bit 31 (x - 2 ^ (n - 1)) = 0"
      using False n by (intro drop31_nonneg) simp_all
    ultimately show ?thesis using x e by (simp add: n_def)
  qed
qed

lemma length_extra_bits [simp]: "length (extra_bits v) = magnitude v"
  by (simp add: extra_bits_def)

lemma receive_extend_ahead:
  assumes "bits_ahead (extra_bits v @ w) m rest s" "v \<noteq> 0" "\<bar>v\<bar> < 2 ^ 16"
  obtains s' where "receive_extend (magnitude v) s = Inr (v, s')" "bits_ahead w m rest s'" "steady s s'"
proof -
  have "magnitude v \<le> 16" using assms(3) magnitude_le by blast
  then have le: "magnitude v \<le> length (extra_bits v @ w)" "magnitude v \<le> MIN_GET_BITS"
    by (simp_all add: MIN_GET_BITS_def)
  obtain t where "receive_extend (magnitude v) s = Inr (HUFF_EXTEND (int (bits_val (take (magnitude v) (extra_bits v @ w)))) (magnitude v), t)"
    "bits_ahead (drop (magnitude v) (extra_bits v @ w)) m rest t" "steady s t"
    unfolding receive_extend_def
    by (rule get_ahead [OF assms(1) le, of "\<lambda>r br. Inr (HUFF_EXTEND (int r) (magnitude v), br)"])
  then show ?thesis using that HUFF_EXTEND_extra [OF assms(2,3)] by simp
qed

section \<open>The tables of the two sides\<close>

text \<open>An encoder table and a decoder table made from the same Huffman table.\<close>

definition paired :: "c_derived_tbl \<Rightarrow> d_derived_tbl \<Rightarrow> bool" where
  "paired c d \<longleftrightarrow> (\<exists>htbl hs cs. derived_enc c htbl hs cs \<and> table_pair d htbl hs cs)"

lemma decode_symbol:
  assumes "paired c d" "coded c i" "bits_ahead (code_bits c i @ w) m rest s"
  obtains s' where "HUFF_DECODE d s = Inr (i, s')" "bits_ahead w m rest s'" "steady s s'"
proof -
  from assms(1) obtain htbl hs cs where e: "derived_enc c htbl hs cs" and t: "table_pair d htbl hs cs"
    by (auto simp: paired_def)
  from e assms(2) obtain p where p: "p < length hs" "unat (huffval htbl ! p) = i"
    unfolding derived_enc_def coded_def by (metis not_one_le_zero)
  with e have "code_bits c i = bits_of (hs ! p) (cs ! p)" by (auto simp: derived_enc_def code_bits_def)
  with HUFF_DECODE_ahead [OF t p(1), of w m rest s] assms(3) p(2) that show ?thesis by metis
qed

section \<open>The AC coefficients\<close>

text \<open>Storing the non-zero values \<open>vs\<close> at the zigzag positions from \<open>j\<close> on.\<close>

fun place :: "nat \<Rightarrow> int list \<Rightarrow> int list \<Rightarrow> int list" where
  "place j [] block = block"
| "place j (v # vs) block = place (Suc j) vs (if v = 0 then block else block[jpeg_natural_order ! j := v])"

lemma and_15: "n AND 15 = (n::nat) mod 16"
  using take_bit_eq_mask [of 4 n] by (simp add: mask_eq_exp_minus_1 take_bit_eq_mod)

lemma drop_4: "drop_bit 4 n = (n::nat) div 16"
  by (simp add: drop_bit_eq_div)

text \<open>
  What decoding a block needs of the macros: \<open>ahead x s\<close> says that \<open>x\<close> are the next bits of the data in
  state \<open>s\<close>. The slow and the fast macros both provide it.
\<close>

locale bit_source =
  fixes bm :: bit_macros and ahead :: "bool list \<Rightarrow> bitread \<Rightarrow> bool"
  assumes symbol_ahead: "paired c d \<Longrightarrow> coded c i \<Longrightarrow> ahead (code_bits c i @ x) s \<Longrightarrow>
      \<exists>s'. get_symbol bm d s = Inr (i, s') \<and> ahead x s' \<and> steady s s'"
    and value_ahead: "ahead (extra_bits v @ x) s \<Longrightarrow> v \<noteq> 0 \<Longrightarrow> \<bar>v\<bar> < 2 ^ 16 \<Longrightarrow>
      \<exists>s'. get_value bm (magnitude v) s = Inr (v, s') \<and> ahead x s' \<and> steady s s'"
begin

lemma decode_dc_ahead:
  assumes "paired c d" "coded c (magnitude v)" "\<bar>v\<bar> < 2 ^ 16"
    and "ahead (symbol_bits c [(magnitude v, extra_bits v)] @ w) s"
  obtains s' where "decode_dc bm d s = Inr (v, s')" "ahead w s'" "steady s s'"
proof -
  have a: "ahead (code_bits c (magnitude v) @ extra_bits v @ w) s" using assms(4) by simp
  from symbol_ahead [OF assms(1,2) a] obtain t where t: "get_symbol bm d s = Inr (magnitude v, t)"
    "ahead (extra_bits v @ w) t" "steady s t" by metis
  show ?thesis
  proof (cases "v = 0")
    case True
    with t that [of t] show ?thesis by (simp add: decode_dc_def magnitude_def extra_bits_def)
  next
    case False
    from value_ahead [OF t(2) False assms(3)] obtain u where
      u: "get_value bm (magnitude v) t = Inr (v, u)" "ahead w u" "steady t u" by metis
    have "magnitude v \<noteq> 0" using magnitude_bounds [OF False] by simp
    with t u that [of u] show ?thesis by (simp add: decode_dc_def steady_def)
  qed
qed

lemma decode_ac_zrl:
  assumes "paired c d"
  shows "ahead (symbol_bits c (replicate q (0xF0, [])) @ w) s \<Longrightarrow> (q \<noteq> 0 \<longrightarrow> coded c 0xF0) \<Longrightarrow> k + 16 * q \<le> 64 \<Longrightarrow>
    \<exists>s'. decode_ac bm d k block s = decode_ac bm d (k + 16 * q) block s' \<and> ahead w s' \<and> steady s s'"
proof (induction q arbitrary: k s)
  case 0
  then show ?case by (intro exI [of _ s]) simp
next
  case (Suc q)
  have "ahead (code_bits c 0xF0 @ symbol_bits c (replicate q (0xF0, [])) @ w) s" using Suc.prems(1) by simp
  from symbol_ahead [OF assms _ this] Suc.prems(2) obtain t where t: "get_symbol bm d s = Inr (0xF0, t)"
    "ahead (symbol_bits c (replicate q (0xF0, [])) @ w) t" "steady s t" by auto
  have "decode_ac bm d k block s = decode_ac bm d (k + 16) block t"
    using Suc.prems(3) t(1) by (subst decode_ac.simps) (simp add: DCTSIZE2_def and_15 drop_4 add.commute [of 16])
  moreover from Suc.IH [OF t(2), of "k + 16"] Suc.prems obtain u where
    "decode_ac bm d (k + 16) block t = decode_ac bm d (k + 16 + 16 * q) block u" "ahead w u" "steady t u" by auto
  ultimately show ?case using t(3) by (intro exI [of _ u]) (simp add: steady_def add.assoc)
qed

lemma decode_ac_value:
  assumes p: "paired c d" and v: "v \<noteq> 0" "\<bar>v\<bar> < 2 ^ 15" and r: "r < 16" and cd: "coded c (16 * r + magnitude v)"
    and a: "ahead (symbol_bits c [(16 * r + magnitude v, extra_bits v)] @ w) s" and k: "k + r < 64"
  obtains s' where "decode_ac bm d k block s = decode_ac bm d (Suc (k + r)) (block[jpeg_natural_order ! (k + r) := v]) s'"
    "ahead w s'" "steady s s'"
proof -
  let ?i = "16 * r + magnitude v"
  have n: "magnitude v \<le> 15" "1 \<le> magnitude v" using v magnitude_le [of v 15] magnitude_bounds [OF v(1)] by simp_all
  have v16: "\<bar>v\<bar> < 2 ^ 16" using v(2) by simp
  have "ahead (code_bits c ?i @ extra_bits v @ w) s" using a by simp
  from symbol_ahead [OF p cd this] obtain t where t: "get_symbol bm d s = Inr (?i, t)"
    "ahead (extra_bits v @ w) t" "steady s t" by metis
  from value_ahead [OF t(2) v(1) v16] obtain u where
    u: "get_value bm (magnitude v) t = Inr (v, u)" "ahead w u" "steady t u" by metis
  have i: "?i div 16 = r" "?i mod 16 = magnitude v" using n by simp_all
  have j: "as_JCOEF v = v" unfolding as_JCOEF_def using v(2) by (intro signed_take_bit_int_eq_self) simp_all
  have len: "length jpeg_natural_order = 80" by (simp add: jpeg_natural_order_def)
  have "decode_ac bm d k block s = decode_ac bm d (Suc (k + r)) (block[jpeg_natural_order ! (k + r) := v]) u"
    using k t(1) u(1) n
    by (subst decode_ac.simps) (simp add: DCTSIZE2_def and_15 drop_4 i j len)
  with u t that show ?thesis by (simp add: steady_def)
qed

lemma decode_ac_ahead:
  assumes p: "paired c d"
  shows "ahead (symbol_bits c (ac_symbols r vs) @ w) s \<Longrightarrow> ac_codable c r vs \<Longrightarrow> k + r + length vs = 64 \<Longrightarrow>
    \<exists>s'. decode_ac bm d k block s = Inr (place (k + r) vs block, s') \<and> ahead w s' \<and> steady s s'"
proof (induction vs arbitrary: r k block s)
  case Nil
  show ?case
  proof (cases "r = 0")
    case True
    then have "decode_ac bm d k block s = Inr (block, s)" using Nil.prems(3) by (subst decode_ac.simps) (simp add: DCTSIZE2_def)
    with Nil.prems True show ?thesis by (intro exI [of _ s]) simp
  next
    case False
    then have "coded c 0" "ahead (code_bits c 0 @ w) s" using Nil.prems by (auto simp: ac_codable_def)
    from symbol_ahead [OF p this] obtain t where t: "get_symbol bm d s = Inr (0, t)" "ahead w t" "steady s t" by metis
    have "decode_ac bm d k block s = Inr (block, t)"
      using t(1) False Nil.prems(3) by (subst decode_ac.simps) (simp add: DCTSIZE2_def)
    with t show ?thesis by (intro exI [of _ t]) simp
  qed
next
  case (Cons v vs)
  show ?case
  proof (cases "v = 0")
    case True
    with Cons.IH [of "Suc r" s k block] Cons.prems show ?thesis by (simp add: ac_codable_def)
  next
    case False
    let ?q = "r div 16" and ?r = "r mod 16"
    let ?rest = "symbol_bits c (ac_symbols 0 vs) @ w"
    have a: "ahead (symbol_bits c (replicate ?q (0xF0, [])) @ symbol_bits c [(16 * ?r + magnitude v, extra_bits v)] @ ?rest) s"
      using Cons.prems(1) False by simp
    have cod: "?q \<noteq> 0 \<longrightarrow> coded c 0xF0" "coded c (16 * ?r + magnitude v)" "\<bar>v\<bar> < 2 ^ 15" "ac_codable c 0 vs"
      using Cons.prems(2) False by (auto simp: ac_codable_def)
    have kr: "k + 16 * ?q + ?r = k + r" using div_mult_mod_eq [of r 16] by simp
    then have "k + 16 * ?q \<le> 64" "k + 16 * ?q + ?r < 64" using Cons.prems(3) by simp_all
    from decode_ac_zrl [OF p a cod(1) this(1)] obtain t where
      t: "decode_ac bm d k block s = decode_ac bm d (k + 16 * ?q) block t"
        "ahead (symbol_bits c [(16 * ?r + magnitude v, extra_bits v)] @ ?rest) t" "steady s t" by blast
    from decode_ac_value [OF p False cod(3) _ cod(2) t(2) \<open>k + 16 * ?q + ?r < 64\<close>] obtain u where
      u: "decode_ac bm d (k + 16 * ?q) block t = decode_ac bm d (Suc (k + r)) (block[jpeg_natural_order ! (k + r) := v]) u"
        "ahead ?rest u" "steady t u" unfolding kr by auto
    from Cons.IH [OF u(2) cod(4), of "Suc (k + r)"] Cons.prems(3) obtain x where
      "decode_ac bm d (Suc (k + r)) (block[jpeg_natural_order ! (k + r) := v]) u =
         Inr (place (Suc (k + r)) vs (block[jpeg_natural_order ! (k + r) := v]), x)" "ahead w x" "steady u x" by auto
    with t u False show ?thesis by (intro exI [of _ x]) (simp add: steady_def)
  qed
qed

end

text \<open>The slow macros provide it.\<close>

interpretation slow: bit_source slow_macros "\<lambda>x. bits_ahead (x @ y) m rest" for y m rest
proof
  fix c d i x s
  assume "paired c d" "coded c i" "bits_ahead ((code_bits c i @ x) @ y) m rest s"
  then have "bits_ahead (code_bits c i @ x @ y) m rest s" by simp
  from decode_symbol [OF \<open>paired c d\<close> \<open>coded c i\<close> this]
  show "\<exists>s'. get_symbol slow_macros d s = Inr (i, s') \<and> bits_ahead (x @ y) m rest s' \<and> steady s s'"
    unfolding slow_macros_def bit_macros.simps by metis
next
  fix v :: int and x s
  assume v: "v \<noteq> 0" "\<bar>v\<bar> < 2 ^ 16" and "bits_ahead ((extra_bits v @ x) @ y) m rest s"
  then have "bits_ahead (extra_bits v @ x @ y) m rest s" by simp
  from receive_extend_ahead [OF this v]
  show "\<exists>s'. get_value slow_macros (magnitude v) s = Inr (v, s') \<and> bits_ahead (x @ y) m rest s' \<and> steady s s'"
    unfolding slow_macros_def bit_macros.simps by metis
qed

text \<open>Placing the zigzag values of a block into a zeroed block gives the block.\<close>

lemma length_place [simp]: "length (place j vs block) = length block"
  by (induction j vs block rule: place.induct) simp_all

lemma place_nth:
  "j + length vs \<le> 64 \<Longrightarrow> length block = 64 \<Longrightarrow> k < 64 \<Longrightarrow>
   place j vs block ! (jpeg_natural_order ! k) =
     (if j \<le> k \<and> k < j + length vs \<and> vs ! (k - j) \<noteq> 0 then vs ! (k - j) else block ! (jpeg_natural_order ! k))"
proof (induction j vs block rule: place.induct)
  case (2 j v vs block)
  have lt: "jpeg_natural_order ! k < 64" using "2.prems"(3) by (intro natural_order_less) simp
  have up: "(block[jpeg_natural_order ! j := v]) ! (jpeg_natural_order ! k) =
     (if k = j then v else block ! (jpeg_natural_order ! k))"
  proof (cases "k = j")
    case False
    then have "jpeg_natural_order ! j \<noteq> jpeg_natural_order ! k" using natural_order_inj [of j k] "2.prems" by auto
    with False show ?thesis by simp
  qed (use lt "2.prems" in simp)
  have "place j (v # vs) block ! (jpeg_natural_order ! k) =
     (if Suc j \<le> k \<and> k < Suc j + length vs \<and> vs ! (k - Suc j) \<noteq> 0 then vs ! (k - Suc j)
      else (if v = 0 then block else block[jpeg_natural_order ! j := v]) ! (jpeg_natural_order ! k))"
    using "2.IH" "2.prems" by simp
  moreover have "(v # vs) ! (k - j) = vs ! (k - Suc j)" if "Suc j \<le> k" using that by (simp add: nth_Cons')
  moreover have "k = j \<or> k < j \<or> Suc j \<le> k" by arith
  ultimately show ?case using up by (auto simp: Suc_le_eq)
qed simp

lemma zigzag_ac_nth: "k < 63 \<Longrightarrow> zigzag_ac ! k = jpeg_natural_order ! Suc k"
  by (simp add: zigzag_ac_def nth_tl)

lemma length_zigzag_ac [simp]: "length zigzag_ac = 63"
  by (simp add: zigzag_ac_def)

lemma place_block:
  assumes "length block = 64"
  shows "place 1 (map ((!) block) zigzag_ac) ((replicate 64 0)[0 := block ! 0]) = block"
proof (rule nth_equalityI)
  fix i assume "i < length (place 1 (map ((!) block) zigzag_ac) ((replicate 64 0)[0 := block ! 0]))"
  then have i: "i < 64" by simp
  then obtain k where k: "k < 64" "jpeg_natural_order ! k = i" using natural_order_surj by blast
  have "place 1 (map ((!) block) zigzag_ac) ((replicate 64 0)[0 := block ! 0]) ! (jpeg_natural_order ! k) = block ! i"
  proof (cases "k = 0")
    case True
    with k show ?thesis by (subst place_nth) simp_all
  next
    case False
    then have "i \<noteq> 0" using k natural_order_inj [of k 0] by auto
    with False k i show ?thesis
      by (subst place_nth) (simp_all add: zigzag_ac_nth)
  qed
  then show "place 1 (map ((!) block) zigzag_ac) ((replicate 64 0)[0 := block ! 0]) ! i = block ! i" by (simp add: k(2))
qed (simp add: assms)

end
