(* ===== verification/HuffFast.thy ===== *)
theory HuffFast imports HuffRead begin

text \<open>
  The fast path of the decoder, \<open>decode_mcu_fast\<close>, reads the same values as the slow one while the
  source's buffer holds enough bytes.
\<close>

section \<open>The bits ahead\<close>

text \<open>
  \<open>w\<close> are the bits still to come before the marker. Once the marker has been met, they are all in the bit
  buffer, followed by zero bits, and the pointer stays at the marker. \<open>n\<close> bits are still wanted; the buffer
  has enough bytes for them even if every one is an \<open>FF\<close> with its stuffed zero.
\<close>

definition fast_ahead :: "nat \<Rightarrow> bool list \<Rightarrow> u8 \<Rightarrow> u8 list \<Rightarrow> bitread \<Rightarrow> bool" where
  "fast_ahead n w m rest s \<longleftrightarrow> live s \<and> bits_left s \<le> 32 \<and> m \<noteq> 0 \<and> m \<noteq> 0xFF \<and>
     (unread_marker s = 0 \<and> n + 31 \<le> 4 * length (input s) + bits_left s \<and>
        (\<exists>bs. upcoming s = stuff bs @ 0xFF # m # rest \<and> w = bits_of (bits_left s) (get_buffer s) @ byte_bits bs) \<or>
      unread_marker s \<noteq> 0 \<and> (\<exists>z cs. input s = 0xFF # m # cs \<and> bits_of (bits_left s) (get_buffer s) = w @ replicate z False))"

lemma get_byte_input [simp]: "live (s\<lparr>input := i\<rparr>) = live s" "bits_left (s\<lparr>input := i\<rparr>) = bits_left s" for s :: bitread
  by (simp_all add: live_def)

lemma clear_low: "n + 8 \<le> 32 \<Longrightarrow> bits_of (n + 8) ((push_bit 8 g OR 0xFF) AND NOT 0xFF :: u32) = bits_of n g @ replicate 8 False"
proof -
  assume n: "n + 8 \<le> 32"
  have "(push_bit 8 g OR 0xFF) AND NOT 0xFF = push_bit 8 g OR ucast (0 :: u8)"
  proof (rule bit_word_eqI)
    fix i assume "i < LENGTH(32)"
    then have "bit (0xFF :: u32) i \<longleftrightarrow> i < 8" using bit_mask_iff [of 8 i, where 'a = u32] by (simp add: mask_eq_exp_minus_1)
    with \<open>i < LENGTH(32)\<close> show "bit ((push_bit 8 g OR 0xFF) AND NOT 0xFF) i = bit (push_bit 8 g OR ucast (0 :: u8)) i"
      by (auto simp: bit_simps)
  qed
  moreover have "bits_of 8 (0 :: u8) = replicate 8 False" by (rule nth_equalityI) (simp_all add: bits_of_nth)
  ultimately show ?thesis using load_bits [OF n, of g 0] by simp
qed

lemma get_byte_fast:
  assumes "fast_ahead n w m rest s" "1 \<le> n" "bits_left s \<le> 24"
  shows "\<exists>s'. GET_BYTE s = Inr s' \<and> fast_ahead n w m rest s' \<and> bits_left s' = bits_left s + 8 \<and> steady s s'"
proof -
  have l8: "bits_left s + 8 \<le> 32" using assms(3) by simp
  note L = load_bits [OF l8, of "get_buffer s"] and Z = clear_low [OF l8, of "get_buffer s"]
  have m: "live s" "m \<noteq> 0" "m \<noteq> 0xFF" using assms(1) by (simp_all add: fast_ahead_def)
  show ?thesis
  proof (cases "unread_marker s = 0")
    case False
    then obtain z cs where z: "input s = 0xFF # m # cs" "bits_of (bits_left s) (get_buffer s) = w @ replicate z False"
      using assms(1) by (auto simp: fast_ahead_def)
    let ?s' = "(load_byte 0xFF s)\<lparr>unread_marker := unat m, get_buffer := get_buffer (load_byte 0xFF s) AND NOT 0xFF\<rparr>"
    have "GET_BYTE s = Inr ?s'" using z(1) m(2) by (simp add: GET_BYTE_def Let_def)
    moreover have "fast_ahead n w m rest ?s'"
      using m l8 z Z by (auto simp: fast_ahead_def load_byte_def live_def unsigned_eq_0_iff replicate_add [symmetric] intro!: exI [of _ "z + 8"])
    ultimately show ?thesis by (auto simp: steady_def load_byte_def)
  next
    case True
    then obtain bs where bs: "upcoming s = stuff bs @ 0xFF # m # rest" "w = bits_of (bits_left s) (get_buffer s) @ byte_bits bs"
      and room: "n + 31 \<le> 4 * length (input s) + bits_left s" using assms(1) by (auto simp: fast_ahead_def)
    have "2 \<le> length (input s)" using room assms(2,3) by auto
    then obtain c0 c1 cs where c: "input s = c0 # c1 # cs" by (cases "input s" rule: list.exhaust [case_product list.exhaust]) (auto simp: Suc_le_length_iff)
    have u: "c0 # c1 # cs @ concat (fills s) = stuff bs @ 0xFF # m # rest" using bs(1) c by (simp add: upcoming_def)
    show ?thesis
    proof (cases bs)
      case Nil
      let ?s' = "(load_byte 0xFF s)\<lparr>unread_marker := unat m, get_buffer := get_buffer (load_byte 0xFF s) AND NOT 0xFF\<rparr>"
      have "c0 = 0xFF" "c1 = m" using u Nil by simp_all
      then have "GET_BYTE s = Inr ?s'" using c m(2) by (simp add: GET_BYTE_def Let_def)
      moreover have "fast_ahead n w m rest ?s'"
        using m l8 c Z bs(2) Nil \<open>c0 = 0xFF\<close> \<open>c1 = m\<close>
        by (auto simp: fast_ahead_def load_byte_def live_def unsigned_eq_0_iff intro!: exI [of _ 8])
      ultimately show ?thesis by (auto simp: steady_def load_byte_def)
    next
      case (Cons b bs')
      have w: "w = bits_of (bits_left s + 8) (push_bit 8 (get_buffer s) OR ucast b) @ byte_bits bs'"
        using bs(2) L [of b] Cons by simp
      show ?thesis
      proof (cases "b = 0xFF")
        case True
        let ?s' = "(load_byte 0xFF s)\<lparr>input := cs\<rparr>"
        have e: "c0 = 0xFF" "c1 = 0" "cs @ concat (fills s) = stuff bs' @ 0xFF # m # rest" using u Cons True by (simp_all add: stuff_Cons)
        then have "GET_BYTE s = Inr ?s'" using c by (simp add: GET_BYTE_def Let_def)
        moreover have "fast_ahead n w m rest ?s'"
          using m l8 c w e room \<open>unread_marker s = 0\<close> True
          by (auto simp: fast_ahead_def load_byte_def live_def upcoming_def)
        ultimately show ?thesis by (auto simp: steady_def load_byte_def)
      next
        case False
        let ?s' = "(load_byte b s)\<lparr>input := c1 # cs\<rparr>"
        have e: "c0 = b" "c1 # cs @ concat (fills s) = stuff bs' @ 0xFF # m # rest" using u Cons False by (simp_all add: stuff_Cons)
        then have "GET_BYTE s = Inr ?s'" using c False by (simp add: GET_BYTE_def Let_def)
        moreover have "fast_ahead n w m rest ?s'"
          using m l8 c w e room \<open>unread_marker s = 0\<close>
          by (auto simp: fast_ahead_def load_byte_def live_def upcoming_def)
        ultimately show ?thesis by (auto simp: steady_def load_byte_def)
      qed
    qed
  qed
qed

lemma fill_fast:
  assumes "fast_ahead n w m rest s" "1 \<le> n"
  obtains s' where "FILL_BIT_BUFFER_FAST s = Inr s'" "fast_ahead n w m rest s'" "16 \<le> bits_left s'" "steady s s'"
proof (cases "bits_left s < 16")
  case True
  from get_byte_fast [OF assms] True obtain t where t: "GET_BYTE s = Inr t" "fast_ahead n w m rest t" "bits_left t = bits_left s + 8" "steady s t"
    by auto
  from get_byte_fast [OF t(2) assms(2)] t(3) True obtain u where "GET_BYTE t = Inr u" "fast_ahead n w m rest u" "bits_left u = bits_left s + 16" "steady t u"
    by auto
  with True t show ?thesis by (intro that [of u]) (auto simp: FILL_BIT_BUFFER_FAST_def steady_def)
next
  case False
  with assms show ?thesis by (intro that [of s]) (simp_all add: FILL_BIT_BUFFER_FAST_def)
qed

text \<open>The wanted bits are at the front of the bit buffer.\<close>

lemma fast_front:
  assumes "fast_ahead n w m rest s" "k \<le> bits_left s" "k \<le> length w"
  shows "take k (bits_of (bits_left s) (get_buffer s)) = take k w"
  using assms by (auto simp: fast_ahead_def)

lemma fast_drop:
  assumes "fast_ahead n w m rest s" "k \<le> bits_left s" "k \<le> length w" "k \<le> n"
  shows "fast_ahead (n - k) (drop k w) m rest (DROP_BITS k s)"
proof -
  have u: "upcoming (DROP_BITS k s) = upcoming s" "live (DROP_BITS k s) = live s" "input (DROP_BITS k s) = input s"
    "unread_marker (DROP_BITS k s) = unread_marker s" "get_buffer (DROP_BITS k s) = get_buffer s" "bits_left (DROP_BITS k s) = bits_left s - k"
    by (simp_all add: DROP_BITS_def upcoming_def live_def)
  have d: "drop k (bits_of (bits_left s) (get_buffer s)) = bits_of (bits_left s - k) (get_buffer s)" using assms(2) by (simp add: drop_bits_of)
  have z: "bits_of (bits_left s - k) (get_buffer s) = drop k w @ replicate z False" if "bits_of (bits_left s) (get_buffer s) = w @ replicate z False" for z
    using arg_cong [OF that, of "drop k"] assms(3) by (simp add: d)
  have b: "drop k w = bits_of (bits_left s - k) (get_buffer s) @ byte_bits bs" if "w = bits_of (bits_left s) (get_buffer s) @ byte_bits bs" for bs
    using that assms(2) by (simp add: d)
  have l: "n - k + 31 \<le> 4 * length (input s) + (bits_left s - k)" if "n + 31 \<le> 4 * length (input s) + bits_left s"
    using that assms(2,4) by arith
  show ?thesis using assms(1) b z l unfolding fast_ahead_def u by fastforce
qed

section \<open>Symbols and values\<close>

lemma fast_loop_code:
  assumes d: "derived_dec dtbl htbl hs cs" and can: "canonical hs cs" and p: "p < length hs"
  shows "take (hs ! p - l) (bits_of (bits_left s) (get_buffer s)) = drop l (bits_of (hs ! p) (cs ! p)) \<Longrightarrow> hs ! p - l \<le> bits_left s \<Longrightarrow>
    bits_left s \<le> 32 \<Longrightarrow> 1 \<le> l \<Longrightarrow> l \<le> hs ! p \<Longrightarrow> code = cs ! p div 2 ^ (hs ! p - l) \<Longrightarrow>
    fast_loop dtbl l code s = Inr (hs ! p, cs ! p, DROP_BITS (hs ! p - l) s)"
proof (induction "hs ! p - l" arbitrary: l code s)
  case 0
  then have l: "l = hs ! p" by simp
  have "hs ! p \<le> 16" using can p by (simp add: canonical_def)
  with 0 l maxcode_at [OF assms] show ?case by (subst fast_loop.simps) (simp add: DROP_BITS_def)
next
  case (Suc x)
  let ?b = "bits_of (hs ! p) (cs ! p)" and ?h = "bits_of (bits_left s) (get_buffer s)"
  have lt: "l < hs ! p" "hs ! p \<le> 16" using Suc.hyps(2) can p by (simp_all add: canonical_def)
  have c: "cs ! p < 2 ^ (hs ! p)" using canonical_less [OF can p] .
  have b1: "1 \<le> bits_left s" using Suc.prems(2) lt by simp
  have h1: "take 1 ?h = [?b ! l]"
    using arg_cong [OF Suc.prems(1), of "take 1"] lt by (simp add: take_Suc hd_drop_conv_nth min_def Suc_le_eq split: if_splits)
  then have pk: "PEEK_BITS 1 s = bits_val [?b ! l]" using peek_bits [OF b1 Suc.prems(3)] by simp
  have code: "push_bit 1 code OR bits_val [?b ! l] = cs ! p div 2 ^ (hs ! p - Suc l)"
    using bits_val_take_Suc [of l ?b] code_prefix [of l "hs ! p" "cs ! p"] code_prefix [of "Suc l" "hs ! p" "cs ! p"] c lt
      Suc.prems(6) by simp
  have "maxcode dtbl ! l < int code" using maxcode_below [OF d can p Suc.prems(4) lt(1)] Suc.prems(6) by simp
  then have "fast_loop dtbl l code s = fast_loop dtbl (Suc l) (cs ! p div 2 ^ (hs ! p - Suc l)) (DROP_BITS 1 s)"
    using lt b1 code pk by (subst fast_loop.simps) (simp add: GET_BITS_def)
  also have "\<dots> = Inr (hs ! p, cs ! p, DROP_BITS (hs ! p - Suc l) (DROP_BITS 1 s))"
  proof (rule Suc.hyps(1))
    have "take (hs ! p - Suc l) (drop 1 ?h) = drop 1 (take (hs ! p - l) ?h)" using lt by (simp add: drop_take)
    then show "take (hs ! p - Suc l) (bits_of (bits_left (DROP_BITS 1 s)) (get_buffer (DROP_BITS 1 s))) = drop (Suc l) ?b"
      using Suc.prems(1) drop_bits_of [OF b1, of "get_buffer s"] by (simp add: DROP_BITS_def)
  qed (use Suc.hyps(2) Suc.prems(2,3) lt in \<open>simp_all add: DROP_BITS_def\<close>)
  also have "DROP_BITS (hs ! p - Suc l) (DROP_BITS 1 s) = DROP_BITS (hs ! p - l) s" using lt by (simp add: DROP_BITS_def)
  finally show ?case .
qed

lemma HUFF_DECODE_FAST_ahead:
  assumes t: "table_pair dtbl htbl hs cs" and p: "p < length hs" and n: "hs ! p \<le> n"
    and a: "fast_ahead n (bits_of (hs ! p) (cs ! p) @ w) m rest s"
  obtains s' where "HUFF_DECODE_FAST dtbl s = Inr (unat (huffval htbl ! p), s')" "fast_ahead (n - hs ! p) w m rest s'" "steady s s'"
proof -
  have d: "derived_dec dtbl htbl hs cs" and can: "canonical hs cs" and len: "length hs \<le> 256" using t by (simp_all add: table_pair_def)
  have L: "1 \<le> hs ! p" "hs ! p \<le> 16" using can p by (simp_all add: canonical_def)
  have c: "cs ! p < 2 ^ (hs ! p)" using canonical_less [OF can p] .
  let ?b = "bits_of (hs ! p) (cs ! p)"
  have "1 \<le> n" using L n by simp
  from fill_fast [OF a this] obtain u where u: "FILL_BIT_BUFFER_FAST s = Inr u" "fast_ahead n (?b @ w) m rest u" "16 \<le> bits_left u" "steady s u"
    by metis
  define h where "h = bits_of (bits_left u) (get_buffer u)"
  have bl: "bits_left u \<le> 32" using u(2) by (simp add: fast_ahead_def)
  have lh: "length h = bits_left u" by (simp add: h_def)
  have f: "take (hs ! p) h = ?b" using fast_front [OF u(2), of "hs ! p"] L u(3) by (simp add: h_def)
  have v: "unat (huffval htbl ! p) < 256" using unsigned_less [of "huffval htbl ! p"] by simp
  have look: "PEEK_BITS 8 u = bits_val (take 8 h)" using peek_bits [of 8 u] u(3) bl by (simp add: h_def)
  have D: "fast_ahead (n - hs ! p) w m rest (DROP_BITS (hs ! p) u)" using fast_drop [OF u(2), of "hs ! p"] u(3) L n by simp
  have "HUFF_DECODE_FAST dtbl s = Inr (unat (huffval htbl ! p), DROP_BITS (hs ! p) u)"
  proof (cases "hs ! p \<le> 8")
    case True
    have lk: "lookup dtbl ! PEEK_BITS 8 u = hs ! p * 256 + unat (huffval htbl ! p)"
      unfolding look by (rule lookup_short [OF d p True _ f c]) (use lh u(3) in simp)
    have "drop_bit 8 (hs ! p * 256 + unat (huffval htbl ! p)) = hs ! p" using v by (simp add: drop_bit_eq_div)
    moreover have "(hs ! p * 256 + unat (huffval htbl ! p)) AND (push_bit 8 1 - 1) = unat (huffval htbl ! p)"
      using v take_bit_eq_mask [of 8 "hs ! p * 256 + unat (huffval htbl ! p)"]
      by (simp add: mask_eq_exp_minus_1 take_bit_eq_mod push_bit_eq_mult)
    ultimately show ?thesis using True u(1) lk unfolding HUFF_DECODE_FAST_def HUFF_LOOKAHEAD_def by simp
  next
    case long: False
    have t8: "take 8 h = take 8 ?b" using arg_cong [OF f, of "take 8"] long by (simp add: min_def)
    have lk: "lookup dtbl ! PEEK_BITS 8 u = 9 * 256" unfolding look by (rule lookup_long [OF d can p _ t8]) (use long in simp)
    have t9: "take 9 h = take 9 ?b" using arg_cong [OF f, of "take 9"] long by (simp add: min_def)
    have "PEEK_BITS 9 u = bits_val (take 9 h)" using peek_bits [of 9 u] u(3) bl by (simp add: h_def)
    also have "\<dots> = cs ! p div 2 ^ (hs ! p - 9)" unfolding t9 using long c by (simp add: code_prefix)
    finally have pk: "PEEK_BITS 9 u = cs ! p div 2 ^ (hs ! p - 9)" .
    have "take (hs ! p - 9) (drop 9 h) = drop 9 (take (hs ! p) h)" by (simp add: drop_take)
    then have tk: "take (hs ! p - 9) (bits_of (bits_left (DROP_BITS 9 u)) (get_buffer (DROP_BITS 9 u))) = drop 9 ?b"
      using f drop_bits_of [of 9 "bits_left u" "get_buffer u"] u(3) by (simp add: h_def DROP_BITS_def)
    have "fast_loop dtbl 9 (PEEK_BITS 9 u) (DROP_BITS 9 u) = Inr (hs ! p, cs ! p, DROP_BITS (hs ! p - 9) (DROP_BITS 9 u))"
      by (rule fast_loop_code [OF d can p tk]) (use long u(3) L bl pk in \<open>simp_all add: DROP_BITS_def\<close>)
    moreover have "DROP_BITS (hs ! p - 9) (DROP_BITS 9 u) = DROP_BITS (hs ! p) u" using long by (simp add: DROP_BITS_def)
    moreover have "valoffset dtbl ! (hs ! p) = int p - int (cs ! p)" "pub dtbl = htbl" using d p by (simp_all add: derived_dec_def)
    moreover have "int p AND 0xFF = int p"
      using p len take_bit_eq_mask [of 8 "int p"] by (simp add: mask_eq_exp_minus_1 take_bit_int_eq_self)
    ultimately show ?thesis using u(1) lk unfolding HUFF_DECODE_FAST_def HUFF_LOOKAHEAD_def by (simp add: drop_bit_eq_div)
  qed
  then show ?thesis using D u(4) by (intro that [of "DROP_BITS (hs ! p) u"]) (simp_all add: steady_def DROP_BITS_def)
qed

lemma receive_fast_ahead:
  assumes "fast_ahead n (extra_bits v @ w) m rest s" "v \<noteq> 0" "\<bar>v\<bar> < 2 ^ 16" "magnitude v \<le> n"
  obtains s' where "receive_fast (magnitude v) s = Inr (v, s')" "fast_ahead (n - magnitude v) w m rest s'" "steady s s'"
proof -
  have M: "magnitude v \<le> 16" "1 \<le> magnitude v" using assms(3) magnitude_le magnitude_bounds [OF assms(2)] by blast+
  then have "1 \<le> n" using assms(4) by simp
  from fill_fast [OF assms(1) this] obtain u where u: "FILL_BIT_BUFFER_FAST s = Inr u" "fast_ahead n (extra_bits v @ w) m rest u"
    "16 \<le> bits_left u" "steady s u" by metis
  have bl: "bits_left u \<le> 32" using u(2) by (simp add: fast_ahead_def)
  have "PEEK_BITS (magnitude v) u = bits_val (extra_bits v)"
    using peek_bits [of "magnitude v" u] fast_front [OF u(2), of "magnitude v"] M u(3) bl by simp
  then have "receive_fast (magnitude v) s = Inr (v, DROP_BITS (magnitude v) u)"
    using u(1,3) M HUFF_EXTEND_extra [OF assms(2,3)] by (simp add: receive_fast_def GET_BITS_def)
  moreover have "fast_ahead (n - magnitude v) w m rest (DROP_BITS (magnitude v) u)"
    using fast_drop [OF u(2), of "magnitude v"] u(3) M assms(4) by simp
  ultimately show ?thesis using u(4) by (intro that [of "DROP_BITS (magnitude v) u"]) (simp_all add: steady_def DROP_BITS_def)
qed

lemma decode_symbol_fast:
  assumes "paired c d" "coded c i" "fast_ahead (length (code_bits c i) + n) (code_bits c i @ w) m rest s"
  obtains s' where "HUFF_DECODE_FAST d s = Inr (i, s')" "fast_ahead n w m rest s'" "steady s s'"
proof -
  from assms(1) obtain htbl hs cs where e: "derived_enc c htbl hs cs" and t: "table_pair d htbl hs cs"
    by (auto simp: paired_def)
  from e assms(2) obtain p where p: "p < length hs" "unat (huffval htbl ! p) = i"
    unfolding derived_enc_def coded_def by (metis not_one_le_zero)
  with e have b: "code_bits c i = bits_of (hs ! p) (cs ! p)" by (auto simp: derived_enc_def code_bits_def)
  then have l: "length (code_bits c i) = hs ! p" by simp
  have le: "hs ! p \<le> length (code_bits c i) + n" using l by simp
  obtain s' where "HUFF_DECODE_FAST d s = Inr (unat (huffval htbl ! p), s')" "fast_ahead (length (code_bits c i) + n - hs ! p) w m rest s'" "steady s s'"
    using HUFF_DECODE_FAST_ahead [OF t p(1) le] assms(3) unfolding b by blast
  then show ?thesis using that p(2) l by simp
qed

text \<open>So the fast macros provide what decoding a block needs.\<close>

interpretation fast: bit_source fast_macros "\<lambda>x. fast_ahead (length x) (x @ y) m rest" for y m rest
proof
  fix c d i x s
  assume p: "paired c d" "coded c i" and "fast_ahead (length (code_bits c i @ x)) ((code_bits c i @ x) @ y) m rest s"
  then have "fast_ahead (length (code_bits c i) + length x) (code_bits c i @ x @ y) m rest s" by simp
  from decode_symbol_fast [OF p this]
  show "\<exists>s'. get_symbol fast_macros d s = Inr (i, s') \<and> fast_ahead (length x) (x @ y) m rest s' \<and> steady s s'"
    unfolding fast_macros_def bit_macros.simps by metis
next
  fix v :: int and x s
  assume v: "v \<noteq> 0" "\<bar>v\<bar> < 2 ^ 16" and "fast_ahead (length (extra_bits v @ x)) ((extra_bits v @ x) @ y) m rest s"
  then have "fast_ahead (magnitude v + length x) (extra_bits v @ x @ y) m rest s" by simp
  from receive_fast_ahead [OF this v]
  show "\<exists>s'. get_value fast_macros (magnitude v) s = Inr (v, s') \<and> fast_ahead (length x) (x @ y) m rest s' \<and> steady s s'"
    unfolding fast_macros_def bit_macros.simps by (metis diff_add_inverse le_add1)
qed

end
