(* ===== verification/HuffRoundtrip.thy ===== *)
theory HuffRoundtrip imports HuffFast HuffScan begin

text \<open>
  Encoding a scan with \<open>jchuff.c\<close> and decoding it with \<open>jdhuff.c\<close> gives the same blocks: block by
  block, MCU by MCU, across restart markers, for tables built from the same \<open>JHUFF_TBL\<close>.
\<close>

section \<open>A block\<close>

definition zero_block :: "int list" where
  "zero_block = replicate 64 0"

text \<open>A block of JCOEFs.\<close>

definition wf_block :: "int list \<Rightarrow> bool" where
  "wf_block block \<longleftrightarrow> length block = 64 \<and> - (2 ^ 15) \<le> block ! 0 \<and> block ! 0 < 2 ^ 15"

definition reads_tables :: "block_info \<Rightarrow> c_derived_tbl \<Rightarrow> c_derived_tbl \<Rightarrow> bool" where
  "reads_tables bi dct act \<longleftrightarrow> paired dct (dc_cur_tbl bi) \<and> paired act (ac_cur_tbl bi) \<and> dc_needed bi \<and> ac_needed bi"

text \<open>A block that is zero, or that has its values already.\<close>

definition blank_for :: "int list \<Rightarrow> int list \<Rightarrow> bool" where
  "blank_for block b \<longleftrightarrow> b = zero_block \<or> b = block"

lemma place_same:
  assumes "length block = 64"
  shows "place 1 (map ((!) block) zigzag_ac) block = block"
proof (rule nth_equalityI)
  fix i assume "i < length (place 1 (map ((!) block) zigzag_ac) block)"
  then have "i < 64" using assms by simp
  then obtain k where k: "k < 64" "jpeg_natural_order ! k = i" using natural_order_surj by blast
  have "place 1 (map ((!) block) zigzag_ac) block ! (jpeg_natural_order ! k) = block ! (jpeg_natural_order ! k)"
    using k(1) assms by (subst place_nth) (auto simp: zigzag_ac_nth)
  then show "place 1 (map ((!) block) zigzag_ac) block ! i = block ! i" by (simp add: k(2))
qed (simp add: assms)

lemma place_blank:
  assumes "wf_block block" "blank_for block b"
  shows "place 1 (map ((!) block) zigzag_ac) (b[0 := block ! 0]) = block"
  using assms place_block [of block] place_same [of block] by (auto simp: blank_for_def zero_block_def wf_block_def)

definition block_match :: "scan_params \<Rightarrow> huff_entropy_encoder \<Rightarrow> nat \<Rightarrow> block_info \<Rightarrow> bool" where
  "block_match sp e ci bi \<longleftrightarrow> membership bi = ci \<and>
     reads_tables bi (dc_derived_tbls e ! (dc_tbl_no sp ! ci)) (ac_derived_tbls e ! (ac_tbl_no sp ! ci))"

context bit_source
begin

lemma decode_block_ahead:
  assumes bi: "reads_tables bi dct act" and wf: "wf_block block" and b0: "blank_for block b0"
    and cod: "block_codable dct act block (dcs ! membership bi)"
    and a: "ahead (block_bits dct act block (dcs ! membership bi) @ w) s"
  obtains s' where "decode_block bm bi dcs b0 s = Inr (dcs[membership bi := block ! 0], block, s')" "ahead w s'" "steady s s'"
proof -
  let ?ci = "membership bi"
  let ?v = "block ! 0 - dcs ! ?ci"
  let ?ac = "symbol_bits act (ac_symbols 0 (map ((!) block) zigzag_ac)) @ w"
  have dc: "ahead (symbol_bits dct [(magnitude ?v, extra_bits ?v)] @ ?ac) s"
    using a by (simp add: block_bits_def)
  from decode_dc_ahead [OF _ _ _ dc, of "dc_cur_tbl bi"] bi cod obtain t where t: "decode_dc bm (dc_cur_tbl bi) s = Inr (?v, t)"
    "ahead ?ac t" "steady s t" by (auto simp: reads_tables_def block_codable_def)
  from decode_ac_ahead [OF _ t(2), of "ac_cur_tbl bi" 1 "b0[0 := block ! 0]"] bi cod obtain u where
    u: "decode_ac bm (ac_cur_tbl bi) 1 (b0[0 := block ! 0]) t =
        Inr (place 1 (map ((!) block) zigzag_ac) (b0[0 := block ! 0]), u)" "ahead w u" "steady t u"
    by (auto simp: reads_tables_def block_codable_def)
  have "as_int (block ! 0) = block ! 0" "as_JCOEF (block ! 0) = block ! 0"
    using wf by (auto simp: as_int_def as_JCOEF_def wf_block_def intro!: signed_take_bit_int_eq_self)
  with t(1) u(1) bi place_blank [OF wf b0] have "decode_block bm bi dcs b0 s = Inr (dcs[?ci := block ! 0], block, u)"
    by (simp add: decode_block_def reads_tables_def Let_def)
  with t(3) u(2,3) that show ?thesis by (simp add: steady_def)
qed

lemma decode_blocks_ahead:
  "list_all2 (block_match sp e) cis bis \<Longrightarrow> length m = length cis \<Longrightarrow> (\<forall>b \<in> set m. wf_block b) \<Longrightarrow> list_all2 blank_for m bl \<Longrightarrow>
   mcu_codable sp e (zip cis m) dcs \<Longrightarrow> ahead (mcu_bits sp e (zip cis m) dcs @ w) s \<Longrightarrow>
   \<exists>s'. decode_blocks bm (zip bis bl) dcs s = Inr (mcu_last (zip cis m) dcs, m, s') \<and> ahead w s' \<and> steady s s'"
proof (induction cis bis arbitrary: m bl dcs s rule: list_all2_induct)
  case Nil
  then show ?case by (intro exI [of _ s]) simp
next
  case (Cons ci cis bi bis)
  then obtain block m' where m: "m = block # m'" by (cases m) auto
  then obtain b0 bl' where b: "bl = b0 # bl'" "blank_for block b0" "list_all2 blank_for m' bl'" using Cons.prems(3) by (auto simp: list_all2_Cons1)
  let ?dct = "dc_derived_tbls e ! (dc_tbl_no sp ! ci)" and ?act = "ac_derived_tbls e ! (ac_tbl_no sp ! ci)"
  have bi: "membership bi = ci" "reads_tables bi ?dct ?act" using Cons.hyps(1) by (simp_all add: block_match_def)
  have a: "ahead (block_bits ?dct ?act block (dcs ! ci) @ mcu_bits sp e (zip cis m') (dcs[ci := block ! 0]) @ w) s"
    using Cons.prems(5) by (simp add: m)
  have "block_codable ?dct ?act block (dcs ! ci)" "wf_block block"
    using Cons.prems(2,4) by (simp_all add: m Let_def)
  with decode_block_ahead [OF bi(2) _ b(2), of dcs] a bi(1) obtain t where
    t: "decode_block bm bi dcs b0 s = Inr (dcs[ci := block ! 0], block, t)"
      "ahead (mcu_bits sp e (zip cis m') (dcs[ci := block ! 0]) @ w) t" "steady s t" by metis
  from Cons.IH [OF _ _ b(3) _ t(2)] Cons.prems m obtain u where
    "decode_blocks bm (zip bis bl') (dcs[ci := block ! 0]) t = Inr (mcu_last (zip cis m') (dcs[ci := block ! 0]), m', u)"
    "ahead w u" "steady t u"
    by (auto simp: Let_def)
  with t show ?case by (intro exI [of _ u]) (simp add: m b steady_def)
qed

end

section \<open>Segments\<close>

text \<open>
  The bits up to the next restart marker, and the bytes from that marker on, \<open>aft\<close> being what
  follows the scan.
\<close>

fun seg_bits :: "scan_params \<Rightarrow> int list list list \<Rightarrow> huff_entropy_encoder \<Rightarrow> bool list" where
  "seg_bits sp [] e = []"
| "seg_bits sp (m # ms) e =
     (if restart_due sp e then []
      else mcu_bits sp e (mcu_of sp m) (predictions sp e) @ seg_bits sp ms (after_mcu sp m e))"

fun seg_tail :: "scan_params \<Rightarrow> int list list list \<Rightarrow> huff_entropy_encoder \<Rightarrow> u8 list \<Rightarrow> u8 list" where
  "seg_tail sp [] e aft = aft"
| "seg_tail sp (m # ms) e aft =
     (if restart_due sp e
      then marker_bytes e @ flushed (mcu_bits sp e (mcu_of sp m) (predictions sp e) @ seg_bits sp ms (after_mcu sp m e)) @
           seg_tail sp ms (after_mcu sp m e) aft
      else seg_tail sp ms (after_mcu sp m e) aft)"

lemma scan_bytes_seg:
  "scan_bytes sp ms e out b @ aft = out @ flushed (b @ seg_bits sp ms e) @ seg_tail sp ms e aft"
proof (induction sp ms e out b rule: scan_bytes.induct)
  case (2 sp m ms e out b)
  then show ?case by (simp add: mcu_out_def mcu_open_def)
qed simp

lemma next_restart_num_less:
  "huff_entropy_encoder.next_restart_num e < 8 \<Longrightarrow> huff_entropy_encoder.next_restart_num (after_mcu sp m e) < 8"
  by (simp add: after_mcu_def next_restart_def)

lemma seg_tail_marker:
  assumes "huff_entropy_encoder.next_restart_num e < 8" "aft = 0xFF # mk # rest" "mk \<noteq> 0" "mk \<noteq> 0xFF"
  shows "\<exists>mk rest. seg_tail sp ms e aft = 0xFF # mk # rest \<and> mk \<noteq> 0 \<and> mk \<noteq> 0xFF"
  using assms(1)
proof (induction ms arbitrary: e)
  case (Cons m ms)
  from Cons.IH [OF next_restart_num_less [OF Cons.prems]] rst_byte [OF Cons.prems] show ?case
    by (simp add: marker_bytes_def)
qed (use assms in simp)

section \<open>The decoder in a scan\<close>

text \<open>
  \<open>in_step\<close>: the decoder stands where the encoder stood before the MCUs \<open>ms\<close>, with less than a
  byte of padding at the end of the segment.
\<close>

definition in_step ::
  "scan_params \<Rightarrow> int list list list \<Rightarrow> u8 list \<Rightarrow> huff_entropy_encoder \<Rightarrow> huff_entropy_decoder \<Rightarrow> bool" where
  "in_step sp ms aft e d \<longleftrightarrow>
     (\<exists>pad mk rest. seg_tail sp ms e aft = 0xFF # mk # rest \<and> length pad < 8 \<and>
        bits_ahead (seg_bits sp ms e @ pad) mk rest (bitstate d)) \<and>
     list_all2 (block_match sp e) (MCU_membership sp) (block_infos d) \<and>
     \<not> insufficient_data (bitstate d) \<and> dec_last_dc d = last_dc_val (saved e) \<and>
     dec_source.next_restart_num (bitstate d) = huff_entropy_encoder.next_restart_num e \<and> huff_entropy_encoder.next_restart_num e < 8 \<and>
     restart_interval sp < 2 ^ 32 \<and> (restart_interval sp \<noteq> 0 \<longrightarrow> unat (dec_restarts_to_go d) = restarts_to_go e)"

lemma bits_ahead_start:
  assumes "live s" "upcoming s = flushed b @ 0xFF # mk # rest" "mk \<noteq> 0" "mk \<noteq> 0xFF" "unread_marker s = 0" "bits_left s = 0"
  shows "\<exists>pad. length pad < 8 \<and> bits_ahead (b @ pad) mk rest s"
proof -
  define pad where "pad = replicate (7 * length b mod 8) True"
  have pe: "pad_ones b = b @ pad" by (simp add: pad_ones_def pad_def)
  have "8 dvd length (pad_ones b)"
  proof -
    have "(length b + 7 * length b mod 8) mod 8 = (length b + 7 * length b) mod 8" by (simp add: mod_add_right_eq)
    also have "\<dots> = 0" by simp
    finally show ?thesis by (simp add: pad_ones_def dvd_eq_mod_eq_0)
  qed
  then have "byte_bits (bytes_of (b @ pad)) = b @ pad" unfolding pe by (rule byte_bits_of)
  moreover have "upcoming s = stuff (bytes_of (b @ pad)) @ 0xFF # mk # rest"
    using assms(2) by (simp add: flushed_def pe)
  moreover have "length pad < 8" by (simp add: pad_def)
  ultimately show ?thesis
    using assms by (intro exI [of _ pad]) (auto simp: bits_ahead_def intro!: exI [of _ "bytes_of (b @ pad)"])
qed

lemma ahead_short:
  assumes "bits_ahead pad mk rest s" "length pad < 8"
  shows "live s" "unread_marker s = 0 \<and> upcoming s = 0xFF # mk # rest \<or> unread_marker s = unat mk \<and> upcoming s = rest"
proof -
  show "live s" using assms(1) by (simp add: bits_ahead_def)
  from assms(1) consider (data) bs where "unread_marker s = 0" "upcoming s = stuff bs @ 0xFF # mk # rest"
      "pad = bits_of (bits_left s) (get_buffer s) @ byte_bits bs"
    | (marker) "unread_marker s = unat mk" "upcoming s = rest"
    unfolding bits_ahead_def by blast
  then show "unread_marker s = 0 \<and> upcoming s = 0xFF # mk # rest \<or> unread_marker s = unat mk \<and> upcoming s = rest"
  proof cases
    case data
    have "bs = []" using data(3) assms(2) by (cases bs) simp_all
    with data show ?thesis by simp
  qed simp
qed

lemma bitread_more:
  "dec_source.more (s::bitread) = dec_source.more (t::bitread) \<Longrightarrow>
   get_buffer s = get_buffer t \<and> bits_left s = bits_left t \<and> insufficient_data s = insufficient_data t"
  by (cases s, cases t) simp

text \<open>What \<open>process_restart\<close> finds and leaves.\<close>

lemma process_restart_in_step:
  assumes "in_step sp (m # ms) aft e d" "restart_due sp e" "aft = 0xFF # mk # rest" "mk \<noteq> 0" "mk \<noteq> 0xFF"
  obtains d' pad mk' rest' where
    "process_restart resync (comps_in_scan sp) (of_nat (restart_interval sp)) d = (True, d')"
    "seg_tail sp ms (after_mcu sp m e) aft = 0xFF # mk' # rest'" "length pad < 8"
    "bits_ahead (mcu_bits sp e (mcu_of sp m) (predictions sp e) @ seg_bits sp ms (after_mcu sp m e) @ pad) mk' rest' (bitstate d')"
    "\<not> insufficient_data (bitstate d')" "dec_last_dc d' = predictions sp e" "block_infos d' = block_infos d"
    "dec_source.next_restart_num (bitstate d') = (huff_entropy_encoder.next_restart_num e + 1) mod 8"
    "dec_restarts_to_go d' = of_nat (restart_interval sp)"
proof -
  let ?n = "huff_entropy_encoder.next_restart_num e"
  let ?b = "mcu_bits sp e (mcu_of sp m) (predictions sp e) @ seg_bits sp ms (after_mcu sp m e)"
  have n: "?n < 8" and dn: "dec_source.next_restart_num (bitstate d) = ?n" and ins: "\<not> insufficient_data (bitstate d)"
    and ld: "dec_last_dc d = last_dc_val (saved e)"
    using assms(1) by (simp_all add: in_step_def)
  from seg_tail_marker [OF next_restart_num_less [OF n] assms(3-5)] obtain mk' rest' where
    tail: "seg_tail sp ms (after_mcu sp m e) aft = 0xFF # mk' # rest'" "mk' \<noteq> 0" "mk' \<noteq> 0xFF" by blast
  from assms(1,2) obtain pad where pad: "length pad < 8"
    "bits_ahead pad (0xD0 + of_nat ?n) (flushed ?b @ 0xFF # mk' # rest') (bitstate d)"
    by (auto simp: in_step_def marker_bytes_def tail)
  define br where "br = (bitstate d)\<lparr>discarded_bytes := discarded_bytes (bitstate d) + of_nat (bits_left (bitstate d) div 8), bits_left := 0\<rparr>"
  have br: "live br" "dec_source.next_restart_num br < 8" "upcoming br = upcoming (bitstate d)" "unread_marker br = unread_marker (bitstate d)"
    using ahead_short(1) [OF pad(2,1)] n dn by (simp_all add: br_def live_def upcoming_def)
  have "unread_marker br = 0 \<and> upcoming br = 0xFF # (0xD0 + of_nat (dec_source.next_restart_num br)) # flushed ?b @ 0xFF # mk' # rest' \<or>
      unread_marker br = M_RST0 + dec_source.next_restart_num br \<and> upcoming br = flushed ?b @ 0xFF # mk' # rest'"
    using ahead_short(2) [OF pad(2,1)] rst_byte [OF n] dn by (auto simp: br br_def upcoming_def)
  from read_restart_marker_here [OF br(1,2) this, of resync] obtain s' where
    s': "read_restart_marker resync br = (True, s')" "upcoming s' = flushed ?b @ 0xFF # mk' # rest'" "live s'" "unread_marker s' = 0"
      "dec_source.next_restart_num s' = (?n + 1) mod 8" "dec_source.more s' = dec_source.more br"
    using dn by (auto simp: br_def)
  have mo: "bits_left s' = 0" "insufficient_data s' = insufficient_data (bitstate d)"
    using bitread_more [OF s'(6)] by (simp_all add: br_def)
  define s2 where "s2 = s'\<lparr>insufficient_data := False\<rparr>"
  have s2: "live s2" "upcoming s2 = flushed ?b @ 0xFF # mk' # rest'" "unread_marker s2 = 0" "bits_left s2 = 0"
    using s' mo by (simp_all add: s2_def live_def upcoming_def)
  from bits_ahead_start [OF s2(1,2) tail(2,3) s2(3,4)] obtain pad' where p: "length pad' < 8" "bits_ahead (?b @ pad') mk' rest' s2"
    by blast
  define d' where "d' = d\<lparr>bitstate := s2, dec_last_dc := predictions sp e, dec_restarts_to_go := of_nat (restart_interval sp)\<rparr>"
  have "process_restart resync (comps_in_scan sp) (of_nat (restart_interval sp)) d = (True, d')"
    using s'(1,4) assms(2) ld by (simp add: process_restart_def Let_def br_def [symmetric] d'_def s2_def predictions_def)
  then show ?thesis
    using p tail(1) s'(5) by (intro that [of d' mk' rest' pad']) (simp_all add: d'_def s2_def)
qed

section \<open>One MCU after the other\<close>

lemma block_match_after [simp]: "block_match sp (after_mcu sp m e) = block_match sp e"
  by (rule ext)+ (simp add: block_match_def after_mcu_def)

lemma after_mcu_simps [simp]:
  "last_dc_val (saved (after_mcu sp m e)) = mcu_last (mcu_of sp m) (predictions sp e)"
  "restarts_to_go (after_mcu sp m e) = fst (next_restart sp e)"
  "huff_entropy_encoder.next_restart_num (after_mcu sp m e) = snd (next_restart sp e)"
  by (simp_all add: after_mcu_def)

lemma unat_minus_1: "0 < unat (w::u32) \<Longrightarrow> unat (w - 1) = unat w - 1"
  by (simp add: unat_minus_one unat_gt_0)

lemma u32_of_nat: "n < 2 ^ 32 \<Longrightarrow> unat (of_nat n :: u32) = n"
  by (simp add: unat_of_nat)

text \<open>The MCU itself, once the restart has been dealt with, decoded with the slow macros.\<close>

lemma decode_mcu_blocks:
  assumes "list_all2 (block_match sp e) (MCU_membership sp) (block_infos d)" "length m = length (MCU_membership sp)"
    and "\<forall>b \<in> set m. wf_block b" "mcu_codable sp e (mcu_of sp m) (predictions sp e)" "dec_last_dc d = predictions sp e"
    and "bits_ahead (mcu_bits sp e (mcu_of sp m) (predictions sp e) @ w) mk rest (bitstate d)" "list_all2 blank_for m bl"
  obtains d' where "decode_mcu_slow bl d = Inr (m, d')" "bits_ahead w mk rest (bitstate d')"
    "steady (bitstate d) (bitstate d')" "dec_last_dc d' = mcu_last (mcu_of sp m) (predictions sp e)"
    "block_infos d' = block_infos d" "dec_restarts_to_go d' = dec_restarts_to_go d"
proof -
  have a: "bits_ahead ((mcu_bits sp e (zip (MCU_membership sp) m) (predictions sp e) @ []) @ w) mk rest (bitstate d)"
    using assms(6) by (simp add: mcu_of_def)
  from slow.decode_blocks_ahead [OF assms(1-3,7) assms(4) [unfolded mcu_of_def] a] obtain s' where
    s': "decode_blocks slow_macros (zip (block_infos d) bl) (predictions sp e) (bitstate d) =
       Inr (mcu_last (mcu_of sp m) (predictions sp e), m, s')" "bits_ahead w mk rest s'" "steady (bitstate d) s'"
    unfolding mcu_of_def by auto
  with assms(5) show ?thesis
    by (intro that [of "d\<lparr>bitstate := s', dec_last_dc := mcu_last (mcu_of sp m) (predictions sp e)\<rparr>"])
      (simp_all add: decode_mcu_slow_def)
qed

text \<open>With the fast ones, when the source's buffer has room for the MCU.\<close>

lemma decode_mcu_blocks_fast:
  assumes "list_all2 (block_match sp e) (MCU_membership sp) (block_infos d)" "length m = length (MCU_membership sp)"
    and "\<forall>b \<in> set m. wf_block b" "mcu_codable sp e (mcu_of sp m) (predictions sp e)" "dec_last_dc d = predictions sp e"
    and "bits_ahead (mcu_bits sp e (mcu_of sp m) (predictions sp e) @ w) mk rest (bitstate d)" "list_all2 blank_for m bl"
    and "unread_marker (bitstate d) = 0" "length (mcu_bits sp e (mcu_of sp m) (predictions sp e)) + 31 \<le> 4 * length (input (bitstate d))"
  obtains d' where "decode_mcu_fast bl d = Inr (True, m, d')" "bits_ahead w mk rest (bitstate d')"
    "steady (bitstate d) (bitstate d')" "dec_last_dc d' = mcu_last (mcu_of sp m) (predictions sp e)"
    "block_infos d' = block_infos d" "dec_restarts_to_go d' = dec_restarts_to_go d"
  | "decode_mcu_fast bl d = Inr (False, m, d)"
proof -
  let ?x = "mcu_bits sp e (zip (MCU_membership sp) m) (predictions sp e)"
  have "unat mk \<noteq> 0" using assms(6) by (simp add: bits_ahead_def unsigned_eq_0_iff)
  then have a: "fast_ahead (length (?x @ [])) ((?x @ []) @ w) mk rest (bitstate d)"
    using assms(6,8,9) by (auto simp: mcu_of_def bits_ahead_def fast_ahead_def)
  from fast.decode_blocks_ahead [OF assms(1-3,7) assms(4) [unfolded mcu_of_def] a] obtain s' where
    s': "decode_blocks fast_macros (zip (block_infos d) bl) (predictions sp e) (bitstate d) =
       Inr (mcu_last (mcu_of sp m) (predictions sp e), m, s')" "fast_ahead 0 w mk rest s'" "steady (bitstate d) s'"
    unfolding mcu_of_def by auto
  show ?thesis
  proof (cases "unread_marker s' = 0")
    case True
    then have "bits_ahead w mk rest s'" using s'(2) by (auto simp: bits_ahead_def fast_ahead_def)
    with True s' assms(5) show ?thesis
      by (intro that(1) [of "d\<lparr>bitstate := s', dec_last_dc := mcu_last (mcu_of sp m) (predictions sp e)\<rparr>"])
        (simp_all add: decode_mcu_fast_def)
  next
    case False
    have "d\<lparr>bitstate := (bitstate d)\<lparr>unread_marker := 0\<rparr>\<rparr> = d" using assms(8) by simp
    with False s' assms(5) show ?thesis by (intro that(2)) (simp add: decode_mcu_fast_def)
  qed
qed

text \<open>
  Together: the fast path, and the slow one when the fast path has met a marker. The fast path needs
  that the MCU takes no more than about half of the bytes it checks for.
\<close>

definition mcu_fits :: "scan_params \<Rightarrow> int list list \<Rightarrow> huff_entropy_encoder \<Rightarrow> bool" where
  "mcu_fits sp m e \<longleftrightarrow> restart_interval sp \<noteq> 0 \<or>
     length (mcu_bits sp e (mcu_of sp m) (predictions sp e)) + 31 \<le> 4 * (BUFSIZE_MCU * length (MCU_membership sp))"

fun scan_fits :: "scan_params \<Rightarrow> int list list list \<Rightarrow> huff_entropy_encoder \<Rightarrow> bool" where
  "scan_fits sp [] e = True"
| "scan_fits sp (m # ms) e = (mcu_fits sp m e \<and> scan_fits sp ms (after_mcu sp m e))"

definition decode_rest :: "bool \<Rightarrow> int list list \<Rightarrow> huff_entropy_decoder \<Rightarrow> stop + (bool \<times> int list list \<times> huff_entropy_decoder)" where
  "decode_rest usefast bl d = ebind (if usefast then decode_mcu_fast bl d else Inr (False, bl, d)) (\<lambda>(ok, blocks, e).
     if ok then Inr (True, blocks, e\<lparr>dec_restarts_to_go := dec_restarts_to_go e - 1\<rparr>)
     else case decode_mcu_slow blocks e of
            Inl Suspended \<Rightarrow> Inr (False, bl, e)
          | Inl f \<Rightarrow> Inl f
          | Inr (blocks, e) \<Rightarrow> Inr (True, blocks, e\<lparr>dec_restarts_to_go := dec_restarts_to_go e - 1\<rparr>))"

lemma decode_mcu_rest:
  assumes "(if ri \<noteq> 0 \<and> dec_restarts_to_go d = 0 then process_restart resync n ri d else (True, d)) = (True, e)"
    and "\<not> insufficient_data (bitstate e)"
  shows "decode_mcu resync n ri bl d = decode_rest (ri = 0 \<and>
      \<not> (length (input (bitstate e)) < BUFSIZE_MCU * length (block_infos e) \<or> unread_marker (bitstate e) \<noteq> 0)) bl e"
  unfolding decode_mcu_def assms(1) Let_def prod.case bool.case decode_rest_def if_not_P [OF assms(2)] ..

lemma decode_rest_ok:
  assumes a: "list_all2 (block_match sp e) (MCU_membership sp) (block_infos d)" "length m = length (MCU_membership sp)"
    "\<forall>b \<in> set m. wf_block b" "mcu_codable sp e (mcu_of sp m) (predictions sp e)" "dec_last_dc d = predictions sp e"
    "bits_ahead (mcu_bits sp e (mcu_of sp m) (predictions sp e) @ w) mk rest (bitstate d)"
    and f: "mcu_fits sp m e" "usefast \<longrightarrow> restart_interval sp = 0 \<and> BUFSIZE_MCU * length (MCU_membership sp) \<le> length (input (bitstate d)) \<and>
      unread_marker (bitstate d) = 0"
  obtains d' where "decode_rest usefast (replicate (length m) zero_block) d = Inr (True, m, d'\<lparr>dec_restarts_to_go := dec_restarts_to_go d' - 1\<rparr>)"
    "bits_ahead w mk rest (bitstate d')" "steady (bitstate d) (bitstate d')" "dec_last_dc d' = mcu_last (mcu_of sp m) (predictions sp e)"
    "block_infos d' = block_infos d" "dec_restarts_to_go d' = dec_restarts_to_go d"
proof -
  have z: "list_all2 blank_for m (replicate (length m) zero_block)" by (simp add: list_all2_conv_all_nth blank_for_def)
  have mm: "list_all2 blank_for m m" by (simp add: list_all2_conv_all_nth blank_for_def)
  from decode_mcu_blocks [OF a z] obtain d1 where d1: "decode_mcu_slow (replicate (length m) zero_block) d = Inr (m, d1)"
    "bits_ahead w mk rest (bitstate d1)" "steady (bitstate d) (bitstate d1)" "dec_last_dc d1 = mcu_last (mcu_of sp m) (predictions sp e)"
    "block_infos d1 = block_infos d" "dec_restarts_to_go d1 = dec_restarts_to_go d" by metis
  from decode_mcu_blocks [OF a mm] obtain d2 where d2: "decode_mcu_slow m d = Inr (m, d2)"
    "bits_ahead w mk rest (bitstate d2)" "steady (bitstate d) (bitstate d2)" "dec_last_dc d2 = mcu_last (mcu_of sp m) (predictions sp e)"
    "block_infos d2 = block_infos d" "dec_restarts_to_go d2 = dec_restarts_to_go d" by metis
  show ?thesis
  proof (cases usefast)
    case False
    with d1 show ?thesis by (intro that [of d1]) (simp_all add: decode_rest_def)
  next
    case True
    then have r: "unread_marker (bitstate d) = 0" "length (mcu_bits sp e (mcu_of sp m) (predictions sp e)) + 31 \<le> 4 * length (input (bitstate d))"
      using f by (auto simp: mcu_fits_def)
    show ?thesis
    proof (rule decode_mcu_blocks_fast [OF a z r])
      fix d' assume "decode_mcu_fast (replicate (length m) zero_block) d = Inr (True, m, d')" "bits_ahead w mk rest (bitstate d')"
        "steady (bitstate d) (bitstate d')" "dec_last_dc d' = mcu_last (mcu_of sp m) (predictions sp e)"
        "block_infos d' = block_infos d" "dec_restarts_to_go d' = dec_restarts_to_go d"
      with True show ?thesis by (intro that [of d']) (simp_all add: decode_rest_def)
    next
      assume "decode_mcu_fast (replicate (length m) zero_block) d = Inr (False, m, d)"
      with True d2 show ?thesis by (intro that [of d2]) (simp_all add: decode_rest_def)
    qed
  qed
qed

lemma decode_mcu_in_step:
  assumes st: "in_step sp (m # ms) aft e d" and aft: "aft = 0xFF # mk # rest" "mk \<noteq> 0" "mk \<noteq> 0xFF"
    and m: "length m = length (MCU_membership sp)" "\<forall>b \<in> set m. wf_block b"
    and cod: "mcu_codable sp e (mcu_of sp m) (predictions sp e)" and fit: "mcu_fits sp m e"
  obtains d' where "decode_mcu resync (comps_in_scan sp) (of_nat (restart_interval sp)) (replicate (length m) zero_block) d =
      Inr (True, m, d')" "in_step sp ms aft (after_mcu sp m e) d'"
proof -
  let ?ri = "of_nat (restart_interval sp) :: u32"
  have lt: "restart_interval sp < 2 ^ 32" and ri: "restart_interval sp \<noteq> 0 \<longrightarrow> unat (dec_restarts_to_go d) = restarts_to_go e"
    and n: "huff_entropy_encoder.next_restart_num e < 8"
    and l2: "list_all2 (block_match sp e) (MCU_membership sp) (block_infos d)"
    using st by (simp_all add: in_step_def)
  have ri0: "?ri = 0 \<longleftrightarrow> restart_interval sp = 0" using u32_of_nat [OF lt] by (metis unat_0 unat_eq_zero)
  have due: "?ri \<noteq> 0 \<and> dec_restarts_to_go d = 0 \<longleftrightarrow> restart_due sp e"
    using ri ri0 by (auto simp: restart_due_def unat_eq_zero)
  define r where "r = (if ?ri \<noteq> 0 \<and> dec_restarts_to_go d = 0 then process_restart resync (comps_in_scan sp) ?ri d else (True, d))"
  obtain d1 pad mk' rest' where d1: "r = (True, d1)" "seg_tail sp ms (after_mcu sp m e) aft = 0xFF # mk' # rest'" "length pad < 8"
    "bits_ahead (mcu_bits sp e (mcu_of sp m) (predictions sp e) @ seg_bits sp ms (after_mcu sp m e) @ pad) mk' rest' (bitstate d1)"
    "\<not> insufficient_data (bitstate d1)" "dec_last_dc d1 = predictions sp e" "block_infos d1 = block_infos d"
    "dec_source.next_restart_num (bitstate d1) = snd (next_restart sp e)"
    "restart_interval sp \<noteq> 0 \<longrightarrow> unat (dec_restarts_to_go d1 - 1) = fst (next_restart sp e)"
  proof (cases "restart_due sp e")
    case True
    from process_restart_in_step [OF st True aft, of resync] obtain d' pad mk' rest' where p:
      "process_restart resync (comps_in_scan sp) ?ri d = (True, d')"
      "seg_tail sp ms (after_mcu sp m e) aft = 0xFF # mk' # rest'" "length pad < 8"
      "bits_ahead (mcu_bits sp e (mcu_of sp m) (predictions sp e) @ seg_bits sp ms (after_mcu sp m e) @ pad) mk' rest' (bitstate d')"
      "\<not> insufficient_data (bitstate d')" "dec_last_dc d' = predictions sp e" "block_infos d' = block_infos d"
      "dec_source.next_restart_num (bitstate d') = (huff_entropy_encoder.next_restart_num e + 1) mod 8"
      "dec_restarts_to_go d' = ?ri" by metis
    have "unat (?ri - 1) = restart_interval sp - 1" if "restart_interval sp \<noteq> 0"
      using that unat_minus_1 [of ?ri] u32_of_nat [OF lt] by simp
    with True p due show thesis
      by (intro that [of d' mk' rest' pad]) (simp_all add: r_def next_restart_def restart_due_def)
  next
    case False
    from st False obtain pad mk' rest' where "seg_tail sp ms (after_mcu sp m e) aft = 0xFF # mk' # rest'" "length pad < 8"
      "bits_ahead (mcu_bits sp e (mcu_of sp m) (predictions sp e) @ seg_bits sp ms (after_mcu sp m e) @ pad) mk' rest' (bitstate d)"
      by (auto simp: in_step_def)
    moreover have "restart_interval sp \<noteq> 0 \<longrightarrow> unat (dec_restarts_to_go d - 1) = restarts_to_go e - 1"
      using ri False unat_minus_1 [of "dec_restarts_to_go d"] by (auto simp: restart_due_def)
    moreover have "r = (True, d)" using False due by (auto simp: r_def)
    moreover have "next_restart sp e = (if restart_interval sp = 0 then restarts_to_go e else restarts_to_go e - 1,
        huff_entropy_encoder.next_restart_num e)"
      using False by (auto simp: next_restart_def restart_due_def)
    ultimately show thesis
      using st False by (intro that [of d mk' rest' pad]) (simp_all add: in_step_def predictions_def)
  qed
  define usefast where "usefast = (?ri = 0 \<and>
      \<not> (length (input (bitstate d1)) < BUFSIZE_MCU * length (block_infos d1) \<or> unread_marker (bitstate d1) \<noteq> 0))"
  have "length (block_infos d1) = length (MCU_membership sp)" using list_all2_lengthD [OF l2] d1(7) by simp
  then have uf: "usefast \<longrightarrow> restart_interval sp = 0 \<and> BUFSIZE_MCU * length (MCU_membership sp) \<le> length (input (bitstate d1)) \<and>
      unread_marker (bitstate d1) = 0" using ri0 by (simp add: usefast_def)
  from decode_rest_ok [OF l2 [folded d1(7)] m cod d1(6,4) fit uf] obtain d2 where
    d2: "decode_rest usefast (replicate (length m) zero_block) d1 = Inr (True, m, d2\<lparr>dec_restarts_to_go := dec_restarts_to_go d2 - 1\<rparr>)"
      "bits_ahead (seg_bits sp ms (after_mcu sp m e) @ pad) mk' rest' (bitstate d2)" "steady (bitstate d1) (bitstate d2)"
      "dec_last_dc d2 = mcu_last (mcu_of sp m) (predictions sp e)" "block_infos d2 = block_infos d1"
      "dec_restarts_to_go d2 = dec_restarts_to_go d1" by metis
  let ?d3 = "d2\<lparr>dec_restarts_to_go := dec_restarts_to_go d2 - 1\<rparr>"
  have "decode_mcu resync (comps_in_scan sp) ?ri (replicate (length m) zero_block) d = decode_rest usefast (replicate (length m) zero_block) d1"
    unfolding usefast_def by (rule decode_mcu_rest [OF d1(1) [unfolded r_def] d1(5)])
  with d2(1) have "decode_mcu resync (comps_in_scan sp) ?ri (replicate (length m) zero_block) d = Inr (True, m, ?d3)" by simp
  moreover have "in_step sp ms aft (after_mcu sp m e) ?d3"
    unfolding in_step_def
    using d1 d2 l2 lt next_restart_num_less [OF n, of sp m] by (auto simp: steady_def)
  ultimately show ?thesis using that by blast
qed

section \<open>A scan\<close>

text \<open>The MCUs of a scan decoded one after another into zeroed blocks, \<open>k\<close> blocks each.\<close>

fun decode_mcus ::
  "(nat \<Rightarrow> bitread \<Rightarrow> bool \<times> bitread) \<Rightarrow> nat \<Rightarrow> u32 \<Rightarrow> nat \<Rightarrow> nat \<Rightarrow> huff_entropy_decoder \<Rightarrow>
   stop + (bool \<times> int list list list \<times> huff_entropy_decoder)" where
  "decode_mcus resync n ri k 0 d = Inr (True, [], d)"
| "decode_mcus resync n ri k (Suc c) d =
     ebind (decode_mcu resync n ri (replicate k zero_block) d) (\<lambda>(ok, m, d).
     if ok then ebind (decode_mcus resync n ri k c d) (\<lambda>(ok, ms, d). Inr (ok, m # ms, d)) else Inr (False, [], d))"

definition wf_scan :: "scan_params \<Rightarrow> int list list list \<Rightarrow> bool" where
  "wf_scan sp ms \<longleftrightarrow> (\<forall>m \<in> set ms. length m = length (MCU_membership sp) \<and> (\<forall>b \<in> set m. wf_block b))"

lemma decode_mcus_in_step:
  "in_step sp ms aft e d \<Longrightarrow> aft = 0xFF # mk # rest \<Longrightarrow> mk \<noteq> 0 \<Longrightarrow> mk \<noteq> 0xFF \<Longrightarrow> wf_scan sp ms \<Longrightarrow> scan_codable sp ms e \<Longrightarrow> scan_fits sp ms e \<Longrightarrow>
   \<exists>d'. decode_mcus resync (comps_in_scan sp) (of_nat (restart_interval sp)) (length (MCU_membership sp)) (length ms) d =
     Inr (True, ms, d')"
proof (induction ms arbitrary: e d)
  case (Cons m ms)
  have m: "length m = length (MCU_membership sp)" "\<forall>b \<in> set m. wf_block b" and ms: "wf_scan sp ms"
    using Cons.prems(5) by (simp_all add: wf_scan_def)
  have cod: "mcu_codable sp e (mcu_of sp m) (predictions sp e)" "scan_codable sp ms (after_mcu sp m e)"
    using Cons.prems(6) by simp_all
  have fit: "mcu_fits sp m e" "scan_fits sp ms (after_mcu sp m e)" using Cons.prems(7) by simp_all
  from decode_mcu_in_step [OF Cons.prems(1-4) m cod(1) fit(1), of resync] obtain d1 where
    d1: "decode_mcu resync (comps_in_scan sp) (of_nat (restart_interval sp)) (replicate (length m) zero_block) d = Inr (True, m, d1)"
      "in_step sp ms aft (after_mcu sp m e) d1" by metis
  from Cons.IH [OF d1(2) Cons.prems(2-4) ms cod(2) fit(2)] d1(1) m(1) show ?case by auto
qed simp

section \<open>Tables from the same Huffman tables\<close>

definition wf_tables :: "JHUFF_TBL option list \<Rightarrow> bool" where
  "wf_tables ptrs \<longleftrightarrow> length ptrs = 4 \<and> (\<forall>h. Some h \<in> set ptrs \<longrightarrow> wf_htbl h)"

lemma paired_make:
  assumes "wf_tables ptrs" "length (ehufco c0) = 256" "length (maxcode d0) = 18" "length (valoffset d0) = 18"
    and "jpeg_make_c_derived_tbl ptrs isDC no c0 = Inr c" "jpeg_make_d_derived_tbl ptrs isDC no d0 = Inr d"
  shows "paired c d"
proof -
  have w: "length ptrs = 4" "\<forall>h. Some h \<in> set ptrs \<longrightarrow> wf_htbl h" using assms(1) by (simp_all add: wf_tables_def)
  obtain htbl hs cs where c: "find_htbl ptrs no = Inr htbl" "huff_sizes htbl = Inr hs" "huff_codes hs = Inr cs" "derived_enc c htbl hs cs"
    using make_c_derived [OF assms(5,2) w(2,1)] by metis
  obtain htbl' hs' cs' where d: "find_htbl ptrs no = Inr htbl'" "huff_sizes htbl' = Inr hs'" "huff_codes hs' = Inr cs'"
    "canonical hs' cs'" "length hs' \<le> 256" "derived_dec d htbl' hs' cs'"
    using make_d_derived [OF assms(6,3,4) w(2,1)] by metis
  from c d have "htbl' = htbl" "hs' = hs" "cs' = cs" by simp_all
  with c d show ?thesis unfolding paired_def table_pair_def by blast
qed

text \<open>A derived table that was made for slot \<open>i\<close> in a workspace of the right size.\<close>

definition made_c :: "JHUFF_TBL option list \<Rightarrow> bool \<Rightarrow> nat \<Rightarrow> c_derived_tbl \<Rightarrow> bool" where
  "made_c ptrs isDC i t \<longleftrightarrow> (\<exists>c0. length (ehufco c0) = 256 \<and> jpeg_make_c_derived_tbl ptrs isDC (int i) c0 = Inr t)"

definition made_d :: "JHUFF_TBL option list \<Rightarrow> bool \<Rightarrow> nat \<Rightarrow> d_derived_tbl \<Rightarrow> bool" where
  "made_d ptrs isDC i t \<longleftrightarrow>
     (\<exists>d0. length (maxcode d0) = 18 \<and> length (valoffset d0) = 18 \<and> jpeg_make_d_derived_tbl ptrs isDC (int i) d0 = Inr t)"

lemma made_paired: "wf_tables ptrs \<Longrightarrow> made_c ptrs isDC i c \<Longrightarrow> made_d ptrs isDC i d \<Longrightarrow> paired c d"
  unfolding made_c_def made_d_def using paired_make by blast

lemma find_htbl_range: "find_htbl ptrs (int i) = Inr h \<Longrightarrow> i < 4"
  by (simp add: find_htbl_def NUM_HUFF_TBLS_def split: if_splits)

lemma made_c_props: "wf_tables ptrs \<Longrightarrow> made_c ptrs isDC i t \<Longrightarrow> i < 4 \<and> length (ehufco t) = 256"
  unfolding made_c_def wf_tables_def by (metis make_c_derived derived_enc_def find_htbl_range)

lemma made_d_props: "wf_tables ptrs \<Longrightarrow> made_d ptrs isDC i t \<Longrightarrow> i < 4 \<and> length (maxcode t) = 18 \<and> length (valoffset t) = 18"
proof -
  assume w: "wf_tables ptrs" and "made_d ptrs isDC i t"
  then obtain d0 where d: "length (maxcode d0) = 18" "length (valoffset d0) = 18"
    "jpeg_make_d_derived_tbl ptrs isDC (int i) d0 = Inr t" by (auto simp: made_d_def)
  from w have "\<forall>h. Some h \<in> set ptrs \<longrightarrow> wf_htbl h" "length ptrs = 4" by (simp_all add: wf_tables_def)
  from make_d_derived [OF d(3,1,2) this] obtain htbl hs cs where "find_htbl ptrs (int i) = Inr htbl" "derived_dec t htbl hs cs"
    by metis
  then show ?thesis by (simp add: find_htbl_range derived_dec_def)
qed

definition wf_c_space :: "c_derived_tbl list \<Rightarrow> bool" where
  "wf_c_space ts \<longleftrightarrow> length ts = 4 \<and> (\<forall>t \<in> set ts. length (ehufco t) = 256)"

definition wf_d_space :: "d_derived_tbl list \<Rightarrow> bool" where
  "wf_d_space ts \<longleftrightarrow> length ts = 4 \<and> (\<forall>t \<in> set ts. length (maxcode t) = 18 \<and> length (valoffset t) = 18)"

lemma make_c_space:
  assumes "wf_tables ptrs" "wf_c_space ts" "jpeg_make_c_derived_tbl ptrs isDC (int i) (ts ! i) = Inr t"
  shows "made_c ptrs isDC i t" "wf_c_space (ts[i := t])" "i < 4"
    "made_c ptrs isDC j (ts ! j) \<Longrightarrow> made_c ptrs isDC j (ts[i := t] ! j)"
proof -
  show i: "i < 4" using assms(3) by (auto simp: jpeg_make_c_derived_tbl_def result_simps intro: find_htbl_range)
  show m: "made_c ptrs isDC i t" using assms i by (auto simp: made_c_def wf_c_space_def)
  show "wf_c_space (ts[i := t])"
    using assms(2) made_c_props [OF assms(1) m] i by (auto simp: wf_c_space_def dest!: set_update_subset_insert [THEN subsetD])
  show "made_c ptrs isDC j (ts ! j) \<Longrightarrow> made_c ptrs isDC j (ts[i := t] ! j)"
    using m i assms(2) by (cases "i = j") (simp_all add: wf_c_space_def)
qed

lemma make_d_space:
  assumes "wf_tables ptrs" "wf_d_space ts" "jpeg_make_d_derived_tbl ptrs isDC (int i) (ts ! i) = Inr t"
  shows "made_d ptrs isDC i t" "wf_d_space (ts[i := t])" "i < 4"
    "made_d ptrs isDC j (ts ! j) \<Longrightarrow> made_d ptrs isDC j (ts[i := t] ! j)"
proof -
  show i: "i < 4" using assms(3) by (auto simp: jpeg_make_d_derived_tbl_def result_simps intro: find_htbl_range)
  show m: "made_d ptrs isDC i t" using assms i by (auto simp: made_d_def wf_d_space_def)
  show "wf_d_space (ts[i := t])"
    using assms(2) made_d_props [OF assms(1) m] i by (auto simp: wf_d_space_def dest!: set_update_subset_insert [THEN subsetD])
  show "made_d ptrs isDC j (ts ! j) \<Longrightarrow> made_d ptrs isDC j (ts[i := t] ! j)"
    using m i assms(2) by (cases "i = j") (simp_all add: wf_d_space_def)
qed

lemma enc_tables_made:
  assumes w: "wf_tables dcp" "wf_tables acp"
  shows "enc_tables dcp acp comps e = Inr e' \<Longrightarrow> wf_c_space (dc_derived_tbls e) \<Longrightarrow> wf_c_space (ac_derived_tbls e) \<Longrightarrow>
    (\<forall>(dct, act) \<in> set comps. made_c dcp True dct (dc_derived_tbls e' ! dct) \<and> made_c acp False act (ac_derived_tbls e' ! act)) \<and>
    (\<forall>i. made_c dcp True i (dc_derived_tbls e ! i) \<longrightarrow> made_c dcp True i (dc_derived_tbls e' ! i)) \<and>
    (\<forall>i. made_c acp False i (ac_derived_tbls e ! i) \<longrightarrow> made_c acp False i (ac_derived_tbls e' ! i)) \<and>
    saved e' = saved e"
proof (induction comps arbitrary: e)
  case (Cons c comps)
  obtain dct act where c: "c = (dct, act)" by (cases c)
  from Cons.prems(1) obtain t u where t: "jpeg_make_c_derived_tbl dcp True (int dct) (dc_derived_tbls e ! dct) = Inr t"
    and u: "jpeg_make_c_derived_tbl acp False (int act) (ac_derived_tbls e ! act) = Inr u"
    and r: "enc_tables dcp acp comps (e\<lparr>dc_derived_tbls := (dc_derived_tbls e)[dct := t], ac_derived_tbls := (ac_derived_tbls e)[act := u]\<rparr>) = Inr e'"
    by (auto simp: c result_simps Let_def)
  note T = make_c_space [OF w(1) Cons.prems(2) t] and U = make_c_space [OF w(2) Cons.prems(3) u]
  have "(dc_derived_tbls e)[dct := t] ! dct = t" "(ac_derived_tbls e)[act := u] ! act = u"
    using T(3) U(3) Cons.prems(2,3) by (simp_all add: wf_c_space_def)
  with Cons.IH [OF r] T U show ?case by (auto simp: c)
qed simp

lemma dec_tables_made:
  assumes w: "wf_tables dcp" "wf_tables acp"
  shows "dec_tables dcp acp comps d = Inr d' \<Longrightarrow> wf_d_space (dec_dc_tbls d) \<Longrightarrow> wf_d_space (dec_ac_tbls d) \<Longrightarrow>
    (\<forall>c \<in> set comps. made_d dcp True (d_dc_tbl_no c) (dec_dc_tbls d' ! d_dc_tbl_no c) \<and>
       made_d acp False (d_ac_tbl_no c) (dec_ac_tbls d' ! d_ac_tbl_no c)) \<and>
    (\<forall>i. made_d dcp True i (dec_dc_tbls d ! i) \<longrightarrow> made_d dcp True i (dec_dc_tbls d' ! i)) \<and>
    (\<forall>i. made_d acp False i (dec_ac_tbls d ! i) \<longrightarrow> made_d acp False i (dec_ac_tbls d' ! i)) \<and>
    bitstate d' = bitstate d \<and> dec_last_dc d' = dec_last_dc d"
proof (induction comps arbitrary: d)
  case (Cons c comps)
  let ?dct = "d_dc_tbl_no c" and ?act = "d_ac_tbl_no c"
  from Cons.prems(1) obtain t u where t: "jpeg_make_d_derived_tbl dcp True (int ?dct) (dec_dc_tbls d ! ?dct) = Inr t"
    and u: "jpeg_make_d_derived_tbl acp False (int ?act) (dec_ac_tbls d ! ?act) = Inr u"
    and r: "dec_tables dcp acp comps (d\<lparr>dec_dc_tbls := (dec_dc_tbls d)[?dct := t], dec_ac_tbls := (dec_ac_tbls d)[?act := u]\<rparr>) = Inr d'"
    by (auto simp: result_simps Let_def)
  note T = make_d_space [OF w(1) Cons.prems(2) t] and U = make_d_space [OF w(2) Cons.prems(3) u]
  have "(dec_dc_tbls d)[?dct := t] ! ?dct = t" "(dec_ac_tbls d)[?act := u] ! ?act = u"
    using T(3) U(3) Cons.prems(2,3) by (simp_all add: wf_d_space_def)
  with Cons.IH [OF r] T U show ?case by auto
qed simp

section \<open>The round trip\<close>

text \<open>The decoder's description of the scan the encoder writes.\<close>

definition same_scan :: "scan_params \<Rightarrow> dec_component list \<Rightarrow> bool" where
  "same_scan sp comps \<longleftrightarrow> length comps = comps_in_scan sp \<and> restart_interval sp < 2 ^ 32 \<and>
     map d_dc_tbl_no comps = take (comps_in_scan sp) (dc_tbl_no sp) \<and>
     map d_ac_tbl_no comps = take (comps_in_scan sp) (ac_tbl_no sp) \<and>
     (\<forall>c \<in> set comps. d_component_needed c \<and> 1 < d_DCT_scaled_size c) \<and>
     (\<forall>ci \<in> set (MCU_membership sp). ci < comps_in_scan sp)"

lemma start_tables:
  assumes w: "wf_tables dcp" "wf_tables acp" and s: "same_scan sp comps"
    and ce: "wf_c_space (dc_derived_tbls e0)" "wf_c_space (ac_derived_tbls e0)"
    and cd: "wf_d_space (dec_dc_tbls d0)" "wf_d_space (dec_ac_tbls d0)"
    and e: "start_pass_huff dcp acp sp e0 = Inr e"
    and d: "start_pass_huff_decoder dcp acp comps (MCU_membership sp) ri d0 = Inr d"
  shows "list_all2 (block_match sp e) (MCU_membership sp) (block_infos d)"
proof -
  let ?n = "comps_in_scan sp"
  let ?cs = "zip (take ?n (dc_tbl_no sp)) (take ?n (ac_tbl_no sp))"
  from e obtain e1 where e1: "enc_tables dcp acp ?cs e0 = Inr e1"
    and ee: "dc_derived_tbls e = dc_derived_tbls e1" "ac_derived_tbls e = ac_derived_tbls e1"
    by (auto simp: start_pass_huff_def result_simps Let_def)
  from d obtain d1 where d1: "dec_tables dcp acp comps d0 = Inr d1" and dd: "block_infos d = map (\<lambda>ci. let c = comps ! ci
             in \<lparr>membership = ci, dc_cur_tbl = dec_dc_tbls d1 ! d_dc_tbl_no c, ac_cur_tbl = dec_ac_tbls d1 ! d_ac_tbl_no c,
                 dc_needed = d_component_needed c, ac_needed = d_component_needed c \<and> 1 < d_DCT_scaled_size c\<rparr>) (MCU_membership sp)"
    by (auto simp: start_pass_huff_decoder_def result_simps Let_def)
  note E = conjunct1 [OF enc_tables_made [OF w e1 ce]] and D = conjunct1 [OF dec_tables_made [OF w d1 cd]]
  have "block_match sp e ci (block_infos d ! b)" if b: "b < length (MCU_membership sp)" and ci: "ci = MCU_membership sp ! b" for b ci
  proof -
    have lt: "ci < ?n" "ci < length comps" using s b ci by (simp_all add: same_scan_def)
    have mp: "map d_dc_tbl_no comps = take ?n (dc_tbl_no sp)" "map d_ac_tbl_no comps = take ?n (ac_tbl_no sp)"
      using s by (simp_all add: same_scan_def)
    have "length (take ?n (dc_tbl_no sp)) = ?n" "length (take ?n (ac_tbl_no sp)) = ?n"
      using s by (simp_all add: same_scan_def flip: mp)
    then have "?cs ! ci = (dc_tbl_no sp ! ci, ac_tbl_no sp ! ci)" "ci < length ?cs" using lt by simp_all
    then have "(dc_tbl_no sp ! ci, ac_tbl_no sp ! ci) \<in> set ?cs" by (metis nth_mem)
    with E have Ec: "made_c dcp True (dc_tbl_no sp ! ci) (dc_derived_tbls e ! (dc_tbl_no sp ! ci))"
      "made_c acp False (ac_tbl_no sp ! ci) (ac_derived_tbls e ! (ac_tbl_no sp ! ci))" by (auto simp: ee)
    have no: "d_dc_tbl_no (comps ! ci) = dc_tbl_no sp ! ci" "d_ac_tbl_no (comps ! ci) = ac_tbl_no sp ! ci"
      using lt arg_cong [OF mp(1), of "\<lambda>xs. xs ! ci"] arg_cong [OF mp(2), of "\<lambda>xs. xs ! ci"] by simp_all
    have c: "comps ! ci \<in> set comps" using lt by simp
    with D have Dc: "made_d dcp True (dc_tbl_no sp ! ci) (dec_dc_tbls d1 ! (dc_tbl_no sp ! ci))"
      "made_d acp False (ac_tbl_no sp ! ci) (dec_ac_tbls d1 ! (ac_tbl_no sp ! ci))" by (auto simp flip: no)
    have "d_component_needed (comps ! ci) \<and> 1 < d_DCT_scaled_size (comps ! ci)" using s c by (simp add: same_scan_def)
    with made_paired [OF w(1) Ec(1) Dc(1)] made_paired [OF w(2) Ec(2) Dc(2)] b ci show ?thesis
      by (simp add: dd block_match_def reads_tables_def Let_def no [unfolded ci])
  qed
  then show ?thesis by (simp add: list_all2_conv_all_nth dd)
qed

lemma start_in_step:
  assumes "wf_tables dcp" "wf_tables acp" "same_scan sp comps"
    and "wf_c_space (dc_derived_tbls e0)" "wf_c_space (ac_derived_tbls e0)"
    and "wf_d_space (dec_dc_tbls d0)" "wf_d_space (dec_ac_tbls d0)"
    and e: "start_pass_huff dcp acp sp e0 = Inr e"
    and d: "start_pass_huff_decoder dcp acp comps (MCU_membership sp) (of_nat (restart_interval sp)) d0 = Inr d"
    and "drop (comps_in_scan sp) (dec_last_dc d0) = drop (comps_in_scan sp) (last_dc_val (saved e0))"
    and src: "live (bitstate d0)" "unread_marker (bitstate d0) = 0" "dec_source.next_restart_num (bitstate d0) = 0"
      "upcoming (bitstate d0) = scan_bytes sp ms e [] [] @ aft" and aft: "aft = 0xFF # mk # rest" "mk \<noteq> 0" "mk \<noteq> 0xFF"
  shows "in_step sp ms aft e d"
proof -
  have se: "saved e = \<lparr>put_buffer = 0, put_bits = 0, last_dc_val = replicate (comps_in_scan sp) 0 @ drop (comps_in_scan sp) (last_dc_val (saved e0))\<rparr>"
    "restarts_to_go e = restart_interval sp" "huff_entropy_encoder.next_restart_num e = 0"
    using e enc_tables_made [OF assms(1,2) _ assms(4,5)]
    by (auto simp: start_pass_huff_def result_simps Let_def)
  have sd: "dec_last_dc d = last_dc_val (saved e)" "dec_restarts_to_go d = of_nat (restart_interval sp)"
    "bitstate d = (bitstate d0)\<lparr>bits_left := 0, get_buffer := 0, insufficient_data := False\<rparr>"
    using d dec_tables_made [OF assms(1,2) _ assms(6,7)] assms(3,10)
    by (auto simp: start_pass_huff_decoder_def result_simps Let_def se same_scan_def)
  have ri: "restart_interval sp < 2 ^ 32" using assms(3) by (simp add: same_scan_def)
  have s2: "live (bitstate d)" "unread_marker (bitstate d) = 0" "bits_left (bitstate d) = 0"
    "upcoming (bitstate d) = upcoming (bitstate d0)"
    using src(1,2) by (simp_all add: sd live_def upcoming_def)
  have n8: "huff_entropy_encoder.next_restart_num e < 8" by (simp add: se)
  from seg_tail_marker [OF n8 aft] obtain mk' rest' where
    tail: "seg_tail sp ms e aft = 0xFF # mk' # rest'" "mk' \<noteq> 0" "mk' \<noteq> 0xFF" by blast
  have "upcoming (bitstate d) = flushed (seg_bits sp ms e) @ 0xFF # mk' # rest'"
    using s2(4) src(4) scan_bytes_seg [of sp ms e "[]" "[]" aft] by (simp add: tail)
  from bits_ahead_start [OF s2(1) this tail(2,3) s2(2,3)] tail(1)
  have "\<exists>pad mk rest. seg_tail sp ms e aft = 0xFF # mk # rest \<and> length pad < 8 \<and>
        bits_ahead (seg_bits sp ms e @ pad) mk rest (bitstate d)" by blast
  with start_tables [OF assms(1-9)] ri src(3) n8 show ?thesis
    unfolding in_step_def by (simp add: sd se u32_of_nat [OF ri])
qed

text \<open>
  C1. What \<open>jchuff.c\<close> writes, \<open>jdhuff.c\<close> reads back. Both passes are started on the same Huffman
  tables and the same scan; the encoder writes the MCUs \<open>ms\<close> through a memory destination, ends the
  pass, and any source that delivers those bytes followed by a marker, cut into buffers in any way,
  makes the decoder return exactly \<open>ms\<close>, through its fast path or its slow one. This holds under two limits
  that the code does not check and that legal MCUs of noise can exceed. Every symbol must have a code and no block
  may take more than 1008 bits (\<open>scan_codable\<close>): a longer one can overflow the encoder's \<open>_buffer\<close>. And without
  restart markers an MCU, with the 31 bits that may be waiting, must not take more than 4 bits for each of the
  \<open>BUFSIZE\<close> bytes per block that the decoder looks for before it takes the fast path, which is 512 bits per
  block (\<open>scan_fits\<close>): a longer one can make that path read past the end of the buffer. The DC predictions of
  components outside the scan, which neither side uses, are taken to be equal at the start.
\<close>

theorem scan_roundtrip:
  assumes "wf_tables dcp" "wf_tables acp" "same_scan sp comps"
    and "wf_c_space (dc_derived_tbls e0)" "wf_c_space (ac_derived_tbls e0)"
    and "wf_d_space (dec_dc_tbls d0)" "wf_d_space (dec_ac_tbls d0)"
    and "start_pass_huff dcp acp sp e0 = Inr e"
    and "start_pass_huff_decoder dcp acp comps (MCU_membership sp) (of_nat (restart_interval sp)) d0 = Inr d"
    and "drop (comps_in_scan sp) (dec_last_dc d0) = drop (comps_in_scan sp) (last_dc_val (saved e0))"
    and "wf_scan sp ms" "scan_codable sp ms e"
    and "mem_ok ma al lo dest" "0 < free_in_buffer dest" "next_output_byte dest = 0"
    and "encode_scan (empty_mem_output_buffer ma) sp ms e dest = Inr (True, dest')"
    and "live (bitstate d0)" "unread_marker (bitstate d0) = 0" "dec_source.next_restart_num (bitstate d0) = 0"
    and "upcoming (bitstate d0) = pending dest' @ 0xFF # mk # rest" "mk \<noteq> 0" "mk \<noteq> 0xFF"
    and "scan_fits sp ms e"
  shows "\<exists>d'. decode_mcus resync (comps_in_scan sp) (of_nat (restart_interval sp)) (length (MCU_membership sp)) (length ms) d =
     Inr (True, ms, d')"
proof -
  have "put_bits (saved e) = 0" using assms(8) by (auto simp: start_pass_huff_def result_simps Let_def)
  note h = holds_start [where dest_ok = "mem_ok ma al lo" and handed = "\<lambda>_. []", OF assms(13) this]
  from mem.encode_scan_bytes [OF h assms(14,12)] assms(15,16) have "pending dest' = scan_bytes sp ms e [] []"
    by (simp add: pending_def)
  with assms(20) have u: "upcoming (bitstate d0) = scan_bytes sp ms e [] [] @ 0xFF # mk # rest" by simp
  have "in_step sp ms (0xFF # mk # rest) e d"
    by (rule start_in_step [OF assms(1-10) assms(17-19) u refl assms(21,22)])
  from decode_mcus_in_step [OF this refl assms(21,22) assms(11,12,23)] show ?thesis .
qed

section \<open>A small round trip\<close>

text \<open>A table with three 2-bit codes, for the symbols 0, 2 and 1; one component, one MCU, one block.\<close>

definition tiny_tbl :: JHUFF_TBL where
  "tiny_tbl = \<lparr>bits = [0, 0, 3] @ replicate 14 0, huffval = [0, 2, 1] @ replicate 253 0, sent_table = False\<rparr>"

definition tiny_ptrs :: "JHUFF_TBL option list" where
  "tiny_ptrs = [Some tiny_tbl, None, None, None]"

definition tiny_e0 :: huff_entropy_encoder where
  "tiny_e0 = \<lparr>saved = \<lparr>put_buffer = 0, put_bits = 0, last_dc_val = [0, 0, 0, 0]\<rparr>, restarts_to_go = 0,
     next_restart_num = 0, dc_derived_tbls = replicate 4 \<lparr>ehufco = replicate 256 0, ehufsi = replicate 256 0\<rparr>,
     ac_derived_tbls = replicate 4 \<lparr>ehufco = replicate 256 0, ehufsi = replicate 256 0\<rparr>\<rparr>"

definition tiny_space :: d_derived_tbl where
  "tiny_space = \<lparr>maxcode = replicate 18 0, valoffset = replicate 18 0, pub = tiny_tbl, lookup = []\<rparr>"

definition tiny_d0 :: huff_entropy_decoder where
  "tiny_d0 = \<lparr>bitstate = \<lparr>input = [], fills = [[0x73, 0xFF], [0xD9]], unread_marker = 0, next_restart_num = 0,
       discarded_bytes = 0, get_buffer = 0, bits_left = 0, insufficient_data = False\<rparr>,
     dec_last_dc = [0, 0, 0, 0], dec_restarts_to_go = 0, dec_dc_tbls = replicate 4 tiny_space,
     dec_ac_tbls = replicate 4 tiny_space, block_infos = []\<rparr>"

definition tiny_comps :: "dec_component list" where
  "tiny_comps = [\<lparr>d_dc_tbl_no = 0, d_ac_tbl_no = 0, d_component_needed = True, d_DCT_scaled_size = 8\<rparr>]"

definition tiny_dest :: my_mem_destination_mgr where
  "tiny_dest = \<lparr>buffer = [0, 0], next_output_byte = 0, free_in_buffer = 2, outbuffer = [], outsize = 0, newbuffer = True,
     bufsize = 2, alloc = True\<rparr>"

definition tiny_e :: huff_entropy_encoder where
  "tiny_e = projr (start_pass_huff tiny_ptrs tiny_ptrs small_sp tiny_e0)"

definition tiny_d :: huff_entropy_decoder where
  "tiny_d = projr (start_pass_huff_decoder tiny_ptrs tiny_ptrs tiny_comps [0] 0 tiny_d0)"

lemma tiny_starts:
  "start_pass_huff tiny_ptrs tiny_ptrs small_sp tiny_e0 = Inr tiny_e"
proof -
  have "\<not> isl (start_pass_huff tiny_ptrs tiny_ptrs small_sp tiny_e0)" by code_simp
  then show ?thesis by (simp add: tiny_e_def)
qed

lemma make_d_total:
  assumes "find_htbl ptrs no = Inr h" "huff_sizes h = Inr hs" "huff_codes hs = Inr cs"
    and "isDC \<longrightarrow> (\<forall>v \<in> set (take (length hs) (huffval h)). unat v \<le> 15)"
  shows "\<not> isl (jpeg_make_d_derived_tbl ptrs isDC no d)"
  using assms by (auto simp: jpeg_make_d_derived_tbl_def Let_def not_less)

lemma tiny_make_d: "\<not> isl (jpeg_make_d_derived_tbl tiny_ptrs isDC 0 d)"
proof (rule make_d_total)
  show "find_htbl tiny_ptrs 0 = Inr tiny_tbl" by code_simp
  show "huff_sizes tiny_tbl = Inr [2, 2, 2]" by code_simp
  show "huff_codes [2, 2, 2] = Inr [0, 1, 2]" by code_simp
  show "isDC \<longrightarrow> (\<forall>v \<in> set (take (length [2, 2, 2::nat]) (huffval tiny_tbl)). unat v \<le> 15)"
    by (simp add: tiny_tbl_def)
qed

lemma not_isl: "\<not> isl x \<Longrightarrow> \<exists>y. x = Inr y"
  by (cases x) simp_all

lemma tiny_starts_any: "\<exists>d. start_pass_huff_decoder tiny_ptrs tiny_ptrs tiny_comps [0] ri tiny_d0 = Inr d"
  using not_isl [OF tiny_make_d] unfolding start_pass_huff_decoder_def tiny_comps_def
  by (simp add: result_simps Let_def) blast

lemma tiny_starts_dec: "start_pass_huff_decoder tiny_ptrs tiny_ptrs tiny_comps [0] 0 tiny_d0 = Inr tiny_d"
  using tiny_starts_any [of 0] unfolding tiny_d_def by (metis sum.sel(2))

lemma tiny_codable: "scan_codable small_sp small_scan tiny_e"
  by code_simp

lemma tiny_dest': "encode_scan (empty_mem_output_buffer (\<lambda>n. Some (replicate n 0))) small_sp small_scan tiny_e tiny_dest =
   Inr (True, tiny_dest\<lparr>buffer := [0x73, 0], next_output_byte := 1, free_in_buffer := 1\<rparr>)"
  by code_simp

theorem scan_roundtrip_witness:
  "\<exists>d'. decode_mcus jpeg_resync_to_restart 1 0 1 1 tiny_d = Inr (True, [[3 # replicate 63 0]], d')"
proof -
  have w: "wf_tables tiny_ptrs" by (simp add: wf_tables_def tiny_ptrs_def wf_htbl_def tiny_tbl_def)
  have s: "same_scan small_sp tiny_comps" by (simp add: same_scan_def small_sp_def tiny_comps_def)
  have ce: "wf_c_space (dc_derived_tbls tiny_e0)" "wf_c_space (ac_derived_tbls tiny_e0)"
    by (simp_all add: wf_c_space_def tiny_e0_def)
  have cd: "wf_d_space (dec_dc_tbls tiny_d0)" "wf_d_space (dec_ac_tbls tiny_d0)"
    by (simp_all add: wf_d_space_def tiny_d0_def tiny_space_def)
  have d: "start_pass_huff_decoder tiny_ptrs tiny_ptrs tiny_comps (MCU_membership small_sp) (of_nat (restart_interval small_sp)) tiny_d0 =
    Inr tiny_d" using tiny_starts_dec by (simp add: small_sp_def)
  have p: "drop (comps_in_scan small_sp) (dec_last_dc tiny_d0) = drop (comps_in_scan small_sp) (last_dc_val (saved tiny_e0))"
    by (simp add: tiny_d0_def tiny_e0_def)
  have ms: "wf_scan small_sp small_scan" by (simp add: wf_scan_def small_sp_def small_scan_def wf_block_def)
  have m: "mem_ok (\<lambda>n. Some (replicate n 0)) True 2 tiny_dest" "0 < free_in_buffer tiny_dest" "next_output_byte tiny_dest = 0"
    by (simp_all add: mem_ok_def tiny_dest_def)
  have src: "live (bitstate tiny_d0)" "unread_marker (bitstate tiny_d0) = 0" "dec_source.next_restart_num (bitstate tiny_d0) = 0"
    "upcoming (bitstate tiny_d0) = pending (tiny_dest\<lparr>buffer := [0x73, 0], next_output_byte := 1, free_in_buffer := 1\<rparr>) @ 0xFF # 0xD9 # []"
    by (simp_all add: tiny_d0_def live_def upcoming_def pending_def)
  have f: "scan_fits small_sp small_scan tiny_e" by code_simp
  from scan_roundtrip [OF w w s ce cd tiny_starts d p ms tiny_codable m tiny_dest' src _ _ f, of jpeg_resync_to_restart] show ?thesis
    by (simp add: small_sp_def small_scan_def)
qed

end
