(* ===== verification/HuffSafe.thy ===== *)
theory HuffSafe imports HuffRoundtrip begin

text \<open>
  The decoder on arbitrary input: with tables accepted by \<open>jpeg_make_d_derived_tbl\<close> no array is
  accessed outside its bounds, whatever bytes and markers the source delivers.
\<close>

section \<open>The bits in the buffer\<close>

definition held :: "bitread \<Rightarrow> bool list" where
  "held s = bits_of (bits_left s) (get_buffer s)"

definition wf_bits :: "bitread \<Rightarrow> bool" where
  "wf_bits s \<longleftrightarrow> bits_left s \<le> 32"

lemma length_held [simp]: "length (held s) = bits_left s"
  by (simp add: held_def)

lemma fill_loop_held:
  "fill_loop s = Inr (hit, s') \<Longrightarrow> wf_bits s \<Longrightarrow>
   wf_bits s' \<and> prefix (held s) (held s') \<and> (hit \<or> MIN_GET_BITS \<le> bits_left s')"
proof (induction s rule: fill_loop.induct)
  case (1 s)
  show ?case
  proof (cases "bits_left s < MIN_GET_BITS")
    case False
    then have "fill_loop s = Inr (False, s)" by (subst fill_loop.simps) simp
    with "1.prems" False show ?thesis by simp
  next
    case less: True
    with "1.prems" obtain c t where c: "next_byte s = Some (c, t)"
      by (subst (asm) fill_loop.simps) (auto split: option.splits)
    have st: "held t = held s" "bits_left t = bits_left s"
      using same_decoder_bits [OF conjunct1 [OF conjunct2 [OF next_byte_Some [OF c]]]] by (simp_all add: held_def)
    have l8: "bits_left s + 8 \<le> 32" using less by (simp add: MIN_GET_BITS_def)
    have load: "wf_bits (load_byte b u)" "prefix (held s) (held (load_byte b u))" if "held u = held s" "bits_left u = bits_left s" for b u
      using load_ahead [of u b] that l8 by (simp_all add: wf_bits_def held_def)
    show ?thesis
    proof (cases "c = 0xFF")
      case False
      with less c "1.prems" have "fill_loop (load_byte c t) = Inr (hit, s')" by (subst (asm) fill_loop.simps) simp
      from "1.IH"(2) [OF less c refl False this] load [OF st] show ?thesis using prefix_order.trans by blast
    next
      case True
      with less c "1.prems" obtain x u where u: "skip_ff t = Some (x, u)"
        by (subst (asm) fill_loop.simps) (auto split: option.splits)
      have su: "held u = held s" "bits_left u = bits_left s"
        using same_decoder_bits [OF conjunct1 [OF conjunct2 [OF skip_ff_Some [OF u]]]] st by (simp_all add: held_def)
      show ?thesis
      proof (cases "x = 0")
        case x0: True
        with True less c u "1.prems" have "fill_loop (load_byte 0xFF u) = Inr (hit, s')" by (subst (asm) fill_loop.simps) simp
        from "1.IH"(1) [OF less c refl True u refl x0 this] load [OF su] show ?thesis using prefix_order.trans by blast
      next
        case False
        with True less c u have "fill_loop s = Inr (True, u\<lparr>unread_marker := unat x\<rparr>)" by (subst fill_loop.simps) simp
        with "1.prems" have "hit" "s' = u\<lparr>unread_marker := unat x\<rparr>" by simp_all
        with su "1.prems"(2) show ?thesis by (simp add: wf_bits_def held_def)
      qed
    qed
  qed
qed

lemma no_more_bytes_held:
  assumes "wf_bits s" "n \<le> MIN_GET_BITS"
  shows "wf_bits (no_more_bytes n s)" "prefix (held s) (held (no_more_bytes n s))" "n \<le> bits_left (no_more_bytes n s)"
proof -
  have "bits_of 25 (push_bit (25 - p) g) = bits_of p g @ bits_of (25 - p) (0::u32)" if "p < 25" for p and g :: u32
    using bits_of_put [of p "25 - p" "0::u32" g] that by simp
  then show "wf_bits (no_more_bytes n s)" "prefix (held s) (held (no_more_bytes n s))" "n \<le> bits_left (no_more_bytes n s)"
    using assms by (auto simp: no_more_bytes_def wf_bits_def held_def MIN_GET_BITS_def)
qed

lemma fill_held:
  assumes "jpeg_fill_bit_buffer n s = Inr s'" "wf_bits s" "n \<le> MIN_GET_BITS"
  shows "wf_bits s' \<and> prefix (held s) (held s') \<and> n \<le> bits_left s'"
proof (cases "unread_marker s = 0")
  case False
  with assms no_more_bytes_held [OF assms(2,3)] show ?thesis by (auto simp: jpeg_fill_bit_buffer_def)
next
  case True
  with assms(1) obtain hit t where t: "fill_loop s = Inr (hit, t)" "s' = (if hit then no_more_bytes n t else t)"
    by (auto simp: jpeg_fill_bit_buffer_def result_simps)
  from fill_loop_held [OF t(1) assms(2)] no_more_bytes_held [of t n] t(2) assms(3) show ?thesis
    by (cases hit) (auto intro: prefix_order.trans)
qed

lemma check_held:
  "CHECK_BIT_BUFFER n s = Inr s' \<Longrightarrow> wf_bits s \<Longrightarrow> n \<le> MIN_GET_BITS \<Longrightarrow>
   wf_bits s' \<and> prefix (held s) (held s') \<and> n \<le> bits_left s'"
  using fill_held [of n s s'] by (auto simp: CHECK_BIT_BUFFER_def split: if_splits)

lemma peek_held: "n \<le> bits_left s \<Longrightarrow> wf_bits s \<Longrightarrow> n < 32 \<Longrightarrow> PEEK_BITS n s = bits_val (take n (held s))"
  using peek_bits [of n s] by (simp add: held_def wf_bits_def)

lemma wf_drop [simp]: "wf_bits s \<Longrightarrow> wf_bits (DROP_BITS n s)"
  by (simp add: wf_bits_def DROP_BITS_def)

lemma no_fill_error: "jpeg_fill_bit_buffer n s = Inl f \<Longrightarrow> f = Suspended"
proof -
  have "fill_loop s = Inl f \<Longrightarrow> f = Suspended" for s
  proof (induction s rule: fill_loop.induct)
    case (1 s)
    show ?case by (rule "1.prems" [THEN rev_mp], subst fill_loop.simps) (auto split: option.splits dest: "1.IH")
  qed
  then show "jpeg_fill_bit_buffer n s = Inl f \<Longrightarrow> f = Suspended"
    by (auto simp: jpeg_fill_bit_buffer_def result_simps split: if_splits)
qed

lemma no_check_error: "CHECK_BIT_BUFFER n s = Inl f \<Longrightarrow> f = Suspended"
  using no_fill_error by (auto simp: CHECK_BIT_BUFFER_def split: if_splits)

section \<open>The bit-serial search stops at a code\<close>

definition above :: "d_derived_tbl \<Rightarrow> nat \<Rightarrow> nat \<Rightarrow> bool" where
  "above dtbl l code \<longleftrightarrow> (\<forall>l'. 1 \<le> l' \<and> l' < l \<longrightarrow> maxcode dtbl ! l' < int (code div 2 ^ (l - l')))"

lemma stop_index:
  assumes t: "table_pair dtbl htbl hs cs" and a: "above dtbl l code" and l: "1 \<le> l" "l \<le> 16" and le: "int code \<le> maxcode dtbl ! l"
  shows "\<exists>p < length hs. hs ! p = l \<and> cs ! p = code"
proof -
  have d: "derived_dec dtbl htbl hs cs" and can: "canonical hs cs" using t by (simp_all add: table_pair_def)
  have mem: "l \<in> set hs"
  proof (rule ccontr)
    assume "l \<notin> set hs"
    then have "maxcode dtbl ! l = -1" using d l by (simp add: derived_dec_def)
    with le show False by simp
  qed
  from derived_dec_max [OF d l mem] obtain q where q: "q < length hs" "hs ! q = l" "maxcode dtbl ! l = int (cs ! q)" by blast
  define P where "P p \<longleftrightarrow> p < length hs \<and> hs ! p = l \<and> code \<le> cs ! p" for p
  define p where "p = (LEAST p. P p)"
  have "P q" using q le by (simp add: P_def)
  then have "P p" unfolding p_def by (rule LeastI)
  then have p: "p < length hs" "hs ! p = l" "code \<le> cs ! p" by (simp_all add: P_def)
  have least: "P r \<Longrightarrow> p \<le> r" for r unfolding p_def by (rule Least_le)
  have "\<not> code < cs ! p"
  proof
    assume lt: "code < cs ! p"
    have "p \<noteq> 0"
    proof
      assume "p = 0"
      moreover have "cs ! 0 = 0" using can p(1) by (auto simp: canonical_def)
      ultimately show False using lt by simp
    qed
    then obtain r where r: "p = Suc r" by (cases p) auto
    have nx: "cs ! p = (cs ! r + 1) * 2 ^ (hs ! p - hs ! r)" "hs ! r \<le> hs ! p" "1 \<le> hs ! r" "hs ! r \<le> 16"
      using can p(1) r by (auto simp: canonical_def intro: sorted_nth_mono)
    show False
    proof (cases "hs ! r = l")
      case True
      then have "P r" using nx(1) lt p r by (simp add: P_def)
      then show False using least r by fastforce
    next
      case False
      then have lr: "hs ! r < l" using nx(2) p(2) by simp
      have "hs ! r \<in> set hs" using p(1) r by simp
      from derived_dec_max [OF d nx(3,4) this] obtain q' where q': "q' < length hs" "hs ! q' = hs ! r"
        "maxcode dtbl ! (hs ! r) = int (cs ! q')" "r \<le> q'" using p(1) r by fastforce
      have "q' < p"
      proof (rule ccontr)
        assume "\<not> q' < p"
        then have "hs ! p \<le> hs ! q'" using can q'(1) by (auto simp: canonical_def intro: sorted_nth_mono)
        with q'(2) lr p(2) show False by simp
      qed
      with q'(4) r have "q' = r" by simp
      with a nx(3) lr q'(3) have "cs ! r + 1 \<le> code div 2 ^ (l - hs ! r)" by (force simp: above_def)
      then have "(cs ! r + 1) * 2 ^ (l - hs ! r) \<le> code" by (simp add: less_eq_div_iff_mult_less_eq)
      with nx(1) p(2) lt show False by simp
    qed
  qed
  with p show ?thesis by (metis le_neq_implies_less)
qed

lemma shift_in: "b \<le> 1 \<Longrightarrow> push_bit 1 code OR b = 2 * code + (b::nat)"
proof -
  assume "b \<le> 1"
  then have "b = of_bool (b = 1)" by auto
  then have "push_bit 1 code OR b = push_bit 1 code OR of_bool (b = 1)" by (rule arg_cong)
  also have "\<dots> = 2 * code + of_bool (b = 1)" by (rule push_or_bit)
  finally show ?thesis using \<open>b \<le> 1\<close> by auto
qed

lemma above_Suc:
  assumes "above dtbl l code" "maxcode dtbl ! l < int code" "b \<le> 1"
  shows "above dtbl (Suc l) (push_bit 1 code OR b)"
proof -
  note e = shift_in [OF assms(3), of code]
  have "(2 * code + b) div 2 ^ (Suc l - l') = code div 2 ^ (l - l')" if "l' \<le> l" for l'
  proof -
    have "(2 * code + b) div 2 ^ Suc (l - l') = (2 * code + b) div 2 div 2 ^ (l - l')"
      by (simp only: power_Suc div_mult2_eq)
    also have "(2 * code + b) div 2 = code" using assms(3) by simp
    finally show ?thesis using that by (simp add: Suc_diff_le)
  qed
  then show ?thesis
    unfolding e above_def using assms(1,2) by (auto simp: above_def less_Suc_eq)
qed

lemma bits_val_le1: "length bs \<le> 1 \<Longrightarrow> bits_val bs \<le> 1"
proof -
  assume "length bs \<le> 1"
  then have "(2::nat) ^ length bs \<le> 2 ^ 1" by (intro power_increasing) simp_all
  with bits_val_less [of bs] show ?thesis by simp
qed

lemma peek1: "1 \<le> bits_left u \<Longrightarrow> wf_bits u \<Longrightarrow> PEEK_BITS 1 u \<le> 1"
proof -
  assume "1 \<le> bits_left u" "wf_bits u"
  then have "PEEK_BITS 1 u = bits_val (take 1 (held u))" by (rule peek_held) simp
  then show ?thesis using bits_val_le1 [of "take 1 (held u)"] by (simp only: length_take min.cobounded2)
qed

lemma code_loop_safe:
  assumes t: "table_pair dtbl htbl hs cs"
  shows "wf_bits s \<Longrightarrow> 1 \<le> l \<Longrightarrow> l \<le> 17 \<Longrightarrow> code < 2 ^ l \<Longrightarrow> above dtbl l code \<Longrightarrow>
    (case code_loop dtbl l code s of
       Inl f \<Rightarrow> f = Suspended
     | Inr (l', code', s') \<Rightarrow> wf_bits s' \<and> (16 < l' \<or> (\<exists>p < length hs. hs ! p = l' \<and> cs ! p = code')))"
proof (induction "17 - l" arbitrary: l code s)
  case 0
  then have "l = 17" by simp
  moreover have "maxcode dtbl ! 17 = 0xFFFFF" using t by (simp add: table_pair_def derived_dec_def)
  ultimately show ?case using 0 by (subst code_loop.simps) simp
next
  case (Suc x)
  then have l: "l \<le> 16" by simp
  show ?case
  proof (cases "maxcode dtbl ! l < int code")
    case False
    with stop_index [OF t Suc.prems(5,2) l] Suc.prems(1) l show ?thesis by (subst code_loop.simps) simp
  next
    case True
    show ?thesis
    proof (cases "CHECK_BIT_BUFFER 1 s")
      case (Inl f)
      moreover have "f = Suspended" by (rule no_check_error [OF Inl])
      ultimately show ?thesis using True l by (subst code_loop.simps) simp
    next
      case (Inr u)
      have u: "wf_bits u" "1 \<le> bits_left u" using check_held [OF Inr Suc.prems(1)] by (simp_all add: MIN_GET_BITS_def)
      have b: "PEEK_BITS 1 u \<le> 1" by (rule peek1 [OF u(2,1)])
      note eq = shift_in [OF b, of code]
      have lt: "push_bit 1 code OR PEEK_BITS 1 u < 2 ^ Suc l" unfolding eq using b Suc.prems(4) by simp
      have "code_loop dtbl l code s = code_loop dtbl (Suc l) (push_bit 1 code OR PEEK_BITS 1 u) (DROP_BITS 1 u)"
        using True l Inr by (subst code_loop.simps) (simp add: GET_BITS_def)
      with Suc.hyps(1) [OF _ _ _ _ lt above_Suc [OF Suc.prems(5) True b], of "DROP_BITS 1 u"] Suc.hyps(2) u(1) l show ?thesis
        by simp
    qed
  qed
qed

section \<open>A symbol\<close>

text \<open>What the tables of a pass must give; the DC symbols are bit counts.\<close>

definition safe_tbl :: "bool \<Rightarrow> d_derived_tbl \<Rightarrow> bool" where
  "safe_tbl isDC dtbl \<longleftrightarrow> (\<exists>htbl hs cs. table_pair dtbl htbl hs cs \<and>
     (isDC \<longrightarrow> (\<forall>p < length hs. unat (huffval htbl ! p) \<le> 15)))"

definition good_symbol :: "nat \<Rightarrow> bool \<Rightarrow> nat \<Rightarrow> bool" where
  "good_symbol lim isDC v \<longleftrightarrow> v < 256 \<and> (isDC \<longrightarrow> v \<le> lim)"

lemma huff_decode_safe:
  assumes t: "table_pair dtbl htbl hs cs" and dc: "isDC \<longrightarrow> (\<forall>p < length hs. unat (huffval htbl ! p) \<le> 15)"
    and wf: "wf_bits s" and n: "1 \<le> n" "n \<le> 16"
    and a: "\<And>s'. CHECK_BIT_BUFFER n s = Inr s' \<Longrightarrow> above dtbl n (PEEK_BITS n s')"
  shows "case jpeg_huff_decode dtbl n s of Inl f \<Rightarrow> f = Suspended | Inr (v, s') \<Rightarrow> wf_bits s' \<and> good_symbol 15 isDC v"
proof (cases "CHECK_BIT_BUFFER n s")
  case (Inl f)
  then show ?thesis using no_check_error [OF Inl] by (simp add: jpeg_huff_decode_def)
next
  case (Inr u)
  have u: "wf_bits u" "n \<le> bits_left u" using check_held [OF Inr wf] n by (simp_all add: MIN_GET_BITS_def)
  have "PEEK_BITS n u = bits_val (take n (held u))" using peek_held [OF u(2,1)] n by simp
  then have lt: "PEEK_BITS n u < 2 ^ n" using bits_val_less [of "take n (held u)"] u(2) by simp
  have l17: "n \<le> 17" using n by simp
  note L = code_loop_safe [OF t wf_drop [OF u(1)] n(1) l17 lt a [OF Inr]]
  show ?thesis
  proof (cases "code_loop dtbl n (PEEK_BITS n u) (DROP_BITS n u)")
    case Inl' : (Inl f)
    with L [of n] Inr show ?thesis by (simp add: jpeg_huff_decode_def GET_BITS_def)
  next
    case Inr': (Inr r)
    obtain l code v where r: "r = (l, code, v)" by (cases r)
    with L [of n] Inr' have v: "wf_bits v" and st: "16 < l \<or> (\<exists>p < length hs. hs ! p = l \<and> cs ! p = code)" by simp_all
    show ?thesis
    proof (cases "16 < l")
      case True
      with Inr Inr' r v show ?thesis by (simp add: jpeg_huff_decode_def GET_BITS_def good_symbol_def)
    next
      case False
      with st obtain p where p: "p < length hs" "hs ! p = l" "cs ! p = code" by blast
      have d: "derived_dec dtbl htbl hs cs" and len: "length hs \<le> 256" using t by (simp_all add: table_pair_def)
      from d p have "valoffset dtbl ! l = int p - int code" "pub dtbl = htbl" by (auto simp: derived_dec_def)
      moreover have "unat (huffval htbl ! p) < 256" using unsigned_less [of "huffval htbl ! p"] by simp
      moreover have "isDC \<longrightarrow> unat (huffval htbl ! p) \<le> 15" using dc p(1) by blast
      ultimately show ?thesis using Inr Inr' r v False p(1) len by (simp add: jpeg_huff_decode_def GET_BITS_def good_symbol_def)
    qed
  qed
qed

lemma above_1 [simp]: "above dtbl 1 code"
  by (simp add: above_def)

text \<open>No code of at most 8 bits starts the bits the lookup sends to the slow path.\<close>

lemma lookup_above:
  assumes t: "table_pair dtbl htbl hs cs" and w: "w < 256" "lookup dtbl ! w = 9 * 256" and c: "code div 2 = w"
  shows "above dtbl 9 code"
proof (rule ccontr)
  assume "\<not> above dtbl 9 code"
  then have ex: "\<exists>l. 1 \<le> l \<and> l < 9 \<and> int (code div 2 ^ (9 - l)) \<le> maxcode dtbl ! l" (is "\<exists>l. ?P l")
    by (auto simp: above_def not_less)
  define l where "l = (LEAST l. ?P l)"
  have l: "1 \<le> l" "l < 9" "int (code div 2 ^ (9 - l)) \<le> maxcode dtbl ! l" using LeastI_ex [OF ex] by (simp_all add: l_def)
  have "above dtbl l (code div 2 ^ (9 - l))"
    unfolding above_def
  proof (intro allI impI)
    fix l' assume l': "1 \<le> l' \<and> l' < l"
    then have "\<not> ?P l'" unfolding l_def by (intro not_less_Least) simp
    moreover have "code div 2 ^ (9 - l) div 2 ^ (l - l') = code div 2 ^ (9 - l')"
      using l' l by (simp flip: div_mult2_eq power_add)
    ultimately show "maxcode dtbl ! l' < int (code div 2 ^ (9 - l) div 2 ^ (l - l'))" using l' l by simp
  qed
  moreover have "l \<le> 16" using l by simp
  ultimately obtain p where p: "p < length hs" "hs ! p = l" "cs ! p = code div 2 ^ (9 - l)"
    using stop_index [OF t _ l(1) _ l(3)] by blast
  have "code div 2 ^ (9 - l) = w div 2 ^ (8 - l)"
  proof -
    have "9 - l = Suc (8 - l)" using l by simp
    then have "code div 2 ^ (9 - l) = code div (2 * 2 ^ (8 - l))" by simp
    then show ?thesis using c by (simp only: div_mult2_eq)
  qed
  with p l have "lookup dtbl ! w = l * 256 + unat (huffval htbl ! p)"
    using t w(1) unfolding table_pair_def derived_dec_def by force
  moreover have "unat (huffval htbl ! p) < 256" using unsigned_less [of "huffval htbl ! p"] by simp
  ultimately show False using w(2) l(2) by simp
qed


lemma table_entry_cases:
  assumes t: "table_pair dtbl htbl hs cs" and w: "w < 256"
  obtains "lookup dtbl ! w = 9 * 256"
  | p where "p < length hs" "1 \<le> hs ! p" "hs ! p \<le> 8" "lookup dtbl ! w = hs ! p * 256 + unat (huffval htbl ! p)"
proof (cases "\<exists>p < length hs. hs ! p \<le> 8 \<and> w div 2 ^ (8 - hs ! p) = cs ! p")
  case True
  then obtain p where p: "p < length hs" "hs ! p \<le> 8" "w div 2 ^ (8 - hs ! p) = cs ! p" by blast
  with t w have "lookup dtbl ! w = hs ! p * 256 + unat (huffval htbl ! p)" unfolding table_pair_def derived_dec_def by blast
  moreover have "1 \<le> hs ! p" using t p(1) by (simp add: table_pair_def canonical_def)
  ultimately show ?thesis using p that(2) by blast
next
  case False
  with t w have "lookup dtbl ! w = 9 * 256" unfolding table_pair_def derived_dec_def by blast
  then show ?thesis by (rule that(1))
qed

lemma HUFF_DECODE_safe:
  assumes st: "safe_tbl isDC dtbl" and wf: "wf_bits s"
  shows "case HUFF_DECODE dtbl s of Inl f \<Rightarrow> f = Suspended | Inr (v, s') \<Rightarrow> wf_bits s' \<and> good_symbol 15 isDC v"
proof -
  from st obtain htbl hs cs where t: "table_pair dtbl htbl hs cs"
    and dc: "isDC \<longrightarrow> (\<forall>p < length hs. unat (huffval htbl ! p) \<le> 15)" by (auto simp: safe_tbl_def)
  let ?first = "if bits_left s < HUFF_LOOKAHEAD then jpeg_fill_bit_buffer 0 s else Inr s"
  show ?thesis
  proof (cases ?first)
    case (Inl f)
    then have "f = Suspended" using no_fill_error [of 0 s f] by (auto split: if_splits)
    with Inl show ?thesis by (simp add: HUFF_DECODE_def)
  next
    case (Inr u)
    have u: "wf_bits u" using Inr fill_held [of 0 s u] wf by (auto split: if_splits)
    show ?thesis
    proof (cases "bits_left u < HUFF_LOOKAHEAD")
      case True
      have "HUFF_DECODE dtbl s = jpeg_huff_decode dtbl 1 u" using Inr True by (simp add: HUFF_DECODE_def)
      also have "case \<dots> of Inl f \<Rightarrow> f = Suspended | Inr (v, s') \<Rightarrow> wf_bits s' \<and> good_symbol 15 isDC v"
        by (rule huff_decode_safe [OF t dc u _ _ above_1]) simp_all
      finally show ?thesis .
    next
      case False
      define w where "w = PEEK_BITS 8 u"
      have h8: "8 \<le> bits_left u" using False by (simp add: HUFF_LOOKAHEAD_def)
      have pw: "w = bits_val (take 8 (held u))" unfolding w_def by (rule peek_held [OF h8 u]) simp
      have w: "w < 256" using bits_val_less [of "take 8 (held u)"] h8 by (simp add: pw)
      have H: "HUFF_DECODE dtbl s =
        (if lookup dtbl ! w div 256 \<le> 8 then Inr (lookup dtbl ! w mod 256, DROP_BITS (lookup dtbl ! w div 256) u)
         else jpeg_huff_decode dtbl (lookup dtbl ! w div 256) u)"
        using Inr False take_bit_eq_mask [of 8 "lookup dtbl ! w"]
        by (simp add: HUFF_DECODE_def HUFF_LOOKAHEAD_def Let_def w_def drop_bit_eq_div mask_eq_exp_minus_1 take_bit_eq_mod push_bit_eq_mult)
      show ?thesis
      proof (rule table_entry_cases [OF t w])
        fix p assume p: "p < length hs" "1 \<le> hs ! p" "hs ! p \<le> 8" "lookup dtbl ! w = hs ! p * 256 + unat (huffval htbl ! p)"
        have v: "unat (huffval htbl ! p) < 256" using unsigned_less [of "huffval htbl ! p"] by simp
        moreover have "isDC \<longrightarrow> unat (huffval htbl ! p) \<le> 15" using dc p(1) by blast
        ultimately show ?thesis using u p by (simp add: H good_symbol_def)
      next
        assume nine: "lookup dtbl ! w = 9 * 256"
        have "above dtbl 9 (PEEK_BITS 9 v)" if c: "CHECK_BIT_BUFFER 9 u = Inr v" for v
        proof -
          have v: "wf_bits v" "9 \<le> bits_left v" "prefix (held u) (held v)" using check_held [OF c u] by (simp_all add: MIN_GET_BITS_def)
          have n9: "PEEK_BITS 9 v = bits_val (take 9 (held v))" by (rule peek_held [OF v(2,1)]) simp
          have "take 8 (held v) = take 8 (held u)" using v(3) h8 by (auto simp: prefix_def)
          then have "take 9 (held v) = take 8 (held u) @ [held v ! 8]"
            using v(2) take_Suc_conv_app_nth [of 8 "held v"] by simp
          then have "PEEK_BITS 9 v div 2 = w" unfolding n9 pw by (simp add: bits_val_snoc)
          then show ?thesis by (rule lookup_above [OF t w nine])
        qed
        with huff_decode_safe [OF t dc u, of 9] H nine show ?thesis by simp
      qed
    qed
  qed
qed


section \<open>A block\<close>

lemma receive_safe:
  assumes "wf_bits s" "n \<le> 15"
  shows "case receive_extend n s of Inl f \<Rightarrow> f = Suspended | Inr (v, s') \<Rightarrow> wf_bits s'"
proof (cases "CHECK_BIT_BUFFER n s")
  case (Inl f)
  then show ?thesis using no_check_error [OF Inl] by (simp add: receive_extend_def)
next
  case (Inr u)
  then have "wf_bits u" using check_held [OF Inr assms(1)] assms(2) by (simp add: MIN_GET_BITS_def)
  with Inr show ?thesis by (simp add: receive_extend_def GET_BITS_def)
qed

definition safe_info :: "nat \<Rightarrow> block_info \<Rightarrow> bool" where
  "safe_info n bi \<longleftrightarrow> membership bi < n \<and> safe_tbl True (dc_cur_tbl bi) \<and> safe_tbl False (ac_cur_tbl bi)"

text \<open>
  What the macros must give on arbitrary bytes: results in range, or a stop of the kinds \<open>stops\<close>; \<open>limit\<close>
  bounds the DC symbols.
\<close>

locale safe_source =
  fixes bm :: bit_macros and stops :: "stop \<Rightarrow> bool" and limit :: nat
  assumes symbol_safe: "safe_tbl isDC dtbl \<Longrightarrow> wf_bits s \<Longrightarrow>
      (case get_symbol bm dtbl s of Inl f \<Rightarrow> stops f | Inr (v, s') \<Rightarrow> wf_bits s' \<and> good_symbol limit isDC v)"
    and value_safe: "wf_bits s \<Longrightarrow> n \<le> limit \<Longrightarrow> (case get_value bm n s of Inl f \<Rightarrow> stops f | Inr (v, s') \<Rightarrow> wf_bits s')"
    and skip_safe: "wf_bits s \<Longrightarrow> n \<le> 15 \<Longrightarrow> (case skip_value bm n s of Inl f \<Rightarrow> stops f | Inr s' \<Rightarrow> wf_bits s')"
    and limit_15: "15 \<le> limit"
begin

lemma decode_dc_safe:
  assumes "safe_tbl True dtbl" "wf_bits s"
  shows "case decode_dc bm dtbl s of Inl f \<Rightarrow> stops f | Inr (v, s') \<Rightarrow> wf_bits s'"
proof (cases "get_symbol bm dtbl s")
  case (Inl f)
  with symbol_safe [OF assms] show ?thesis by (simp add: decode_dc_def)
next
  case (Inr r)
  obtain v u where r: "r = (v, u)" by (cases r)
  with symbol_safe [OF assms] Inr have u: "wf_bits u" "v \<le> limit" by (simp_all add: good_symbol_def)
  show ?thesis using value_safe [OF u] Inr r u by (simp add: decode_dc_def)
qed

lemma good_split: "good_symbol limit isDC v \<Longrightarrow> drop_bit 4 v \<le> 15 \<and> v AND 15 \<le> 15"
  by (auto simp: good_symbol_def drop_4 and_15)

lemma decode_ac_safe:
  assumes t: "safe_tbl False dtbl"
  shows "wf_bits s \<Longrightarrow> length block = 64 \<Longrightarrow>
    (case decode_ac bm dtbl k block s of Inl f \<Rightarrow> stops f | Inr (block', s') \<Rightarrow> wf_bits s' \<and> length block' = 64)"
proof (induction "64 - k" arbitrary: k block s rule: less_induct)
  case less
  show ?case
  proof (cases "k < 64")
    case False
    with less.prems show ?thesis by (subst decode_ac.simps) (simp add: DCTSIZE2_def)
  next
    case k: True
    show ?thesis
    proof (cases "get_symbol bm dtbl s")
      case (Inl f)
      with symbol_safe [OF t less.prems(1)] k show ?thesis by (subst decode_ac.simps) (simp add: DCTSIZE2_def)
    next
      case (Inr q)
      obtain v u where q: "q = (v, u)" by (cases q)
      with symbol_safe [OF t less.prems(1)] Inr have u: "wf_bits u" "good_symbol limit False v" by simp_all
      define r and n where "r = drop_bit 4 v" and "n = v AND 15"
      have rn: "r \<le> 15" "n \<le> 15" "n \<le> limit" using good_split [OF u(2)] limit_15 by (simp_all add: r_def n_def)
      have step: "decode_ac bm dtbl k block s =
        (if n \<noteq> 0 then ebind (get_value bm n u) (\<lambda>(v, br). if 80 \<le> k + r then Inl BadIndex
                   else decode_ac bm dtbl (k + r + 1) (block[jpeg_natural_order ! (k + r) := as_JCOEF v]) br)
         else if r \<noteq> 15 then Inr (block, u) else decode_ac bm dtbl (k + 15 + 1) block u)"
        using k Inr q by (subst decode_ac.simps) (simp add: Let_def r_def [symmetric] n_def [symmetric] DCTSIZE2_def cong: if_cong)
      show ?thesis
      proof (cases "n = 0")
        case True
        then show ?thesis using step less.hyps [of "k + 15 + 1" u block] u less.prems(2) k by (cases "r = 15") simp_all
      next
        case n0: False
        show ?thesis
        proof (cases "get_value bm n u")
          case (Inl f)
          with value_safe [OF u(1) rn(3)] step n0 show ?thesis by simp
        next
          case (Inr p)
          obtain x t' where p: "p = (x, t')" by (cases p)
          with value_safe [OF u(1) rn(3)] Inr have "wf_bits t'" by simp
          with less.hyps [of "k + r + 1" t' "block[jpeg_natural_order ! (k + r) := as_JCOEF x]"] less.prems(2) k rn step n0 Inr p
          show ?thesis by simp
        qed
      qed
    qed
  qed
qed

lemma skip_ac_safe:
  assumes t: "safe_tbl False dtbl"
  shows "wf_bits s \<Longrightarrow> (case skip_ac bm dtbl k s of Inl f \<Rightarrow> stops f | Inr s' \<Rightarrow> wf_bits s')"
proof (induction "64 - k" arbitrary: k s rule: less_induct)
  case less
  show ?case
  proof (cases "k < 64")
    case False
    with less.prems show ?thesis by (subst skip_ac.simps) (simp add: DCTSIZE2_def)
  next
    case k: True
    show ?thesis
    proof (cases "get_symbol bm dtbl s")
      case (Inl f)
      with symbol_safe [OF t less.prems(1)] k show ?thesis by (subst skip_ac.simps) (simp add: DCTSIZE2_def)
    next
      case (Inr q)
      obtain v u where q: "q = (v, u)" by (cases q)
      with symbol_safe [OF t less.prems(1)] Inr have u: "wf_bits u" "good_symbol limit False v" by simp_all
      define r and n where "r = drop_bit 4 v" and "n = v AND 15"
      have rn: "r \<le> 15" "n \<le> 15" using good_split [OF u(2)] by (simp_all add: r_def n_def)
      have step: "skip_ac bm dtbl k s =
        (if n \<noteq> 0 then ebind (skip_value bm n u) (skip_ac bm dtbl (k + r + 1))
         else if r \<noteq> 15 then Inr u else skip_ac bm dtbl (k + 15 + 1) u)"
        using k Inr q by (subst skip_ac.simps) (simp add: Let_def r_def [symmetric] n_def [symmetric] DCTSIZE2_def cong: if_cong)
      show ?thesis
      proof (cases "n = 0")
        case True
        then show ?thesis using step less.hyps [of "k + 15 + 1" u] u k by (cases "r = 15") simp_all
      next
        case n0: False
        show ?thesis
        proof (cases "skip_value bm n u")
          case (Inl f)
          with skip_safe [OF u(1) rn(2)] step n0 show ?thesis by simp
        next
          case (Inr t')
          have "wf_bits t'" using skip_safe [OF u(1) rn(2)] Inr by simp
          with less.hyps [of "k + r + 1" t'] k step n0 Inr show ?thesis by simp
        qed
      qed
    qed
  qed
qed

lemma decode_block_safe:
  assumes "safe_info n bi" "wf_bits s" "length block = 64"
  shows "case decode_block bm bi last_dc block s of Inl f \<Rightarrow> stops f | Inr (ld, b, s') \<Rightarrow> wf_bits s' \<and> length b = 64"
proof (cases "decode_dc bm (dc_cur_tbl bi) s")
  case (Inl f)
  with decode_dc_safe [of "dc_cur_tbl bi" s] assms show ?thesis by (simp add: decode_block_def safe_info_def)
next
  case (Inr r)
  obtain v u where r: "r = (v, u)" by (cases r)
  have t: "safe_tbl False (ac_cur_tbl bi)" and u: "wf_bits u"
    using decode_dc_safe [of "dc_cur_tbl bi" s] assms Inr r by (simp_all add: safe_info_def)
  show ?thesis
  proof (cases "ac_needed bi")
    case True
    define b where "b = (if dc_needed bi then block[0 := as_JCOEF (as_int (v + last_dc ! membership bi))] else block)"
    have "length b = 64" using assms(3) by (simp add: b_def)
    from decode_ac_safe [OF t u this, of 1] True Inr r show ?thesis
      by (cases "decode_ac bm (ac_cur_tbl bi) 1 b u") (auto simp: decode_block_def Let_def b_def split: if_splits)
  next
    case False
    from skip_ac_safe [OF t u, of 1] False Inr r assms(3) show ?thesis
      by (cases "skip_ac bm (ac_cur_tbl bi) 1 u") (auto simp: decode_block_def Let_def)
  qed
qed

lemma decode_blocks_safe:
  "\<forall>(bi, b) \<in> set bs. safe_info n bi \<and> length b = 64 \<Longrightarrow> wf_bits s \<Longrightarrow>
   (case decode_blocks bm bs last_dc s of Inl f \<Rightarrow> stops f | Inr (ld, bl, s') \<Rightarrow> wf_bits s' \<and> (\<forall>b \<in> set bl. length b = 64))"
proof (induction bs arbitrary: last_dc s)
  case (Cons p rest)
  obtain bi block where p: "p = (bi, block)" by (cases p)
  with Cons.prems have st: "safe_info n bi" "length block = 64" and rest: "\<forall>(bi, b) \<in> set rest. safe_info n bi \<and> length b = 64"
    by auto
  note B = decode_block_safe [OF st(1) Cons.prems(2) st(2), of last_dc]
  show ?case
  proof (cases "decode_block bm bi last_dc block s")
    case (Inl f)
    with B p show ?thesis by simp
  next
    case (Inr r)
    obtain ld b u where r: "r = (ld, b, u)" by (cases r)
    have u: "wf_bits u" "length b = 64" using B Inr r by simp_all
    from Cons.IH [OF rest u(1), of ld] u(2) Inr r p show ?thesis by (cases "decode_blocks bm rest ld u") auto
  qed
qed simp

end

text \<open>The slow macros only ever suspend.\<close>

interpretation slow_safe: safe_source slow_macros "\<lambda>f. f = Suspended" 15
proof
  fix isDC dtbl s assume "safe_tbl isDC dtbl" "wf_bits s"
  from HUFF_DECODE_safe [OF this]
  show "case get_symbol slow_macros dtbl s of Inl f \<Rightarrow> f = Suspended | Inr (v, s') \<Rightarrow> wf_bits s' \<and> good_symbol 15 isDC v"
    by (simp add: slow_macros_def)
next
  fix s n assume "wf_bits s" "n \<le> (15::nat)"
  from receive_safe [OF this] show "case get_value slow_macros n s of Inl f \<Rightarrow> f = Suspended | Inr (v, s') \<Rightarrow> wf_bits s'"
    by (simp add: slow_macros_def)
next
  fix s n assume w: "wf_bits s" "n \<le> (15::nat)"
  show "case skip_value slow_macros n s of Inl f \<Rightarrow> f = Suspended | Inr s' \<Rightarrow> wf_bits s'"
  proof (cases "CHECK_BIT_BUFFER n s")
    case (Inl f)
    then show ?thesis using no_check_error [OF Inl] by (simp add: slow_macros_def discard_def)
  next
    case (Inr t)
    then show ?thesis using check_held [OF Inr w(1)] w(2) by (simp add: slow_macros_def discard_def MIN_GET_BITS_def)
  qed
qed simp

text \<open>The fast ones may read past the buffer, or shift by a negative count, but access no table outside its bounds.\<close>

lemma fill_fast_safe:
  "wf_bits s \<Longrightarrow> case FILL_BIT_BUFFER_FAST s of Inl f \<Rightarrow> f = OverRead | Inr s' \<Rightarrow> wf_bits s' \<and> 16 \<le> bits_left s'"
  by (auto simp: FILL_BIT_BUFFER_FAST_def GET_BYTE_def wf_bits_def Let_def split: list.splits if_splits)

lemma fast_loop_safe:
  assumes t: "maxcode dtbl ! 17 = 0xFFFFF"
  shows "wf_bits s \<Longrightarrow> l \<le> 17 \<Longrightarrow> code < 2 ^ l \<Longrightarrow>
    (case fast_loop dtbl l code s of Inl f \<Rightarrow> f = BadShift | Inr (l', code', s') \<Rightarrow> wf_bits s' \<and> l' \<le> 17)"
proof (induction "17 - l" arbitrary: l code s)
  case 0
  then have "l = 17" by simp
  then show ?case using 0 t by (subst fast_loop.simps) simp
next
  case (Suc x)
  then have l: "l \<le> 16" by simp
  show ?case
  proof (cases "maxcode dtbl ! l < int code \<and> bits_left s \<noteq> 0")
    case False
    then show ?thesis using Suc.prems(1) l by (subst fast_loop.simps) auto
  next
    case True
    have b: "PEEK_BITS 1 s \<le> 1" by (rule peek1) (use True Suc.prems(1) in simp_all)
    have lt: "push_bit 1 code OR PEEK_BITS 1 s < 2 ^ Suc l" unfolding shift_in [OF b] using b Suc.prems(3) by simp
    have "fast_loop dtbl l code s = fast_loop dtbl (Suc l) (push_bit 1 code OR PEEK_BITS 1 s) (DROP_BITS 1 s)"
      using True l by (subst fast_loop.simps) (simp add: GET_BITS_def)
    then show ?thesis using Suc.hyps(1) [OF _ _ _ lt, of "DROP_BITS 1 s"] Suc.hyps(2) Suc.prems(1) l by simp
  qed
qed

lemma HUFF_DECODE_FAST_safe:
  assumes st: "safe_tbl isDC dtbl" and wf: "wf_bits s"
  shows "case HUFF_DECODE_FAST dtbl s of Inl f \<Rightarrow> f = OverRead \<or> f = BadShift | Inr (v, s') \<Rightarrow> wf_bits s' \<and> good_symbol 255 isDC v"
proof (cases "FILL_BIT_BUFFER_FAST s")
  case (Inl f)
  then show ?thesis using fill_fast_safe [OF wf] by (simp add: HUFF_DECODE_FAST_def)
next
  case (Inr u)
  then have u: "wf_bits u" "16 \<le> bits_left u" using fill_fast_safe [OF wf] by simp_all
  from st obtain htbl hs cs where t: "table_pair dtbl htbl hs cs" by (auto simp: safe_tbl_def)
  have v: "unat x < 256" "unat x \<le> 255" for x :: u8
  proof -
    show "unat x < 256" using unsigned_less [of x, where 'a = nat] by simp
    then show "unat x \<le> 255" by simp
  qed
  let ?w = "PEEK_BITS 8 u"
  have "?w = bits_val (take 8 (held u))" using peek_held [of 8 u] u by simp
  then have w: "?w < 256" using bits_val_less [of "take 8 (held u)"] u(2) by simp
  have H: "HUFF_DECODE_FAST dtbl s = (let s = lookup dtbl ! ?w; nb = s div 256 in if 8 < nb
      then ebind (fast_loop dtbl nb (PEEK_BITS nb u) (DROP_BITS nb u)) (\<lambda>(nb, s, br).
             Inr (unat (huffval (pub dtbl) ! nat ((int s + valoffset dtbl ! nb) AND 0xFF)), br))
      else Inr (s mod 256, DROP_BITS nb u))"
    using Inr take_bit_eq_mask [of 8 "lookup dtbl ! ?w"]
    by (simp add: HUFF_DECODE_FAST_def HUFF_LOOKAHEAD_def Let_def drop_bit_eq_div mask_eq_exp_minus_1 take_bit_eq_mod push_bit_eq_mult)
  show ?thesis
  proof (rule table_entry_cases [OF t w])
    fix p assume p: "p < length hs" "1 \<le> hs ! p" "hs ! p \<le> 8" "lookup dtbl ! ?w = hs ! p * 256 + unat (huffval htbl ! p)"
    then show ?thesis using u v by (simp add: H good_symbol_def)
  next
    assume nine: "lookup dtbl ! ?w = 9 * 256"
    have "maxcode dtbl ! 17 = 0xFFFFF" using t by (simp add: table_pair_def derived_dec_def)
    moreover have "PEEK_BITS 9 u < 2 ^ 9" using peek_held [of 9 u] u bits_val_less [of "take 9 (held u)"] by simp
    ultimately have "case fast_loop dtbl 9 (PEEK_BITS 9 u) (DROP_BITS 9 u) of Inl f \<Rightarrow> f = BadShift | Inr (l', code', s') \<Rightarrow> wf_bits s' \<and> l' \<le> 17"
      using u by (intro fast_loop_safe) simp_all
    then show ?thesis unfolding H nine Let_def using v
      by (cases "fast_loop dtbl 9 (PEEK_BITS 9 u) (DROP_BITS 9 u)") (auto simp: good_symbol_def)
  qed
qed

interpretation fast_safe: safe_source fast_macros "\<lambda>f. f = OverRead \<or> f = BadShift" 255
proof
  fix isDC dtbl s assume "safe_tbl isDC dtbl" "wf_bits s"
  from HUFF_DECODE_FAST_safe [OF this]
  show "case get_symbol fast_macros dtbl s of Inl f \<Rightarrow> f = OverRead \<or> f = BadShift | Inr (v, s') \<Rightarrow> wf_bits s' \<and> good_symbol 255 isDC v"
    by (simp add: fast_macros_def)
next
  fix s n assume "wf_bits s"
  from fill_fast_safe [OF this]
  show "case get_value fast_macros n s of Inl f \<Rightarrow> f = OverRead \<or> f = BadShift | Inr (v, s') \<Rightarrow> wf_bits s'"
    "case skip_value fast_macros n s of Inl f \<Rightarrow> f = OverRead \<or> f = BadShift | Inr s' \<Rightarrow> wf_bits s'"
    by (cases "FILL_BIT_BUFFER_FAST s"; simp add: fast_macros_def receive_fast_def discard_fast_def GET_BITS_def)+
qed simp

section \<open>A scan\<close>

text \<open>The markers code does not touch the bit buffer.\<close>

lemma more_bits: "dec_source.more s' = dec_source.more s \<Longrightarrow> bits_left s' = bits_left (s :: bitread)"
  by (cases s, cases s') simp

lemma next_marker_more: "next_marker s = (ok, s') \<Longrightarrow> dec_source.more s' = dec_source.more s"
proof (induction s rule: next_marker.induct)
  case (1 s)
  show ?case
  proof (cases "next_byte s")
    case None
    with "1.prems" show ?thesis by (subst (asm) next_marker.simps) simp
  next
    case (Some p)
    obtain b t where b: "next_byte s = Some (b, t)" using Some by (cases p) simp
    have mt: "dec_source.more t = dec_source.more s" using next_byte_Some [OF b] same_decoder_fields by blast
    show ?thesis
    proof (cases "b = 0xFF")
      case False
      with "1.prems" b have "next_marker (t\<lparr>discarded_bytes := discarded_bytes t + 1\<rparr>) = (ok, s')"
        by (subst (asm) next_marker.simps) simp
      from "1.IH"(1) [OF b refl False this] mt show ?thesis by simp
    next
      case True
      show ?thesis
      proof (cases "skip_ff t")
        case None
        with True "1.prems" b show ?thesis by (subst (asm) next_marker.simps) simp
      next
        case (Some q)
        obtain c u where c: "skip_ff t = Some (c, u)" using Some by (cases q) simp
        have mu: "dec_source.more u = dec_source.more s" using skip_ff_Some [OF c] same_decoder_fields [of t u] mt by simp
        have "next_marker s = (if c = 0 then next_marker (u\<lparr>discarded_bytes := discarded_bytes u + 2\<rparr>)
            else (True, u\<lparr>discarded_bytes := 0, unread_marker := unat c\<rparr>))"
          using b c True by (subst next_marker.simps) simp
        with "1.prems" "1.IH"(2) [OF b refl _ c refl, of] True mu show ?thesis by (auto split: if_splits)
      qed
    qed
  qed
qed

lemma resync_more: "jpeg_resync_to_restart d s = (ok, s') \<Longrightarrow> dec_source.more s' = dec_source.more s"
proof (induction d s rule: jpeg_resync_to_restart.induct)
  case (1 d s)
  let ?a = "resync_action (unread_marker s) d"
  consider "?a = 1" | "?a = 2" | "?a = 3" using resync_action_range [of "unread_marker s" d] by auto
  then show ?case
  proof cases
    case 2
    obtain ok' t where t: "next_marker s = (ok', t)" by (cases "next_marker s")
    show ?thesis
      using "1.IH" [OF refl _ 2 t [symmetric]] "1.prems" 2 t next_marker_more [OF t]
      by (cases ok') (auto simp: jpeg_resync_to_restart.simps [of d s])
  qed (use "1.prems" in \<open>auto simp: jpeg_resync_to_restart.simps [of d s]\<close>)
qed

lemma read_restart_more:
  "read_restart_marker jpeg_resync_to_restart s = (ok, s') \<Longrightarrow> dec_source.more s' = dec_source.more s"
  by (auto simp: read_restart_marker_def split: prod.splits bool.splits if_splits dest!: next_marker_more resync_more)

text \<open>What \<open>start_pass_huff_decoder\<close> establishes and every MCU keeps.\<close>

definition safe_dec :: "nat \<Rightarrow> huff_entropy_decoder \<Rightarrow> bool" where
  "safe_dec n d \<longleftrightarrow> wf_bits (bitstate d) \<and> (\<forall>bi \<in> set (block_infos d). safe_info n bi)"

lemma process_restart_safe:
  "process_restart jpeg_resync_to_restart n ri d = (ok, d') \<Longrightarrow> safe_dec m d \<Longrightarrow> safe_dec m d'"
  by (auto simp: process_restart_def safe_dec_def wf_bits_def Let_def split: prod.splits bool.splits
      dest!: read_restart_more more_bits)

lemma decode_mcu_slow_safe:
  assumes "safe_dec m e" "\<forall>b \<in> set bs. length b = 64"
  shows "case decode_mcu_slow bs e of Inl f \<Rightarrow> f = Suspended | Inr (bl, d') \<Rightarrow> safe_dec m d'"
proof -
  have bl: "\<forall>(bi, b) \<in> set (zip (block_infos e) bs). safe_info m bi \<and> length b = 64"
    using assms by (auto simp: safe_dec_def dest: set_zip_leftD set_zip_rightD)
  show ?thesis
    using slow_safe.decode_blocks_safe [OF bl, of "bitstate e" "dec_last_dc e"] assms(1)
    by (cases "decode_blocks slow_macros (zip (block_infos e) bs) (dec_last_dc e) (bitstate e)") (auto simp: decode_mcu_slow_def safe_dec_def)
qed

lemma decode_mcu_fast_safe:
  assumes "safe_dec m e" "\<forall>b \<in> set bs. length b = 64"
  shows "case decode_mcu_fast bs e of Inl f \<Rightarrow> f = OverRead \<or> f = BadShift
    | Inr (ok, bl, d') \<Rightarrow> safe_dec m d' \<and> (\<forall>b \<in> set bl. length b = 64)"
proof -
  have bl: "\<forall>(bi, b) \<in> set (zip (block_infos e) bs). safe_info m bi \<and> length b = 64"
    using assms by (auto simp: safe_dec_def dest: set_zip_leftD set_zip_rightD)
  show ?thesis
    using fast_safe.decode_blocks_safe [OF bl, of "bitstate e" "dec_last_dc e"] assms(1)
    by (cases "decode_blocks fast_macros (zip (block_infos e) bs) (dec_last_dc e) (bitstate e)")
      (auto simp: decode_mcu_fast_def safe_dec_def wf_bits_def)
qed

lemma decode_rest_safe:
  assumes "safe_dec m e" "\<forall>b \<in> set bs. length b = 64"
  shows "case decode_rest usefast bs e of Inl f \<Rightarrow> usefast \<and> (f = OverRead \<or> f = BadShift) | Inr (ok, bl, d') \<Rightarrow> safe_dec m d'"
proof (cases "if usefast then decode_mcu_fast bs e else Inr (False, bs, e)")
  case (Inl f)
  then show ?thesis using decode_mcu_fast_safe [OF assms] by (simp add: decode_rest_def split: if_splits)
next
  case (Inr r)
  obtain ok bl d1 where r: "r = (ok, bl, d1)" by (cases r)
  have s: "safe_dec m d1" "\<forall>b \<in> set bl. length b = 64" using Inr r assms decode_mcu_fast_safe [OF assms] by (auto split: if_splits)
  show ?thesis
  proof (cases ok)
    case True
    then show ?thesis using Inr r s(1) by (simp add: decode_rest_def safe_dec_def)
  next
    case False
    have "decode_rest usefast bs e = (case decode_mcu_slow bl d1 of Inl Suspended \<Rightarrow> Inr (False, bs, d1) | Inl f \<Rightarrow> Inl f
          | Inr (blocks, e) \<Rightarrow> Inr (True, blocks, e\<lparr>dec_restarts_to_go := dec_restarts_to_go e - 1\<rparr>))"
      using Inr r False unfolding decode_rest_def by simp
    then show ?thesis using decode_mcu_slow_safe [OF s] s(1)
      by (cases "decode_mcu_slow bl d1") (auto simp: safe_dec_def)
  qed
qed

lemma decode_mcu_safe:
  assumes "safe_dec m d" "\<forall>b \<in> set bs. length b = 64"
  shows "case decode_mcu jpeg_resync_to_restart n ri bs d of Inl f \<Rightarrow> ri = 0 \<and> (f = OverRead \<or> f = BadShift) | Inr (ok, bl, d') \<Rightarrow> safe_dec m d'"
proof -
  obtain ok e where e: "(if ri \<noteq> 0 \<and> dec_restarts_to_go d = 0 then process_restart jpeg_resync_to_restart n ri d else (True, d)) = (ok, e)"
    by fastforce
  have se: "safe_dec m e" using e process_restart_safe assms(1) by (auto split: if_splits)
  show ?thesis
  proof (cases "ok \<and> \<not> insufficient_data (bitstate e)")
    case False
    then show ?thesis unfolding decode_mcu_def e using se by (cases ok) (auto simp: safe_dec_def)
  next
    case True
    define uf where "uf = (ri = 0 \<and> \<not> (length (input (bitstate e)) < BUFSIZE_MCU * length (block_infos e) \<or> unread_marker (bitstate e) \<noteq> 0))"
    have "decode_mcu jpeg_resync_to_restart n ri bs d = decode_rest uf bs e"
      unfolding uf_def by (rule decode_mcu_rest) (use True e in simp_all)
    then show ?thesis using decode_rest_safe [OF se assms(2), of uf] uf_def by (cases "decode_rest uf bs e") auto
  qed
qed

lemma decode_mcus_safe:
  "safe_dec m d \<Longrightarrow> decode_mcus jpeg_resync_to_restart n ri k c d = Inl f \<Longrightarrow> ri = 0 \<and> (f = OverRead \<or> f = BadShift)"
proof (induction c arbitrary: d)
  case (Suc c)
  have b: "\<forall>b \<in> set (replicate k zero_block). length b = 64" by (auto simp: zero_block_def)
  note S = decode_mcu_safe [OF Suc.prems(1) b, where n = n and ri = ri]
  show ?case
  proof (cases "decode_mcu jpeg_resync_to_restart n ri (replicate k zero_block) d")
    case (Inl g)
    then show ?thesis using S Suc.prems(2) by simp
  next
    case (Inr r)
    obtain ok bl d' where r: "r = (ok, bl, d')" by (cases r)
    then have "safe_dec m d'" using S Inr by simp
    then show ?thesis using Suc.IH Suc.prems(2) Inr r by (auto simp: result_simps split: if_splits)
  qed
qed simp

lemma made_safe: "wf_tables ptrs \<Longrightarrow> made_d ptrs isDC i t \<Longrightarrow> safe_tbl isDC t"
proof -
  assume w: "wf_tables ptrs" and "made_d ptrs isDC i t"
  then obtain d0 where d: "length (maxcode d0) = 18" "length (valoffset d0) = 18"
    "jpeg_make_d_derived_tbl ptrs isDC (int i) d0 = Inr t" by (auto simp: made_d_def)
  from w have "\<forall>h. Some h \<in> set ptrs \<longrightarrow> wf_htbl h" "length ptrs = 4" by (simp_all add: wf_tables_def)
  from make_d_derived [OF d(3,1,2) this] show ?thesis by (metis safe_tbl_def table_pair_def)
qed

lemma start_safe:
  assumes w: "wf_tables dcp" "wf_tables acp" and s: "wf_d_space (dec_dc_tbls d0)" "wf_d_space (dec_ac_tbls d0)"
    and m: "\<forall>ci \<in> set mm. ci < length comps"
    and d: "start_pass_huff_decoder dcp acp comps mm ri d0 = Inr d"
  shows "safe_dec (length comps) d"
proof -
  from d obtain d1 where t: "dec_tables dcp acp comps d0 = Inr d1" and dd: "d = d1\<lparr>dec_last_dc := dec_last_dc d, block_infos := map (\<lambda>ci. let c = comps ! ci
             in \<lparr>membership = ci, dc_cur_tbl = dec_dc_tbls d1 ! d_dc_tbl_no c, ac_cur_tbl = dec_ac_tbls d1 ! d_ac_tbl_no c,
                 dc_needed = d_component_needed c, ac_needed = d_component_needed c \<and> 1 < d_DCT_scaled_size c\<rparr>) mm,
       bitstate := (bitstate d1)\<lparr>bits_left := 0, get_buffer := 0, insufficient_data := False\<rparr>, dec_restarts_to_go := ri\<rparr>"
    by (auto simp: start_pass_huff_decoder_def result_simps Let_def)
  have "safe_tbl True (dec_dc_tbls d1 ! d_dc_tbl_no c) \<and> safe_tbl False (dec_ac_tbls d1 ! d_ac_tbl_no c)"
    if "c \<in> set comps" for c
    using dec_tables_made [OF w t s] that made_safe [OF w(1)] made_safe [OF w(2)] by blast
  then have "\<forall>bi \<in> set (block_infos d). safe_info (length comps) bi"
    using m by (subst dd) (simp add: safe_info_def Let_def)
  moreover have "wf_bits (bitstate d)" by (subst dd) (simp add: wf_bits_def)
  ultimately show ?thesis by (simp add: safe_dec_def)
qed

text \<open>
  C2. Whatever bytes the source delivers, decoding a scan with tables that \<open>start_pass_huff_decoder\<close>
  accepted never reads a derived table, \<open>huffval\<close> or \<open>jpeg_natural_order\<close> outside its bounds: every
  MCU is decoded (perhaps from padding) or the decoder suspends. Only the fast path, and so only a scan
  without restart markers, can go wrong: it may read past the source's buffer, and shift by a negative count
  after an invalid code.
\<close>

theorem decoder_in_bounds:
  assumes "wf_tables dcp" "wf_tables acp" "wf_d_space (dec_dc_tbls d0)" "wf_d_space (dec_ac_tbls d0)"
    and "\<forall>ci \<in> set mm. ci < length comps"
    and "start_pass_huff_decoder dcp acp comps mm ri d0 = Inr d"
  shows "(\<exists>ok ms d'. decode_mcus jpeg_resync_to_restart (length comps) ri (length mm) n d = Inr (ok, ms, d')) \<or>
     ri = 0 \<and> (\<exists>f. decode_mcus jpeg_resync_to_restart (length comps) ri (length mm) n d = Inl f \<and> (f = OverRead \<or> f = BadShift))"
proof (cases "decode_mcus jpeg_resync_to_restart (length comps) ri (length mm) n d")
  case (Inl f)
  with decode_mcus_safe [OF start_safe [OF assms] Inl] show ?thesis by blast
next
  case (Inr r)
  then show ?thesis by (cases r) blast
qed

theorem decoder_in_bounds_witness:
  "\<exists>d ok ms d'. start_pass_huff_decoder tiny_ptrs tiny_ptrs tiny_comps [0] 7 tiny_d0 = Inr d \<and>
     decode_mcus jpeg_resync_to_restart 1 7 1 5 d = Inr (ok, ms, d')"
proof -
  have w: "wf_tables tiny_ptrs" by (simp add: wf_tables_def tiny_ptrs_def wf_htbl_def tiny_tbl_def)
  have cd: "wf_d_space (dec_dc_tbls tiny_d0)" "wf_d_space (dec_ac_tbls tiny_d0)"
    by (simp_all add: wf_d_space_def tiny_d0_def tiny_space_def)
  have l: "length tiny_comps = 1" "length [0::nat] = 1" by (simp_all add: tiny_comps_def)
  have m: "\<forall>ci \<in> set [0::nat]. ci < length tiny_comps" by (simp add: tiny_comps_def)
  obtain d where d: "start_pass_huff_decoder tiny_ptrs tiny_ptrs tiny_comps [0] 7 tiny_d0 = Inr d" using tiny_starts_any by blast
  from decoder_in_bounds [OF w w cd m d, of 5, unfolded l] d show ?thesis by auto
qed

end
