(* ===== verification/Jpeglib.thy ===== *)
theory Jpeglib imports HuffTables begin

text \<open>
  The compression object of \<open>jpeglib.h\<close> (\<open>JPEG_LIB_VERSION\<close> 62) as the parameter code and the master
  control use it, and its component and scan descriptions. Pointers to modules and to the
  application's managers are left out; an array behind a pointer is a list, empty for NULL.
\<close>

section \<open>Enumerations and limits\<close>

datatype J_COLOR_SPACE =
    JCS_UNKNOWN | JCS_GRAYSCALE | JCS_RGB | JCS_YCbCr | JCS_CMYK | JCS_YCCK
  | JCS_EXT_RGB | JCS_EXT_RGBX | JCS_EXT_BGR | JCS_EXT_BGRX | JCS_EXT_XBGR | JCS_EXT_XRGB
  | JCS_EXT_RGBA | JCS_EXT_BGRA | JCS_EXT_ABGR | JCS_EXT_ARGB | JCS_RGB565

datatype J_DCT_METHOD = JDCT_ISLOW | JDCT_IFAST | JDCT_FLOAT

definition DCTSIZE :: int where "DCTSIZE = 8"
definition NUM_QUANT_TBLS :: nat where "NUM_QUANT_TBLS = 4"
definition NUM_ARITH_TBLS :: nat where "NUM_ARITH_TBLS = 16"
definition MAX_COMPS_IN_SCAN :: int where "MAX_COMPS_IN_SCAN = 4"
definition MAX_SAMP_FACTOR :: int where "MAX_SAMP_FACTOR = 4"
definition C_MAX_BLOCKS_IN_MCU :: int where "C_MAX_BLOCKS_IN_MCU = 10"
definition MAX_COMPONENTS :: int where "MAX_COMPONENTS = 10"
definition JPEG_MAX_DIMENSION :: int where "JPEG_MAX_DIMENSION = 65500"
definition BITS_IN_JSAMPLE :: int where "BITS_IN_JSAMPLE = 8"

lemmas limits = DCTSIZE_def NUM_QUANT_TBLS_def NUM_ARITH_TBLS_def MAX_COMPS_IN_SCAN_def MAX_SAMP_FACTOR_def
  C_MAX_BLOCKS_IN_MCU_def MAX_COMPONENTS_def JPEG_MAX_DIMENSION_def BITS_IN_JSAMPLE_def

definition CSTATE_START :: int where "CSTATE_START = 100"
definition CSTATE_SCANNING :: int where "CSTATE_SCANNING = 101"
definition CSTATE_RAW_OK :: int where "CSTATE_RAW_OK = 102"
definition CSTATE_WRCOEFS :: int where "CSTATE_WRCOEFS = 103"

section \<open>Structures\<close>

record JQUANT_TBL =
  quantval :: "u16 list"
  sent_table :: bool

record jpeg_component_info =
  component_id :: int
  component_index :: int
  h_samp_factor :: int
  v_samp_factor :: int
  quant_tbl_no :: int
  dc_tbl_no :: int
  ac_tbl_no :: int
  width_in_blocks :: u32
  height_in_blocks :: u32
  DCT_scaled_size :: int
  downsampled_width :: u32
  downsampled_height :: u32
  component_needed :: bool
  MCU_width :: int
  MCU_height :: int
  MCU_blocks :: int
  MCU_sample_width :: int
  last_col_width :: int
  last_row_height :: int
  quant_table :: "JQUANT_TBL option"

record jpeg_scan_info =
  scan_comps :: int
  scan_component_index :: "int list"
  scan_Ss :: int
  scan_Se :: int
  scan_Ah :: int
  scan_Al :: int

text \<open>
  \<open>cur_comp_info\<close> points into \<open>comp_info\<close>, so it is kept as the list of indexes. \<open>scan_info\<close> is
  \<open>None\<close> for NULL; \<open>script_space\<close> is the array \<open>jpeg_simple_progression\<close> allocates.
\<close>

record jpeg_compress_struct =
  global_state :: int
  image_width :: u32
  image_height :: u32
  input_components :: int
  in_color_space :: J_COLOR_SPACE
  data_precision :: int
  num_components :: int
  jpeg_color_space :: J_COLOR_SPACE
  comp_info :: "jpeg_component_info list"
  quant_tbl_ptrs :: "JQUANT_TBL option list"
  dc_huff_tbl_ptrs :: "JHUFF_TBL option list"
  ac_huff_tbl_ptrs :: "JHUFF_TBL option list"
  arith_dc_L :: "u8 list"
  arith_dc_U :: "u8 list"
  arith_ac_K :: "u8 list"
  num_scans :: int
  scan_info :: "jpeg_scan_info list option"
  raw_data_in :: bool
  arith_code :: bool
  optimize_coding :: bool
  CCIR601_sampling :: bool
  smoothing_factor :: int
  dct_method :: J_DCT_METHOD
  restart_interval :: u32
  restart_in_rows :: int
  write_JFIF_header :: bool
  JFIF_major_version :: u8
  JFIF_minor_version :: u8
  density_unit :: u8
  X_density :: u16
  Y_density :: u16
  write_Adobe_marker :: bool
  next_scanline :: u32
  progressive_mode :: bool
  max_h_samp_factor :: int
  max_v_samp_factor :: int
  total_iMCU_rows :: u32
  comps_in_scan :: int
  cur_comp_info :: "nat list"
  MCUs_per_row :: u32
  MCU_rows_in_scan :: u32
  blocks_in_MCU :: int
  MCU_membership :: "int list"
  Ss :: int
  Se :: int
  Ah :: int
  Al :: int
  script_space :: "jpeg_scan_info list"

text \<open>An object of zero bytes.\<close>

definition zero_struct :: jpeg_compress_struct where
  "zero_struct = \<lparr>global_state = 0, image_width = 0, image_height = 0, input_components = 0, in_color_space = JCS_UNKNOWN,
     data_precision = 0, num_components = 0, jpeg_color_space = JCS_UNKNOWN, comp_info = [],
     quant_tbl_ptrs = replicate 4 None, dc_huff_tbl_ptrs = replicate 4 None, ac_huff_tbl_ptrs = replicate 4 None,
     arith_dc_L = replicate 16 0, arith_dc_U = replicate 16 0, arith_ac_K = replicate 16 0, num_scans = 0, scan_info = None,
     raw_data_in = False, arith_code = False, optimize_coding = False, CCIR601_sampling = False, smoothing_factor = 0,
     dct_method = JDCT_ISLOW, restart_interval = 0, restart_in_rows = 0, write_JFIF_header = False, JFIF_major_version = 0,
     JFIF_minor_version = 0, density_unit = 0, X_density = 0, Y_density = 0, write_Adobe_marker = False, next_scanline = 0,
     progressive_mode = False, max_h_samp_factor = 0, max_v_samp_factor = 0, total_iMCU_rows = 0, comps_in_scan = 0,
     cur_comp_info = replicate 4 0, MCUs_per_row = 0, MCU_rows_in_scan = 0, blocks_in_MCU = 0,
     MCU_membership = replicate 10 0, Ss = 0, Se = 0, Ah = 0, Al = 0, script_space = []\<rparr>"

text \<open>Conversion to \<open>int\<close> or \<open>long\<close>, both 32 bits wide.\<close>

definition as_long :: "int \<Rightarrow> int" where
  "as_long v = signed_take_bit 31 v"

lemma as_long_small: "- (2 ^ 31) \<le> v \<Longrightarrow> v < 2 ^ 31 \<Longrightarrow> as_long v = v"
  by (simp add: as_long_def signed_take_bit_int_eq_self)

text \<open>Most operations may only be called in one state of the object.\<close>

definition require_state :: "int \<Rightarrow> 'z jpeg_compress_struct_scheme \<Rightarrow> jerr + unit" where
  "require_state st cinfo = (if global_state cinfo \<noteq> st then Inl (JERR_BAD_STATE (global_state cinfo)) else Inr ())"

lemma require_state_iff [simp]:
  "require_state st cinfo = Inr u \<longleftrightarrow> global_state cinfo = st"
  by (simp add: require_state_def)

end
