(* ===== verification/Jcparam.thy ===== *)
theory Jcparam imports Jpeglib begin

text \<open>
  \<open>jcparam.c\<close>: default parameters of the compressor. Memory obtained from the pool allocator is
  uninitialised; its content is the argument \<open>junk\<close>. Running out of memory is an error exit of the
  allocator and is not modelled.
\<close>

section \<open>Quantization tables\<close>

text \<open>
  \<open>long\<close> and \<open>int\<close> have 32 bits, so the product is computed modulo \<open>2 ^ 32\<close> (a signed overflow, which
  only an application that passes its own table or scale can cause).
\<close>

definition scaled_quant :: "bool \<Rightarrow> u32 \<Rightarrow> u32 \<Rightarrow> u16" where
  "scaled_quant force_baseline basic scale_factor =
     (let temp = sint (basic * scale_factor + 50) sdiv 100;
          temp = (if temp \<le> 0 then 1 else temp);
          temp = (if 32767 < temp then 32767 else temp);
          temp = (if force_baseline \<and> 255 < temp then 255 else temp)
      in word_of_int temp)"

definition jpeg_add_quant_table ::
  "int \<Rightarrow> u32 list \<Rightarrow> int \<Rightarrow> bool \<Rightarrow> jpeg_compress_struct \<Rightarrow> jerr + jpeg_compress_struct" where
  "jpeg_add_quant_table which_tbl basic_table scale_factor force_baseline cinfo =
     ebind (require_state CSTATE_START cinfo) (\<lambda>_.
     if which_tbl < 0 \<or> int NUM_QUANT_TBLS \<le> which_tbl then Inl (JERR_DQT_INDEX which_tbl)
     else Inr (cinfo\<lparr>quant_tbl_ptrs := (quant_tbl_ptrs cinfo)[nat which_tbl := Some
       \<lparr>quantval = map (\<lambda>i. scaled_quant force_baseline (basic_table ! i) (word_of_int scale_factor)) [0..<DCTSIZE2],
        sent_table = False\<rparr>]\<rparr>))"

definition std_luminance_quant_tbl :: "u32 list" where
  "std_luminance_quant_tbl =
     [16, 11, 10, 16, 24, 40, 51, 61, 12, 12, 14, 19, 26, 58, 60, 55, 14, 13, 16, 24, 40, 57, 69, 56,
      14, 17, 22, 29, 51, 87, 80, 62, 18, 22, 37, 56, 68, 109, 103, 77, 24, 35, 55, 64, 81, 104, 113, 92,
      49, 64, 78, 87, 103, 121, 120, 101, 72, 92, 95, 98, 112, 100, 103, 99]"

definition std_chrominance_quant_tbl :: "u32 list" where
  "std_chrominance_quant_tbl =
     [17, 18, 24, 47, 99, 99, 99, 99, 18, 21, 26, 66, 99, 99, 99, 99, 24, 26, 56, 99, 99, 99, 99, 99,
      47, 66, 99, 99, 99, 99, 99, 99, 99, 99, 99, 99, 99, 99, 99, 99, 99, 99, 99, 99, 99, 99, 99, 99,
      99, 99, 99, 99, 99, 99, 99, 99, 99, 99, 99, 99, 99, 99, 99, 99]"

definition jpeg_set_linear_quality :: "int \<Rightarrow> bool \<Rightarrow> jpeg_compress_struct \<Rightarrow> jerr + jpeg_compress_struct" where
  "jpeg_set_linear_quality scale_factor force_baseline cinfo =
     ebind (jpeg_add_quant_table 0 std_luminance_quant_tbl scale_factor force_baseline cinfo)
       (jpeg_add_quant_table 1 std_chrominance_quant_tbl scale_factor force_baseline)"

definition jpeg_quality_scaling :: "int \<Rightarrow> int" where
  "jpeg_quality_scaling quality =
     (let quality = (if quality \<le> 0 then 1 else quality);
          quality = (if 100 < quality then 100 else quality)
      in if quality < 50 then 5000 sdiv quality else 200 - quality * 2)"

definition jpeg_set_quality :: "int \<Rightarrow> bool \<Rightarrow> jpeg_compress_struct \<Rightarrow> jerr + jpeg_compress_struct" where
  "jpeg_set_quality quality = jpeg_set_linear_quality (jpeg_quality_scaling quality)"

section \<open>Colour spaces\<close>

definition SET_COMP :: "nat \<Rightarrow> int \<Rightarrow> int \<Rightarrow> int \<Rightarrow> int \<Rightarrow> int \<Rightarrow> int \<Rightarrow> jpeg_compress_struct \<Rightarrow> jpeg_compress_struct" where
  "SET_COMP index cid hsamp vsamp quant dctbl actbl cinfo = cinfo\<lparr>comp_info := (comp_info cinfo)[index :=
     (comp_info cinfo ! index)\<lparr>component_id := cid, h_samp_factor := hsamp, v_samp_factor := vsamp,
        quant_tbl_no := quant, dc_tbl_no := dctbl, ac_tbl_no := actbl\<rparr>]\<rparr>"

definition jpeg_set_colorspace :: "J_COLOR_SPACE \<Rightarrow> jpeg_compress_struct \<Rightarrow> jerr + jpeg_compress_struct" where
  "jpeg_set_colorspace colorspace cinfo =
     ebind (require_state CSTATE_START cinfo) (\<lambda>_.
     let cinfo = cinfo\<lparr>jpeg_color_space := colorspace, write_JFIF_header := False, write_Adobe_marker := False\<rparr>
     in (case colorspace of
           JCS_GRAYSCALE \<Rightarrow> Inr (SET_COMP 0 1 1 1 0 0 0 (cinfo\<lparr>write_JFIF_header := True, num_components := 1\<rparr>))
         | JCS_RGB \<Rightarrow>
             Inr (SET_COMP 2 0x42 1 1 0 0 0 (SET_COMP 1 0x47 1 1 0 0 0 (SET_COMP 0 0x52 1 1 0 0 0
               (cinfo\<lparr>write_Adobe_marker := True, num_components := 3\<rparr>))))
         | JCS_YCbCr \<Rightarrow>
             Inr (SET_COMP 2 3 1 1 1 1 1 (SET_COMP 1 2 1 1 1 1 1 (SET_COMP 0 1 2 2 0 0 0
               (cinfo\<lparr>write_JFIF_header := True, num_components := 3\<rparr>))))
         | JCS_CMYK \<Rightarrow>
             Inr (SET_COMP 3 0x4B 1 1 0 0 0 (SET_COMP 2 0x59 1 1 0 0 0 (SET_COMP 1 0x4D 1 1 0 0 0 (SET_COMP 0 0x43 1 1 0 0 0
               (cinfo\<lparr>write_Adobe_marker := True, num_components := 4\<rparr>)))))
         | JCS_YCCK \<Rightarrow>
             Inr (SET_COMP 3 4 2 2 0 0 0 (SET_COMP 2 3 1 1 1 1 1 (SET_COMP 1 2 1 1 1 1 1 (SET_COMP 0 1 2 2 0 0 0
               (cinfo\<lparr>write_Adobe_marker := True, num_components := 4\<rparr>)))))
         | JCS_UNKNOWN \<Rightarrow>
             (let cinfo = cinfo\<lparr>num_components := input_components cinfo\<rparr>
              in if num_components cinfo < 1 \<or> MAX_COMPONENTS < num_components cinfo
                 then Inl (JERR_COMPONENT_COUNT (num_components cinfo) MAX_COMPONENTS)
                 else Inr (fold (\<lambda>ci. SET_COMP ci (int ci) 1 1 0 0 0) [0..<nat (num_components cinfo)] cinfo))
         | _ \<Rightarrow> Inl JERR_BAD_J_COLORSPACE))"

definition jpeg_default_colorspace :: "jpeg_compress_struct \<Rightarrow> jerr + jpeg_compress_struct" where
  "jpeg_default_colorspace cinfo =
     (case in_color_space cinfo of
        JCS_GRAYSCALE \<Rightarrow> jpeg_set_colorspace JCS_GRAYSCALE cinfo
      | JCS_RGB \<Rightarrow> jpeg_set_colorspace JCS_YCbCr cinfo
      | JCS_EXT_RGB \<Rightarrow> jpeg_set_colorspace JCS_YCbCr cinfo
      | JCS_EXT_RGBX \<Rightarrow> jpeg_set_colorspace JCS_YCbCr cinfo
      | JCS_EXT_BGR \<Rightarrow> jpeg_set_colorspace JCS_YCbCr cinfo
      | JCS_EXT_BGRX \<Rightarrow> jpeg_set_colorspace JCS_YCbCr cinfo
      | JCS_EXT_XBGR \<Rightarrow> jpeg_set_colorspace JCS_YCbCr cinfo
      | JCS_EXT_XRGB \<Rightarrow> jpeg_set_colorspace JCS_YCbCr cinfo
      | JCS_EXT_RGBA \<Rightarrow> jpeg_set_colorspace JCS_YCbCr cinfo
      | JCS_EXT_BGRA \<Rightarrow> jpeg_set_colorspace JCS_YCbCr cinfo
      | JCS_EXT_ABGR \<Rightarrow> jpeg_set_colorspace JCS_YCbCr cinfo
      | JCS_EXT_ARGB \<Rightarrow> jpeg_set_colorspace JCS_YCbCr cinfo
      | JCS_YCbCr \<Rightarrow> jpeg_set_colorspace JCS_YCbCr cinfo
      | JCS_CMYK \<Rightarrow> jpeg_set_colorspace JCS_CMYK cinfo
      | JCS_YCCK \<Rightarrow> jpeg_set_colorspace JCS_YCCK cinfo
      | JCS_UNKNOWN \<Rightarrow> jpeg_set_colorspace JCS_UNKNOWN cinfo
      | _ \<Rightarrow> Inl JERR_BAD_IN_COLORSPACE)"

section \<open>Defaults\<close>

text \<open>\<open>junk\<close> is a fresh \<open>comp_info\<close> array, \<open>hjunk\<close> the content of fresh \<open>huffval\<close> arrays.\<close>

definition jpeg_set_defaults ::
  "jpeg_component_info list \<Rightarrow> u8 list \<Rightarrow> jpeg_compress_struct \<Rightarrow> jerr + jpeg_compress_struct" where
  "jpeg_set_defaults junk hjunk cinfo =
     ebind (require_state CSTATE_START cinfo) (\<lambda>_.
     let cinfo = cinfo\<lparr>comp_info := (if comp_info cinfo = [] then junk else comp_info cinfo),
                       data_precision := BITS_IN_JSAMPLE\<rparr>
     in ebind (jpeg_set_quality 75 True cinfo) (\<lambda>cinfo.
        ebind (std_huff_tables hjunk (dc_huff_tbl_ptrs cinfo) (ac_huff_tbl_ptrs cinfo)) (\<lambda>(dcs, acs).
        jpeg_default_colorspace (cinfo\<lparr>
          dc_huff_tbl_ptrs := dcs, ac_huff_tbl_ptrs := acs,
          arith_dc_L := replicate NUM_ARITH_TBLS 0, arith_dc_U := replicate NUM_ARITH_TBLS 1,
          arith_ac_K := replicate NUM_ARITH_TBLS 5,
          scan_info := None, num_scans := 0, raw_data_in := False, arith_code := False,
          optimize_coding := (8 < data_precision cinfo), CCIR601_sampling := False, smoothing_factor := 0,
          dct_method := JDCT_ISLOW, restart_interval := 0, restart_in_rows := 0,
          JFIF_major_version := 1, JFIF_minor_version := 1, density_unit := 0, X_density := 1, Y_density := 1\<rparr>))))"

section \<open>The progressive script\<close>

text \<open>The scan pointer is the index into \<open>script_space\<close>.\<close>

definition fill_a_scan ::
  "int \<Rightarrow> int \<Rightarrow> int \<Rightarrow> int \<Rightarrow> int \<Rightarrow> jpeg_scan_info list \<times> nat \<Rightarrow> jpeg_scan_info list \<times> nat" where
  "fill_a_scan ci Ss' Se' Ah' Al' = (\<lambda>(space, p).
     (space[p := (space ! p)\<lparr>scan_comps := 1, scan_component_index := (scan_component_index (space ! p))[0 := ci],
        scan_Ss := Ss', scan_Se := Se', scan_Ah := Ah', scan_Al := Al'\<rparr>], p + 1))"

definition fill_scans ::
  "int \<Rightarrow> int \<Rightarrow> int \<Rightarrow> int \<Rightarrow> int \<Rightarrow> jpeg_scan_info list \<times> nat \<Rightarrow> jpeg_scan_info list \<times> nat" where
  "fill_scans ncomps Ss' Se' Ah' Al' = fold (\<lambda>ci. fill_a_scan (int ci) Ss' Se' Ah' Al') [0..<nat ncomps]"

definition fill_dc_scans :: "int \<Rightarrow> int \<Rightarrow> int \<Rightarrow> jpeg_scan_info list \<times> nat \<Rightarrow> jpeg_scan_info list \<times> nat" where
  "fill_dc_scans ncomps Ah' Al' = (\<lambda>(space, p).
     if ncomps \<le> MAX_COMPS_IN_SCAN
     then (space[p := (space ! p)\<lparr>scan_comps := ncomps,
             scan_component_index := fold (\<lambda>ci xs. xs[ci := int ci]) [0..<nat ncomps] (scan_component_index (space ! p)),
             scan_Ss := 0, scan_Se := 0, scan_Ah := Ah', scan_Al := Al'\<rparr>], p + 1)
     else fill_scans ncomps 0 0 Ah' Al' (space, p))"

text \<open>\<open>junk\<close> is the fresh array, of the size the code asks for.\<close>

definition jpeg_simple_progression ::
  "(int \<Rightarrow> jpeg_scan_info list) \<Rightarrow> jpeg_compress_struct \<Rightarrow> jerr + jpeg_compress_struct" where
  "jpeg_simple_progression junk cinfo =
     ebind (require_state CSTATE_START cinfo) (\<lambda>_.
     let ncomps = num_components cinfo;
         custom = (ncomps = 3 \<and> jpeg_color_space cinfo = JCS_YCbCr);
         nscans = (if custom then 10 else if MAX_COMPS_IN_SCAN < ncomps then 6 * ncomps else 2 + 4 * ncomps);
         space = (if int (length (script_space cinfo)) < nscans then junk (max nscans 10) else script_space cinfo);
         (space, p) =
           (if custom
            then fill_a_scan 0 1 63 1 0 (fill_a_scan 1 1 63 1 0 (fill_a_scan 2 1 63 1 0 (fill_dc_scans ncomps 1 0
                (fill_a_scan 0 1 63 2 1 (fill_a_scan 0 6 63 0 2 (fill_a_scan 1 1 63 0 1 (fill_a_scan 2 1 63 0 1
                (fill_a_scan 0 1 5 0 2 (fill_dc_scans ncomps 0 1 (space, 0))))))))))
            else fill_scans ncomps 1 63 1 0 (fill_dc_scans ncomps 1 0 (fill_scans ncomps 1 63 2 1
                (fill_scans ncomps 6 63 0 2 (fill_scans ncomps 1 5 0 2 (fill_dc_scans ncomps 0 1 (space, 0)))))))
     in Inr (cinfo\<lparr>script_space := space, scan_info := Some space, num_scans := nscans\<rparr>))"

section \<open>What a quality setting gives\<close>

text \<open>The entry in mathematical integers.\<close>

definition quant_entry :: "bool \<Rightarrow> int \<Rightarrow> int \<Rightarrow> int" where
  "quant_entry force_baseline b s = max 1 (min (if force_baseline then 255 else 32767) ((b * s + 50) div 100))"

lemma scaled_quant_eq:
  assumes "uint b \<le> 255" "0 \<le> s" "s \<le> 5000"
  shows "uint (scaled_quant fb b (word_of_int s)) = quant_entry fb (uint b) s"
proof -
  have p: "0 \<le> uint b * s" "uint b * s \<le> 255 * 5000" using assms mult_mono [of "uint b" 255 s 5000] by simp_all
  have u: "uint (b * word_of_int s + 50 :: u32) = uint b * s + 50"
    using p assms by (simp add: uint_word_ariths uint_word_of_int mod_simps)
  have "sint (b * word_of_int s + 50) = uint b * s + 50"
    unfolding sint_uint u by (rule signed_take_bit_int_eq_self) (use p in simp_all)
  then have e: "sint (b * word_of_int s + 50) sdiv 100 = (uint b * s + 50) div 100" using p by (simp add: sdiv_nonneg)
  define t where "t = (uint b * s + 50) div 100"
  have "0 \<le> t" using p by (simp add: t_def)
  then show ?thesis unfolding scaled_quant_def quant_entry_def e t_def [symmetric]
    by (auto simp: Let_def uint_word_of_int max_def min_def)
qed

lemma quality_scaling_cases:
  "jpeg_quality_scaling q = (if q \<le> 1 then 5000 else if q < 50 then 5000 div q else if q \<le> 100 then 200 - 2 * q else 0)"
  by (cases "q = 1") (auto simp: jpeg_quality_scaling_def Let_def sdiv_nonneg)

lemma quality_scaling_range: "0 \<le> jpeg_quality_scaling q \<and> jpeg_quality_scaling q \<le> 5000"
proof -
  have "5000 div q \<le> 5000" "0 \<le> 5000 div q" if "1 < q" using that zdiv_mono2 [of 5000 1 q] by (simp_all add: pos_imp_zdiv_nonneg_iff)
  then show ?thesis by (auto simp: quality_scaling_cases)
qed

lemma quality_scaling_antimono: "q \<le> q' \<Longrightarrow> jpeg_quality_scaling q' \<le> jpeg_quality_scaling q"
proof -
  assume le: "q \<le> q'"
  have m: "5000 div q' \<le> 5000 div q" if "1 < q" "q' < 50" using that le by (intro zdiv_mono2) simp_all
  have h: "100 \<le> 5000 div q" if "1 < q" "q < 50" using that zdiv_mono2 [of 5000 q 50] by simp
  show ?thesis using le m h quality_scaling_range [of q'] by (auto simp: quality_scaling_cases split: if_splits)
qed

lemma quant_entry_mono: "0 \<le> b \<Longrightarrow> s \<le> s' \<Longrightarrow> quant_entry fb b s \<le> quant_entry fb b s'"
  unfolding quant_entry_def by (intro max.mono min.mono zdiv_mono1 add_right_mono mult_left_mono order_refl) simp_all

lemma std_quant_small: "b \<in> set std_luminance_quant_tbl \<union> set std_chrominance_quant_tbl \<Longrightarrow> 0 < uint b \<and> uint b \<le> 121"
  by (auto simp: std_luminance_quant_tbl_def std_chrominance_quant_tbl_def)

lemma length_std_quant [simp]: "length std_luminance_quant_tbl = 64" "length std_chrominance_quant_tbl = 64"
  by (simp_all add: std_luminance_quant_tbl_def std_chrominance_quant_tbl_def)

definition std_quant :: "nat \<Rightarrow> u32 list" where
  "std_quant t = (if t = 0 then std_luminance_quant_tbl else std_chrominance_quant_tbl)"

text \<open>The entries \<open>jpeg_set_quality\<close> leaves in table \<open>t\<close>.\<close>

definition quality_table :: "int \<Rightarrow> bool \<Rightarrow> nat \<Rightarrow> int list" where
  "quality_table q fb t = map (\<lambda>b. quant_entry fb (uint b) (jpeg_quality_scaling q)) (std_quant t)"

lemma scaled_std:
  "map (\<lambda>i. uint (scaled_quant fb (std_quant t ! i) (word_of_int (jpeg_quality_scaling q)))) [0..<64] = quality_table q fb t"
proof -
  have "uint (scaled_quant fb (std_quant t ! i) (word_of_int (jpeg_quality_scaling q)))
      = quant_entry fb (uint (std_quant t ! i)) (jpeg_quality_scaling q)" if "i < 64" for i
  proof -
    have "std_quant t ! i \<in> set std_luminance_quant_tbl \<union> set std_chrominance_quant_tbl" using that by (simp add: std_quant_def)
    from std_quant_small [OF this] show ?thesis using quality_scaling_range [of q] by (intro scaled_quant_eq) auto
  qed
  then show ?thesis by (auto simp: quality_table_def std_quant_def intro!: nth_equalityI)
qed

text \<open>
  C11. \<open>jpeg_set_quality\<close> never fails in the start state: whatever the quality, tables 0 and 1 hold
  the standard tables scaled by the recommended curve and clamped, computed without overflow and
  marked as not yet written. Every entry is between 1 and 255 (32767 without \<open>force_baseline\<close>), a
  higher quality never has a bigger entry, quality 50 gives the standard tables and 100 or more
  gives all ones.
\<close>

theorem set_quality_tables:
  assumes "global_state c = CSTATE_START" "length (quant_tbl_ptrs c) = 4"
  shows "\<exists>c'. jpeg_set_quality q fb c = Inr c' \<and>
    (\<forall>t < 2. \<exists>tbl. quant_tbl_ptrs c' ! t = Some tbl \<and> \<not> sent_table tbl \<and>
       map uint (quantval tbl) = quality_table q fb t \<and>
       (\<forall>v \<in> set (quality_table q fb t). 1 \<le> v \<and> v \<le> (if fb then 255 else 32767)) \<and>
       (\<forall>q' \<le> q. \<forall>i < 64. quality_table q fb t ! i \<le> quality_table q' fb t ! i) \<and>
       (q = 50 \<longrightarrow> map uint (std_quant t) = quality_table q fb t) \<and>
       (100 \<le> q \<longrightarrow> quality_table q fb t = replicate 64 1))"
proof -
  let ?new = "\<lambda>t. \<lparr>quantval = map (\<lambda>i. scaled_quant fb (std_quant t ! i) (word_of_int (jpeg_quality_scaling q))) [0..<64], sent_table = False\<rparr>"
  let ?c = "c\<lparr>quant_tbl_ptrs := (quant_tbl_ptrs c)[0 := Some (?new 0), 1 := Some (?new 1)]\<rparr>"
  have "jpeg_set_quality q fb c = Inr ?c"
    using assms by (simp add: jpeg_set_quality_def jpeg_set_linear_quality_def jpeg_add_quant_table_def require_state_def
        NUM_QUANT_TBLS_def DCTSIZE2_def std_quant_def)
  moreover have "quant_tbl_ptrs ?c ! t = Some (?new t)" if "t < 2" for t
    using that assms(2) by (auto simp: less_2_cases_iff)
  moreover have "map uint (quantval (?new t)) = quality_table q fb t" for t using scaled_std by (simp add: comp_def)
  moreover have "\<forall>v \<in> set (quality_table q fb t). 1 \<le> v \<and> v \<le> (if fb then 255 else 32767)" for t
    by (auto simp: quality_table_def quant_entry_def)
  moreover have "quality_table q fb t ! i \<le> quality_table q' fb t ! i" if "q' \<le> q" "i < 64" for t q' i
    using that by (simp add: quality_table_def std_quant_def quant_entry_mono quality_scaling_antimono)
  moreover have "map uint (std_quant t) = quality_table 50 fb t" for t
  proof -
    have "quant_entry fb (uint b) 100 = uint b" if "b \<in> set (std_quant t)" for b
    proof -
      have "0 < uint b \<and> uint b \<le> 121" using that std_quant_small by (auto simp: std_quant_def split: if_splits)
      moreover have "(uint b * 100 + 50) div 100 = uint b" by simp
      ultimately show ?thesis by (simp add: quant_entry_def)
    qed
    then show ?thesis by (simp add: quality_table_def quality_scaling_cases)
  qed
  moreover have "quality_table q fb t = replicate 64 1" if "100 \<le> q" for t
    using that by (auto simp: quality_table_def quality_scaling_cases quant_entry_def std_quant_def map_replicate_const)
  ultimately show ?thesis by (intro exI [of _ ?c]) auto
qed

theorem set_quality_tables_witness:
  "\<exists>c' tbl. jpeg_set_quality 90 True (zero_struct\<lparr>global_state := CSTATE_START\<rparr>) = Inr c' \<and>
     quant_tbl_ptrs c' ! 1 = Some tbl \<and> map uint (quantval tbl) ! 1 = 4"
proof -
  have "quality_table 90 True 1 ! 1 = 4" by code_simp
  moreover have "(1::nat) < 2" by simp
  moreover have "global_state (zero_struct\<lparr>global_state := CSTATE_START\<rparr>) = CSTATE_START"
    "length (quant_tbl_ptrs (zero_struct\<lparr>global_state := CSTATE_START\<rparr>)) = 4" by (simp_all add: zero_struct_def)
  ultimately show ?thesis using set_quality_tables [of "zero_struct\<lparr>global_state := CSTATE_START\<rparr>" 90 True] by metis
qed

end
