(* ===== verification/Jcmaster.thy ===== *)
theory Jcmaster imports Jcparam begin

text \<open>
  \<open>jcmaster.c\<close>: parameter checking, the layout of scans, and the sequence of passes. Calls of the
  other modules' methods are recorded in order, with what they are told.
\<close>

section \<open>Initial setup\<close>

text \<open>A dimension is cast to \<open>long\<close>, which has 32 bits, before it is compared or multiplied.\<close>

fun check_sampling :: "jpeg_component_info list \<Rightarrow> int \<times> int \<Rightarrow> jerr + (int \<times> int)" where
  "check_sampling [] m = Inr m"
| "check_sampling (c # cs) (mh, mv) =
     (if h_samp_factor c \<le> 0 \<or> MAX_SAMP_FACTOR < h_samp_factor c \<or>
         v_samp_factor c \<le> 0 \<or> MAX_SAMP_FACTOR < v_samp_factor c
      then Inl JERR_BAD_SAMPLING
      else check_sampling cs (max mh (h_samp_factor c), max mv (v_samp_factor c)))"

definition blocks_across :: "u32 \<Rightarrow> int \<Rightarrow> int \<Rightarrow> u32" where
  "blocks_across dim samp max_samp =
     word_of_int (jdiv_round_up (as_long (sint dim * samp)) (max_samp * DCTSIZE))"

definition samples_across :: "u32 \<Rightarrow> int \<Rightarrow> int \<Rightarrow> u32" where
  "samples_across dim samp max_samp = word_of_int (jdiv_round_up (as_long (sint dim * samp)) max_samp)"

definition setup_component :: "jpeg_compress_struct \<Rightarrow> nat \<Rightarrow> jpeg_component_info \<Rightarrow> jpeg_component_info" where
  "setup_component cinfo ci c = c\<lparr>component_index := int ci, DCT_scaled_size := DCTSIZE,
     width_in_blocks := blocks_across (image_width cinfo) (h_samp_factor c) (max_h_samp_factor cinfo),
     height_in_blocks := blocks_across (image_height cinfo) (v_samp_factor c) (max_v_samp_factor cinfo),
     downsampled_width := samples_across (image_width cinfo) (h_samp_factor c) (max_h_samp_factor cinfo),
     downsampled_height := samples_across (image_height cinfo) (v_samp_factor c) (max_v_samp_factor cinfo),
     component_needed := True\<rparr>"

definition initial_setup :: "jpeg_compress_struct \<Rightarrow> fault + jpeg_compress_struct" where
  "initial_setup cinfo =
     (if image_height cinfo = 0 \<or> image_width cinfo = 0 \<or> num_components cinfo \<le> 0 \<or> input_components cinfo \<le> 0
      then Inl (ErrExit JERR_EMPTY_IMAGE)
      else if JPEG_MAX_DIMENSION < sint (image_height cinfo) \<or> JPEG_MAX_DIMENSION < sint (image_width cinfo)
      then Inl (ErrExit (JERR_IMAGE_TOO_BIG JPEG_MAX_DIMENSION))
      else
        let samplesperrow = as_long (sint (image_width cinfo) * input_components cinfo);
            jd_samplesperrow = word_of_int samplesperrow :: u32
        in if sint jd_samplesperrow \<noteq> samplesperrow then Inl (ErrExit JERR_WIDTH_OVERFLOW)
           else if data_precision cinfo \<noteq> BITS_IN_JSAMPLE then Inl (ErrExit (JERR_BAD_PRECISION (data_precision cinfo)))
           else if MAX_COMPONENTS < num_components cinfo
           then Inl (ErrExit (JERR_COMPONENT_COUNT (num_components cinfo) MAX_COMPONENTS))
           else if int (length (comp_info cinfo)) < num_components cinfo then Inl OutOfBounds
           else
             let n = nat (num_components cinfo); comps = take n (comp_info cinfo)
             in (case check_sampling comps (1, 1) of
                   Inl e \<Rightarrow> Inl (ErrExit e)
                 | Inr (mh, mv) \<Rightarrow>
                     let cinfo = cinfo\<lparr>max_h_samp_factor := mh, max_v_samp_factor := mv\<rparr>
                     in Inr (cinfo\<lparr>
                          comp_info := map (\<lambda>ci. setup_component cinfo ci (comps ! ci)) [0..<n] @ drop n (comp_info cinfo),
                          total_iMCU_rows := word_of_int (jdiv_round_up (sint (image_height cinfo)) (mv * DCTSIZE))\<rparr>)))"

section \<open>Checking a scan script\<close>

text \<open>The component indexes of one scan; \<open>prev\<close> is the entry before, absent for the first.\<close>

fun check_indexes :: "int \<Rightarrow> int \<Rightarrow> int option \<Rightarrow> int list \<Rightarrow> jerr + unit" where
  "check_indexes n scanno prev [] = Inr ()"
| "check_indexes n scanno prev (i # is) =
     (if i < 0 \<or> n \<le> i then Inl (JERR_BAD_SCAN_SCRIPT scanno)
      else if (case prev of None \<Rightarrow> False | Some p \<Rightarrow> i \<le> p) then Inl (JERR_BAD_SCAN_SCRIPT scanno)
      else check_indexes n scanno (Some i) is)"

text \<open>One row of \<open>last_bitpos\<close>: -1 until the coefficient has been seen, then its last \<open>Al\<close>.\<close>

fun check_coefs :: "int \<Rightarrow> int \<Rightarrow> int \<Rightarrow> nat list \<Rightarrow> int list \<Rightarrow> jerr + int list" where
  "check_coefs scanno ah al [] bp = Inr bp"
| "check_coefs scanno ah al (k # ks) bp =
     (if (if bp ! k < 0 then ah \<noteq> 0 else ah \<noteq> bp ! k \<or> al \<noteq> ah - 1) then Inl (JERR_BAD_PROG_SCRIPT scanno)
      else check_coefs scanno ah al ks (bp[k := al]))"

fun check_bitpos :: "int \<Rightarrow> int \<Rightarrow> int \<Rightarrow> int \<Rightarrow> int \<Rightarrow> int list \<Rightarrow> int list list \<Rightarrow> jerr + int list list" where
  "check_bitpos scanno ss se ah al [] last_bitpos = Inr last_bitpos"
| "check_bitpos scanno ss se ah al (ci # cis) last_bitpos =
     (let row = last_bitpos ! nat ci
      in if ss \<noteq> 0 \<and> row ! 0 < 0 then Inl (JERR_BAD_PROG_SCRIPT scanno)
         else ebind (check_coefs scanno ah al [nat ss..<nat (se + 1)] row) (\<lambda>row.
              check_bitpos scanno ss se ah al cis (last_bitpos[nat ci := row])))"

fun check_sent :: "int \<Rightarrow> int list \<Rightarrow> bool list \<Rightarrow> jerr + bool list" where
  "check_sent scanno [] sent = Inr sent"
| "check_sent scanno (ci # cis) sent =
     (if sent ! nat ci then Inl (JERR_BAD_SCAN_SCRIPT scanno) else check_sent scanno cis (sent[nat ci := True]))"

definition scan_indexes :: "jpeg_scan_info \<Rightarrow> int list" where
  "scan_indexes s = take (nat (scan_comps s)) (scan_component_index s)"

definition MAX_AH_AL :: int where "MAX_AH_AL = 10"

text \<open>The body of the loop over the scans.\<close>

definition check_scan ::
  "bool \<Rightarrow> int \<Rightarrow> int \<Rightarrow> jpeg_scan_info \<Rightarrow> int list list \<times> bool list \<Rightarrow> jerr + (int list list \<times> bool list)" where
  "check_scan progressive n scanno s = (\<lambda>(last_bitpos, sent).
     let ncomps = scan_comps s; is = scan_indexes s; ss = scan_Ss s; se = scan_Se s; ah = scan_Ah s; al = scan_Al s
     in if ncomps \<le> 0 \<or> MAX_COMPS_IN_SCAN < ncomps then Inl (JERR_COMPONENT_COUNT ncomps MAX_COMPS_IN_SCAN)
        else ebind (check_indexes n scanno None is) (\<lambda>_.
        if progressive
        then if ss < 0 \<or> int DCTSIZE2 \<le> ss \<or> se < ss \<or> int DCTSIZE2 \<le> se \<or>
                ah < 0 \<or> MAX_AH_AL < ah \<or> al < 0 \<or> MAX_AH_AL < al
             then Inl (JERR_BAD_PROG_SCRIPT scanno)
             else if (if ss = 0 then se \<noteq> 0 else ncomps \<noteq> 1) then Inl (JERR_BAD_PROG_SCRIPT scanno)
             else ebind (check_bitpos scanno ss se ah al is last_bitpos) (\<lambda>last_bitpos. Inr (last_bitpos, sent))
        else if ss \<noteq> 0 \<or> se \<noteq> int DCTSIZE2 - 1 \<or> ah \<noteq> 0 \<or> al \<noteq> 0 then Inl (JERR_BAD_PROG_SCRIPT scanno)
        else ebind (check_sent scanno is sent) (\<lambda>sent. Inr (last_bitpos, sent))))"

fun check_scans ::
  "bool \<Rightarrow> int \<Rightarrow> int \<Rightarrow> jpeg_scan_info list \<Rightarrow> int list list \<times> bool list \<Rightarrow> jerr + (int list list \<times> bool list)" where
  "check_scans progressive n scanno [] st = Inr st"
| "check_scans progressive n scanno (s # scans) st =
     ebind (check_scan progressive n scanno s st) (check_scans progressive n (scanno + 1) scans)"

text \<open>
  The arrays the mode does not use stay uninitialised in the code and are never read; they are
  empty here. The result is \<open>progressive_mode\<close>.
\<close>

definition validate_script :: "jpeg_compress_struct \<Rightarrow> jpeg_scan_info list \<Rightarrow> fault + bool" where
  "validate_script cinfo scans =
     (if num_scans cinfo \<le> 0 then Inl (ErrExit (JERR_BAD_SCAN_SCRIPT 0))
      else if int (length scans) < num_scans cinfo then Inl OutOfBounds
      else
        let n = nat (num_components cinfo);
            progressive = (scan_Ss (scans ! 0) \<noteq> 0 \<or> scan_Se (scans ! 0) \<noteq> int DCTSIZE2 - 1);
            st = (if progressive then (replicate n (replicate DCTSIZE2 (-1)), []) else ([], replicate n False))
        in (case check_scans progressive (num_components cinfo) 1 (take (nat (num_scans cinfo)) scans) st of
              Inl e \<Rightarrow> Inl (ErrExit e)
            | Inr (last_bitpos, sent) \<Rightarrow>
                if (if progressive then \<exists>row \<in> set last_bitpos. row ! 0 < 0 else False \<in> set sent)
                then Inl (ErrExit JERR_MISSING_DATA) else Inr progressive))"

section \<open>The current scan\<close>

datatype c_pass_type = main_pass | huff_opt_pass | output_pass

record my_comp_master =
  call_pass_startup :: bool
  is_last_pass :: bool
  pass_type :: c_pass_type
  pass_number :: int
  total_passes :: int
  scan_number :: int

definition select_scan_parameters :: "int \<Rightarrow> jpeg_compress_struct \<Rightarrow> fault + jpeg_compress_struct" where
  "select_scan_parameters scanno cinfo =
     (case scan_info cinfo of
        Some scans \<Rightarrow>
          if scanno < 0 \<or> int (length scans) \<le> scanno then Inl OutOfBounds
          else let s = scans ! nat scanno
               in Inr (cinfo\<lparr>comps_in_scan := scan_comps s,
                    cur_comp_info := map nat (scan_indexes s) @ drop (length (scan_indexes s)) (cur_comp_info cinfo),
                    Ss := scan_Ss s, Se := scan_Se s, Ah := scan_Ah s, Al := scan_Al s\<rparr>)
      | None \<Rightarrow>
          if MAX_COMPS_IN_SCAN < num_components cinfo
          then Inl (ErrExit (JERR_COMPONENT_COUNT (num_components cinfo) MAX_COMPS_IN_SCAN))
          else let n = nat (num_components cinfo)
               in Inr (cinfo\<lparr>comps_in_scan := num_components cinfo, cur_comp_info := [0..<n] @ drop n (cur_comp_info cinfo),
                    Ss := 0, Se := int DCTSIZE2 - 1, Ah := 0, Al := 0\<rparr>))"

text \<open>\<open>x % m\<close>, or \<open>m\<close> when that is 0: the size of the last group of \<open>m\<close>.\<close>

definition last_group :: "u32 \<Rightarrow> int \<Rightarrow> int" where
  "last_group x m = (let tmp = sint (x mod word_of_int m) in if tmp = 0 then m else tmp)"

definition noninterleaved_component :: "jpeg_component_info \<Rightarrow> jpeg_component_info" where
  "noninterleaved_component c = c\<lparr>MCU_width := 1, MCU_height := 1, MCU_blocks := 1, MCU_sample_width := DCTSIZE,
     last_col_width := 1, last_row_height := last_group (height_in_blocks c) (v_samp_factor c)\<rparr>"

definition interleaved_component :: "jpeg_component_info \<Rightarrow> jpeg_component_info" where
  "interleaved_component c = c\<lparr>MCU_width := h_samp_factor c, MCU_height := v_samp_factor c,
     MCU_blocks := h_samp_factor c * v_samp_factor c, MCU_sample_width := h_samp_factor c * DCTSIZE,
     last_col_width := last_group (width_in_blocks c) (h_samp_factor c),
     last_row_height := last_group (height_in_blocks c) (v_samp_factor c)\<rparr>"

text \<open>The inner loop: \<open>mcublks\<close> entries \<open>ci\<close> from position \<open>blocks_in_MCU\<close> on.\<close>

fun add_membership :: "nat \<Rightarrow> int \<Rightarrow> int \<times> int list \<Rightarrow> int \<times> int list" where
  "add_membership 0 ci (b, mm) = (b, mm)"
| "add_membership (Suc mcublks) ci (b, mm) = add_membership mcublks ci (b + 1, mm[nat b := ci])"

fun interleave :: "int \<Rightarrow> nat list \<Rightarrow> jpeg_component_info list \<times> int \<times> int list \<Rightarrow>
  jerr + (jpeg_component_info list \<times> int \<times> int list)" where
  "interleave ci [] st = Inr st"
| "interleave ci (i # is) (comps, blocks, mm) =
     (let c = interleaved_component (comps ! i)
      in if C_MAX_BLOCKS_IN_MCU < blocks + MCU_blocks c then Inl JERR_BAD_MCU_SIZE
         else case add_membership (nat (MCU_blocks c)) ci (blocks, mm) of
           (blocks, mm) \<Rightarrow> interleave (ci + 1) is (comps[i := c], blocks, mm))"

definition set_restart :: "jpeg_compress_struct \<Rightarrow> jpeg_compress_struct" where
  "set_restart cinfo =
     (if 0 < restart_in_rows cinfo
      then let nominal = as_long (restart_in_rows cinfo * sint (MCUs_per_row cinfo))
           in cinfo\<lparr>restart_interval := word_of_int (min nominal 65535)\<rparr>
      else cinfo)"

definition per_scan_setup :: "jpeg_compress_struct \<Rightarrow> jerr + jpeg_compress_struct" where
  "per_scan_setup cinfo =
     ebind
       (if comps_in_scan cinfo = 1
        then let i = cur_comp_info cinfo ! 0; c = comp_info cinfo ! i
             in Inr (cinfo\<lparr>MCUs_per_row := width_in_blocks c, MCU_rows_in_scan := height_in_blocks c,
                  comp_info := (comp_info cinfo)[i := noninterleaved_component c],
                  blocks_in_MCU := 1, MCU_membership := (MCU_membership cinfo)[0 := 0]\<rparr>)
        else if comps_in_scan cinfo \<le> 0 \<or> MAX_COMPS_IN_SCAN < comps_in_scan cinfo
        then Inl (JERR_COMPONENT_COUNT (comps_in_scan cinfo) MAX_COMPS_IN_SCAN)
        else ebind (interleave 0 (take (nat (comps_in_scan cinfo)) (cur_comp_info cinfo))
                      (comp_info cinfo, 0, MCU_membership cinfo)) (\<lambda>(comps, blocks, mm).
             Inr (cinfo\<lparr>
               MCUs_per_row := word_of_int (jdiv_round_up (sint (image_width cinfo)) (max_h_samp_factor cinfo * DCTSIZE)),
               MCU_rows_in_scan := word_of_int (jdiv_round_up (sint (image_height cinfo)) (max_v_samp_factor cinfo * DCTSIZE)),
               comp_info := comps, blocks_in_MCU := blocks, MCU_membership := mm\<rparr>)))
       (\<lambda>cinfo. Inr (set_restart cinfo))"

section \<open>Passes\<close>

datatype J_BUF_MODE = JBUF_PASS_THRU | JBUF_SAVE_SOURCE | JBUF_CRANK_DEST | JBUF_SAVE_AND_PASS

text \<open>
  The calls of other modules' methods. The scan header is written from the current scan's
  components and progression parameters, which the call carries.
\<close>

datatype method_call =
    cconvert_start_pass
  | downsample_start_pass
  | prep_start_pass J_BUF_MODE
  | fdct_start_pass
  | entropy_start_pass bool
  | coef_start_pass J_BUF_MODE
  | main_start_pass J_BUF_MODE
  | coef_compress_data
  | entropy_finish_pass
  | write_file_header
  | write_frame_header
  | write_scan_header "nat list" int int int int
  | write_file_trailer
  | write_tables_only
  | write_marker_header int u32
  | write_marker_byte u8
  | main_process_data u32
  | jinit_color_converter
  | jinit_downsampler
  | jinit_c_prep_controller bool
  | jinit_forward_dct
  | jinit_arith_encoder
  | jinit_phuff_encoder
  | jinit_huff_encoder
  | jinit_c_coef_controller bool
  | jinit_c_main_controller bool
  | jinit_marker_writer
  | realize_virt_arrays
  | free_pool int
  | self_destruct
  | reset_error_mgr
  | init_destination
  | term_destination

text \<open>\<open>mem\<close> is \<open>cinfo->mem != NULL\<close>.\<close>

record compressor =
  mem :: bool
  cinfo :: jpeg_compress_struct
  master :: my_comp_master
  calls :: "method_call list"

definition invoke :: "method_call list \<Rightarrow> compressor \<Rightarrow> compressor" where
  "invoke cs s = s\<lparr>calls := calls s @ cs\<rparr>"

definition scan_header :: "jpeg_compress_struct \<Rightarrow> method_call" where
  "scan_header ci = write_scan_header (take (nat (comps_in_scan ci)) (cur_comp_info ci)) (Ss ci) (Se ci) (Ah ci) (Al ci)"

definition setup_scan :: "compressor \<Rightarrow> fault + compressor" where
  "setup_scan s =
     ebind (select_scan_parameters (scan_number (master s)) (cinfo s)) (\<lambda>ci.
     case per_scan_setup ci of Inl e \<Rightarrow> Inl (ErrExit e) | Inr ci \<Rightarrow> Inr (s\<lparr>cinfo := ci\<rparr>))"

definition do_output_pass :: "compressor \<Rightarrow> fault + compressor" where
  "do_output_pass s =
     ebind (if optimize_coding (cinfo s) then Inr s else setup_scan s) (\<lambda>s.
     let s = invoke [entropy_start_pass False, coef_start_pass JBUF_CRANK_DEST] s;
         s = (if scan_number (master s) = 0 then invoke [write_frame_header] s else s);
         s = invoke [scan_header (cinfo s)] s
     in Inr (s\<lparr>master := (master s)\<lparr>call_pass_startup := False\<rparr>\<rparr>))"

definition prepare_for_pass :: "compressor \<Rightarrow> fault + compressor" where
  "prepare_for_pass s =
     ebind
       (case pass_type (master s) of
          main_pass \<Rightarrow>
            ebind (setup_scan s) (\<lambda>s.
            let s = (if raw_data_in (cinfo s) then s
                     else invoke [cconvert_start_pass, downsample_start_pass, prep_start_pass JBUF_PASS_THRU] s);
                s = invoke [fdct_start_pass, entropy_start_pass (optimize_coding (cinfo s)),
                      coef_start_pass (if 1 < total_passes (master s) then JBUF_SAVE_AND_PASS else JBUF_PASS_THRU),
                      main_start_pass JBUF_PASS_THRU] s
            in Inr (s\<lparr>master := (master s)\<lparr>call_pass_startup := \<not> optimize_coding (cinfo s)\<rparr>\<rparr>))
        | huff_opt_pass \<Rightarrow>
            ebind (setup_scan s) (\<lambda>s.
            if Ss (cinfo s) \<noteq> 0 \<or> Ah (cinfo s) = 0 \<or> arith_code (cinfo s)
            then Inr ((invoke [entropy_start_pass True, coef_start_pass JBUF_CRANK_DEST] s)
                   \<lparr>master := (master s)\<lparr>call_pass_startup := False\<rparr>\<rparr>)
            else do_output_pass (s\<lparr>master := (master s)\<lparr>pass_type := output_pass, pass_number := pass_number (master s) + 1\<rparr>\<rparr>))
        | output_pass \<Rightarrow> do_output_pass s)
       (\<lambda>s. Inr (s\<lparr>master := (master s)\<lparr>is_last_pass := pass_number (master s) = total_passes (master s) - 1\<rparr>\<rparr>))"

definition pass_startup :: "compressor \<Rightarrow> compressor" where
  "pass_startup s = invoke [write_frame_header, scan_header (cinfo s)]
     (s\<lparr>master := (master s)\<lparr>call_pass_startup := False\<rparr>\<rparr>)"

definition finish_pass_master :: "compressor \<Rightarrow> compressor" where
  "finish_pass_master s =
     (let s = invoke [entropy_finish_pass] s; m = master s; opt = optimize_coding (cinfo s);
          m = (case pass_type m of
                 main_pass \<Rightarrow> m\<lparr>pass_type := output_pass, scan_number := (if opt then scan_number m else scan_number m + 1)\<rparr>
               | huff_opt_pass \<Rightarrow> m\<lparr>pass_type := output_pass\<rparr>
               | output_pass \<Rightarrow> m\<lparr>pass_type := (if opt then huff_opt_pass else output_pass), scan_number := scan_number m + 1\<rparr>)
      in s\<lparr>master := m\<lparr>pass_number := pass_number m + 1\<rparr>\<rparr>)"

definition jinit_c_master_control :: "bool \<Rightarrow> compressor \<Rightarrow> fault + compressor" where
  "jinit_c_master_control transcode_only s =
     ebind (initial_setup (cinfo s)) (\<lambda>ci.
     ebind (case scan_info ci of
              Some scans \<Rightarrow> ebind (validate_script ci scans) (\<lambda>p. Inr (ci\<lparr>progressive_mode := p\<rparr>))
            | None \<Rightarrow> Inr (ci\<lparr>progressive_mode := False, num_scans := 1\<rparr>)) (\<lambda>ci.
     let ci = (if progressive_mode ci \<and> \<not> arith_code ci then ci\<lparr>optimize_coding := True\<rparr> else ci)
     in Inr (s\<lparr>cinfo := ci, master := (master s)\<lparr>is_last_pass := False,
               pass_type := (if transcode_only then if optimize_coding ci then huff_opt_pass else output_pass else main_pass),
               scan_number := 0, pass_number := 0,
               total_passes := (if optimize_coding ci then num_scans ci * 2 else num_scans ci)\<rparr>\<rparr>)))"

end
