(* ===== verification/Jcscript.thy ===== *)
theory Jcscript imports Jcmaster begin

text \<open>
  The script of \<open>jpeg_simple_progression\<close> passes \<open>validate_script\<close>, for every number of components
  and colour space. \<open>scan_view\<close> is the part of a scan description the check reads; the first lemmas
  compute the views the script consists of, the next ones run the check over them.
\<close>

section \<open>What \<open>validate_script\<close> looks at\<close>

definition scan_view :: "jpeg_scan_info \<Rightarrow> int \<times> int list \<times> int \<times> int \<times> int \<times> int" where
  "scan_view s = (scan_comps s, scan_indexes s, scan_Ss s, scan_Se s, scan_Ah s, scan_Al s)"

definition single :: "int \<Rightarrow> int \<Rightarrow> int \<Rightarrow> int \<Rightarrow> int \<Rightarrow> int \<times> int list \<times> int \<times> int \<times> int \<times> int" where
  "single ci ss se ah al = (1, [ci], ss, se, ah, al)"

definition dc_views :: "nat \<Rightarrow> int \<Rightarrow> int \<Rightarrow> (int \<times> int list \<times> int \<times> int \<times> int \<times> int) list" where
  "dc_views n ah al = (if n \<le> 4 then [(int n, map int [0..<n], 0, 0, ah, al)]
     else map (\<lambda>ci. single (int ci) 0 0 ah al) [0..<n])"

text \<open>\<open>p\<close> scans with the given views are in the space; every index array has its four entries.\<close>

definition filled :: "jpeg_scan_info list \<times> nat \<Rightarrow> (int \<times> int list \<times> int \<times> int \<times> int \<times> int) list \<Rightarrow> nat \<Rightarrow> bool" where
  "filled sp vs n \<longleftrightarrow> length (fst sp) = n \<and> snd sp = length vs \<and> map scan_view (take (snd sp) (fst sp)) = vs \<and>
     (\<forall>s \<in> set (fst sp). length (scan_component_index s) = 4)"

lemma filled_put:
  assumes "filled (space, p) vs n" "p < n" "length (scan_component_index s) = 4"
  shows "filled (space[p := s], p + 1) (vs @ [scan_view s]) n"
proof -
  from assms(1,2) have p: "p < length space" "p = length vs" "map scan_view (take p space) = vs" by (auto simp: filled_def)
  then have "map scan_view (take (p + 1) (space[p := s])) = vs @ [scan_view s]"
    by (simp add: take_Suc_conv_app_nth)
  then show ?thesis using assms p by (auto simp: filled_def dest!: set_update_subset_insert [THEN subsetD])
qed

lemma fill_a_scan_filled:
  assumes "filled sp vs n" "length vs < n"
  shows "filled (fill_a_scan ci ss se ah al sp) (vs @ [single ci ss se ah al]) n"
proof -
  obtain space p where sp: "sp = (space, p)" by (cases sp)
  with assms have p: "p < n" "p < length space" by (simp_all add: filled_def)
  let ?s = "(space ! p)\<lparr>scan_comps := 1, scan_component_index := (scan_component_index (space ! p))[0 := ci],
        scan_Ss := ss, scan_Se := se, scan_Ah := ah, scan_Al := al\<rparr>"
  have l: "length (scan_component_index (space ! p)) = 4" using assms(1) p(2) by (simp add: sp filled_def)
  then obtain x xs where "scan_component_index (space ! p) = x # xs" by (cases "scan_component_index (space ! p)") simp_all
  then have "scan_view ?s = single ci ss se ah al" by (simp add: scan_view_def single_def scan_indexes_def)
  with filled_put [of space p vs n ?s] assms(1) p(1) l show ?thesis by (simp add: sp fill_a_scan_def)
qed

lemma fill_scans_filled:
  assumes "filled sp vs n" "length vs + nat k \<le> n"
  shows "filled (fill_scans k ss se ah al sp) (vs @ map (\<lambda>ci. single (int ci) ss se ah al) [0..<nat k]) n"
proof -
  have "filled (fold (\<lambda>ci. fill_a_scan (int ci) ss se ah al) [0..<j] sp) (vs @ map (\<lambda>ci. single (int ci) ss se ah al) [0..<j]) n"
    if "length vs + j \<le> n" for j
    using that
  proof (induction j)
    case (Suc j)
    then have "filled (fold (\<lambda>ci. fill_a_scan (int ci) ss se ah al) [0..<j] sp) (vs @ map (\<lambda>ci. single (int ci) ss se ah al) [0..<j]) n"
      by simp
    from fill_a_scan_filled [OF this, of "int j" ss se ah al] Suc.prems show ?case by simp
  qed (use assms(1) in simp)
  with assms(2) show ?thesis by (simp add: fill_scans_def)
qed

lemma fold_set_prefix: "n \<le> length xs \<Longrightarrow> fold (\<lambda>ci xs. xs[ci := int ci]) [0..<n] xs = map int [0..<n] @ drop n xs"
proof (induction n)
  case (Suc n)
  then show ?case using list_update_at_prefix [of "map int [0..<n]" n xs "int n"] by simp
qed simp

lemma fill_dc_scans_filled:
  assumes f: "filled sp vs n" and le: "length vs + length (dc_views (nat k) ah al) \<le> n" and k: "0 \<le> k"
  shows "filled (fill_dc_scans k ah al sp) (vs @ dc_views (nat k) ah al) n"
proof -
  obtain space p where sp: "sp = (space, p)" by (cases sp)
  show ?thesis
  proof (cases "k \<le> 4")
    case False
    then have "\<not> nat k \<le> 4" by simp
    then show ?thesis using fill_scans_filled [OF f, of k 0 0 ah al] le False
      by (simp add: sp fill_dc_scans_def dc_views_def MAX_COMPS_IN_SCAN_def)
  next
    case True
    with f le k have p: "p < n" "p < length space" by (simp_all add: sp filled_def dc_views_def split: if_splits)
    have l: "length (scan_component_index (space ! p)) = 4" using f p(2) by (simp add: sp filled_def)
    let ?s = "(space ! p)\<lparr>scan_comps := k,
             scan_component_index := fold (\<lambda>ci xs. xs[ci := int ci]) [0..<nat k] (scan_component_index (space ! p)),
             scan_Ss := 0, scan_Se := 0, scan_Ah := ah, scan_Al := al\<rparr>"
    have e: "fold (\<lambda>ci xs. xs[ci := int ci]) [0..<nat k] (scan_component_index (space ! p)) =
      map int [0..<nat k] @ drop (nat k) (scan_component_index (space ! p))" using True l by (intro fold_set_prefix) simp
    have "scan_view ?s = (k, map int [0..<nat k], 0, 0, ah, al)" using True l by (simp add: scan_view_def scan_indexes_def e)
    moreover have "nat k \<le> 4" using True by simp
    ultimately show ?thesis using filled_put [of space p vs n ?s] f p(1) l True k
      by (simp add: sp fill_dc_scans_def dc_views_def MAX_COMPS_IN_SCAN_def e)
  qed
qed

section \<open>The simple progression\<close>

definition custom_views :: "(int \<times> int list \<times> int \<times> int \<times> int \<times> int) list" where
  "custom_views = dc_views 3 0 1 @ [single 0 1 5 0 2, single 2 1 63 0 1, single 1 1 63 0 1, single 0 6 63 0 2,
     single 0 1 63 2 1] @ dc_views 3 1 0 @ [single 2 1 63 1 0, single 1 1 63 1 0, single 0 1 63 1 0]"

definition singles :: "nat \<Rightarrow> int \<Rightarrow> int \<Rightarrow> int \<Rightarrow> int \<Rightarrow> (int \<times> int list \<times> int \<times> int \<times> int \<times> int) list" where
  "singles n ss se ah al = map (\<lambda>ci. single (int ci) ss se ah al) [0..<n]"

definition general_views :: "nat \<Rightarrow> (int \<times> int list \<times> int \<times> int \<times> int \<times> int) list" where
  "general_views n = dc_views n 0 1 @ singles n 1 5 0 2 @ singles n 6 63 0 2 @ singles n 1 63 2 1 @ dc_views n 1 0 @
     singles n 1 63 1 0"

lemma length_singles [simp]: "length (singles n ss se ah al) = n"
  by (simp add: singles_def)

lemma length_dc_views: "length (dc_views n ah al) = (if n \<le> 4 then 1 else n)"
  by (simp add: dc_views_def)

lemma length_views: "length custom_views = 10" "length (general_views n) = (if n \<le> 4 then 2 + 4 * n else 6 * n)"
  by (simp_all add: custom_views_def general_views_def length_dc_views)

lemma filled_start: "length space = n \<Longrightarrow> \<forall>s \<in> set space. length (scan_component_index s) = 4 \<Longrightarrow> filled (space, 0) [] n"
  by (simp add: filled_def)

lemma custom_filled:
  assumes "filled (space, 0) [] n" "10 \<le> n"
  shows "filled (fill_a_scan 0 1 63 1 0 (fill_a_scan 1 1 63 1 0 (fill_a_scan 2 1 63 1 0 (fill_dc_scans 3 1 0
                (fill_a_scan 0 1 63 2 1 (fill_a_scan 0 6 63 0 2 (fill_a_scan 1 1 63 0 1 (fill_a_scan 2 1 63 0 1
                (fill_a_scan 0 1 5 0 2 (fill_dc_scans 3 0 1 (space, 0))))))))))) custom_views n"
proof -
  note a = fill_a_scan_filled and d = fill_dc_scans_filled [where k = 3, simplified]
  have "filled (fill_dc_scans 3 0 1 (space, 0)) (dc_views 3 0 1) n"
    using d [OF assms(1), of 0 1] assms(2) by (simp add: length_dc_views)
  then have "filled (fill_a_scan 0 1 63 2 1 (fill_a_scan 0 6 63 0 2 (fill_a_scan 1 1 63 0 1 (fill_a_scan 2 1 63 0 1
                (fill_a_scan 0 1 5 0 2 (fill_dc_scans 3 0 1 (space, 0)))))))
     (((((dc_views 3 0 1 @ [single 0 1 5 0 2]) @ [single 2 1 63 0 1]) @ [single 1 1 63 0 1]) @ [single 0 6 63 0 2]) @ [single 0 1 63 2 1]) n"
    using assms(2) by (intro a) (simp_all add: length_dc_views)
  from d [OF this, of 1 0] have "filled (fill_dc_scans 3 1 0 (fill_a_scan 0 1 63 2 1 (fill_a_scan 0 6 63 0 2 (fill_a_scan 1 1 63 0 1 (fill_a_scan 2 1 63 0 1
                (fill_a_scan 0 1 5 0 2 (fill_dc_scans 3 0 1 (space, 0))))))))
     ((((((dc_views 3 0 1 @ [single 0 1 5 0 2]) @ [single 2 1 63 0 1]) @ [single 1 1 63 0 1]) @ [single 0 6 63 0 2]) @ [single 0 1 63 2 1]) @ dc_views 3 1 0) n"
    using assms(2) by (simp add: length_dc_views)
  from a [OF a [OF a [OF this, of 2 1 63 1 0], of 1 1 63 1 0], of 0 1 63 1 0] assms(2) show ?thesis
    by (simp add: length_dc_views custom_views_def)
qed

lemma general_filled:
  assumes "filled (space, 0) [] n" "length (general_views (nat k)) \<le> n" "0 \<le> k"
  shows "filled (fill_scans k 1 63 1 0 (fill_dc_scans k 1 0 (fill_scans k 1 63 2 1
                (fill_scans k 6 63 0 2 (fill_scans k 1 5 0 2 (fill_dc_scans k 0 1 (space, 0))))))) (general_views (nat k)) n"
proof -
  note f = fill_scans_filled [folded singles_def] and d = fill_dc_scans_filled
  define m where "m = length (dc_views (nat k) 0 0)"
  have l: "length (dc_views (nat k) ah al) = m" for ah al by (simp add: m_def length_dc_views)
  have len: "2 * m + 4 * nat k \<le> n" using assms(2) by (simp add: general_views_def l)
  have "filled (fill_dc_scans k 0 1 (space, 0)) (dc_views (nat k) 0 1) n"
    using d [OF assms(1), of k 0 1] len assms(3) l by simp
  from f [OF this, of k 1 5 0 2] len l have "filled (fill_scans k 1 5 0 2 (fill_dc_scans k 0 1 (space, 0)))
     (dc_views (nat k) 0 1 @ singles (nat k) 1 5 0 2) n" by simp
  from f [OF this, of k 6 63 0 2] len l have "filled (fill_scans k 6 63 0 2 (fill_scans k 1 5 0 2 (fill_dc_scans k 0 1 (space, 0))))
     (dc_views (nat k) 0 1 @ singles (nat k) 1 5 0 2 @ singles (nat k) 6 63 0 2) n" by simp
  from f [OF this, of k 1 63 2 1] len l have "filled (fill_scans k 1 63 2 1 (fill_scans k 6 63 0 2 (fill_scans k 1 5 0 2 (fill_dc_scans k 0 1 (space, 0)))))
     (dc_views (nat k) 0 1 @ singles (nat k) 1 5 0 2 @ singles (nat k) 6 63 0 2 @ singles (nat k) 1 63 2 1) n" by simp
  from d [OF this, of k 1 0] len l assms(3) have "filled (fill_dc_scans k 1 0 (fill_scans k 1 63 2 1 (fill_scans k 6 63 0 2 (fill_scans k 1 5 0 2 (fill_dc_scans k 0 1 (space, 0))))))
     (dc_views (nat k) 0 1 @ singles (nat k) 1 5 0 2 @ singles (nat k) 6 63 0 2 @ singles (nat k) 1 63 2 1 @ dc_views (nat k) 1 0) n" by simp
  from f [OF this, of k 1 63 1 0] len l show ?thesis by (simp add: general_views_def)
qed


section \<open>Checking it\<close>

text \<open>Every row of \<open>last_bitpos\<close> is uniform on the three bands the script uses.\<close>

definition row :: "int \<times> int \<times> int \<Rightarrow> int list" where
  "row = (\<lambda>(d, a, b). d # replicate 5 a @ replicate 58 b)"

definition may_follow :: "int \<Rightarrow> int \<Rightarrow> int \<Rightarrow> bool" where
  "may_follow ah al x \<longleftrightarrow> (if x < 0 then ah = 0 else ah = x \<and> al = ah - 1)"

lemma check_coefs_band:
  "s + m \<le> length bp \<Longrightarrow> \<forall>k. s \<le> k \<and> k < s + m \<longrightarrow> may_follow ah al (bp ! k) \<Longrightarrow>
   check_coefs sc ah al [s..<s + m] bp = Inr (take s bp @ replicate m al @ drop (s + m) bp)"
proof (induction m arbitrary: s bp)
  case (Suc m)
  have u: "[s..<s + Suc m] = s # [Suc s..<Suc s + m]" by (simp add: upt_conv_Cons)
  have ok: "may_follow ah al (bp ! s)" using Suc.prems(2) by simp
  have "check_coefs sc ah al [Suc s..<Suc s + m] (bp[s := al]) =
    Inr (take (Suc s) (bp[s := al]) @ replicate m al @ drop (Suc s + m) (bp[s := al]))"
    using Suc.prems by (intro Suc.IH) auto
  moreover have "take (Suc s) (bp[s := al]) = take s bp @ [al]" using Suc.prems(1) by (simp add: take_Suc_conv_app_nth)
  ultimately show ?case unfolding u using ok by (auto simp: may_follow_def split: if_splits)
qed simp

text \<open>The effect of a scan on the bands, where it is allowed.\<close>

fun band_step :: "int \<Rightarrow> int \<Rightarrow> int \<Rightarrow> int \<Rightarrow> int \<times> int \<times> int \<Rightarrow> (int \<times> int \<times> int) option" where
  "band_step ss se ah al (d, a, b) =
     (if ss = 0 \<and> se = 0 then if may_follow ah al d then Some (al, a, b) else None
      else if d < 0 then None
      else if ss = 1 \<and> se = 5 then if may_follow ah al a then Some (d, al, b) else None
      else if ss = 6 \<and> se = 63 then if may_follow ah al b then Some (d, a, al) else None
      else if ss = 1 \<and> se = 63 then if may_follow ah al a \<and> may_follow ah al b then Some (d, al, al) else None
      else None)"

lemma row_nth: "row (d, a, b) ! k = (if k = 0 then d else if k < 6 then a else b)" if "k < 64"
  using that by (auto simp: row_def nth_Cons' nth_append)

lemma length_row [simp]: "length (row t) = 64"
  by (cases t) (simp add: row_def)

lemma row_bands:
  "row (d, a, b) = [d] @ replicate 5 a @ replicate 58 b"
  "take 1 (row (d, a, b)) = [d]" "drop 1 (row (d, a, b)) = replicate 5 a @ replicate 58 b"
  "take 6 (row (d, a, b)) = d # replicate 5 a" "drop 6 (row (d, a, b)) = replicate 58 b"
  by (simp_all add: row_def)

lemma check_coefs_row:
  assumes "band_step ss se ah al t = Some t'"
  shows "check_coefs sc ah al [nat ss..<nat (se + 1)] (row t) = Inr (row t')" "ss \<noteq> 0 \<Longrightarrow> 0 \<le> row t ! 0"
proof -
  obtain d a b where t: "t = (d, a, b)" by (cases t)
  note C = check_coefs_band [where bp = "row t" and ah = ah and al = al and sc = sc, simplified]
  consider "ss = 0" "se = 0" "may_follow ah al d" "t' = (al, a, b)"
    | "ss = 1" "se = 5" "may_follow ah al a" "t' = (d, al, b)" "0 \<le> d"
    | "ss = 6" "se = 63" "may_follow ah al b" "t' = (d, a, al)" "0 \<le> d"
    | "ss = 1" "se = 63" "may_follow ah al a" "may_follow ah al b" "t' = (d, al, al)" "0 \<le> d"
    using assms by (auto simp: t split: if_splits)
  then have "check_coefs sc ah al [nat ss..<nat (se + 1)] (row t) = Inr (row t') \<and> (ss \<noteq> 0 \<longrightarrow> 0 \<le> row t ! 0)"
  proof cases
    case 1
    have "check_coefs sc ah al [0..<0 + 1] (row t) = Inr (take 0 (row t) @ replicate 1 al @ drop (0 + 1) (row t))"
      by (rule check_coefs_band) (use 1 in \<open>auto simp: t row_nth\<close>)
    with 1 show ?thesis by (simp add: t row_bands)
  next
    case 2
    have "check_coefs sc ah al [1..<1 + 5] (row t) = Inr (take 1 (row t) @ replicate 5 al @ drop (1 + 5) (row t))"
      by (rule check_coefs_band) (use 2 in \<open>auto simp: t row_nth\<close>)
    with 2 show ?thesis by (simp add: t row_bands row_nth)
  next
    case 3
    have "check_coefs sc ah al [6..<6 + 58] (row t) = Inr (take 6 (row t) @ replicate 58 al @ drop (6 + 58) (row t))"
      by (rule check_coefs_band) (use 3 in \<open>auto simp: t row_nth\<close>)
    with 3 show ?thesis by (simp add: t row_bands row_nth)
  next
    case 4
    have "check_coefs sc ah al [1..<1 + 63] (row t) = Inr (take 1 (row t) @ replicate 63 al @ drop (1 + 63) (row t))"
      by (rule check_coefs_band) (use 4 in \<open>auto simp: t row_nth\<close>)
    moreover have "replicate 63 al = replicate 5 al @ replicate 58 al" by (simp flip: replicate_add)
    ultimately show ?thesis using 4 by (simp add: t row_bands row_nth)
  qed
  then show "check_coefs sc ah al [nat ss..<nat (se + 1)] (row t) = Inr (row t')" "ss \<noteq> 0 \<Longrightarrow> 0 \<le> row t ! 0" by simp_all
qed

fun of_view :: "int \<times> int list \<times> int \<times> int \<times> int \<times> int \<Rightarrow> jpeg_scan_info" where
  "of_view (n, is, ss, se, ah, al) = \<lparr>scan_comps = n, scan_component_index = is, scan_Ss = ss, scan_Se = se, scan_Ah = ah, scan_Al = al\<rparr>"

lemma check_scan_view: "check_scan p n sc s = check_scan p n sc (of_view (scan_view s))"
  by (simp add: check_scan_def scan_view_def scan_indexes_def)

lemma check_scans_view: "check_scans p n sc xs st = check_scans p n sc (map of_view (map scan_view xs)) st"
proof (induction xs arbitrary: sc st)
  case (Cons x xs)
  have "check_scans p n (sc + 1) xs = check_scans p n (sc + 1) (map of_view (map scan_view xs))" using Cons.IH by blast
  then show ?case using check_scan_view [of p n sc x] by simp
qed simp

lemma check_scans_append:
  "check_scans p n sc (xs @ ys) st = ebind (check_scans p n sc xs st) (check_scans p n (sc + int (length xs)) ys)"
proof (induction xs arbitrary: sc st)
  case (Cons x xs)
  show ?case by (cases "check_scan p n sc x st") (simp_all add: Cons.IH algebra_simps)
qed (simp add: ebind_def)

lemma band_step_range: "band_step ss se ah al t = Some t' \<Longrightarrow> 0 \<le> ss \<and> ss < 64 \<and> ss \<le> se \<and> se < 64 \<and> (ss = 0 \<longrightarrow> se = 0)"
  by (cases t) (auto split: if_splits)

definition levels :: "int \<Rightarrow> int \<Rightarrow> bool" where
  "levels ah al \<longleftrightarrow> 0 \<le> ah \<and> ah \<le> 10 \<and> 0 \<le> al \<and> al \<le> 10"

lemma check_single:
  assumes "0 \<le> ci" "ci < n" "nat ci < length ts" "levels ah al" "band_step ss se ah al (ts ! nat ci) = Some t'"
  shows "check_scan True n sc (of_view (single ci ss se ah al)) (map row ts, e) = Inr (map row (ts[nat ci := t']), e)"
proof -
  have F: "\<not> (ss \<noteq> 0 \<and> row (ts ! nat ci) ! 0 < 0)" using check_coefs_row(2) [OF assms(5)] by auto
  have "check_bitpos sc ss se ah al [ci] (map row ts) = Inr (map row (ts[nat ci := t']))"
    by (simp only: check_bitpos.simps Let_def nth_map [OF assms(3)] F if_False check_coefs_row(1) [OF assms(5)] ebind_simps map_update)
  moreover have "take (nat 1) [ci] = [ci]" by simp
  ultimately show ?thesis using assms(1,2,4) band_step_range [OF assms(5)]
    by (simp add: check_scan_def single_def scan_indexes_def MAX_COMPS_IN_SCAN_def DCTSIZE2_def MAX_AH_AL_def levels_def
        Let_def not_less del: check_bitpos.simps)
qed

lemma check_singles:
  assumes l: "levels ah al" and b: "band_step ss se ah al t = Some t'"
  shows "check_scans True (int m) sc (map of_view (singles m ss se ah al)) (map row (replicate m t), e) =
    Inr (map row (replicate m t'), e)"
proof -
  have "check_scans True (int m) sc (map of_view (map (\<lambda>ci. single (int ci) ss se ah al) [k..<k + j]))
      (map row (replicate k t' @ replicate j t), e) = Inr (map row (replicate (k + j) t'), e)" if "k + j \<le> m" for k j sc
    using that
  proof (induction j arbitrary: k sc)
    case (Suc j)
    have u: "[k..<k + Suc j] = k # [Suc k..<Suc k + j]" by (simp add: upt_conv_Cons)
    let ?ts = "replicate k t' @ replicate (Suc j) t"
    have nth: "?ts ! nat (int k) = t" by (simp add: nth_append)
    have up: "?ts[nat (int k) := t'] = replicate (Suc k) t' @ replicate j t"
      using list_update_append [of "replicate k t'" "replicate (Suc j) t" k t'] by (simp add: replicate_append_same)
    have "check_scan True (int m) sc (of_view (single (int k) ss se ah al)) (map row ?ts, e) =
        Inr (map row (?ts[nat (int k) := t']), e)"
      by (rule check_single) (use Suc.prems l b nth in simp_all)
    with Suc.IH [of "Suc k" "sc + 1"] Suc.prems show ?case unfolding u up by (simp add: algebra_simps)
  qed simp
  from this [of 0 m sc] show ?thesis by (simp add: singles_def)
qed

lemma check_indexes_upt: "int m \<le> n \<Longrightarrow> check_indexes n sc (if k = 0 then None else Some (int k - 1)) (map int [k..<m]) = Inr ()"
proof (induction "m - k" arbitrary: k)
  case (Suc x)
  then have u: "[k..<m] = k # [Suc k..<m]" by (simp add: upt_conv_Cons)
  have "int k < int m" using Suc.hyps(2) by simp
  with Suc.hyps(1) [of "Suc k"] Suc.hyps(2) Suc.prems show ?case unfolding u by (simp split: if_splits)
qed simp

lemma check_bitpos_all:
  assumes b: "band_step 0 0 ah al t = Some t'"
  shows "k + j = m \<Longrightarrow> check_bitpos sc 0 0 ah al (map int [k..<m]) (map row (replicate k t' @ replicate j t)) =
    Inr (map row (replicate m t'))"
proof (induction j arbitrary: k)
  case (Suc j)
  then have u: "[k..<m] = k # [Suc k..<m]" by (simp add: upt_conv_Cons)
  let ?ts = "replicate k t' @ replicate (Suc j) t"
  have nth: "?ts ! k = t" by (simp add: nth_append)
  have up: "?ts[k := t'] = replicate (Suc k) t' @ replicate j t"
    using list_update_append [of "replicate k t'" "replicate (Suc j) t" k t'] by (simp add: replicate_append_same)
  have kl: "k < length ?ts" by simp
  from Suc.IH [of "Suc k"] Suc.prems check_coefs_row(1) [OF b, of sc] show ?case
    unfolding u using nth_map [OF kl, of row] nth up map_update [of row ?ts k t'] by simp
qed simp

lemma check_dc:
  assumes l: "levels ah al" and b: "band_step 0 0 ah al t = Some t'" and m: "1 \<le> m"
  shows "check_scans True (int m) sc (map of_view (dc_views m ah al)) (map row (replicate m t), e) =
    Inr (map row (replicate m t'), e)"
proof (cases "m \<le> 4")
  case False
  then show ?thesis using check_singles [OF l b] by (simp add: dc_views_def singles_def)
next
  case True
  have "check_scan True (int m) sc (of_view (int m, map int [0..<m], 0, 0, ah, al)) (map row (replicate m t), e) =
      Inr (map row (replicate m t'), e)"
    using l m True check_indexes_upt [of m "int m" sc 0] check_bitpos_all [OF b, of 0 m m sc]
    by (simp add: check_scan_def scan_indexes_def MAX_COMPS_IN_SCAN_def DCTSIZE2_def MAX_AH_AL_def levels_def Let_def)
  then show ?thesis using True by (simp add: dc_views_def)
qed

lemma row_start: "replicate n (replicate 64 (-1)) = map row (replicate n (-1, -1, -1))"
proof -
  have "replicate 64 (-1) = row (-1, -1, -1)" by (simp add: row_def flip: replicate_add replicate_Suc)
  then show ?thesis by simp
qed

lemma check_general:
  assumes "1 \<le> m"
  shows "check_scans True (int m) 1 (map of_view (general_views m)) (replicate m (replicate 64 (-1)), e) =
    Inr (map row (replicate m (0, 0, 0)), e)"
proof -
  note S = check_singles and D = check_dc [OF _ _ assms]
  have d1: "check_scans True (int m) sc (map of_view (dc_views m 0 1)) (map row (replicate m (-1, -1, -1)), e) =
      Inr (map row (replicate m (1, -1, -1)), e)" for sc by (rule D) (simp_all add: levels_def may_follow_def)
  have s1: "check_scans True (int m) sc (map of_view (singles m 1 5 0 2)) (map row (replicate m (1, -1, -1)), e) =
      Inr (map row (replicate m (1, 2, -1)), e)" for sc by (rule S) (simp_all add: levels_def may_follow_def)
  have s2: "check_scans True (int m) sc (map of_view (singles m 6 63 0 2)) (map row (replicate m (1, 2, -1)), e) =
      Inr (map row (replicate m (1, 2, 2)), e)" for sc by (rule S) (simp_all add: levels_def may_follow_def)
  have s3: "check_scans True (int m) sc (map of_view (singles m 1 63 2 1)) (map row (replicate m (1, 2, 2)), e) =
      Inr (map row (replicate m (1, 1, 1)), e)" for sc by (rule S) (simp_all add: levels_def may_follow_def)
  have d2: "check_scans True (int m) sc (map of_view (dc_views m 1 0)) (map row (replicate m (1, 1, 1)), e) =
      Inr (map row (replicate m (0, 1, 1)), e)" for sc by (rule D) (simp_all add: levels_def may_follow_def)
  have s4: "check_scans True (int m) sc (map of_view (singles m 1 63 1 0)) (map row (replicate m (0, 1, 1)), e) =
      Inr (map row (replicate m (0, 0, 0)), e)" for sc by (rule S) (simp_all add: levels_def may_follow_def)
  show ?thesis
    by (simp only: general_views_def map_append check_scans_append row_start d1 s1 s2 s3 d2 s4 ebind_simps)
qed

lemma check_custom:
  "check_scans True 3 1 (map of_view custom_views) (replicate 3 (replicate 64 (-1)), e) = Inr (map row (replicate 3 (0, 0, 0)), e)"
proof -
  have d: "check_scans True 3 sc (map of_view (dc_views 3 ah al)) (map row (replicate 3 t), e) = Inr (map row (replicate 3 t'), e)"
    if "levels ah al" "band_step 0 0 ah al t = Some t'" for sc ah al t t'
    using check_dc [OF that, of 3 sc e] by simp
  have s: "check_scans True 3 sc (map of_view (single ci ss se ah al # vs)) (map row ts, e) =
      check_scans True 3 (sc + 1) (map of_view vs) (map row (ts[nat ci := t']), e)"
    if "0 \<le> ci" "ci < 3" "length ts = 3" "levels ah al" "band_step ss se ah al (ts ! nat ci) = Some t'" for sc ci ss se ah al ts t' vs
    using check_single [of ci 3 ts ah al ss se t' sc e] that by simp
  have r3: "replicate 3 x = [x, x, x]" for x :: "int \<times> int \<times> int" by (simp add: numeral_3_eq_3)
  have d1: "check_scans True 3 sc (map of_view (dc_views 3 0 1)) (map row (replicate 3 (-1, -1, -1)), e) =
      Inr (map row [(1, -1, -1), (1, -1, -1), (1, -1, -1)], e)" for sc
    using d [of 0 1 "(-1, -1, -1)" "(1, -1, -1)" sc] by (simp add: levels_def may_follow_def r3)
  have m: "check_scans True 3 sc (map of_view [single 0 1 5 0 2, single 2 1 63 0 1, single 1 1 63 0 1, single 0 6 63 0 2, single 0 1 63 2 1])
      (map row [(1, -1, -1), (1, -1, -1), (1, -1, -1)], e) = Inr (map row (replicate 3 (1, 1, 1)), e)" for sc
    by (subst s, simp, simp, simp, simp add: levels_def, simp add: may_follow_def)+ (simp add: r3)
  have f: "check_scans True 3 sc (map of_view [single 2 1 63 1 0, single 1 1 63 1 0, single 0 1 63 1 0])
      (map row (replicate 3 (0, 1, 1)), e) = Inr (map row (replicate 3 (0, 0, 0)), e)" for sc
    unfolding r3 by (subst s, simp, simp, simp, simp add: levels_def, simp add: may_follow_def)+ simp
  have d2: "check_scans True 3 sc (map of_view (dc_views 3 1 0)) (map row (replicate 3 (1, 1, 1)), e) =
      Inr (map row (replicate 3 (0, 1, 1)), e)" for sc
    by (rule d) (simp_all add: levels_def may_follow_def)
  show ?thesis by (simp only: custom_views_def map_append check_scans_append row_start d1 m d2 f ebind_simps)
qed

lemma row_0: "row (0, 0, 0) = replicate 64 0"
  by (simp add: row_def flip: replicate_add replicate_Suc)

lemma first_scan: "filled (space, p) vs n \<Longrightarrow> vs \<noteq> [] \<Longrightarrow> scan_view (space ! 0) = vs ! 0"
proof -
  assume f: "filled (space, p) vs n" and v: "vs \<noteq> []"
  then have p: "map scan_view (take p space) = vs" "0 < p" by (auto simp: filled_def)
  then have "0 < length (take p space)" using v by (cases space) auto
  from nth_map [OF this, of scan_view] p show ?thesis by simp
qed

text \<open>
  C9. The script \<open>jpeg_simple_progression\<close> makes is accepted as a progressive one by
  \<open>validate_script\<close>, for every number of components up to 10 and every colour space, whether the
  space is fresh or reused; and after it the last bit (\<open>Al = 0\<close>) of each of the 64 coefficients of
  every component has been sent.
\<close>

theorem simple_progression_valid:
  assumes "global_state c = CSTATE_START" "1 \<le> num_components c" "num_components c \<le> MAX_COMPONENTS"
    and "\<forall>s \<in> set (script_space c). length (scan_component_index s) = 4"
    and "\<forall>n. length (junk n) = nat n \<and> (\<forall>s \<in> set (junk n). length (scan_component_index s) = 4)"
  shows "\<exists>c' scans. jpeg_simple_progression junk c = Inr c' \<and> scan_info c' = Some scans \<and>
    validate_script c' scans = Inr True \<and>
    check_scans True (num_components c') 1 (take (nat (num_scans c')) scans)
      (replicate (nat (num_components c')) (replicate 64 (-1)), []) = Inr (replicate (nat (num_components c')) (replicate 64 0), [])"
proof -
  define m where "m = nat (num_components c)"
  have m: "1 \<le> m" "num_components c = int m" using assms(2) by (simp_all add: m_def)
  let ?custom = "num_components c = 3 \<and> jpeg_color_space c = JCS_YCbCr"
  define vs where "vs = (if ?custom then custom_views else general_views m)"
  define N where "N = (if ?custom then 10 else if MAX_COMPS_IN_SCAN < num_components c then 6 * num_components c else 2 + 4 * num_components c)"
  have N: "N = int (length vs)" by (simp add: N_def vs_def length_views m(2) MAX_COMPS_IN_SCAN_def)
  have v0: "vs \<noteq> []" "\<exists>i al. vs ! 0 = (i, map int [0..<nat i], 0, 0, 0, al)"
    using m by (auto simp: vs_def custom_views_def general_views_def dc_views_def single_def nth_append)
  define space where "space = (if int (length (script_space c)) < N then junk (max N 10) else script_space c)"
  have sp: "filled (space, 0) [] (length space)" "length vs \<le> length space"
    using assms(4,5) N by (auto simp: space_def intro!: filled_start)
  obtain sp' p where fill: "(if ?custom
            then fill_a_scan 0 1 63 1 0 (fill_a_scan 1 1 63 1 0 (fill_a_scan 2 1 63 1 0 (fill_dc_scans (num_components c) 1 0
                (fill_a_scan 0 1 63 2 1 (fill_a_scan 0 6 63 0 2 (fill_a_scan 1 1 63 0 1 (fill_a_scan 2 1 63 0 1
                (fill_a_scan 0 1 5 0 2 (fill_dc_scans (num_components c) 0 1 (space, 0))))))))))
            else fill_scans (num_components c) 1 63 1 0 (fill_dc_scans (num_components c) 1 0 (fill_scans (num_components c) 1 63 2 1
                (fill_scans (num_components c) 6 63 0 2 (fill_scans (num_components c) 1 5 0 2 (fill_dc_scans (num_components c) 0 1 (space, 0))))))) = (sp', p)"
    by (metis surj_pair)
  have f: "filled (sp', p) vs (length space)"
    using custom_filled [OF sp(1)] general_filled [OF sp(1), of "int m"] sp(2) m fill
    by (auto simp: vs_def length_views split: if_splits)
  let ?c = "c\<lparr>script_space := sp', scan_info := Some sp', num_scans := N\<rparr>"
  have run: "jpeg_simple_progression junk c = Inr ?c"
    unfolding jpeg_simple_progression_def Let_def N_def [symmetric] space_def [symmetric] fill
    using assms(1) by (simp add: require_state_def)
  have t: "take (nat N) sp' = take p sp'" "map scan_view (take p sp') = vs" using f N by (auto simp: filled_def)
  have chk: "check_scans True (int m) 1 (take (nat N) sp') (replicate m (replicate 64 (-1)), e) =
      Inr (replicate m (replicate 64 0), e)" for e
    unfolding t(1) unfolding check_scans_view [where xs = "take p sp'"] unfolding t(2)
    using check_general [OF m(1), of e] check_custom [of e] m(2) by (auto simp: vs_def row_0)
  have s0: "scan_Ss (sp' ! 0) = 0 \<and> scan_Se (sp' ! 0) = 0" using first_scan [OF f v0(1)] v0(2) by (auto simp: scan_view_def)
  have "int (length sp') = int (length space)" using f by (simp add: filled_def)
  moreover have "0 < N" using N v0(1) by simp
  ultimately have "validate_script ?c sp' = Inr True"
    using chk [of "[]"] s0 sp(2) N m by (auto simp: validate_script_def Let_def DCTSIZE2_def)
  with run chk [of "[]"] m(2) show ?thesis by (intro exI [of _ ?c] exI [of _ sp']) simp
qed

definition junk_scans :: "int \<Rightarrow> jpeg_scan_info list" where
  "junk_scans n = replicate (nat n) \<lparr>scan_comps = 7, scan_component_index = [9, 9, 9, 9], scan_Ss = 5, scan_Se = 1, scan_Ah = 77, scan_Al = -3\<rparr>"

theorem simple_progression_valid_witness:
  "\<exists>c' scans. jpeg_simple_progression junk_scans (zero_struct\<lparr>global_state := CSTATE_START, num_components := 6\<rparr>) = Inr c' \<and>
     validate_script c' scans = Inr True"
proof -
  have "\<exists>c' scans. jpeg_simple_progression junk_scans (zero_struct\<lparr>global_state := CSTATE_START, num_components := 6\<rparr>) = Inr c' \<and>
    scan_info c' = Some scans \<and> validate_script c' scans = Inr True \<and>
    check_scans True (num_components c') 1 (take (nat (num_scans c')) scans)
      (replicate (nat (num_components c')) (replicate 64 (-1)), []) = Inr (replicate (nat (num_components c')) (replicate 64 0), [])"
    by (rule simple_progression_valid) (simp_all add: zero_struct_def MAX_COMPONENTS_def junk_scans_def)
  then show ?thesis by blast
qed

end
