(* ===== verification/Jcapi.thy ===== *)
theory Jcapi imports Jcmaster begin

text \<open>
  The compression API: \<open>jcapimin.c\<close>, \<open>jcapistd.c\<close>, \<open>jcinit.c\<close> and the compressor's half of
  \<open>jcomapi.c\<close>. The pixel data goes to the main and coefficient controllers, of which only the
  results of \<open>process_data\<close> and \<open>compress_data\<close> matter here: they are parameters, functions of the
  object's state. Progress monitor and warnings reach only the application.
\<close>

section \<open>Creating, aborting and destroying\<close>

definition jpeg_CreateCompress :: "int \<Rightarrow> int \<Rightarrow> int \<Rightarrow> compressor \<Rightarrow> jerr + compressor" where
  "jpeg_CreateCompress sizeof_struct version structsize s =
     (if version \<noteq> 62 then Inl (JERR_BAD_LIB_VERSION 62 version)
      else if structsize \<noteq> sizeof_struct then Inl (JERR_BAD_STRUCT_SIZE sizeof_struct structsize)
      else Inr (s\<lparr>mem := True, cinfo := zero_struct\<lparr>global_state := CSTATE_START\<rparr>\<rparr>))"

text \<open>The image pool is \<open>JPOOL_IMAGE\<close> = 1; the permanent pool 0 stays.\<close>

definition jpeg_abort_compress :: "compressor \<Rightarrow> compressor" where
  "jpeg_abort_compress s =
     (if \<not> mem s then s
      else invoke [free_pool 1] (s\<lparr>cinfo := (cinfo s)\<lparr>global_state := CSTATE_START\<rparr>\<rparr>))"

definition jpeg_destroy_compress :: "compressor \<Rightarrow> compressor" where
  "jpeg_destroy_compress s =
     (let s = (if mem s then invoke [self_destruct] s else s)
      in s\<lparr>mem := False, cinfo := (cinfo s)\<lparr>global_state := 0\<rparr>\<rparr>)"

section \<open>Tables\<close>

definition jpeg_suppress_tables :: "bool \<Rightarrow> jpeg_compress_struct \<Rightarrow> jpeg_compress_struct" where
  "jpeg_suppress_tables suppress ci =
     ci\<lparr>quant_tbl_ptrs := map (map_option (\<lambda>t. t\<lparr>JQUANT_TBL.sent_table := suppress\<rparr>)) (quant_tbl_ptrs ci),
        dc_huff_tbl_ptrs := map (map_option (\<lambda>t. t\<lparr>JHUFF_TBL.sent_table := suppress\<rparr>)) (dc_huff_tbl_ptrs ci),
        ac_huff_tbl_ptrs := map (map_option (\<lambda>t. t\<lparr>JHUFF_TBL.sent_table := suppress\<rparr>)) (ac_huff_tbl_ptrs ci)\<rparr>"

definition in_state :: "int list \<Rightarrow> compressor \<Rightarrow> fault + unit" where
  "in_state sts s =
     (if global_state (cinfo s) \<in> set sts then Inr () else Inl (ErrExit (JERR_BAD_STATE (global_state (cinfo s)))))"

definition jpeg_write_tables :: "compressor \<Rightarrow> fault + compressor" where
  "jpeg_write_tables s =
     ebind (in_state [CSTATE_START] s) (\<lambda>_.
     Inr (invoke [reset_error_mgr, init_destination, jinit_marker_writer, write_tables_only, term_destination] s))"

section \<open>Starting\<close>

definition jinit_compress_master :: "compressor \<Rightarrow> fault + compressor" where
  "jinit_compress_master s =
     ebind (jinit_c_master_control False s) (\<lambda>s.
     let ci = cinfo s
     in Inr (invoke
          ((if raw_data_in ci then [] else [jinit_color_converter, jinit_downsampler, jinit_c_prep_controller False]) @
           [jinit_forward_dct,
            if arith_code ci then jinit_arith_encoder else if progressive_mode ci then jinit_phuff_encoder else jinit_huff_encoder,
            jinit_c_coef_controller (1 < num_scans ci \<or> optimize_coding ci), jinit_c_main_controller False,
            jinit_marker_writer, realize_virt_arrays, write_file_header]) s))"

definition jpeg_start_compress :: "bool \<Rightarrow> compressor \<Rightarrow> fault + compressor" where
  "jpeg_start_compress write_all_tables s =
     ebind (in_state [CSTATE_START] s) (\<lambda>_.
     let s = (if write_all_tables then s\<lparr>cinfo := jpeg_suppress_tables False (cinfo s)\<rparr> else s);
         s = invoke [reset_error_mgr, init_destination] s
     in ebind (jinit_compress_master s) (\<lambda>s.
        ebind (prepare_for_pass s) (\<lambda>s.
        Inr (s\<lparr>cinfo := (cinfo s)\<lparr>next_scanline := 0,
               global_state := (if raw_data_in (cinfo s) then CSTATE_RAW_OK else CSTATE_SCANNING)\<rparr>\<rparr>))))"

section \<open>Writing data\<close>

text \<open>\<open>process_data s n\<close> is the number of the \<open>n\<close> offered rows the main controller takes.\<close>

definition jpeg_write_scanlines ::
  "(compressor \<Rightarrow> u32 \<Rightarrow> u32) \<Rightarrow> u32 \<Rightarrow> compressor \<Rightarrow> fault + (u32 \<times> compressor)" where
  "jpeg_write_scanlines process_data num_lines s =
     ebind (in_state [CSTATE_SCANNING] s) (\<lambda>_.
     let s = (if call_pass_startup (master s) then pass_startup s else s);
         rows_left = image_height (cinfo s) - next_scanline (cinfo s);
         num_lines = (if rows_left < num_lines then rows_left else num_lines);
         row_ctr = process_data s num_lines;
         s = invoke [main_process_data num_lines] s
     in Inr (row_ctr, s\<lparr>cinfo := (cinfo s)\<lparr>next_scanline := next_scanline (cinfo s) + row_ctr\<rparr>\<rparr>))"

definition jpeg_write_raw_data ::
  "(compressor \<Rightarrow> bool) \<Rightarrow> u32 \<Rightarrow> compressor \<Rightarrow> fault + (u32 \<times> compressor)" where
  "jpeg_write_raw_data compress_data num_lines s =
     ebind (in_state [CSTATE_RAW_OK] s) (\<lambda>_.
     if image_height (cinfo s) \<le> next_scanline (cinfo s) then Inr (0, s)
     else
       let s = (if call_pass_startup (master s) then pass_startup s else s);
           lines_per_iMCU_row = word_of_int (max_v_samp_factor (cinfo s) * DCTSIZE)
       in if num_lines < lines_per_iMCU_row then Inl (ErrExit JERR_BUFFER_SIZE)
          else
            let ok = compress_data s; s = invoke [coef_compress_data] s
            in if \<not> ok then Inr (0, s)
               else Inr (lines_per_iMCU_row,
                      s\<lparr>cinfo := (cinfo s)\<lparr>next_scanline := next_scanline (cinfo s) + lines_per_iMCU_row\<rparr>\<rparr>))"

definition marker_allowed :: "compressor \<Rightarrow> fault + unit" where
  "marker_allowed s =
     (if next_scanline (cinfo s) \<noteq> 0 then Inl (ErrExit (JERR_BAD_STATE (global_state (cinfo s))))
      else in_state [CSTATE_SCANNING, CSTATE_RAW_OK, CSTATE_WRCOEFS] s)"

definition jpeg_write_marker :: "int \<Rightarrow> u8 list \<Rightarrow> compressor \<Rightarrow> fault + compressor" where
  "jpeg_write_marker marker dat s =
     ebind (marker_allowed s) (\<lambda>_.
     Inr (invoke (write_marker_header marker (of_nat (length dat)) # map write_marker_byte dat) s))"

definition jpeg_write_m_header :: "int \<Rightarrow> u32 \<Rightarrow> compressor \<Rightarrow> fault + compressor" where
  "jpeg_write_m_header marker datalen s =
     ebind (marker_allowed s) (\<lambda>_. Inr (invoke [write_marker_header marker datalen] s))"

definition jpeg_write_m_byte :: "u8 \<Rightarrow> compressor \<Rightarrow> compressor" where
  "jpeg_write_m_byte val s = invoke [write_marker_byte val] s"

section \<open>Finishing\<close>

primrec iMCU_rows :: "(compressor \<Rightarrow> bool) \<Rightarrow> nat \<Rightarrow> compressor \<Rightarrow> fault + compressor" where
  "iMCU_rows compress_data 0 s = Inr s"
| "iMCU_rows compress_data (Suc n) s =
     (let ok = compress_data s; s = invoke [coef_compress_data] s
      in if \<not> ok then Inl (ErrExit JERR_CANT_SUSPEND) else iMCU_rows compress_data n s)"

text \<open>The loop over the remaining passes, with a bound on its rounds.\<close>

fun remaining_passes :: "(compressor \<Rightarrow> bool) \<Rightarrow> nat \<Rightarrow> compressor \<Rightarrow> fault + compressor" where
  "remaining_passes compress_data n s =
     (if is_last_pass (master s) then Inr s
      else case n of
        0 \<Rightarrow> Inl RoundsExhausted
      | Suc n \<Rightarrow>
          ebind (prepare_for_pass s) (\<lambda>s.
          ebind (iMCU_rows compress_data (unat (total_iMCU_rows (cinfo s))) s) (\<lambda>s.
          remaining_passes compress_data n (finish_pass_master s))))"

declare remaining_passes.simps [simp del]

definition jpeg_finish_compress :: "(compressor \<Rightarrow> bool) \<Rightarrow> compressor \<Rightarrow> fault + compressor" where
  "jpeg_finish_compress compress_data s =
     ebind
       (if global_state (cinfo s) = CSTATE_SCANNING \<or> global_state (cinfo s) = CSTATE_RAW_OK
        then if next_scanline (cinfo s) < image_height (cinfo s) then Inl (ErrExit JERR_TOO_LITTLE_DATA)
             else Inr (finish_pass_master s)
        else if global_state (cinfo s) \<noteq> CSTATE_WRCOEFS then Inl (ErrExit (JERR_BAD_STATE (global_state (cinfo s))))
        else Inr s)
       (\<lambda>s. ebind (remaining_passes compress_data (nat (total_passes (master s))) s) (\<lambda>s.
            Inr (jpeg_abort_compress (invoke [write_file_trailer, term_destination] s))))"

end
