(* ===== verification/Jcpasses.thy ===== *)
theory Jcpasses imports Jcapi begin

text \<open>
  The sequence of passes: whatever the scan script, with or without Huffman optimisation, every scan
  is written once, in order, and the loop over the passes ends. \<open>valid_job\<close> is what the parameter
  checks establish about the scans.
\<close>

section \<open>The scans a job consists of\<close>

text \<open>What no pass changes.\<close>

definition samp :: "jpeg_component_info \<Rightarrow> int \<times> int" where
  "samp c = (h_samp_factor c, v_samp_factor c)"

definition same_job :: "jpeg_compress_struct \<Rightarrow> jpeg_compress_struct \<Rightarrow> bool" where
  "same_job c c' \<longleftrightarrow> optimize_coding c' = optimize_coding c \<and> arith_code c' = arith_code c \<and> scan_info c' = scan_info c \<and>
     num_scans c' = num_scans c \<and> num_components c' = num_components c \<and> raw_data_in c' = raw_data_in c \<and>
     total_iMCU_rows c' = total_iMCU_rows c \<and>
     image_height c' = image_height c \<and> map samp (comp_info c') = map samp (comp_info c) \<and>
     length (cur_comp_info c') = length (cur_comp_info c)"

lemma same_job_refl [simp]: "same_job c c"
  by (simp add: same_job_def)

lemma same_job_trans: "same_job a b \<Longrightarrow> same_job b c \<Longrightarrow> same_job a c"
  by (simp add: same_job_def)

lemma same_job_length: "same_job c c' \<Longrightarrow> length (comp_info c') = length (comp_info c)"
  unfolding same_job_def by (metis length_map)

text \<open>The components and parameters of scan \<open>k\<close>.\<close>

definition scan_at :: "jpeg_compress_struct \<Rightarrow> nat \<Rightarrow> nat list \<times> int \<times> int \<times> int \<times> int" where
  "scan_at c k = (case scan_info c of
     None \<Rightarrow> ([0..<nat (num_components c)], 0, 63, 0, 0)
   | Some scans \<Rightarrow> let s = scans ! k in (map nat (scan_indexes s), scan_Ss s, scan_Se s, scan_Ah s, scan_Al s))"

definition header_at :: "jpeg_compress_struct \<Rightarrow> nat \<Rightarrow> method_call" where
  "header_at c k = (case scan_at c k of (is, ss, se, ah, al) \<Rightarrow> write_scan_header is ss se ah al)"

definition mcu_blocks_of :: "(int \<times> int) list \<Rightarrow> nat list \<Rightarrow> int" where
  "mcu_blocks_of ss is = sum_list (map (\<lambda>i. fst (ss ! i) * snd (ss ! i)) is)"

text \<open>
  The scans of the job are within the limits: one to four existing components each, and at most ten
  blocks in an interleaved MCU.
\<close>

definition sampled :: "(int \<times> int) list \<Rightarrow> nat \<Rightarrow> bool" where
  "sampled ss i \<longleftrightarrow> i < length ss \<and> 1 \<le> fst (ss ! i) \<and> 1 \<le> snd (ss ! i)"

definition valid_job :: "jpeg_compress_struct \<Rightarrow> bool" where
  "valid_job c \<longleftrightarrow> 0 < num_scans c \<and> length (cur_comp_info c) = 4 \<and>
     (case scan_info c of None \<Rightarrow> num_scans c = 1 | Some scans \<Rightarrow> num_scans c \<le> int (length scans) \<and>
        (\<forall>k < nat (num_scans c). int (length (scan_indexes (scans ! k))) = scan_comps (scans ! k))) \<and>
     (\<forall>k < nat (num_scans c). case scan_at c k of (is, _) \<Rightarrow> 1 \<le> length is \<and> length is \<le> 4 \<and>
        (\<forall>i \<in> set is. sampled (map samp (comp_info c)) i) \<and> (1 < length is \<longrightarrow> mcu_blocks_of (map samp (comp_info c)) is \<le> 10))"

lemma valid_job_same: "same_job c c' \<Longrightarrow> valid_job c \<Longrightarrow> valid_job c'"
proof -
  assume s: "same_job c c'" and v: "valid_job c"
  have "scan_at c' k = scan_at c k" for k using s by (simp add: scan_at_def same_job_def cong: option.case_cong)
  then show ?thesis using s v unfolding valid_job_def
    by (simp add: same_job_def cong: option.case_cong)
qed

lemma header_same: "same_job c c' \<Longrightarrow> header_at c' k = header_at c k"
  by (simp add: header_at_def scan_at_def same_job_def cong: option.case_cong)

section \<open>Setting up a scan\<close>

lemma select_scan:
  assumes v: "valid_job c" and k: "k < nat (num_scans c)"
  obtains c' where "select_scan_parameters (int k) c = Inr c'" "same_job c c'" "comp_info c' = comp_info c"
    "comps_in_scan c' = int (length (fst (scan_at c k)))" "take (length (fst (scan_at c k))) (cur_comp_info c') = fst (scan_at c k)"
    "scan_header c' = header_at c k" "Ss c' = fst (snd (scan_at c k))" "Ah c' = fst (snd (snd (snd (scan_at c k))))"
proof (cases "scan_info c")
  case None
  then have n: "1 \<le> num_components c" "num_components c \<le> 4" "k = 0" "length (cur_comp_info c) = 4"
    using v k by (auto simp: valid_job_def scan_at_def)
  let ?c = "c\<lparr>comps_in_scan := num_components c, cur_comp_info := [0..<nat (num_components c)] @ drop (nat (num_components c)) (cur_comp_info c),
                    Ss := 0, Se := int DCTSIZE2 - 1, Ah := 0, Al := 0\<rparr>"
  have "select_scan_parameters (int k) c = Inr ?c"
    using None n by (simp add: select_scan_parameters_def MAX_COMPS_IN_SCAN_def Let_def)
  moreover have "same_job c ?c" using n by (simp add: same_job_def)
  ultimately show ?thesis using that n None
    by (simp add: scan_at_def scan_header_def header_at_def DCTSIZE2_def)
next
  case (Some scans)
  let ?s = "scans ! k"
  from v k Some have n: "num_scans c \<le> int (length scans)" "int (length (scan_indexes ?s)) = scan_comps ?s" "length (cur_comp_info c) = 4"
    "length (scan_indexes ?s) \<le> 4"
    by (auto simp: valid_job_def scan_at_def Let_def split: prod.splits)
  let ?c = "c\<lparr>comps_in_scan := scan_comps ?s,
                    cur_comp_info := map nat (scan_indexes ?s) @ drop (length (scan_indexes ?s)) (cur_comp_info c),
                    Ss := scan_Ss ?s, Se := scan_Se ?s, Ah := scan_Ah ?s, Al := scan_Al ?s\<rparr>"
  have "int k < int (length scans)" using n(1) k by linarith
  then have "select_scan_parameters (int k) c = Inr ?c" using Some by (simp add: select_scan_parameters_def Let_def)
  moreover have "same_job c ?c" using n by (simp add: same_job_def)
  moreover have "nat (scan_comps ?s) = length (scan_indexes ?s)" using n(2) by simp
  ultimately show ?thesis using that n(2) Some
    by (simp add: scan_at_def scan_header_def header_at_def Let_def)
qed

lemma samp_component [simp]: "samp (interleaved_component c) = samp c" "samp (noninterleaved_component c) = samp c"
  by (simp_all add: samp_def interleaved_component_def noninterleaved_component_def)

lemma map_samp_update [simp]: "samp x = samp (cs ! i) \<Longrightarrow> map samp (cs[i := x]) = map samp cs"
  by (cases "i < length cs") (auto simp: map_update list_update_same_conv list_update_beyond)

lemma mcu_blocks_nonneg: "\<forall>i \<in> set is. sampled ss i \<Longrightarrow> 0 \<le> mcu_blocks_of ss is"
  unfolding mcu_blocks_of_def by (rule sum_list_nonneg) (auto simp: sampled_def)

lemma interleave_ok:
  "blocks + mcu_blocks_of (map samp comps) is \<le> 10 \<Longrightarrow> \<forall>i \<in> set is. sampled (map samp comps) i \<Longrightarrow>
   \<exists>comps' b mm'. interleave ci is (comps, blocks, mm) = Inr (comps', b, mm') \<and> map samp comps' = map samp comps"
proof (induction "is" arbitrary: ci comps blocks mm)
  case (Cons i "is")
  let ?c = "interleaved_component (comps ! i)"
  have i: "i < length comps" and p: "1 \<le> h_samp_factor (comps ! i)" "1 \<le> v_samp_factor (comps ! i)"
    using Cons.prems(2) by (auto simp: sampled_def samp_def)
  have b: "MCU_blocks ?c = h_samp_factor (comps ! i) * v_samp_factor (comps ! i)" by (simp add: interleaved_component_def)
  have "0 < MCU_blocks ?c" unfolding b using p by (intro mult_pos_pos) simp_all
  then have p1: "1 \<le> MCU_blocks ?c" by simp
  have rest: "0 \<le> mcu_blocks_of (map samp comps) is" using Cons.prems(2) by (intro mcu_blocks_nonneg) simp
  have "map samp comps ! i = (h_samp_factor (comps ! i), v_samp_factor (comps ! i))" using i by (simp add: samp_def)
  then have s: "blocks + MCU_blocks ?c + mcu_blocks_of (map samp comps) is \<le> 10"
    using Cons.prems(1) by (simp add: mcu_blocks_of_def b)
  obtain b' mm' where am: "add_membership (nat (MCU_blocks ?c)) ci (blocks, mm) = (b', mm')" by fastforce
  have "b' = blocks + int (nat (MCU_blocks ?c))"
  proof -
    have "fst (add_membership n ci (x, y)) = x + int n" for n x y
      by (induction n arbitrary: x y) simp_all
    from this [of "nat (MCU_blocks ?c)" blocks mm] am show ?thesis by simp
  qed
  then have b': "b' = blocks + MCU_blocks ?c" using p1 by simp
  have m: "map samp (comps[i := ?c]) = map samp comps" by simp
  from Cons.IH [of b' "comps[i := ?c]" "ci + 1" mm'] s b' Cons.prems(2) obtain comps' b2 mm2 where
    "interleave (ci + 1) is (comps[i := ?c], b', mm') = Inr (comps', b2, mm2)" "map samp comps' = map samp comps"
    unfolding m by auto
  then show ?case using am s rest by (simp add: Let_def C_MAX_BLOCKS_IN_MCU_def)
qed simp

lemma set_restart_job [simp]: "same_job c (set_restart c)" "scan_header (set_restart c) = scan_header c"
    "Ss (set_restart c) = Ss c" "Ah (set_restart c) = Ah c"
  by (simp_all add: set_restart_def same_job_def scan_header_def Let_def)

lemma per_scan_ok:
  assumes n: "comps_in_scan c = int (length is)" "take (length is) (cur_comp_info c) = is" "1 \<le> length is" "length is \<le> 4"
    and idx: "\<forall>i \<in> set is. sampled (map samp (comp_info c)) i" and b: "1 < length is \<longrightarrow> mcu_blocks_of (map samp (comp_info c)) is \<le> 10"
  obtains c' where "per_scan_setup c = Inr c'" "same_job c c'" "scan_header c' = scan_header c" "Ss c' = Ss c" "Ah c' = Ah c"
proof (cases "length is = 1")
  case True
  let ?i = "cur_comp_info c ! 0"
  let ?c = "c\<lparr>MCUs_per_row := width_in_blocks (comp_info c ! ?i), MCU_rows_in_scan := height_in_blocks (comp_info c ! ?i),
                  comp_info := (comp_info c)[?i := noninterleaved_component (comp_info c ! ?i)],
                  blocks_in_MCU := 1, MCU_membership := (MCU_membership c)[0 := 0]\<rparr>"
  have "per_scan_setup c = Inr (set_restart ?c)" using True n(1) by (simp add: per_scan_setup_def Let_def)
  moreover have "same_job c ?c" by (simp add: same_job_def)
  moreover have "scan_header ?c = scan_header c" by (simp add: scan_header_def)
  ultimately show ?thesis using that [of "set_restart ?c"] by (simp add: same_job_trans [of c ?c])
next
  case False
  then have l: "1 < length is" "is \<noteq> []" using n(3) by auto
  have "0 + mcu_blocks_of (map samp (comp_info c)) is \<le> 10" using b l by simp
  from interleave_ok [OF this idx, of 0 "MCU_membership c"] obtain comps' bl mm' where
    i: "interleave 0 is (comp_info c, 0, MCU_membership c) = Inr (comps', bl, mm')" "map samp comps' = map samp (comp_info c)"
    by blast
  let ?c = "c\<lparr>MCUs_per_row := word_of_int (jdiv_round_up (sint (image_width c)) (max_h_samp_factor c * DCTSIZE)),
               MCU_rows_in_scan := word_of_int (jdiv_round_up (sint (image_height c)) (max_v_samp_factor c * DCTSIZE)),
               comp_info := comps', blocks_in_MCU := bl, MCU_membership := mm'\<rparr>"
  have "per_scan_setup c = Inr (set_restart ?c)"
    using l n i(1) by (simp add: per_scan_setup_def Let_def MAX_COMPS_IN_SCAN_def)
  moreover have "same_job c ?c" using i(2) by (simp add: same_job_def)
  moreover have "scan_header ?c = scan_header c" by (simp add: scan_header_def)
  ultimately show ?thesis using that [of "set_restart ?c"] by (simp add: same_job_trans [of c ?c])
qed

lemma setup_scan_ok:
  assumes v: "valid_job (cinfo s)" and k: "scan_number (master s) = int k" "k < nat (num_scans (cinfo s))"
  obtains c where "setup_scan s = Inr (s\<lparr>cinfo := c\<rparr>)" "same_job (cinfo s) c" "scan_header c = header_at (cinfo s) k"
    "Ss c = fst (snd (scan_at (cinfo s) k))" "Ah c = fst (snd (snd (snd (scan_at (cinfo s) k))))"
proof -
  obtain "is" ss se ah al where sc: "scan_at (cinfo s) k = (is, ss, se, ah, al)" by (metis prod_cases5)
  from select_scan [OF v k(2)] sc obtain c1 where c1: "select_scan_parameters (int k) (cinfo s) = Inr c1" "same_job (cinfo s) c1"
    "comp_info c1 = comp_info (cinfo s)" "comps_in_scan c1 = int (length is)" "take (length is) (cur_comp_info c1) = is"
    "scan_header c1 = header_at (cinfo s) k" "Ss c1 = ss" "Ah c1 = ah" by (metis fst_conv snd_conv)
  have w: "1 \<le> length is" "length is \<le> 4" "\<forall>i \<in> set is. sampled (map samp (comp_info c1)) i"
    "1 < length is \<longrightarrow> mcu_blocks_of (map samp (comp_info c1)) is \<le> 10"
    using v k(2) sc c1(3) by (auto simp: valid_job_def)
  from per_scan_ok [OF c1(4,5) w(1-4)] obtain c2 where c2: "per_scan_setup c1 = Inr c2" "same_job c1 c2"
    "scan_header c2 = scan_header c1" "Ss c2 = Ss c1" "Ah c2 = Ah c1" by metis
  have "setup_scan s = Inr (s\<lparr>cinfo := c2\<rparr>)" using c1(1) c2(1) k(1) by (simp add: setup_scan_def)
  then show ?thesis using that [of c2] c1 c2 sc same_job_trans by simp
qed

section \<open>The passes\<close>

definition is_header :: "method_call \<Rightarrow> bool" where
  "is_header m \<longleftrightarrow> (case m of write_file_header \<Rightarrow> True | write_frame_header \<Rightarrow> True
     | write_scan_header _ _ _ _ _ \<Rightarrow> True | write_file_trailer \<Rightarrow> True | _ \<Rightarrow> False)"

text \<open>The markers written so far.\<close>

definition headers :: "compressor \<Rightarrow> method_call list" where
  "headers s = filter is_header (calls s)"

lemma headers_invoke [simp]: "headers (invoke cs s) = headers s @ filter is_header cs"
  by (simp add: headers_def invoke_def)

lemma headers_frame [simp]:
  "headers (s\<lparr>cinfo := c\<rparr>) = headers s" "headers (s\<lparr>master := m\<rparr>) = headers s" "headers (s\<lparr>mem := b\<rparr>) = headers s"
  by (simp_all add: headers_def)

lemma invoke_frame [simp]: "cinfo (invoke cs s) = cinfo s" "master (invoke cs s) = master s" "mem (invoke cs s) = mem s"
  by (simp_all add: invoke_def)

lemma is_header_simps [simp]:
  "is_header write_file_header" "is_header write_frame_header" "is_header (write_scan_header a b c d e)"
  "is_header write_file_trailer" "\<not> is_header (entropy_start_pass x)" "\<not> is_header (coef_start_pass y)"
  "\<not> is_header cconvert_start_pass" "\<not> is_header downsample_start_pass" "\<not> is_header (prep_start_pass y)"
  "\<not> is_header fdct_start_pass" "\<not> is_header (main_start_pass y)" "\<not> is_header coef_compress_data"
  "\<not> is_header entropy_finish_pass" "\<not> is_header (main_process_data z)" "\<not> is_header term_destination"
  "\<not> is_header init_destination" "\<not> is_header reset_error_mgr" "\<not> is_header (free_pool p)"
  "\<not> is_header jinit_color_converter" "\<not> is_header jinit_downsampler" "\<not> is_header (jinit_c_prep_controller x)"
  "\<not> is_header jinit_forward_dct" "\<not> is_header jinit_arith_encoder" "\<not> is_header jinit_phuff_encoder"
  "\<not> is_header jinit_huff_encoder" "\<not> is_header (jinit_c_coef_controller x)" "\<not> is_header (jinit_c_main_controller x)"
  "\<not> is_header jinit_marker_writer" "\<not> is_header realize_virt_arrays"
  by (simp_all add: is_header_def)

lemma is_header_header [simp]: "is_header (scan_header c)" "is_header (header_at c k)"
  by (simp_all add: scan_header_def header_at_def split: prod.splits)

text \<open>The markers of the first \<open>k\<close> scans.\<close>

definition scan_headers :: "jpeg_compress_struct \<Rightarrow> nat \<Rightarrow> method_call list" where
  "scan_headers c k = (if k = 0 then [] else write_frame_header # map (header_at c) [0..<k])"

lemma scan_headers_Suc: "scan_headers c (Suc k) = (if k = 0 then [write_frame_header] else scan_headers c k) @ [header_at c k]"
  by (simp add: scan_headers_def)

definition wanted_passes :: "jpeg_compress_struct \<Rightarrow> int" where
  "wanted_passes c = (if optimize_coding c then num_scans c * 2 else num_scans c)"

text \<open>
  Between two passes, \<open>k\<close> scans have been written after the markers \<open>pre\<close>; with optimisation the
  statistics of scan \<open>k\<close> may have been gathered, and then the scan is set up.
\<close>

definition between :: "jpeg_compress_struct \<Rightarrow> method_call list \<Rightarrow> nat \<Rightarrow> compressor \<Rightarrow> bool" where
  "between c pre k s \<longleftrightarrow> same_job c (cinfo s) \<and> headers s = pre @ scan_headers c k \<and> scan_number (master s) = int k \<and>
     total_passes (master s) = wanted_passes c \<and> k \<le> nat (num_scans c) \<and>
     is_last_pass (master s) = (pass_number (master s) = total_passes (master s)) \<and>
     (if optimize_coding c
      then pass_type (master s) = huff_opt_pass \<and> pass_number (master s) = 2 * int k \<or>
           k < nat (num_scans c) \<and> pass_type (master s) = output_pass \<and> pass_number (master s) = 2 * int k + 1 \<and>
           scan_header (cinfo s) = header_at c k
      else pass_type (master s) = output_pass \<and> pass_number (master s) = int k)"

lemma iMCU_rows_ok:
  assumes "\<And>s. compress_data s"
  shows "\<exists>t. iMCU_rows compress_data n s = Inr t \<and> cinfo t = cinfo s \<and> master t = master s \<and> mem t = mem s \<and> headers t = headers s"
proof (induction n arbitrary: s)
  case (Suc n)
  from Suc.IH [of "invoke [coef_compress_data] s"] show ?case using assms by (simp add: Let_def)
qed simp

lemma output_pass_ok:
  assumes v: "valid_job c" and s: "same_job c (cinfo s)" and k: "scan_number (master s) = int k" "k < nat (num_scans c)"
    and o: "optimize_coding c \<Longrightarrow> scan_header (cinfo s) = header_at c k" and h: "headers s = pre @ scan_headers c k"
  obtains t where "do_output_pass s = Inr t" "same_job c (cinfo t)" "headers t = pre @ scan_headers c (Suc k)"
    "master t = (master s)\<lparr>call_pass_startup := False\<rparr>" "mem t = mem s"
proof -
  have v': "valid_job (cinfo s)" using valid_job_same [OF s v] .
  have oc: "optimize_coding (cinfo s) = optimize_coding c" and ns: "num_scans (cinfo s) = num_scans c" using s by (simp_all add: same_job_def)
  obtain u where u: "(if optimize_coding (cinfo s) then Inr s else setup_scan s) = Inr u" "same_job c (cinfo u)" "scan_header (cinfo u) = header_at c k"
    "master u = master s" "headers u = headers s" "mem u = mem s"
  proof (cases "optimize_coding c")
    case True
    then show ?thesis using that [of s] oc s o by simp
  next
    case False
    from setup_scan_ok [OF v' k(1)] k(2) ns obtain c' where c': "setup_scan s = Inr (s\<lparr>cinfo := c'\<rparr>)" "same_job (cinfo s) c'"
      "scan_header c' = header_at (cinfo s) k" by auto
    then show ?thesis using that [of "s\<lparr>cinfo := c'\<rparr>"] False oc s header_same [OF s] same_job_trans [OF s] by simp
  qed
  show ?thesis
    using that u(2-6) k h unfolding do_output_pass_def u(1) by (simp add: Let_def scan_headers_Suc scan_headers_def)
qed


lemma finish_pass_frame [simp]:
  "cinfo (finish_pass_master s) = cinfo s" "headers (finish_pass_master s) = headers s" "mem (finish_pass_master s) = mem s"
  "total_passes (master (finish_pass_master s)) = total_passes (master s)"
  "is_last_pass (master (finish_pass_master s)) = is_last_pass (master s)"
  "pass_number (master (finish_pass_master s)) = pass_number (master s) + 1"
  by (simp_all add: finish_pass_master_def Let_def split: c_pass_type.split)

lemma finish_pass_fields:
  "pass_type (master (finish_pass_master s)) = (if pass_type (master s) = output_pass \<and> optimize_coding (cinfo s) then huff_opt_pass else output_pass)"
  "scan_number (master (finish_pass_master s)) = (if pass_type (master s) = huff_opt_pass \<or> pass_type (master s) = main_pass \<and> optimize_coding (cinfo s)
     then scan_number (master s) else scan_number (master s) + 1)"
  by (simp_all add: finish_pass_master_def Let_def split: c_pass_type.split)

text \<open>One round of the loop.\<close>

definition one_pass :: "(compressor \<Rightarrow> bool) \<Rightarrow> compressor \<Rightarrow> fault + compressor" where
  "one_pass compress_data s =
     ebind (prepare_for_pass s) (\<lambda>s.
     ebind (iMCU_rows compress_data (unat (total_iMCU_rows (cinfo s))) s) (\<lambda>s. Inr (finish_pass_master s)))"

lemma remaining_Suc:
  "\<not> is_last_pass (master s) \<Longrightarrow> remaining_passes cd (Suc n) s = ebind (one_pass cd s) (remaining_passes cd n)"
  by (subst remaining_passes.simps) (simp add: one_pass_def ebind_assoc)

lemma one_pass_after:
  assumes "\<And>s. cd s" "prepare_for_pass s = Inr t"
  obtains u where "one_pass cd s = Inr (finish_pass_master u)" "cinfo u = cinfo t" "master u = master t" "mem u = mem t" "headers u = headers t"
proof -
  from iMCU_rows_ok [of cd "unat (total_iMCU_rows (cinfo t))" t] assms(1) obtain u where
    "iMCU_rows cd (unat (total_iMCU_rows (cinfo t))) t = Inr u" "cinfo u = cinfo t" "master u = master t" "mem u = mem t" "headers u = headers t"
    by blast
  then show ?thesis using that assms(2) by (simp add: one_pass_def)
qed

lemma one_pass_between:
  assumes cd: "\<And>s. cd s" and v: "valid_job c" and b: "between c pre k s" and l: "\<not> is_last_pass (master s)"
  obtains t k' where "one_pass cd s = Inr t" "between c pre k' t" "pass_number (master s) < pass_number (master t)" "mem t = mem s"
proof -
  have N: "0 < num_scans c" using v by (simp add: valid_job_def)
  have sj: "same_job c (cinfo s)" and hd: "headers s = pre @ scan_headers c k" and sn: "scan_number (master s) = int k"
    and tp: "total_passes (master s) = wanted_passes c" using b by (simp_all add: between_def)
  have v': "valid_job (cinfo s)" using valid_job_same [OF sj v] .
  have eq: "optimize_coding (cinfo s) = optimize_coding c" "num_scans (cinfo s) = num_scans c" "arith_code (cinfo s) = arith_code c"
    using sj by (simp_all add: same_job_def)
  have "k \<le> nat (num_scans c)" using b by (simp add: between_def)
  then have le: "int k \<le> num_scans c" using N by linarith
  have k: "k < nat (num_scans c)"
  proof (rule ccontr)
    assume "\<not> k < nat (num_scans c)"
    then have "num_scans c = int k" using le by linarith
    then have "pass_number (master s) = total_passes (master s)"
      using b by (auto simp: between_def wanted_passes_def split: if_splits)
    with b l show False by (simp add: between_def)
  qed
  consider (out) "pass_type (master s) = output_pass" | (opt) "pass_type (master s) = huff_opt_pass" "optimize_coding c"
    using b by (auto simp: between_def split: if_splits)
  then show ?thesis
  proof cases
    case out
    have o: "optimize_coding c \<Longrightarrow> scan_header (cinfo s) = header_at c k" using b out by (auto simp: between_def)
    have pn: "pass_number (master s) = (if optimize_coding c then 2 * int k + 1 else int k)"
      using b out by (auto simp: between_def split: if_splits)
    from output_pass_ok [OF v sj sn k o hd] obtain t where t: "do_output_pass s = Inr t" "same_job c (cinfo t)"
      "headers t = pre @ scan_headers c (Suc k)" "master t = (master s)\<lparr>call_pass_startup := False\<rparr>" "mem t = mem s" by metis
    let ?t = "t\<lparr>master := (master t)\<lparr>is_last_pass := pass_number (master t) = total_passes (master t) - 1\<rparr>\<rparr>"
    have "prepare_for_pass s = Inr ?t" using out t(1) by (simp add: prepare_for_pass_def)
    from one_pass_after [of cd, OF cd this] obtain u where u: "one_pass cd s = Inr (finish_pass_master u)" "cinfo u = cinfo t"
      "master u = master ?t" "mem u = mem s" "headers u = headers t" using t(5) by auto
    have oc: "optimize_coding (cinfo u) = optimize_coding c" using u(2) t(2) by (simp add: same_job_def)
    have "between c pre (Suc k) (finish_pass_master u)"
      unfolding between_def using pn out u t oc k tp sn
      by (simp add: finish_pass_fields) (auto simp: wanted_passes_def)
    moreover have "pass_number (master s) < pass_number (master (finish_pass_master u))" using u(3) t(4) by simp
    ultimately show ?thesis using that u by simp
  next
    case opt
    from setup_scan_ok [OF v' sn] k eq(2) obtain c' where c': "setup_scan s = Inr (s\<lparr>cinfo := c'\<rparr>)" "same_job (cinfo s) c'"
      "scan_header c' = header_at (cinfo s) k" by auto
    have sj': "same_job c c'" using same_job_trans [OF sj c'(2)] .
    have h': "scan_header c' = header_at c k" using c'(3) header_same [OF sj] by simp
    have pn: "pass_number (master s) = 2 * int k" using b opt by (auto simp: between_def)
    show ?thesis
    proof (cases "Ss c' \<noteq> 0 \<or> Ah c' = 0 \<or> arith_code c'")
      case True
      let ?t = "(invoke [entropy_start_pass True, coef_start_pass JBUF_CRANK_DEST] (s\<lparr>cinfo := c'\<rparr>))
          \<lparr>master := (master s)\<lparr>call_pass_startup := False, is_last_pass := pass_number (master s) = total_passes (master s) - 1\<rparr>\<rparr>"
      have "prepare_for_pass s = Inr ?t" using opt c'(1) True by (simp add: prepare_for_pass_def invoke_def)
      from one_pass_after [of cd, OF cd this] obtain u where u: "one_pass cd s = Inr (finish_pass_master u)" "cinfo u = c'"
        "master u = master ?t" "mem u = mem s" "headers u = headers s" by auto
      have "between c pre k (finish_pass_master u)"
        unfolding between_def using opt u k tp sn sj' h' pn hd
        by (simp add: finish_pass_fields) (auto simp: wanted_passes_def)
      moreover have "pass_number (master s) < pass_number (master (finish_pass_master u))" using u(3) by simp
      ultimately show ?thesis using that u by simp
    next
      case False
      let ?s = "s\<lparr>cinfo := c', master := (master s)\<lparr>pass_type := output_pass, pass_number := pass_number (master s) + 1\<rparr>\<rparr>"
      have "same_job c (cinfo ?s)" "scan_number (master ?s) = int k" "headers ?s = pre @ scan_headers c k"
        using sj' sn hd by simp_all
      moreover have "scan_header (cinfo ?s) = header_at c k" using h' by simp
      ultimately obtain t where t: "do_output_pass ?s = Inr t" "same_job c (cinfo t)"
        "headers t = pre @ scan_headers c (Suc k)" "master t = (master ?s)\<lparr>call_pass_startup := False\<rparr>" "mem t = mem ?s"
        using output_pass_ok [OF v, of ?s k pre] k by metis
      let ?t = "t\<lparr>master := (master t)\<lparr>is_last_pass := pass_number (master t) = total_passes (master t) - 1\<rparr>\<rparr>"
      have "prepare_for_pass s = Inr ?t" using opt c'(1) False t(1) by (simp add: prepare_for_pass_def)
      from one_pass_after [of cd, OF cd this] obtain u where u: "one_pass cd s = Inr (finish_pass_master u)" "cinfo u = cinfo t"
        "master u = master ?t" "mem u = mem s" "headers u = headers t" using t(5) by auto
      have "optimize_coding (cinfo u)" using u(2) t(2) opt(2) by (simp add: same_job_def)
      then have "between c pre (Suc k) (finish_pass_master u)"
        unfolding between_def using opt u t k tp sn pn
        by (simp add: finish_pass_fields)
      moreover have "pass_number (master s) < pass_number (master (finish_pass_master u))" using u(3) t(4) by simp
      ultimately show ?thesis using that u by simp
    qed
  qed
qed

lemma remaining_passes_ok:
  assumes cd: "\<And>s. cd s" and v: "valid_job c"
  shows "between c pre k s \<Longrightarrow> total_passes (master s) - pass_number (master s) \<le> int n \<Longrightarrow>
    \<exists>t. remaining_passes cd n s = Inr t \<and> between c pre (nat (num_scans c)) t \<and> mem t = mem s \<and> is_last_pass (master t)"
proof (induction n arbitrary: s k)
  have done_: "\<exists>t. remaining_passes cd n s = Inr t \<and> between c pre (nat (num_scans c)) t \<and> mem t = mem s \<and> is_last_pass (master t)"
    if "between c pre k s" "is_last_pass (master s)" for n s k
  proof -
    have "k = nat (num_scans c)" using that v by (auto simp: between_def wanted_passes_def valid_job_def split: if_splits)
    with that show ?thesis by (subst remaining_passes.simps) simp
  qed
  {
    case 0
    have "k \<le> nat (num_scans c)" "0 < num_scans c" using 0(1) v by (simp_all add: between_def valid_job_def)
    then have "int k \<le> num_scans c" by linarith
    with 0 have "is_last_pass (master s)" by (auto simp: between_def wanted_passes_def split: if_splits)
    with done_ 0(1) show ?case by blast
  next
    case (Suc n)
    show ?case
    proof (cases "is_last_pass (master s)")
      case True
      with done_ Suc.prems(1) show ?thesis by blast
    next
      case False
      from one_pass_between [of cd, OF cd v Suc.prems(1) False] obtain t k' where t: "one_pass cd s = Inr t" "between c pre k' t"
        "pass_number (master s) < pass_number (master t)" "mem t = mem s" by blast
      have "total_passes (master t) = total_passes (master s)" using t(2) Suc.prems(1) by (simp add: between_def)
      then have "total_passes (master t) - pass_number (master t) \<le> int n" using t(3) Suc.prems(2) by simp
      from Suc.IH [OF t(2) this] t(1,4) show ?thesis unfolding remaining_Suc [OF False] by simp
    qed
  }
qed

section \<open>What the parameter checks establish\<close>

lemma check_sampling_ok: "check_sampling cs m = Inr m' \<Longrightarrow> x \<in> set cs \<Longrightarrow> 1 \<le> h_samp_factor x \<and> h_samp_factor x \<le> 4 \<and> 1 \<le> v_samp_factor x \<and> v_samp_factor x \<le> 4"
  by (induction cs m rule: check_sampling.induct) (auto simp: MAX_SAMP_FACTOR_def split: if_splits)

lemma samp_setup [simp]: "samp (setup_component c i x) = samp x"
  by (simp add: samp_def setup_component_def)

lemma initial_setup_ok:
  assumes "initial_setup c = Inr c'"
  shows "1 \<le> num_components c'" "num_components c' \<le> 10" "image_height c' \<noteq> 0" "image_height c' = image_height c"
    "num_components c' = num_components c" "scan_info c' = scan_info c" "cur_comp_info c' = cur_comp_info c" "num_scans c' = num_scans c"
    "map samp (comp_info c') = map samp (comp_info c)" "i < nat (num_components c') \<Longrightarrow> sampled (map samp (comp_info c')) i"
proof -
  let ?n = "nat (num_components c)" and ?comps = "take (nat (num_components c)) (comp_info c)"
  from assms obtain mh mv where a: "image_height c \<noteq> 0" "1 \<le> num_components c" "num_components c \<le> 10"
    "num_components c \<le> int (length (comp_info c))" "check_sampling ?comps (1, 1) = Inr (mh, mv)"
    and c': "c' = c\<lparr>max_h_samp_factor := mh, max_v_samp_factor := mv,
        comp_info := map (\<lambda>ci. setup_component (c\<lparr>max_h_samp_factor := mh, max_v_samp_factor := mv\<rparr>) ci (?comps ! ci)) [0..<?n] @ drop ?n (comp_info c),
        total_iMCU_rows := word_of_int (jdiv_round_up (sint (image_height c)) (mv * DCTSIZE))\<rparr>"
    by (auto simp: initial_setup_def Let_def MAX_COMPONENTS_def not_le not_less split: if_splits sum.splits prod.splits)
  show "1 \<le> num_components c'" "num_components c' \<le> 10" "image_height c' \<noteq> 0" "image_height c' = image_height c"
    "num_components c' = num_components c" "scan_info c' = scan_info c" "cur_comp_info c' = cur_comp_info c" "num_scans c' = num_scans c"
    using a by (simp_all add: c')
  have "map samp (map (\<lambda>ci. setup_component (c\<lparr>max_h_samp_factor := mh, max_v_samp_factor := mv\<rparr>) ci (?comps ! ci)) [0..<?n]) = map samp ?comps"
    using a(4) by (intro nth_equalityI) auto
  moreover have "comp_info c = ?comps @ drop ?n (comp_info c)" by simp
  ultimately show m: "map samp (comp_info c') = map samp (comp_info c)" unfolding c' by (simp flip: take_map drop_map)
  assume "i < nat (num_components c')"
  then have i: "i < ?n" "i < length (comp_info c)" using a(4) by (simp_all add: c')
  then have "comp_info c ! i \<in> set ?comps" by (auto simp: in_set_conv_nth intro!: exI [of _ i])
  from check_sampling_ok [OF a(5) this] i show "sampled (map samp (comp_info c')) i"
    unfolding m by (simp add: sampled_def samp_def)
qed

lemma check_indexes_ok: "check_indexes n sc prev is = Inr u \<Longrightarrow> i \<in> set is \<Longrightarrow> 0 \<le> i \<and> i < n"
  by (induction n sc prev "is" rule: check_indexes.induct) (auto split: if_splits)

lemma check_scan_ok:
  "check_scan p n sc s st = Inr st' \<Longrightarrow> 1 \<le> scan_comps s \<and> scan_comps s \<le> 4 \<and> (\<forall>i \<in> set (scan_indexes s). 0 \<le> i \<and> i < n)"
  by (cases st) (auto simp: check_scan_def Let_def result_simps MAX_COMPS_IN_SCAN_def dest: check_indexes_ok split: if_splits)

lemma check_scans_ok:
  "check_scans p n sc xs st = Inr st' \<Longrightarrow> s \<in> set xs \<Longrightarrow> 1 \<le> scan_comps s \<and> scan_comps s \<le> 4 \<and> (\<forall>i \<in> set (scan_indexes s). 0 \<le> i \<and> i < n)"
proof (induction xs arbitrary: sc st)
  case (Cons x xs)
  from Cons.prems(1) obtain st1 where st1: "check_scan p n sc x st = Inr st1" "check_scans p n (sc + 1) xs st1 = Inr st'"
    by (auto simp: result_simps)
  show ?case
  proof (cases "s = x")
    case True
    with check_scan_ok [OF st1(1)] show ?thesis by simp
  next
    case False
    with Cons.IH [OF st1(2)] Cons.prems(2) show ?thesis by simp
  qed
qed simp

lemma validate_script_ok:
  assumes "validate_script c scans = Inr p"
  shows "0 < num_scans c" "num_scans c \<le> int (length scans)"
    "k < nat (num_scans c) \<Longrightarrow> 1 \<le> scan_comps (scans ! k) \<and> scan_comps (scans ! k) \<le> 4 \<and>
       (\<forall>i \<in> set (scan_indexes (scans ! k)). 0 \<le> i \<and> i < num_components c)"
proof -
  from assms obtain pr st st' where a: "0 < num_scans c" "num_scans c \<le> int (length scans)"
    "check_scans pr (num_components c) 1 (take (nat (num_scans c)) scans) st = Inr st'"
    by (auto simp: validate_script_def Let_def not_le not_less split: if_splits sum.splits)
  show "0 < num_scans c" "num_scans c \<le> int (length scans)" using a by simp_all
  assume k: "k < nat (num_scans c)"
  then have "k < length scans" using a(2) by linarith
  with k have "scans ! k \<in> set (take (nat (num_scans c)) scans)" by (auto simp: in_set_conv_nth intro!: exI [of _ k])
  from check_scans_ok [OF a(3) this] show "1 \<le> scan_comps (scans ! k) \<and> scan_comps (scans ! k) \<le> 4 \<and>
       (\<forall>i \<in> set (scan_indexes (scans ! k)). 0 \<le> i \<and> i < num_components c)" .
qed

text \<open>An interleaved scan must not exceed ten blocks per MCU; this is checked when its pass begins.\<close>

definition scans_of :: "jpeg_compress_struct \<Rightarrow> nat list list" where
  "scans_of c = (case scan_info c of None \<Rightarrow> [[0..<nat (num_components c)]]
     | Some scans \<Rightarrow> map (\<lambda>s. map nat (scan_indexes s)) (take (nat (num_scans c)) scans))"

definition mcus_fit :: "jpeg_compress_struct \<Rightarrow> bool" where
  "mcus_fit c \<longleftrightarrow> (\<forall>is \<in> set (scans_of c). 1 < length is \<longrightarrow> mcu_blocks_of (map samp (comp_info c)) is \<le> 10)"

text \<open>The arrays of the structures have their declared sizes.\<close>

definition arrays_ok :: "jpeg_compress_struct \<Rightarrow> bool" where
  "arrays_ok c \<longleftrightarrow> length (cur_comp_info c) = 4 \<and>
     (\<forall>scans. scan_info c = Some scans \<longrightarrow> (\<forall>s \<in> set scans. length (scan_component_index s) = 4))"

lemma jinit_valid:
  assumes j: "jinit_c_master_control False s = Inr t" and a: "arrays_ok (cinfo s)" and f: "mcus_fit (cinfo s)"
    and n: "scan_info (cinfo s) = None \<Longrightarrow> num_components (cinfo s) \<le> 4"
  shows "valid_job (cinfo t)" "image_height (cinfo t) \<noteq> 0"
    "pass_type (master t) = main_pass" "scan_number (master t) = 0" "pass_number (master t) = 0"
    "total_passes (master t) = wanted_passes (cinfo t)" "headers t = headers s" "mem t = mem s"
proof -
  from j obtain c1 c2 where c1: "initial_setup (cinfo s) = Inr c1"
    and c2: "(case scan_info c1 of
              Some scans \<Rightarrow> ebind (validate_script c1 scans) (\<lambda>p. Inr (c1\<lparr>progressive_mode := p\<rparr>))
            | None \<Rightarrow> Inr (c1\<lparr>progressive_mode := False, num_scans := 1\<rparr>)) = Inr c2"
    and t: "t = s\<lparr>cinfo := (if progressive_mode c2 \<and> \<not> arith_code c2 then c2\<lparr>optimize_coding := True\<rparr> else c2),
       master := (master s)\<lparr>is_last_pass := False, pass_type := main_pass, scan_number := 0, pass_number := 0,
         total_passes := (if optimize_coding (if progressive_mode c2 \<and> \<not> arith_code c2 then c2\<lparr>optimize_coding := True\<rparr> else c2)
           then num_scans (if progressive_mode c2 \<and> \<not> arith_code c2 then c2\<lparr>optimize_coding := True\<rparr> else c2) * 2
           else num_scans (if progressive_mode c2 \<and> \<not> arith_code c2 then c2\<lparr>optimize_coding := True\<rparr> else c2))\<rparr>\<rparr>"
    by (auto simp: jinit_c_master_control_def result_simps Let_def)
  note I = initial_setup_ok [OF c1]
  define c where "c = cinfo t"
  have c: "scan_info c = scan_info c1" "num_components c = num_components c1" "cur_comp_info c = cur_comp_info c1"
    "comp_info c = comp_info c1" "image_height c = image_height c1"
    "num_scans c = (case scan_info c1 of None \<Rightarrow> 1 | Some _ \<Rightarrow> num_scans c1)"
    using c2 by (auto simp: c_def t result_simps split: option.splits)
  have ms: "map samp (comp_info c) = map samp (comp_info (cinfo s))" using c(4) I(9) by simp
  have "valid_job c"
  proof (cases "scan_info c")
    case None
    have l: "1 \<le> nat (num_components c)" "nat (num_components c) \<le> 4" using I(1,5) n None c(1,2) I(6) by auto
    have "\<forall>i \<in> set [0..<nat (num_components c)]. sampled (map samp (comp_info c)) i" using I(10) c by simp
    moreover have "1 < nat (num_components c) \<Longrightarrow> mcu_blocks_of (map samp (comp_info c)) [0..<nat (num_components c)] \<le> 10"
      using f None c(1,2) I(5,6) unfolding ms mcus_fit_def scans_of_def by simp
    ultimately show ?thesis using l None c a I(7) by (simp add: valid_job_def scan_at_def arrays_ok_def)
  next
    case (Some scans)
    then have v: "validate_script c1 scans = Inr (progressive_mode c2)" using c2 c(1) by (auto simp: result_simps)
    note V = validate_script_ok [OF v]
    have "scan_info c1 = Some scans" using Some c(1) by metis
    then have N: "num_scans c = num_scans c1" by (simp add: c(6))
    have sc: "int (length (scan_indexes (scans ! k))) = scan_comps (scans ! k)" "1 \<le> scan_comps (scans ! k)" "scan_comps (scans ! k) \<le> 4"
      "\<forall>i \<in> set (map nat (scan_indexes (scans ! k))). sampled (map samp (comp_info c)) i" if "k < nat (num_scans c1)" for k
    proof -
      have "k < length scans" using that V(2) by linarith
      then have "length (scan_component_index (scans ! k)) = 4" using a Some c(1) I(6) by (simp add: arrays_ok_def)
      then show "int (length (scan_indexes (scans ! k))) = scan_comps (scans ! k)" "1 \<le> scan_comps (scans ! k)" "scan_comps (scans ! k) \<le> 4"
        using V(3) [OF that] by (simp_all add: scan_indexes_def) linarith
      show "\<forall>i \<in> set (map nat (scan_indexes (scans ! k))). sampled (map samp (comp_info c)) i"
        using V(3) [OF that] I(10) c(4) by auto
    qed
    have "1 \<le> length (scan_indexes (scans ! k)) \<and> length (scan_indexes (scans ! k)) \<le> 4" if "k < nat (num_scans c1)" for k
      using sc [OF that] by linarith
    moreover have "1 < length (scan_indexes (scans ! k)) \<longrightarrow> mcu_blocks_of (map samp (comp_info c)) (map nat (scan_indexes (scans ! k))) \<le> 10"
      if k: "k < nat (num_scans c1)" for k
    proof -
      have "k < length scans" using k V(2) by linarith
      then have "scans ! k \<in> set (take (nat (num_scans (cinfo s))) scans)"
        using k I(8) by (auto simp: in_set_conv_nth intro!: exI [of _ k])
      moreover have "scan_info (cinfo s) = Some scans" using Some c(1) I(6) by simp
      ultimately show ?thesis using f unfolding ms mcus_fit_def scans_of_def by force
    qed
    ultimately show ?thesis using sc Some N V(1,2) c(3) a I(7)
      by (simp add: valid_job_def scan_at_def arrays_ok_def Let_def)
  qed
  then show "valid_job (cinfo t)" by (simp add: c_def)
  show "image_height (cinfo t) \<noteq> 0" using I(3) c(5) by (simp add: c_def)
  show "pass_type (master t) = main_pass" "scan_number (master t) = 0" "pass_number (master t) = 0"
    "total_passes (master t) = wanted_passes (cinfo t)" "headers t = headers s" "mem t = mem s"
    by (simp_all add: t wanted_passes_def headers_def)
qed


section \<open>A session\<close>

fun write_all :: "(compressor \<Rightarrow> u32 \<Rightarrow> u32) \<Rightarrow> u32 list \<Rightarrow> compressor \<Rightarrow> fault + compressor" where
  "write_all pd [] s = Inr s"
| "write_all pd (n # ns) s = ebind (jpeg_write_scanlines pd n s) (\<lambda>(r, s). write_all pd ns s)"

text \<open>
  The first pass, from \<open>jpeg_start_compress\<close> on: the frame and scan headers are written by the first
  call that brings data, or at the end of the first pass when it only gathers statistics.
\<close>

definition first_pass :: "jpeg_compress_struct \<Rightarrow> method_call list \<Rightarrow> compressor \<Rightarrow> bool" where
  "first_pass c pre s \<longleftrightarrow> same_job c (cinfo s) \<and> scan_header (cinfo s) = header_at c 0 \<and> mem s \<and>
     global_state (cinfo s) = CSTATE_SCANNING \<and> image_height (cinfo s) \<noteq> 0 \<and>
     pass_type (master s) = main_pass \<and> scan_number (master s) = 0 \<and> pass_number (master s) = 0 \<and>
     total_passes (master s) = wanted_passes c \<and> is_last_pass (master s) = (total_passes (master s) = 1) \<and>
     (call_pass_startup (master s) \<longrightarrow> \<not> optimize_coding c \<and> next_scanline (cinfo s) = 0) \<and>
     headers s = pre @ (if optimize_coding c \<or> call_pass_startup (master s) then [] else scan_headers c 1)"

lemma valid_scans_pos: "valid_job c \<Longrightarrow> 0 < nat (num_scans c)"
  by (simp add: valid_job_def)

lemma start_first_pass:
  assumes st: "jpeg_start_compress w s = Inr s1" and a: "arrays_ok (cinfo s)" and f: "mcus_fit (cinfo s)" and m: "mem s"
    and n: "scan_info (cinfo s) = None \<Longrightarrow> num_components (cinfo s) \<le> 4" and raw: "\<not> raw_data_in (cinfo s1)"
  shows "valid_job (cinfo s1) \<and> first_pass (cinfo s1) (headers s @ [write_file_header]) s1"
proof -
  define s0 where "s0 = invoke [reset_error_mgr, init_destination]
     (if w then s\<lparr>cinfo := jpeg_suppress_tables False (cinfo s)\<rparr> else s)"
  have s0: "scan_info (cinfo s0) = scan_info (cinfo s)" "num_components (cinfo s0) = num_components (cinfo s)"
    "arrays_ok (cinfo s0)" "mcus_fit (cinfo s0)" "headers s0 = headers s" "mem s0 = mem s"
    using a f by (simp_all add: s0_def jpeg_suppress_tables_def arrays_ok_def mcus_fit_def scans_of_def cong: option.case_cong)
  from st obtain t u v where t: "jinit_c_master_control False s0 = Inr t" and u: "prepare_for_pass u = Inr v"
    and ut: "cinfo u = cinfo t" "master u = master t" "mem u = mem t" "headers u = headers t @ [write_file_header]"
    and s1: "s1 = v\<lparr>cinfo := (cinfo v)\<lparr>next_scanline := 0,
               global_state := (if raw_data_in (cinfo v) then CSTATE_RAW_OK else CSTATE_SCANNING)\<rparr>\<rparr>"
    by (auto simp: jpeg_start_compress_def jinit_compress_master_def result_simps Let_def s0_def split: if_splits)
  note J = jinit_valid [OF t s0(3,4)]
  have n0: "scan_info (cinfo s0) = None \<Longrightarrow> num_components (cinfo s0) \<le> 4" using n s0 by simp
  have vt: "valid_job (cinfo u)" using J(1) [OF n0] ut by simp
  have k: "scan_number (master u) = int 0" "0 < nat (num_scans (cinfo u))" using J(4) [OF n0] ut valid_scans_pos [OF vt] by simp_all
  from setup_scan_ok [OF vt k] obtain c where c: "setup_scan u = Inr (u\<lparr>cinfo := c\<rparr>)" "same_job (cinfo u) c"
    "scan_header c = header_at (cinfo u) 0" by auto
  let ?c = "cinfo s1"
  have v: "cinfo v = c" "headers v = headers u" "mem v = mem u" "pass_type (master v) = main_pass" "scan_number (master v) = 0"
    "pass_number (master v) = 0" "total_passes (master v) = wanted_passes c" "call_pass_startup (master v) = (\<not> optimize_coding c)"
    "is_last_pass (master v) = (total_passes (master v) = 1)"
  proof -
    let ?u = "u\<lparr>cinfo := c\<rparr>"
    define u1 where "u1 = (if raw_data_in c then ?u
       else invoke [cconvert_start_pass, downsample_start_pass, prep_start_pass JBUF_PASS_THRU] ?u)"
    have u1: "cinfo u1 = c" "master u1 = master u" "headers u1 = headers u" "mem u1 = mem u" by (simp_all add: u1_def)
    have oc: "wanted_passes (cinfo u) = wanted_passes c" using c(2) by (simp add: wanted_passes_def same_job_def)
    define u2 where "u2 = invoke [fdct_start_pass, entropy_start_pass (optimize_coding c),
                      coef_start_pass (if 1 < total_passes (master u) then JBUF_SAVE_AND_PASS else JBUF_PASS_THRU),
                      main_start_pass JBUF_PASS_THRU] u1"
    have u2: "cinfo u2 = c" "master u2 = master u" "headers u2 = headers u" "mem u2 = mem u" using u1 by (simp_all add: u2_def)
    have "prepare_for_pass u = Inr (u2\<lparr>master := (master u)\<lparr>call_pass_startup := \<not> optimize_coding c,
        is_last_pass := pass_number (master u) = total_passes (master u) - 1\<rparr>\<rparr>)"
      using J(3) [OF n0] ut c(1) u1 by (simp add: prepare_for_pass_def Let_def u2_def flip: u1_def)
    then have v: "v = u2\<lparr>master := (master u)\<lparr>call_pass_startup := \<not> optimize_coding c,
        is_last_pass := pass_number (master u) = total_passes (master u) - 1\<rparr>\<rparr>" using u by simp
    show "cinfo v = c" "headers v = headers u" "mem v = mem u" "pass_type (master v) = main_pass" "scan_number (master v) = 0"
      "pass_number (master v) = 0" "total_passes (master v) = wanted_passes c" "call_pass_startup (master v) = (\<not> optimize_coding c)"
      "is_last_pass (master v) = (total_passes (master v) = 1)"
      using J(3-6) [OF n0] ut u2 oc unfolding v by simp_all
  qed
  have sj: "same_job c ?c" "same_job (cinfo u) ?c" using s1 v(1) c(2) by (auto simp: same_job_def)
  have h: "scan_header ?c = scan_header c" "header_at ?c 0 = header_at (cinfo u) 0" "wanted_passes ?c = wanted_passes c"
    "global_state ?c = CSTATE_SCANNING" "next_scanline ?c = 0" "optimize_coding ?c = optimize_coding c"
    "image_height ?c = image_height (cinfo u)"
    using s1 v(1) raw header_same [OF sj(2)] c(2) by (auto simp: scan_header_def wanted_passes_def same_job_def)
  show ?thesis
    using valid_job_same [OF sj(2) vt] h c(3) v s1 m s0 ut J(2,7,8) [OF n0]
    by (simp add: first_pass_def)
qed


lemma write_scanlines_first:
  assumes f: "first_pass c pre s"
  obtains r t where "jpeg_write_scanlines pd n s = Inr (r, t)" "first_pass c pre t" "\<not> call_pass_startup (master t)"
    "next_scanline (cinfo t) = next_scanline (cinfo s) + r"
proof -
  define u where "u = (if call_pass_startup (master s) then pass_startup s else s)"
  have ih: "image_height c \<noteq> 0" using f by (auto simp: first_pass_def same_job_def)
  have h: "cinfo u = cinfo s" "mem u = mem s" "\<not> call_pass_startup (master u)" "pass_type (master u) = pass_type (master s)"
    "scan_number (master u) = scan_number (master s)" "pass_number (master u) = pass_number (master s)"
    "total_passes (master u) = total_passes (master s)" "is_last_pass (master u) = is_last_pass (master s)"
    "headers u = pre @ (if optimize_coding c then [] else scan_headers c 1)"
    using f by (simp_all add: u_def pass_startup_def first_pass_def scan_headers_def)
  define q where "q = (if image_height (cinfo s) - next_scanline (cinfo s) < n then image_height (cinfo s) - next_scanline (cinfo s) else n)"
  define t where "t = (invoke [main_process_data q] u)\<lparr>cinfo := (cinfo s)\<lparr>next_scanline := next_scanline (cinfo s) + pd u q\<rparr>\<rparr>"
  have "jpeg_write_scanlines pd n s = Inr (pd u q, t)"
    using f h(1) by (simp add: jpeg_write_scanlines_def in_state_def first_pass_def Let_def q_def t_def flip: u_def)
  moreover have "first_pass c pre t"
    using f h ih by (simp add: first_pass_def t_def same_job_def scan_header_def)
  ultimately show ?thesis using that h(3) by (simp add: t_def)
qed

lemma write_all_first:
  "first_pass c pre s \<Longrightarrow> \<exists>t. write_all pd ns s = Inr t \<and> first_pass c pre t \<and> (ns \<noteq> [] \<longrightarrow> \<not> call_pass_startup (master t)) \<and> (ns = [] \<longrightarrow> t = s)"
proof (induction ns arbitrary: s)
  case (Cons n ns)
  from write_scanlines_first [OF Cons.prems, of pd n] obtain r u where u: "jpeg_write_scanlines pd n s = Inr (r, u)" "first_pass c pre u"
    "\<not> call_pass_startup (master u)" by metis
  with Cons.IH [OF u(2)] show ?case by (cases ns) auto
qed simp

text \<open>
  A coefficient controller that is suspended makes \<open>jpeg_finish_compress\<close> fail; as long as it is not, what
  it returns makes no difference.
\<close>

definition suspended_or :: "(compressor \<Rightarrow> bool) \<Rightarrow> fault + compressor \<Rightarrow> fault + compressor \<Rightarrow> bool" where
  "suspended_or cd r r' \<longleftrightarrow> r = r' \<or> r = Inl (ErrExit JERR_CANT_SUSPEND) \<and> (\<exists>s. \<not> cd s)"

lemma suspended_or_refl [simp]: "suspended_or cd m m"
  by (simp add: suspended_or_def)

lemma suspended_or_bind:
  "suspended_or cd m m' \<Longrightarrow> (\<And>s. suspended_or cd (f s) (f' s)) \<Longrightarrow> suspended_or cd (ebind m f) (ebind m' f')"
proof -
  assume m: "suspended_or cd m m'" and f: "\<And>s. suspended_or cd (f s) (f' s)"
  show ?thesis
  proof (cases "m = m'")
    case True
    then show ?thesis using f by (cases m') simp_all
  next
    case False
    then show ?thesis using m by (simp add: suspended_or_def)
  qed
qed

lemma iMCU_rows_suspended: "suspended_or cd (iMCU_rows cd n s) (iMCU_rows (\<lambda>_. True) n s)"
proof (induction n arbitrary: s)
  case (Suc n)
  then show ?case by (cases "cd s") (auto simp: Let_def suspended_or_def)
qed simp

lemma remaining_passes_suspended: "suspended_or cd (remaining_passes cd n s) (remaining_passes (\<lambda>_. True) n s)"
proof (induction n arbitrary: s)
  case 0
  then show ?case by (simp add: remaining_passes.simps [of _ 0])
next
  case (Suc n)
  show ?case
  proof (cases "is_last_pass (master s)")
    case True
    then show ?thesis by (simp add: remaining_passes.simps [of _ "Suc n"])
  next
    case False
    have "suspended_or cd (one_pass cd s) (one_pass (\<lambda>_. True) s)"
      unfolding one_pass_def by (intro suspended_or_bind iMCU_rows_suspended suspended_or_refl)
    then show ?thesis unfolding remaining_Suc [OF False] using Suc by (intro suspended_or_bind)
  qed
qed

lemma finish_suspended: "suspended_or cd (jpeg_finish_compress cd s) (jpeg_finish_compress (\<lambda>_. True) s)"
  unfolding jpeg_finish_compress_def by (intro suspended_or_bind remaining_passes_suspended suspended_or_refl)

text \<open>Without a script \<open>jpeg_start_compress\<close> itself refuses more than four components.\<close>

lemma start_component_count:
  assumes "jpeg_start_compress w s = Inr s1" "scan_info (cinfo s) = None"
  shows "num_components (cinfo s) \<le> 4"
proof -
  define s0 where "s0 = invoke [reset_error_mgr, init_destination]
     (if w then s\<lparr>cinfo := jpeg_suppress_tables False (cinfo s)\<rparr> else s)"
  have s0: "scan_info (cinfo s0) = None" "num_components (cinfo s0) = num_components (cinfo s)"
    using assms(2) by (simp_all add: s0_def jpeg_suppress_tables_def)
  from assms(1) obtain t u v where t: "jinit_c_master_control False s0 = Inr t" and u: "prepare_for_pass u = Inr v" "cinfo u = cinfo t" "master u = master t"
    by (auto simp: jpeg_start_compress_def jinit_compress_master_def result_simps Let_def s0_def split: if_splits)
  from t obtain c1 where c1: "initial_setup (cinfo s0) = Inr c1"
    and ct: "scan_info (cinfo t) = scan_info c1" "num_components (cinfo t) = num_components c1" "pass_type (master t) = main_pass"
    by (auto simp: jinit_c_master_control_def result_simps Let_def split: option.splits)
  note I = initial_setup_ok [OF c1]
  have n: "scan_info (cinfo u) = None" "num_components (cinfo u) = num_components (cinfo s)" "pass_type (master u) = main_pass"
    using ct I(5,6) s0 u(2,3) by simp_all
  obtain c where "select_scan_parameters (scan_number (master u)) (cinfo u) = Inr c"
    using u(1) n(3) by (auto simp: prepare_for_pass_def setup_scan_def result_simps)
  then show ?thesis using n(1,2) by (auto simp: select_scan_parameters_def MAX_COMPS_IN_SCAN_def split: if_splits)
qed

lemma first_pass_between:
  assumes v: "valid_job c" and f: "first_pass c pre s" and n: "\<not> call_pass_startup (master s)"
  shows "between c pre (if optimize_coding c then 0 else 1) (finish_pass_master s)"
  unfolding between_def using f n valid_scans_pos [OF v]
  by (auto simp: first_pass_def finish_pass_fields scan_headers_def wanted_passes_def same_job_def)

text \<open>
  C5. A whole compression fed with scanlines: once \<open>jpeg_start_compress\<close> has accepted the parameters, any sequence
  of \<open>jpeg_write_scanlines\<close> calls succeeds. If it has not brought all rows, \<open>jpeg_finish_compress\<close> fails with
  JERR_TOO_LITTLE_DATA; otherwise it ends in the start state and has written SOI, the frame header once, the
  scan header of every scan of the script once and in order, and the trailer, whether the scans are written
  in one pass, from the coefficient buffer, or twice each for Huffman optimisation, unless the coefficient
  controller was suspended, which is an error then. The loop over the passes never runs out. Interleaved
  scans must not exceed ten blocks per MCU (\<open>mcus_fit\<close>), which \<open>validate_script\<close> does not check: a later
  scan that does is only refused when its pass begins (\<open>late_refusal\<close>).
\<close>

theorem compress_session:
  assumes "jpeg_start_compress w s = Inr s1" "mem s" "arrays_ok (cinfo s)" "mcus_fit (cinfo s)" "\<not> raw_data_in (cinfo s1)"
  shows "\<exists>s2. write_all process_data ns s1 = Inr s2 \<and>
    (if next_scanline (cinfo s2) < image_height (cinfo s2)
     then jpeg_finish_compress compress_data s2 = Inl (ErrExit JERR_TOO_LITTLE_DATA)
     else jpeg_finish_compress compress_data s2 = Inl (ErrExit JERR_CANT_SUSPEND) \<and> (\<exists>s. \<not> compress_data s) \<or>
       (\<exists>s3. jpeg_finish_compress compress_data s2 = Inr s3 \<and> global_state (cinfo s3) = CSTATE_START \<and>
          headers s3 = headers s @ [write_file_header, write_frame_header] @
            map (header_at (cinfo s1)) [0..<nat (num_scans (cinfo s1))] @ [write_file_trailer]))"
proof -
  let ?pre = "headers s @ [write_file_header]" and ?c = "cinfo s1"
  from start_first_pass [OF assms(1,3,4,2) start_component_count [OF assms(1)] assms(5)] have v: "valid_job ?c" and f1: "first_pass ?c ?pre s1" by simp_all
  from write_all_first [OF f1, of process_data ns] obtain s2 where s2: "write_all process_data ns s1 = Inr s2" and f2: "first_pass ?c ?pre s2"
    and ns: "ns \<noteq> [] \<longrightarrow> \<not> call_pass_startup (master s2)" "ns = [] \<longrightarrow> s2 = s1" by blast
  have finish: "\<exists>s3. jpeg_finish_compress (\<lambda>_. True) s2 = Inr s3 \<and> global_state (cinfo s3) = CSTATE_START \<and>
      headers s3 = headers s @ [write_file_header, write_frame_header] @ map (header_at ?c) [0..<nat (num_scans ?c)] @ [write_file_trailer]"
    if done_: "\<not> next_scanline (cinfo s2) < image_height (cinfo s2)"
  proof -
    have "ns \<noteq> []"
    proof
      assume "ns = []"
      then have "s2 = s1" using ns(2) by blast
      moreover have "next_scanline (cinfo s1) = 0" using assms(1) by (auto simp: jpeg_start_compress_def result_simps Let_def)
      moreover have "image_height (cinfo s1) \<noteq> 0" using f1 by (simp add: first_pass_def)
      ultimately show False using done_ by (simp add: word_neq_0_conv)
    qed
    then have b: "between ?c ?pre (if optimize_coding ?c then 0 else 1) (finish_pass_master s2)" using first_pass_between [OF v f2] ns(1) by simp
    have "total_passes (master (finish_pass_master s2)) - pass_number (master (finish_pass_master s2))
        \<le> int (nat (total_passes (master (finish_pass_master s2))))" using f2 by (simp add: first_pass_def)
    from remaining_passes_ok [of "\<lambda>_. True", OF TrueI v b this] obtain t where
      t: "remaining_passes (\<lambda>_. True) (nat (total_passes (master (finish_pass_master s2)))) (finish_pass_master s2) = Inr t"
        "between ?c ?pre (nat (num_scans ?c)) t" "mem t" using f2 by (auto simp: first_pass_def)
    have "jpeg_finish_compress (\<lambda>_. True) s2 = Inr (jpeg_abort_compress (invoke [write_file_trailer, term_destination] t))"
      using t(1) f2 done_ by (simp add: jpeg_finish_compress_def first_pass_def)
    moreover have "headers t = ?pre @ scan_headers ?c (nat (num_scans ?c))" using t(2) by (simp add: between_def)
    ultimately show ?thesis using t(3) valid_scans_pos [OF v] by (simp add: jpeg_abort_compress_def scan_headers_def)
  qed
  show ?thesis
  proof (cases "next_scanline (cinfo s2) < image_height (cinfo s2)")
    case True
    then have "jpeg_finish_compress compress_data s2 = Inl (ErrExit JERR_TOO_LITTLE_DATA)"
      using f2 by (simp add: jpeg_finish_compress_def first_pass_def)
    then show ?thesis using s2 True by simp
  next
    case False
    then show ?thesis using s2 finish [OF False] finish_suspended [of compress_data s2] by (auto simp: suspended_or_def)
  qed
qed

text \<open>A grey 8 by 8 image, as a progressive file of two scans.\<close>

definition grey_comp :: jpeg_component_info where
  "grey_comp = \<lparr>component_id = 1, component_index = 0, h_samp_factor = 1, v_samp_factor = 1, quant_tbl_no = 0, dc_tbl_no = 0,
     ac_tbl_no = 0, width_in_blocks = 0, height_in_blocks = 0, DCT_scaled_size = 0, downsampled_width = 0,
     downsampled_height = 0, component_needed = False, MCU_width = 0, MCU_height = 0, MCU_blocks = 0,
     MCU_sample_width = 0, last_col_width = 0, last_row_height = 0, quant_table = None\<rparr>"

definition grey_scan :: "int \<Rightarrow> int \<Rightarrow> jpeg_scan_info" where
  "grey_scan ss se = \<lparr>scan_comps = 1, scan_component_index = [0, 0, 0, 0], scan_Ss = ss, scan_Se = se, scan_Ah = 0, scan_Al = 0\<rparr>"

definition grey_start :: compressor where
  "grey_start = \<lparr>mem = True, cinfo = zero_struct\<lparr>global_state := CSTATE_START, image_width := 8, image_height := 8,
       input_components := 1, in_color_space := JCS_GRAYSCALE, data_precision := 8, num_components := 1,
       jpeg_color_space := JCS_GRAYSCALE, comp_info := [grey_comp], num_scans := 2,
       scan_info := Some [grey_scan 0 0, grey_scan 1 63]\<rparr>,
     master = \<lparr>call_pass_startup = False, is_last_pass = False, pass_type = main_pass, pass_number = 0, total_passes = 0, scan_number = 0\<rparr>,
     calls = []\<rparr>"

definition grey_started :: compressor where
  "grey_started = projr (jpeg_start_compress True grey_start)"

definition grey_written :: compressor where
  "grey_written = projr (write_all (\<lambda>s n. n) [5, 9] grey_started)"

theorem compress_session_witness:
  "\<exists>s3. write_all (\<lambda>s n. n) [5, 9] grey_started = Inr grey_written \<and> jpeg_finish_compress (\<lambda>s. True) grey_written = Inr s3 \<and>
     global_state (cinfo s3) = CSTATE_START \<and>
     headers s3 = [write_file_header, write_frame_header, write_scan_header [0] 0 0 0 0, write_scan_header [0] 1 63 0 0, write_file_trailer]"
proof -
  have "\<not> isl (jpeg_start_compress True grey_start)" by code_simp
  then have s: "jpeg_start_compress True grey_start = Inr grey_started" by (simp add: grey_started_def)
  have "\<not> isl (write_all (\<lambda>s n. n) [5, 9] grey_started)" by code_simp
  then have w: "write_all (\<lambda>s n. n) [5, 9] grey_started = Inr grey_written" by (simp add: grey_written_def)
  have "\<not> next_scanline (cinfo grey_written) < image_height (cinfo grey_written)" by code_simp
  moreover have "\<not> raw_data_in (cinfo grey_started)" by code_simp
  moreover have "mcus_fit (cinfo grey_start)" by code_simp
  moreover have "arrays_ok (cinfo grey_start)" by (simp add: arrays_ok_def grey_start_def zero_struct_def grey_scan_def)
  moreover have "mem grey_start" "headers grey_start = []" by (simp_all add: grey_start_def headers_def)
  moreover have "map (header_at (cinfo grey_started)) [0..<nat (num_scans (cinfo grey_started))] =
    [write_scan_header [0] 0 0 0 0, write_scan_header [0] 1 63 0 0]" by code_simp
  ultimately show ?thesis
    using compress_session [OF s, of "\<lambda>s n. n" "[5, 9]" "\<lambda>s. True"] w by simp
qed

text \<open>
  Three components sampled 2 by 2, the first in a scan of its own, the others together with twelve blocks in
  an MCU in three: the script is accepted, the rows are taken, and the second scan is refused at the end.
\<close>

definition wide_scan :: "int list \<Rightarrow> jpeg_scan_info" where
  "wide_scan cs = \<lparr>scan_comps = int (length cs), scan_component_index = take 4 (cs @ [0, 0, 0, 0]), scan_Ss = 0, scan_Se = 63, scan_Ah = 0, scan_Al = 0\<rparr>"

definition wide_start :: compressor where
  "wide_start = grey_start\<lparr>cinfo := (cinfo grey_start)\<lparr>input_components := 4, num_components := 4,
     comp_info := map (\<lambda>i. grey_comp\<lparr>component_id := i, h_samp_factor := 2, v_samp_factor := 2\<rparr>) [1, 2, 3, 4],
     scan_info := Some [wide_scan [0], wide_scan [1, 2, 3]]\<rparr>\<rparr>"

lemma late_refusal:
  "\<exists>s1 s2. jpeg_start_compress True wide_start = Inr s1 \<and> write_all (\<lambda>s n. n) [8] s1 = Inr s2 \<and>
     jpeg_finish_compress (\<lambda>s. True) s2 = Inl (ErrExit JERR_BAD_MCU_SIZE)"
proof -
  let ?s1 = "projr (jpeg_start_compress True wide_start)"
  let ?s2 = "projr (write_all (\<lambda>s n. n) [8] ?s1)"
  have "\<not> isl (jpeg_start_compress True wide_start)" "\<not> isl (write_all (\<lambda>s n. n) [8] ?s1)" by code_simp+
  moreover have "jpeg_finish_compress (\<lambda>s. True) ?s2 = Inl (ErrExit JERR_BAD_MCU_SIZE)" by code_simp
  ultimately show ?thesis by (intro exI [of _ ?s1] exI [of _ ?s2]) simp
qed

end
