(* ===== verification/Jcgeometry.thy ===== *)
theory Jcgeometry imports Jcpasses begin

text \<open>
  The sizes \<open>initial_setup\<close> and \<open>per_scan_setup\<close> compute: blocks cover the samples, MCUs cover the
  blocks, and the last MCU of a row or column holds exactly the blocks that are left.
\<close>

section \<open>Sizes\<close>

text \<open>\<open>jdiv_round_up\<close> is the ceiling of the quotient.\<close>

definition ceil_div :: "int \<Rightarrow> int \<Rightarrow> int" where
  "ceil_div a b = (a + b - 1) div b"

lemma ceil_div_iff: "0 \<le> a \<Longrightarrow> 0 < b \<Longrightarrow> ceil_div a b \<le> q \<longleftrightarrow> a \<le> q * b"
  using jdiv_round_up_iff [of a b q] by (simp add: ceil_div_def jdiv_round_up_pos)

lemma ceil_div_bounds:
  assumes "0 < a" "0 < b"
  shows "0 < ceil_div a b" "ceil_div a b \<le> a" "a \<le> ceil_div a b * b" "(ceil_div a b - 1) * b < a"
proof -
  show "0 < ceil_div a b" using ceil_div_iff [of a b 0] assms by simp
  have "a \<le> a * b" using assms by (simp add: mult_le_cancel_left1)
  then show "ceil_div a b \<le> a" using ceil_div_iff [of a b a] assms by simp
  show "a \<le> ceil_div a b * b" using ceil_div_iff [of a b "ceil_div a b"] assms by simp
  show "(ceil_div a b - 1) * b < a" using ceil_div_iff [of a b "ceil_div a b - 1"] assms by simp
qed

text \<open>Rounding up twice is rounding up once.\<close>

lemma ceil_div_ceil_div:
  assumes "0 < a" "0 < b" "0 < c"
  shows "ceil_div (ceil_div a b) c = ceil_div a (b * c)"
proof -
  have p: "0 < ceil_div a b" using ceil_div_bounds(1) assms by simp
  have "ceil_div (ceil_div a b) c \<le> q \<longleftrightarrow> ceil_div a (b * c) \<le> q" for q
    using ceil_div_iff [of "ceil_div a b" c q] ceil_div_iff [of a b "q * c"] ceil_div_iff [of a "b * c" q] assms p
    by (simp add: mult.assoc mult.commute [of b c])
  then show ?thesis by (meson order_antisym order_refl)
qed

text \<open>
  The blocks of a component with \<open>s\<close> of \<open>H\<close> samples per pixel group: the MCUs of \<open>s\<close> blocks cover
  them, and the last MCU has the remainder.
\<close>

lemma mcu_cover:
  assumes "0 < w" "0 < s" "0 < M"
  shows "(ceil_div w M - 1) * s < ceil_div (w * s) M" "ceil_div (w * s) M \<le> ceil_div w M * s"
proof -
  have ws: "0 < w * s" using assms by simp
  note W = ceil_div_bounds [OF assms(1,3)]
  show "ceil_div (w * s) M \<le> ceil_div w M * s"
  proof -
    have "w * s \<le> ceil_div w M * M * s" using W(3) assms(2) by (intro mult_right_mono) simp_all
    then show ?thesis using ceil_div_iff [of "w * s" M "ceil_div w M * s"] ws assms(3) by (simp add: ac_simps)
  qed
  show "(ceil_div w M - 1) * s < ceil_div (w * s) M"
  proof -
    have "(ceil_div w M - 1) * M * s < w * s" using W(4) assms(2) by (intro mult_strict_right_mono) simp_all
    then have "\<not> w * s \<le> (ceil_div w M - 1) * s * M" by (simp add: ac_simps)
    then show ?thesis using ceil_div_iff [of "w * s" M "(ceil_div w M - 1) * s"] ws assms(3) by simp
  qed
qed

lemma last_group_eq:
  assumes "(q - 1) * m < uint x" "uint x \<le> q * m" "1 \<le> m" "m \<le> 4"
  shows "(q - 1) * m + last_group x m = uint x"
proof -
  have "uint (x mod word_of_int m) = uint x mod m"
    using assms(3,4) by (simp add: uint_mod uint_word_of_int)
  moreover have "uint x mod m < m" "0 \<le> uint x mod m" using assms(3) by simp_all
  ultimately have "sint (x mod word_of_int m) = uint x mod m"
    unfolding sint_uint using assms(4) by (simp, intro signed_take_bit_int_eq_self) (simp_all, linarith?)
  then have lg: "last_group x m = (if uint x mod m = 0 then m else uint x mod m)" by (simp add: last_group_def)
  define r where "r = uint x - (q - 1) * m"
  have r: "0 < r" "r \<le> m" using assms(1,2) by (simp_all add: r_def algebra_simps)
  have "uint x mod m = r mod m" unfolding r_def by (simp add: mod_diff_eq [symmetric, of "uint x"] )
  also have "r mod m = (if r = m then 0 else r)" using r by (simp add: mod_pos_pos_trivial)
  finally show ?thesis using r lg by (auto simp: r_def)
qed

text \<open>What \<open>initial_setup\<close> computes, for the sizes it is meant to accept.\<close>

definition sane_size :: "jpeg_compress_struct \<Rightarrow> bool" where
  "sane_size c \<longleftrightarrow> uint (image_width c) \<le> 65500 \<and> uint (image_height c) \<le> 65500"

lemma sint_small: "uint (x :: u32) \<le> 65500 \<Longrightarrow> sint x = uint x"
proof -
  assume "uint x \<le> 65500"
  moreover have "- (2 ^ 31) \<le> uint x" by (rule order_trans [OF _ uint_ge_0]) simp
  ultimately show ?thesis unfolding sint_uint by (intro signed_take_bit_int_eq_self) simp_all
qed

lemma blocks_across_eq:
  assumes "0 < uint d" "uint d \<le> 65500" "1 \<le> s" "s \<le> 4" "1 \<le> m"
  shows "uint (blocks_across d s m) = ceil_div (uint d * s) (m * 8)" "uint (samples_across d s m) = ceil_div (uint d * s) m"
proof -
  have p: "0 < uint d * s" "uint d * s \<le> 65500 * 4"
    using assms mult_mono [of "uint d" 65500 s 4] by simp_all
  have "as_long (sint d * s) = uint d * s" using p assms(2) by (simp add: sint_small as_long_small)
  moreover have "jdiv_round_up (uint d * s) k = ceil_div (uint d * s) k" if "0 < k" for k
    using p that by (simp add: jdiv_round_up_pos ceil_div_def)
  moreover have "ceil_div (uint d * s) k mod 4294967296 = ceil_div (uint d * s) k" if "0 < k" for k
    using ceil_div_bounds(1,2) [OF p(1) that] p(2) by (intro mod_pos_pos_trivial) linarith+
  ultimately show "uint (blocks_across d s m) = ceil_div (uint d * s) (m * 8)" "uint (samples_across d s m) = ceil_div (uint d * s) m"
    using assms(5) by (simp_all add: blocks_across_def samples_across_def DCTSIZE_def uint_word_of_int)
qed

lemma check_sampling_max:
  "check_sampling cs (a, b) = Inr (mh, mv) \<Longrightarrow> a \<le> mh \<and> b \<le> mv \<and> (a \<le> 4 \<longrightarrow> mh \<le> 4) \<and> (b \<le> 4 \<longrightarrow> mv \<le> 4) \<and>
     (\<forall>x \<in> set cs. h_samp_factor x \<le> mh \<and> v_samp_factor x \<le> mv)"
  by (induction cs "(a, b)" arbitrary: a b rule: check_sampling.induct) (auto simp: MAX_SAMP_FACTOR_def split: if_splits)

lemma initial_setup_sizes:
  assumes i: "initial_setup c = Inr c'" and z: "sane_size c"
  defines "W \<equiv> uint (image_width c)" and "H \<equiv> uint (image_height c)"
  shows "image_width c' = image_width c" "image_height c' = image_height c" "0 < W" "0 < H"
    "1 \<le> max_h_samp_factor c'" "max_h_samp_factor c' \<le> 4" "1 \<le> max_v_samp_factor c'" "max_v_samp_factor c' \<le> 4"
    "uint (total_iMCU_rows c') = ceil_div H (max_v_samp_factor c' * 8)"
    "k < nat (num_components c') \<Longrightarrow> x = comp_info c' ! k \<Longrightarrow>
       component_index x = int k \<and> 1 \<le> h_samp_factor x \<and> h_samp_factor x \<le> max_h_samp_factor c' \<and>
       1 \<le> v_samp_factor x \<and> v_samp_factor x \<le> max_v_samp_factor c' \<and>
       uint (width_in_blocks x) = ceil_div (W * h_samp_factor x) (max_h_samp_factor c' * 8) \<and>
       uint (height_in_blocks x) = ceil_div (H * v_samp_factor x) (max_v_samp_factor c' * 8) \<and>
       uint (downsampled_width x) = ceil_div (W * h_samp_factor x) (max_h_samp_factor c') \<and>
       uint (downsampled_height x) = ceil_div (H * v_samp_factor x) (max_v_samp_factor c')"
proof -
  let ?n = "nat (num_components c)" and ?comps = "take (nat (num_components c)) (comp_info c)"
  from i obtain mh mv where a: "image_height c \<noteq> 0" "image_width c \<noteq> 0" "num_components c \<le> int (length (comp_info c))"
    "check_sampling ?comps (1, 1) = Inr (mh, mv)"
    and c': "c' = c\<lparr>max_h_samp_factor := mh, max_v_samp_factor := mv,
        comp_info := map (\<lambda>ci. setup_component (c\<lparr>max_h_samp_factor := mh, max_v_samp_factor := mv\<rparr>) ci (?comps ! ci)) [0..<?n] @ drop ?n (comp_info c),
        total_iMCU_rows := word_of_int (jdiv_round_up (sint (image_height c)) (mv * DCTSIZE))\<rparr>"
    by (auto simp: initial_setup_def Let_def MAX_COMPONENTS_def not_le not_less split: if_splits sum.splits prod.splits)
  show "image_width c' = image_width c" "image_height c' = image_height c" by (simp_all add: c')
  have W: "0 < W" "W \<le> 65500" and H: "0 < H" "H \<le> 65500"
    using a(1,2) z uint_ge_0 [of "image_width c"] uint_ge_0 [of "image_height c"]
    by (simp_all add: W_def H_def sane_size_def uint_0_iff less_le flip: uint_0_iff)
  show "0 < W" "0 < H" by fact+
  note mx = check_sampling_max [OF a(4)]
  show m: "1 \<le> max_h_samp_factor c'" "max_h_samp_factor c' \<le> 4" "1 \<le> max_v_samp_factor c'" "max_v_samp_factor c' \<le> 4"
    using mx by (simp_all add: c')
  have "blocks_across (image_height c) 1 mv = total_iMCU_rows c'"
    using H as_long_small [of H] by (simp add: c' blocks_across_def H_def sint_small)
  then show "uint (total_iMCU_rows c') = ceil_div H (max_v_samp_factor c' * 8)"
    using blocks_across_eq(1) [of "image_height c" 1 mv] H m by (simp add: c' H_def)
  assume k: "k < nat (num_components c')" and x: "x = comp_info c' ! k"
  then have kn: "k < ?n" "k < length (comp_info c)" using a(3) by (simp_all add: c')
  let ?y = "comp_info c ! k"
  have x: "x = setup_component (c\<lparr>max_h_samp_factor := mh, max_v_samp_factor := mv\<rparr>) k ?y"
    using kn by (simp add: x c' nth_append)
  have "?y \<in> set ?comps" using kn by (auto simp: in_set_conv_nth intro!: exI [of _ k])
  with check_sampling_ok [OF a(4)] mx have y: "1 \<le> h_samp_factor ?y" "h_samp_factor ?y \<le> 4" "h_samp_factor ?y \<le> mh"
    "1 \<le> v_samp_factor ?y" "v_samp_factor ?y \<le> 4" "v_samp_factor ?y \<le> mv" by auto
  show "component_index x = int k \<and> 1 \<le> h_samp_factor x \<and> h_samp_factor x \<le> max_h_samp_factor c' \<and>
       1 \<le> v_samp_factor x \<and> v_samp_factor x \<le> max_v_samp_factor c' \<and>
       uint (width_in_blocks x) = ceil_div (W * h_samp_factor x) (max_h_samp_factor c' * 8) \<and>
       uint (height_in_blocks x) = ceil_div (H * v_samp_factor x) (max_v_samp_factor c' * 8) \<and>
       uint (downsampled_width x) = ceil_div (W * h_samp_factor x) (max_h_samp_factor c') \<and>
       uint (downsampled_height x) = ceil_div (H * v_samp_factor x) (max_v_samp_factor c')"
    using blocks_across_eq [of "image_width c" "h_samp_factor ?y" mh] blocks_across_eq [of "image_height c" "v_samp_factor ?y" mv]
      y W H m by (simp add: x setup_component_def W_def H_def c')
qed

section \<open>An interleaved scan\<close>

lemma interleaved_twice [simp]: "interleaved_component (interleaved_component c) = interleaved_component c"
  by (simp add: interleaved_component_def)

lemma add_membership_eq:
  "0 \<le> b \<Longrightarrow> nat b + n \<le> length mm \<Longrightarrow>
   add_membership n ci (b, mm) = (b + int n, take (nat b) mm @ replicate n ci @ drop (nat b + n) mm)"
proof (induction n arbitrary: b mm)
  case (Suc n)
  have nb: "nat (b + 1) = Suc (nat b)" using Suc.prems(1) by simp
  have "add_membership n ci (b + 1, mm[nat b := ci]) =
    (b + 1 + int n, take (nat (b + 1)) (mm[nat b := ci]) @ replicate n ci @ drop (nat (b + 1) + n) (mm[nat b := ci]))"
    using Suc.prems by (intro Suc.IH) (simp_all add: nb)
  moreover have "take (Suc (nat b)) (mm[nat b := ci]) = take (nat b) mm @ [ci]"
    using Suc.prems(2) by (simp add: take_Suc_conv_app_nth)
  ultimately show ?case by (simp add: nb)
qed simp

text \<open>The block numbers of an MCU: \<open>h * v\<close> blocks of each component of the scan.\<close>

definition membership_of :: "int \<Rightarrow> (int \<times> int) list \<Rightarrow> nat list \<Rightarrow> int list" where
  "membership_of ci ss is = concat (map (\<lambda>(j, i). replicate (nat (fst (ss ! i) * snd (ss ! i))) (ci + int j)) (zip [0..<length is] is))"

lemma membership_of_Cons:
  "membership_of ci ss (i # is) = replicate (nat (fst (ss ! i) * snd (ss ! i))) ci @ membership_of (ci + 1) ss is"
proof -
  have "zip [0..<length (i # is)] (i # is) = (0, i) # map (\<lambda>(j, i). (Suc j, i)) (zip [0..<length is] is)"
    by (simp add: upt_conv_Cons map_Suc_upt [symmetric] zip_map1 del: upt_Suc)
  then show ?thesis by (simp add: membership_of_def comp_def case_prod_beta' algebra_simps)
qed

lemma membership_of_range: "x \<in> set (membership_of ci ss is) \<Longrightarrow> ci \<le> x \<and> x < ci + int (length is)"
  by (auto simp: membership_of_def dest!: set_zip_leftD split: prod.splits)

lemma interleave_result:
  "interleave ci is (comps, b, mm) = Inr (comps', b', mm') \<Longrightarrow> 0 \<le> b \<Longrightarrow> length mm = 10 \<Longrightarrow>
   \<forall>i \<in> set is. sampled (map samp comps) i \<Longrightarrow>
   b' = b + int (length (membership_of ci (map samp comps) is)) \<and> (b \<le> 10 \<longrightarrow> b' \<le> 10) \<and> length mm' = 10 \<and> length comps' = length comps \<and>
   take (nat b') mm' = take (nat b) mm @ membership_of ci (map samp comps) is \<and>
   (\<forall>j < length comps. comps' ! j = (if j \<in> set is then interleaved_component (comps ! j) else comps ! j))"
proof (induction "is" arbitrary: ci comps b mm)
  case Nil
  then show ?case by (simp add: membership_of_def)
next
  case (Cons i "is")
  let ?c = "interleaved_component (comps ! i)" and ?ss = "map samp comps"
  have i: "i < length comps" and p: "1 \<le> h_samp_factor (comps ! i)" "1 \<le> v_samp_factor (comps ! i)"
    using Cons.prems(4) by (auto simp: sampled_def samp_def)
  have bl: "MCU_blocks ?c = fst (?ss ! i) * snd (?ss ! i)" using i by (simp add: interleaved_component_def samp_def)
  have "0 < h_samp_factor (comps ! i) * v_samp_factor (comps ! i)" using p by (intro mult_pos_pos) simp_all
  then have p1: "0 < MCU_blocks ?c" by (simp add: interleaved_component_def)
  define n where "n = nat (MCU_blocks ?c)"
  have fit: "b + MCU_blocks ?c \<le> 10" using Cons.prems(1) by (simp add: Let_def C_MAX_BLOCKS_IN_MCU_def split: if_splits)
  then have n: "nat b + n \<le> length mm" using Cons.prems(2,3) p1 by (simp add: n_def)
  let ?mm = "take (nat b) mm @ replicate n ci @ drop (nat b + n) mm"
  have am: "add_membership n ci (b, mm) = (b + int n, ?mm)" by (rule add_membership_eq [OF Cons.prems(2) n])
  have m: "map samp (comps[i := ?c]) = ?ss" by simp
  have r: "interleave (ci + 1) is (comps[i := ?c], b + int n, ?mm) = Inr (comps', b', mm')"
    using Cons.prems(1) fit am by (simp add: Let_def C_MAX_BLOCKS_IN_MCU_def n_def)
  have pr: "0 \<le> b + int n" "length ?mm = 10" "\<forall>j \<in> set is. sampled (map samp (comps[i := ?c])) j"
    using Cons.prems(2-4) n unfolding m by auto
  note I = Cons.IH [OF r pr, unfolded m]
  have mc: "membership_of ci ?ss (i # is) = replicate n ci @ membership_of (ci + 1) ?ss is" by (simp add: membership_of_Cons n_def bl)
  have "take (nat (b + int n)) ?mm = take (nat b) mm @ replicate n ci" using n Cons.prems(2) by (simp add: nat_add_distrib)
  moreover have "comps' ! j = (if j \<in> set (i # is) then interleaved_component (comps ! j) else comps ! j)" if "j < length comps" for j
    using I that by (cases "j = i") auto
  moreover have "b + int n \<le> 10" using fit p1 by (simp add: n_def)
  ultimately show ?case unfolding mc using I by auto
qed

lemma jinit_setup:
  assumes j: "jinit_c_master_control False s = Inr t" and a: "arrays_ok (cinfo s)" and k: "k < nat (num_scans (cinfo t))"
  obtains c1 where "initial_setup (cinfo s) = Inr c1" "comp_info (cinfo t) = comp_info c1" "image_width (cinfo t) = image_width c1"
    "image_height (cinfo t) = image_height c1" "max_h_samp_factor (cinfo t) = max_h_samp_factor c1" "max_v_samp_factor (cinfo t) = max_v_samp_factor c1"
    "MCU_membership (cinfo t) = MCU_membership c1" "total_iMCU_rows (cinfo t) = total_iMCU_rows c1" "cur_comp_info (cinfo t) = cur_comp_info c1"
    "case scan_info (cinfo t) of None \<Rightarrow> num_components (cinfo t) = num_components c1
     | Some scans \<Rightarrow> k < length scans \<and> 1 \<le> scan_comps (scans ! k) \<and> int (length (scan_indexes (scans ! k))) = scan_comps (scans ! k) \<and>
         (\<forall>i \<in> set (scan_indexes (scans ! k)). 0 \<le> i \<and> i < num_components c1)"
proof -
  from j obtain c1 c2 where c1: "initial_setup (cinfo s) = Inr c1"
    and c2: "(case scan_info c1 of
              Some scans \<Rightarrow> ebind (validate_script c1 scans) (\<lambda>p. Inr (c1\<lparr>progressive_mode := p\<rparr>))
            | None \<Rightarrow> Inr (c1\<lparr>progressive_mode := False, num_scans := 1\<rparr>)) = Inr c2"
    and t: "cinfo t = (if progressive_mode c2 \<and> \<not> arith_code c2 then c2\<lparr>optimize_coding := True\<rparr> else c2)"
    by (auto simp: jinit_c_master_control_def result_simps Let_def)
  have "case scan_info (cinfo t) of None \<Rightarrow> num_components (cinfo t) = num_components c1
     | Some scans \<Rightarrow> k < length scans \<and> 1 \<le> scan_comps (scans ! k) \<and> int (length (scan_indexes (scans ! k))) = scan_comps (scans ! k) \<and>
         (\<forall>i \<in> set (scan_indexes (scans ! k)). 0 \<le> i \<and> i < num_components c1)"
  proof (cases "scan_info c1")
    case None
    then show ?thesis using c2 t by (auto simp: result_simps)
  next
    case (Some scans)
    then obtain p where v: "validate_script c1 scans = Inr p" and p: "c2 = c1\<lparr>progressive_mode := p\<rparr>" using c2 by (auto simp: result_simps)
    note V = validate_script_ok [OF v]
    have kn: "k < nat (num_scans c1)" using k p t by (simp split: if_splits)
    then have kl: "k < length scans" using V(2) by linarith
    moreover have "length (scan_component_index (scans ! k)) = 4"
      using a Some kl initial_setup_ok(6) [OF c1] by (simp add: arrays_ok_def)
    then have "int (length (scan_indexes (scans ! k))) = scan_comps (scans ! k)"
      using V(3) [OF kn] by (simp add: scan_indexes_def) linarith
    ultimately show ?thesis using V(3) [OF kn] Some p t by (simp split: if_splits)
  qed
  moreover have "comp_info (cinfo t) = comp_info c1" "image_width (cinfo t) = image_width c1"
    "image_height (cinfo t) = image_height c1" "max_h_samp_factor (cinfo t) = max_h_samp_factor c1" "max_v_samp_factor (cinfo t) = max_v_samp_factor c1"
    "MCU_membership (cinfo t) = MCU_membership c1" "total_iMCU_rows (cinfo t) = total_iMCU_rows c1" "cur_comp_info (cinfo t) = cur_comp_info c1"
    using c2 t by (auto simp: result_simps split: option.splits)
  ultimately show ?thesis using that [OF c1] by blast
qed

text \<open>The components of the scan that is set up.\<close>

definition scan_comps_of :: "jpeg_compress_struct \<Rightarrow> nat list" where
  "scan_comps_of c = take (nat (comps_in_scan c)) (cur_comp_info c)"

lemma select_result:
  assumes sel: "select_scan_parameters (int k) c = Inr c'" and l: "length (cur_comp_info c) = 4"
    and sc: "case scan_info c of None \<Rightarrow> num_components c = n
     | Some scans \<Rightarrow> k < length scans \<and> 1 \<le> scan_comps (scans ! k) \<and> int (length (scan_indexes (scans ! k))) = scan_comps (scans ! k) \<and>
         (\<forall>i \<in> set (scan_indexes (scans ! k)). 0 \<le> i \<and> i < n)" and n: "0 < n"
  shows "comp_info c' = comp_info c" "image_width c' = image_width c" "image_height c' = image_height c"
    "max_h_samp_factor c' = max_h_samp_factor c" "max_v_samp_factor c' = max_v_samp_factor c" "MCU_membership c' = MCU_membership c"
    "total_iMCU_rows c' = total_iMCU_rows c" "comps_in_scan c' = int (length (scan_comps_of c'))" "scan_comps_of c' \<noteq> []"
    "\<forall>i \<in> set (scan_comps_of c'). i < nat n"
proof -
  have "comp_info c' = comp_info c \<and> image_width c' = image_width c \<and> image_height c' = image_height c \<and>
    max_h_samp_factor c' = max_h_samp_factor c \<and> max_v_samp_factor c' = max_v_samp_factor c \<and> MCU_membership c' = MCU_membership c \<and>
    total_iMCU_rows c' = total_iMCU_rows c \<and> comps_in_scan c' = int (length (scan_comps_of c')) \<and> scan_comps_of c' \<noteq> [] \<and>
    (\<forall>i \<in> set (scan_comps_of c'). i < nat n)"
  proof (cases "scan_info c")
    case None
    then have "n \<le> 4" "num_components c = n" using sel sc by (auto simp: select_scan_parameters_def MAX_COMPS_IN_SCAN_def split: if_splits)
    then show ?thesis using None sel l n by (auto simp: select_scan_parameters_def MAX_COMPS_IN_SCAN_def scan_comps_of_def Let_def)
  next
    case (Some scans)
    let ?s = "scans ! k"
    have c': "c' = c\<lparr>comps_in_scan := scan_comps ?s,
                    cur_comp_info := map nat (scan_indexes ?s) @ drop (length (scan_indexes ?s)) (cur_comp_info c),
                    Ss := scan_Ss ?s, Se := scan_Se ?s, Ah := scan_Ah ?s, Al := scan_Al ?s\<rparr>"
      using sel Some by (auto simp: select_scan_parameters_def Let_def split: if_splits)
    have "int (length (scan_indexes ?s)) = scan_comps ?s" using sc Some by simp
    then have sn: "nat (scan_comps ?s) = length (scan_indexes ?s)" "scan_comps ?s = int (length (scan_indexes ?s))" by linarith+
    have "scan_comps_of c' = map nat (scan_indexes ?s)" by (simp add: scan_comps_of_def c' sn(1))
    then show ?thesis using sc Some n sn by (auto simp: c')
  qed
  then show "comp_info c' = comp_info c" "image_width c' = image_width c" "image_height c' = image_height c"
    "max_h_samp_factor c' = max_h_samp_factor c" "max_v_samp_factor c' = max_v_samp_factor c" "MCU_membership c' = MCU_membership c"
    "total_iMCU_rows c' = total_iMCU_rows c" "comps_in_scan c' = int (length (scan_comps_of c'))" "scan_comps_of c' \<noteq> []"
    "\<forall>i \<in> set (scan_comps_of c'). i < nat n" by simp_all
qed

text \<open>The geometry of one component: all its blocks are in the MCUs, and the last ones are counted.\<close>

definition covered :: "jpeg_compress_struct \<Rightarrow> nat \<Rightarrow> bool" where
  "covered c i \<longleftrightarrow> (let x = comp_info c ! i in
     (uint (MCUs_per_row c) - 1) * MCU_width x + last_col_width x = uint (width_in_blocks x) \<and>
     1 \<le> last_col_width x \<and> last_col_width x \<le> MCU_width x \<and>
     1 \<le> last_row_height x \<and> (uint (total_iMCU_rows c) - 1) * v_samp_factor x + last_row_height x = uint (height_in_blocks x) \<and>
     (1 < comps_in_scan c \<longrightarrow> MCU_rows_in_scan c = total_iMCU_rows c \<and> MCU_height x = v_samp_factor x) \<and>
     (comps_in_scan c = 1 \<longrightarrow> MCU_rows_in_scan c = height_in_blocks x) \<and>
     MCU_blocks x = MCU_width x * MCU_height x)"


text \<open>
  The samples of a component of the scan: a row of the image has as many as the sampling factors give, rounded
  up, and so has a column; the blocks hold them all, and no row or column of blocks is without samples.
\<close>

definition holds_samples :: "u32 \<Rightarrow> int \<Rightarrow> int \<Rightarrow> u32 \<Rightarrow> u32 \<Rightarrow> bool" where
  "holds_samples dim factor max_samp samples blocks \<longleftrightarrow>
     uint dim * factor \<le> uint samples * max_samp \<and> (uint samples - 1) * max_samp < uint dim * factor \<and>
     uint samples \<le> uint blocks * 8 \<and> (uint blocks - 1) * 8 < uint samples"

definition samples_covered :: "jpeg_compress_struct \<Rightarrow> nat \<Rightarrow> bool" where
  "samples_covered c i \<longleftrightarrow> (let x = comp_info c ! i in
     holds_samples (image_width c) (h_samp_factor x) (max_h_samp_factor c) (downsampled_width x) (width_in_blocks x) \<and>
     holds_samples (image_height c) (v_samp_factor x) (max_v_samp_factor c) (downsampled_height x) (height_in_blocks x))"

lemma holds_samplesI:
  assumes "0 < uint dim" "1 \<le> factor" "1 \<le> max_samp"
    and "uint samples = ceil_div (uint dim * factor) max_samp" "uint blocks = ceil_div (uint dim * factor) (max_samp * 8)"
  shows "holds_samples dim factor max_samp samples blocks"
proof -
  have p: "0 < uint dim * factor" "0 < max_samp" using assms(1-3) by (simp_all add: zero_less_mult_iff)
  have "uint blocks = ceil_div (uint samples) 8" using ceil_div_ceil_div [OF p(1,2), of 8] assms(4,5) by simp
  moreover have "0 < uint samples" using ceil_div_bounds(1) [OF p] assms(4) by simp
  ultimately show ?thesis
    using ceil_div_bounds(3,4) [OF p] ceil_div_bounds(3,4) [of "uint samples" 8] assms(4) by (simp add: holds_samples_def)
qed

lemma noninterleaved_covered:
  assumes "comps_in_scan c = 1" "per_scan_setup c = Inr c'" "cur_comp_info c ! 0 < length (comp_info c)"
    and v: "1 \<le> v_samp_factor (comp_info c ! (cur_comp_info c ! 0))" "v_samp_factor (comp_info c ! (cur_comp_info c ! 0)) \<le> 4"
    and h: "(uint (total_iMCU_rows c) - 1) * v_samp_factor (comp_info c ! (cur_comp_info c ! 0)) < uint (height_in_blocks (comp_info c ! (cur_comp_info c ! 0)))"
      "uint (height_in_blocks (comp_info c ! (cur_comp_info c ! 0))) \<le> uint (total_iMCU_rows c) * v_samp_factor (comp_info c ! (cur_comp_info c ! 0))"
  shows "covered c' (cur_comp_info c ! 0)"
proof -
  let ?i = "cur_comp_info c ! 0"
  have c': "c' = set_restart (c\<lparr>MCUs_per_row := width_in_blocks (comp_info c ! ?i), MCU_rows_in_scan := height_in_blocks (comp_info c ! ?i),
                  comp_info := (comp_info c)[?i := noninterleaved_component (comp_info c ! ?i)],
                  blocks_in_MCU := 1, MCU_membership := (MCU_membership c)[0 := 0]\<rparr>)"
    using assms(1,2) by (simp add: per_scan_setup_def Let_def)
  note L = last_group_eq [OF h v]
  have "1 \<le> last_group (height_in_blocks (comp_info c ! ?i)) (v_samp_factor (comp_info c ! ?i))" using L h(1) by linarith
  with L assms(1,3) show ?thesis
    by (simp add: covered_def c' set_restart_def Let_def noninterleaved_component_def)
qed

lemma sint_height_ceil:
  assumes "uint (d :: u32) \<le> 65500" "0 < uint d" "1 \<le> m" "m \<le> 4"
  shows "uint (word_of_int (jdiv_round_up (sint d) (m * DCTSIZE)) :: u32) = ceil_div (uint d) (m * 8)"
proof -
  have b: "0 < ceil_div (uint d) (m * 8)" "ceil_div (uint d) (m * 8) \<le> uint d"
    using ceil_div_bounds(1,2) [of "uint d" "m * 8"] assms by simp_all
  have "jdiv_round_up (sint d) (m * DCTSIZE) = ceil_div (uint d) (m * 8)"
    using assms by (simp add: sint_small jdiv_round_up_pos ceil_div_def DCTSIZE_def)
  then show ?thesis using b assms(1) by (simp add: uint_word_of_int mod_pos_pos_trivial)
qed

lemma initial_setup_membership: "initial_setup c = Inr c' \<Longrightarrow> MCU_membership c' = MCU_membership c"
  by (auto simp: initial_setup_def Let_def split: if_splits sum.splits prod.splits)

text \<open>
  What the parameter checks and \<open>select_scan_parameters\<close> leave for \<open>per_scan_setup\<close>: the sizes of the
  image and of the components of the scan.
\<close>

definition scan_ready :: "jpeg_compress_struct \<Rightarrow> bool" where
  "scan_ready c \<longleftrightarrow> (let W = uint (image_width c); H = uint (image_height c); mh = max_h_samp_factor c; mv = max_v_samp_factor c in
     0 < W \<and> W \<le> 65500 \<and> 0 < H \<and> H \<le> 65500 \<and> 1 \<le> mh \<and> mh \<le> 4 \<and> 1 \<le> mv \<and> mv \<le> 4 \<and>
     uint (total_iMCU_rows c) = ceil_div H (mv * 8) \<and> length (MCU_membership c) = 10 \<and>
     comps_in_scan c = int (length (scan_comps_of c)) \<and> scan_comps_of c \<noteq> [] \<and>
     (\<forall>i \<in> set (scan_comps_of c). sampled (map samp (comp_info c)) i \<and>
        h_samp_factor (comp_info c ! i) \<le> mh \<and> v_samp_factor (comp_info c ! i) \<le> mv \<and>
        uint (width_in_blocks (comp_info c ! i)) = ceil_div (W * h_samp_factor (comp_info c ! i)) (mh * 8) \<and>
        uint (height_in_blocks (comp_info c ! i)) = ceil_div (H * v_samp_factor (comp_info c ! i)) (mv * 8)))"

lemma scan_readyD:
  assumes "scan_ready c"
  shows "0 < uint (image_width c)" "uint (image_width c) \<le> 65500" "0 < uint (image_height c)" "uint (image_height c) \<le> 65500"
    "1 \<le> max_h_samp_factor c" "max_h_samp_factor c \<le> 4" "1 \<le> max_v_samp_factor c" "max_v_samp_factor c \<le> 4"
    "uint (total_iMCU_rows c) = ceil_div (uint (image_height c)) (max_v_samp_factor c * 8)" "length (MCU_membership c) = 10"
    "comps_in_scan c = int (length (scan_comps_of c))" "scan_comps_of c \<noteq> []"
  using assms by (simp_all add: scan_ready_def Let_def)

lemma scan_ready_comp:
  assumes "scan_ready c" "i \<in> set (scan_comps_of c)"
  defines "x \<equiv> comp_info c ! i"
  shows "sampled (map samp (comp_info c)) i" "i < length (comp_info c)"
    "1 \<le> h_samp_factor x" "h_samp_factor x \<le> max_h_samp_factor c" "1 \<le> v_samp_factor x" "v_samp_factor x \<le> max_v_samp_factor c"
    "uint (width_in_blocks x) = ceil_div (uint (image_width c) * h_samp_factor x) (max_h_samp_factor c * 8)"
    "(uint (total_iMCU_rows c) - 1) * v_samp_factor x < uint (height_in_blocks x)"
    "uint (height_in_blocks x) \<le> uint (total_iMCU_rows c) * v_samp_factor x"
proof -
  note R = scan_readyD [OF assms(1)]
  show s: "sampled (map samp (comp_info c)) i" and l: "i < length (comp_info c)"
    using assms(1,2) by (auto simp: scan_ready_def Let_def sampled_def)
  then show a: "1 \<le> h_samp_factor x" "1 \<le> v_samp_factor x" by (simp_all add: sampled_def samp_def x_def)
  show b: "h_samp_factor x \<le> max_h_samp_factor c" "v_samp_factor x \<le> max_v_samp_factor c"
    "uint (width_in_blocks x) = ceil_div (uint (image_width c) * h_samp_factor x) (max_h_samp_factor c * 8)"
    using assms(1,2) by (simp_all add: scan_ready_def Let_def x_def)
  have h: "uint (height_in_blocks x) = ceil_div (uint (image_height c) * v_samp_factor x) (max_v_samp_factor c * 8)"
    using assms(1,2) by (simp add: scan_ready_def Let_def x_def)
  show "(uint (total_iMCU_rows c) - 1) * v_samp_factor x < uint (height_in_blocks x)"
    "uint (height_in_blocks x) \<le> uint (total_iMCU_rows c) * v_samp_factor x"
    using h a b R mcu_cover [of "uint (image_height c)" "v_samp_factor x" "max_v_samp_factor c * 8"] by simp_all
qed

lemma setup_scan_ready:
  assumes j: "jinit_c_master_control False s = Inr t" and a: "arrays_ok (cinfo s)" "length (MCU_membership (cinfo s)) = 10"
    and z: "sane_size (cinfo s)" and u: "cinfo u = cinfo t" "scan_number (master u) = int k" "k < nat (num_scans (cinfo t))"
    and v: "setup_scan u = Inr w"
  obtains c1 c where "initial_setup (cinfo s) = Inr c1" "scan_ready c" "per_scan_setup c = Inr (cinfo w)"
    "comp_info c = comp_info c1" "image_width c = image_width c1" "image_height c = image_height c1"
    "max_h_samp_factor c = max_h_samp_factor c1" "max_v_samp_factor c = max_v_samp_factor c1" "total_iMCU_rows c = total_iMCU_rows c1"
    "\<forall>i \<in> set (scan_comps_of c). i < nat (num_components c1)"
proof -
  obtain c1 where c1: "initial_setup (cinfo s) = Inr c1"
    and e: "comp_info (cinfo t) = comp_info c1" "image_width (cinfo t) = image_width c1"
    "image_height (cinfo t) = image_height c1" "max_h_samp_factor (cinfo t) = max_h_samp_factor c1" "max_v_samp_factor (cinfo t) = max_v_samp_factor c1"
    "MCU_membership (cinfo t) = MCU_membership c1" "total_iMCU_rows (cinfo t) = total_iMCU_rows c1" "cur_comp_info (cinfo t) = cur_comp_info c1"
    and sc: "case scan_info (cinfo t) of None \<Rightarrow> num_components (cinfo t) = num_components c1
     | Some scans \<Rightarrow> k < length scans \<and> 1 \<le> scan_comps (scans ! k) \<and> int (length (scan_indexes (scans ! k))) = scan_comps (scans ! k) \<and>
         (\<forall>i \<in> set (scan_indexes (scans ! k)). 0 \<le> i \<and> i < num_components c1)"
    by (rule jinit_setup [OF j a(1) u(3)])
  from v obtain c2 where c2: "select_scan_parameters (int k) (cinfo t) = Inr c2"
    and ps: "(case per_scan_setup c2 of Inl e \<Rightarrow> Inl (ErrExit e) | Inr ci \<Rightarrow> Inr (u\<lparr>cinfo := ci\<rparr>)) = Inr w"
    unfolding setup_scan_def u(1,2) by (auto simp: result_simps)
  note I = initial_setup_ok [OF c1] and Z = initial_setup_sizes [OF c1 z]
  have l4: "length (cur_comp_info (cinfo t)) = 4" using a(1) I(7) e(8) by (simp add: arrays_ok_def)
  have n0: "0 < num_components c1" using I(1) by simp
  note S = select_result [OF c2 l4 sc n0]
  have mm: "length (MCU_membership c2) = 10" using S(6) e(6) initial_setup_membership [OF c1] a(2) by simp
  have X: "sampled (map samp (comp_info c2)) i \<and> h_samp_factor x \<le> max_h_samp_factor c1 \<and> v_samp_factor x \<le> max_v_samp_factor c1 \<and>
      uint (width_in_blocks x) = ceil_div (uint (image_width (cinfo s)) * h_samp_factor x) (max_h_samp_factor c1 * 8) \<and>
      uint (height_in_blocks x) = ceil_div (uint (image_height (cinfo s)) * v_samp_factor x) (max_v_samp_factor c1 * 8)"
    if "i \<in> set (scan_comps_of c2)" "x = comp_info c2 ! i" for i x
    using Z(10) [of i x] S(1,10) that e(1) I(10) by simp
  have "scan_ready c2" unfolding scan_ready_def Let_def
    using Z(1-9) z X S(2-9) e mm by (simp add: sane_size_def)
  moreover have "per_scan_setup c2 = Inr (cinfo w)" using ps by (cases "per_scan_setup c2") auto
  ultimately show ?thesis by (rule that [OF c1]) (use S e in simp_all)
qed

definition laid_out :: "jpeg_compress_struct \<Rightarrow> bool" where
  "laid_out c \<longleftrightarrow> (\<forall>i \<in> set (scan_comps_of c). covered c i) \<and> 1 \<le> blocks_in_MCU c \<and> blocks_in_MCU c \<le> 10 \<and>
    (1 < comps_in_scan c \<longrightarrow> take (nat (blocks_in_MCU c)) (MCU_membership c) = membership_of 0 (map samp (comp_info c)) (scan_comps_of c)) \<and>
    (\<forall>x \<in> set (take (nat (blocks_in_MCU c)) (MCU_membership c)). 0 \<le> x \<and> x < comps_in_scan c)"

lemma noninterleaved_laid_out:
  assumes r: "scan_ready c2" and c3: "per_scan_setup c2 = Inr c" and one: "comps_in_scan c2 = 1"
  shows "laid_out c"
proof -
  note R = scan_readyD [OF r]
  obtain i where i: "scan_comps_of c2 = [i]" using R(11) one by (metis One_nat_def length_0_conv length_Suc_conv of_nat_1_eq_iff)
  have ci: "cur_comp_info c2 ! 0 = i" "cur_comp_info c2 \<noteq> []"
    using i one unfolding scan_comps_of_def by (cases "cur_comp_info c2"; simp)+
  have mem: "i \<in> set (scan_comps_of c2)" by (simp add: i)
  note X = scan_ready_comp [OF r mem]
  have cov: "covered c i" using noninterleaved_covered [OF one c3] X R unfolding ci(1) by simp
  have c: "scan_comps_of c = [i]" "comps_in_scan c = 1" "blocks_in_MCU c = 1" "MCU_membership c = (MCU_membership c2)[0 := 0]"
    using c3 one i by (auto simp: per_scan_setup_def Let_def set_restart_def scan_comps_of_def)
  have "take 1 (MCU_membership c) = [0]" unfolding c(4) using R(10) by (cases "MCU_membership c2") simp_all
  then show ?thesis using cov c by (simp add: laid_out_def)
qed

lemma interleaved_covered:
  assumes r: "scan_ready c2" and i: "i \<in> set (scan_comps_of c2)" and cs: "1 < comps_in_scan c2"
    and mr: "uint (MCUs_per_row c) = ceil_div (uint (image_width c2)) (max_h_samp_factor c2 * 8)"
    and f: "MCU_rows_in_scan c = total_iMCU_rows c" "total_iMCU_rows c = total_iMCU_rows c2" "comps_in_scan c = comps_in_scan c2"
      "comp_info c ! i = interleaved_component (comp_info c2 ! i)"
  shows "covered c i"
proof -
  let ?x = "comp_info c2 ! i"
  note R = scan_readyD [OF r] and x = scan_ready_comp [OF r i]
  have w: "(uint (MCUs_per_row c) - 1) * h_samp_factor ?x < uint (width_in_blocks ?x)"
    "uint (width_in_blocks ?x) \<le> uint (MCUs_per_row c) * h_samp_factor ?x"
    using x R mcu_cover [of "uint (image_width c2)" "h_samp_factor ?x" "max_h_samp_factor c2 * 8"] by (simp_all add: mr)
  have LC: "(uint (MCUs_per_row c) - 1) * h_samp_factor ?x + last_group (width_in_blocks ?x) (h_samp_factor ?x) = uint (width_in_blocks ?x)"
    by (rule last_group_eq [OF w]) (use x R in auto)
  have LR: "(uint (total_iMCU_rows c2) - 1) * v_samp_factor ?x + last_group (height_in_blocks ?x) (v_samp_factor ?x) = uint (height_in_blocks ?x)"
    by (rule last_group_eq [OF x(8,9)]) (use x R in auto)
  have b: "1 \<le> last_group (width_in_blocks ?x) (h_samp_factor ?x)" "last_group (width_in_blocks ?x) (h_samp_factor ?x) \<le> h_samp_factor ?x"
    "1 \<le> last_group (height_in_blocks ?x) (v_samp_factor ?x)"
    using LC LR w x(8,9) by (simp_all add: algebra_simps)
  show ?thesis using LC LR b cs f by (simp add: covered_def Let_def interleaved_component_def)
qed

lemma membership_pos:
  assumes "sampled ss i"
  shows "0 < length (membership_of k ss (i # is))"
proof -
  have "0 < fst (ss ! i) * snd (ss ! i)" using assms unfolding sampled_def by (intro mult_pos_pos) linarith+
  then show ?thesis by (simp add: membership_of_Cons)
qed

lemma interleaved_laid_out:
  assumes r: "scan_ready c2" and c3: "per_scan_setup c2 = Inr c" and one: "comps_in_scan c2 \<noteq> 1"
  shows "laid_out c"
proof -
  note R = scan_readyD [OF r]
  define ids where "ids = scan_comps_of c2"
  have cs: "1 < comps_in_scan c2" using R(11,12) one by (cases "scan_comps_of c2") auto
  from c3 one obtain comps' b' mm' where il': "interleave 0 ids (comp_info c2, 0, MCU_membership c2) = Inr (comps', b', mm')"
    and c: "c = set_restart (c2\<lparr>
             MCUs_per_row := word_of_int (jdiv_round_up (sint (image_width c2)) (max_h_samp_factor c2 * DCTSIZE)),
             MCU_rows_in_scan := word_of_int (jdiv_round_up (sint (image_height c2)) (max_v_samp_factor c2 * DCTSIZE)),
             comp_info := comps', blocks_in_MCU := b', MCU_membership := mm'\<rparr>)"
    by (auto simp: per_scan_setup_def result_simps ids_def scan_comps_of_def split: if_splits)
  have f: "comp_info c = comps'" "blocks_in_MCU c = b'" "MCU_membership c = mm'" "scan_comps_of c = ids" "comps_in_scan c = comps_in_scan c2"
    "total_iMCU_rows c = total_iMCU_rows c2"
    by (simp_all add: c set_restart_def Let_def scan_comps_of_def ids_def)
  have sam: "sampled (map samp (comp_info c2)) i" "i < length (comp_info c2)" if "i \<in> set ids" for i
    using scan_ready_comp(1,2) [OF r] that by (simp_all add: ids_def)
  have I: "b' = int (length (membership_of 0 (map samp (comp_info c2)) ids))" "b' \<le> 10" "length comps' = length (comp_info c2)"
    "take (nat b') mm' = membership_of 0 (map samp (comp_info c2)) ids"
    "\<And>j. j \<in> set ids \<Longrightarrow> comps' ! j = interleaved_component (comp_info c2 ! j)" "map samp comps' = map samp (comp_info c2)"
    using interleave_result [OF il' _ R(10), simplified] sam by (auto intro!: nth_equalityI)
  have mr: "uint (MCUs_per_row c) = ceil_div (uint (image_width c2)) (max_h_samp_factor c2 * 8)"
    using sint_height_ceil [of "image_width c2" "max_h_samp_factor c2"] R by (simp add: c set_restart_def Let_def)
  have rs: "MCU_rows_in_scan c = total_iMCU_rows c"
    using sint_height_ceil [of "image_height c2" "max_v_samp_factor c2"] R f(6)
    by (intro word_uint_eqI) (simp add: c set_restart_def Let_def)
  have cov: "covered c i" if i: "i \<in> set ids" for i
    using interleaved_covered [OF r _ cs mr rs f(6,5)] I(5) [OF i] i f(1) by (simp add: ids_def)
  obtain i0 rest where ids0: "ids = i0 # rest" using R(12) by (cases ids) (auto simp: ids_def)
  have "0 < length (membership_of 0 (map samp (comp_info c2)) ids)"
    unfolding ids0 by (rule membership_pos) (simp add: sam ids0)
  then have "1 \<le> b'" unfolding I(1) by linarith
  then show ?thesis using cov f I R(11) membership_of_range [of _ 0 "map samp (comp_info c2)" "ids"]
    by (auto simp: ids_def laid_out_def)
qed

text \<open>Setting up a scan changes neither the image nor the samples and blocks of its components.\<close>

lemma per_scan_setup_samples:
  assumes r: "scan_ready c2" and c: "per_scan_setup c2 = Inr c"
  shows "scan_comps_of c = scan_comps_of c2" "\<And>i. i \<in> set (scan_comps_of c2) \<Longrightarrow> samples_covered c i = samples_covered c2 i"
proof -
  note R = scan_readyD [OF r]
  have "scan_comps_of c = scan_comps_of c2 \<and> (\<forall>i \<in> set (scan_comps_of c2). samples_covered c i = samples_covered c2 i)"
  proof (cases "comps_in_scan c2 = 1")
    case True
    obtain i where i: "scan_comps_of c2 = [i]" using R(11) True by (metis One_nat_def length_0_conv length_Suc_conv of_nat_1_eq_iff)
    have ci: "cur_comp_info c2 ! 0 = i" using i True unfolding scan_comps_of_def by (cases "cur_comp_info c2"; simp)
    have "i < length (comp_info c2)" using scan_ready_comp(2) [OF r] i by simp
    moreover have "c = set_restart (c2\<lparr>MCUs_per_row := width_in_blocks (comp_info c2 ! i), MCU_rows_in_scan := height_in_blocks (comp_info c2 ! i),
                  comp_info := (comp_info c2)[i := noninterleaved_component (comp_info c2 ! i)],
                  blocks_in_MCU := 1, MCU_membership := (MCU_membership c2)[0 := 0]\<rparr>)"
      using c True by (simp add: per_scan_setup_def Let_def ci)
    ultimately show ?thesis
      using i by (simp add: set_restart_def Let_def scan_comps_of_def samples_covered_def noninterleaved_component_def)
  next
    case False
    define ids where "ids = scan_comps_of c2"
    from c False obtain comps' b' mm' where il: "interleave 0 ids (comp_info c2, 0, MCU_membership c2) = Inr (comps', b', mm')"
      and c': "c = set_restart (c2\<lparr>
             MCUs_per_row := word_of_int (jdiv_round_up (sint (image_width c2)) (max_h_samp_factor c2 * DCTSIZE)),
             MCU_rows_in_scan := word_of_int (jdiv_round_up (sint (image_height c2)) (max_v_samp_factor c2 * DCTSIZE)),
             comp_info := comps', blocks_in_MCU := b', MCU_membership := mm'\<rparr>)"
      by (auto simp: per_scan_setup_def result_simps ids_def scan_comps_of_def split: if_splits)
    have sam: "sampled (map samp (comp_info c2)) i \<and> i < length (comp_info c2)" if "i \<in> set ids" for i
      using scan_ready_comp(1,2) [OF r] that by (simp add: ids_def)
    have "\<forall>i \<in> set ids. comps' ! i = interleaved_component (comp_info c2 ! i)"
      using interleave_result [OF il _ R(10), simplified] sam by auto
    then show ?thesis
      by (auto simp: c' set_restart_def Let_def scan_comps_of_def samples_covered_def interleaved_component_def ids_def)
  qed
  then show "scan_comps_of c = scan_comps_of c2" "\<And>i. i \<in> set (scan_comps_of c2) \<Longrightarrow> samples_covered c i = samples_covered c2 i" by simp_all
qed

text \<open>
  C8. The layout of a scan. After the parameter checks and the set-up of any scan of the script, for an image
  of at most 65500 by 65500 pixels: each component of the scan has the samples its sampling factors give,
  rounded up, and its blocks hold exactly these, the last ones having at least one; the MCUs of a row hold exactly its blocks, the last MCU having
  between one and \<open>MCU_width\<close> real ones, and the same for the rows of the image; an MCU has at most
  ten blocks, \<open>MCU_membership\<close> names for each the component it belongs to, \<open>MCU_blocks\<close> of each
  component in turn, and all these are components of the scan.
\<close>

theorem scan_geometry:
  assumes j: "jinit_c_master_control False s = Inr t" and a: "arrays_ok (cinfo s)" "length (MCU_membership (cinfo s)) = 10"
    and z: "sane_size (cinfo s)" and u: "cinfo u = cinfo t" "scan_number (master u) = int k" "k < nat (num_scans (cinfo t))"
    and v: "setup_scan u = Inr w"
  defines "c \<equiv> cinfo w"
  shows "(\<forall>i \<in> set (scan_comps_of c). samples_covered c i \<and> covered c i) \<and> 1 \<le> blocks_in_MCU c \<and> blocks_in_MCU c \<le> C_MAX_BLOCKS_IN_MCU \<and>
    (1 < comps_in_scan c \<longrightarrow> take (nat (blocks_in_MCU c)) (MCU_membership c) = membership_of 0 (map samp (comp_info c)) (scan_comps_of c)) \<and>
    (\<forall>x \<in> set (take (nat (blocks_in_MCU c)) (MCU_membership c)). 0 \<le> x \<and> x < comps_in_scan c)"
proof -
  obtain c1 c2 where c1: "initial_setup (cinfo s) = Inr c1" and r: "scan_ready c2" "per_scan_setup c2 = Inr (cinfo w)"
    and e: "comp_info c2 = comp_info c1" "image_width c2 = image_width c1" "image_height c2 = image_height c1"
      "max_h_samp_factor c2 = max_h_samp_factor c1" "max_v_samp_factor c2 = max_v_samp_factor c1"
      "\<forall>i \<in> set (scan_comps_of c2). i < nat (num_components c1)"
    by (rule setup_scan_ready [OF j a z u v])
  have "laid_out c"
    using r unfolding c_def by (cases "comps_in_scan c2 = 1") (simp_all add: noninterleaved_laid_out interleaved_laid_out)
  moreover have "samples_covered c2 i" if "i \<in> set (scan_comps_of c2)" for i
  proof -
    note Z = initial_setup_sizes [OF c1 z]
    have "i < nat (num_components c1)" using e(6) that by blast
    with Z(10) [of i "comp_info c1 ! i"] Z(1-8) show ?thesis
      by (simp add: samples_covered_def Let_def e(1-5) holds_samplesI)
  qed
  then have "\<forall>i \<in> set (scan_comps_of c). samples_covered c i" using per_scan_setup_samples [OF r] by (simp add: c_def)
  ultimately show ?thesis by (simp add: laid_out_def C_MAX_BLOCKS_IN_MCU_def)
qed

text \<open>A colour image of 17 by 9 pixels with halved chroma: two MCUs of six blocks in a row.\<close>

definition colour_start :: compressor where
  "colour_start = grey_start\<lparr>cinfo := (cinfo grey_start)\<lparr>image_width := 17, image_height := 9, input_components := 3,
     num_components := 3, scan_info := None,
     comp_info := [grey_comp\<lparr>h_samp_factor := 2, v_samp_factor := 2\<rparr>, grey_comp, grey_comp]\<rparr>\<rparr>"

definition colour_checked :: compressor where
  "colour_checked = projr (jinit_c_master_control False colour_start)"

definition colour_scan :: compressor where
  "colour_scan = projr (setup_scan colour_checked)"

lemma colour_steps:
  "jinit_c_master_control False colour_start = Inr colour_checked" "setup_scan colour_checked = Inr colour_scan"
  "arrays_ok (cinfo colour_start)" "length (MCU_membership (cinfo colour_start)) = 10" "sane_size (cinfo colour_start)"
  "scan_number (master colour_checked) = int 0" "0 < nat (num_scans (cinfo colour_checked))"
proof -
  have "\<not> isl (jinit_c_master_control False colour_start)" by code_simp
  then show "jinit_c_master_control False colour_start = Inr colour_checked" by (simp add: colour_checked_def)
  have "\<not> isl (setup_scan colour_checked)" by code_simp
  then show "setup_scan colour_checked = Inr colour_scan" by (simp add: colour_scan_def)
  show "arrays_ok (cinfo colour_start)" "length (MCU_membership (cinfo colour_start)) = 10" "sane_size (cinfo colour_start)"
    by (simp_all add: arrays_ok_def colour_start_def grey_start_def zero_struct_def sane_size_def)
  show "scan_number (master colour_checked) = int 0" "0 < nat (num_scans (cinfo colour_checked))" by code_simp+
qed

theorem scan_geometry_witness:
  "blocks_in_MCU (cinfo colour_scan) = 6 \<and> take 6 (MCU_membership (cinfo colour_scan)) = [0, 0, 0, 0, 1, 2] \<and>
   samples_covered (cinfo colour_scan) 0 \<and> covered (cinfo colour_scan) 0 \<and> uint (width_in_blocks (comp_info (cinfo colour_scan) ! 0)) = 3 \<and>
   last_col_width (comp_info (cinfo colour_scan) ! 0) = 1"
proof -
  note G = scan_geometry [OF colour_steps(1,3-5) refl colour_steps(6,7,2)]
  have m: "blocks_in_MCU (cinfo colour_scan) = 6" "scan_comps_of (cinfo colour_scan) = [0, 1, 2]" "1 < comps_in_scan (cinfo colour_scan)"
    "membership_of 0 (map samp (comp_info (cinfo colour_scan))) [0, 1, 2] = [0, 0, 0, 0, 1, 2]"
    "uint (width_in_blocks (comp_info (cinfo colour_scan) ! 0)) = 3" "last_col_width (comp_info (cinfo colour_scan) ! 0) = 1" by code_simp+
  from G m show ?thesis by simp
qed

lemma check_sampling_accepts:
  "(\<exists>m'. check_sampling cs m = Inr m') \<longleftrightarrow> list_all (\<lambda>c. 1 \<le> h_samp_factor c \<and> h_samp_factor c \<le> 4 \<and> 1 \<le> v_samp_factor c \<and> v_samp_factor c \<le> 4) cs"
  by (induction cs m rule: check_sampling.induct) (auto simp: MAX_SAMP_FACTOR_def)

lemma sint_cases: "sint (x :: u32) = (if uint x < 2 ^ 31 then uint x else uint x - 2 ^ 32)"
proof (cases "uint x < 2 ^ 31")
  case True
  moreover have "- (2 ^ 31) \<le> uint x" by (rule order_trans [OF _ uint_ge_0]) simp
  ultimately show ?thesis by (simp add: sint_uint signed_take_bit_int_eq_self)
next
  case False
  have "signed_take_bit 31 (uint x) = signed_take_bit 31 (uint x - 2 ^ 32)"
    by (simp add: signed_take_bit_eq_iff_take_bit_eq take_bit_eq_mod)
  moreover have "uint x < 2 ^ 32" using uint_lt2p [of x] by simp
  ultimately show ?thesis using False by (simp add: sint_uint signed_take_bit_int_eq_self)
qed

lemma as_long_back: "sint (word_of_int (as_long v) :: u32) = as_long v"
  by (simp add: as_long_def sint_sbintrunc')

lemma check_sampling_refuses: "check_sampling cs m = Inl e \<Longrightarrow> e = JERR_BAD_SAMPLING"
  by (induction cs m rule: check_sampling.induct) (auto split: if_splits)

text \<open>
  C10. Which images and component descriptions \<open>initial_setup\<close> accepts, and the error it raises for every
  other: a height or width of \<open>2 ^ 31\<close> or more is negative as a 32-bit \<open>long\<close> and passes the check against
  \<open>JPEG_MAX_DIMENSION\<close>, and \<open>JERR_WIDTH_OVERFLOW\<close> is never raised. (A component array shorter than
  \<open>num_components\<close> is an access outside it.)
\<close>

theorem initial_setup_accepts:
  "case initial_setup c of
     Inr c' \<Rightarrow>
       image_height c \<noteq> 0 \<and> image_width c \<noteq> 0 \<and> 0 < input_components c \<and>
       (uint (image_height c) \<le> 65500 \<or> 2 ^ 31 \<le> uint (image_height c)) \<and>
       (uint (image_width c) \<le> 65500 \<or> 2 ^ 31 \<le> uint (image_width c)) \<and>
       data_precision c = 8 \<and> 1 \<le> num_components c \<and> num_components c \<le> 10 \<and>
       num_components c \<le> int (length (comp_info c)) \<and>
       list_all (\<lambda>p. 1 \<le> h_samp_factor p \<and> h_samp_factor p \<le> 4 \<and> 1 \<le> v_samp_factor p \<and> v_samp_factor p \<le> 4)
         (take (nat (num_components c)) (comp_info c))
   | Inl f \<Rightarrow>
       if image_height c = 0 \<or> image_width c = 0 \<or> num_components c \<le> 0 \<or> input_components c \<le> 0 then f = ErrExit JERR_EMPTY_IMAGE
       else if uint (image_height c) \<in> {65501..<2 ^ 31} \<or> uint (image_width c) \<in> {65501..<2 ^ 31} then f = ErrExit (JERR_IMAGE_TOO_BIG 65500)
       else if data_precision c \<noteq> 8 then f = ErrExit (JERR_BAD_PRECISION (data_precision c))
       else if 10 < num_components c then f = ErrExit (JERR_COMPONENT_COUNT (num_components c) 10)
       else if int (length (comp_info c)) < num_components c then f = OutOfBounds
       else f = ErrExit JERR_BAD_SAMPLING \<and>
         \<not> list_all (\<lambda>p. 1 \<le> h_samp_factor p \<and> h_samp_factor p \<le> 4 \<and> 1 \<le> v_samp_factor p \<and> v_samp_factor p \<le> 4)
           (take (nat (num_components c)) (comp_info c))"
proof -
  have s: "JPEG_MAX_DIMENSION < sint x \<longleftrightarrow> uint x \<in> {65501..<2 ^ 31}" for x :: u32
    using sint_cases [of x] uint_lt2p [of x] by (auto simp: JPEG_MAX_DIMENSION_def split: if_splits)
  have n: "uint x \<notin> {65501..<2 ^ 31} \<longleftrightarrow> uint x \<le> 65500 \<or> 2 ^ 31 \<le> uint x" for x :: u32 by auto
  define comps where "comps = take (nat (num_components c)) (comp_info c)"
  have k: "MAX_COMPONENTS = 10" "BITS_IN_JSAMPLE = 8" "JPEG_MAX_DIMENSION = 65500"
    by (simp_all add: MAX_COMPONENTS_def BITS_IN_JSAMPLE_def JPEG_MAX_DIMENSION_def)
  have ok: "list_all (\<lambda>p. 1 \<le> h_samp_factor p \<and> h_samp_factor p \<le> 4 \<and> 1 \<le> v_samp_factor p \<and> v_samp_factor p \<le> 4) comps \<longleftrightarrow>
      (\<exists>m. check_sampling comps (1, 1) = Inr m)" by (rule check_sampling_accepts [symmetric])
  consider (empty) "image_height c = 0 \<or> image_width c = 0 \<or> num_components c \<le> 0 \<or> input_components c \<le> 0"
    | (big) "\<not> (image_height c = 0 \<or> image_width c = 0 \<or> num_components c \<le> 0 \<or> input_components c \<le> 0)"
        "JPEG_MAX_DIMENSION < sint (image_height c) \<or> JPEG_MAX_DIMENSION < sint (image_width c)"
    | (rest) "\<not> (image_height c = 0 \<or> image_width c = 0 \<or> num_components c \<le> 0 \<or> input_components c \<le> 0)"
        "\<not> (JPEG_MAX_DIMENSION < sint (image_height c) \<or> JPEG_MAX_DIMENSION < sint (image_width c))" by blast
  then show ?thesis
  proof cases
    case empty
    then show ?thesis by (simp only: initial_setup_def if_True sum.case)
  next
    case big
    then show ?thesis by (simp only: initial_setup_def if_True if_False sum.case s [symmetric] k(3))
  next
    case rest
    note r = rest(2) [unfolded s]
    show ?thesis
    proof (cases "check_sampling comps (1, 1)")
      case (Inl e)
      then show ?thesis
        using rest r ok check_sampling_refuses [OF Inl] unfolding initial_setup_def comps_def [symmetric] Let_def k(1,2)
        by (simp only: if_False as_long_back simp_thms s) (auto simp: Inl)
    next
      case (Inr m)
      then show ?thesis
        using rest r ok unfolding initial_setup_def comps_def [symmetric] Let_def k(1,2)
        by (simp only: if_False as_long_back simp_thms s) (auto simp: Inr split: prod.splits)
    qed
  qed
qed

end
