(* ===== verification/Jmarker.thy ===== *)
theory Jmarker imports Jpeglib DecSource begin

text \<open>
  The marker codes of \<open>jcmarker.c\<close> and \<open>jdmarker.c\<close> (the two files declare the same enumeration;
  \<open>M_SOF0\<close>, \<open>M_RST0\<close> and \<open>M_RST7\<close> are in \<open>DecSource\<close>).
\<close>

definition M_SOF1 :: nat where "M_SOF1 = 0xC1"
definition M_SOF2 :: nat where "M_SOF2 = 0xC2"
definition M_SOF3 :: nat where "M_SOF3 = 0xC3"
definition M_SOF5 :: nat where "M_SOF5 = 0xC5"
definition M_SOF6 :: nat where "M_SOF6 = 0xC6"
definition M_SOF7 :: nat where "M_SOF7 = 0xC7"
definition M_JPG :: nat where "M_JPG = 0xC8"
definition M_SOF9 :: nat where "M_SOF9 = 0xC9"
definition M_SOF10 :: nat where "M_SOF10 = 0xCA"
definition M_SOF11 :: nat where "M_SOF11 = 0xCB"
definition M_SOF13 :: nat where "M_SOF13 = 0xCD"
definition M_SOF14 :: nat where "M_SOF14 = 0xCE"
definition M_SOF15 :: nat where "M_SOF15 = 0xCF"
definition M_DHT :: nat where "M_DHT = 0xC4"
definition M_DAC :: nat where "M_DAC = 0xCC"
definition M_SOI :: nat where "M_SOI = 0xD8"
definition M_EOI :: nat where "M_EOI = 0xD9"
definition M_SOS :: nat where "M_SOS = 0xDA"
definition M_DQT :: nat where "M_DQT = 0xDB"
definition M_DNL :: nat where "M_DNL = 0xDC"
definition M_DRI :: nat where "M_DRI = 0xDD"
definition M_APP0 :: nat where "M_APP0 = 0xE0"
definition M_APP14 :: nat where "M_APP14 = 0xEE"
definition M_APP15 :: nat where "M_APP15 = 0xEF"
definition M_COM :: nat where "M_COM = 0xFE"
definition M_TEM :: nat where "M_TEM = 0x01"

lemmas marker_codes = M_SOF0_def M_RST0_def M_RST7_def M_SOF1_def M_SOF2_def M_SOF3_def M_SOF5_def M_SOF6_def M_SOF7_def M_JPG_def M_SOF9_def M_SOF10_def M_SOF11_def M_SOF13_def M_SOF14_def M_SOF15_def M_DHT_def M_DAC_def M_SOI_def M_EOI_def M_SOS_def M_DQT_def M_DNL_def M_DRI_def M_APP0_def M_APP14_def M_APP15_def M_COM_def M_TEM_def

end
