(* ===== verification/Jcmarker.thy ===== *)
theory Jcmarker imports Jmarker DestMgr begin

text \<open>
  \<open>jcmarker.c\<close>: the marker writer. It writes to the destination byte by byte; a destination that
  cannot empty its buffer here is an error exit, since markers are never suspended. The helpers
  \<open>emit_marker\<close> and \<open>emit_2bytes\<close> are lists of the bytes they emit, sent in order by \<open>emit_bytes\<close>.
\<close>

section \<open>Bytes\<close>

text \<open>\<open>val\<close> is cast to \<open>JOCTET\<close>, that is taken modulo 256.\<close>

definition marker_emit_byte ::
  "('z jpeg_destination_mgr_scheme \<Rightarrow> fault + (bool \<times> 'z jpeg_destination_mgr_scheme)) \<Rightarrow> int \<Rightarrow>
   'z jpeg_destination_mgr_scheme \<Rightarrow> fault + 'z jpeg_destination_mgr_scheme" where
  "marker_emit_byte emptyf val dest =
     (if length (buffer dest) \<le> next_output_byte dest then Inl OutOfBounds else
      let dest = dest\<lparr>buffer := (buffer dest)[next_output_byte dest := word_of_int val],
                      next_output_byte := next_output_byte dest + 1, free_in_buffer := free_in_buffer dest - 1\<rparr>
      in if free_in_buffer dest = 0
         then ebind (emptyf dest) (\<lambda>(ok, dest). if ok then Inr dest else Inl (ErrExit JERR_CANT_SUSPEND))
         else Inr dest)"

primrec emit_bytes ::
  "('z jpeg_destination_mgr_scheme \<Rightarrow> fault + (bool \<times> 'z jpeg_destination_mgr_scheme)) \<Rightarrow> int list \<Rightarrow>
   'z jpeg_destination_mgr_scheme \<Rightarrow> fault + 'z jpeg_destination_mgr_scheme" where
  "emit_bytes emptyf [] dest = Inr dest"
| "emit_bytes emptyf (v # vs) dest = ebind (marker_emit_byte emptyf v dest) (emit_bytes emptyf vs)"

definition emit_marker :: "nat \<Rightarrow> int list" where
  "emit_marker mark = [0xFF, int mark]"

definition emit_2bytes :: "int \<Rightarrow> int list" where
  "emit_2bytes value = [drop_bit 8 value AND 0xFF, value AND 0xFF]"

text \<open>The compressor as the marker writer sees it.\<close>

record 'd marker_writer =
  wr_cinfo :: jpeg_compress_struct
  last_restart_interval :: u32
  wr_dest :: 'd

definition emit ::
  "('z jpeg_destination_mgr_scheme \<Rightarrow> fault + (bool \<times> 'z jpeg_destination_mgr_scheme)) \<Rightarrow> int list \<Rightarrow>
   'z jpeg_destination_mgr_scheme marker_writer \<Rightarrow> fault + 'z jpeg_destination_mgr_scheme marker_writer" where
  "emit emptyf vs w = ebind (emit_bytes emptyf vs (wr_dest w)) (\<lambda>d. Inr (w\<lparr>wr_dest := d\<rparr>))"

section \<open>Tables\<close>

definition quant_prec :: "JQUANT_TBL \<Rightarrow> int" where
  "quant_prec qtbl = (if list_ex (\<lambda>i. 255 < quantval qtbl ! i) [0..<DCTSIZE2] then 1 else 0)"

text \<open>The table entries, in zigzag order.\<close>

definition quant_bytes :: "int \<Rightarrow> JQUANT_TBL \<Rightarrow> int list" where
  "quant_bytes prec qtbl = concat (map (\<lambda>i.
     let qval = uint (quantval qtbl ! (jpeg_natural_order ! i))
     in (if prec \<noteq> 0 then [drop_bit 8 qval] else []) @ [qval AND 0xFF]) [0..<DCTSIZE2])"

definition emit_dqt ::
  "('z jpeg_destination_mgr_scheme \<Rightarrow> fault + (bool \<times> 'z jpeg_destination_mgr_scheme)) \<Rightarrow> int \<Rightarrow>
   'z jpeg_destination_mgr_scheme marker_writer \<Rightarrow> fault + (int \<times> 'z jpeg_destination_mgr_scheme marker_writer)" where
  "emit_dqt emptyf index w =
     (if index < 0 \<or> int NUM_QUANT_TBLS \<le> index then Inl OutOfBounds else
      case quant_tbl_ptrs (wr_cinfo w) ! nat index of
        None \<Rightarrow> Inl (ErrExit (JERR_NO_QUANT_TABLE index))
      | Some qtbl \<Rightarrow>
          let prec = quant_prec qtbl
          in if JQUANT_TBL.sent_table qtbl then Inr (prec, w)
             else ebind (emit emptyf (emit_marker M_DQT @
                    emit_2bytes (if prec \<noteq> 0 then int DCTSIZE2 * 2 + 1 + 2 else int DCTSIZE2 + 1 + 2) @
                    [index + push_bit 4 prec] @ quant_bytes prec qtbl) w) (\<lambda>w.
                  Inr (prec, w\<lparr>wr_cinfo := (wr_cinfo w)\<lparr>quant_tbl_ptrs :=
                    (quant_tbl_ptrs (wr_cinfo w))[nat index := Some (qtbl\<lparr>JQUANT_TBL.sent_table := True\<rparr>)]\<rparr>\<rparr>)))"

text \<open>The number of symbols of a Huffman table.\<close>

definition huff_length :: "u8 list \<Rightarrow> int" where
  "huff_length bs = sum_list (map (\<lambda>i. uint (bs ! i)) [1..<17])"

definition emit_dht ::
  "('z jpeg_destination_mgr_scheme \<Rightarrow> fault + (bool \<times> 'z jpeg_destination_mgr_scheme)) \<Rightarrow> int \<Rightarrow> bool \<Rightarrow>
   'z jpeg_destination_mgr_scheme marker_writer \<Rightarrow> fault + 'z jpeg_destination_mgr_scheme marker_writer" where
  "emit_dht emptyf index is_ac w =
     (if index < 0 \<or> int NUM_HUFF_TBLS \<le> index then Inl OutOfBounds else
      let ci = wr_cinfo w;
          ptr = (if is_ac then ac_huff_tbl_ptrs ci else dc_huff_tbl_ptrs ci) ! nat index;
          code = (if is_ac then index + 0x10 else index)
      in case ptr of
           None \<Rightarrow> Inl (ErrExit (JERR_NO_HUFF_TABLE code))
         | Some htbl \<Rightarrow>
             if JHUFF_TBL.sent_table htbl then Inr w
             else
               let length = huff_length (bits htbl); t = Some (htbl\<lparr>JHUFF_TBL.sent_table := True\<rparr>)
               in ebind (emit emptyf (emit_marker M_DHT @ emit_2bytes (length + 2 + 1 + 16) @ [code] @
                           map (\<lambda>i. uint (bits htbl ! i)) [1..<17]) w) (\<lambda>w.
                  if 256 < length then Inl OutOfBounds
                  else ebind (emit emptyf (map (\<lambda>i. uint (huffval htbl ! i)) [0..<nat length]) w) (\<lambda>w.
                       Inr (w\<lparr>wr_cinfo := (if is_ac then ci\<lparr>ac_huff_tbl_ptrs := (ac_huff_tbl_ptrs ci)[nat index := t]\<rparr>
                              else ci\<lparr>dc_huff_tbl_ptrs := (dc_huff_tbl_ptrs ci)[nat index := t]\<rparr>)\<rparr>))))"

text \<open>The components of the current scan.\<close>

definition scan_components :: "jpeg_compress_struct \<Rightarrow> jpeg_component_info list" where
  "scan_components ci = map (\<lambda>i. comp_info ci ! i) (take (nat (comps_in_scan ci)) (cur_comp_info ci))"

text \<open>The arithmetic conditioning tables in use.\<close>

definition dac_in_use :: "jpeg_compress_struct \<Rightarrow> bool list \<times> bool list" where
  "dac_in_use ci = fold (\<lambda>c (dc_in_use, ac_in_use).
       (if Ss ci = 0 \<and> Ah ci = 0 then dc_in_use[nat (dc_tbl_no c) := True] else dc_in_use,
        if Se ci \<noteq> 0 then ac_in_use[nat (ac_tbl_no c) := True] else ac_in_use))
     (scan_components ci) (replicate NUM_ARITH_TBLS False, replicate NUM_ARITH_TBLS False)"

definition emit_dac ::
  "('z jpeg_destination_mgr_scheme \<Rightarrow> fault + (bool \<times> 'z jpeg_destination_mgr_scheme)) \<Rightarrow>
   'z jpeg_destination_mgr_scheme marker_writer \<Rightarrow> fault + 'z jpeg_destination_mgr_scheme marker_writer" where
  "emit_dac emptyf w =
     (let ci = wr_cinfo w; outside = (\<lambda>n. n < 0 \<or> int NUM_ARITH_TBLS \<le> n)
      in if list_ex (\<lambda>c. (Ss ci = 0 \<and> Ah ci = 0 \<and> outside (dc_tbl_no c)) \<or> (Se ci \<noteq> 0 \<and> outside (ac_tbl_no c))) (scan_components ci)
         then Inl OutOfBounds
         else case dac_in_use ci of (dc_in_use, ac_in_use) \<Rightarrow>
           let length = length (filter id dc_in_use) + length (filter id ac_in_use)
           in if length = 0 then Inr w
              else emit emptyf (emit_marker M_DAC @ emit_2bytes (int length * 2 + 2) @
                concat (map (\<lambda>i.
                  (if dc_in_use ! i then [int i, uint (arith_dc_L ci ! i) + push_bit 4 (uint (arith_dc_U ci ! i))] else []) @
                  (if ac_in_use ! i then [int i + 0x10, uint (arith_ac_K ci ! i)] else [])) [0..<NUM_ARITH_TBLS])) w)"

definition emit_dri ::
  "('z jpeg_destination_mgr_scheme \<Rightarrow> fault + (bool \<times> 'z jpeg_destination_mgr_scheme)) \<Rightarrow>
   'z jpeg_destination_mgr_scheme marker_writer \<Rightarrow> fault + 'z jpeg_destination_mgr_scheme marker_writer" where
  "emit_dri emptyf w = emit emptyf (emit_marker M_DRI @ emit_2bytes 4 @ emit_2bytes (sint (restart_interval (wr_cinfo w)))) w"

section \<open>Frame and scan headers\<close>

definition emit_sof ::
  "('z jpeg_destination_mgr_scheme \<Rightarrow> fault + (bool \<times> 'z jpeg_destination_mgr_scheme)) \<Rightarrow> nat \<Rightarrow>
   'z jpeg_destination_mgr_scheme marker_writer \<Rightarrow> fault + 'z jpeg_destination_mgr_scheme marker_writer" where
  "emit_sof emptyf code w =
     (let ci = wr_cinfo w
      in ebind (emit emptyf (emit_marker code @ emit_2bytes (3 * num_components ci + 2 + 5 + 1)) w) (\<lambda>w.
         if 65535 < sint (image_height ci) \<or> 65535 < sint (image_width ci)
         then Inl (ErrExit (JERR_IMAGE_TOO_BIG 65535))
         else emit emptyf ([data_precision ci] @ emit_2bytes (sint (image_height ci)) @ emit_2bytes (sint (image_width ci)) @
                [num_components ci] @
                concat (map (\<lambda>c. [component_id c, push_bit 4 (h_samp_factor c) + v_samp_factor c, quant_tbl_no c])
                  (take (nat (num_components ci)) (comp_info ci)))) w))"

definition emit_sos ::
  "('z jpeg_destination_mgr_scheme \<Rightarrow> fault + (bool \<times> 'z jpeg_destination_mgr_scheme)) \<Rightarrow>
   'z jpeg_destination_mgr_scheme marker_writer \<Rightarrow> fault + 'z jpeg_destination_mgr_scheme marker_writer" where
  "emit_sos emptyf w =
     (let ci = wr_cinfo w
      in emit emptyf (emit_marker M_SOS @ emit_2bytes (2 * comps_in_scan ci + 2 + 1 + 3) @ [comps_in_scan ci] @
           concat (map (\<lambda>c.
             let td = (if Ss ci = 0 \<and> Ah ci = 0 then dc_tbl_no c else 0); ta = (if Se ci \<noteq> 0 then ac_tbl_no c else 0)
             in [component_id c, push_bit 4 td + ta]) (scan_components ci)) @
           [Ss ci, Se ci, push_bit 4 (Ah ci) + Al ci]) w)"

definition emit_jfif_app0 ::
  "('z jpeg_destination_mgr_scheme \<Rightarrow> fault + (bool \<times> 'z jpeg_destination_mgr_scheme)) \<Rightarrow>
   'z jpeg_destination_mgr_scheme marker_writer \<Rightarrow> fault + 'z jpeg_destination_mgr_scheme marker_writer" where
  "emit_jfif_app0 emptyf w =
     (let ci = wr_cinfo w
      in emit emptyf (emit_marker M_APP0 @ emit_2bytes (2 + 4 + 1 + 2 + 1 + 2 + 2 + 1 + 1) @
           [0x4A, 0x46, 0x49, 0x46, 0, uint (JFIF_major_version ci), uint (JFIF_minor_version ci), uint (density_unit ci)] @
           emit_2bytes (uint (X_density ci)) @ emit_2bytes (uint (Y_density ci)) @ [0, 0]) w)"

definition emit_adobe_app14 ::
  "('z jpeg_destination_mgr_scheme \<Rightarrow> fault + (bool \<times> 'z jpeg_destination_mgr_scheme)) \<Rightarrow>
   'z jpeg_destination_mgr_scheme marker_writer \<Rightarrow> fault + 'z jpeg_destination_mgr_scheme marker_writer" where
  "emit_adobe_app14 emptyf w =
     emit emptyf (emit_marker M_APP14 @ emit_2bytes (2 + 5 + 2 + 2 + 2 + 1) @ [0x41, 0x64, 0x6F, 0x62, 0x65] @
       emit_2bytes 100 @ emit_2bytes 0 @ emit_2bytes 0 @
       [case jpeg_color_space (wr_cinfo w) of JCS_YCbCr \<Rightarrow> 1 | JCS_YCCK \<Rightarrow> 2 | _ \<Rightarrow> 0]) w"

section \<open>The methods\<close>

definition write_marker_header ::
  "('z jpeg_destination_mgr_scheme \<Rightarrow> fault + (bool \<times> 'z jpeg_destination_mgr_scheme)) \<Rightarrow> nat \<Rightarrow> u32 \<Rightarrow>
   'z jpeg_destination_mgr_scheme marker_writer \<Rightarrow> fault + 'z jpeg_destination_mgr_scheme marker_writer" where
  "write_marker_header emptyf marker datalen w =
     (if 65533 < datalen then Inl (ErrExit JERR_BAD_LENGTH)
      else emit emptyf (emit_marker marker @ emit_2bytes (uint (datalen + 2))) w)"

definition write_marker_byte ::
  "('z jpeg_destination_mgr_scheme \<Rightarrow> fault + (bool \<times> 'z jpeg_destination_mgr_scheme)) \<Rightarrow> int \<Rightarrow>
   'z jpeg_destination_mgr_scheme marker_writer \<Rightarrow> fault + 'z jpeg_destination_mgr_scheme marker_writer" where
  "write_marker_byte emptyf val w = emit emptyf [val] w"

definition write_file_header ::
  "('z jpeg_destination_mgr_scheme \<Rightarrow> fault + (bool \<times> 'z jpeg_destination_mgr_scheme)) \<Rightarrow>
   'z jpeg_destination_mgr_scheme marker_writer \<Rightarrow> fault + 'z jpeg_destination_mgr_scheme marker_writer" where
  "write_file_header emptyf w =
     ebind (emit emptyf (emit_marker M_SOI) w) (\<lambda>w.
     let w = w\<lparr>last_restart_interval := 0\<rparr>
     in ebind (if write_JFIF_header (wr_cinfo w) then emit_jfif_app0 emptyf w else Inr w) (\<lambda>w.
        if write_Adobe_marker (wr_cinfo w) then emit_adobe_app14 emptyf w else Inr w))"

text \<open>The tables the components use; the sum of the precisions.\<close>

fun emit_dqts ::
  "('z jpeg_destination_mgr_scheme \<Rightarrow> fault + (bool \<times> 'z jpeg_destination_mgr_scheme)) \<Rightarrow> int list \<Rightarrow> int \<Rightarrow>
   'z jpeg_destination_mgr_scheme marker_writer \<Rightarrow> fault + (int \<times> 'z jpeg_destination_mgr_scheme marker_writer)" where
  "emit_dqts emptyf [] prec w = Inr (prec, w)"
| "emit_dqts emptyf (index # is) prec w = ebind (emit_dqt emptyf index w) (\<lambda>(p, w). emit_dqts emptyf is (prec + p) w)"

definition frame_code :: "int \<Rightarrow> jpeg_compress_struct \<Rightarrow> nat" where
  "frame_code prec ci =
     (let is_baseline = (if arith_code ci \<or> progressive_mode ci \<or> data_precision ci \<noteq> 8 then False
            else \<not> list_ex (\<lambda>c. 1 < dc_tbl_no c \<or> 1 < ac_tbl_no c) (take (nat (num_components ci)) (comp_info ci)) \<and> prec = 0)
      in if arith_code ci then (if progressive_mode ci then M_SOF10 else M_SOF9)
         else if progressive_mode ci then M_SOF2 else if is_baseline then M_SOF0 else M_SOF1)"

definition write_frame_header ::
  "('z jpeg_destination_mgr_scheme \<Rightarrow> fault + (bool \<times> 'z jpeg_destination_mgr_scheme)) \<Rightarrow>
   'z jpeg_destination_mgr_scheme marker_writer \<Rightarrow> fault + 'z jpeg_destination_mgr_scheme marker_writer" where
  "write_frame_header emptyf w =
     (let ci = wr_cinfo w
      in ebind (emit_dqts emptyf (map quant_tbl_no (take (nat (num_components ci)) (comp_info ci))) 0 w) (\<lambda>(prec, w).
         emit_sof emptyf (frame_code prec ci) w))"

fun emit_dhts ::
  "('z jpeg_destination_mgr_scheme \<Rightarrow> fault + (bool \<times> 'z jpeg_destination_mgr_scheme)) \<Rightarrow> jpeg_component_info list \<Rightarrow>
   'z jpeg_destination_mgr_scheme marker_writer \<Rightarrow> fault + 'z jpeg_destination_mgr_scheme marker_writer" where
  "emit_dhts emptyf [] w = Inr w"
| "emit_dhts emptyf (c # cs) w =
     ebind (if Ss (wr_cinfo w) = 0 \<and> Ah (wr_cinfo w) = 0 then emit_dht emptyf (dc_tbl_no c) False w else Inr w) (\<lambda>w.
     ebind (if Se (wr_cinfo w) \<noteq> 0 then emit_dht emptyf (ac_tbl_no c) True w else Inr w) (emit_dhts emptyf cs))"

definition write_scan_header ::
  "('z jpeg_destination_mgr_scheme \<Rightarrow> fault + (bool \<times> 'z jpeg_destination_mgr_scheme)) \<Rightarrow>
   'z jpeg_destination_mgr_scheme marker_writer \<Rightarrow> fault + 'z jpeg_destination_mgr_scheme marker_writer" where
  "write_scan_header emptyf w =
     ebind (if arith_code (wr_cinfo w) then emit_dac emptyf w else emit_dhts emptyf (scan_components (wr_cinfo w)) w) (\<lambda>w.
     ebind (if restart_interval (wr_cinfo w) \<noteq> last_restart_interval w
            then ebind (emit_dri emptyf w) (\<lambda>w. Inr (w\<lparr>last_restart_interval := restart_interval (wr_cinfo w)\<rparr>))
            else Inr w) (emit_sos emptyf))"

definition write_file_trailer ::
  "('z jpeg_destination_mgr_scheme \<Rightarrow> fault + (bool \<times> 'z jpeg_destination_mgr_scheme)) \<Rightarrow>
   'z jpeg_destination_mgr_scheme marker_writer \<Rightarrow> fault + 'z jpeg_destination_mgr_scheme marker_writer" where
  "write_file_trailer emptyf w = emit emptyf (emit_marker M_EOI) w"

fun tables_dqt ::
  "('z jpeg_destination_mgr_scheme \<Rightarrow> fault + (bool \<times> 'z jpeg_destination_mgr_scheme)) \<Rightarrow> nat list \<Rightarrow>
   'z jpeg_destination_mgr_scheme marker_writer \<Rightarrow> fault + 'z jpeg_destination_mgr_scheme marker_writer" where
  "tables_dqt emptyf [] w = Inr w"
| "tables_dqt emptyf (i # is) w =
     ebind (if quant_tbl_ptrs (wr_cinfo w) ! i \<noteq> None then ebind (emit_dqt emptyf (int i) w) (\<lambda>(_, w). Inr w) else Inr w)
       (tables_dqt emptyf is)"

fun tables_dht ::
  "('z jpeg_destination_mgr_scheme \<Rightarrow> fault + (bool \<times> 'z jpeg_destination_mgr_scheme)) \<Rightarrow> nat list \<Rightarrow>
   'z jpeg_destination_mgr_scheme marker_writer \<Rightarrow> fault + 'z jpeg_destination_mgr_scheme marker_writer" where
  "tables_dht emptyf [] w = Inr w"
| "tables_dht emptyf (i # is) w =
     ebind (if dc_huff_tbl_ptrs (wr_cinfo w) ! i \<noteq> None then emit_dht emptyf (int i) False w else Inr w) (\<lambda>w.
     ebind (if ac_huff_tbl_ptrs (wr_cinfo w) ! i \<noteq> None then emit_dht emptyf (int i) True w else Inr w)
       (tables_dht emptyf is))"

definition write_tables_only ::
  "('z jpeg_destination_mgr_scheme \<Rightarrow> fault + (bool \<times> 'z jpeg_destination_mgr_scheme)) \<Rightarrow>
   'z jpeg_destination_mgr_scheme marker_writer \<Rightarrow> fault + 'z jpeg_destination_mgr_scheme marker_writer" where
  "write_tables_only emptyf w =
     ebind (emit emptyf (emit_marker M_SOI) w) (\<lambda>w.
     ebind (tables_dqt emptyf [0..<NUM_QUANT_TBLS] w) (\<lambda>w.
     ebind (if \<not> arith_code (wr_cinfo w) then tables_dht emptyf [0..<NUM_HUFF_TBLS] w else Inr w)
       (emit emptyf (emit_marker M_EOI))))"

definition jinit_marker_writer :: "'d marker_writer \<Rightarrow> 'd marker_writer" where
  "jinit_marker_writer w = w\<lparr>last_restart_interval := 0\<rparr>"

end
