(* ===== verification/Jdlib.thy ===== *)
theory Jdlib imports Jmarker begin

text \<open>
  The decompression object of \<open>jpeglib.h\<close> with its data source, marker reader and input controller.
  Fields that also exist in the compression object have the prefix \<open>d_\<close>. As in \<open>DecSource\<close>, a data
  source is the buffer at hand and the buffers its next \<open>fill_input_buffer\<close> calls deliver.
\<close>

section \<open>Structures\<close>

datatype J_DITHER_MODE = JDITHER_NONE | JDITHER_ORDERED | JDITHER_FS

record jpeg_marker_struct =
  saved_marker :: nat
  original_length :: u32
  data_length :: u32
  saved_data :: "u8 list"

text \<open>
  \<open>cur_comp_info\<close> points into \<open>comp_info\<close>: the index, or \<open>None\<close> for NULL. \<open>comp_info\<close> is empty for
  NULL; \<open>coef_bits\<close> and \<open>colormap\<close> are \<open>None\<close> for NULL.
\<close>

record jpeg_decompress_struct =
  d_global_state :: int
  d_image_width :: u32
  d_image_height :: u32
  d_num_components :: int
  d_jpeg_color_space :: J_COLOR_SPACE
  out_color_space :: J_COLOR_SPACE
  scale_num :: u32
  scale_denom :: u32
  buffered_image :: bool
  raw_data_out :: bool
  d_dct_method :: J_DCT_METHOD
  do_fancy_upsampling :: bool
  do_block_smoothing :: bool
  quantize_colors :: bool
  dither_mode :: J_DITHER_MODE
  two_pass_quantize :: bool
  desired_number_of_colors :: int
  enable_1pass_quant :: bool
  enable_external_quant :: bool
  enable_2pass_quant :: bool
  output_width :: u32
  output_height :: u32
  out_color_components :: int
  output_components :: int
  rec_outbuf_height :: int
  actual_number_of_colors :: int
  colormap :: "u8 list list option"
  output_scanline :: u32
  input_scan_number :: int
  input_iMCU_row :: u32
  output_scan_number :: int
  output_iMCU_row :: u32
  coef_bits :: "int list list option"
  d_quant_tbl_ptrs :: "JQUANT_TBL option list"
  d_dc_huff_tbl_ptrs :: "JHUFF_TBL option list"
  d_ac_huff_tbl_ptrs :: "JHUFF_TBL option list"
  d_data_precision :: int
  d_comp_info :: "jpeg_component_info list"
  d_progressive_mode :: bool
  d_arith_code :: bool
  d_arith_dc_L :: "u8 list"
  d_arith_dc_U :: "u8 list"
  d_arith_ac_K :: "u8 list"
  d_restart_interval :: u32
  saw_JFIF_marker :: bool
  d_JFIF_major_version :: u8
  d_JFIF_minor_version :: u8
  d_density_unit :: u8
  d_X_density :: u16
  d_Y_density :: u16
  saw_Adobe_marker :: bool
  Adobe_transform :: u8
  d_CCIR601_sampling :: bool
  marker_list :: "jpeg_marker_struct list"
  d_max_h_samp_factor :: int
  d_max_v_samp_factor :: int
  min_DCT_scaled_size :: int
  d_total_iMCU_rows :: u32
  d_comps_in_scan :: int
  d_cur_comp_info :: "nat option list"
  d_MCUs_per_row :: u32
  d_MCU_rows_in_scan :: u32
  d_blocks_in_MCU :: int
  d_MCU_membership :: "int list"
  d_Ss :: int
  d_Se :: int
  d_Ah :: int
  d_Al :: int

text \<open>An object of zero bytes.\<close>

definition zero_decompress :: jpeg_decompress_struct where
  "zero_decompress = \<lparr>d_global_state = 0, d_image_width = 0, d_image_height = 0, d_num_components = 0,
     d_jpeg_color_space = JCS_UNKNOWN, out_color_space = JCS_UNKNOWN, scale_num = 0, scale_denom = 0,
     buffered_image = False, raw_data_out = False, d_dct_method = JDCT_ISLOW,
     do_fancy_upsampling = False, do_block_smoothing = False, quantize_colors = False,
     dither_mode = JDITHER_NONE, two_pass_quantize = False, desired_number_of_colors = 0,
     enable_1pass_quant = False, enable_external_quant = False, enable_2pass_quant = False,
     output_width = 0, output_height = 0, out_color_components = 0, output_components = 0,
     rec_outbuf_height = 0, actual_number_of_colors = 0, colormap = None, output_scanline = 0,
     input_scan_number = 0, input_iMCU_row = 0, output_scan_number = 0, output_iMCU_row = 0,
     coef_bits = None, d_quant_tbl_ptrs = replicate 4 None, d_dc_huff_tbl_ptrs = replicate 4 None,
     d_ac_huff_tbl_ptrs = replicate 4 None, d_data_precision = 0, d_comp_info = [],
     d_progressive_mode = False, d_arith_code = False, d_arith_dc_L = replicate 16 0,
     d_arith_dc_U = replicate 16 0, d_arith_ac_K = replicate 16 0, d_restart_interval = 0,
     saw_JFIF_marker = False, d_JFIF_major_version = 0, d_JFIF_minor_version = 0, d_density_unit = 0,
     d_X_density = 0, d_Y_density = 0, saw_Adobe_marker = False, Adobe_transform = 0,
     d_CCIR601_sampling = False, marker_list = [], d_max_h_samp_factor = 0, d_max_v_samp_factor = 0,
     min_DCT_scaled_size = 0, d_total_iMCU_rows = 0, d_comps_in_scan = 0,
     d_cur_comp_info = replicate 4 None, d_MCUs_per_row = 0, d_MCU_rows_in_scan = 0,
     d_blocks_in_MCU = 0, d_MCU_membership = replicate 10 0, d_Ss = 0, d_Se = 0, d_Ah = 0, d_Al = 0\<rparr>"

text \<open>The library's methods for APPn and COM markers.\<close>

datatype marker_method = Skip_variable | Get_interesting_appn | Save_marker

text \<open>
  \<open>cur_marker\<close> is the marker being saved, with the data read so far (so \<open>bytes_read\<close> is the length of
  that data). \<open>fresh_quant\<close> and \<open>fresh_comp\<close> are what newly allocated memory holds.
\<close>

record decompressor = dec_source +
  saw_SOI :: bool
  saw_SOF :: bool
  process_COM :: marker_method
  process_APPn :: "marker_method list"
  length_limit_COM :: u32
  length_limit_APPn :: "u32 list"
  cur_marker :: "jpeg_marker_struct option"
  dinfo :: jpeg_decompress_struct
  fresh_quant :: "u16 list"
  fresh_comp :: "nat \<Rightarrow> jpeg_component_info"

text \<open>A decompressor with nothing read, on the source \<open>i\<close>, \<open>f\<close>.\<close>

definition idle_decompressor :: "u8 list \<Rightarrow> u8 list list \<Rightarrow> decompressor" where
  "idle_decompressor i f = \<lparr>input = i, fills = f, unread_marker = 0, next_restart_num = 0, discarded_bytes = 0,
     saw_SOI = False, saw_SOF = False, process_COM = Skip_variable,
     process_APPn = (replicate 16 Skip_variable)[0 := Get_interesting_appn, 14 := Get_interesting_appn],
     length_limit_COM = 0, length_limit_APPn = replicate 16 0, cur_marker = None, dinfo = zero_decompress,
     fresh_quant = replicate 64 0, fresh_comp = (\<lambda>i. \<lparr>component_id = 0, component_index = 0, h_samp_factor = 0, v_samp_factor = 0,
       quant_tbl_no = 0, dc_tbl_no = 0, ac_tbl_no = 0, width_in_blocks = 0, height_in_blocks = 0, DCT_scaled_size = 0,
       downsampled_width = 0, downsampled_height = 0, component_needed = False, MCU_width = 0, MCU_height = 0, MCU_blocks = 0,
       MCU_sample_width = 0, last_col_width = 0, last_row_height = 0, quant_table = None\<rparr>)\<rparr>"

definition upd :: "(jpeg_decompress_struct \<Rightarrow> jpeg_decompress_struct) \<Rightarrow> decompressor \<Rightarrow> decompressor" where
  "upd f s = s\<lparr>dinfo := f (dinfo s)\<rparr>"

definition upd_comp :: "nat \<Rightarrow> (jpeg_component_info \<Rightarrow> jpeg_component_info) \<Rightarrow> decompressor \<Rightarrow> decompressor" where
  "upd_comp i f = upd (\<lambda>c. c\<lparr>d_comp_info := (d_comp_info c)[i := f (d_comp_info c ! i)]\<rparr>)"

lemma upd_simps [simp]:
  "dinfo (upd f s) = f (dinfo s)" "input (upd f s) = input s" "fills (upd f s) = fills s" "unread_marker (upd f s) = unread_marker s"
  "saw_SOI (upd f s) = saw_SOI s" "saw_SOF (upd f s) = saw_SOF s" "fresh_comp (upd f s) = fresh_comp s"
  "fresh_quant (upd f s) = fresh_quant s" "cur_marker (upd f s) = cur_marker s" "process_APPn (upd f s) = process_APPn s"
  "process_COM (upd f s) = process_COM s" "next_restart_num (upd f s) = next_restart_num s" "discarded_bytes (upd f s) = discarded_bytes s"
  "upcoming (upd f s) = upcoming s" "live (upd f s) = live s"
  "dinfo (upd_comp i g s) = (dinfo s)\<lparr>d_comp_info := (d_comp_info (dinfo s))[i := g (d_comp_info (dinfo s) ! i)]\<rparr>"
  "upcoming (upd_comp i g s) = upcoming s" "live (upd_comp i g s) = live s"
  by (simp_all add: upd_def upd_comp_def upcoming_def live_def)

section \<open>Reading bytes\<close>

text \<open>
  \<open>INPUT_BYTE s f\<close> reads a byte and goes on with \<open>f\<close>; if the source suspends, the routine returns FALSE.
  The restart point is only moved by \<open>INPUT_SYNC\<close>, so a routine that suspends before its first
  \<open>INPUT_SYNC\<close> is put back to where it started (\<open>backtrack\<close>); a suspending source keeps the data from
  there on, as \<open>libjpeg.txt\<close> asks.
\<close>

type_synonym routine = "fault + (bool \<times> decompressor)"

definition INPUT_BYTE :: "decompressor \<Rightarrow> (int \<Rightarrow> decompressor \<Rightarrow> routine) \<Rightarrow> routine" where
  "INPUT_BYTE s f = (case next_byte s of None \<Rightarrow> Inr (False, s) | Some (c, s) \<Rightarrow> f (uint c) s)"

definition INPUT_2BYTES :: "decompressor \<Rightarrow> (int \<Rightarrow> decompressor \<Rightarrow> routine) \<Rightarrow> routine" where
  "INPUT_2BYTES s f = INPUT_BYTE s (\<lambda>h s. INPUT_BYTE s (\<lambda>l s. f (push_bit 8 h + l) s))"

fun INPUT_BYTES :: "nat \<Rightarrow> decompressor \<Rightarrow> (int list \<Rightarrow> decompressor \<Rightarrow> routine) \<Rightarrow> routine" where
  "INPUT_BYTES 0 s f = f [] s"
| "INPUT_BYTES (Suc n) s f = INPUT_BYTE s (\<lambda>v s. INPUT_BYTES n s (\<lambda>vs. f (v # vs)))"

definition backtrack :: "decompressor \<Rightarrow> routine \<Rightarrow> routine" where
  "backtrack s r = (case r of Inl e \<Rightarrow> Inl e
     | Inr (ok, s') \<Rightarrow> Inr (ok, if ok then s' else s'\<lparr>input := input s, fills := fills s\<rparr>))"

text \<open>\<open>skip_input_data\<close>, as \<open>jdatasrc.c\<close> does it: whole buffers are dropped and filled again.\<close>

fun skip_bytes :: "nat \<Rightarrow> u8 list \<Rightarrow> u8 list list \<Rightarrow> u8 list \<times> u8 list list" where
  "skip_bytes n buf [] = (drop n buf, [])"
| "skip_bytes n buf (b # bs) = (if n \<le> length buf then (drop n buf, b # bs) else skip_bytes (n - length buf) b bs)"

definition skip_input_data :: "int \<Rightarrow> decompressor \<Rightarrow> decompressor" where
  "skip_input_data num_bytes s =
     (if 0 < num_bytes
      then case skip_bytes (nat num_bytes) (input s) (fills s) of (i, f) \<Rightarrow> s\<lparr>input := i, fills := f\<rparr>
      else s)"

end
