(* ===== verification/Jdmarker.thy ===== *)
theory Jdmarker imports Jdlib begin

text \<open>
  \<open>jdmarker.c\<close>: the routines that read the parameters of each marker, and \<open>read_markers\<close>, which
  reads markers up to the next scan or the end of the image. Values read are \<open>int\<close>s, as in the
  code. Trace messages and warnings reach only the application and are left out.
\<close>

section \<open>Frame and scan headers\<close>

definition get_soi :: "decompressor \<Rightarrow> routine" where
  "get_soi s =
     (if saw_SOI s then Inl (ErrExit JERR_SOI_DUPLICATE)
      else Inr (True, (upd (\<lambda>c. c\<lparr>d_arith_dc_L := replicate NUM_ARITH_TBLS 0, d_arith_dc_U := replicate NUM_ARITH_TBLS 1,
        d_arith_ac_K := replicate NUM_ARITH_TBLS 5, d_restart_interval := 0, d_jpeg_color_space := JCS_UNKNOWN,
        d_CCIR601_sampling := False, saw_JFIF_marker := False, d_JFIF_major_version := 1, d_JFIF_minor_version := 1,
        d_density_unit := 0, d_X_density := 1, d_Y_density := 1, saw_Adobe_marker := False, Adobe_transform := 0\<rparr>) s)
        \<lparr>saw_SOI := True\<rparr>))"

text \<open>The loop over the components of the frame.\<close>

fun sof_components :: "nat list \<Rightarrow> decompressor \<Rightarrow> (decompressor \<Rightarrow> routine) \<Rightarrow> routine" where
  "sof_components [] s f = f s"
| "sof_components (ci # cis) s f =
     INPUT_BYTE (upd_comp ci (\<lambda>p. p\<lparr>component_index := int ci\<rparr>) s) (\<lambda>v s.
     INPUT_BYTE (upd_comp ci (\<lambda>p. p\<lparr>component_id := v\<rparr>) s) (\<lambda>c s.
     INPUT_BYTE (upd_comp ci (\<lambda>p. p\<lparr>h_samp_factor := drop_bit 4 c AND 15, v_samp_factor := c AND 15\<rparr>) s) (\<lambda>v s.
     sof_components cis (upd_comp ci (\<lambda>p. p\<lparr>quant_tbl_no := v\<rparr>) s) f)))"

definition sof_checks :: "int \<Rightarrow> decompressor \<Rightarrow> routine" where
  "sof_checks len s =
     (let n = d_num_components (dinfo s)
      in if saw_SOF s then Inl (ErrExit JERR_SOF_DUPLICATE)
         else if d_image_height (dinfo s) = 0 \<or> d_image_width (dinfo s) = 0 \<or> n \<le> 0 then Inl (ErrExit JERR_EMPTY_IMAGE)
         else if len - 8 \<noteq> n * 3 then Inl (ErrExit JERR_BAD_LENGTH)
         else
           let s = (if d_comp_info (dinfo s) = [] then upd (\<lambda>c. c\<lparr>d_comp_info := map (fresh_comp s) [0..<nat n]\<rparr>) s else s)
           in if int (length (d_comp_info (dinfo s))) < n then Inl OutOfBounds
              else sof_components [0..<nat n] s (\<lambda>s. Inr (True, s\<lparr>saw_SOF := True\<rparr>)))"

definition get_sof :: "bool \<Rightarrow> bool \<Rightarrow> decompressor \<Rightarrow> routine" where
  "get_sof is_prog is_arith s0 = backtrack s0 (
     INPUT_2BYTES (upd (\<lambda>c. c\<lparr>d_progressive_mode := is_prog, d_arith_code := is_arith\<rparr>) s0) (\<lambda>length s.
     INPUT_BYTE s (\<lambda>v s.
     INPUT_2BYTES (upd (\<lambda>c. c\<lparr>d_data_precision := v\<rparr>) s) (\<lambda>v s.
     INPUT_2BYTES (upd (\<lambda>c. c\<lparr>d_image_height := word_of_int v\<rparr>) s) (\<lambda>v s.
     INPUT_BYTE (upd (\<lambda>c. c\<lparr>d_image_width := word_of_int v\<rparr>) s) (\<lambda>v s.
     sof_checks length (upd (\<lambda>c. c\<lparr>d_num_components := v\<rparr>) s)))))))"

text \<open>
  The search for a component: the test on \<open>cur_comp_info\<close> looks at the position \<open>ci\<close>, and only the
  first \<open>MAX_COMPS_IN_SCAN\<close> components are considered.
\<close>

definition find_comp :: "int \<Rightarrow> jpeg_decompress_struct \<Rightarrow> nat option" where
  "find_comp cc c = find (\<lambda>ci. cc = component_id (d_comp_info c ! ci) \<and> d_cur_comp_info c ! ci = None)
     [0..<nat (min (d_num_components c) MAX_COMPS_IN_SCAN)]"

fun sos_components :: "nat list \<Rightarrow> decompressor \<Rightarrow> (decompressor \<Rightarrow> routine) \<Rightarrow> routine" where
  "sos_components [] s f = f s"
| "sos_components (i # is) s f =
     INPUT_BYTE s (\<lambda>cc s.
     INPUT_BYTE s (\<lambda>c s.
     case find_comp cc (dinfo s) of
       None \<Rightarrow> Inl (ErrExit (JERR_BAD_COMPONENT_ID cc))
     | Some ci \<Rightarrow>
         let s = upd (\<lambda>d. d\<lparr>d_cur_comp_info := (d_cur_comp_info d)[i := Some ci]\<rparr>) s;
             s = upd_comp ci (\<lambda>p. p\<lparr>dc_tbl_no := drop_bit 4 c AND 15, ac_tbl_no := c AND 15\<rparr>) s
         in if Some ci \<in> set (take i (d_cur_comp_info (dinfo s))) then Inl (ErrExit (JERR_BAD_COMPONENT_ID cc))
            else sos_components is s f))"

definition get_sos :: "decompressor \<Rightarrow> routine" where
  "get_sos s0 = backtrack s0 (
     if \<not> saw_SOF s0 then Inl (ErrExit JERR_SOS_NO_SOF) else
     INPUT_2BYTES s0 (\<lambda>length s.
     INPUT_BYTE s (\<lambda>n s.
     if length \<noteq> n * 2 + 6 \<or> n < 1 \<or> MAX_COMPS_IN_SCAN < n then Inl (ErrExit JERR_BAD_LENGTH) else
     sos_components [0..<nat n] (upd (\<lambda>d. d\<lparr>d_comps_in_scan := n, d_cur_comp_info := replicate 4 None\<rparr>) s) (\<lambda>s.
     INPUT_BYTE s (\<lambda>c s.
     INPUT_BYTE (upd (\<lambda>d. d\<lparr>d_Ss := c\<rparr>) s) (\<lambda>c s.
     INPUT_BYTE (upd (\<lambda>d. d\<lparr>d_Se := c\<rparr>) s) (\<lambda>c s.
     Inr (True, (upd (\<lambda>d. d\<lparr>d_Ah := drop_bit 4 c AND 15, d_Al := c AND 15,
       input_scan_number := input_scan_number d + 1\<rparr>) s)\<lparr>next_restart_num := 0\<rparr>))))))))"

section \<open>Tables\<close>

function dac_loop :: "int \<Rightarrow> decompressor \<Rightarrow> routine" where
  "dac_loop len s =
     (if 0 < len
      then INPUT_BYTE s (\<lambda>index s. INPUT_BYTE s (\<lambda>val s.
        if index < 0 \<or> 2 * int NUM_ARITH_TBLS \<le> index then Inl (ErrExit (JERR_DAC_INDEX index))
        else if int NUM_ARITH_TBLS \<le> index
        then dac_loop (len - 2) (upd (\<lambda>c. c\<lparr>d_arith_ac_K := (d_arith_ac_K c)[nat index - NUM_ARITH_TBLS := word_of_int val]\<rparr>) s)
        else
          let s = upd (\<lambda>c. c\<lparr>d_arith_dc_L := (d_arith_dc_L c)[nat index := word_of_int (val AND 0x0F)],
                             d_arith_dc_U := (d_arith_dc_U c)[nat index := word_of_int (drop_bit 4 val)]\<rparr>) s
          in if d_arith_dc_U (dinfo s) ! nat index < d_arith_dc_L (dinfo s) ! nat index
             then Inl (ErrExit (JERR_DAC_VALUE val)) else dac_loop (len - 2) s))
      else if len \<noteq> 0 then Inl (ErrExit JERR_BAD_LENGTH)
      else Inr (True, s))"
  by pat_completeness auto
termination by (relation "measure (nat \<circ> fst)") auto

declare dac_loop.simps [simp del]

definition get_dac :: "decompressor \<Rightarrow> routine" where
  "get_dac s = backtrack s (INPUT_2BYTES s (\<lambda>length s. dac_loop (length - 2) s))"

definition set_huff_table :: "JHUFF_TBL option \<Rightarrow> int list \<Rightarrow> int list \<Rightarrow> JHUFF_TBL option" where
  "set_huff_table t bs hv =
     (let t = (case t of None \<Rightarrow> \<lparr>bits = [], huffval = [], sent_table = False\<rparr> | Some t \<Rightarrow> t)
      in Some (t\<lparr>bits := map word_of_int (0 # bs), huffval := map word_of_int (hv @ replicate (256 - length hv) 0)\<rparr>))"

function dht_loop :: "int \<Rightarrow> decompressor \<Rightarrow> routine" where
  "dht_loop len s =
     (if 16 < len
      then INPUT_BYTE s (\<lambda>index s. INPUT_BYTES 16 s (\<lambda>bs s.
        let count = int (sum_list (map nat bs)); len = len - (1 + 16)
        in if 256 < count \<or> len < count then Inl (ErrExit JERR_BAD_HUFF_TABLE)
           else INPUT_BYTES (nat count) s (\<lambda>hv s.
             let len = len - count; ac = (index AND 0x10 \<noteq> 0); index = (if ac then index - 0x10 else index)
             in if index < 0 \<or> int NUM_HUFF_TBLS \<le> index then Inl (ErrExit (JERR_DHT_INDEX index))
                else dht_loop len (upd (\<lambda>c.
                  if ac then c\<lparr>d_ac_huff_tbl_ptrs := (d_ac_huff_tbl_ptrs c)
                      [nat index := set_huff_table (d_ac_huff_tbl_ptrs c ! nat index) bs hv]\<rparr>
                  else c\<lparr>d_dc_huff_tbl_ptrs := (d_dc_huff_tbl_ptrs c)
                      [nat index := set_huff_table (d_dc_huff_tbl_ptrs c ! nat index) bs hv]\<rparr>) s))))
      else if len \<noteq> 0 then Inl (ErrExit JERR_BAD_LENGTH)
      else Inr (True, s))"
  by pat_completeness auto
termination by (relation "measure (nat \<circ> fst)") auto

declare dht_loop.simps [simp del]

definition get_dht :: "decompressor \<Rightarrow> routine" where
  "get_dht s = backtrack s (INPUT_2BYTES s (\<lambda>length s. dht_loop (length - 2) s))"

text \<open>One quantisation value after the other is stored, from zigzag to natural order.\<close>

definition set_quant :: "nat \<Rightarrow> nat \<Rightarrow> int \<Rightarrow> jpeg_decompress_struct \<Rightarrow> jpeg_decompress_struct" where
  "set_quant n p v c = c\<lparr>d_quant_tbl_ptrs := (d_quant_tbl_ptrs c)
     [n := map_option (\<lambda>t. t\<lparr>quantval := (quantval t)[p := word_of_int v]\<rparr>) (d_quant_tbl_ptrs c ! n)]\<rparr>"

fun dqt_values :: "bool \<Rightarrow> nat \<Rightarrow> nat list \<Rightarrow> decompressor \<Rightarrow> (decompressor \<Rightarrow> routine) \<Rightarrow> routine" where
  "dqt_values prec n [] s f = f s"
| "dqt_values prec n (p # ps) s f =
     (if prec then INPUT_2BYTES s (\<lambda>v s. dqt_values prec n ps (upd (set_quant n p v) s) f)
      else INPUT_BYTE s (\<lambda>v s. dqt_values prec n ps (upd (set_quant n p v) s) f))"

function dqt_loop :: "int \<Rightarrow> decompressor \<Rightarrow> routine" where
  "dqt_loop len s =
     (if 0 < len
      then INPUT_BYTE s (\<lambda>n s.
        let prec = (drop_bit 4 n \<noteq> 0); n = n AND 0x0F
        in if int NUM_QUANT_TBLS \<le> n then Inl (ErrExit (JERR_DQT_INDEX n))
           else
             let s = (if d_quant_tbl_ptrs (dinfo s) ! nat n = None
                      then upd (\<lambda>c. c\<lparr>d_quant_tbl_ptrs := (d_quant_tbl_ptrs c)
                        [nat n := Some \<lparr>quantval = fresh_quant s, sent_table = False\<rparr>]\<rparr>) s else s)
             in dqt_values prec (nat n) (take DCTSIZE2 jpeg_natural_order) s (\<lambda>s.
                  dqt_loop (len - (int DCTSIZE2 + 1) - (if prec then int DCTSIZE2 else 0)) s))
      else if len \<noteq> 0 then Inl (ErrExit JERR_BAD_LENGTH)
      else Inr (True, s))"
  by pat_completeness auto
termination by (relation "measure (nat \<circ> fst)") (auto simp: DCTSIZE2_def)

declare dqt_loop.simps [simp del]

definition get_dqt :: "decompressor \<Rightarrow> routine" where
  "get_dqt s = backtrack s (INPUT_2BYTES s (\<lambda>length s. dqt_loop (length - 2) s))"

definition get_dri :: "decompressor \<Rightarrow> routine" where
  "get_dri s = backtrack s (INPUT_2BYTES s (\<lambda>length s.
     if length \<noteq> 4 then Inl (ErrExit JERR_BAD_LENGTH)
     else INPUT_2BYTES s (\<lambda>tmp s. Inr (True, upd (\<lambda>c. c\<lparr>d_restart_interval := word_of_int tmp\<rparr>) s))))"

section \<open>APPn and COM markers\<close>

definition APP0_DATA_LEN :: int where "APP0_DATA_LEN = 14"
definition APP14_DATA_LEN :: int where "APP14_DATA_LEN = 12"
definition APPN_DATA_LEN :: int where "APPN_DATA_LEN = 14"

text \<open>Only the JFIF marker changes the state; for the others messages are issued.\<close>

definition examine_app0 :: "int list \<Rightarrow> decompressor \<Rightarrow> decompressor" where
  "examine_app0 dat s =
     (if APP0_DATA_LEN \<le> int (length dat) \<and> take 5 dat = [0x4A, 0x46, 0x49, 0x46, 0]
      then upd (\<lambda>c. c\<lparr>saw_JFIF_marker := True, d_JFIF_major_version := word_of_int (dat ! 5), d_JFIF_minor_version := word_of_int (dat ! 6),
             d_density_unit := word_of_int (dat ! 7), d_X_density := word_of_int (push_bit 8 (dat ! 8) + dat ! 9),
             d_Y_density := word_of_int (push_bit 8 (dat ! 10) + dat ! 11)\<rparr>) s
      else s)"

definition examine_app14 :: "int list \<Rightarrow> decompressor \<Rightarrow> decompressor" where
  "examine_app14 dat s =
     (if APP14_DATA_LEN \<le> int (length dat) \<and> take 5 dat = [0x41, 0x64, 0x6F, 0x62, 0x65]
      then upd (\<lambda>c. c\<lparr>saw_Adobe_marker := True, Adobe_transform := word_of_int (dat ! 11)\<rparr>) s else s)"

definition get_interesting_appn :: "decompressor \<Rightarrow> routine" where
  "get_interesting_appn s0 = backtrack s0 (INPUT_2BYTES s0 (\<lambda>length s.
     let length = length - 2; numtoread = (if APPN_DATA_LEN \<le> length then APPN_DATA_LEN else if 0 < length then length else 0)
     in INPUT_BYTES (nat numtoread) s (\<lambda>b s.
        let length = length - numtoread
        in if unread_marker s = M_APP0 then Inr (True, skip_input_data length (examine_app0 b s))
           else if unread_marker s = M_APP14 then Inr (True, skip_input_data length (examine_app14 b s))
           else Inl (ErrExit (JERR_UNKNOWN_MARKER (int (unread_marker s)))))))"

text \<open>
  Saving: the bytes are copied one by one here, not a bufferload at a time. A suspension in this
  loop keeps what has been read.
\<close>

fun save_bytes :: "nat \<Rightarrow> jpeg_marker_struct \<Rightarrow> decompressor \<Rightarrow> bool \<times> jpeg_marker_struct \<times> decompressor" where
  "save_bytes 0 m s = (True, m, s)"
| "save_bytes (Suc n) m s =
     (case next_byte s of
        None \<Rightarrow> (False, m, s)
      | Some (c, s) \<Rightarrow> save_bytes n (m\<lparr>saved_data := saved_data m @ [c]\<rparr>) s)"

definition save_limit :: "decompressor \<Rightarrow> u32" where
  "save_limit s = (if unread_marker s = M_COM then length_limit_COM s else length_limit_APPn s ! (unread_marker s - M_APP0))"

text \<open>What follows the reading: \<open>data\<close> and \<open>length\<close>, the number of bytes that are skipped.\<close>

definition process_saved :: "u8 list \<Rightarrow> int \<Rightarrow> decompressor \<Rightarrow> decompressor" where
  "process_saved dat len s =
     (let s = s\<lparr>cur_marker := None\<rparr>; b = map uint dat;
          s = (if unread_marker s = M_APP0 then examine_app0 b s
               else if unread_marker s = M_APP14 then examine_app14 b s else s)
      in skip_input_data len s)"

definition continue_saving :: "jpeg_marker_struct \<Rightarrow> decompressor \<Rightarrow> routine" where
  "continue_saving m s =
     (case save_bytes (unat (data_length m) - length (saved_data m)) m s of
        (False, m, s) \<Rightarrow> Inr (False, s\<lparr>cur_marker := Some m\<rparr>)
      | (True, m, s) \<Rightarrow>
          Inr (True, process_saved (saved_data m) (sint (original_length m - data_length m))
            (upd (\<lambda>c. c\<lparr>marker_list := marker_list c @ [m]\<rparr>) s)))"

definition save_marker :: "decompressor \<Rightarrow> routine" where
  "save_marker s0 =
     (case cur_marker s0 of
        Some m \<Rightarrow> continue_saving m s0
      | None \<Rightarrow>
          (case next_byte s0 of None \<Rightarrow> Inr (False, s0) | Some (h, s) \<Rightarrow>
          (case next_byte s of None \<Rightarrow> Inr (False, s0) | Some (l, s) \<Rightarrow>
           let length = push_bit 8 (uint h) + uint l - 2
           in if 0 \<le> length
              then let limit = (if word_of_int length < save_limit s then word_of_int length else save_limit s)
                   in continue_saving \<lparr>saved_marker = unread_marker s, original_length = word_of_int length,
                        data_length = limit, saved_data = []\<rparr> s
              else Inr (True, process_saved [] length s))))"

definition skip_variable :: "decompressor \<Rightarrow> routine" where
  "skip_variable s = backtrack s (INPUT_2BYTES s (\<lambda>length s. Inr (True, skip_input_data (length - 2) s)))"

definition call_method :: "marker_method \<Rightarrow> decompressor \<Rightarrow> routine" where
  "call_method m s = (case m of
       Skip_variable \<Rightarrow> skip_variable s
     | Get_interesting_appn \<Rightarrow> get_interesting_appn s
     | Save_marker \<Rightarrow> save_marker s)"

section \<open>The sequence of markers\<close>

definition first_marker :: "decompressor \<Rightarrow> routine" where
  "first_marker s0 = backtrack s0 (INPUT_BYTE s0 (\<lambda>c s. INPUT_BYTE s (\<lambda>c2 s.
     if c \<noteq> 0xFF \<or> c2 \<noteq> int M_SOI then Inl (ErrExit (JERR_NO_SOI c c2))
     else Inr (True, s\<lparr>unread_marker := nat c2\<rparr>))))"

text \<open>The cases of the \<open>switch\<close> other than SOS and EOI, which end \<open>read_markers\<close>.\<close>

definition process_marker :: "decompressor \<Rightarrow> routine" where
  "process_marker s =
     (let m = unread_marker s
      in if m = M_SOI then get_soi s
         else if m = M_SOF0 \<or> m = M_SOF1 then get_sof False False s
         else if m = M_SOF2 then get_sof True False s
         else if m = M_SOF9 then get_sof False True s
         else if m = M_SOF10 then get_sof True True s
         else if m \<in> {M_SOF3, M_SOF5, M_SOF6, M_SOF7, M_JPG, M_SOF11, M_SOF13, M_SOF14, M_SOF15}
         then Inl (ErrExit (JERR_SOF_UNSUPPORTED (int m)))
         else if m = M_DAC then get_dac s
         else if m = M_DHT then get_dht s
         else if m = M_DQT then get_dqt s
         else if m = M_DRI then get_dri s
         else if M_APP0 \<le> m \<and> m \<le> M_APP15 then call_method (process_APPn s ! (m - M_APP0)) s
         else if m = M_COM then call_method (process_COM s) s
         else if M_RST0 \<le> m \<and> m \<le> M_RST7 \<or> m = M_TEM then Inr (True, s)
         else if m = M_DNL then skip_variable s
         else Inl (ErrExit (JERR_UNKNOWN_MARKER (int m))))"

datatype read_status = JPEG_SUSPENDED | JPEG_REACHED_SOS | JPEG_REACHED_EOI | JPEG_ROW_COMPLETED | JPEG_SCAN_COMPLETED

definition obtain_marker :: "decompressor \<Rightarrow> routine" where
  "obtain_marker s =
     (if unread_marker s = 0 then (if saw_SOI s then Inr (next_marker s) else first_marker s) else Inr (True, s))"

text \<open>Reading a marker consumes input, so the loop over the markers ends.\<close>

definition shrinks :: "nat \<Rightarrow> routine \<Rightarrow> bool" where
  "shrinks n r \<longleftrightarrow> (\<forall>s'. r = Inr (True, s') \<longrightarrow> length (upcoming s') \<le> n)"

named_theorems shrink_rules

lemma shrinks_simps [shrink_rules]:
  "shrinks n (Inl e)" "shrinks n (Inr (False, s))"
  "length (upcoming s) \<le> n \<Longrightarrow> shrinks n (Inr (ok, s))"
  by (simp_all add: shrinks_def)

lemma shrinks_BYTE [shrink_rules]:
  "length (upcoming s) \<le> n \<Longrightarrow> (\<And>v s'. length (upcoming s') \<le> n \<Longrightarrow> shrinks n (f v s')) \<Longrightarrow> shrinks n (INPUT_BYTE s f)"
proof (cases "next_byte s")
  case (Some p)
  assume l: "length (upcoming s) \<le> n" and f: "\<And>v s'. length (upcoming s') \<le> n \<Longrightarrow> shrinks n (f v s')"
  obtain c s' where p: "next_byte s = Some (c, s')" using Some by (cases p) auto
  then have "length (upcoming s') \<le> n" using l next_byte_less [of s c s'] by simp
  then show ?thesis using f p by (simp add: INPUT_BYTE_def)
qed (simp add: INPUT_BYTE_def shrinks_simps)

lemma shrinks_2BYTES [shrink_rules]:
  "length (upcoming s) \<le> n \<Longrightarrow> (\<And>v s'. length (upcoming s') \<le> n \<Longrightarrow> shrinks n (f v s')) \<Longrightarrow> shrinks n (INPUT_2BYTES s f)"
  unfolding INPUT_2BYTES_def by (intro shrinks_BYTE) auto

lemma shrinks_BYTES [shrink_rules]:
  "length (upcoming s) \<le> n \<Longrightarrow> (\<And>v s'. length (upcoming s') \<le> n \<Longrightarrow> shrinks n (f v s')) \<Longrightarrow> shrinks n (INPUT_BYTES k s f)"
proof (induction k arbitrary: s f)
  case (Suc k)
  then show ?case by (simp, intro shrinks_BYTE) auto
qed simp

lemma shrinks_backtrack [shrink_rules]: "shrinks n r \<Longrightarrow> shrinks n (backtrack s r)"
  by (auto simp: shrinks_def backtrack_def split: sum.splits if_splits)

lemma shrinks_if [shrink_rules]: "(c \<Longrightarrow> shrinks n a) \<Longrightarrow> (\<not> c \<Longrightarrow> shrinks n b) \<Longrightarrow> shrinks n (if c then a else b)"
  by simp

lemma shrinks_Let [shrink_rules]: "(\<And>x. x = y \<Longrightarrow> shrinks n (f x)) \<Longrightarrow> shrinks n (Let y f)"
  by simp

lemma skip_bytes_drop: "fst (skip_bytes n buf bs) @ concat (snd (skip_bytes n buf bs)) = drop n (buf @ concat bs)"
  by (induction n buf bs rule: skip_bytes.induct) auto

lemma upcoming_skip [simp]: "upcoming (skip_input_data k s) = drop (nat k) (upcoming s)"
  using skip_bytes_drop [of "nat k" "input s" "fills s"]
  by (cases "skip_bytes (nat k) (input s) (fills s)") (simp add: skip_input_data_def upcoming_def)

lemma upcoming_examine [simp]: "upcoming (examine_app0 b s) = upcoming s" "upcoming (examine_app14 b s) = upcoming s"
  by (simp_all add: examine_app0_def examine_app14_def)

lemma upcoming_fields [simp]:
  "upcoming (s\<lparr>saw_SOI := x\<rparr>) = upcoming s" "upcoming (s\<lparr>saw_SOF := x\<rparr>) = upcoming s" "upcoming (s\<lparr>cur_marker := m\<rparr>) = upcoming s"
  by (simp_all add: upcoming_def)

lemma shrinks_sof [shrink_rules]:
  "length (upcoming s) \<le> n \<Longrightarrow> (\<And>s'. length (upcoming s') \<le> n \<Longrightarrow> shrinks n (f s')) \<Longrightarrow> shrinks n (sof_components cis s f)"
proof (induction cis arbitrary: s)
  case (Cons ci cis)
  then show ?case by (simp, intro shrinks_BYTE) auto
qed simp

lemma shrinks_sos [shrink_rules]:
  "length (upcoming s) \<le> n \<Longrightarrow> (\<And>s'. length (upcoming s') \<le> n \<Longrightarrow> shrinks n (f s')) \<Longrightarrow> shrinks n (sos_components is s f)"
proof (induction "is" arbitrary: s)
  case (Cons i "is")
  then show ?case
    by (simp add: Let_def split: option.split, intro shrinks_BYTE) (auto simp: shrinks_simps split: option.split)
qed simp

lemma shrinks_values [shrink_rules]:
  "length (upcoming s) \<le> n \<Longrightarrow> (\<And>s'. length (upcoming s') \<le> n \<Longrightarrow> shrinks n (f s')) \<Longrightarrow> shrinks n (dqt_values prec q ps s f)"
proof (induction ps arbitrary: s)
  case (Cons p ps)
  then show ?case by (simp, intro conjI impI shrinks_BYTE shrinks_2BYTES) auto
qed simp

lemma shrinks_dac: "length (upcoming s) \<le> n \<Longrightarrow> shrinks n (dac_loop len s)"
proof (induction "nat len" arbitrary: len s rule: less_induct)
  case less
  show ?case
    by (subst dac_loop.simps, intro shrink_rules less) (auto simp: Let_def)
qed

lemma shrinks_dht: "length (upcoming s) \<le> n \<Longrightarrow> shrinks n (dht_loop len s)"
proof (induction "nat len" arbitrary: len s rule: less_induct)
  case less
  show ?case
    by (subst dht_loop.simps, intro shrink_rules less) (auto simp: Let_def)
qed

lemma shrinks_dqt: "length (upcoming s) \<le> n \<Longrightarrow> shrinks n (dqt_loop len s)"
proof (induction "nat len" arbitrary: len s rule: less_induct)
  case less
  show ?case
    by (subst dqt_loop.simps, intro shrink_rules less) (auto simp: Let_def DCTSIZE2_def)
qed

lemma shrinks_save: "save_bytes k m s = (ok, m', s') \<Longrightarrow> length (upcoming s') \<le> length (upcoming s)"
proof (induction k m s rule: save_bytes.induct)
  case (2 n m s)
  show ?case
  proof (cases "next_byte s")
    case (Some p)
    obtain c t where p: "next_byte s = Some (c, t)" using Some by (cases p) auto
    then have "length (upcoming s') \<le> length (upcoming t)" using "2.IH" [OF p refl] "2.prems" by simp
    then show ?thesis using next_byte_less [OF p] by simp
  qed (use 2 in simp)
qed simp

lemma shrinks_continue:
  assumes "length (upcoming s) \<le> n"
  shows "shrinks n (continue_saving m s)"
proof -
  obtain ok m' s' where p: "save_bytes (unat (data_length m) - length (saved_data m)) m s = (ok, m', s')" by (cases rule: prod_cases3)
  then have "length (upcoming s') \<le> n" using shrinks_save [OF p] assms by simp
  then show ?thesis by (cases ok) (simp_all add: continue_saving_def p shrinks_def process_saved_def Let_def)
qed

lemma shrinks_save_marker: "shrinks (length (upcoming s)) (save_marker s)"
proof (cases "cur_marker s")
  case None
  show ?thesis
  proof (cases "next_byte s")
    case h: (Some p)
    obtain c t where p: "next_byte s = Some (c, t)" using h by (cases p) auto
    show ?thesis
    proof (cases "next_byte t")
      case l: (Some q)
      obtain d u where q: "next_byte t = Some (d, u)" using l by (cases q) auto
      have "length (upcoming u) \<le> length (upcoming s)" using next_byte_less [OF p] next_byte_less [OF q] by simp
      then show ?thesis using None p q
        by (simp add: save_marker_def Let_def process_saved_def shrinks_simps shrinks_continue)
    qed (use None p in \<open>simp add: save_marker_def shrinks_simps\<close>)
  qed (use None in \<open>simp add: save_marker_def shrinks_simps\<close>)
qed (simp add: save_marker_def shrinks_continue)

lemma shrinks_routines [shrink_rules]:
  "shrinks (length (upcoming s)) (get_soi s)"
  "shrinks (length (upcoming s)) (get_sof p a s)"
  "shrinks (length (upcoming s)) (get_dac s)"
  "shrinks (length (upcoming s)) (get_dht s)"
  "shrinks (length (upcoming s)) (get_dqt s)"
  "shrinks (length (upcoming s)) (get_dri s)"
  "shrinks (length (upcoming s)) (skip_variable s)"
  by (unfold get_soi_def get_sof_def sof_checks_def get_dac_def get_dht_def get_dqt_def get_dri_def skip_variable_def;
      intro shrink_rules shrinks_dac shrinks_dht shrinks_dqt; simp)+

lemma shrinks_interesting [shrink_rules]: "shrinks (length (upcoming s)) (get_interesting_appn s)"
  unfolding get_interesting_appn_def by (intro shrink_rules) simp_all

lemma shrinks_process: "shrinks (length (upcoming s)) (process_marker s)"
proof -
  have "shrinks (length (upcoming s)) (call_method m s)" for m
    by (cases m) (simp_all add: call_method_def shrink_rules shrinks_save_marker)
  then show ?thesis unfolding process_marker_def Let_def by (intro shrink_rules) simp_all
qed

definition marker_work :: "decompressor \<Rightarrow> nat" where
  "marker_work s = 2 * length (upcoming s) + (if unread_marker s = 0 then 0 else 1)"

lemma obtain_marker_less:
  assumes "obtain_marker s = Inr (True, t)"
  shows "2 * length (upcoming t) < marker_work s"
proof (cases "unread_marker s = 0")
  case True
  have "length (upcoming t) < length (upcoming s)"
  proof (cases "saw_SOI s")
    case True
    then have "next_marker s = (True, t)" using assms \<open>unread_marker s = 0\<close> by (simp add: obtain_marker_def)
    then show ?thesis using next_marker_True by fastforce
  next
    case False
    then have f: "first_marker s = Inr (True, t)" using assms \<open>unread_marker s = 0\<close> by (simp add: obtain_marker_def)
    then show ?thesis
      by (auto simp: first_marker_def INPUT_BYTE_def backtrack_def split: option.splits if_splits dest!: next_byte_less)
  qed
  then show ?thesis using True by (simp add: marker_work_def)
qed (use assms in \<open>simp add: obtain_marker_def marker_work_def\<close>)

function read_markers :: "decompressor \<Rightarrow> fault + (read_status \<times> decompressor)" where
  "read_markers s =
     ebind (obtain_marker s) (\<lambda>(ok, s).
     if \<not> ok then Inr (JPEG_SUSPENDED, s)
     else if unread_marker s = M_SOS
     then ebind (get_sos s) (\<lambda>(ok, s).
       if ok then Inr (JPEG_REACHED_SOS, s\<lparr>unread_marker := 0\<rparr>) else Inr (JPEG_SUSPENDED, s))
     else if unread_marker s = M_EOI then Inr (JPEG_REACHED_EOI, s\<lparr>unread_marker := 0\<rparr>)
     else ebind (process_marker s) (\<lambda>(ok, s).
       if ok then read_markers (s\<lparr>unread_marker := 0\<rparr>) else Inr (JPEG_SUSPENDED, s)))"
  by pat_completeness auto
termination
proof (relation "measure marker_work")
  fix s p ok t q ok2 u
  assume "obtain_marker s = Inr p" "(ok, t) = p" "\<not> \<not> ok" "process_marker t = Inr q" "(ok2, u) = q" ok2
  then have "obtain_marker s = Inr (True, t)" "process_marker t = Inr (True, u)" by auto
  then have "2 * length (upcoming t) < marker_work s" "length (upcoming u) \<le> length (upcoming t)"
    using shrinks_process [of t] by (auto simp: obtain_marker_less shrinks_def)
  then show "(u\<lparr>unread_marker := 0\<rparr>, s) \<in> measure marker_work" by (simp add: marker_work_def)
qed simp

declare read_markers.simps [simp del]

section \<open>Initialisation and application control\<close>

definition reset_marker_reader :: "decompressor \<Rightarrow> decompressor" where
  "reset_marker_reader s = (upd (\<lambda>c. c\<lparr>d_comp_info := [], input_scan_number := 0\<rparr>) s)
     \<lparr>unread_marker := 0, saw_SOI := False, saw_SOF := False, discarded_bytes := 0, cur_marker := None\<rparr>"

definition jinit_marker_reader :: "decompressor \<Rightarrow> decompressor" where
  "jinit_marker_reader s = reset_marker_reader (s\<lparr>process_COM := Skip_variable, length_limit_COM := 0,
     process_APPn := (replicate 16 Skip_variable)[0 := Get_interesting_appn, 14 := Get_interesting_appn],
     length_limit_APPn := replicate 16 0\<rparr>)"

text \<open>
  \<open>maxlength\<close> is \<open>max_alloc_chunk\<close> less the size of a \<open>jpeg_marker_struct\<close>; a limit of \<open>2 ^ 31\<close> or
  more is negative as a \<open>long\<close> and so not reduced to it.
\<close>

definition jpeg_save_markers :: "int \<Rightarrow> int \<Rightarrow> u32 \<Rightarrow> decompressor \<Rightarrow> fault + decompressor" where
  "jpeg_save_markers maxlength marker_code length_limit s =
     (let length_limit = (if maxlength < sint length_limit then word_of_int maxlength else length_limit);
          (processor, length_limit) =
            (if length_limit \<noteq> 0
             then (Save_marker,
                   if marker_code = int M_APP0 \<and> length_limit < word_of_int APP0_DATA_LEN then word_of_int APP0_DATA_LEN
                   else if marker_code = int M_APP14 \<and> length_limit < word_of_int APP14_DATA_LEN then word_of_int APP14_DATA_LEN
                   else length_limit)
             else (if marker_code = int M_APP0 \<or> marker_code = int M_APP14 then Get_interesting_appn else Skip_variable,
                   length_limit))
      in if marker_code = int M_COM then Inr (s\<lparr>process_COM := processor, length_limit_COM := length_limit\<rparr>)
         else if int M_APP0 \<le> marker_code \<and> marker_code \<le> int M_APP15
         then Inr (s\<lparr>process_APPn := (process_APPn s)[nat marker_code - M_APP0 := processor],
                     length_limit_APPn := (length_limit_APPn s)[nat marker_code - M_APP0 := length_limit]\<rparr>)
         else Inl (ErrExit (JERR_UNKNOWN_MARKER marker_code)))"

text \<open>Here the routine is one of the library's own; an application may install any other.\<close>

definition jpeg_set_marker_processor :: "int \<Rightarrow> marker_method \<Rightarrow> decompressor \<Rightarrow> fault + decompressor" where
  "jpeg_set_marker_processor marker_code routine s =
     (if marker_code = int M_COM then Inr (s\<lparr>process_COM := routine\<rparr>)
      else if int M_APP0 \<le> marker_code \<and> marker_code \<le> int M_APP15
      then Inr (s\<lparr>process_APPn := (process_APPn s)[nat marker_code - M_APP0 := routine]\<rparr>)
      else Inl (ErrExit (JERR_UNKNOWN_MARKER marker_code)))"

end
