(* ===== verification/Jdflat.thy ===== *)
theory Jdflat imports Jdmarker begin

text \<open>
  What the marker reader does depends on the bytes of the source, not on how the source splits them
  into buffers: \<open>flat s\<close> is \<open>s\<close> with all its bytes in one buffer.
\<close>

definition flat :: "decompressor \<Rightarrow> decompressor" where
  "flat s = s\<lparr>input := upcoming s, fills := []\<rparr>"

definition flat_res :: "routine \<Rightarrow> routine" where
  "flat_res r = map_sum id (\<lambda>(ok, s). (ok, flat s)) r"

lemma flat_res_simps [simp]: "flat_res (Inl e) = Inl e" "flat_res (Inr (ok, s)) = Inr (ok, flat s)"
  by (simp_all add: flat_res_def)

lemma flat_fields [simp]:
  "flat (upd f s) = upd f (flat s)" "flat (upd_comp i g s) = upd_comp i g (flat s)" "dinfo (flat s) = dinfo s"
  "unread_marker (flat s) = unread_marker s" "saw_SOI (flat s) = saw_SOI s" "saw_SOF (flat s) = saw_SOF s"
  "flat (s\<lparr>unread_marker := m\<rparr>) = (flat s)\<lparr>unread_marker := m\<rparr>" "flat (s\<lparr>saw_SOI := b\<rparr>) = (flat s)\<lparr>saw_SOI := b\<rparr>"
  "flat (s\<lparr>saw_SOF := b\<rparr>) = (flat s)\<lparr>saw_SOF := b\<rparr>" "flat (s\<lparr>next_restart_num := n\<rparr>) = (flat s)\<lparr>next_restart_num := n\<rparr>"
  "flat (s\<lparr>cur_marker := c\<rparr>) = (flat s)\<lparr>cur_marker := c\<rparr>" "flat (s\<lparr>discarded_bytes := d\<rparr>) = (flat s)\<lparr>discarded_bytes := d\<rparr>"
  "fresh_quant (flat s) = fresh_quant s" "fresh_comp (flat s) = fresh_comp s" "cur_marker (flat s) = cur_marker s"
  "process_COM (flat s) = process_COM s" "process_APPn (flat s) = process_APPn s" "discarded_bytes (flat s) = discarded_bytes s"
  "save_limit (flat s) = save_limit s" "upcoming (flat s) = upcoming s" "live (flat s)"
  by (simp_all add: flat_def upd_def upd_comp_def upcoming_def save_limit_def live_def)

lemma live_fields [simp]:
  "live (s\<lparr>saw_SOI := b\<rparr>) = live s" "live (s\<lparr>saw_SOF := b\<rparr>) = live s" "live (s\<lparr>cur_marker := c\<rparr>) = live s"
  by (simp_all add: live_def)

text \<open>\<open>reads r r'\<close>: \<open>r'\<close> is \<open>r\<close> flattened.\<close>

definition reads :: "routine \<Rightarrow> routine \<Rightarrow> bool" where
  "reads r r' \<longleftrightarrow> flat_res r = r' \<and> (\<forall>ok t. r = Inr (ok, t) \<longrightarrow> live t)"

lemma reads_simps [simp]:
  "reads (Inl e) r' \<longleftrightarrow> r' = Inl e" "reads (Inr (ok, s)) r' \<longleftrightarrow> r' = Inr (ok, flat s) \<and> live s"
  by (auto simp: reads_def)

named_theorems flat_rules

lemma next_byte_flat:
  assumes "live s"
  shows "next_byte (flat s) = map_option (\<lambda>(c, s'). (c, flat s')) (next_byte s)"
proof (cases "next_byte s")
  case None
  then have "upcoming s = []" using assms by (auto simp: next_byte_def upcoming_def live_def split: list.splits)
  then show ?thesis using None by (simp add: next_byte_def flat_def)
next
  case (Some p)
  obtain c s' where p: "p = (c, s')" by (cases p)
  note n = next_byte_Some [OF Some [unfolded p]]
  have "flat s' = (s\<lparr>input := input s', fills := fills s'\<rparr>)\<lparr>input := upcoming s', fills := []\<rparr>"
    unfolding flat_def by (rule arg_cong [of s' _ "\<lambda>x. x\<lparr>input := upcoming s', fills := []\<rparr>"]) (use n in \<open>simp add: same_decoder_def\<close>)
  then have "flat s' = (flat s)\<lparr>input := upcoming s'\<rparr>" by (simp add: flat_def)
  then show ?thesis using n Some p by (simp add: next_byte_def flat_def)
qed


lemma flat_BYTE [flat_rules]:
  assumes "live s" "t = flat s" "\<And>v s'. live s' \<Longrightarrow> reads (f v s') (f v (flat s'))"
  shows "reads (INPUT_BYTE s f) (INPUT_BYTE t f)"
proof (cases "next_byte s")
  case (Some p)
  obtain c s' where p: "p = (c, s')" by (cases p)
  then have "live s'" using next_byte_Some Some assms(1) by blast
  then show ?thesis using assms(2,3) next_byte_flat [OF assms(1)] Some p by (simp add: INPUT_BYTE_def)
qed (simp add: INPUT_BYTE_def next_byte_flat [OF assms(1)] assms)

lemma flat_2BYTES [flat_rules]:
  "live s \<Longrightarrow> t = flat s \<Longrightarrow> (\<And>v s'. live s' \<Longrightarrow> reads (f v s') (f v (flat s'))) \<Longrightarrow>
   reads (INPUT_2BYTES s f) (INPUT_2BYTES t f)"
  unfolding INPUT_2BYTES_def by (intro flat_BYTE) simp_all

lemma flat_BYTES [flat_rules]:
  "live s \<Longrightarrow> t = flat s \<Longrightarrow> (\<And>v s'. live s' \<Longrightarrow> reads (f v s') (f v (flat s'))) \<Longrightarrow>
   reads (INPUT_BYTES k s f) (INPUT_BYTES k t f)"
proof (induction k arbitrary: s f t)
  case (Suc k)
  then show ?case by (simp, intro flat_BYTE) auto
qed simp

lemma flat_backtrack [flat_rules]: "live s \<Longrightarrow> t = flat s \<Longrightarrow> reads r r' \<Longrightarrow> reads (backtrack s r) (backtrack t r')"
  by (auto simp: reads_def backtrack_def flat_res_def flat_def upcoming_def live_def split: sum.splits)

lemma flat_if [flat_rules]:
  "c' = c \<Longrightarrow> (c \<Longrightarrow> reads a a') \<Longrightarrow> (\<not> c \<Longrightarrow> reads b b') \<Longrightarrow> reads (if c then a else b) (if c' then a' else b')"
  by simp

lemma flat_sof [flat_rules]:
  "cis' = cis \<Longrightarrow> live s \<Longrightarrow> t = flat s \<Longrightarrow> (\<And>s'. live s' \<Longrightarrow> reads (f s') (f (flat s'))) \<Longrightarrow>
   reads (sof_components cis s f) (sof_components cis' t f)"
proof (induction cis arbitrary: cis' s t)
  case (Cons ci cis)
  show ?case unfolding Cons.prems(1) by (simp only: sof_components.simps, intro flat_BYTE Cons) (simp_all add: Cons.prems)
qed simp

lemma flat_sos [flat_rules]:
  "live s \<Longrightarrow> t = flat s \<Longrightarrow> (\<And>s'. live s' \<Longrightarrow> reads (f s') (f (flat s'))) \<Longrightarrow>
   reads (sos_components is s f) (sos_components is t f)"
proof (induction "is" arbitrary: s t)
  case (Cons i "is")
  have "reads (case find_comp cc (dinfo s') of None \<Rightarrow> Inl (ErrExit (JERR_BAD_COMPONENT_ID cc)) | Some ci \<Rightarrow> h ci s') ((case find_comp cc (dinfo (flat s')) of None \<Rightarrow> Inl (ErrExit (JERR_BAD_COMPONENT_ID cc)) | Some ci \<Rightarrow> h ci (flat s')))"
    if "\<And>ci. reads (h ci s') (h ci (flat s'))" for cc s' h
    using that by (simp split: option.split)
  note case_rule = this
  show ?case by (simp only: sos_components.simps Let_def, intro flat_BYTE case_rule flat_if Cons) (simp_all add: Cons.prems)
qed simp

lemma flat_values [flat_rules]:
  "live s \<Longrightarrow> t = flat s \<Longrightarrow> (\<And>s'. live s' \<Longrightarrow> reads (f s') (f (flat s'))) \<Longrightarrow>
   reads (dqt_values prec q ps s f) (dqt_values prec q ps t f)"
proof (induction ps arbitrary: s t)
  case (Cons p ps)
  show ?case by (simp only: dqt_values.simps, intro flat_BYTE flat_2BYTES flat_if Cons) (simp_all add: Cons.prems)
qed simp

lemma live_skip [simp]: "live s \<Longrightarrow> live (skip_input_data k s)"
proof -
  have "set (snd (skip_bytes n buf bs)) \<subseteq> set bs" for n buf bs
    by (induction n buf bs rule: skip_bytes.induct) auto
  from this [of "nat k" "input s" "fills s"] show "live s \<Longrightarrow> live (skip_input_data k s)"
    by (auto simp: skip_input_data_def live_def split: prod.split)
qed

lemma live_examine [simp]: "live (examine_app0 b s) = live s" "live (examine_app14 b s) = live s"
  by (simp_all add: examine_app0_def examine_app14_def)

lemma live_process_saved [simp]: "live s \<Longrightarrow> live (process_saved b k s)"
  by (simp add: process_saved_def Let_def)

lemma flat_skip [simp]: "flat (skip_input_data k s) = skip_input_data k (flat s)"
proof -
  have "flat (skip_input_data k s) = (skip_input_data k s)\<lparr>input := upcoming (skip_input_data k s), fills := []\<rparr>" by (simp add: flat_def)
  also have "\<dots> = s\<lparr>input := drop (nat k) (upcoming s), fills := []\<rparr>"
    unfolding upcoming_skip by (simp add: skip_input_data_def split: prod.split)
  also have "\<dots> = skip_input_data k (flat s)" by (simp add: flat_def skip_input_data_def)
  finally show ?thesis .
qed

lemma flat_examine [simp]: "flat (examine_app0 b s) = examine_app0 b (flat s)" "flat (examine_app14 b s) = examine_app14 b (flat s)"
  by (simp_all add: examine_app0_def examine_app14_def)

lemma flat_process_saved [simp]: "flat (process_saved b k s) = process_saved b k (flat s)"
  by (simp add: process_saved_def Let_def)

lemma flat_dac: "live s \<Longrightarrow> t = flat s \<Longrightarrow> reads (dac_loop len s) (dac_loop len t)"
proof (induction "nat len" arbitrary: len s t rule: less_induct)
  case less
  show ?case
    by (subst (1 2) dac_loop.simps, simp only: Let_def, intro flat_rules less) (simp_all add: less.prems)
qed

lemma flat_dht: "live s \<Longrightarrow> t = flat s \<Longrightarrow> reads (dht_loop len s) (dht_loop len t)"
proof (induction "nat len" arbitrary: len s t rule: less_induct)
  case less
  show ?case
    by (subst (1 2) dht_loop.simps, simp only: Let_def, intro flat_rules less) (simp_all add: less.prems)
qed

lemma flat_dqt: "live s \<Longrightarrow> t = flat s \<Longrightarrow> reads (dqt_loop len s) (dqt_loop len t)"
proof (induction "nat len" arbitrary: len s t rule: less_induct)
  case less
  show ?case
    by (subst (1 2) dqt_loop.simps, simp only: Let_def, intro flat_rules less) (simp_all add: less.prems DCTSIZE2_def)
qed

lemma skip_ff_flat: "live (s :: decompressor) \<Longrightarrow> skip_ff (flat s) = map_option (\<lambda>(c, s'). (c, flat s')) (skip_ff s)"
proof (induction s rule: skip_ff.induct)
  case (1 s)
  show ?case
  proof (cases "next_byte s")
    case None
    then show ?thesis by (simp add: skip_ff.simps [of s] skip_ff.simps [of "flat s"] next_byte_flat "1.prems")
  next
    case (Some p)
    obtain c t where p: "next_byte s = Some (c, t)" using Some by (cases p) auto
    then have "live t" using next_byte_Some "1.prems" by blast
    then show ?thesis using "1.IH" [OF p refl] p
      by (simp add: skip_ff.simps [of s] skip_ff.simps [of "flat s"] next_byte_flat "1.prems")
  qed
qed

lemma next_marker_flat: "live (s :: decompressor) \<Longrightarrow> next_marker (flat s) = (\<lambda>(ok, s'). (ok, flat s')) (next_marker s)"
proof (induction s rule: next_marker.induct)
  case (1 s)
  note nb = next_byte_flat [OF "1.prems"]
  show ?case
  proof (cases "next_byte s")
    case None
    then show ?thesis by (simp add: next_marker.simps [of s] next_marker.simps [of "flat s"] nb)
  next
    case (Some p)
    obtain c t where p: "next_byte s = Some (c, t)" using Some by (cases p) auto
    then have l: "live t" using next_byte_Some "1.prems" by blast
    show ?thesis
    proof (cases "c = 0xFF")
      case False
      then show ?thesis using "1.IH"(1) [OF p refl False] p l
        by (simp add: next_marker.simps [of s] next_marker.simps [of "flat s"] nb)
    next
      case True
      note sf = skip_ff_flat [OF l]
      show ?thesis
      proof (cases "skip_ff t")
        case None
        then show ?thesis using p True sf by (simp add: next_marker.simps [of s] next_marker.simps [of "flat s"] nb)
      next
        case q: (Some q)
        obtain d u where q: "skip_ff t = Some (d, u)" using q by (cases q) auto
        then have "live u" using skip_ff_Some l by blast
        then show ?thesis using "1.IH"(2) [OF p refl _ q refl] p True sf q
          by (cases "d = 0") (simp_all add: next_marker.simps [of s] next_marker.simps [of "flat s"] nb)
      qed
    qed
  qed
qed

lemma next_marker_live: "live s \<Longrightarrow> live (snd (next_marker s))"
proof (induction s rule: next_marker.induct)
  case (1 s)
  show ?case
  proof (cases "next_byte s")
    case (Some p)
    obtain c t where p: "next_byte s = Some (c, t)" using Some by (cases p) auto
    then have l: "live t" using next_byte_Some "1.prems" by blast
    show ?thesis
    proof (cases "skip_ff t")
      case None
      then show ?thesis using p "1.IH"(1) [OF p refl] "1.prems" l by (simp add: next_marker.simps [of s])
    next
      case q: (Some q)
      obtain d u where q: "skip_ff t = Some (d, u)" using q by (cases q) auto
      then have "live u" using skip_ff_Some l by blast
      then show ?thesis using "1.IH"(1) [OF p refl] "1.IH"(2) [OF p refl _ q refl] p q l
        by (cases "c = 0xFF"; cases "d = 0") (simp_all add: next_marker.simps [of s])
    qed
  qed (use "1.prems" in \<open>simp add: next_marker.simps [of s]\<close>)
qed

lemma save_bytes_live: "live s \<Longrightarrow> save_bytes n m s = (ok, m', s') \<Longrightarrow> live s'"
proof (induction n m s rule: save_bytes.induct)
  case (2 n m s)
  show ?case
  proof (cases "next_byte s")
    case (Some p)
    obtain c t where p: "next_byte s = Some (c, t)" using Some by (cases p) auto
    then have "live t" using next_byte_Some "2.prems"(1) by blast
    then show ?thesis using "2.IH" [OF p refl] "2.prems" p by simp
  qed (use "2.prems" in simp)
qed simp

lemma save_bytes_flat:
  "live s \<Longrightarrow> save_bytes n m (flat s) = (\<lambda>(ok, m', s'). (ok, m', flat s')) (save_bytes n m s)"
proof (induction n m s rule: save_bytes.induct)
  case (2 n m s)
  show ?case
  proof (cases "next_byte s")
    case (Some p)
    obtain c t where p: "next_byte s = Some (c, t)" using Some by (cases p) auto
    then have "live t" using next_byte_Some "2.prems" by blast
    then show ?thesis using "2.IH" [OF p refl] p by (simp add: next_byte_flat "2.prems")
  qed (simp add: next_byte_flat "2.prems")
qed simp

lemma flat_continue [flat_rules]: "live s \<Longrightarrow> t = flat s \<Longrightarrow> reads (continue_saving m s) (continue_saving m t)"
  using save_bytes_live [of s] unfolding continue_saving_def by (auto simp: save_bytes_flat split: prod.split bool.split)

lemma flat_save_marker: "live s \<Longrightarrow> reads (save_marker s) (save_marker (flat s))"
proof (cases "cur_marker s")
  case None
  assume l: "live s"
  show ?thesis
  proof (cases "next_byte s")
    case h: (Some p)
    obtain c t where p: "next_byte s = Some (c, t)" using h by (cases p) auto
    then have lt: "live t" using next_byte_Some l by blast
    show ?thesis
    proof (cases "next_byte t")
      case q: (Some q)
      obtain d u where q: "next_byte t = Some (d, u)" using q by (cases q) auto
      then have "live u" using next_byte_Some lt by blast
      then show ?thesis using None p q by (simp add: save_marker_def Let_def next_byte_flat l lt flat_continue)
    qed (use None p in \<open>simp add: save_marker_def next_byte_flat l lt\<close>)
  qed (use None in \<open>simp add: save_marker_def next_byte_flat l\<close>)
qed (simp add: save_marker_def flat_continue)

lemma flat_routines:
  assumes "live s"
  shows "reads (get_soi s) (get_soi (flat s))" "reads (get_sof p a s) (get_sof p a (flat s))"
    "reads (get_sos s) (get_sos (flat s))" "reads (get_dac s) (get_dac (flat s))" "reads (get_dht s) (get_dht (flat s))"
    "reads (get_dqt s) (get_dqt (flat s))" "reads (get_dri s) (get_dri (flat s))"
    "reads (get_interesting_appn s) (get_interesting_appn (flat s))"
    "reads (skip_variable s) (skip_variable (flat s))" "reads (first_marker s) (first_marker (flat s))"
  by (unfold get_soi_def get_sof_def sof_checks_def get_sos_def get_dac_def get_dht_def get_dqt_def get_dri_def
      get_interesting_appn_def skip_variable_def first_marker_def Let_def;
      intro flat_rules flat_dac flat_dht flat_dqt; simp add: assms)+

lemma flat_method: "live s \<Longrightarrow> reads (call_method m s) (call_method m (flat s))"
  by (cases m) (simp_all add: call_method_def flat_routines flat_save_marker)

lemma flat_process: "live s \<Longrightarrow> reads (process_marker s) (process_marker (flat s))"
  unfolding process_marker_def Let_def by (intro flat_if) (simp_all add: flat_routines flat_method)

lemma flat_obtain: "live s \<Longrightarrow> reads (obtain_marker s) (obtain_marker (flat s))"
  using flat_routines(10) [of s] next_marker_live [of s] by (auto simp: obtain_marker_def next_marker_flat split: prod.split)


definition same_bytes :: "decompressor \<Rightarrow> decompressor \<Rightarrow> bool" where
  "same_bytes s t \<longleftrightarrow> live s \<and> live t \<and> flat s = flat t"

definition same_outcome :: "fault + (read_status \<times> decompressor) \<Rightarrow> fault + (read_status \<times> decompressor) \<Rightarrow> bool" where
  "same_outcome r r' \<longleftrightarrow> map_sum id (apsnd flat) r = map_sum id (apsnd flat) r'"

lemma readsD: "reads r r' \<Longrightarrow> r' = flat_res r" "reads r r' \<Longrightarrow> r = Inr (ok, t) \<Longrightarrow> live t"
  by (simp_all add: reads_def)

lemma read_markers_flat: "live s \<Longrightarrow> map_sum id (apsnd flat) (read_markers s) = read_markers (flat s)"
proof (induction s rule: read_markers.induct)
  case (1 s)
  note O = flat_obtain [OF "1.prems"]
  show ?case
  proof (cases "obtain_marker s")
    case (Inl e)
    then show ?thesis using readsD(1) [OF O] by (simp add: read_markers.simps [of s] read_markers.simps [of "flat s"])
  next
    case (Inr p)
    obtain ok t where p: "obtain_marker s = Inr (ok, t)" using Inr by (cases p) auto
    then have lt: "live t" and ot: "obtain_marker (flat s) = Inr (ok, flat t)" using readsD [OF O] by simp_all
    show ?thesis
    proof (cases "ok \<and> unread_marker t \<noteq> M_SOS \<and> unread_marker t \<noteq> M_EOI")
      case False
      then show ?thesis using p ot readsD(1) [OF flat_routines(3) [OF lt]]
        by (cases "get_sos t") (auto simp: read_markers.simps [of s] read_markers.simps [of "flat s"])
    next
      case True
      note P = flat_process [OF lt]
      show ?thesis
      proof (cases "process_marker t")
        case (Inl e)
        then show ?thesis using p ot True readsD(1) [OF P]
          by (simp add: read_markers.simps [of s] read_markers.simps [of "flat s"])
      next
        case (Inr q)
        obtain ok2 u where q: "process_marker t = Inr (ok2, u)" using Inr by (cases q) auto
        then have "live u" and pt: "process_marker (flat t) = Inr (ok2, flat u)" using readsD [OF P] by simp_all
        then show ?thesis using "1.IH" [OF p refl _ _ _ q refl] True p ot q
          by (cases ok2) (simp_all add: read_markers.simps [of s] read_markers.simps [of "flat s"])
      qed
    qed
  qed
qed

text \<open>
  C14. The result of \<open>read_markers\<close> does not depend on how the source splits the data into buffers: two
  objects that differ only in that end with the same status or error exit, and in the same state
  but for the buffers, with the same bytes still to come.
\<close>

theorem read_markers_buffering:
  assumes "same_bytes s t"
  shows "same_outcome (read_markers s) (read_markers t)"
  using assms read_markers_flat [of s] read_markers_flat [of t]
  by (simp add: same_bytes_def same_outcome_def)

text \<open>A restart interval between SOI and EOI, in one buffer and in buffers of one byte.\<close>

definition dri_bytes :: "u8 list" where
  "dri_bytes = [0xFF, 0xD8, 0xFF, 0xDD, 0, 4, 1, 2, 0xFF, 0xD9]"

theorem read_markers_buffering_witness:
  "same_outcome (read_markers (idle_decompressor dri_bytes [])) (read_markers (idle_decompressor [] (map (\<lambda>b. [b]) dri_bytes))) \<and>
   (case read_markers (idle_decompressor [] (map (\<lambda>b. [b]) dri_bytes)) of
      Inl e \<Rightarrow> False
    | Inr (st, s) \<Rightarrow> st = JPEG_REACHED_EOI \<and> d_restart_interval (dinfo s) = 258)"
proof -
  have "same_bytes (idle_decompressor dri_bytes []) (idle_decompressor [] (map (\<lambda>b. [b]) dri_bytes))"
    by (simp add: same_bytes_def live_def flat_def upcoming_def idle_decompressor_def dri_bytes_def)
  moreover have "(case read_markers (idle_decompressor [] (map (\<lambda>b. [b]) dri_bytes)) of
      Inl e \<Rightarrow> False
    | Inr (st, s) \<Rightarrow> st = JPEG_REACHED_EOI \<and> d_restart_interval (dinfo s) = 258)" by code_simp
  ultimately show ?thesis by (blast intro: read_markers_buffering)
qed

end
