(* ===== verification/MarkerFeed.thy ===== *)
theory MarkerFeed imports Jcmarker Jdflat begin

text \<open>
  What the marker reader of \<open>jdmarker.c\<close> makes of the segments \<open>jcmarker.c\<close> writes, one lemma per
  segment: which bytes it consumes and what it then knows.
\<close>

section \<open>Feeding bytes to the reader\<close>

definition feed :: "u8 list \<Rightarrow> decompressor \<Rightarrow> decompressor" where
  "feed bs s = s\<lparr>fills := [], input := bs\<rparr>"

lemma feed_fields [simp]:
  "upd g (feed bs s) = feed bs (upd g s)" "upd_comp i h (feed bs s) = feed bs (upd_comp i h s)"
  "(feed bs s)\<lparr>unread_marker := m\<rparr> = feed bs (s\<lparr>unread_marker := m\<rparr>)" "(feed bs s)\<lparr>saw_SOI := b\<rparr> = feed bs (s\<lparr>saw_SOI := b\<rparr>)"
  "(feed bs s)\<lparr>saw_SOF := b\<rparr> = feed bs (s\<lparr>saw_SOF := b\<rparr>)" "(feed bs s)\<lparr>next_restart_num := n\<rparr> = feed bs (s\<lparr>next_restart_num := n\<rparr>)"
  "(feed bs s)\<lparr>discarded_bytes := d\<rparr> = feed bs (s\<lparr>discarded_bytes := d\<rparr>)"
  "dinfo (feed bs s) = dinfo s" "unread_marker (feed bs s) = unread_marker s" "saw_SOI (feed bs s) = saw_SOI s"
  "saw_SOF (feed bs s) = saw_SOF s" "fresh_quant (feed bs s) = fresh_quant s" "fresh_comp (feed bs s) = fresh_comp s"
  "process_APPn (feed bs s) = process_APPn s" "discarded_bytes (feed bs s) = discarded_bytes s" "feed cs (feed bs s) = feed cs s"
  by (simp_all add: feed_def upd_def upd_comp_def)

lemma feed_BYTE [simp]: "INPUT_BYTE (feed (c # cs) s) f = f (uint c) (feed cs s)"
  by (simp add: INPUT_BYTE_def next_byte_def feed_def)

lemma feed_BYTES: "length bs = n \<Longrightarrow> INPUT_BYTES n (feed (bs @ rest) s) f = f (map uint bs) (feed rest s)"
  by (induction bs arbitrary: n f) auto

lemma backtrack_True [simp]: "backtrack s (Inr (True, t)) = Inr (True, t)" "backtrack s (Inl e) = Inl e"
  by (simp_all add: backtrack_def)

lemma flat_feed: "flat s = feed (upcoming s) s"
  by (cases s) (simp add: flat_def feed_def)

text \<open>The bytes of integers as they are sent.\<close>

definition octets :: "int list \<Rightarrow> u8 list" where
  "octets vs = map word_of_int vs"

lemma octets_simps [simp]: "octets [] = []" "octets (v # vs) = word_of_int v # octets vs" "octets (as @ bs) = octets as @ octets bs"
  "length (octets vs) = length vs"
  by (simp_all add: octets_def)

lemma uint_octet [simp]: "0 \<le> v \<Longrightarrow> v < 256 \<Longrightarrow> uint (word_of_int v :: u8) = v"
  by (simp add: uint_word_of_int)

lemma uint_octets: "\<forall>v \<in> set vs. 0 \<le> v \<and> v < 256 \<Longrightarrow> map uint (octets vs) = vs"
  by (induction vs) simp_all

lemma two_bytes:
  assumes "0 \<le> (v::int)" "v < 65536"
  shows "0 \<le> drop_bit 8 v AND 255" "drop_bit 8 v AND 255 < 256" "0 \<le> v AND 255" "v AND 255 < 256"
    "push_bit 8 (drop_bit 8 v AND 255) + (v AND 255) = v"
proof -
  have m: "x AND 255 = x mod 256" for x :: int using take_bit_eq_mask [of 8 x] by (simp add: mask_eq_exp_minus_1 take_bit_eq_mod)
  have d: "drop_bit 8 v = v div 256" by (simp add: drop_bit_eq_div)
  have "v div 256 < 256" using assms by simp
  then have "(v div 256) mod 256 = v div 256" using assms by (simp add: pos_imp_zdiv_nonneg_iff)
  then show "push_bit 8 (drop_bit 8 v AND 255) + (v AND 255) = v" by (simp add: m d push_bit_eq_mult)
qed (simp_all add: and_less_eq [THEN order.strict_trans1])

lemma feed_2BYTES:
  assumes "0 \<le> v" "v < 65536"
  shows "INPUT_2BYTES (feed (octets (emit_2bytes v) @ rest) s) f = f v (feed rest s)"
  using two_bytes [OF assms] by (simp add: INPUT_2BYTES_def emit_2bytes_def)

text \<open>\<open>fed bs s s'\<close>: having read the markers in \<open>bs\<close>, the reader is in the state \<open>s'\<close>.\<close>

definition fed :: "u8 list \<Rightarrow> decompressor \<Rightarrow> decompressor \<Rightarrow> bool" where
  "fed bs s s' \<longleftrightarrow> (\<forall>rest. read_markers (feed (bs @ rest) s) = read_markers (feed rest s'))"

lemma fed_Nil: "fed [] s s"
  by (simp add: fed_def)

lemma fed_append: "fed as s t \<Longrightarrow> fed bs t u \<Longrightarrow> fed (as @ bs) s u"
  by (simp add: fed_def)

definition ready :: "decompressor \<Rightarrow> bool" where
  "ready s \<longleftrightarrow> unread_marker s = 0 \<and> saw_SOI s \<and> discarded_bytes s = 0"

lemma ready_upd [simp]: "ready (upd f s) = ready s" "ready (upd_comp i g s) = ready s"
  by (simp_all add: ready_def upd_def upd_comp_def)

lemma obtain_feed:
  assumes "ready s" "0 < m" "m < 255"
  shows "obtain_marker (feed (octets (emit_marker m) @ rest) s) = Inr (True, feed rest (s\<lparr>unread_marker := m\<rparr>))"
proof -
  have w: "(word_of_nat m :: u8) \<noteq> 0" "(word_of_nat m :: u8) \<noteq> 255" "unat (word_of_nat m :: u8) = m"
    using assms(2,3) by (auto simp: unat_of_nat word_unat_eq_iff)
  have "next_byte (feed (x # xs) s) = Some (x, feed xs s)" for x xs by (simp add: next_byte_def feed_def)
  then have "next_marker (feed (0xFF # word_of_nat m # rest) s) = (True, feed rest (s\<lparr>discarded_bytes := 0, unread_marker := m\<rparr>))"
    by (subst next_marker.simps, simp, subst skip_ff.simps, simp add: w)
  moreover have "s\<lparr>discarded_bytes := 0, unread_marker := m\<rparr> = s\<lparr>unread_marker := m\<rparr>"
    using assms(1) by (simp add: ready_def)
  ultimately show ?thesis using assms(1) by (simp add: obtain_marker_def ready_def emit_marker_def)
qed

lemma fed_segment:
  assumes "ready s" "0 < m" "m < 255" "m \<noteq> M_SOS" "m \<noteq> M_EOI" "ready s'"
    and "\<And>rest. process_marker (feed (octets params @ rest) (s\<lparr>unread_marker := m\<rparr>)) = Inr (True, feed rest (s'\<lparr>unread_marker := m\<rparr>))"
  shows "fed (octets (emit_marker m @ params)) s s'"
  unfolding fed_def
proof
  fix rest
  have "s'\<lparr>unread_marker := 0\<rparr> = s'" using assms(6) by (simp add: ready_def)
  then show "read_markers (feed (octets (emit_marker m @ params) @ rest) s) = read_markers (feed rest s')"
    using obtain_feed [OF assms(1-3), where rest = "octets params @ rest"] assms(4,5) assms(7) [of rest]
    by (subst read_markers.simps) simp
qed

section \<open>Segments\<close>

lemma unread_cong: "upd f s\<lparr>unread_marker := m\<rparr> = upd f (s\<lparr>unread_marker := m\<rparr>)"
  by (simp add: upd_def)

lemma upd_unread [simp]: "upd f (s\<lparr>unread_marker := m\<rparr>) = (upd f s)\<lparr>unread_marker := m\<rparr>"
  "upd_comp i g (s\<lparr>unread_marker := m\<rparr>) = (upd_comp i g s)\<lparr>unread_marker := m\<rparr>"
  by (simp_all add: upd_def upd_comp_def)

lemma upd_upd: "upd f (upd g s) = upd (f \<circ> g) s"
  by (simp add: upd_def)

lemma fed_dri:
  assumes "ready s" "0 \<le> r" "r < 65536"
  shows "fed (octets (emit_marker M_DRI @ emit_2bytes 4 @ emit_2bytes r)) s (upd (\<lambda>c. c\<lparr>d_restart_interval := word_of_int r\<rparr>) s)"
  by (rule fed_segment)
    (use assms feed_2BYTES [OF assms(2,3), where rest = "octets []"] in
      \<open>simp_all add: marker_codes process_marker_def get_dri_def feed_2BYTES\<close>)

lemma u8_int [simp]: "0 \<le> uint (x :: u8)" "uint (x :: u8) < 256" "word_of_int (uint x) = x"
  using uint_lt2p [of x] by simp_all

lemma u16_bytes: "word_of_int (push_bit 8 (drop_bit 8 (uint x) AND 255) + (uint x AND 255)) = (x :: u16)"
  using two_bytes(5) [of "uint x"] uint_lt2p [of x] by simp

lemma u16_bytes': "word_of_int (push_bit 8 (drop_bit 8 (uint x)) AND 65280) + word_of_int (uint x AND 255) = (x :: u16)"
  using u16_bytes [of x] by simp

lemma dispatch:
  "unread_marker t = M_APP0 \<Longrightarrow> process_marker t = call_method (process_APPn t ! 0) t"
  "unread_marker t = M_APP14 \<Longrightarrow> process_marker t = call_method (process_APPn t ! 14) t"
  "unread_marker t = M_DRI \<Longrightarrow> process_marker t = get_dri t"
  "unread_marker t = M_DQT \<Longrightarrow> process_marker t = get_dqt t"
  "unread_marker t = M_DHT \<Longrightarrow> process_marker t = get_dht t"
  "unread_marker t = M_DAC \<Longrightarrow> process_marker t = get_dac t"
  "unread_marker t = M_SOF0 \<Longrightarrow> process_marker t = get_sof False False t"
  "unread_marker t = M_SOF1 \<Longrightarrow> process_marker t = get_sof False False t"
  "unread_marker t = M_SOF2 \<Longrightarrow> process_marker t = get_sof True False t"
  "unread_marker t = M_SOF9 \<Longrightarrow> process_marker t = get_sof False True t"
  "unread_marker t = M_SOF10 \<Longrightarrow> process_marker t = get_sof True True t"
  by (simp_all add: process_marker_def marker_codes)

lemma u16_two [simp]:
  "0 \<le> drop_bit 8 (uint (x :: u16)) AND 255" "drop_bit 8 (uint (x :: u16)) AND 255 < 256"
  "0 \<le> uint (x :: u16) AND 255" "uint (x :: u16) AND 255 < 256"
  using two_bytes(1-4) [of "uint x"] uint_lt2p [of x] by simp_all

lemma skip_none [simp]: "skip_input_data 0 s = s"
  by (simp add: skip_input_data_def)

lemma feed_examine [simp]:
  "examine_app0 b (feed bs s) = feed bs (examine_app0 b s)" "examine_app14 b (feed bs s) = feed bs (examine_app14 b s)"
  by (simp_all add: examine_app0_def examine_app14_def)

lemma get_interesting_feed:
  assumes "int (length dat) \<le> 14" "\<forall>v \<in> set dat. 0 \<le> v \<and> v < 256" "len = 2 + int (length dat)"
  shows "get_interesting_appn (feed (octets (emit_2bytes len @ dat) @ rest) s) =
     (if unread_marker s = M_APP0 then Inr (True, feed rest (examine_app0 dat s))
      else if unread_marker s = M_APP14 then Inr (True, feed rest (examine_app14 dat s))
      else Inl (ErrExit (JERR_UNKNOWN_MARKER (int (unread_marker s)))))"
proof -
  have t: "0 \<le> len" "len < 65536" and e: "len - 2 = int (length dat)" using assms(1,3) by simp_all
  have b: "INPUT_BYTES (length dat) (feed (octets dat @ rest) u) f = f dat (feed rest u)" for u f
    using feed_BYTES [of "octets dat" "length dat" rest u f] uint_octets [OF assms(2)] by simp
  have n: "(if APPN_DATA_LEN \<le> int (length dat) then APPN_DATA_LEN else if 0 < int (length dat) then int (length dat) else 0) = int (length dat)"
    using assms(1) by (simp add: APPN_DATA_LEN_def)
  show ?thesis
    unfolding get_interesting_appn_def octets_simps append_assoc feed_2BYTES [OF t] Let_def e n nat_int b by simp
qed

lemma M_app_neq: "M_APP14 \<noteq> M_APP0"
  by (simp add: marker_codes)

lemma fed_app0:
  assumes "ready s" "process_APPn s ! 0 = Get_interesting_appn"
  shows "fed (octets (emit_marker M_APP0 @ emit_2bytes 16 @ ([0x4A, 0x46, 0x49, 0x46, 0, uint mj, uint mi, uint du] @
           emit_2bytes (uint xd) @ emit_2bytes (uint yd) @ [0, 0]))) s
         (upd (\<lambda>c. c\<lparr>saw_JFIF_marker := True, d_JFIF_major_version := mj, d_JFIF_minor_version := mi, d_density_unit := du,
           d_X_density := xd, d_Y_density := yd\<rparr>) s)"
proof (rule fed_segment)
  fix rest
  define dat where "dat = [0x4A, 0x46, 0x49, 0x46, 0, uint mj, uint mi, uint du] @ emit_2bytes (uint xd) @ emit_2bytes (uint yd) @ [0, 0]"
  have l: "length dat = 14" by (simp add: dat_def emit_2bytes_def)
  have u: "\<forall>v \<in> set dat. 0 \<le> v \<and> v < 256" by (simp add: dat_def emit_2bytes_def)
  let ?s = "s\<lparr>unread_marker := M_APP0\<rparr>"
  have "examine_app0 dat ?s = (upd (\<lambda>c. c\<lparr>saw_JFIF_marker := True, d_JFIF_major_version := mj, d_JFIF_minor_version := mi, d_density_unit := du,
           d_X_density := xd, d_Y_density := yd\<rparr>) s)\<lparr>unread_marker := M_APP0\<rparr>"
    by (simp add: examine_app0_def l) (simp add: dat_def emit_2bytes_def APP0_DATA_LEN_def u16_bytes')
  then show "process_marker (feed (octets (emit_2bytes 16 @ [0x4A, 0x46, 0x49, 0x46, 0, uint mj, uint mi, uint du] @
           emit_2bytes (uint xd) @ emit_2bytes (uint yd) @ [0, 0]) @ rest) ?s) =
    Inr (True, feed rest ((upd (\<lambda>c. c\<lparr>saw_JFIF_marker := True, d_JFIF_major_version := mj, d_JFIF_minor_version := mi, d_density_unit := du,
           d_X_density := xd, d_Y_density := yd\<rparr>) s)\<lparr>unread_marker := M_APP0\<rparr>))"
    using get_interesting_feed [of dat 16 rest ?s] l u assms(2) unfolding dat_def [symmetric]
    by (simp add: dispatch call_method_def M_app_neq)
qed (use assms in \<open>simp_all add: marker_codes\<close>)

lemma fed_app14:
  assumes "ready s" "process_APPn s ! 14 = Get_interesting_appn" "0 \<le> v" "v < 256"
  shows "fed (octets (emit_marker M_APP14 @ emit_2bytes 14 @ ([0x41, 0x64, 0x6F, 0x62, 0x65] @
           emit_2bytes 100 @ emit_2bytes 0 @ emit_2bytes 0 @ [v]))) s
         (upd (\<lambda>c. c\<lparr>saw_Adobe_marker := True, Adobe_transform := word_of_int v\<rparr>) s)"
proof (rule fed_segment)
  fix rest
  define dat where "dat = [0x41, 0x64, 0x6F, 0x62, 0x65] @ emit_2bytes 100 @ emit_2bytes 0 @ emit_2bytes 0 @ [v]"
  have l: "length dat = 12" by (simp add: dat_def emit_2bytes_def)
  have u: "\<forall>v \<in> set dat. 0 \<le> v \<and> v < 256" using assms(3,4) by (simp add: dat_def emit_2bytes_def)
  let ?s = "s\<lparr>unread_marker := M_APP14\<rparr>"
  have "examine_app14 dat ?s = (upd (\<lambda>c. c\<lparr>saw_Adobe_marker := True, Adobe_transform := word_of_int v\<rparr>) s)\<lparr>unread_marker := M_APP14\<rparr>"
    by (simp add: examine_app14_def l) (simp add: dat_def emit_2bytes_def APP14_DATA_LEN_def)
  note x = this
  have "get_interesting_appn (feed (octets (emit_2bytes 14 @ dat) @ rest) ?s) = Inr (True, feed rest (examine_app14 dat ?s))"
    by (subst get_interesting_feed) (simp_all add: l u M_app_neq)
  then have g: "get_interesting_appn (feed (octets (emit_2bytes 14 @ dat) @ rest) ?s) =
    Inr (True, feed rest ((upd (\<lambda>c. c\<lparr>saw_Adobe_marker := True, Adobe_transform := word_of_int v\<rparr>) s)\<lparr>unread_marker := M_APP14\<rparr>))"
    by (simp only: x)
  have "process_marker (feed b ?s) = get_interesting_appn (feed b ?s)" for b
    by (subst dispatch(2)) (simp_all add: assms(2) call_method_def)
  then show "process_marker (feed (octets (emit_2bytes 14 @ [0x41, 0x64, 0x6F, 0x62, 0x65] @
           emit_2bytes 100 @ emit_2bytes 0 @ emit_2bytes 0 @ [v]) @ rest) ?s) =
    Inr (True, feed rest ((upd (\<lambda>c. c\<lparr>saw_Adobe_marker := True, Adobe_transform := word_of_int v\<rparr>) s)\<lparr>unread_marker := M_APP14\<rparr>))"
    using g unfolding dat_def by (simp only:)
qed (use assms in \<open>simp_all add: marker_codes\<close>)

text \<open>Huffman tables.\<close>

lemma sum_uint: "int (sum_list (map nat (map uint bs))) = sum_list (map uint (bs :: u8 list))"
  by (induction bs) simp_all

lemma sum_uint_nonneg: "0 \<le> sum_list (map uint (bs :: u8 list))"
  by (rule sum_list_nonneg) auto

definition put_huff :: "bool \<Rightarrow> nat \<Rightarrow> u8 list \<Rightarrow> u8 list \<Rightarrow> jpeg_decompress_struct \<Rightarrow> jpeg_decompress_struct" where
  "put_huff ac i bs hv c =
     (let t = (\<lambda>old. let t = (case old of None \<Rightarrow> \<lparr>bits = [], huffval = [], sent_table = False\<rparr> | Some t \<Rightarrow> t)
               in Some (t\<lparr>bits := 0 # bs, huffval := hv @ replicate (256 - length hv) 0\<rparr>))
      in if ac then c\<lparr>d_ac_huff_tbl_ptrs := (d_ac_huff_tbl_ptrs c)[i := t (d_ac_huff_tbl_ptrs c ! i)]\<rparr>
         else c\<lparr>d_dc_huff_tbl_ptrs := (d_dc_huff_tbl_ptrs c)[i := t (d_dc_huff_tbl_ptrs c ! i)]\<rparr>)"

lemma fed_dht:
  assumes "ready s" "i < 4" "length bs = 16" "sum_list (map uint bs) = int (length hv)" "length hv \<le> 256"
  shows "fed (octets (emit_marker M_DHT @ emit_2bytes (int (length hv) + 2 + 1 + 16) @ [if ac then int i + 0x10 else int i] @
           map uint bs @ map uint hv)) s (upd (put_huff ac i bs hv) s)"
proof (rule fed_segment)
  fix rest
  define code where "code = (if ac then int i + 0x10 else int i)"
  have c: "0 \<le> code" "code < 256" "(code AND 0x10 \<noteq> 0) = ac" "(if code AND 0x10 \<noteq> 0 then code - 0x10 else code) = int i"
    using assms(2) by (auto simp: code_def less_Suc_eq numeral_eq_Suc)
  have n: "ac \<Longrightarrow> nat (code - 16) = i \<and> \<not> code < 16 \<and> \<not> 20 \<le> code" "\<not> ac \<Longrightarrow> nat code = i \<and> \<not> 4 \<le> code"
    using assms(2) by (simp_all add: code_def)
  have o: "octets (map uint xs) = xs" "map word_of_int (map uint xs) = xs" for xs :: "u8 list"
    by (simp_all add: octets_def comp_def)
  have z: "map word_of_int (replicate k 0) = replicate k (0::u8)" for k by (simp add: map_replicate)
  have sh: "set_huff_table t (map uint bs) (map uint hv) = Some ((case t of None \<Rightarrow> \<lparr>bits = [], huffval = [], sent_table = False\<rparr> | Some t \<Rightarrow> t)
       \<lparr>bits := 0 # bs, huffval := hv @ replicate (256 - length hv) 0\<rparr>)" for t
    by (simp add: set_huff_table_def Let_def comp_def)
  have l0: "dht_loop 0 t = Inr (True, t)" for t by (simp add: dht_loop.simps)
  have d: "dht_loop (int (length hv) + 17) (feed (octets ([code] @ map uint bs @ map uint hv) @ rest) u) =
      Inr (True, feed rest (upd (put_huff ac i bs hv) u))" for u
    using assms c(1-3) n feed_BYTES [OF assms(3)] feed_BYTES [of hv "length hv"] sum_uint [of bs] sh l0
    by (subst dht_loop.simps) (cases ac; simp add: o Let_def NUM_HUFF_TBLS_def put_huff_def [abs_def])
  have t: "0 \<le> int (length hv) + 2 + 1 + 16" "int (length hv) + 2 + 1 + 16 < 65536" using assms(5) by simp_all
  have "get_dht (feed (octets (emit_2bytes (int (length hv) + 2 + 1 + 16) @ [code] @ map uint bs @ map uint hv) @ rest) u) =
      Inr (True, feed rest (upd (put_huff ac i bs hv) u))" for u
    using d [of u] by (simp only: get_dht_def octets_simps append_assoc feed_2BYTES [OF t]) (simp add: add.commute)
  then show "process_marker (feed (octets (emit_2bytes (int (length hv) + 2 + 1 + 16) @ [if ac then int i + 0x10 else int i] @
           map uint bs @ map uint hv) @ rest) (s\<lparr>unread_marker := M_DHT\<rparr>)) =
      Inr (True, feed rest ((upd (put_huff ac i bs hv) s)\<lparr>unread_marker := M_DHT\<rparr>))"
    by (subst dispatch(5)) (simp_all add: code_def)
qed (use assms in \<open>simp_all add: marker_codes\<close>)

text \<open>Quantisation tables.\<close>

definition quant_code :: "bool \<Rightarrow> u16 \<Rightarrow> int list" where
  "quant_code prec q = (if prec then [drop_bit 8 (uint q)] else []) @ [uint q AND 0xFF]"

lemma feed_quant:
  assumes "\<not> prec \<Longrightarrow> uint q < 256"
  shows "(if prec then INPUT_2BYTES (feed (octets (quant_code prec q) @ rest) s) f
          else INPUT_BYTE (feed (octets (quant_code prec q) @ rest) s) f) = f (uint q) (feed rest s)"
proof -
  have u: "0 \<le> uint q" "uint q < 65536" using uint_lt2p [of q] by simp_all
  have "drop_bit 8 (uint q) < 256" using u by (simp add: drop_bit_eq_div)
  then have "drop_bit 8 (uint q) AND 255 = drop_bit 8 (uint q)"
    using u take_bit_eq_mask [of 8 "drop_bit 8 (uint q)"] take_bit_int_eq_self [of "drop_bit 8 (uint q)" 8]
    by (simp add: mask_eq_exp_minus_1)
  moreover have "\<not> prec \<Longrightarrow> uint q AND 255 = uint q"
    using assms u take_bit_eq_mask [of 8 "uint q"] take_bit_int_eq_self [of "uint q" 8] by (simp add: mask_eq_exp_minus_1)
  moreover have "uint (word_of_int (uint q AND 255) :: u8) = uint q AND 255" by (rule uint_octet [OF two_bytes(3,4) [OF u]])
  ultimately show ?thesis
    using feed_2BYTES [OF u, of rest s f] by (cases prec) (simp_all add: quant_code_def emit_2bytes_def del: of_int_and_eq)
qed

lemma feed_values:
  assumes "\<forall>p \<in> set ps. prec \<or> uint (q ! p) < 256"
  shows "dqt_values prec n ps (feed (octets (concat (map (\<lambda>p. quant_code prec (q ! p)) ps)) @ rest) s) f =
     f (feed rest (upd (fold (\<lambda>p. set_quant n p (uint (q ! p))) ps) s))"
  using assms
proof (induction ps arbitrary: s)
  case Nil
  then show ?case by (simp add: upd_def id_def)
next
  case (Cons p ps)
  then show ?case
    using feed_quant [of prec "q ! p" "octets (concat (map (\<lambda>p. quant_code prec (q ! p)) ps)) @ rest" s]
    by (cases prec) (simp_all add: upd_upd comp_def)
qed

definition put_quant :: "nat \<Rightarrow> u16 list \<Rightarrow> jpeg_decompress_struct \<Rightarrow> jpeg_decompress_struct" where
  "put_quant n q c = c\<lparr>d_quant_tbl_ptrs := (d_quant_tbl_ptrs c)
     [n := map_option (\<lambda>t. t\<lparr>quantval := q\<rparr>) (d_quant_tbl_ptrs c ! n)]\<rparr>"

lemma fold_set_quant:
  assumes "n < length (d_quant_tbl_ptrs c)" "d_quant_tbl_ptrs c ! n = Some t" "length (quantval t) = 64" "length q = 64"
  shows "fold (\<lambda>p. set_quant n p (uint (q ! p))) (take 64 jpeg_natural_order) c = put_quant n q c"
proof -
  have step: "fold (\<lambda>p. set_quant n p (uint (q ! p))) ps c =
      c\<lparr>d_quant_tbl_ptrs := (d_quant_tbl_ptrs c)[n := Some (t\<lparr>quantval := fold (\<lambda>p xs. xs[p := q ! p]) ps (quantval t)\<rparr>)]\<rparr>" for ps
  proof (induction ps rule: rev_induct)
    case Nil
    have "(d_quant_tbl_ptrs c)[n := Some t] = d_quant_tbl_ptrs c" using assms(2) by (metis list_update_id)
    then show ?case by simp
  next
    case (snoc p ps)
    then show ?case using assms(1) by (simp add: set_quant_def)
  qed
  have l: "length (fold (\<lambda>p xs. xs[p := q ! p]) ps xs) = length xs" for ps and xs :: "u16 list"
    by (induction ps arbitrary: xs) simp_all
  have n: "fold (\<lambda>p xs. xs[p := q ! p]) ps xs ! i = (if i \<in> set ps then q ! i else xs ! i)" if "i < length xs" for ps i and xs :: "u16 list"
    using that by (induction ps arbitrary: xs) (auto simp: nth_list_update)
  have "i \<in> set (take 64 jpeg_natural_order)" if "i < 64" for i
    using natural_order_surj [OF that] by (auto simp: in_set_conv_nth)
  then have "fold (\<lambda>p xs. xs[p := q ! p]) (take 64 jpeg_natural_order) (quantval t) = q"
    using assms(3,4) by (intro nth_equalityI) (simp_all add: l n)
  then show ?thesis unfolding step using assms(2) by (simp add: put_quant_def)
qed

text \<open>The table a DQT segment leaves in slot \<open>n\<close>.\<close>

definition learn_quant :: "u16 list \<Rightarrow> nat \<Rightarrow> u16 list \<Rightarrow> jpeg_decompress_struct \<Rightarrow> jpeg_decompress_struct" where
  "learn_quant fresh n q c = put_quant n q
     (if d_quant_tbl_ptrs c ! n = None
      then c\<lparr>d_quant_tbl_ptrs := (d_quant_tbl_ptrs c)[n := Some \<lparr>quantval = fresh, sent_table = False\<rparr>]\<rparr> else c)"

definition quants_ok :: "decompressor \<Rightarrow> bool" where
  "quants_ok s \<longleftrightarrow> length (fresh_quant s) = 64 \<and> length (d_quant_tbl_ptrs (dinfo s)) = 4 \<and>
     (\<forall>t. Some t \<in> set (d_quant_tbl_ptrs (dinfo s)) \<longrightarrow> length (quantval t) = 64)"

lemma fed_dqt:
  assumes "ready s" "n < 4" "quants_ok s" "length q = 64" "\<forall>v \<in> set q. prec \<or> uint v < 256"
  shows "fed (octets (emit_marker M_DQT @ emit_2bytes (if prec then 64 * 2 + 1 + 2 else 64 + 1 + 2) @
           [int n + (if prec then 16 else 0)] @ concat (map (\<lambda>i. quant_code prec (q ! (jpeg_natural_order ! i))) [0..<64]))) s
         (upd (learn_quant (fresh_quant s) n q) s)"
proof (rule fed_segment)
  fix rest
  define code where "code = int n + (if prec then 16 else 0)"
  have n: "n = 0 \<or> n = 1 \<or> n = 2 \<or> n = 3" using assms(2) by auto
  have c: "0 \<le> code" "code < 256" "(drop_bit 4 code \<noteq> 0) = prec" "code AND 15 = int n"
    using n by (auto simp: code_def)
  let ?s = "s\<lparr>unread_marker := M_DQT\<rparr>"
  define u where "u = (if d_quant_tbl_ptrs (dinfo s) ! n = None then upd (\<lambda>c. c\<lparr>d_quant_tbl_ptrs := (d_quant_tbl_ptrs c)
                        [n := Some \<lparr>quantval = fresh_quant s, sent_table = False\<rparr>]\<rparr>) ?s else ?s)"
  have l: "map (\<lambda>i. quant_code prec (q ! (jpeg_natural_order ! i))) [0..<64] = map (\<lambda>p. quant_code prec (q ! p)) (take 64 jpeg_natural_order)"
    by (intro nth_equalityI) simp_all
  obtain t where t: "d_quant_tbl_ptrs (dinfo u) ! n = Some t" "length (quantval t) = 64" "n < length (d_quant_tbl_ptrs (dinfo u))"
  proof (cases "d_quant_tbl_ptrs (dinfo s) ! n")
    case None
    then show ?thesis using assms(2,3) that by (simp add: u_def quants_ok_def)
  next
    case (Some t)
    have "Some t \<in> set (d_quant_tbl_ptrs (dinfo s))" using assms(2,3) Some by (metis nth_mem quants_ok_def)
    then show ?thesis using assms(2,3) that Some by (auto simp: u_def quants_ok_def)
  qed
  have "\<forall>p \<in> set (take 64 jpeg_natural_order). prec \<or> uint (q ! p) < 256"
    using assms(4,5) natural_order_range by (auto dest!: in_set_takeD)
  note V = feed_values [OF this, where n = n and rest = rest and s = u]
  have l0: "dqt_loop 0 v = Inr (True, v)" for v by (simp add: dqt_loop.simps)
  have "fold (\<lambda>p. set_quant n p (uint (q ! p))) (take 64 jpeg_natural_order) (dinfo u) = put_quant n q (dinfo u)"
    by (rule fold_set_quant [OF t(3,1,2) assms(4)])
  then have U: "upd (fold (\<lambda>p. set_quant n p (uint (q ! p))) (take 64 jpeg_natural_order)) u = (upd (learn_quant (fresh_quant s) n q) s)\<lparr>unread_marker := M_DQT\<rparr>"
    by (simp add: upd_def learn_quant_def) (simp add: u_def upd_def)
  have "get_dqt (feed (octets (emit_2bytes (if prec then 64 * 2 + 1 + 2 else 64 + 1 + 2) @
           [code] @ concat (map (\<lambda>p. quant_code prec (q ! p)) (take 64 jpeg_natural_order))) @ rest) ?s) =
     Inr (True, feed rest (upd (fold (\<lambda>p. set_quant n p (uint (q ! p))) (take 64 jpeg_natural_order)) u))"
    using c V l0 assms(2) by (cases prec; cases "d_quant_tbl_ptrs (dinfo s) ! n"; simp add: get_dqt_def feed_2BYTES; subst dqt_loop.simps;
      simp add: NUM_QUANT_TBLS_def DCTSIZE2_def u_def Let_def)
  then show "process_marker (feed (octets (emit_2bytes (if prec then 64 * 2 + 1 + 2 else 64 + 1 + 2) @
           [int n + (if prec then 16 else 0)] @ concat (map (\<lambda>i. quant_code prec (q ! (jpeg_natural_order ! i))) [0..<64])) @ rest) ?s) =
      Inr (True, feed rest ((upd (learn_quant (fresh_quant s) n q) s)\<lparr>unread_marker := M_DQT\<rparr>))"
    unfolding l U code_def by (subst dispatch(4)) simp_all
qed (use assms in \<open>simp_all add: marker_codes\<close>)

text \<open>Frame headers.\<close>

lemma nibbles:
  assumes "0 \<le> h" "h < 16" "0 \<le> v" "v < (16::int)"
  shows "drop_bit 4 (push_bit 4 h + v) AND 15 = h" "(push_bit 4 h + v) AND 15 = v" "0 \<le> push_bit 4 h + v" "push_bit 4 h + v < 256"
proof -
  have m: "x AND 15 = x mod 16" for x :: int using take_bit_eq_mask [of 4 x] by (simp add: mask_eq_exp_minus_1 take_bit_eq_mod)
  show "drop_bit 4 (push_bit 4 h + v) AND 15 = h" "(push_bit 4 h + v) AND 15 = v"
    using assms by (simp_all add: m drop_bit_eq_div push_bit_eq_mult)
  show "0 \<le> push_bit 4 h + v" "push_bit 4 h + v < 256" using assms by (simp_all add: push_bit_eq_mult)
qed

text \<open>What a frame header says of a component.\<close>

definition set_frame :: "jpeg_component_info \<Rightarrow> nat \<Rightarrow> jpeg_component_info \<Rightarrow> jpeg_component_info" where
  "set_frame c i p = p\<lparr>component_index := int i, component_id := component_id c, h_samp_factor := h_samp_factor c,
     v_samp_factor := v_samp_factor c, quant_tbl_no := quant_tbl_no c\<rparr>"

definition frame_byte :: "jpeg_component_info \<Rightarrow> bool" where
  "frame_byte c \<longleftrightarrow> 0 \<le> component_id c \<and> component_id c < 256 \<and> 0 \<le> h_samp_factor c \<and> h_samp_factor c < 16 \<and>
     0 \<le> v_samp_factor c \<and> v_samp_factor c < 16 \<and> 0 \<le> quant_tbl_no c \<and> quant_tbl_no c < 256"

definition frame_bytes :: "jpeg_component_info \<Rightarrow> int list" where
  "frame_bytes c = [component_id c, push_bit 4 (h_samp_factor c) + v_samp_factor c, quant_tbl_no c]"

lemma upd_comp_twice: "i < length (d_comp_info (dinfo s)) \<Longrightarrow> upd_comp i f (upd_comp i g s) = upd_comp i (f \<circ> g) s"
  by (simp add: upd_comp_def upd_def)

lemma feed_sof:
  assumes "\<forall>i \<in> set is. i < length (d_comp_info (dinfo s)) \<and> frame_byte (cs ! i)"
  shows "sof_components is (feed (octets (concat (map (\<lambda>i. frame_bytes (cs ! i)) is)) @ rest) s) f =
     f (feed rest (fold (\<lambda>i. upd_comp i (set_frame (cs ! i) i)) is s))"
  using assms
proof (induction "is" arbitrary: s)
  case (Cons i "is")
  let ?c = "cs ! i"
  have b: "frame_byte ?c" and l: "i < length (d_comp_info (dinfo s))" using Cons.prems by simp_all
  note n = nibbles [of "h_samp_factor ?c" "v_samp_factor ?c"]
  have e: "upd_comp i (\<lambda>p. p\<lparr>quant_tbl_no := quant_tbl_no ?c\<rparr>) (upd_comp i (\<lambda>p. p\<lparr>h_samp_factor := h_samp_factor ?c, v_samp_factor := v_samp_factor ?c\<rparr>)
      (upd_comp i (\<lambda>p. p\<lparr>component_id := component_id ?c\<rparr>) (upd_comp i (\<lambda>p. p\<lparr>component_index := int i\<rparr>) s))) =
      upd_comp i (set_frame ?c i) s"
    using l by (simp add: upd_comp_twice comp_def set_frame_def [abs_def])
  have "\<forall>j \<in> set is. j < length (d_comp_info (dinfo (upd_comp i (set_frame ?c i) s))) \<and> frame_byte (cs ! j)" using Cons.prems by simp
  note IH = Cons.IH [OF this]
  show ?case using b n IH e by (simp add: frame_bytes_def frame_byte_def del: of_int_add)
qed simp

lemma fold_upd_comp:
  assumes "distinct is"
  shows "fold (\<lambda>i. upd_comp i (g i)) is s = upd (\<lambda>c. c\<lparr>d_comp_info :=
     map (\<lambda>i. if i \<in> set is then g i (d_comp_info c ! i) else d_comp_info c ! i) [0..<length (d_comp_info c)]\<rparr>) s"
  using assms
proof (induction "is" rule: rev_induct)
  case Nil
  have "map ((!) xs) [0..<length xs] = xs" for xs :: "jpeg_component_info list" by (rule map_nth)
  then show ?case by (simp add: upd_def)
next
  case (snoc i "is")
  have "(map (\<lambda>j. if j \<in> set is then g j (xs ! j) else xs ! j) [0..<length xs])[i := g i (map (\<lambda>j. if j \<in> set is then g j (xs ! j) else xs ! j) [0..<length xs] ! i)]
      = map (\<lambda>j. if j = i \<or> j \<in> set is then g j (xs ! j) else xs ! j) [0..<length xs]" for xs :: "jpeg_component_info list"
  proof (rule nth_equalityI)
    fix j assume "j < length ((map (\<lambda>j. if j \<in> set is then g j (xs ! j) else xs ! j) [0..<length xs])[i := g i (map (\<lambda>j. if j \<in> set is then g j (xs ! j) else xs ! j) [0..<length xs] ! i)])"
    then show "(map (\<lambda>j. if j \<in> set is then g j (xs ! j) else xs ! j) [0..<length xs])[i := g i (map (\<lambda>j. if j \<in> set is then g j (xs ! j) else xs ! j) [0..<length xs] ! i)] ! j
        = map (\<lambda>j. if j = i \<or> j \<in> set is then g j (xs ! j) else xs ! j) [0..<length xs] ! j"
      using snoc.prems by (cases "j = i") simp_all
  qed simp
  then show ?case using snoc by (simp add: upd_comp_def upd_def)
qed

lemma fold_upd_comp_all:
  assumes "length (d_comp_info (dinfo s)) = n"
  shows "fold (\<lambda>i. upd_comp i (g i)) [0..<n] s = upd (\<lambda>c. c\<lparr>d_comp_info := map (\<lambda>i. g i (d_comp_info (dinfo s) ! i)) [0..<n]\<rparr>) s"
  using assms by (simp add: fold_upd_comp upd_def cong: map_cong)

definition learn_frame :: "bool \<Rightarrow> bool \<Rightarrow> int \<Rightarrow> int \<Rightarrow> int \<Rightarrow> jpeg_component_info list \<Rightarrow> (nat \<Rightarrow> jpeg_component_info) \<Rightarrow>
  jpeg_decompress_struct \<Rightarrow> jpeg_decompress_struct" where
  "learn_frame pr ar prec h w cs fresh c = c\<lparr>d_progressive_mode := pr, d_arith_code := ar, d_data_precision := prec,
     d_image_height := word_of_int h, d_image_width := word_of_int w, d_num_components := int (length cs),
     d_comp_info := map (\<lambda>i. set_frame (cs ! i) i (fresh i)) [0..<length cs]\<rparr>"

lemma get_sof_feed:
  assumes "\<not> saw_SOF s" "d_comp_info (dinfo s) = []" "1 \<le> length cs" "length cs < 256" "\<forall>c \<in> set cs. frame_byte c"
    and "0 < h" "h < 65536" "0 < w" "w < 65536" "0 \<le> prec" "prec < 256"
  shows "get_sof pr ar (feed (octets (emit_2bytes (3 * int (length cs) + 2 + 5 + 1) @ [prec] @ emit_2bytes h @ emit_2bytes w @
           [int (length cs)] @ concat (map frame_bytes cs)) @ rest) s) =
      Inr (True, feed rest ((upd (learn_frame pr ar prec h w cs (fresh_comp s)) s)\<lparr>saw_SOF := True\<rparr>))"
proof -
  let ?n = "length cs"
  define L where "L = 3 * int ?n + 2 + 5 + 1"
  have ne: "cs \<noteq> []" using assms(3) by auto
  have t: "0 \<le> 3 * int ?n + 2 + 5 + 1" "3 * int ?n + 2 + 5 + 1 < 65536" "0 \<le> h" "0 \<le> w" using assms(4,6,8) by simp_all
  have nz: "(word_of_int h :: u32) \<noteq> 0" "(word_of_int w :: u32) \<noteq> 0"
    using assms(6-9) by (simp_all add: word_uint_eq_iff uint_word_of_int)
  have n1: "uint (word_of_int (int ?n) :: u8) = int ?n" using assms(4) by (intro uint_octet) simp_all
  have bs: "concat (map frame_bytes cs) = concat (map (\<lambda>i. frame_bytes (cs ! i)) [0..<?n])"
    by (rule arg_cong [of _ _ concat]) (intro nth_equalityI; simp)
  define u where "u = upd (\<lambda>c. c\<lparr>d_progressive_mode := pr, d_arith_code := ar, d_data_precision := prec,
     d_image_height := word_of_int h, d_image_width := word_of_int w, d_num_components := int ?n,
     d_comp_info := map (fresh_comp s) [0..<?n]\<rparr>) s"
  have lu: "length (d_comp_info (dinfo u)) = ?n" by (simp add: u_def)
  have "sof_components [0..<?n] (feed (octets (concat (map frame_bytes cs)) @ rest) u) f =
      f (feed rest (fold (\<lambda>i. upd_comp i (set_frame (cs ! i) i)) [0..<?n] u))" for f
    unfolding bs by (rule feed_sof) (use lu assms(5) in auto)
  also have "fold (\<lambda>i. upd_comp i (set_frame (cs ! i) i)) [0..<?n] u = upd (learn_frame pr ar prec h w cs (fresh_comp s)) s"
    unfolding fold_upd_comp_all [OF lu] by (simp add: u_def upd_def learn_frame_def cong: map_cong)
  finally have C: "sof_components [0..<?n] (feed (octets (concat (map frame_bytes cs)) @ rest) u) f =
      f (feed rest (upd (learn_frame pr ar prec h w cs (fresh_comp s)) s))" for f .
  have "sof_checks (3 * int ?n + 2 + 5 + 1) (feed (octets (concat (map frame_bytes cs)) @ rest)
      (upd (\<lambda>c. c\<lparr>d_num_components := int ?n\<rparr>) (upd (\<lambda>c. c\<lparr>d_image_width := word_of_int w\<rparr>) (upd (\<lambda>c. c\<lparr>d_image_height := word_of_int h\<rparr>)
        (upd (\<lambda>c. c\<lparr>d_data_precision := prec\<rparr>) (upd (\<lambda>c. c\<lparr>d_progressive_mode := pr, d_arith_code := ar\<rparr>) s)))))) =
      Inr (True, feed rest ((upd (learn_frame pr ar prec h w cs (fresh_comp s)) s)\<lparr>saw_SOF := True\<rparr>))"
    using assms(1,2) ne nz C [of "\<lambda>s. Inr (True, s\<lparr>saw_SOF := True\<rparr>)"]
    by (simp add: sof_checks_def u_def upd_upd comp_def Let_def)
  then show ?thesis
    using assms(10,11) n1 t(1,2) unfolding L_def [symmetric]
    by (simp add: get_sof_def feed_2BYTES feed_2BYTES [OF t(3) assms(7)] feed_2BYTES [OF t(4) assms(9)] del: of_int_of_nat_eq)
qed


text \<open>Scan headers.\<close>

lemma find_upt:
  assumes "i < n" "P i" "\<forall>j < n. P j \<longrightarrow> j = i"
  shows "find P [0..<n] = Some i"
proof -
  have "[0..<n] = [0..<i] @ i # [Suc i..<n]" using assms(1) upt_add_eq_append [of 0 i "n - i"] upt_conv_Cons [of i n] by simp
  moreover have "find P [0..<i] = None"
  proof -
    have "\<not> P j" if "j < i" for j using assms(1,3) that by (metis order.strict_trans less_irrefl)
    then show ?thesis by (simp add: find_None_iff)
  qed
  moreover have "find P (xs @ ys) = (case find P xs of None \<Rightarrow> find P ys | Some x \<Rightarrow> Some x)" for xs ys
    by (induction xs) simp_all
  ultimately show ?thesis using assms(2) by simp
qed

definition set_scan :: "int \<Rightarrow> int \<Rightarrow> jpeg_component_info \<Rightarrow> jpeg_component_info" where
  "set_scan td ta p = p\<lparr>dc_tbl_no := td, ac_tbl_no := ta\<rparr>"

definition scan_bytes_of :: "(nat \<Rightarrow> int) \<Rightarrow> (nat \<Rightarrow> int) \<Rightarrow> (nat \<Rightarrow> int) \<Rightarrow> nat \<Rightarrow> int list" where
  "scan_bytes_of ident td ta i = [ident i, push_bit 4 (td i) + ta i]"

text \<open>The components \<open>is\<close> can be found by their identifiers.\<close>

definition findable :: "(nat \<Rightarrow> int) \<Rightarrow> (nat \<Rightarrow> int) \<Rightarrow> (nat \<Rightarrow> int) \<Rightarrow> nat list \<Rightarrow> jpeg_decompress_struct \<Rightarrow> bool" where
  "findable ident td ta is c \<longleftrightarrow> sorted_wrt (<) is \<and> (\<forall>i \<in> set is. i < 4 \<and> int i < d_num_components c) \<and>
     d_num_components c \<le> int (length (d_comp_info c)) \<and>
     (\<forall>i < length (d_comp_info c). component_id (d_comp_info c ! i) = ident i \<and> 0 \<le> ident i \<and> ident i < 256) \<and>
     inj_on ident {..<length (d_comp_info c)} \<and> (\<forall>i \<in> set is. 0 \<le> td i \<and> td i < 16 \<and> 0 \<le> ta i \<and> ta i < 16)"

lemma findable_keep:
  assumes "findable ident td ta (i # is) (dinfo s)"
  shows "findable ident td ta is (dinfo (upd_comp i (set_scan a b) (upd (\<lambda>d. d\<lparr>d_cur_comp_info := x d\<rparr>) s)))"
proof -
  have "component_id ((d_comp_info (dinfo s))[i := set_scan a b (d_comp_info (dinfo s) ! i)] ! j) = ident j" if "j < length (d_comp_info (dinfo s))" for j
    using assms that by (cases "j = i") (simp_all add: findable_def set_scan_def)
  then show ?thesis using assms by (simp add: findable_def)
qed

lemma find_comp_at:
  assumes "findable ident td ta (i # is) c" "\<forall>j. k \<le> j \<and> j < 4 \<longrightarrow> d_cur_comp_info c ! j = None" "k \<le> i"
  shows "find_comp (ident i) c = Some i"
proof -
  have i: "i < 4" "int i < d_num_components c" "d_num_components c \<le> int (length (d_comp_info c))"
    "inj_on ident {..<length (d_comp_info c)}" using assms(1) by (simp_all add: findable_def)
  have ids: "component_id (d_comp_info c ! j) = ident j" if "j < length (d_comp_info c)" for j using assms(1) that by (simp add: findable_def)
  have u: "j = i" if "j < nat (min (d_num_components c) MAX_COMPS_IN_SCAN)" "ident i = component_id (d_comp_info c ! j)" for j
  proof -
    have "j < length (d_comp_info c)" "i < length (d_comp_info c)" using that(1) i(2,3) by (auto simp: MAX_COMPS_IN_SCAN_def)
    then show ?thesis using that(2) ids i(4) by (auto simp: inj_on_def)
  qed
  have "i < length (d_comp_info c)" using i(2,3) by linarith
  then show ?thesis unfolding find_comp_def
    by (intro find_upt) (use i ids assms(2,3) u in \<open>auto simp: MAX_COMPS_IN_SCAN_def\<close>)
qed

lemma feed_sos:
  assumes "findable ident td ta is (dinfo s)" "length (d_cur_comp_info (dinfo s)) = 4"
    and "\<forall>j. k \<le> j \<and> j < 4 \<longrightarrow> d_cur_comp_info (dinfo s) ! j = None" "\<forall>i \<in> set is. k \<le> i"
    and "\<forall>x \<in> set (take k (d_cur_comp_info (dinfo s))). \<exists>j. x = Some j \<and> (\<forall>i \<in> set is. j < i)"
      and "n = k + length is"
  shows "sos_components [k..<n] (feed (octets (concat (map (scan_bytes_of ident td ta) is)) @ rest) s) f =
     f (feed rest (fold (\<lambda>i. upd_comp i (set_scan (td i) (ta i))) is
        (upd (\<lambda>d. d\<lparr>d_cur_comp_info := take k (d_cur_comp_info d) @ map Some is @ drop (k + length is) (d_cur_comp_info d)\<rparr>) s)))"
  using assms
proof (induction "is" arbitrary: s k)
  case Nil
  then show ?case by (simp add: upd_def)
next
  case (Cons i "is")
  have "i < length (d_comp_info (dinfo s))" using Cons.prems(1) by (auto simp: findable_def)
  then have i: "i < 4" "k \<le> i" "0 \<le> ident i" "ident i < 256" "0 \<le> td i" "td i < 16" "0 \<le> ta i" "ta i < 16"
    using Cons.prems(1,4) by (auto simp: findable_def)
  note n = nibbles [OF i(5-8)]
  note F = find_comp_at [OF Cons.prems(1,3) i(2)]
  have kl: "k < length (d_cur_comp_info (dinfo s))" using i Cons.prems(2) by simp
  have ni: "Some i \<notin> set (take k (d_cur_comp_info (dinfo s)))" using Cons.prems(5) by force
  let ?s = "upd_comp i (set_scan (td i) (ta i)) (upd (\<lambda>d. d\<lparr>d_cur_comp_info := (d_cur_comp_info d)[k := Some i]\<rparr>) s)"
  have "\<forall>j \<in> set is. i < j" using Cons.prems(1) by (simp add: findable_def)
  then have IH: "sos_components [Suc k..<n] (feed (octets (concat (map (scan_bytes_of ident td ta) is)) @ rest) ?s) f =
     f (feed rest (fold (\<lambda>i. upd_comp i (set_scan (td i) (ta i))) is
        (upd (\<lambda>d. d\<lparr>d_cur_comp_info := take (Suc k) (d_cur_comp_info d) @ map Some is @ drop (Suc k + length is) (d_cur_comp_info d)\<rparr>) ?s)))"
    using Cons.prems(2-6) i(1,2) kl
    by (intro Cons.IH [OF findable_keep [OF Cons.prems(1)]]) (auto simp: take_Suc_conv_app_nth nth_list_update)
  have t: "take (Suc k) ((d_cur_comp_info (dinfo s))[k := Some i]) = take k (d_cur_comp_info (dinfo s)) @ [Some i]"
    using kl by (simp add: take_Suc_conv_app_nth)
  have e: "upd (\<lambda>d. d\<lparr>d_cur_comp_info := take (Suc k) (d_cur_comp_info d) @ map Some is @ drop (Suc k + length is) (d_cur_comp_info d)\<rparr>) ?s =
      upd_comp i (set_scan (td i) (ta i)) (upd (\<lambda>d. d\<lparr>d_cur_comp_info := take k (d_cur_comp_info d) @ map Some (i # is) @ drop (k + length (i # is)) (d_cur_comp_info d)\<rparr>) s)"
    using t by (simp add: upd_def upd_comp_def)
  have r: "[k..<n] = k # [Suc k..<n]" using Cons.prems(6) by (intro upt_conv_Cons) simp
  have sb: "octets (concat (map (scan_bytes_of ident td ta) (i # is))) =
      word_of_int (ident i) # word_of_int (push_bit 4 (td i) + ta i) # octets (concat (map (scan_bytes_of ident td ta) is))"
    by (simp add: scan_bytes_of_def del: of_int_add)
  have ss: "(\<lambda>p. p\<lparr>dc_tbl_no := td i, ac_tbl_no := ta i\<rparr>) = set_scan (td i) (ta i)" by (simp add: set_scan_def [abs_def])
  show ?case unfolding r sb using i(3,4) n F ni IH e ss by (simp del: of_int_add)
qed

lemma saw_commute [simp]:
  "(s\<lparr>unread_marker := m\<rparr>)\<lparr>saw_SOF := b\<rparr> = (s\<lparr>saw_SOF := b\<rparr>)\<lparr>unread_marker := m\<rparr>"
  "(s\<lparr>unread_marker := m\<rparr>)\<lparr>saw_SOI := b\<rparr> = (s\<lparr>saw_SOI := b\<rparr>)\<lparr>unread_marker := m\<rparr>"
  for s :: decompressor
  by (cases s; simp)+

definition learn_scan :: "nat list \<Rightarrow> (nat \<Rightarrow> int) \<Rightarrow> (nat \<Rightarrow> int) \<Rightarrow> int \<Rightarrow> int \<Rightarrow> int \<Rightarrow> int \<Rightarrow>
  jpeg_decompress_struct \<Rightarrow> jpeg_decompress_struct" where
  "learn_scan is td ta ss se ah al c = c\<lparr>d_comps_in_scan := int (length is), d_cur_comp_info := map Some is @ replicate (4 - length is) None,
     d_comp_info := map (\<lambda>i. if i \<in> set is then set_scan (td i) (ta i) (d_comp_info c ! i) else d_comp_info c ! i) [0..<length (d_comp_info c)],
     d_Ss := ss, d_Se := se, d_Ah := ah, d_Al := al, input_scan_number := input_scan_number c + 1\<rparr>"

definition sos_params :: "nat list \<Rightarrow> (nat \<Rightarrow> int) \<Rightarrow> (nat \<Rightarrow> int) \<Rightarrow> (nat \<Rightarrow> int) \<Rightarrow> int \<Rightarrow> int \<Rightarrow> int \<Rightarrow> int \<Rightarrow> int list" where
  "sos_params is ident td ta ss se ah al = emit_2bytes (2 * int (length is) + 2 + 1 + 3) @ [int (length is)] @
     concat (map (scan_bytes_of ident td ta) is) @ [ss, se, push_bit 4 ah + al]"

lemma get_sos_feed:
  assumes "saw_SOF s" "findable ident td ta is (dinfo s)" "1 \<le> length is" "length is \<le> 4"
    and "0 \<le> ss" "ss < 256" "0 \<le> se" "se < 256" "0 \<le> ah" "ah < 16" "0 \<le> al" "al < 16"
  shows "get_sos (feed (octets (sos_params is ident td ta ss se ah al) @ rest) s) =
      Inr (True, feed rest ((upd (learn_scan is td ta ss se ah al) s)\<lparr>next_restart_num := 0\<rparr>))"
proof -
  let ?n = "length is"
  define L where "L = 2 * int ?n + 2 + 1 + 3"
  have t: "0 \<le> L" "L < 65536" "L = int ?n * 2 + 6" using assms(4) by (simp_all add: L_def)
  have n1: "uint (word_of_int (int ?n) :: u8) = int ?n" using assms(4) by (intro uint_octet) simp_all
  have ne: "is \<noteq> []" using assms(3) by auto
  have nn: "\<not> (int ?n < 1 \<or> MAX_COMPS_IN_SCAN < int ?n)" using ne assms(4) by (simp add: MAX_COMPS_IN_SCAN_def)
  note nb = nibbles [OF assms(9-12)]
  define u where "u = upd (\<lambda>d. d\<lparr>d_comps_in_scan := int ?n, d_cur_comp_info := replicate 4 None\<rparr>) s"
  have "findable ident td ta is (dinfo u)" using assms(2) by (simp add: findable_def u_def)
  note F = feed_sos [OF this, where k = 0 and n = ?n]
  have S: "sos_components [0..<?n] (feed (octets (concat (map (scan_bytes_of ident td ta) is)) @ r) u) f =
     f (feed r (fold (\<lambda>i. upd_comp i (set_scan (td i) (ta i))) is
        (upd (\<lambda>d. d\<lparr>d_cur_comp_info := map Some is @ drop ?n (d_cur_comp_info d)\<rparr>) u)))" for r f
    by (subst F) (simp_all add: u_def)
  have d: "distinct is" using assms(2) by (simp add: findable_def strict_sorted_iff)
  have "upd (\<lambda>d. d\<lparr>d_Ah := ah, d_Al := al, input_scan_number := input_scan_number d + 1\<rparr>)
      (upd (\<lambda>d. d\<lparr>d_Se := se\<rparr>) (upd (\<lambda>d. d\<lparr>d_Ss := ss\<rparr>) (fold (\<lambda>i. upd_comp i (set_scan (td i) (ta i))) is
        (upd (\<lambda>d. d\<lparr>d_cur_comp_info := map Some is @ drop ?n (d_cur_comp_info d)\<rparr>) u)))) = upd (learn_scan is td ta ss se ah al) s"
    unfolding fold_upd_comp [OF d] by (simp add: u_def upd_def learn_scan_def)
  note final = this
  define K where "K = (\<lambda>s. INPUT_BYTE s (\<lambda>c s.
     INPUT_BYTE (upd (\<lambda>d. d\<lparr>d_Ss := c\<rparr>) s) (\<lambda>c s.
     INPUT_BYTE (upd (\<lambda>d. d\<lparr>d_Se := c\<rparr>) s) (\<lambda>c s.
     Inr (True, (upd (\<lambda>d. d\<lparr>d_Ah := drop_bit 4 c AND 15, d_Al := c AND 15,
       input_scan_number := input_scan_number d + 1\<rparr>) s)\<lparr>next_restart_num := 0\<rparr>)))))"
  have K: "K (feed (octets [ss, se, push_bit 4 ah + al] @ rest) v) = Inr (True, feed rest
      ((upd (\<lambda>d. d\<lparr>d_Ah := ah, d_Al := al, input_scan_number := input_scan_number d + 1\<rparr>)
      (upd (\<lambda>d. d\<lparr>d_Se := se\<rparr>) (upd (\<lambda>d. d\<lparr>d_Ss := ss\<rparr>) v)))\<lparr>next_restart_num := 0\<rparr>))" for v
    using assms(5-8) nb by (simp add: K_def del: of_int_add)
  have g: "get_sos v = backtrack v (INPUT_2BYTES v (\<lambda>length s.
     INPUT_BYTE s (\<lambda>n s.
     if length \<noteq> n * 2 + 6 \<or> n < 1 \<or> MAX_COMPS_IN_SCAN < n then Inl (ErrExit JERR_BAD_LENGTH) else
     sos_components [0..<nat n] (upd (\<lambda>d. d\<lparr>d_comps_in_scan := n, d_cur_comp_info := replicate 4 None\<rparr>) s) K)))"
    if "saw_SOF v" for v using that unfolding get_sos_def K_def by simp
  have o: "octets (sos_params is ident td ta ss se ah al) @ rest = octets (emit_2bytes L) @ word_of_int (int ?n) #
      octets (concat (map (scan_bytes_of ident td ta) is)) @ octets [ss, se, push_bit 4 ah + al] @ rest"
    by (simp add: sos_params_def L_def del: of_int_add of_int_of_nat_eq)
  have "INPUT_BYTE (feed (word_of_int (int ?n) # r) s) (\<lambda>n s.
     if L \<noteq> n * 2 + 6 \<or> n < 1 \<or> MAX_COMPS_IN_SCAN < n then Inl (ErrExit JERR_BAD_LENGTH) else
     sos_components [0..<nat n] (upd (\<lambda>d. d\<lparr>d_comps_in_scan := n, d_cur_comp_info := replicate 4 None\<rparr>) s) K) =
     sos_components [0..<?n] (feed r u) K" for r
    using nn t(3) unfolding u_def by (simp only: feed_BYTE n1 feed_fields) simp
  then have "get_sos (feed (octets (sos_params is ident td ta ss se ah al) @ rest) s) =
      backtrack (feed (octets (sos_params is ident td ta ss se ah al) @ rest) s)
        (sos_components [0..<?n] (feed (octets (concat (map (scan_bytes_of ident td ta) is)) @ octets [ss, se, push_bit 4 ah + al] @ rest) u) K)"
    using assms(1) by (simp only: g feed_fields o feed_2BYTES [OF t(1,2)])
  then show ?thesis unfolding S K final by simp
qed

lemma read_sos:
  assumes "ready s" "saw_SOF s" "findable ident td ta is (dinfo s)" "1 \<le> length is" "length is \<le> 4"
    and "0 \<le> ss" "ss < 256" "0 \<le> se" "se < 256" "0 \<le> ah" "ah < 16" "0 \<le> al" "al < 16"
  shows "read_markers (feed (octets (emit_marker M_SOS @ sos_params is ident td ta ss se ah al) @ rest) s) =
      Inr (JPEG_REACHED_SOS, feed rest ((upd (learn_scan is td ta ss se ah al) s)\<lparr>next_restart_num := 0\<rparr>))"
proof -
  have u: "(upd f s)\<lparr>next_restart_num := 0, unread_marker := 0\<rparr> = (upd f s)\<lparr>next_restart_num := 0\<rparr>" for f
    using assms(1) by (simp add: ready_def upd_def)
  have "get_sos (feed (octets (sos_params is ident td ta ss se ah al) @ rest) (s\<lparr>unread_marker := M_SOS\<rparr>)) =
      Inr (True, feed rest ((upd (learn_scan is td ta ss se ah al) (s\<lparr>unread_marker := M_SOS\<rparr>))\<lparr>next_restart_num := 0\<rparr>))"
    by (rule get_sos_feed) (use assms in simp_all)
  then show ?thesis
    using obtain_feed [OF assms(1), of M_SOS "octets (sos_params is ident td ta ss se ah al) @ rest"] u
    by (subst read_markers.simps) (simp add: marker_codes)
qed

lemma fed_sof:
  assumes "ready s" "(m, pr, ar) \<in> {(M_SOF0, False, False), (M_SOF1, False, False), (M_SOF2, True, False), (M_SOF9, False, True), (M_SOF10, True, True)}"
    and "\<not> saw_SOF s" "d_comp_info (dinfo s) = []" "1 \<le> length cs" "length cs < 256" "\<forall>c \<in> set cs. frame_byte c"
    and "0 < h" "h < 65536" "0 < w" "w < 65536" "0 \<le> prec" "prec < 256"
  shows "fed (octets (emit_marker m @ emit_2bytes (3 * int (length cs) + 2 + 5 + 1) @ [prec] @ emit_2bytes h @ emit_2bytes w @
           [int (length cs)] @ concat (map frame_bytes cs))) s ((upd (learn_frame pr ar prec h w cs (fresh_comp s)) s)\<lparr>saw_SOF := True\<rparr>)"
proof (rule fed_segment)
  fix rest
  let ?s = "s\<lparr>unread_marker := m\<rparr>"
  have p: "process_marker (feed b ?s) = get_sof pr ar (feed b ?s)" for b
    using assms(2) by (auto simp: process_marker_def marker_codes)
  have "get_sof pr ar (feed (octets (emit_2bytes (3 * int (length cs) + 2 + 5 + 1) @ [prec] @ emit_2bytes h @ emit_2bytes w @
           [int (length cs)] @ concat (map frame_bytes cs)) @ rest) ?s) =
      Inr (True, feed rest ((upd (learn_frame pr ar prec h w cs (fresh_comp ?s)) ?s)\<lparr>saw_SOF := True\<rparr>))"
    by (rule get_sof_feed) (use assms in simp_all)
  then show "process_marker (feed (octets (emit_2bytes (3 * int (length cs) + 2 + 5 + 1) @ [prec] @ emit_2bytes h @ emit_2bytes w @
           [int (length cs)] @ concat (map frame_bytes cs)) @ rest) ?s) =
      Inr (True, feed rest (((upd (learn_frame pr ar prec h w cs (fresh_comp s)) s)\<lparr>saw_SOF := True\<rparr>)\<lparr>unread_marker := m\<rparr>))"
    unfolding p by simp
qed (use assms(1,2) in \<open>auto simp: marker_codes ready_def upd_def\<close>)

definition learn_soi :: "jpeg_decompress_struct \<Rightarrow> jpeg_decompress_struct" where
  "learn_soi c = c\<lparr>d_arith_dc_L := replicate NUM_ARITH_TBLS 0, d_arith_dc_U := replicate NUM_ARITH_TBLS 1,
        d_arith_ac_K := replicate NUM_ARITH_TBLS 5, d_restart_interval := 0, d_jpeg_color_space := JCS_UNKNOWN,
        d_CCIR601_sampling := False, saw_JFIF_marker := False, d_JFIF_major_version := 1, d_JFIF_minor_version := 1,
        d_density_unit := 0, d_X_density := 1, d_Y_density := 1, saw_Adobe_marker := False, Adobe_transform := 0\<rparr>"

lemma fed_soi:
  assumes "unread_marker s = 0" "\<not> saw_SOI s" "discarded_bytes s = 0"
  shows "fed (octets (emit_marker M_SOI)) s ((upd learn_soi s)\<lparr>saw_SOI := True\<rparr>)"
proof -
  have "first_marker (feed (octets (emit_marker M_SOI) @ rest) s) = Inr (True, feed rest (s\<lparr>unread_marker := M_SOI\<rparr>))" for rest
    by (simp add: first_marker_def emit_marker_def marker_codes)
  then have o: "obtain_marker (feed (octets (emit_marker M_SOI) @ rest) s) = Inr (True, feed rest (s\<lparr>unread_marker := M_SOI\<rparr>))" for rest
    using assms by (simp add: obtain_marker_def)
  have "M_SOI \<noteq> M_SOS" "M_SOI \<noteq> M_EOI" by (simp_all add: marker_codes)
  moreover have "((upd learn_soi s)\<lparr>saw_SOI := True\<rparr>)\<lparr>unread_marker := 0\<rparr> = (upd learn_soi s)\<lparr>saw_SOI := True\<rparr>" using assms(1) by (simp add: upd_def)
  moreover have "process_marker (feed b (s\<lparr>unread_marker := M_SOI\<rparr>)) = Inr (True, feed b (((upd learn_soi s)\<lparr>saw_SOI := True\<rparr>)\<lparr>unread_marker := M_SOI\<rparr>))" for b
    using assms by (simp add: process_marker_def get_soi_def learn_soi_def [abs_def])
  ultimately show ?thesis unfolding fed_def using o by (subst read_markers.simps) simp
qed

end
