(* ===== verification/MarkerRoundtrip.thy ===== *)
theory MarkerRoundtrip imports MarkerFeed begin

text \<open>
  What \<open>jcmarker.c\<close> writes, \<open>jdmarker.c\<close> reads back: the headers of a Huffman-coded file, with the
  tables not yet sent.
\<close>

section \<open>What the writer puts into the destination\<close>

text \<open>The parameters without the notes which tables were sent.\<close>

definition forget :: "jpeg_compress_struct \<Rightarrow> jpeg_compress_struct" where
  "forget ci = ci\<lparr>quant_tbl_ptrs := map (map_option (JQUANT_TBL.sent_table_update (\<lambda>_. True))) (quant_tbl_ptrs ci),
     dc_huff_tbl_ptrs := map (map_option (JHUFF_TBL.sent_table_update (\<lambda>_. True))) (dc_huff_tbl_ptrs ci),
     ac_huff_tbl_ptrs := map (map_option (JHUFF_TBL.sent_table_update (\<lambda>_. True))) (ac_huff_tbl_ptrs ci)\<rparr>"

lemma forget_fields:
  assumes "forget a = forget b"
  shows "num_components a = num_components b" "comp_info a = comp_info b" "comps_in_scan a = comps_in_scan b"
    "cur_comp_info a = cur_comp_info b" "Ss a = Ss b" "Se a = Se b" "Ah a = Ah b" "Al a = Al b"
    "restart_interval a = restart_interval b" "arith_code a = arith_code b" "progressive_mode a = progressive_mode b"
    "data_precision a = data_precision b" "image_height a = image_height b" "image_width a = image_width b"
    "scan_components a = scan_components b" "length (quant_tbl_ptrs a) = length (quant_tbl_ptrs b)"
    "length (dc_huff_tbl_ptrs a) = length (dc_huff_tbl_ptrs b)" "length (ac_huff_tbl_ptrs a) = length (ac_huff_tbl_ptrs b)"
    "write_JFIF_header a = write_JFIF_header b" "write_Adobe_marker a = write_Adobe_marker b"
proof -
  have f: "f (forget a) = f (forget b)" for f :: "jpeg_compress_struct \<Rightarrow> 'x" using assms by simp
  show "num_components a = num_components b" "comp_info a = comp_info b" "comps_in_scan a = comps_in_scan b"
    "cur_comp_info a = cur_comp_info b" "Ss a = Ss b" "Se a = Se b" "Ah a = Ah b" "Al a = Al b"
    "restart_interval a = restart_interval b" "arith_code a = arith_code b" "progressive_mode a = progressive_mode b"
    "data_precision a = data_precision b" "image_height a = image_height b" "image_width a = image_width b"
    "scan_components a = scan_components b" "length (quant_tbl_ptrs a) = length (quant_tbl_ptrs b)"
    "length (dc_huff_tbl_ptrs a) = length (dc_huff_tbl_ptrs b)" "length (ac_huff_tbl_ptrs a) = length (ac_huff_tbl_ptrs b)"
    "write_JFIF_header a = write_JFIF_header b" "write_Adobe_marker a = write_Adobe_marker b"
    using f [of num_components] f [of comp_info] f [of comps_in_scan] f [of cur_comp_info] f [of Ss] f [of Se] f [of Ah] f [of Al]
      f [of restart_interval] f [of arith_code] f [of progressive_mode] f [of data_precision] f [of image_height] f [of image_width]
      f [of "length \<circ> quant_tbl_ptrs"] f [of "length \<circ> dc_huff_tbl_ptrs"] f [of "length \<circ> ac_huff_tbl_ptrs"]
      f [of write_JFIF_header] f [of write_Adobe_marker]
    by (simp_all add: forget_def scan_components_def)
qed

lemma forget_sent:
  "quant_tbl_ptrs ci ! n = Some q \<Longrightarrow> forget (ci\<lparr>quant_tbl_ptrs := (quant_tbl_ptrs ci)[n := Some (q\<lparr>JQUANT_TBL.sent_table := True\<rparr>)]\<rparr>) = forget ci"
  "dc_huff_tbl_ptrs ci ! n = Some h \<Longrightarrow> forget (ci\<lparr>dc_huff_tbl_ptrs := (dc_huff_tbl_ptrs ci)[n := Some (h\<lparr>JHUFF_TBL.sent_table := True\<rparr>)]\<rparr>) = forget ci"
  "ac_huff_tbl_ptrs ci ! n = Some h \<Longrightarrow> forget (ci\<lparr>ac_huff_tbl_ptrs := (ac_huff_tbl_ptrs ci)[n := Some (h\<lparr>JHUFF_TBL.sent_table := True\<rparr>)]\<rparr>) = forget ci"
proof -
  have l: "(map f xs)[n := f x] = map f xs" if "xs ! n = x" for f :: "'a \<Rightarrow> 'b" and xs x
    using that by (metis list_update_id map_update)
  show "quant_tbl_ptrs ci ! n = Some q \<Longrightarrow> forget (ci\<lparr>quant_tbl_ptrs := (quant_tbl_ptrs ci)[n := Some (q\<lparr>JQUANT_TBL.sent_table := True\<rparr>)]\<rparr>) = forget ci"
    using l [of "quant_tbl_ptrs ci" "Some q" "map_option (JQUANT_TBL.sent_table_update (\<lambda>_. True))"] by (simp add: forget_def map_update)
  show "dc_huff_tbl_ptrs ci ! n = Some h \<Longrightarrow> forget (ci\<lparr>dc_huff_tbl_ptrs := (dc_huff_tbl_ptrs ci)[n := Some (h\<lparr>JHUFF_TBL.sent_table := True\<rparr>)]\<rparr>) = forget ci"
    using l [of "dc_huff_tbl_ptrs ci" "Some h" "map_option (JHUFF_TBL.sent_table_update (\<lambda>_. True))"] by (simp add: forget_def map_update)
  show "ac_huff_tbl_ptrs ci ! n = Some h \<Longrightarrow> forget (ci\<lparr>ac_huff_tbl_ptrs := (ac_huff_tbl_ptrs ci)[n := Some (h\<lparr>JHUFF_TBL.sent_table := True\<rparr>)]\<rparr>) = forget ci"
    using l [of "ac_huff_tbl_ptrs ci" "Some h" "map_option (JHUFF_TBL.sent_table_update (\<lambda>_. True))"] by (simp add: forget_def map_update)
qed

definition stream :: "('z jpeg_destination_mgr_scheme \<Rightarrow> u8 list) \<Rightarrow> 'z jpeg_destination_mgr_scheme marker_writer \<Rightarrow> u8 list" where
  "stream handed w = handed (wr_dest w) @ pending (wr_dest w)"

definition room :: "('z jpeg_destination_mgr_scheme \<Rightarrow> bool) \<Rightarrow> 'z jpeg_destination_mgr_scheme marker_writer \<Rightarrow> bool" where
  "room dest_ok w \<longleftrightarrow> dest_ok (wr_dest w) \<and> 0 < free_in_buffer (wr_dest w)"

lemma stream_fields [simp]:
  "stream h (w\<lparr>wr_cinfo := c\<rparr>) = stream h w" "stream h (w\<lparr>last_restart_interval := r\<rparr>) = stream h w"
  "room k (w\<lparr>wr_cinfo := c\<rparr>) = room k w" "room k (w\<lparr>last_restart_interval := r\<rparr>) = room k w"
  by (simp_all add: stream_def room_def)

context destination
begin

lemma emit_byte_stream:
  assumes "dest_ok d" "0 < free_in_buffer d" "marker_emit_byte empty_buffer v d = Inr d'"
  shows "dest_ok d' \<and> 0 < free_in_buffer d' \<and> handed d' @ pending d' = handed d @ pending d @ [word_of_int v]"
proof -
  define e where "e = d\<lparr>buffer := (buffer d)[next_output_byte d := word_of_int v], next_output_byte := next_output_byte d + 1,
    free_in_buffer := free_in_buffer d - 1\<rparr>"
  have b: "next_output_byte d + free_in_buffer d = length (buffer d)" using dest_bounds [OF assms(1)] .
  then have l: "next_output_byte d < length (buffer d)" using assms(2) by simp
  have ok: "dest_ok e" unfolding e_def by (rule dest_store) (use assms b in simp_all)
  have "take (Suc (next_output_byte d)) ((buffer d)[next_output_byte d := x]) = take (next_output_byte d) (buffer d) @ [x]" for x
    using l by (simp add: take_Suc_conv_app_nth)
  then have s: "handed e @ pending e = handed d @ pending d @ [word_of_int v]"
    unfolding e_def by (simp add: handed_store pending_def)
  show ?thesis
  proof (cases "free_in_buffer e = 0")
    case True
    then have "empty_buffer e = Inr (True, d')" using assms(3) l
      by (auto simp: marker_emit_byte_def Let_def e_def ebind_eq_Inr split: if_splits)
    moreover have "next_output_byte e = length (buffer e)" using True dest_bounds [OF ok] by simp
    ultimately show ?thesis using empty_full [OF ok] empty_stream [OF ok] s by simp
  next
    case False
    then have "d' = e" using assms(3) l by (simp add: marker_emit_byte_def Let_def e_def)
    then show ?thesis using ok s False by simp
  qed
qed

lemma emit_bytes_stream:
  assumes "dest_ok d" "0 < free_in_buffer d" "emit_bytes empty_buffer vs d = Inr d'"
  shows "dest_ok d' \<and> 0 < free_in_buffer d' \<and> handed d' @ pending d' = handed d @ pending d @ octets vs"
  using assms
proof (induction vs arbitrary: d)
  case (Cons v vs)
  obtain e where e: "marker_emit_byte empty_buffer v d = Inr e" "emit_bytes empty_buffer vs e = Inr d'"
    using Cons.prems(3) by (auto simp: ebind_eq_Inr)
  note s = emit_byte_stream [OF Cons.prems(1,2) e(1)]
  show ?case using Cons.IH [of e] s e(2) by simp
qed simp

lemma emit_stream:
  assumes "room dest_ok w" "emit empty_buffer vs w = Inr w'"
  shows "\<exists>d. w' = w\<lparr>wr_dest := d\<rparr> \<and> room dest_ok w' \<and> stream handed w' = stream handed w @ octets vs"
  using assms emit_bytes_stream [of "wr_dest w" vs] by (auto simp: emit_def ebind_eq_Inr room_def stream_def)

end

section \<open>Tables both sides know\<close>

text \<open>The reader's copy of a Huffman table: the counts, and the symbols there are.\<close>

definition same_huff :: "JHUFF_TBL \<Rightarrow> JHUFF_TBL \<Rightarrow> bool" where
  "same_huff h h' \<longleftrightarrow> drop 1 (bits h') = drop 1 (bits h) \<and>
     take (nat (huff_length (bits h))) (huffval h') = take (nat (huff_length (bits h))) (huffval h)"

definition tables_ok :: "jpeg_compress_struct \<Rightarrow> bool" where
  "tables_ok ci \<longleftrightarrow> length (quant_tbl_ptrs ci) = 4 \<and> length (dc_huff_tbl_ptrs ci) = 4 \<and> length (ac_huff_tbl_ptrs ci) = 4 \<and>
     list_all (pred_option (\<lambda>q. length (quantval q) = 64)) (quant_tbl_ptrs ci) \<and>
     list_all (pred_option (\<lambda>h. length (bits h) = 17 \<and> length (huffval h) = 256)) (dc_huff_tbl_ptrs ci) \<and>
     list_all (pred_option (\<lambda>h. length (bits h) = 17 \<and> length (huffval h) = 256)) (ac_huff_tbl_ptrs ci)"

lemma tables_ok_forget: "tables_ok (forget ci) = tables_ok ci"
  by (simp add: tables_ok_def forget_def list_all_length option.pred_map comp_def)

lemma tables_ok_cong: "forget a = forget b \<Longrightarrow> tables_ok a = tables_ok b"
  by (metis tables_ok_forget)

definition huff_ptrs :: "bool \<Rightarrow> jpeg_compress_struct \<Rightarrow> JHUFF_TBL option list" where
  "huff_ptrs ac ci = (if ac then ac_huff_tbl_ptrs ci else dc_huff_tbl_ptrs ci)"

definition d_huff_ptrs :: "bool \<Rightarrow> jpeg_decompress_struct \<Rightarrow> JHUFF_TBL option list" where
  "d_huff_ptrs ac d = (if ac then d_ac_huff_tbl_ptrs d else d_dc_huff_tbl_ptrs d)"

definition quant_sent :: "int \<Rightarrow> jpeg_compress_struct \<Rightarrow> bool" where
  "quant_sent k ci \<longleftrightarrow> 0 \<le> k \<and> k < 4 \<and> (\<exists>q. quant_tbl_ptrs ci ! nat k = Some q \<and> JQUANT_TBL.sent_table q)"

definition huff_sent :: "bool \<Rightarrow> int \<Rightarrow> jpeg_compress_struct \<Rightarrow> bool" where
  "huff_sent ac k ci \<longleftrightarrow> 0 \<le> k \<and> k < 4 \<and> (\<exists>h. huff_ptrs ac ci ! nat k = Some h \<and> JHUFF_TBL.sent_table h)"

text \<open>The reader has the tables that the writer takes to be sent.\<close>

definition knows_quant :: "int \<Rightarrow> jpeg_compress_struct \<Rightarrow> jpeg_decompress_struct \<Rightarrow> bool" where
  "knows_quant k ci d \<longleftrightarrow> 0 \<le> k \<and> k < 4 \<and> (\<exists>q t. quant_tbl_ptrs ci ! nat k = Some q \<and> d_quant_tbl_ptrs d ! nat k = Some t \<and> quantval t = quantval q)"

definition knows_huff :: "bool \<Rightarrow> int \<Rightarrow> jpeg_compress_struct \<Rightarrow> jpeg_decompress_struct \<Rightarrow> bool" where
  "knows_huff ac k ci d \<longleftrightarrow> 0 \<le> k \<and> k < 4 \<and> (\<exists>h t. huff_ptrs ac ci ! nat k = Some h \<and> d_huff_ptrs ac d ! nat k = Some t \<and> same_huff h t)"

definition in_sync :: "jpeg_compress_struct \<Rightarrow> decompressor \<Rightarrow> bool" where
  "in_sync ci s \<longleftrightarrow> quants_ok s \<and> length (d_dc_huff_tbl_ptrs (dinfo s)) = 4 \<and> length (d_ac_huff_tbl_ptrs (dinfo s)) = 4 \<and>
     (\<forall>k. quant_sent k ci \<longrightarrow> knows_quant k ci (dinfo s)) \<and> (\<forall>ac k. huff_sent ac k ci \<longrightarrow> knows_huff ac k ci (dinfo s))"

definition sent_le :: "jpeg_compress_struct \<Rightarrow> jpeg_compress_struct \<Rightarrow> bool" where
  "sent_le a b \<longleftrightarrow> (\<forall>k. quant_sent k a \<longrightarrow> quant_sent k b) \<and> (\<forall>ac k. huff_sent ac k a \<longrightarrow> huff_sent ac k b)"

text \<open>A step of the writer that puts \<open>bs\<close> into the destination and may note tables as sent.\<close>

definition wrote :: "('z jpeg_destination_mgr_scheme \<Rightarrow> u8 list) \<Rightarrow> ('z jpeg_destination_mgr_scheme \<Rightarrow> bool) \<Rightarrow>
  'z jpeg_destination_mgr_scheme marker_writer \<Rightarrow> u8 list \<Rightarrow> 'z jpeg_destination_mgr_scheme marker_writer \<Rightarrow> bool" where
  "wrote h k w bs w' \<longleftrightarrow> room k w' \<and> stream h w' = stream h w @ bs \<and> forget (wr_cinfo w') = forget (wr_cinfo w) \<and>
     sent_le (wr_cinfo w) (wr_cinfo w')"

lemma wrote_trans: "wrote h k w as v \<Longrightarrow> wrote h k v bs u \<Longrightarrow> wrote h k w (as @ bs) u"
  by (auto simp: wrote_def sent_le_def)

lemma wrote_refl: "room k w \<Longrightarrow> wrote h k w [] w"
  by (simp add: wrote_def sent_le_def)

context destination
begin

lemma emit_wrote:
  "room dest_ok w \<Longrightarrow> emit empty_buffer vs w = Inr w' \<Longrightarrow> wrote handed dest_ok w (octets vs) w' \<and> (\<exists>d. w' = w\<lparr>wr_dest := d\<rparr>)"
  using emit_stream [of w vs w'] by (auto simp: wrote_def sent_le_def)

end

lemma quant_bytes_codes:
  "quant_bytes (quant_prec q) q = concat (map (\<lambda>i. quant_code (quant_prec q \<noteq> 0) (quantval q ! (jpeg_natural_order ! i))) [0..<64])"
  by (simp add: quant_bytes_def quant_code_def Let_def DCTSIZE2_def)

lemma quant_prec_fits:
  assumes "length (quantval q) = 64"
  shows "\<forall>v \<in> set (quantval q). quant_prec q \<noteq> 0 \<or> uint v < 256"
proof (cases "quant_prec q = 0")
  case True
  then have "\<forall>i < 64. \<not> 255 < quantval q ! i" by (auto simp: quant_prec_def list_ex_iff DCTSIZE2_def split: if_splits)
  then show ?thesis using assms by (auto simp: in_set_conv_nth word_less_def) force
qed simp

lemma tables_okD:
  "tables_ok ci \<Longrightarrow> n < 4 \<Longrightarrow> quant_tbl_ptrs ci ! n = Some q \<Longrightarrow> length (quantval q) = 64"
  "tables_ok ci \<Longrightarrow> n < 4 \<Longrightarrow> huff_ptrs ac ci ! n = Some h \<Longrightarrow> length (bits h) = 17 \<and> length (huffval h) = 256"
  by (auto simp: tables_ok_def list_all_length huff_ptrs_def dest!: spec [of _ n] split: if_splits)

text \<open>A table that is sent now becomes known.\<close>

lemma knows_quant_cong: "d_quant_tbl_ptrs d = d_quant_tbl_ptrs d' \<Longrightarrow> knows_quant k ci d = knows_quant k ci d'"
  by (simp add: knows_quant_def)

lemma in_sync_quant:
  assumes "in_sync ci s" "tables_ok ci" "quant_tbl_ptrs ci ! n = Some q" "n < 4"
  shows "in_sync (ci\<lparr>quant_tbl_ptrs := (quant_tbl_ptrs ci)[n := Some (q\<lparr>JQUANT_TBL.sent_table := True\<rparr>)]\<rparr>)
     (upd (learn_quant (fresh_quant s) n (quantval q)) s)"
proof -
  define ci' where "ci' = ci\<lparr>quant_tbl_ptrs := (quant_tbl_ptrs ci)[n := Some (q\<lparr>JQUANT_TBL.sent_table := True\<rparr>)]\<rparr>"
  define s' where "s' = upd (learn_quant (fresh_quant s) n (quantval q)) s"
  have l: "length (d_quant_tbl_ptrs (dinfo s)) = 4" "length (quant_tbl_ptrs ci) = 4" "length (quantval q) = 64"
    using assms tables_okD(1) [OF assms(2,4,3)] by (simp_all add: in_sync_def quants_ok_def tables_ok_def)
  have h: "huff_ptrs ac ci' = huff_ptrs ac ci" "d_huff_ptrs ac (dinfo s') = d_huff_ptrs ac (dinfo s)" for ac
    by (simp_all add: huff_ptrs_def d_huff_ptrs_def ci'_def s'_def learn_quant_def put_quant_def)
  obtain t where t: "d_quant_tbl_ptrs (dinfo s') = (d_quant_tbl_ptrs (dinfo s))[n := Some t]" "quantval t = quantval q"
    using l assms(4) by (cases "d_quant_tbl_ptrs (dinfo s) ! n") (auto simp: s'_def learn_quant_def put_quant_def)
  have k: "quant_sent k ci' \<Longrightarrow> knows_quant k ci' (dinfo s')" for k
    using assms l t by (cases "nat k = n") (auto simp: quant_sent_def knows_quant_def ci'_def in_sync_def)
  have "set (d_quant_tbl_ptrs (dinfo s')) \<subseteq> insert (Some t) (set (d_quant_tbl_ptrs (dinfo s)))" unfolding t(1) by (rule set_update_subset_insert)
  then have q: "quants_ok s'" using assms(1) l t by (auto simp: in_sync_def quants_ok_def s'_def learn_quant_def put_quant_def)
  have "length (d_dc_huff_tbl_ptrs (dinfo s')) = 4" "length (d_ac_huff_tbl_ptrs (dinfo s')) = 4"
    using assms(1) by (simp_all add: in_sync_def s'_def learn_quant_def put_quant_def)
  then show ?thesis
    using assms(1) q k h by (fold ci'_def s'_def) (simp add: in_sync_def huff_sent_def knows_huff_def)
qed

lemma sent_le_quant: "n < length (quant_tbl_ptrs ci) \<Longrightarrow> quant_tbl_ptrs ci ! n = Some q \<Longrightarrow>
   sent_le ci (ci\<lparr>quant_tbl_ptrs := (quant_tbl_ptrs ci)[n := Some (q\<lparr>JQUANT_TBL.sent_table := True\<rparr>)]\<rparr>)"
  by (auto simp: sent_le_def quant_sent_def huff_sent_def huff_ptrs_def nth_list_update)

context destination
begin

lemma dqt_step:
  assumes "room dest_ok w" "tables_ok (wr_cinfo w)" "in_sync (wr_cinfo w) s" "ready s" "emit_dqt empty_buffer k w = Inr (p, w')"
  obtains bs Q where "wrote handed dest_ok w bs w'" "last_restart_interval w' = last_restart_interval w"
    "fed bs s (upd (\<lambda>c. c\<lparr>d_quant_tbl_ptrs := Q\<rparr>) s)" "in_sync (wr_cinfo w') (upd (\<lambda>c. c\<lparr>d_quant_tbl_ptrs := Q\<rparr>) s)"
    "quant_sent k (wr_cinfo w')"
proof -
  have r: "0 \<le> k" "k < 4" using assms(5) by (auto simp: emit_dqt_def NUM_QUANT_TBLS_def split: if_splits)
  obtain q where q: "quant_tbl_ptrs (wr_cinfo w) ! nat k = Some q"
    using assms(5) r by (auto simp: emit_dqt_def NUM_QUANT_TBLS_def split: option.splits)
  have l: "length (quant_tbl_ptrs (wr_cinfo w)) = 4" "length (quantval q) = 64" using assms(2) tables_okD(1) [OF assms(2) _ q] r by (simp_all add: tables_ok_def)
  show ?thesis
  proof (cases "JQUANT_TBL.sent_table q")
    case True
    then have "w' = w" using assms(5) r q by (simp add: emit_dqt_def NUM_QUANT_TBLS_def)
    moreover have "upd (\<lambda>c. c\<lparr>d_quant_tbl_ptrs := d_quant_tbl_ptrs (dinfo s)\<rparr>) s = s" by (simp add: upd_def)
    ultimately show ?thesis using that [of "[]" "d_quant_tbl_ptrs (dinfo s)"] assms True q r
      by (simp add: wrote_refl fed_Nil quant_sent_def)
  next
    case False
    let ?bs = "octets (emit_marker M_DQT @ emit_2bytes (if quant_prec q \<noteq> 0 then 64 * 2 + 1 + 2 else 64 + 1 + 2) @
           [int (nat k) + (if quant_prec q \<noteq> 0 then 16 else 0)] @
           concat (map (\<lambda>i. quant_code (quant_prec q \<noteq> 0) (quantval q ! (jpeg_natural_order ! i))) [0..<64]))"
    let ?ci = "(wr_cinfo w)\<lparr>quant_tbl_ptrs := (quant_tbl_ptrs (wr_cinfo w))[nat k := Some (q\<lparr>JQUANT_TBL.sent_table := True\<rparr>)]\<rparr>"
    have pb: "push_bit 4 (quant_prec q) = (if quant_prec q \<noteq> 0 then 16 else 0)" by (simp add: quant_prec_def)
    have d: "(if quant_prec q \<noteq> 0 then int DCTSIZE2 * 2 + 1 + 2 else int DCTSIZE2 + 1 + 2) = (if quant_prec q \<noteq> 0 then 64 * 2 + 1 + 2 else 64 + 1 + 2)"
      by (simp add: DCTSIZE2_def)
    obtain v where v: "emit empty_buffer (emit_marker M_DQT @ emit_2bytes (if quant_prec q \<noteq> 0 then 64 * 2 + 1 + 2 else 64 + 1 + 2) @
           [int (nat k) + (if quant_prec q \<noteq> 0 then 16 else 0)] @ quant_bytes (quant_prec q) q) w = Inr v"
        "w' = v\<lparr>wr_cinfo := (wr_cinfo v)\<lparr>quant_tbl_ptrs := (quant_tbl_ptrs (wr_cinfo v))[nat k := Some (q\<lparr>JQUANT_TBL.sent_table := True\<rparr>)]\<rparr>\<rparr>"
      using assms(5) r q False unfolding emit_dqt_def by (auto simp: NUM_QUANT_TBLS_def Let_def ebind_eq_Inr pb d)
    obtain d where d: "v = w\<lparr>wr_dest := d\<rparr>" "wrote handed dest_ok w ?bs v"
      using emit_wrote [OF assms(1) v(1)] unfolding quant_bytes_codes by blast
    have ci: "wr_cinfo w' = ?ci" using v(2) d(1) by simp
    have W: "wrote handed dest_ok w ?bs w'"
      using d(2) v(2) l r q forget_sent(1) [OF q] sent_le_quant [of "nat k" "wr_cinfo w" q] unfolding d(1) wrote_def by simp
    define Q where "Q = d_quant_tbl_ptrs (learn_quant (fresh_quant s) (nat k) (quantval q) (dinfo s))"
    have u: "upd (\<lambda>c. c\<lparr>d_quant_tbl_ptrs := Q\<rparr>) s = upd (learn_quant (fresh_quant s) (nat k) (quantval q)) s"
      by (simp add: upd_def Q_def learn_quant_def put_quant_def)
    have F: "fed ?bs s (upd (\<lambda>c. c\<lparr>d_quant_tbl_ptrs := Q\<rparr>) s)"
      unfolding u by (rule fed_dqt) (use assms r l quant_prec_fits in \<open>auto simp: in_sync_def\<close>)
    show ?thesis
      by (rule that [OF W _ F]) (use v(2) d(1) ci u in_sync_quant [OF assms(3,2) q] r l in \<open>simp_all add: quant_sent_def\<close>)
  qed
qed

end

text \<open>Huffman tables.\<close>

lemma huff_length_drop: "length bs = 17 \<Longrightarrow> huff_length bs = sum_list (map uint (drop 1 bs))"
  unfolding huff_length_def
  by (rule arg_cong [of _ _ sum_list]) (auto intro: nth_equalityI)

lemma bits_bytes: "length bs = 17 \<Longrightarrow> map (\<lambda>i. uint (bs ! i)) [1..<17] = map uint (drop 1 bs)" for bs :: "u8 list"
  by (auto intro: nth_equalityI)

definition mark_huff :: "bool \<Rightarrow> nat \<Rightarrow> JHUFF_TBL \<Rightarrow> jpeg_compress_struct \<Rightarrow> jpeg_compress_struct" where
  "mark_huff ac n h ci = (if ac then ci\<lparr>ac_huff_tbl_ptrs := (ac_huff_tbl_ptrs ci)[n := Some (h\<lparr>JHUFF_TBL.sent_table := True\<rparr>)]\<rparr>
     else ci\<lparr>dc_huff_tbl_ptrs := (dc_huff_tbl_ptrs ci)[n := Some (h\<lparr>JHUFF_TBL.sent_table := True\<rparr>)]\<rparr>)"

lemma mark_huff_ptrs:
  "huff_ptrs b (mark_huff ac n h ci) = (if b = ac then (huff_ptrs b ci)[n := Some (h\<lparr>JHUFF_TBL.sent_table := True\<rparr>)] else huff_ptrs b ci)"
  "quant_tbl_ptrs (mark_huff ac n h ci) = quant_tbl_ptrs ci"
  by (auto simp: mark_huff_def huff_ptrs_def)

lemma huff_ptrs_length: "tables_ok ci \<Longrightarrow> length (huff_ptrs ac ci) = 4"
  by (simp add: tables_ok_def huff_ptrs_def)

lemma in_sync_huff:
  assumes "in_sync ci s" "tables_ok ci" "huff_ptrs ac ci ! n = Some h" "n < 4"
    and "hv = take (nat (huff_length (bits h))) (huffval h)" "nat (huff_length (bits h)) \<le> 256"
  shows "in_sync (mark_huff ac n h ci) (upd (put_huff ac n (drop 1 (bits h)) hv) s)"
proof -
  define ci' where "ci' = mark_huff ac n h ci"
  define s' where "s' = upd (put_huff ac n (drop 1 (bits h)) hv) s"
  note H = tables_okD(2) [OF assms(2,4,3)]
  have D: "length (d_huff_ptrs b (dinfo s)) = 4" for b using assms(1) by (simp add: in_sync_def d_huff_ptrs_def)
  obtain t where t: "d_huff_ptrs ac (dinfo s') = (d_huff_ptrs ac (dinfo s))[n := Some t]"
      "bits t = 0 # drop 1 (bits h)" "huffval t = hv @ replicate (256 - length hv) 0"
    by (cases ac) (auto simp: s'_def put_huff_def d_huff_ptrs_def Let_def)
  have o: "d_huff_ptrs b (dinfo s') = d_huff_ptrs b (dinfo s)" if "b \<noteq> ac" for b
    using that by (cases ac) (auto simp: s'_def put_huff_def d_huff_ptrs_def Let_def)
  have e: "d_quant_tbl_ptrs (dinfo s') = d_quant_tbl_ptrs (dinfo s)" "fresh_quant s' = fresh_quant s"
    by (simp_all add: s'_def put_huff_def Let_def)
  have sh: "same_huff h t" using t assms(5,6) H by (simp add: same_huff_def)
  have "knows_huff b k ci' (dinfo s')" if "huff_sent b k ci'" for b k
  proof (cases "b = ac \<and> nat k = n")
    case True
    moreover have "0 \<le> k" using that by (simp add: huff_sent_def)
    ultimately show ?thesis using sh t(1) D assms(4) huff_ptrs_length [OF assms(2)]
      by (auto simp: knows_huff_def ci'_def mark_huff_ptrs same_huff_def)
  next
    case False
    then have "huff_ptrs b ci' ! nat k = huff_ptrs b ci ! nat k" "d_huff_ptrs b (dinfo s') ! nat k = d_huff_ptrs b (dinfo s) ! nat k"
      using t(1) o by (cases "b = ac"; simp add: ci'_def mark_huff_ptrs)+
    then show ?thesis using assms(1) that by (simp add: in_sync_def huff_sent_def knows_huff_def)
  qed
  moreover have "length (d_huff_ptrs b (dinfo s')) = 4" for b using D t(1) o by (cases "b = ac") simp_all
  from this [of False] this [of True] have "length (d_dc_huff_tbl_ptrs (dinfo s')) = 4" "length (d_ac_huff_tbl_ptrs (dinfo s')) = 4"
    by (simp_all add: d_huff_ptrs_def)
  ultimately show ?thesis
    using assms(1) e by (fold ci'_def s'_def) (simp add: in_sync_def quants_ok_def quant_sent_def knows_quant_def ci'_def mark_huff_ptrs(2))
qed

lemma sent_le_huff: "n < length (huff_ptrs ac ci) \<Longrightarrow> huff_ptrs ac ci ! n = Some h \<Longrightarrow> sent_le ci (mark_huff ac n h ci)"
  by (auto simp: sent_le_def quant_sent_def huff_sent_def mark_huff_ptrs nth_list_update)

lemma forget_mark_huff: "huff_ptrs ac ci ! n = Some h \<Longrightarrow> forget (mark_huff ac n h ci) = forget ci"
  by (cases ac) (simp_all add: mark_huff_def huff_ptrs_def forget_sent)

context destination
begin

lemma dht_step:
  assumes "room dest_ok w" "tables_ok (wr_cinfo w)" "in_sync (wr_cinfo w) s" "ready s" "emit_dht empty_buffer k ac w = Inr w'"
  obtains bs D A where "wrote handed dest_ok w bs w'" "last_restart_interval w' = last_restart_interval w"
    "fed bs s (upd (\<lambda>c. c\<lparr>d_dc_huff_tbl_ptrs := D, d_ac_huff_tbl_ptrs := A\<rparr>) s)"
    "in_sync (wr_cinfo w') (upd (\<lambda>c. c\<lparr>d_dc_huff_tbl_ptrs := D, d_ac_huff_tbl_ptrs := A\<rparr>) s)"
    "huff_sent ac k (wr_cinfo w')"
proof -
  have r: "0 \<le> k" "k < 4" using assms(5) by (auto simp: emit_dht_def NUM_HUFF_TBLS_def split: if_splits)
  obtain h where h: "huff_ptrs ac (wr_cinfo w) ! nat k = Some h"
    using assms(5) r by (cases ac) (auto simp: emit_dht_def NUM_HUFF_TBLS_def Let_def huff_ptrs_def split: option.splits)
  have n: "nat k < 4" using r by simp
  note H = tables_okD(2) [OF assms(2) n h]
  show ?thesis
  proof (cases "JHUFF_TBL.sent_table h")
    case True
    then have "w' = w" using assms(5) r h by (simp add: emit_dht_def NUM_HUFF_TBLS_def Let_def huff_ptrs_def)
    moreover have "upd (\<lambda>c. c\<lparr>d_dc_huff_tbl_ptrs := d_dc_huff_tbl_ptrs (dinfo s), d_ac_huff_tbl_ptrs := d_ac_huff_tbl_ptrs (dinfo s)\<rparr>) s = s"
      by (simp add: upd_def)
    ultimately show ?thesis using that [where bs = "[]" and D = "d_dc_huff_tbl_ptrs (dinfo s)" and A = "d_ac_huff_tbl_ptrs (dinfo s)"] assms True h r
      by (simp add: wrote_refl fed_Nil huff_sent_def)
  next
    case False
    define m where "m = huff_length (bits h)"
    define hv where "hv = take (nat m) (huffval h)"
    let ?A = "emit_marker M_DHT @ emit_2bytes (m + 2 + 1 + 16) @ [if ac then k + 0x10 else k] @ map uint (drop 1 (bits h))"
    have m0: "0 \<le> m" unfolding m_def using H by (simp add: huff_length_drop sum_uint_nonneg)
    obtain u v where v: "emit empty_buffer ?A w = Inr u" "m \<le> 256"
        "emit empty_buffer (map (\<lambda>i. uint (huffval h ! i)) [0..<nat m]) u = Inr v" "w' = v\<lparr>wr_cinfo := mark_huff ac (nat k) h (wr_cinfo w)\<rparr>"
      using assms(5) r h False unfolding emit_dht_def Let_def huff_ptrs_def mark_huff_def
      by (auto simp: NUM_HUFF_TBLS_def ebind_eq_Inr not_less bits_bytes [OF conjunct1 [OF H], simplified] m_def [symmetric] split: if_splits)
    have l: "int (length hv) = m" "length hv \<le> 256" using m0 v(2) H by (simp_all add: hv_def)
    have sy: "map (\<lambda>i. uint (huffval h ! i)) [0..<nat m] = map uint hv" using m0 v(2) H by (auto intro: nth_equalityI simp: hv_def)
    obtain d where d: "u = w\<lparr>wr_dest := d\<rparr>" "wrote handed dest_ok w (octets ?A) u" using emit_wrote [OF assms(1) v(1)] by blast
    then have ru: "room dest_ok u" by (simp add: wrote_def)
    obtain e where e: "v = u\<lparr>wr_dest := e\<rparr>" "wrote handed dest_ok u (octets (map uint hv)) v" using emit_wrote [OF ru v(3)] unfolding sy by blast
    note W = wrote_trans [OF d(2) e(2)]
    let ?bs = "octets (emit_marker M_DHT @ emit_2bytes (int (length hv) + 2 + 1 + 16) @ [if ac then int (nat k) + 0x10 else int (nat k)] @
        map uint (drop 1 (bits h)) @ map uint hv)"
    have B: "octets ?A @ octets (map uint hv) = ?bs" using l(1) r(1) by simp
    have W: "wrote handed dest_ok w ?bs w'"
      using W v(4) n h forget_mark_huff [OF h] sent_le_huff [OF _ h] huff_ptrs_length [OF assms(2), of ac] unfolding B d(1) e(1) wrote_def by simp
    define D where "D = d_dc_huff_tbl_ptrs (put_huff ac (nat k) (drop 1 (bits h)) hv (dinfo s))"
    define A where "A = d_ac_huff_tbl_ptrs (put_huff ac (nat k) (drop 1 (bits h)) hv (dinfo s))"
    have U: "upd (\<lambda>c. c\<lparr>d_dc_huff_tbl_ptrs := D, d_ac_huff_tbl_ptrs := A\<rparr>) s = upd (put_huff ac (nat k) (drop 1 (bits h)) hv) s"
      by (cases ac) (simp_all add: upd_def D_def A_def put_huff_def Let_def)
    have "sum_list (map uint (drop 1 (bits h))) = int (length hv)" using l(1) H by (simp add: m_def huff_length_drop)
    then have F: "fed ?bs s (upd (\<lambda>c. c\<lparr>d_dc_huff_tbl_ptrs := D, d_ac_huff_tbl_ptrs := A\<rparr>) s)"
      unfolding U by (intro fed_dht) (use assms(4) n l H in simp_all)
    have "in_sync (mark_huff ac (nat k) h (wr_cinfo w)) (upd (put_huff ac (nat k) (drop 1 (bits h)) hv) s)"
      by (rule in_sync_huff [OF assms(3,2) h n]) (use v(2) in \<open>simp_all add: hv_def m_def\<close>)
    then show ?thesis
      by (intro that [OF W _ F]) (use v(4) d(1) e(1) U r n huff_ptrs_length [OF assms(2), of ac] in \<open>simp_all add: huff_sent_def mark_huff_ptrs\<close>)
  qed
qed

end

lemma sent_leD: "sent_le a b \<Longrightarrow> quant_sent k a \<Longrightarrow> quant_sent k b" "sent_le a b \<Longrightarrow> huff_sent ac k a \<Longrightarrow> huff_sent ac k b"
  by (simp_all add: sent_le_def)

lemma wroteD:
  assumes "wrote h k w bs w'"
  shows "room k w'" "sent_le (wr_cinfo w) (wr_cinfo w')" "forget (wr_cinfo w') = forget (wr_cinfo w)"
    "tables_ok (wr_cinfo w') = tables_ok (wr_cinfo w)" "stream h w' = stream h w @ bs"
  using assms tables_ok_cong [of "wr_cinfo w'" "wr_cinfo w"] by (auto simp: wrote_def)

lemma upd_quant_twice: "upd (\<lambda>c. c\<lparr>d_quant_tbl_ptrs := R\<rparr>) (upd (\<lambda>c. c\<lparr>d_quant_tbl_ptrs := Q\<rparr>) s) = upd (\<lambda>c. c\<lparr>d_quant_tbl_ptrs := R\<rparr>) s"
  by (simp add: upd_def)

lemma upd_huff_twice:
  "upd (\<lambda>c. c\<lparr>d_dc_huff_tbl_ptrs := D', d_ac_huff_tbl_ptrs := A'\<rparr>) (upd (\<lambda>c. c\<lparr>d_dc_huff_tbl_ptrs := D, d_ac_huff_tbl_ptrs := A\<rparr>) s) =
   upd (\<lambda>c. c\<lparr>d_dc_huff_tbl_ptrs := D', d_ac_huff_tbl_ptrs := A'\<rparr>) s"
  by (simp add: upd_def)

context destination
begin

lemma dqts_steps:
  assumes "room dest_ok w" "tables_ok (wr_cinfo w)" "in_sync (wr_cinfo w) s" "ready s" "emit_dqts empty_buffer is prec w = Inr (p, w')"
  shows "\<exists>bs Q. wrote handed dest_ok w bs w' \<and> last_restart_interval w' = last_restart_interval w \<and>
    fed bs s (upd (\<lambda>c. c\<lparr>d_quant_tbl_ptrs := Q\<rparr>) s) \<and> in_sync (wr_cinfo w') (upd (\<lambda>c. c\<lparr>d_quant_tbl_ptrs := Q\<rparr>) s) \<and>
    (\<forall>k \<in> set is. quant_sent k (wr_cinfo w'))"
  using assms
proof (induction "is" arbitrary: w s prec)
  case Nil
  have "upd (\<lambda>c. c\<lparr>d_quant_tbl_ptrs := d_quant_tbl_ptrs (dinfo s)\<rparr>) s = s" by (simp add: upd_def)
  then show ?case using Nil wrote_refl fed_Nil
    by (intro exI [of _ "[]"] exI [of _ "d_quant_tbl_ptrs (dinfo s)"]) simp
next
  case (Cons k "is")
  obtain q v where v: "emit_dqt empty_buffer k w = Inr (q, v)" "emit_dqts empty_buffer is (prec + q) v = Inr (p, w')"
    using Cons.prems(5) by (auto simp: ebind_eq_Inr)
  obtain as Q where a: "wrote handed dest_ok w as v" "last_restart_interval v = last_restart_interval w"
    "fed as s (upd (\<lambda>c. c\<lparr>d_quant_tbl_ptrs := Q\<rparr>) s)" "in_sync (wr_cinfo v) (upd (\<lambda>c. c\<lparr>d_quant_tbl_ptrs := Q\<rparr>) s)" "quant_sent k (wr_cinfo v)"
    using dqt_step [OF Cons.prems(1-4) v(1)] .
  have "tables_ok (wr_cinfo v)" "ready (upd (\<lambda>c. c\<lparr>d_quant_tbl_ptrs := Q\<rparr>) s)" using wroteD(4) [OF a(1)] Cons.prems(2,4) by simp_all
  from Cons.IH [OF wroteD(1) [OF a(1)] this(1) a(4) this(2) v(2)]
  obtain bs R where b: "wrote handed dest_ok v bs w'" "last_restart_interval w' = last_restart_interval v"
      "fed bs (upd (\<lambda>c. c\<lparr>d_quant_tbl_ptrs := Q\<rparr>) s) (upd (\<lambda>c. c\<lparr>d_quant_tbl_ptrs := R\<rparr>) s)"
      "in_sync (wr_cinfo w') (upd (\<lambda>c. c\<lparr>d_quant_tbl_ptrs := R\<rparr>) s)" "\<forall>k \<in> set is. quant_sent k (wr_cinfo w')"
    unfolding upd_quant_twice by blast
  have "quant_sent k (wr_cinfo w')" using sent_leD(1) [OF wroteD(2) [OF b(1)] a(5)] .
  then show ?case using wrote_trans [OF a(1) b(1)] fed_append [OF a(3) b(3)] a(2) b(2,4,5) by auto
qed

lemma dht_if_step:
  assumes "room dest_ok w" "tables_ok (wr_cinfo w)" "in_sync (wr_cinfo w) s" "ready s"
    and "(if P then emit_dht empty_buffer k ac w else Inr w) = Inr w'"
  shows "\<exists>bs D A. wrote handed dest_ok w bs w' \<and> last_restart_interval w' = last_restart_interval w \<and>
    fed bs s (upd (\<lambda>c. c\<lparr>d_dc_huff_tbl_ptrs := D, d_ac_huff_tbl_ptrs := A\<rparr>) s) \<and>
    in_sync (wr_cinfo w') (upd (\<lambda>c. c\<lparr>d_dc_huff_tbl_ptrs := D, d_ac_huff_tbl_ptrs := A\<rparr>) s) \<and> (P \<longrightarrow> huff_sent ac k (wr_cinfo w'))"
proof (cases P)
  case True
  then have "emit_dht empty_buffer k ac w = Inr w'" using assms(5) by simp
  from dht_step [OF assms(1-4) this] show ?thesis by metis
next
  case False
  have "upd (\<lambda>c. c\<lparr>d_dc_huff_tbl_ptrs := d_dc_huff_tbl_ptrs (dinfo s), d_ac_huff_tbl_ptrs := d_ac_huff_tbl_ptrs (dinfo s)\<rparr>) s = s"
    by (simp add: upd_def)
  then show ?thesis using False assms wrote_refl fed_Nil
    by (intro exI [of _ "[]"] exI [of _ "d_dc_huff_tbl_ptrs (dinfo s)"] exI [of _ "d_ac_huff_tbl_ptrs (dinfo s)"]) simp
qed

lemma dhts_steps:
  assumes "room dest_ok w" "tables_ok (wr_cinfo w)" "in_sync (wr_cinfo w) s" "ready s" "emit_dhts empty_buffer cs w = Inr w'"
  shows "\<exists>bs D A. wrote handed dest_ok w bs w' \<and> last_restart_interval w' = last_restart_interval w \<and>
    fed bs s (upd (\<lambda>c. c\<lparr>d_dc_huff_tbl_ptrs := D, d_ac_huff_tbl_ptrs := A\<rparr>) s) \<and>
    in_sync (wr_cinfo w') (upd (\<lambda>c. c\<lparr>d_dc_huff_tbl_ptrs := D, d_ac_huff_tbl_ptrs := A\<rparr>) s) \<and>
    (\<forall>c \<in> set cs. (Ss (wr_cinfo w) = 0 \<and> Ah (wr_cinfo w) = 0 \<longrightarrow> huff_sent False (dc_tbl_no c) (wr_cinfo w')) \<and>
       (Se (wr_cinfo w) \<noteq> 0 \<longrightarrow> huff_sent True (ac_tbl_no c) (wr_cinfo w')))"
  using assms
proof (induction cs arbitrary: w s)
  case Nil
  then show ?case using dht_if_step [OF Nil.prems(1-4), of False 0 False] by simp
next
  case (Cons c cs)
  obtain u v where v: "(if Ss (wr_cinfo w) = 0 \<and> Ah (wr_cinfo w) = 0 then emit_dht empty_buffer (dc_tbl_no c) False w else Inr w) = Inr u"
     "(if Se (wr_cinfo u) \<noteq> 0 then emit_dht empty_buffer (ac_tbl_no c) True u else Inr u) = Inr v" "emit_dhts empty_buffer cs v = Inr w'"
    using Cons.prems(5) by (auto simp: ebind_eq_Inr)
  let ?u = "\<lambda>D A. upd (\<lambda>c. c\<lparr>d_dc_huff_tbl_ptrs := D, d_ac_huff_tbl_ptrs := A\<rparr>) s"
  from dht_if_step [OF Cons.prems(1-4) v(1)]
  obtain as D A where a: "wrote handed dest_ok w as u" "last_restart_interval u = last_restart_interval w" "fed as s (?u D A)"
    "in_sync (wr_cinfo u) (?u D A)" "Ss (wr_cinfo w) = 0 \<and> Ah (wr_cinfo w) = 0 \<longrightarrow> huff_sent False (dc_tbl_no c) (wr_cinfo u)" by blast
  have r: "ready (?u D A)" for D A using Cons.prems(4) by simp
  have tu: "tables_ok (wr_cinfo u)" using wroteD(4) [OF a(1)] Cons.prems(2) by simp
  from dht_if_step [OF wroteD(1) [OF a(1)] tu a(4) r v(2), unfolded upd_huff_twice]
  obtain bs E B where b: "wrote handed dest_ok u bs v" "last_restart_interval v = last_restart_interval u" "fed bs (?u D A) (?u E B)"
    "in_sync (wr_cinfo v) (?u E B)" "Se (wr_cinfo u) \<noteq> 0 \<longrightarrow> huff_sent True (ac_tbl_no c) (wr_cinfo v)" by blast
  have tv: "tables_ok (wr_cinfo v)" using wroteD(4) [OF b(1)] tu by simp
  note fu = forget_fields [OF wroteD(3) [OF a(1)]] and fv = forget_fields [OF wroteD(3) [OF b(1)]]
  from Cons.IH [OF wroteD(1) [OF b(1)] tv b(4) r v(3), unfolded upd_huff_twice]
  obtain cs' F C where c: "wrote handed dest_ok v cs' w'" "last_restart_interval w' = last_restart_interval v" "fed cs' (?u E B) (?u F C)"
    "in_sync (wr_cinfo w') (?u F C)"
    "\<forall>c \<in> set cs. (Ss (wr_cinfo v) = 0 \<and> Ah (wr_cinfo v) = 0 \<longrightarrow> huff_sent False (dc_tbl_no c) (wr_cinfo w')) \<and>
       (Se (wr_cinfo v) \<noteq> 0 \<longrightarrow> huff_sent True (ac_tbl_no c) (wr_cinfo w'))" by blast
  have "Ss (wr_cinfo w) = 0 \<and> Ah (wr_cinfo w) = 0 \<longrightarrow> huff_sent False (dc_tbl_no c) (wr_cinfo w')"
    "Se (wr_cinfo w) \<noteq> 0 \<longrightarrow> huff_sent True (ac_tbl_no c) (wr_cinfo w')"
    using a(5) b(5) fu sent_leD(2) [OF wroteD(2) [OF b(1)]] sent_leD(2) [OF wroteD(2) [OF c(1)]] by auto
  then show ?case
    using wrote_trans [OF a(1) wrote_trans [OF b(1) c(1)]] fed_append [OF a(3) fed_append [OF b(3) c(3)]] a(2) b(2) c(2,4,5) fu fv by auto
qed

end

section \<open>Headers\<close>

definition frame_components :: "jpeg_compress_struct \<Rightarrow> jpeg_component_info list" where
  "frame_components ci = take (nat (num_components ci)) (comp_info ci)"

definition scan_indices :: "jpeg_compress_struct \<Rightarrow> nat list" where
  "scan_indices ci = take (nat (comps_in_scan ci)) (cur_comp_info ci)"

text \<open>What the header fields can hold.\<close>

definition frame_ok :: "jpeg_compress_struct \<Rightarrow> bool" where
  "frame_ok ci \<longleftrightarrow> \<not> arith_code ci \<and> 1 \<le> num_components ci \<and> num_components ci < 256 \<and>
     num_components ci \<le> int (length (comp_info ci)) \<and> list_all frame_byte (frame_components ci) \<and>
     0 < sint (image_height ci) \<and> 0 < sint (image_width ci) \<and> 0 \<le> data_precision ci \<and> data_precision ci < 256"

definition scan_ok :: "jpeg_compress_struct \<Rightarrow> bool" where
  "scan_ok ci \<longleftrightarrow> 1 \<le> comps_in_scan ci \<and> comps_in_scan ci \<le> 4 \<and> comps_in_scan ci \<le> int (length (cur_comp_info ci)) \<and>
     sorted_wrt (<) (scan_indices ci) \<and> list_all (\<lambda>i. i < 4 \<and> int i < num_components ci) (scan_indices ci) \<and>
     distinct (map component_id (frame_components ci)) \<and>
     0 \<le> Ss ci \<and> Ss ci < 256 \<and> 0 \<le> Se ci \<and> Se ci < 256 \<and> 0 \<le> Ah ci \<and> Ah ci < 16 \<and> 0 \<le> Al ci \<and> Al ci < 16 \<and>
     restart_interval ci < 65536"

text \<open>What the reader then knows.\<close>

definition file_learned :: "jpeg_compress_struct \<Rightarrow> jpeg_decompress_struct \<Rightarrow> bool" where
  "file_learned ci d \<longleftrightarrow> saw_JFIF_marker d = write_JFIF_header ci \<and> saw_Adobe_marker d = write_Adobe_marker ci \<and>
     (write_JFIF_header ci \<longrightarrow> d_JFIF_major_version d = JFIF_major_version ci \<and> d_JFIF_minor_version d = JFIF_minor_version ci \<and>
        d_density_unit d = density_unit ci \<and> d_X_density d = X_density ci \<and> d_Y_density d = Y_density ci) \<and>
     (write_Adobe_marker ci \<longrightarrow> Adobe_transform d = (case jpeg_color_space ci of JCS_YCbCr \<Rightarrow> 1 | JCS_YCCK \<Rightarrow> 2 | _ \<Rightarrow> 0))"

definition frame_learned :: "jpeg_compress_struct \<Rightarrow> jpeg_decompress_struct \<Rightarrow> bool" where
  "frame_learned ci d \<longleftrightarrow> d_image_width d = image_width ci \<and> d_image_height d = image_height ci \<and>
     d_data_precision d = data_precision ci \<and> d_progressive_mode d = progressive_mode ci \<and> d_arith_code d = arith_code ci \<and>
     d_num_components d = num_components ci \<and> length (d_comp_info d) = nat (num_components ci) \<and>
     (\<forall>i < nat (num_components ci). component_index (d_comp_info d ! i) = int i \<and>
        component_id (d_comp_info d ! i) = component_id (comp_info ci ! i) \<and>
        h_samp_factor (d_comp_info d ! i) = h_samp_factor (comp_info ci ! i) \<and>
        v_samp_factor (d_comp_info d ! i) = v_samp_factor (comp_info ci ! i) \<and>
        quant_tbl_no (d_comp_info d ! i) = quant_tbl_no (comp_info ci ! i))"

definition sent_dc_tbl :: "jpeg_compress_struct \<Rightarrow> nat \<Rightarrow> int" where
  "sent_dc_tbl ci i = (if Ss ci = 0 \<and> Ah ci = 0 then dc_tbl_no (comp_info ci ! i) else 0)"

definition sent_ac_tbl :: "jpeg_compress_struct \<Rightarrow> nat \<Rightarrow> int" where
  "sent_ac_tbl ci i = (if Se ci \<noteq> 0 then ac_tbl_no (comp_info ci ! i) else 0)"

definition scan_learned :: "jpeg_compress_struct \<Rightarrow> jpeg_decompress_struct \<Rightarrow> bool" where
  "scan_learned ci d \<longleftrightarrow> d_comps_in_scan d = comps_in_scan ci \<and>
     d_cur_comp_info d = map Some (scan_indices ci) @ replicate (4 - nat (comps_in_scan ci)) None \<and>
     d_Ss d = Ss ci \<and> d_Se d = Se ci \<and> d_Ah d = Ah ci \<and> d_Al d = Al ci \<and> d_restart_interval d = restart_interval ci \<and>
     list_all (\<lambda>i. dc_tbl_no (d_comp_info d ! i) = sent_dc_tbl ci i \<and> ac_tbl_no (d_comp_info d ! i) = sent_ac_tbl ci i) (scan_indices ci)"

text \<open>The tables the frame and the scan refer to.\<close>

definition frame_tables_learned :: "jpeg_compress_struct \<Rightarrow> jpeg_decompress_struct \<Rightarrow> bool" where
  "frame_tables_learned ci d \<longleftrightarrow> list_all (\<lambda>c. knows_quant (quant_tbl_no c) ci d) (frame_components ci)"

definition scan_tables_learned :: "jpeg_compress_struct \<Rightarrow> jpeg_decompress_struct \<Rightarrow> bool" where
  "scan_tables_learned ci d \<longleftrightarrow> list_all (\<lambda>c. (Ss ci = 0 \<and> Ah ci = 0 \<longrightarrow> knows_huff False (dc_tbl_no c) ci d) \<and>
     (Se ci \<noteq> 0 \<longrightarrow> knows_huff True (ac_tbl_no c) ci d)) (scan_components ci)"

lemma in_sync_cong:
  "d_quant_tbl_ptrs (dinfo s) = d_quant_tbl_ptrs (dinfo s') \<Longrightarrow> d_dc_huff_tbl_ptrs (dinfo s) = d_dc_huff_tbl_ptrs (dinfo s') \<Longrightarrow>
   d_ac_huff_tbl_ptrs (dinfo s) = d_ac_huff_tbl_ptrs (dinfo s') \<Longrightarrow> fresh_quant s = fresh_quant s' \<Longrightarrow> in_sync ci s = in_sync ci s'"
  by (simp add: in_sync_def quants_ok_def knows_quant_def knows_huff_def d_huff_ptrs_def)

lemma scan_components_indices: "scan_components ci = map ((!) (comp_info ci)) (scan_indices ci)"
  by (simp add: scan_components_def scan_indices_def)

lemma length_scan_indices: "scan_ok ci \<Longrightarrow> int (length (scan_indices ci)) = comps_in_scan ci"
  by (auto simp: scan_ok_def scan_indices_def)

lemma length_frame_components: "frame_ok ci \<Longrightarrow> int (length (frame_components ci)) = num_components ci"
  by (auto simp: frame_ok_def frame_components_def)

lemma scan_findable:
  assumes "frame_ok ci" "scan_ok ci" "frame_learned ci d"
    and "\<forall>c \<in> set (scan_components ci). (Ss ci = 0 \<and> Ah ci = 0 \<longrightarrow> 0 \<le> dc_tbl_no c \<and> dc_tbl_no c < 4) \<and> (Se ci \<noteq> 0 \<longrightarrow> 0 \<le> ac_tbl_no c \<and> ac_tbl_no c < 4)"
  shows "findable (\<lambda>i. component_id (comp_info ci ! i)) (sent_dc_tbl ci) (sent_ac_tbl ci) (scan_indices ci) d"
proof -
  let ?n = "nat (num_components ci)"
  have n: "?n \<le> length (comp_info ci)" "int ?n = num_components ci" using assms(1) by (auto simp: frame_ok_def)
  have l: "length (d_comp_info d) = ?n" "d_num_components d = num_components ci" using assms(3) by (simp_all add: frame_learned_def)
  have "distinct (map component_id (frame_components ci))" using assms(2) by (simp add: scan_ok_def)
  then have inj: "inj_on (\<lambda>i. component_id (comp_info ci ! i)) {..<?n}"
    using n(1) by (auto simp: distinct_conv_nth frame_components_def inj_on_def min_absorb2)
  have ids: "0 \<le> component_id (comp_info ci ! i) \<and> component_id (comp_info ci ! i) < 256" if "i < ?n" for i
    using assms(1) n(1) that by (auto simp: frame_ok_def list_all_length frame_components_def frame_byte_def min_absorb2)
  show ?thesis
    unfolding findable_def
    using assms l n inj ids
    by (auto simp: scan_ok_def list_all_iff frame_learned_def scan_components_indices sent_dc_tbl_def sent_ac_tbl_def)
qed

lemma sos_bytes:
  assumes "scan_ok ci"
  shows "emit_marker M_SOS @ emit_2bytes (2 * comps_in_scan ci + 2 + 1 + 3) @ [comps_in_scan ci] @
           concat (map (\<lambda>c.
             let td = (if Ss ci = 0 \<and> Ah ci = 0 then dc_tbl_no c else 0); ta = (if Se ci \<noteq> 0 then ac_tbl_no c else 0)
             in [component_id c, push_bit 4 td + ta]) (scan_components ci)) @ [Ss ci, Se ci, push_bit 4 (Ah ci) + Al ci] =
     emit_marker M_SOS @ sos_params (scan_indices ci) (\<lambda>i. component_id (comp_info ci ! i)) (sent_dc_tbl ci) (sent_ac_tbl ci) (Ss ci) (Se ci) (Ah ci) (Al ci)"
  using length_scan_indices [OF assms]
  by (simp add: sos_params_def scan_components_indices scan_bytes_of_def [abs_def] sent_dc_tbl_def sent_ac_tbl_def Let_def comp_def)

lemma learn_scan_learned:
  assumes "scan_ok ci" "frame_learned ci d" "d_restart_interval d = restart_interval ci"
  shows "scan_learned ci (learn_scan (scan_indices ci) (sent_dc_tbl ci) (sent_ac_tbl ci) (Ss ci) (Se ci) (Ah ci) (Al ci) d)"
    "frame_learned ci (learn_scan (scan_indices ci) (sent_dc_tbl ci) (sent_ac_tbl ci) (Ss ci) (Se ci) (Ah ci) (Al ci) d)"
proof -
  note L = length_scan_indices [OF assms(1)]
  have n: "i < length (d_comp_info d)" if "i \<in> set (scan_indices ci)" for i
    using that assms(1,2) by (auto simp: scan_ok_def list_all_iff frame_learned_def)
  have "length (scan_indices ci) = nat (comps_in_scan ci)" using L by linarith
  then show "scan_learned ci (learn_scan (scan_indices ci) (sent_dc_tbl ci) (sent_ac_tbl ci) (Ss ci) (Se ci) (Ah ci) (Al ci) d)"
    using n L assms(3) by (simp add: scan_learned_def learn_scan_def list_all_iff set_scan_def)
  show "frame_learned ci (learn_scan (scan_indices ci) (sent_dc_tbl ci) (sent_ac_tbl ci) (Ss ci) (Se ci) (Ah ci) (Al ci) d)"
    using assms(2) by (simp add: frame_learned_def learn_scan_def set_scan_def)
qed

lemma knows_fwd:
  assumes "in_sync ci s"
  shows "quant_sent k ci \<Longrightarrow> knows_quant k ci (dinfo s)" "huff_sent ac k ci \<Longrightarrow> knows_huff ac k ci (dinfo s)"
  using assms by (simp_all add: in_sync_def)

lemma knows_forget:
  assumes "forget a = forget b" "tables_ok a"
  shows "knows_quant k a d \<Longrightarrow> knows_quant k b d" "knows_huff ac k a d \<Longrightarrow> knows_huff ac k b d"
proof -
  have t: "tables_ok b" using tables_ok_cong [OF assms(1)] assms(2) by simp
  have Q: "map_option quantval (quant_tbl_ptrs a ! n) = map_option quantval (quant_tbl_ptrs b ! n)" if "n < 4" for n
  proof -
    have "map (map_option quantval) (quant_tbl_ptrs a) = map (map_option quantval) (quant_tbl_ptrs b)"
      using arg_cong [OF assms(1), of "\<lambda>c. map (map_option quantval) (quant_tbl_ptrs c)"] by (simp add: forget_def option.map_comp comp_def)
    from arg_cong [OF this, of "\<lambda>xs. xs ! n"] show ?thesis using that t assms(2) by (simp add: tables_ok_def)
  qed
  have H: "map_option (\<lambda>h. (bits h, huffval h)) (huff_ptrs ac a ! n) = map_option (\<lambda>h. (bits h, huffval h)) (huff_ptrs ac b ! n)" if "n < 4" for n
  proof -
    have "map (map_option (\<lambda>h. (bits h, huffval h))) (huff_ptrs ac a) = map (map_option (\<lambda>h. (bits h, huffval h))) (huff_ptrs ac b)"
      using arg_cong [OF assms(1), of "\<lambda>c. map (map_option (\<lambda>h. (bits h, huffval h))) (huff_ptrs ac c)"]
      by (cases ac) (simp_all add: forget_def huff_ptrs_def option.map_comp comp_def)
    from arg_cong [OF this, of "\<lambda>xs. xs ! n"] show ?thesis using that huff_ptrs_length [OF t] huff_ptrs_length [OF assms(2)] by simp
  qed
  show "knows_quant k a d \<Longrightarrow> knows_quant k b d" using Q [of "nat k"] nat_less_iff [of k 4] by (cases "quant_tbl_ptrs b ! nat k") (auto simp: knows_quant_def)
  show "knows_huff ac k a d \<Longrightarrow> knows_huff ac k b d" using H [of "nat k"] nat_less_iff [of k 4]
    by (cases "huff_ptrs ac b ! nat k") (auto simp: knows_huff_def same_huff_def)
qed

lemma frame_learned_cong:
  "forget a = forget b \<Longrightarrow> frame_learned a d = frame_learned b d" "forget a = forget b \<Longrightarrow> frame_ok a = frame_ok b"
  "forget a = forget b \<Longrightarrow> scan_ok a = scan_ok b" "forget a = forget b \<Longrightarrow> scan_learned a d = scan_learned b d"
  using forget_fields [of a b]
  by (simp_all add: frame_learned_def frame_ok_def scan_ok_def scan_learned_def sent_dc_tbl_def sent_ac_tbl_def scan_indices_def frame_components_def)

lemma forget_indices:
  "forget a = forget b \<Longrightarrow> scan_indices a = scan_indices b" "forget a = forget b \<Longrightarrow> frame_components a = frame_components b"
  "forget a = forget b \<Longrightarrow> sent_dc_tbl a = sent_dc_tbl b" "forget a = forget b \<Longrightarrow> sent_ac_tbl a = sent_ac_tbl b"
  using forget_fields [of a b] by (auto simp: scan_indices_def frame_components_def sent_dc_tbl_def sent_ac_tbl_def fun_eq_iff)

lemma small_interval:
  assumes "(r :: u32) < 65536"
  shows "0 \<le> sint r" "sint r < 65536" "word_of_int (sint r) = r"
proof -
  have "uint r < 65536" using assms by (simp add: word_less_def)
  then have "sint r = uint r" using signed_take_bit_int_eq_self [of 31 "uint r"] uint_ge_0 [of r] by (simp add: sint_uint)
  then show "0 \<le> sint r" "sint r < 65536" "word_of_int (sint r) = r" using \<open>uint r < 65536\<close> by simp_all
qed

context destination
begin

lemma scan_step:
  assumes w: "room dest_ok w" "tables_ok (wr_cinfo w)" "frame_ok (wr_cinfo w)" "scan_ok (wr_cinfo w)"
    and s: "in_sync (wr_cinfo w) s" "ready s" "saw_SOF s" "frame_learned (wr_cinfo w) (dinfo s)"
      "d_restart_interval (dinfo s) = last_restart_interval w"
    and e: "write_scan_header empty_buffer w = Inr w'"
  shows "\<exists>bs s'. wrote handed dest_ok w bs w' \<and> (\<forall>rest. read_markers (feed (bs @ rest) s) = Inr (JPEG_REACHED_SOS, feed rest s')) \<and>
    scan_learned (wr_cinfo w) (dinfo s') \<and> frame_learned (wr_cinfo w) (dinfo s') \<and> scan_tables_learned (wr_cinfo w) (dinfo s') \<and>
    in_sync (wr_cinfo w') s' \<and> (\<exists>D A R. s' = (upd (learn_scan (scan_indices (wr_cinfo w)) (sent_dc_tbl (wr_cinfo w)) (sent_ac_tbl (wr_cinfo w))
       (Ss (wr_cinfo w)) (Se (wr_cinfo w)) (Ah (wr_cinfo w)) (Al (wr_cinfo w))) (upd (\<lambda>c. c\<lparr>d_dc_huff_tbl_ptrs := D, d_ac_huff_tbl_ptrs := A, d_restart_interval := R\<rparr>) s))\<lparr>next_restart_num := 0\<rparr>)"
proof -
  let ?ci = "wr_cinfo w"
  have ar: "\<not> arith_code ?ci" using w(3) by (simp add: frame_ok_def)
  obtain u v where uv: "emit_dhts empty_buffer (scan_components ?ci) w = Inr u"
    "(if restart_interval (wr_cinfo u) \<noteq> last_restart_interval u
            then ebind (emit_dri empty_buffer u) (\<lambda>w. Inr (w\<lparr>last_restart_interval := restart_interval (wr_cinfo w)\<rparr>)) else Inr u) = Inr v"
    "emit_sos empty_buffer v = Inr w'" using e ar by (auto simp: write_scan_header_def ebind_eq_Inr)
  from dhts_steps [OF w(1,2) s(1,2) uv(1)]
  obtain as D A where a: "wrote handed dest_ok w as u" "last_restart_interval u = last_restart_interval w"
    "fed as s (upd (\<lambda>c. c\<lparr>d_dc_huff_tbl_ptrs := D, d_ac_huff_tbl_ptrs := A\<rparr>) s)"
    "in_sync (wr_cinfo u) (upd (\<lambda>c. c\<lparr>d_dc_huff_tbl_ptrs := D, d_ac_huff_tbl_ptrs := A\<rparr>) s)"
    "\<forall>c \<in> set (scan_components ?ci). (Ss ?ci = 0 \<and> Ah ?ci = 0 \<longrightarrow> huff_sent False (dc_tbl_no c) (wr_cinfo u)) \<and>
       (Se ?ci \<noteq> 0 \<longrightarrow> huff_sent True (ac_tbl_no c) (wr_cinfo u))" by blast
  define t where "t = upd (\<lambda>c. c\<lparr>d_dc_huff_tbl_ptrs := D, d_ac_huff_tbl_ptrs := A\<rparr>) s"
  note fu = forget_fields [OF wroteD(3) [OF a(1)]]
  have rt: "ready t" using s(2) by (simp add: t_def)
  have R: "0 \<le> sint (restart_interval ?ci)" "sint (restart_interval ?ci) < 65536" "word_of_int (sint (restart_interval ?ci)) = restart_interval ?ci"
    using small_interval [of "restart_interval ?ci"] w(4) by (simp_all add: scan_ok_def)
  define r where "r = upd (\<lambda>c. c\<lparr>d_restart_interval := restart_interval ?ci\<rparr>) t"
  have "\<exists>bs. wrote handed dest_ok u bs v \<and> fed bs t r \<and> wr_cinfo v = wr_cinfo u"
  proof (cases "restart_interval ?ci = last_restart_interval w")
    case True
    then have "v = u" "r = t" using uv(2) fu a(2) s(5) by (simp_all add: r_def t_def upd_def)
    then show ?thesis using wrote_refl [OF wroteD(1) [OF a(1)]] fed_Nil by auto
  next
    case False
    then obtain x where x: "emit_dri empty_buffer u = Inr x" "v = x\<lparr>last_restart_interval := restart_interval (wr_cinfo x)\<rparr>"
      using uv(2) fu a(2) by (auto simp: ebind_eq_Inr)
    from emit_wrote [OF wroteD(1) [OF a(1)] x(1) [unfolded emit_dri_def]]
    have wx: "wrote handed dest_ok u (octets (emit_marker M_DRI @ emit_2bytes 4 @ emit_2bytes (sint (restart_interval (wr_cinfo u))))) x"
      "wr_cinfo v = wr_cinfo u" using x(2) by auto
    then have "wrote handed dest_ok u (octets (emit_marker M_DRI @ emit_2bytes 4 @ emit_2bytes (sint (restart_interval ?ci)))) v"
      using wx x(2) fu by (simp add: wrote_def)
    moreover have "fed (octets (emit_marker M_DRI @ emit_2bytes 4 @ emit_2bytes (sint (restart_interval ?ci)))) t r"
      using fed_dri [OF rt R(1,2)] R(3) by (simp add: r_def)
    ultimately show ?thesis using wx(2) by blast
  qed
  then obtain bs where b: "wrote handed dest_ok u bs v" "fed bs t r" "wr_cinfo v = wr_cinfo u" by blast
  note fv = trans [OF wroteD(3) [OF b(1)] wroteD(3) [OF a(1)]]
  note fv' = forget_fields [OF fv]
  have okv: "scan_ok (wr_cinfo v)" using frame_learned_cong(3) [OF fv] w(4) by simp
  have rr: "ready r" "saw_SOF r" "frame_learned ?ci (dinfo r)" "d_restart_interval (dinfo r) = restart_interval ?ci"
    using rt s(3,4) by (simp_all add: r_def t_def frame_learned_def)
  have tb: "\<forall>c \<in> set (scan_components ?ci). (Ss ?ci = 0 \<and> Ah ?ci = 0 \<longrightarrow> 0 \<le> dc_tbl_no c \<and> dc_tbl_no c < 4) \<and> (Se ?ci \<noteq> 0 \<longrightarrow> 0 \<le> ac_tbl_no c \<and> ac_tbl_no c < 4)"
    using a(5) by (auto simp: huff_sent_def)
  note F = scan_findable [OF w(3,4) rr(3) tb]
  define s' where "s' = (upd (learn_scan (scan_indices ?ci) (sent_dc_tbl ?ci) (sent_ac_tbl ?ci) (Ss ?ci) (Se ?ci) (Ah ?ci) (Al ?ci)) r)\<lparr>next_restart_num := 0\<rparr>"
  let ?S = "octets (emit_marker M_SOS @ sos_params (scan_indices ?ci) (\<lambda>i. component_id (comp_info ?ci ! i)) (sent_dc_tbl ?ci) (sent_ac_tbl ?ci) (Ss ?ci) (Se ?ci) (Ah ?ci) (Al ?ci))"
  have li: "1 \<le> length (scan_indices ?ci)" "length (scan_indices ?ci) \<le> 4" using length_scan_indices [OF w(4)] w(4) by (auto simp: scan_ok_def)
  have S: "read_markers (feed (?S @ rest) r) = Inr (JPEG_REACHED_SOS, feed rest s')" for rest
    unfolding s'_def by (rule read_sos [OF rr(1,2) F li]) (use w(4) in \<open>simp_all add: scan_ok_def\<close>)
  have "wrote handed dest_ok v ?S w' \<and> (\<exists>d. w' = v\<lparr>wr_dest := d\<rparr>)"
    using emit_wrote [OF wroteD(1) [OF b(1)] uv(3) [unfolded emit_sos_def Let_def]]
    unfolding sos_bytes [OF okv, unfolded Let_def] unfolding forget_indices [OF fv] fv' .
  then have E: "wrote handed dest_ok v ?S w'" "wr_cinfo w' = wr_cinfo u" using b(3) by auto
  from wrote_trans [OF a(1) wrote_trans [OF b(1) E(1)]]
  have W: "wrote handed dest_ok w (as @ bs @ ?S) w'" .
  have RD: "read_markers (feed ((as @ bs @ ?S) @ rest) s) = Inr (JPEG_REACHED_SOS, feed rest s')" for rest
    using fed_append [OF a(3) b(2) [unfolded t_def]] S [of rest] by (simp add: fed_def)
  have iu: "in_sync (wr_cinfo u) s'"
    using a(4) in_sync_cong [of s' "upd (\<lambda>c. c\<lparr>d_dc_huff_tbl_ptrs := D, d_ac_huff_tbl_ptrs := A\<rparr>) s" "wr_cinfo u"]
    by (simp add: s'_def r_def t_def learn_scan_def)
  have iw: "in_sync (wr_cinfo w') s'" using iu E(2) by simp
  have kn: "huff_sent ac k (wr_cinfo u) \<Longrightarrow> knows_huff ac k ?ci (dinfo s')" for ac k
    using knows_forget(2) [OF wroteD(3) [OF a(1)], of ac k "dinfo s'"] wroteD(4) [OF a(1)] w(2) knows_fwd(2) [OF iu, of ac k]
    by (auto simp: huff_sent_def)
  have "scan_tables_learned ?ci (dinfo s')" using a(5) kn by (auto simp: scan_tables_learned_def list_all_iff)
  moreover have "scan_learned ?ci (dinfo s')" "frame_learned ?ci (dinfo s')"
    using learn_scan_learned [OF w(4) rr(3,4)] by (simp_all add: s'_def)
  moreover have "s' = (upd (learn_scan (scan_indices ?ci) (sent_dc_tbl ?ci) (sent_ac_tbl ?ci) (Ss ?ci) (Se ?ci) (Ah ?ci) (Al ?ci))
      (upd (\<lambda>c. c\<lparr>d_dc_huff_tbl_ptrs := D, d_ac_huff_tbl_ptrs := A, d_restart_interval := restart_interval ?ci\<rparr>) s))\<lparr>next_restart_num := 0\<rparr>"
    by (simp add: s'_def r_def t_def upd_def)
  ultimately show ?thesis using W RD iw by blast
qed

end

text \<open>A reader at the start of a file.\<close>

definition fresh_reader :: "decompressor \<Rightarrow> bool" where
  "fresh_reader s \<longleftrightarrow> unread_marker s = 0 \<and> \<not> saw_SOI s \<and> \<not> saw_SOF s \<and> discarded_bytes s = 0 \<and> d_comp_info (dinfo s) = [] \<and>
     process_APPn s ! 0 = Get_interesting_appn \<and> process_APPn s ! 14 = Get_interesting_appn"

lemma upd_saw [simp]:
  "fresh_quant (s\<lparr>saw_SOI := b\<rparr>) = fresh_quant s" "fresh_quant (s\<lparr>saw_SOF := b\<rparr>) = fresh_quant s"
  by simp_all

context destination
begin

lemma file_step:
  assumes w: "room dest_ok w" "in_sync ci s" "fresh_reader s" "write_file_header empty_buffer w = Inr w'"
  shows "\<exists>bs s'. wrote handed dest_ok w bs w' \<and> fed bs s s' \<and> wr_cinfo w' = wr_cinfo w \<and> last_restart_interval w' = 0 \<and>
    ready s' \<and> \<not> saw_SOF s' \<and> d_comp_info (dinfo s') = [] \<and> in_sync ci s' \<and> d_restart_interval (dinfo s') = 0 \<and>
    file_learned (wr_cinfo w) (dinfo s')"
proof -
  let ?ci = "wr_cinfo w"
  obtain u v where uv: "emit empty_buffer (emit_marker M_SOI) w = Inr u"
    "(if write_JFIF_header (wr_cinfo u) then emit_jfif_app0 empty_buffer (u\<lparr>last_restart_interval := 0\<rparr>) else Inr (u\<lparr>last_restart_interval := 0\<rparr>)) = Inr v"
    "(if write_Adobe_marker (wr_cinfo v) then emit_adobe_app14 empty_buffer v else Inr v) = Inr w'"
    using w(4) by (auto simp: write_file_header_def ebind_eq_Inr Let_def)
  define u' where "u' = u\<lparr>last_restart_interval := 0\<rparr>"
  have a: "wrote handed dest_ok w (octets (emit_marker M_SOI)) u'" "wr_cinfo u' = ?ci" "last_restart_interval u' = 0"
    using emit_wrote [OF w(1) uv(1)] by (auto simp: u'_def wrote_def)
  have "unread_marker s = 0" "\<not> saw_SOI s" "discarded_bytes s = 0" using w(3) by (simp_all add: fresh_reader_def)
  note f = fed_soi [OF this]
  define t where "t = (upd learn_soi s)\<lparr>saw_SOI := True\<rparr>"
  have t: "ready t" "\<not> saw_SOF t" "process_APPn t ! 0 = Get_interesting_appn" "process_APPn t ! 14 = Get_interesting_appn"
    using w(3) by (simp_all add: t_def ready_def fresh_reader_def)
  define j where "j = (if write_JFIF_header ?ci then upd (\<lambda>c. c\<lparr>saw_JFIF_marker := True, d_JFIF_major_version := JFIF_major_version ?ci,
      d_JFIF_minor_version := JFIF_minor_version ?ci, d_density_unit := density_unit ?ci, d_X_density := X_density ?ci, d_Y_density := Y_density ?ci\<rparr>) t else t)"
  have "\<exists>bs. wrote handed dest_ok u' bs v \<and> fed bs t j \<and> wr_cinfo v = ?ci \<and> last_restart_interval v = 0"
  proof (cases "write_JFIF_header ?ci")
    case True
    then have e: "emit_jfif_app0 empty_buffer u' = Inr v" using uv(2) a(2) by (simp add: u'_def)
    note e = emit_wrote [OF wroteD(1) [OF a(1)] e [unfolded emit_jfif_app0_def Let_def]]
    then show ?thesis using fed_app0 [OF t(1,3)] a(2,3) True unfolding j_def by auto
  next
    case False
    then have "v = u'" using uv(2) a(2) by (simp add: u'_def)
    then show ?thesis using wrote_refl [OF wroteD(1) [OF a(1)]] fed_Nil False a(2,3) by (auto simp: j_def)
  qed
  then obtain bs where b: "wrote handed dest_ok u' bs v" "fed bs t j" "wr_cinfo v = ?ci" "last_restart_interval v = 0" by blast
  have j: "ready j" "process_APPn j ! 14 = Get_interesting_appn" using t by (simp_all add: j_def)
  define A where "A = (case jpeg_color_space ?ci of JCS_YCbCr \<Rightarrow> 1 | JCS_YCCK \<Rightarrow> 2 | _ \<Rightarrow> (0::int))"
  define s' where "s' = (if write_Adobe_marker ?ci then upd (\<lambda>c. c\<lparr>saw_Adobe_marker := True, Adobe_transform := word_of_int A\<rparr>) j else j)"
  have "\<exists>bs. wrote handed dest_ok v bs w' \<and> fed bs j s' \<and> wr_cinfo w' = ?ci \<and> last_restart_interval w' = 0"
  proof (cases "write_Adobe_marker ?ci")
    case True
    then have e: "emit_adobe_app14 empty_buffer v = Inr w'" using uv(3) b(3) by simp
    note e = emit_wrote [OF wroteD(1) [OF b(1)] e [unfolded emit_adobe_app14_def]]
    have "0 \<le> A" "A < 256" by (simp_all add: A_def split: J_COLOR_SPACE.split)
    from fed_app14 [OF j this] show ?thesis using e b(3,4) True unfolding s'_def A_def by auto
  next
    case False
    then have "w' = v" using uv(3) b(3) by simp
    then show ?thesis using wrote_refl [OF wroteD(1) [OF b(1)]] fed_Nil False b(3,4) by (auto simp: s'_def)
  qed
  then obtain cs where c: "wrote handed dest_ok v cs w'" "fed cs j s'" "wr_cinfo w' = ?ci" "last_restart_interval w' = 0" by blast
  have "in_sync ci s'" using w(2) in_sync_cong [of s' s ci] by (simp add: s'_def j_def t_def learn_soi_def)
  moreover have "file_learned ?ci (dinfo s')"
    by (simp add: file_learned_def s'_def j_def t_def A_def learn_soi_def split: J_COLOR_SPACE.split)
  moreover have "d_restart_interval (dinfo s') = 0" "d_comp_info (dinfo s') = []" "ready s'" "\<not> saw_SOF s'"
    using w(3) t j by (simp_all add: s'_def j_def t_def learn_soi_def fresh_reader_def)
  ultimately show ?thesis
    using wrote_trans [OF a(1) wrote_trans [OF b(1) c(1)]] fed_append [OF f [folded t_def] fed_append [OF b(2) c(2)]] c(3,4) by auto
qed


lemma frame_step:
  assumes w: "room dest_ok w" "tables_ok (wr_cinfo w)" "frame_ok (wr_cinfo w)" "write_frame_header empty_buffer w = Inr w'"
    and s: "in_sync (wr_cinfo w) s" "ready s" "\<not> saw_SOF s" "d_comp_info (dinfo s) = []"
  shows "\<exists>bs Q s'. wrote handed dest_ok w bs w' \<and> fed bs s s' \<and> last_restart_interval w' = last_restart_interval w \<and>
    ready s' \<and> saw_SOF s' \<and> in_sync (wr_cinfo w') s' \<and> frame_learned (wr_cinfo w) (dinfo s') \<and> frame_tables_learned (wr_cinfo w) (dinfo s') \<and>
    s' = (upd (learn_frame (progressive_mode (wr_cinfo w)) False (data_precision (wr_cinfo w)) (sint (image_height (wr_cinfo w)))
       (sint (image_width (wr_cinfo w))) (frame_components (wr_cinfo w)) (fresh_comp s)) (upd (\<lambda>c. c\<lparr>d_quant_tbl_ptrs := Q\<rparr>) s))\<lparr>saw_SOF := True\<rparr>"
proof -
  let ?ci = "wr_cinfo w"
  obtain prec u where u: "emit_dqts empty_buffer (map quant_tbl_no (frame_components ?ci)) 0 w = Inr (prec, u)"
    "emit_sof empty_buffer (frame_code prec ?ci) u = Inr w'"
    using w(4) by (auto simp: write_frame_header_def ebind_eq_Inr Let_def frame_components_def)
  from dqts_steps [OF w(1,2) s(1,2) u(1)]
  obtain as Q where a: "wrote handed dest_ok w as u" "last_restart_interval u = last_restart_interval w"
    "fed as s (upd (\<lambda>c. c\<lparr>d_quant_tbl_ptrs := Q\<rparr>) s)" "in_sync (wr_cinfo u) (upd (\<lambda>c. c\<lparr>d_quant_tbl_ptrs := Q\<rparr>) s)"
    "\<forall>c \<in> set (frame_components ?ci). quant_sent (quant_tbl_no c) (wr_cinfo u)" by auto
  note fu = forget_fields [OF wroteD(3) [OF a(1)]] forget_indices [OF wroteD(3) [OF a(1)]]
  let ?cs = "frame_components ?ci"
  let ?bs = "octets (emit_marker (frame_code prec ?ci) @ emit_2bytes (3 * int (length ?cs) + 2 + 5 + 1) @ [data_precision ?ci] @
     emit_2bytes (sint (image_height ?ci)) @ emit_2bytes (sint (image_width ?ci)) @ [int (length ?cs)] @ concat (map frame_bytes ?cs))"
  note L = length_frame_components [OF w(3)]
  obtain x where x: "emit empty_buffer (emit_marker (frame_code prec ?ci) @ emit_2bytes (3 * int (length ?cs) + 2 + 5 + 1)) u = Inr x"
    "sint (image_height ?ci) \<le> 65535" "sint (image_width ?ci) \<le> 65535"
    "emit empty_buffer ([data_precision ?ci] @ emit_2bytes (sint (image_height ?ci)) @ emit_2bytes (sint (image_width ?ci)) @ [int (length ?cs)] @
      concat (map frame_bytes ?cs)) x = Inr w'"
    using u(2) fu unfolding L
    by (auto simp: emit_sof_def Let_def ebind_eq_Inr frame_components_def frame_bytes_def [abs_def] not_less split: if_splits)
  note e = emit_wrote [OF wroteD(1) [OF a(1)] x(1)]
  have "room dest_ok x" using e by (simp add: wrote_def)
  note f = emit_wrote [OF this x(4)]
  have W: "wrote handed dest_ok u ?bs w'" using wrote_trans [OF conjunct1 [OF e] conjunct1 [OF f]] by simp
  have c: "wr_cinfo w' = wr_cinfo u" "last_restart_interval w' = last_restart_interval u" using e f by auto
  let ?t = "upd (\<lambda>c. c\<lparr>d_quant_tbl_ptrs := Q\<rparr>) s"
  define s' where "s' = (upd (learn_frame (progressive_mode ?ci) False (data_precision ?ci) (sint (image_height ?ci)) (sint (image_width ?ci)) ?cs
       (fresh_comp s)) ?t)\<lparr>saw_SOF := True\<rparr>"
  have m: "(frame_code prec ?ci, progressive_mode ?ci, False) \<in>
      {(M_SOF0, False, False), (M_SOF1, False, False), (M_SOF2, True, False), (M_SOF9, False, True), (M_SOF10, True, True)}"
    using w(3) by (simp add: frame_ok_def frame_code_def Let_def)
  have F: "fed ?bs ?t s'"
    using fed_sof [of ?t, OF _ m, of ?cs "sint (image_height ?ci)" "sint (image_width ?ci)" "data_precision ?ci"] s(2-4) w(3) x(2,3) L
    by (simp add: s'_def frame_ok_def list_all_iff)
  have i: "in_sync (wr_cinfo w') s'" using a(4) in_sync_cong [of s' ?t "wr_cinfo u"] unfolding c(1)
    by (simp add: s'_def learn_frame_def)
  have n: "quant_sent k (wr_cinfo u) \<Longrightarrow> knows_quant k ?ci (dinfo s')" for k
    using knows_forget(1) [OF wroteD(3) [OF a(1)], of k "dinfo s'"] wroteD(4) [OF a(1)] w(2) knows_fwd(1) [OF i, of k] c(1)
    by (auto simp: quant_sent_def)
  have "frame_tables_learned ?ci (dinfo s')" using a(5) n by (simp add: frame_tables_learned_def list_all_iff)
  moreover have "frame_learned ?ci (dinfo s')"
    using L w(3) by (auto simp: frame_learned_def s'_def learn_frame_def set_frame_def frame_ok_def frame_components_def)
  moreover have "ready s'" "saw_SOF s'" using s(2) by (simp_all add: s'_def ready_def)
  ultimately show ?thesis
    using wrote_trans [OF a(1) W] fed_append [OF a(3) F] a(2) c(2) i s'_def by metis
qed

end

section \<open>The round trip\<close>

definition headers_learned :: "jpeg_compress_struct \<Rightarrow> jpeg_decompress_struct \<Rightarrow> bool" where
  "headers_learned ci d \<longleftrightarrow> frame_learned ci d \<and> scan_learned ci d \<and> frame_tables_learned ci d \<and> scan_tables_learned ci d"

text \<open>
  The headers up to the first scan. The file header is written when compression starts; \<open>ci\<close> are the
  parameters when the first scan starts, with its script entry and its tables set up.
\<close>

definition write_headers ::
  "('z jpeg_destination_mgr_scheme \<Rightarrow> fault + (bool \<times> 'z jpeg_destination_mgr_scheme)) \<Rightarrow> jpeg_compress_struct \<Rightarrow>
   'z jpeg_destination_mgr_scheme marker_writer \<Rightarrow> fault + 'z jpeg_destination_mgr_scheme marker_writer" where
  "write_headers emptyf ci w = ebind (write_file_header emptyf w) (\<lambda>w.
     ebind (write_frame_header emptyf (w\<lparr>wr_cinfo := ci\<rparr>)) (write_scan_header emptyf))"

lemma read_fed:
  assumes "\<forall>rest. read_markers (feed (bs @ rest) s) = Inr (st, feed rest s')" "live s" "upcoming s = bs @ rest"
  obtains t where "read_markers s = Inr (st, t)" "upcoming t = rest" "dinfo t = dinfo s'"
proof -
  have "map_sum id (apsnd flat) (read_markers s) = Inr (st, feed rest s')"
    using read_markers_flat [OF assms(2)] assms(1,3) by (simp add: flat_feed)
  then obtain t where t: "read_markers s = Inr (st, t)" "feed (upcoming t) t = feed rest s'"
    by (cases "read_markers s") (auto simp: flat_feed)
  have "input (feed (upcoming t) t) = input (feed rest s')" "dinfo (feed (upcoming t) t) = dinfo (feed rest s')" using t(2) by simp_all
  then show ?thesis using that t(1) by (simp add: feed_def)
qed

context destination
begin

lemma headers_steps:
  assumes w: "room dest_ok w" "write_headers empty_buffer ci w = Inr w'" "tables_ok ci" "frame_ok ci" "scan_ok ci"
    and s: "in_sync ci s" "fresh_reader s"
  shows "\<exists>bs s'. stream handed w' = stream handed w @ bs \<and> (\<forall>rest. read_markers (feed (bs @ rest) s) = Inr (JPEG_REACHED_SOS, feed rest s')) \<and>
    file_learned (wr_cinfo w) (dinfo s') \<and> headers_learned ci (dinfo s')"
proof -
  obtain u v where uv: "write_file_header empty_buffer w = Inr u" "write_frame_header empty_buffer (u\<lparr>wr_cinfo := ci\<rparr>) = Inr v"
    "write_scan_header empty_buffer v = Inr w'" using w(2) by (auto simp: write_headers_def ebind_eq_Inr)
  from file_step [OF w(1) s uv(1)] obtain as t where t: "wrote handed dest_ok w as u" "fed as s t" "last_restart_interval u = 0"
    "ready t" "\<not> saw_SOF t" "d_comp_info (dinfo t) = []" "in_sync ci t" "d_restart_interval (dinfo t) = 0" "file_learned (wr_cinfo w) (dinfo t)"
    by blast
  let ?u = "u\<lparr>wr_cinfo := ci\<rparr>"
  have u: "room dest_ok ?u" "wr_cinfo ?u = ci" "last_restart_interval ?u = 0" "stream handed ?u = stream handed w @ as"
    using wroteD(1,5) [OF t(1)] t(3) by simp_all
  obtain bs Q r where r: "wrote handed dest_ok ?u bs v" "fed bs t r" "last_restart_interval v = 0"
    "ready r" "saw_SOF r" "in_sync (wr_cinfo v) r" "frame_learned ci (dinfo r)" "frame_tables_learned ci (dinfo r)"
    "r = (upd (learn_frame (progressive_mode ci) False (data_precision ci) (sint (image_height ci))
       (sint (image_width ci)) (frame_components ci) (fresh_comp t)) (upd (\<lambda>c. c\<lparr>d_quant_tbl_ptrs := Q\<rparr>) t))\<lparr>saw_SOF := True\<rparr>"
    using frame_step [OF u(1) _ _ uv(2), of t] t(4-7) w(3,4) unfolding u(2,3) by blast
  have f: "forget (wr_cinfo v) = forget ci" using wroteD(3) [OF r(1)] by simp
  note c = frame_learned_cong [OF f]
  have di: "d_restart_interval (dinfo r) = 0" "file_learned (wr_cinfo w) (dinfo r)"
    using t(8,9) by (simp_all add: r(9) learn_frame_def file_learned_def)
  have tv: "tables_ok (wr_cinfo v)" using tables_ok_cong [OF f] w(3) by simp
  have v: "frame_ok (wr_cinfo v)" "scan_ok (wr_cinfo v)" "frame_learned (wr_cinfo v) (dinfo r)" "d_restart_interval (dinfo r) = last_restart_interval v"
    using w(4,5) c r(3,7) di(1) by simp_all
  obtain cs s' where e: "wrote handed dest_ok v cs w'" "\<forall>rest. read_markers (feed (cs @ rest) r) = Inr (JPEG_REACHED_SOS, feed rest s')"
    "scan_learned (wr_cinfo v) (dinfo s')" "frame_learned (wr_cinfo v) (dinfo s')" "scan_tables_learned (wr_cinfo v) (dinfo s')"
    and s': "\<exists>D A R. s' = (upd (learn_scan (scan_indices (wr_cinfo v)) (sent_dc_tbl (wr_cinfo v)) (sent_ac_tbl (wr_cinfo v))
       (Ss (wr_cinfo v)) (Se (wr_cinfo v)) (Ah (wr_cinfo v)) (Al (wr_cinfo v))) (upd (\<lambda>c. c\<lparr>d_dc_huff_tbl_ptrs := D, d_ac_huff_tbl_ptrs := A, d_restart_interval := R\<rparr>) r))\<lparr>next_restart_num := 0\<rparr>"
    using scan_step [OF wroteD(1) [OF r(1)] tv v(1,2) r(6,4,5) v(3,4) uv(3)] by (elim exE conjE) (rule that, assumption+, blast)
  have "d_quant_tbl_ptrs (dinfo s') = d_quant_tbl_ptrs (dinfo r)" "file_learned (wr_cinfo w) (dinfo s')"
    using s' di(2) by (auto simp: learn_scan_def file_learned_def)
  moreover have "frame_tables_learned ci (dinfo s')" using r(8) calculation(1) by (simp add: frame_tables_learned_def knows_quant_def)
  moreover have "scan_tables_learned ci (dinfo s')"
    using e(5) knows_forget(2) [OF f tv] forget_fields [OF f] by (auto simp: scan_tables_learned_def list_all_iff)
  ultimately have "file_learned (wr_cinfo w) (dinfo s')" "headers_learned ci (dinfo s')" using e(3,4) c by (simp_all add: headers_learned_def)
  moreover have "stream handed w' = stream handed w @ as @ bs @ cs" using wroteD(5) [OF e(1)] wroteD(5) [OF r(1)] u(4) by simp
  moreover have "\<forall>rest. read_markers (feed ((as @ bs @ cs) @ rest) s) = Inr (JPEG_REACHED_SOS, feed rest s')"
    using t(2) r(2) e(2) by (simp add: fed_def)
  ultimately show ?thesis by metis
qed

end

lemma headers_read:
  assumes "mem_ok malloc al lo (wr_dest w)" "0 < free_in_buffer (wr_dest w)" "next_output_byte (wr_dest w) = 0"
    and "write_headers (empty_mem_output_buffer malloc) ci w = Inr w'" "tables_ok ci" "frame_ok ci" "scan_ok ci"
    and "in_sync ci s" "fresh_reader s" "live s" "upcoming s = pending (wr_dest w') @ rest"
  shows "\<exists>t. read_markers s = Inr (JPEG_REACHED_SOS, t) \<and> upcoming t = rest \<and> file_learned (wr_cinfo w) (dinfo t) \<and> headers_learned ci (dinfo t)"
proof -
  have "room (mem_ok malloc al lo) w" using assms(1,2) by (simp add: room_def)
  from mem.headers_steps [OF this assms(4-9)]
  obtain bs s' where b: "stream (\<lambda>d. []) w' = stream (\<lambda>d. []) w @ bs" "\<forall>rest. read_markers (feed (bs @ rest) s) = Inr (JPEG_REACHED_SOS, feed rest s')"
    "file_learned (wr_cinfo w) (dinfo s')" "headers_learned ci (dinfo s')" by blast
  have "upcoming s = bs @ rest" using b(1) assms(3,11) by (simp add: stream_def pending_def)
  from read_fed [OF b(2) assms(10) this] show ?thesis using b(3,4) by metis
qed



text \<open>A grey image with small tables.\<close>

definition grey_ci :: jpeg_compress_struct where
  "grey_ci = zero_struct\<lparr>image_width := 9, image_height := 300, data_precision := 8, num_components := 1, jpeg_color_space := JCS_GRAYSCALE,
     comp_info := [\<lparr>component_id = 1, component_index = 0, h_samp_factor = 1, v_samp_factor = 1,
       quant_tbl_no = 0, dc_tbl_no = 0, ac_tbl_no = 1, width_in_blocks = 2, height_in_blocks = 38, DCT_scaled_size = 8,
       downsampled_width = 9, downsampled_height = 300, component_needed = True, MCU_width = 1, MCU_height = 1, MCU_blocks = 1,
       MCU_sample_width = 8, last_col_width = 1, last_row_height = 1, quant_table = None\<rparr>],
     quant_tbl_ptrs := [Some \<lparr>quantval = 300 # replicate 63 16, sent_table = False\<rparr>, None, None, None],
     dc_huff_tbl_ptrs := [Some \<lparr>bits = [0, 0, 3] @ replicate 14 0, huffval = [0, 2, 1] @ replicate 253 0, sent_table = False\<rparr>, None, None, None],
     ac_huff_tbl_ptrs := [None, Some \<lparr>bits = [0, 1] @ replicate 15 0, huffval = replicate 256 0, sent_table = False\<rparr>, None, None],
     restart_interval := 300, write_JFIF_header := True, X_density := 258, comps_in_scan := 1, cur_comp_info := [0, 0, 0, 0], Se := 63\<rparr>"

definition grey_w :: "my_mem_destination_mgr marker_writer" where
  "grey_w = \<lparr>wr_cinfo = grey_ci, last_restart_interval = 0, wr_dest = \<lparr>buffer = replicate 240 0, next_output_byte = 0, free_in_buffer = 240,
     outbuffer = [], outsize = 0, newbuffer = True, bufsize = 240, alloc = True\<rparr>\<rparr>"

definition grey_w' :: "my_mem_destination_mgr marker_writer" where
  "grey_w' = projr (write_headers (empty_mem_output_buffer (\<lambda>n. Some (replicate n 0))) grey_ci grey_w)"

lemma grey_written: "write_headers (empty_mem_output_buffer (\<lambda>n. Some (replicate n 0))) grey_ci grey_w = Inr grey_w'"
proof -
  have "\<not> isl (write_headers (empty_mem_output_buffer (\<lambda>n. Some (replicate n 0))) grey_ci grey_w)" by code_simp
  then show ?thesis by (simp add: grey_w'_def)
qed

lemma grey_ok: "tables_ok grey_ci" "frame_ok grey_ci" "scan_ok grey_ci"
proof -
  show "tables_ok grey_ci" by (simp add: tables_ok_def grey_ci_def)
  show "frame_ok grey_ci" "scan_ok grey_ci" by code_simp+
qed

text \<open>When no table has been sent, nothing is asked of the reader.\<close>

lemma unsent:
  assumes "tables_ok ci" "list_all (pred_option (Not \<circ> JQUANT_TBL.sent_table)) (quant_tbl_ptrs ci)"
    and "list_all (pred_option (Not \<circ> JHUFF_TBL.sent_table)) (dc_huff_tbl_ptrs ci)"
    and "list_all (pred_option (Not \<circ> JHUFF_TBL.sent_table)) (ac_huff_tbl_ptrs ci)"
  shows "\<not> quant_sent k ci" "\<not> huff_sent ac k ci"
proof -
  have n: "nat k < 4" if "0 \<le> k" "k < 4" using that by simp
  show "\<not> quant_sent k ci" using assms(1,2) n by (force simp: quant_sent_def tables_ok_def list_all_length)
  show "\<not> huff_sent ac k ci" using assms(1,3,4) n
    by (cases ac) (force simp: huff_sent_def huff_ptrs_def tables_ok_def list_all_length)+
qed

lemma grey_unsent: "\<not> quant_sent k grey_ci" "\<not> huff_sent ac k grey_ci"
  by (rule unsent [OF grey_ok(1)]; simp add: grey_ci_def)+

lemma grey_sync: "in_sync grey_ci (idle_decompressor b [])"
  using grey_unsent by (simp add: in_sync_def quants_ok_def) (simp add: idle_decompressor_def zero_decompress_def)


text \<open>The same image's scan, for a reader that has read the frame header.\<close>

definition grey_s :: "u8 list \<Rightarrow> decompressor" where
  "grey_s b = (upd (learn_frame False False 8 300 9 (comp_info grey_ci) (\<lambda>_. comp_info grey_ci ! 0)) (idle_decompressor b []))\<lparr>saw_SOI := True, saw_SOF := True\<rparr>"

definition grey_w2 :: "my_mem_destination_mgr marker_writer" where
  "grey_w2 = projr (write_scan_header (empty_mem_output_buffer (\<lambda>n. Some (replicate n 0))) grey_w)"

lemma grey_written2: "write_scan_header (empty_mem_output_buffer (\<lambda>n. Some (replicate n 0))) grey_w = Inr grey_w2"
proof -
  have "\<not> isl (write_scan_header (empty_mem_output_buffer (\<lambda>n. Some (replicate n 0))) grey_w)" by code_simp
  then show ?thesis by (simp add: grey_w2_def)
qed


end
