(* ===== verification/Jdinput.thy ===== *)
theory Jdinput imports Jdmarker Jcmaster begin

text \<open>
  \<open>jdinput.c\<close>: the input controller of the decompressor. It reads markers and hands each scan to the
  coefficient controller; which of the two gets the next call is kept in \<open>consume_input\<close>. The entropy
  decoder and the coefficient controller are called through methods, which are arguments here.
\<close>

section \<open>The decompressor\<close>

text \<open>
  \<open>reader\<close> is the object with its source and marker reader. The fields after \<open>inheaders\<close> belong to the
  coefficient controller (\<open>jdcoefct.c\<close>): \<open>coef_arrays\<close> is \<open>None\<close> when it has a buffer for one MCU only, and
  else has the block rows of each component. \<open>entropy\<close> is the private state of the entropy decoder.
\<close>

datatype consume_method = Consume_markers | Consume_data

type_synonym barray = "int list list list"

record 'e d_object =
  reader :: decompressor
  consume_input :: consume_method
  has_multiple_scans :: bool
  eoi_reached :: bool
  inheaders :: bool
  MCU_ctr :: u32
  MCU_vert_offset :: int
  MCU_rows_per_iMCU_row :: int
  coef_arrays :: "barray list option"
  entropy :: 'e

abbreviation info :: "'e d_object \<Rightarrow> jpeg_decompress_struct" where
  "info s \<equiv> dinfo (reader s)"

definition set_info :: "(jpeg_decompress_struct \<Rightarrow> jpeg_decompress_struct) \<Rightarrow> 'e d_object \<Rightarrow> 'e d_object" where
  "set_info f s = s\<lparr>reader := upd f (reader s)\<rparr>"

lemma set_info_simps [simp]:
  "info (set_info f s) = f (info s)" "consume_input (set_info f s) = consume_input s"
  "has_multiple_scans (set_info f s) = has_multiple_scans s" "eoi_reached (set_info f s) = eoi_reached s"
  "inheaders (set_info f s) = inheaders s" "MCU_ctr (set_info f s) = MCU_ctr s" "MCU_vert_offset (set_info f s) = MCU_vert_offset s"
  "MCU_rows_per_iMCU_row (set_info f s) = MCU_rows_per_iMCU_row s" "coef_arrays (set_info f s) = coef_arrays s"
  "entropy (set_info f s) = entropy s" "upcoming (reader (set_info f s)) = upcoming (reader s)"
  "live (reader (set_info f s)) = live (reader s)" "saw_SOF (reader (set_info f s)) = saw_SOF (reader s)"
  "unread_marker (reader (set_info f s)) = unread_marker (reader s)"
  by (simp_all add: set_info_def)

text \<open>The components of the current scan; a NULL pointer has no index.\<close>

definition d_scan_indices :: "jpeg_decompress_struct \<Rightarrow> nat option list" where
  "d_scan_indices d = take (nat (d_comps_in_scan d)) (d_cur_comp_info d)"

section \<open>Layout of the image and of a scan\<close>

text \<open>\<open>blocks_across\<close>, \<open>samples_across\<close> and \<open>check_sampling\<close> have the same text as in the compressor.\<close>

definition d_setup_component :: "jpeg_decompress_struct \<Rightarrow> jpeg_component_info \<Rightarrow> jpeg_component_info" where
  "d_setup_component d c = c\<lparr>DCT_scaled_size := DCTSIZE,
     width_in_blocks := blocks_across (d_image_width d) (h_samp_factor c) (d_max_h_samp_factor d),
     height_in_blocks := blocks_across (d_image_height d) (v_samp_factor c) (d_max_v_samp_factor d),
     downsampled_width := samples_across (d_image_width d) (h_samp_factor c) (d_max_h_samp_factor d),
     downsampled_height := samples_across (d_image_height d) (v_samp_factor c) (d_max_v_samp_factor d),
     component_needed := True, quant_table := None\<rparr>"

definition d_initial_setup :: "jpeg_decompress_struct \<Rightarrow> fault + (bool \<times> jpeg_decompress_struct)" where
  "d_initial_setup d =
     (if JPEG_MAX_DIMENSION < sint (d_image_height d) \<or> JPEG_MAX_DIMENSION < sint (d_image_width d)
      then Inl (ErrExit (JERR_IMAGE_TOO_BIG JPEG_MAX_DIMENSION))
      else if d_data_precision d \<noteq> BITS_IN_JSAMPLE then Inl (ErrExit (JERR_BAD_PRECISION (d_data_precision d)))
      else if MAX_COMPONENTS < d_num_components d
      then Inl (ErrExit (JERR_COMPONENT_COUNT (d_num_components d) MAX_COMPONENTS))
      else if int (length (d_comp_info d)) < d_num_components d then Inl OutOfBounds
      else
        let n = nat (d_num_components d); comps = take n (d_comp_info d)
        in (case check_sampling comps (1, 1) of
              Inl e \<Rightarrow> Inl (ErrExit e)
            | Inr (mh, mv) \<Rightarrow>
                let d = d\<lparr>d_max_h_samp_factor := mh, d_max_v_samp_factor := mv, min_DCT_scaled_size := DCTSIZE\<rparr>
                in Inr (d_comps_in_scan d < d_num_components d \<or> d_progressive_mode d,
                     d\<lparr>d_comp_info := map (d_setup_component d) comps @ drop n (d_comp_info d),
                       d_total_iMCU_rows := word_of_int (jdiv_round_up (sint (d_image_height d)) (mv * DCTSIZE))\<rparr>)))"

definition D_MAX_BLOCKS_IN_MCU :: int where "D_MAX_BLOCKS_IN_MCU = 10"

definition d_noninterleaved :: "jpeg_component_info \<Rightarrow> jpeg_component_info" where
  "d_noninterleaved c = c\<lparr>MCU_width := 1, MCU_height := 1, MCU_blocks := 1, MCU_sample_width := DCT_scaled_size c,
     last_col_width := 1, last_row_height := last_group (height_in_blocks c) (v_samp_factor c)\<rparr>"

definition d_interleaved :: "jpeg_component_info \<Rightarrow> jpeg_component_info" where
  "d_interleaved c = c\<lparr>MCU_width := h_samp_factor c, MCU_height := v_samp_factor c,
     MCU_blocks := h_samp_factor c * v_samp_factor c, MCU_sample_width := h_samp_factor c * DCT_scaled_size c,
     last_col_width := last_group (width_in_blocks c) (h_samp_factor c),
     last_row_height := last_group (height_in_blocks c) (v_samp_factor c)\<rparr>"

fun d_interleave :: "int \<Rightarrow> nat option list \<Rightarrow> jpeg_component_info list \<times> int \<times> int list \<Rightarrow>
  fault + (jpeg_component_info list \<times> int \<times> int list)" where
  "d_interleave ci [] st = Inr st"
| "d_interleave ci (None # is) st = Inl OutOfBounds"
| "d_interleave ci (Some i # is) (comps, blocks, mm) =
     (let c = d_interleaved (comps ! i)
      in if D_MAX_BLOCKS_IN_MCU < blocks + MCU_blocks c then Inl (ErrExit JERR_BAD_MCU_SIZE)
         else case add_membership (nat (MCU_blocks c)) ci (blocks, mm) of
           (blocks, mm) \<Rightarrow> d_interleave (ci + 1) is (comps[i := c], blocks, mm))"

definition d_per_scan_setup :: "jpeg_decompress_struct \<Rightarrow> fault + jpeg_decompress_struct" where
  "d_per_scan_setup d =
     (if d_comps_in_scan d = 1
      then (case d_cur_comp_info d ! 0 of
              None \<Rightarrow> Inl OutOfBounds
            | Some i \<Rightarrow>
                let c = d_comp_info d ! i
                in Inr (d\<lparr>d_MCUs_per_row := width_in_blocks c, d_MCU_rows_in_scan := height_in_blocks c,
                     d_comp_info := (d_comp_info d)[i := d_noninterleaved c],
                     d_blocks_in_MCU := 1, d_MCU_membership := (d_MCU_membership d)[0 := 0]\<rparr>))
      else if d_comps_in_scan d \<le> 0 \<or> MAX_COMPS_IN_SCAN < d_comps_in_scan d
      then Inl (ErrExit (JERR_COMPONENT_COUNT (d_comps_in_scan d) MAX_COMPS_IN_SCAN))
      else ebind (d_interleave 0 (d_scan_indices d) (d_comp_info d, 0, d_MCU_membership d)) (\<lambda>(comps, blocks, mm).
           Inr (d\<lparr>
             d_MCUs_per_row := word_of_int (jdiv_round_up (sint (d_image_width d)) (d_max_h_samp_factor d * DCTSIZE)),
             d_MCU_rows_in_scan := word_of_int (jdiv_round_up (sint (d_image_height d)) (d_max_v_samp_factor d * DCTSIZE)),
             d_comp_info := comps, d_blocks_in_MCU := blocks, d_MCU_membership := mm\<rparr>)))"

text \<open>Each component keeps the table that was in its slot when its first scan began.\<close>

fun latch_tables :: "nat option list \<Rightarrow> jpeg_decompress_struct \<Rightarrow> fault + jpeg_decompress_struct" where
  "latch_tables [] d = Inr d"
| "latch_tables (None # is) d = Inl OutOfBounds"
| "latch_tables (Some i # is) d =
     (let c = d_comp_info d ! i; qtblno = quant_tbl_no c
      in if quant_table c \<noteq> None then latch_tables is d
         else if qtblno < 0 \<or> int NUM_QUANT_TBLS \<le> qtblno \<or> d_quant_tbl_ptrs d ! nat qtblno = None
         then Inl (ErrExit (JERR_NO_QUANT_TABLE qtblno))
         else latch_tables is (d\<lparr>d_comp_info := (d_comp_info d)[i := c\<lparr>quant_table := d_quant_tbl_ptrs d ! nat qtblno\<rparr>]\<rparr>))"

definition latch_quant_tables :: "jpeg_decompress_struct \<Rightarrow> fault + jpeg_decompress_struct" where
  "latch_quant_tables d = latch_tables (d_scan_indices d) d"

section \<open>The input controller\<close>

text \<open>The entropy decoder's methods: \<open>start_pass\<close>, and \<open>decode_mcu\<close> on the blocks of an MCU.\<close>

record 'e entropy_decoder =
  entropy_start :: "'e d_object \<Rightarrow> fault + 'e d_object"
  entropy_mcu :: "int list list \<Rightarrow> 'e d_object \<Rightarrow> fault + (bool \<times> int list list \<times> 'e d_object)"

definition on_info :: "(jpeg_decompress_struct \<Rightarrow> fault + jpeg_decompress_struct) \<Rightarrow> 'e d_object \<Rightarrow> fault + 'e d_object" where
  "on_info f s = ebind (f (info s)) (\<lambda>d. Inr (set_info (\<lambda>_. d) s))"

text \<open>\<open>start_input_pass\<close> of \<open>jdcoefct.c\<close>, with \<open>start_iMCU_row\<close>.\<close>

definition d_start_iMCU_row :: "'e d_object \<Rightarrow> fault + 'e d_object" where
  "d_start_iMCU_row s =
     (let d = info s
      in ebind (if 1 < d_comps_in_scan d then Inr 1
                else case d_cur_comp_info d ! 0 of
                       None \<Rightarrow> Inl OutOfBounds
                     | Some i \<Rightarrow> Inr (if input_iMCU_row d < d_total_iMCU_rows d - 1 then v_samp_factor (d_comp_info d ! i)
                                     else last_row_height (d_comp_info d ! i)))
         (\<lambda>n. Inr (s\<lparr>MCU_rows_per_iMCU_row := n, MCU_ctr := 0, MCU_vert_offset := 0\<rparr>)))"

definition coef_start_input_pass :: "'e d_object \<Rightarrow> fault + 'e d_object" where
  "coef_start_input_pass s = d_start_iMCU_row (set_info (\<lambda>d. d\<lparr>input_iMCU_row := 0\<rparr>) s)"

definition start_input_pass :: "'e entropy_decoder \<Rightarrow> 'e d_object \<Rightarrow> fault + 'e d_object" where
  "start_input_pass m s =
     ebind (on_info d_per_scan_setup s) (\<lambda>s.
     ebind (on_info latch_quant_tables s) (\<lambda>s.
     ebind (entropy_start m s) (\<lambda>s.
     ebind (coef_start_input_pass s) (\<lambda>s. Inr (s\<lparr>consume_input := Consume_data\<rparr>)))))"

definition finish_input_pass :: "'e d_object \<Rightarrow> 'e d_object" where
  "finish_input_pass s = s\<lparr>consume_input := Consume_markers\<rparr>"

definition consume_markers :: "'e entropy_decoder \<Rightarrow> 'e d_object \<Rightarrow> fault + (read_status \<times> 'e d_object)" where
  "consume_markers m s =
     (if eoi_reached s then Inr (JPEG_REACHED_EOI, s)
      else ebind (read_markers (reader s)) (\<lambda>(val, r).
        let s = s\<lparr>reader := r\<rparr>
        in case val of
             JPEG_REACHED_SOS \<Rightarrow>
               if inheaders s
               then ebind (d_initial_setup (info s)) (\<lambda>(multi, d).
                      Inr (val, (set_info (\<lambda>_. d) s)\<lparr>has_multiple_scans := multi, inheaders := False\<rparr>))
               else if \<not> has_multiple_scans s then Inl (ErrExit JERR_EOI_EXPECTED)
               else ebind (start_input_pass m s) (\<lambda>s. Inr (val, s))
           | JPEG_REACHED_EOI \<Rightarrow>
               let s = s\<lparr>eoi_reached := True\<rparr>
               in if inheaders s
                  then if saw_SOF (reader s) then Inl (ErrExit JERR_SOF_NO_SOS) else Inr (val, s)
                  else Inr (val, if input_scan_number (info s) < output_scan_number (info s)
                                 then set_info (\<lambda>d. d\<lparr>output_scan_number := input_scan_number d\<rparr>) s else s)
           | _ \<Rightarrow> Inr (val, s)))"

definition reset_input_controller :: "'e d_object \<Rightarrow> 'e d_object" where
  "reset_input_controller s =
     set_info (\<lambda>d. d\<lparr>coef_bits := None\<rparr>) (s\<lparr>consume_input := Consume_markers, has_multiple_scans := False, eoi_reached := False,
       inheaders := True, reader := reset_marker_reader (reader s)\<rparr>)"

definition jinit_input_controller :: "'e d_object \<Rightarrow> 'e d_object" where
  "jinit_input_controller s =
     s\<lparr>consume_input := Consume_markers, has_multiple_scans := False, eoi_reached := False, inheaders := True\<rparr>"

end
