(* ===== verification/Jdcoef.thy ===== *)
theory Jdcoef imports Jdinput HuffDec begin

text \<open>
  The input side of the coefficient controller (\<open>jdcoefct.c\<close>), which stores a scan's blocks in the
  coefficient arrays, the sequential Huffman decoder as an entropy decoder of the whole decompressor, and
  \<open>jdtrans.c\<close>, which reads the coefficients of a file. A virtual array is the list of its block rows:
  which of them are in memory is the memory manager's concern.
\<close>

section \<open>Coefficient arrays\<close>

definition empty_barray :: "jpeg_component_info \<Rightarrow> barray" where
  "empty_barray c =
     replicate (unat (word_of_int (jround_up (sint (height_in_blocks c)) (v_samp_factor c)) :: u32))
       (replicate (unat (word_of_int (jround_up (sint (width_in_blocks c)) (h_samp_factor c)) :: u32)) (replicate DCTSIZE2 0))"

definition jinit_d_coef_controller :: "bool \<Rightarrow> 'e d_object \<Rightarrow> 'e d_object" where
  "jinit_d_coef_controller need_full_buffer s =
     s\<lparr>coef_arrays := if need_full_buffer
                      then Some (map empty_barray (take (nat (d_num_components (info s))) (d_comp_info (info s)))) else None\<rparr>"

text \<open>A block is addressed by component index, row and column.\<close>

type_synonym block_pos = "nat \<times> nat \<times> nat"

definition pos_ok :: "barray list \<Rightarrow> block_pos \<Rightarrow> bool" where
  "pos_ok arrays = (\<lambda>(c, row, col). c < length arrays \<and> row < length (arrays ! c) \<and> col < length (arrays ! c ! row))"

definition get_block :: "barray list \<Rightarrow> block_pos \<Rightarrow> int list" where
  "get_block arrays = (\<lambda>(c, row, col). arrays ! c ! row ! col)"

definition put_block :: "block_pos \<Rightarrow> int list \<Rightarrow> barray list \<Rightarrow> barray list" where
  "put_block = (\<lambda>(c, row, col) b arrays. arrays[c := (arrays ! c)[row := (arrays ! c ! row)[col := b]]])"

fun put_blocks :: "(block_pos \<times> int list) list \<Rightarrow> barray list \<Rightarrow> barray list" where
  "put_blocks [] arrays = arrays"
| "put_blocks ((p, b) # pbs) arrays = put_blocks pbs (put_block p b arrays)"

section \<open>Reading one iMCU row\<close>

text \<open>The components of the scan, in order, with NULL pointers left out: reading them checks for those.\<close>

definition d_scan_comps :: "jpeg_decompress_struct \<Rightarrow> jpeg_component_info list" where
  "d_scan_comps d = map (\<lambda>i. d_comp_info d ! the i) (d_scan_indices d)"

text \<open>\<open>access_virt_barray\<close> refuses rows outside the array.\<close>

definition access_ok :: "jpeg_decompress_struct \<Rightarrow> barray list \<Rightarrow> jpeg_component_info \<Rightarrow> bool" where
  "access_ok d arrays c \<longleftrightarrow>
     unat (input_iMCU_row d * word_of_int (v_samp_factor c) + word_of_int (v_samp_factor c)) \<le> length (arrays ! nat (component_index c))"

text \<open>
  When \<open>decode_mcu\<close> suspends, the coefficients it has stored by then stay in the array and are stored again,
  with the same values, by the retry; they are left out here.
\<close>

text \<open>The blocks of the MCU at row \<open>yoffset\<close> of the iMCU row and column \<open>col\<close>, in the order of the pointers.\<close>

definition comp_positions :: "jpeg_decompress_struct \<Rightarrow> int \<Rightarrow> u32 \<Rightarrow> jpeg_component_info \<Rightarrow> block_pos list" where
  "comp_positions d yoffset col c =
     concat (map (\<lambda>yindex. map (\<lambda>xindex.
       (nat (component_index c), unat (input_iMCU_row d * word_of_int (v_samp_factor c)) + nat (yindex + yoffset),
        unat (col * word_of_int (MCU_width c)) + nat xindex)) [0..MCU_width c - 1]) [0..MCU_height c - 1])"

definition MCU_positions :: "jpeg_decompress_struct \<Rightarrow> int \<Rightarrow> u32 \<Rightarrow> block_pos list" where
  "MCU_positions d yoffset col = concat (map (comp_positions d yoffset col) (d_scan_comps d))"

definition fetch_MCU :: "'e entropy_decoder \<Rightarrow> int \<Rightarrow> u32 \<Rightarrow> 'e d_object \<Rightarrow> fault + (bool \<times> 'e d_object)" where
  "fetch_MCU m yoffset col s =
     (case coef_arrays s of
        None \<Rightarrow> Inl OutOfBounds
      | Some arrays \<Rightarrow>
          let ps = MCU_positions (info s) yoffset col
          in if \<not> list_all (pos_ok arrays) ps \<or> nat D_MAX_BLOCKS_IN_MCU < length ps then Inl OutOfBounds
             else ebind (entropy_mcu m (map (get_block arrays) ps) s) (\<lambda>(ok, blocks, s).
                  Inr (ok, if ok then s\<lparr>coef_arrays := Some (put_blocks (zip ps blocks) arrays)\<rparr> else s)))"

fun MCU_cols :: "'e entropy_decoder \<Rightarrow> int \<Rightarrow> u32 list \<Rightarrow> 'e d_object \<Rightarrow> fault + (bool \<times> 'e d_object)" where
  "MCU_cols m yoffset [] s = Inr (True, s\<lparr>MCU_ctr := 0\<rparr>)"
| "MCU_cols m yoffset (col # cols) s =
     ebind (fetch_MCU m yoffset col s) (\<lambda>(ok, s).
       if ok then MCU_cols m yoffset cols s else Inr (False, s\<lparr>MCU_vert_offset := yoffset, MCU_ctr := col\<rparr>))"

fun MCU_rows :: "'e entropy_decoder \<Rightarrow> int list \<Rightarrow> 'e d_object \<Rightarrow> fault + (bool \<times> 'e d_object)" where
  "MCU_rows m [] s = Inr (True, s)"
| "MCU_rows m (yoffset # ys) s =
     ebind (MCU_cols m yoffset (map of_nat [unat (MCU_ctr s)..<unat (d_MCUs_per_row (info s))]) s) (\<lambda>(ok, s).
       if ok then MCU_rows m ys s else Inr (False, s))"

definition consume_data :: "'e entropy_decoder \<Rightarrow> 'e d_object \<Rightarrow> fault + (read_status \<times> 'e d_object)" where
  "consume_data m s =
     (case coef_arrays s of
        None \<Rightarrow> Inr (JPEG_SUSPENDED, s)
      | Some arrays \<Rightarrow>
          if None \<in> set (d_scan_indices (info s)) then Inl OutOfBounds
          else if \<not> list_all (access_ok (info s) arrays) (d_scan_comps (info s)) then Inl (ErrExit JERR_BAD_VIRTUAL_ACCESS)
          else ebind (MCU_rows m [MCU_vert_offset s..MCU_rows_per_iMCU_row s - 1] s) (\<lambda>(ok, s).
            if \<not> ok then Inr (JPEG_SUSPENDED, s)
            else
              let s = set_info (\<lambda>d. d\<lparr>input_iMCU_row := input_iMCU_row d + 1\<rparr>) s
              in if input_iMCU_row (info s) < d_total_iMCU_rows (info s)
                 then ebind (d_start_iMCU_row s) (\<lambda>s. Inr (JPEG_ROW_COMPLETED, s))
                 else Inr (JPEG_SCAN_COMPLETED, finish_input_pass s)))"

text \<open>The call \<open>(*cinfo->inputctl->consume_input) (cinfo)\<close>.\<close>

definition consume :: "'e entropy_decoder \<Rightarrow> 'e d_object \<Rightarrow> fault + (read_status \<times> 'e d_object)" where
  "consume m s = (case consume_input s of Consume_markers \<Rightarrow> consume_markers m s | Consume_data \<Rightarrow> consume_data m s)"

section \<open>The sequential Huffman decoder in the decompressor\<close>

text \<open>
  The decoder works on the object's source and its \<open>unread_marker\<close>; its own state is the rest of
  \<open>bitstate\<close>, the predictions and the tables.
\<close>

definition load_source :: "decompressor \<Rightarrow> huff_entropy_decoder \<Rightarrow> huff_entropy_decoder" where
  "load_source r e = e\<lparr>bitstate := (bitstate e)\<lparr>input := input r, fills := fills r, unread_marker := unread_marker r,
     next_restart_num := next_restart_num r, discarded_bytes := discarded_bytes r\<rparr>\<rparr>"

definition store_source :: "huff_entropy_decoder \<Rightarrow> decompressor \<Rightarrow> decompressor" where
  "store_source e r = r\<lparr>input := input (bitstate e), fills := fills (bitstate e), unread_marker := unread_marker (bitstate e),
     next_restart_num := next_restart_num (bitstate e), discarded_bytes := discarded_bytes (bitstate e)\<rparr>"

definition dec_component_of :: "jpeg_component_info \<Rightarrow> dec_component" where
  "dec_component_of c = \<lparr>d_dc_tbl_no = nat (dc_tbl_no c), d_ac_tbl_no = nat (ac_tbl_no c),
     d_component_needed = component_needed c, d_DCT_scaled_size = nat (DCT_scaled_size c)\<rparr>"

definition huff_start :: "huff_entropy_decoder d_object \<Rightarrow> fault + huff_entropy_decoder d_object" where
  "huff_start s =
     (let d = info s
      in case start_pass_huff_decoder (d_dc_huff_tbl_ptrs d) (d_ac_huff_tbl_ptrs d) (map dec_component_of (d_scan_comps d))
                (map nat (take (nat (d_blocks_in_MCU d)) (d_MCU_membership d))) (d_restart_interval d) (entropy s) of
           Inl e \<Rightarrow> Inl (ErrExit e)
         | Inr e \<Rightarrow> Inr (s\<lparr>entropy := e\<rparr>))"

definition huff_mcu ::
  "int list list \<Rightarrow> huff_entropy_decoder d_object \<Rightarrow> fault + (bool \<times> int list list \<times> huff_entropy_decoder d_object)" where
  "huff_mcu blocks s =
     (case decode_mcu jpeg_resync_to_restart (nat (d_comps_in_scan (info s))) (d_restart_interval (info s)) blocks
             (load_source (reader s) (entropy s)) of
        Inl f \<Rightarrow> Inl OutOfBounds
      | Inr (ok, blocks, e) \<Rightarrow> Inr (ok, blocks, s\<lparr>entropy := e, reader := store_source e (reader s)\<rparr>))"

definition huff_methods :: "huff_entropy_decoder entropy_decoder" where
  "huff_methods = \<lparr>entropy_start = huff_start, entropy_mcu = huff_mcu\<rparr>"

text \<open>
  \<open>jinit_huff_decoder\<close>; \<open>junk\<close> and \<open>fresh\<close> are what newly allocated memory holds. The derived tables count as
  unallocated: \<open>start_pass_huff_decoder\<close> fills them before they are used.
\<close>

definition jinit_huff_decoder :: "u8 list \<Rightarrow> huff_entropy_decoder \<Rightarrow> huff_entropy_decoder d_object \<Rightarrow> fault + huff_entropy_decoder d_object" where
  "jinit_huff_decoder junk fresh s =
     (case std_huff_tables junk (d_dc_huff_tbl_ptrs (info s)) (d_ac_huff_tbl_ptrs (info s)) of
        Inl e \<Rightarrow> Inl (ErrExit e)
      | Inr (dcs, acs) \<Rightarrow> Inr (set_info (\<lambda>d. d\<lparr>d_dc_huff_tbl_ptrs := dcs, d_ac_huff_tbl_ptrs := acs\<rparr>) s\<lparr>entropy := fresh\<rparr>))"

section \<open>Reading the coefficients of a file\<close>

text \<open>
  \<open>jdtrans.c\<close>. The three entropy decoders' initialisations are arguments; after one of them, the methods
  \<open>m\<close> act on what it has put into \<open>entropy\<close>. The loop of \<open>jpeg_read_coefficients\<close> has a bound on its rounds.
\<close>

record 'e entropy_inits =
  init_arith :: "'e d_object \<Rightarrow> fault + 'e d_object"
  init_phuff :: "'e d_object \<Rightarrow> fault + 'e d_object"
  init_huff :: "'e d_object \<Rightarrow> fault + 'e d_object"

definition select_entropy :: "'e entropy_inits \<Rightarrow> 'e d_object \<Rightarrow> fault + 'e d_object" where
  "select_entropy ji s = (if d_arith_code (info s) then init_arith ji s
     else if d_progressive_mode (info s) then init_phuff ji s else init_huff ji s)"

definition DSTATE_START :: int where "DSTATE_START = 200"
definition DSTATE_INHEADER :: int where "DSTATE_INHEADER = 201"
definition DSTATE_READY :: int where "DSTATE_READY = 202"
definition DSTATE_PRELOAD :: int where "DSTATE_PRELOAD = 203"
definition DSTATE_PRESCAN :: int where "DSTATE_PRESCAN = 204"
definition DSTATE_SCANNING :: int where "DSTATE_SCANNING = 205"
definition DSTATE_RAW_OK :: int where "DSTATE_RAW_OK = 206"
definition DSTATE_BUFIMAGE :: int where "DSTATE_BUFIMAGE = 207"
definition DSTATE_BUFPOST :: int where "DSTATE_BUFPOST = 208"
definition DSTATE_RDCOEFS :: int where "DSTATE_RDCOEFS = 209"
definition DSTATE_STOPPING :: int where "DSTATE_STOPPING = 210"

lemmas dstates = DSTATE_START_def DSTATE_INHEADER_def DSTATE_READY_def DSTATE_PRELOAD_def DSTATE_PRESCAN_def DSTATE_SCANNING_def
  DSTATE_RAW_OK_def DSTATE_BUFIMAGE_def DSTATE_BUFPOST_def DSTATE_RDCOEFS_def DSTATE_STOPPING_def

definition set_state :: "int \<Rightarrow> 'e d_object \<Rightarrow> 'e d_object" where
  "set_state st = set_info (\<lambda>d. d\<lparr>d_global_state := st\<rparr>)"

definition transdecode_master_selection ::
  "'e entropy_inits \<Rightarrow> 'e entropy_decoder \<Rightarrow> 'e d_object \<Rightarrow> fault + 'e d_object" where
  "transdecode_master_selection ji m s =
     ebind (select_entropy ji (set_info (\<lambda>d. d\<lparr>buffered_image := True\<rparr>) s)) (\<lambda>s.
     start_input_pass m (jinit_d_coef_controller True s))"

fun absorb :: "'e entropy_decoder \<Rightarrow> nat \<Rightarrow> 'e d_object \<Rightarrow> fault + (bool \<times> 'e d_object)" where
  "absorb m 0 s = Inl RoundsExhausted"
| "absorb m (Suc n) s =
     ebind (consume m s) (\<lambda>(retcode, s).
       if retcode = JPEG_SUSPENDED then Inr (False, s)
       else if retcode = JPEG_REACHED_EOI then Inr (True, s)
       else absorb m n s)"

definition jpeg_read_coefficients ::
  "'e entropy_inits \<Rightarrow> 'e entropy_decoder \<Rightarrow> nat \<Rightarrow> 'e d_object \<Rightarrow> fault + (barray list option \<times> 'e d_object)" where
  "jpeg_read_coefficients ji m rounds s =
     ebind (if d_global_state (info s) = DSTATE_READY
            then ebind (transdecode_master_selection ji m s) (\<lambda>s. Inr (set_state DSTATE_RDCOEFS s)) else Inr s) (\<lambda>s.
     ebind (if d_global_state (info s) = DSTATE_RDCOEFS
            then ebind (absorb m rounds s) (\<lambda>(ok, s). Inr (ok, if ok then set_state DSTATE_STOPPING s else s)) else Inr (True, s)) (\<lambda>(ok, s).
     if \<not> ok then Inr (None, s)
     else if (d_global_state (info s) = DSTATE_STOPPING \<or> d_global_state (info s) = DSTATE_BUFIMAGE) \<and> buffered_image (info s)
     then Inr (coef_arrays s, s)
     else Inl (ErrExit (JERR_BAD_STATE (d_global_state (info s))))))"

end
