(* ===== verification/Jdmaster.thy ===== *)
theory Jdmaster imports Jdcoef begin

text \<open>
  \<open>jdmaster.c\<close>: the size of the output, the selection of modules and the sequence of output passes. The
  output side's modules (colour conversion, upsampling, quantisation, the postprocessing and main
  controllers, the inverse DCT) are called through methods; these calls are recorded in order.
\<close>

section \<open>The decompressor and its master\<close>

datatype quantizer = Quantizer_1pass | Quantizer_2pass

datatype d_call =
    jinit_1pass_quantizer
  | jinit_2pass_quantizer
  | jinit_merged_upsampler
  | jinit_color_deconverter
  | jinit_upsampler
  | jinit_d_post_controller bool
  | jinit_inverse_dct
  | jinit_d_main_controller bool
  | d_realize_virt_arrays
  | init_source
  | term_source
  | d_free_pool int
  | d_self_destruct
  | idct_start_pass
  | cconvert_start
  | upsample_start
  | cquantize_start quantizer bool
  | cquantize_finish quantizer
  | cquantize_new_color_map quantizer
  | post_start J_BUF_MODE
  | main_start J_BUF_MODE

text \<open>
  \<open>core\<close> is the object with its input side; \<open>d_mem\<close> tells whether there is a memory manager. The fields from
  \<open>is_dummy_pass\<close> on are \<open>my_decomp_master\<close> and \<open>cinfo->cquantize\<close>, NULL being \<open>None\<close>.
\<close>

record 'e d_app =
  core :: "'e d_object"
  d_mem :: bool
  is_dummy_pass :: bool
  d_pass_number :: int
  using_merged_upsample :: bool
  quantizer_1pass :: "quantizer option"
  quantizer_2pass :: "quantizer option"
  cquantize :: "quantizer option"
  d_calls :: "d_call list"

abbreviation app_info :: "'e d_app \<Rightarrow> jpeg_decompress_struct" where
  "app_info a \<equiv> info (core a)"

abbreviation app_state :: "'e d_app \<Rightarrow> int" where
  "app_state a \<equiv> d_global_state (info (core a))"

definition set_app :: "(jpeg_decompress_struct \<Rightarrow> jpeg_decompress_struct) \<Rightarrow> 'e d_app \<Rightarrow> 'e d_app" where
  "set_app f a = a\<lparr>core := set_info f (core a)\<rparr>"

definition d_invoke :: "d_call list \<Rightarrow> 'e d_app \<Rightarrow> 'e d_app" where
  "d_invoke cs a = a\<lparr>d_calls := d_calls a @ cs\<rparr>"

definition on_core :: "('e d_object \<Rightarrow> fault + 'e d_object) \<Rightarrow> 'e d_app \<Rightarrow> fault + 'e d_app" where
  "on_core f a = ebind (f (core a)) (\<lambda>s. Inr (a\<lparr>core := s\<rparr>))"

lemma app_simps [simp]:
  "core (set_app f a) = set_info f (core a)" "core (d_invoke cs a) = core a" "d_mem (set_app f a) = d_mem a" "d_mem (d_invoke cs a) = d_mem a"
  "is_dummy_pass (set_app f a) = is_dummy_pass a" "is_dummy_pass (d_invoke cs a) = is_dummy_pass a"
  "using_merged_upsample (set_app f a) = using_merged_upsample a" "using_merged_upsample (d_invoke cs a) = using_merged_upsample a"
  "quantizer_1pass (set_app f a) = quantizer_1pass a" "quantizer_1pass (d_invoke cs a) = quantizer_1pass a"
  "quantizer_2pass (set_app f a) = quantizer_2pass a" "quantizer_2pass (d_invoke cs a) = quantizer_2pass a"
  "cquantize (set_app f a) = cquantize a" "cquantize (d_invoke cs a) = cquantize a"
  "d_pass_number (set_app f a) = d_pass_number a" "d_pass_number (d_invoke cs a) = d_pass_number a"
  by (simp_all add: set_app_def d_invoke_def)

section \<open>Output dimensions\<close>

definition rgb_pixelsize :: "J_COLOR_SPACE \<Rightarrow> int" where
  "rgb_pixelsize cs =
     (if cs \<in> {JCS_RGB, JCS_EXT_RGB, JCS_EXT_BGR} then 3
      else if cs \<in> {JCS_EXT_RGBX, JCS_EXT_BGRX, JCS_EXT_XBGR, JCS_EXT_XRGB, JCS_EXT_RGBA, JCS_EXT_BGRA, JCS_EXT_ABGR, JCS_EXT_ARGB} then 4
      else -1)"

definition rgb_spaces :: "J_COLOR_SPACE list" where
  "rgb_spaces = [JCS_RGB, JCS_EXT_RGB, JCS_EXT_RGBX, JCS_EXT_BGR, JCS_EXT_BGRX, JCS_EXT_XBGR, JCS_EXT_XRGB,
     JCS_EXT_RGBA, JCS_EXT_BGRA, JCS_EXT_ABGR, JCS_EXT_ARGB]"

definition use_merged_upsample :: "jpeg_decompress_struct \<Rightarrow> bool" where
  "use_merged_upsample d =
     (let c = (\<lambda>i. d_comp_info d ! i)
      in if do_fancy_upsampling d \<or> d_CCIR601_sampling d then False
         else if d_jpeg_color_space d \<noteq> JCS_YCbCr \<or> d_num_components d \<noteq> 3 \<or> out_color_space d \<notin> set (JCS_RGB565 # rgb_spaces) then False
         else if (out_color_space d = JCS_RGB565 \<and> out_color_components d \<noteq> 3) \<or>
                 (out_color_space d \<noteq> JCS_RGB565 \<and> out_color_components d \<noteq> rgb_pixelsize (out_color_space d)) then False
         else if h_samp_factor (c 0) \<noteq> 2 \<or> h_samp_factor (c 1) \<noteq> 1 \<or> h_samp_factor (c 2) \<noteq> 1 \<or>
                 2 < v_samp_factor (c 0) \<or> v_samp_factor (c 1) \<noteq> 1 \<or> v_samp_factor (c 2) \<noteq> 1 then False
         else if DCT_scaled_size (c 0) \<noteq> min_DCT_scaled_size d \<or>
                 DCT_scaled_size (c 1) \<noteq> min_DCT_scaled_size d \<or>
                 DCT_scaled_size (c 2) \<noteq> min_DCT_scaled_size d then False
         else True)"

text \<open>
  The chain of cases for \<open>scale_num * DCTSIZE \<le> scale_denom * k\<close>, \<open>k\<close> from 1 on; both products wrap
  around at 32 bits.
\<close>

definition scale_step :: "jpeg_decompress_struct \<Rightarrow> int" where
  "scale_step d = (case find (\<lambda>k. scale_num d * 8 \<le> scale_denom d * word_of_int k) [1..15] of Some k \<Rightarrow> k | None \<Rightarrow> 16)"

definition jpeg_core_output_dimensions :: "jpeg_decompress_struct \<Rightarrow> jpeg_decompress_struct" where
  "jpeg_core_output_dimensions d =
     (let k = scale_step d; n = nat (d_num_components d)
      in d\<lparr>output_width := word_of_int (jdiv_round_up (as_long (sint (d_image_width d) * k)) DCTSIZE),
           output_height := word_of_int (jdiv_round_up (as_long (sint (d_image_height d) * k)) DCTSIZE),
           min_DCT_scaled_size := k,
           d_comp_info := map (\<lambda>c. c\<lparr>DCT_scaled_size := k\<rparr>) (take n (d_comp_info d)) @ drop n (d_comp_info d)\<rparr>)"

text \<open>The loop that doubles a component's IDCT size instead of upsampling it.\<close>

function grow_size :: "int \<Rightarrow> int \<Rightarrow> jpeg_component_info \<Rightarrow> int \<Rightarrow> int" where
  "grow_size full_h full_v c ssize =
     (if 0 < ssize \<and> ssize < DCTSIZE \<and> full_h smod (h_samp_factor c * ssize * 2) = 0 \<and> full_v smod (v_samp_factor c * ssize * 2) = 0
      then grow_size full_h full_v c (ssize * 2) else ssize)"
  by pat_completeness auto
termination by (relation "measure (\<lambda>(h, v, c, s). nat (DCTSIZE - s))") (auto simp: DCTSIZE_def)

declare grow_size.simps [simp del]

definition scaled_samples :: "u32 \<Rightarrow> int \<Rightarrow> int \<Rightarrow> int \<Rightarrow> u32" where
  "scaled_samples dim samp ssize max_samp = word_of_int (jdiv_round_up (as_long (sint dim * (samp * ssize))) (max_samp * DCTSIZE))"

definition scale_component :: "jpeg_decompress_struct \<Rightarrow> jpeg_component_info \<Rightarrow> jpeg_component_info" where
  "scale_component d c =
     (let k = min_DCT_scaled_size d; ssize = grow_size (d_max_h_samp_factor d * k) (d_max_v_samp_factor d * k) c k
      in c\<lparr>DCT_scaled_size := ssize,
           downsampled_width := scaled_samples (d_image_width d) (h_samp_factor c) ssize (d_max_h_samp_factor d),
           downsampled_height := scaled_samples (d_image_height d) (v_samp_factor c) ssize (d_max_v_samp_factor d)\<rparr>)"

definition output_color_components :: "jpeg_decompress_struct \<Rightarrow> int" where
  "output_color_components d =
     (let cs = out_color_space d
      in if cs = JCS_GRAYSCALE then 1
         else if cs \<in> set rgb_spaces then rgb_pixelsize cs
         else if cs = JCS_YCbCr \<or> cs = JCS_RGB565 then 3
         else if cs = JCS_CMYK \<or> cs = JCS_YCCK then 4
         else d_num_components d)"

definition jpeg_calc_output_dimensions :: "jpeg_decompress_struct \<Rightarrow> fault + jpeg_decompress_struct" where
  "jpeg_calc_output_dimensions d =
     (if d_global_state d \<noteq> DSTATE_READY then Inl (ErrExit (JERR_BAD_STATE (d_global_state d)))
      else
        let d = jpeg_core_output_dimensions d; n = nat (d_num_components d);
            d = d\<lparr>d_comp_info := map (scale_component d) (take n (d_comp_info d)) @ drop n (d_comp_info d)\<rparr>;
            d = d\<lparr>out_color_components := output_color_components d\<rparr>;
            d = d\<lparr>output_components := (if quantize_colors d then 1 else out_color_components d)\<rparr>
        in Inr (d\<lparr>rec_outbuf_height := (if use_merged_upsample d then d_max_v_samp_factor d else 1)\<rparr>))"

section \<open>The range-limiting table\<close>

definition MAXJSAMPLE :: int where "MAXJSAMPLE = 255"
definition CENTERJSAMPLE :: int where "CENTERJSAMPLE = 128"

text \<open>\<open>sample_range_limit\<close> points \<open>MAXJSAMPLE + 1\<close> entries into this array.\<close>

definition prepare_range_limit_table :: "u8 list" where
  "prepare_range_limit_table =
     (let simple = map word_of_int [0..MAXJSAMPLE]
      in replicate (nat (MAXJSAMPLE + 1)) 0 @ simple @
         replicate (nat (2 * (MAXJSAMPLE + 1) - CENTERJSAMPLE)) (word_of_int MAXJSAMPLE) @
         replicate (nat (2 * (MAXJSAMPLE + 1) - CENTERJSAMPLE)) 0 @ take (nat CENTERJSAMPLE) simple)"

section \<open>Selecting the modules\<close>

text \<open>A row of output samples must fit \<open>JDIMENSION\<close>; on 32-bit longs the test compares a value with itself.\<close>

definition select_quantizers :: "'e d_app \<Rightarrow> fault + 'e d_app" where
  "select_quantizers a =
     (let a = a\<lparr>quantizer_1pass := None, quantizer_2pass := None\<rparr>; d = app_info a;
          a = (if \<not> quantize_colors d \<or> \<not> buffered_image d
               then set_app (\<lambda>d. d\<lparr>enable_1pass_quant := False, enable_external_quant := False, enable_2pass_quant := False\<rparr>) a else a)
      in if \<not> quantize_colors d then Inr a
         else if raw_data_out d then Inl (ErrExit JERR_NOTIMPL)
         else
           let a = (if out_color_components d \<noteq> 3
                    then set_app (\<lambda>d. d\<lparr>enable_1pass_quant := True, enable_external_quant := False, enable_2pass_quant := False, colormap := None\<rparr>) a
                    else if colormap d \<noteq> None then set_app (\<lambda>d. d\<lparr>enable_external_quant := True\<rparr>) a
                    else if two_pass_quantize d then set_app (\<lambda>d. d\<lparr>enable_2pass_quant := True\<rparr>) a
                    else set_app (\<lambda>d. d\<lparr>enable_1pass_quant := True\<rparr>) a);
               a = (if enable_1pass_quant (app_info a)
                    then (d_invoke [jinit_1pass_quantizer] a)\<lparr>cquantize := Some Quantizer_1pass, quantizer_1pass := Some Quantizer_1pass\<rparr> else a);
               a = (if enable_2pass_quant (app_info a) \<or> enable_external_quant (app_info a)
                    then (d_invoke [jinit_2pass_quantizer] a)\<lparr>cquantize := Some Quantizer_2pass, quantizer_2pass := Some Quantizer_2pass\<rparr> else a)
           in Inr a)"

definition master_selection :: "'e entropy_inits \<Rightarrow> 'e entropy_decoder \<Rightarrow> 'e d_app \<Rightarrow> fault + 'e d_app" where
  "master_selection ji m a =
     ebind (on_core (on_info jpeg_calc_output_dimensions) a) (\<lambda>a.
     let d = app_info a; samplesperrow = as_long (sint (output_width d) * out_color_components d)
     in if sint (word_of_int samplesperrow :: u32) \<noteq> samplesperrow then Inl (ErrExit JERR_WIDTH_OVERFLOW)
        else
          let a = a\<lparr>d_pass_number := 0, using_merged_upsample := use_merged_upsample d\<rparr>
          in ebind (select_quantizers a) (\<lambda>a.
             let d = app_info a;
                 a = (if raw_data_out d then a
                      else d_invoke ((if using_merged_upsample a then [jinit_merged_upsampler] else [jinit_color_deconverter, jinit_upsampler]) @
                             [jinit_d_post_controller (enable_2pass_quant d)]) a);
                 a = d_invoke [jinit_inverse_dct] a
             in ebind (on_core (select_entropy ji) a) (\<lambda>a.
                let use_c_buffer = has_multiple_scans (core a) \<or> buffered_image (app_info a);
                    a = a\<lparr>core := jinit_d_coef_controller use_c_buffer (core a)\<rparr>;
                    a = d_invoke ((if raw_data_out (app_info a) then [] else [jinit_d_main_controller False]) @ [d_realize_virt_arrays]) a
                in on_core (start_input_pass m) a)))"

definition jinit_master_decompress :: "'e entropy_inits \<Rightarrow> 'e entropy_decoder \<Rightarrow> 'e d_app \<Rightarrow> fault + 'e d_app" where
  "jinit_master_decompress ji m a = master_selection ji m (a\<lparr>is_dummy_pass := False\<rparr>)"

section \<open>Output passes\<close>

text \<open>A call through a NULL \<open>cquantize\<close> has no defined behaviour.\<close>

definition with_quantizer :: "(quantizer \<Rightarrow> d_call) \<Rightarrow> 'e d_app \<Rightarrow> fault + 'e d_app" where
  "with_quantizer f a = (case cquantize a of None \<Rightarrow> Inl OutOfBounds | Some q \<Rightarrow> Inr (d_invoke [f q] a))"

definition choose_quantizer :: "'e d_app \<Rightarrow> fault + 'e d_app" where
  "choose_quantizer a =
     (let d = app_info a
      in if quantize_colors d \<and> colormap d = None
         then if two_pass_quantize d \<and> enable_2pass_quant d then Inr (a\<lparr>cquantize := quantizer_2pass a, is_dummy_pass := True\<rparr>)
              else if enable_1pass_quant d then Inr (a\<lparr>cquantize := quantizer_1pass a\<rparr>)
              else Inl (ErrExit JERR_MODE_CHANGE)
         else Inr a)"

text \<open>\<open>start_output_pass\<close> of the coefficient controller, without block smoothing.\<close>

definition coef_start_output_pass :: "'e d_app \<Rightarrow> 'e d_app" where
  "coef_start_output_pass a = set_app (\<lambda>d. d\<lparr>output_iMCU_row := 0\<rparr>) a"

definition prepare_for_output_pass :: "'e d_app \<Rightarrow> fault + 'e d_app" where
  "prepare_for_output_pass a =
     (if is_dummy_pass a
      then ebind (with_quantizer (\<lambda>q. cquantize_start q False) (a\<lparr>is_dummy_pass := False\<rparr>)) (\<lambda>a.
           Inr (d_invoke [post_start JBUF_CRANK_DEST, main_start JBUF_CRANK_DEST] a))
      else ebind (choose_quantizer a) (\<lambda>a.
           let a = coef_start_output_pass (d_invoke [idct_start_pass] a)
           in if raw_data_out (app_info a) then Inr a
              else
                let a = d_invoke ((if using_merged_upsample a then [] else [cconvert_start]) @ [upsample_start]) a
                in ebind (if quantize_colors (app_info a) then with_quantizer (\<lambda>q. cquantize_start q (is_dummy_pass a)) a else Inr a) (\<lambda>a.
                   Inr (d_invoke [post_start (if is_dummy_pass a then JBUF_SAVE_AND_PASS else JBUF_PASS_THRU), main_start JBUF_PASS_THRU] a))))"

definition finish_output_pass :: "'e d_app \<Rightarrow> fault + 'e d_app" where
  "finish_output_pass a =
     ebind (if quantize_colors (app_info a) then with_quantizer cquantize_finish a else Inr a) (\<lambda>a.
     Inr (a\<lparr>d_pass_number := d_pass_number a + 1\<rparr>))"

definition jpeg_new_colormap :: "'e d_app \<Rightarrow> fault + 'e d_app" where
  "jpeg_new_colormap a =
     (let d = app_info a
      in if d_global_state d \<noteq> DSTATE_BUFIMAGE then Inl (ErrExit (JERR_BAD_STATE (d_global_state d)))
         else if quantize_colors d \<and> enable_external_quant d \<and> colormap d \<noteq> None
         then ebind (with_quantizer cquantize_new_color_map (a\<lparr>cquantize := quantizer_2pass a\<rparr>)) (\<lambda>a. Inr (a\<lparr>is_dummy_pass := False\<rparr>))
         else Inl (ErrExit JERR_MODE_CHANGE))"

end
