(* ===== verification/Jdapi.thy ===== *)
theory Jdapi imports Jdmaster begin

text \<open>
  The decompression API: \<open>jdapimin.c\<close>, \<open>jdapistd.c\<close> and the decompressor's half of \<open>jcomapi.c\<close>. The main
  controller's \<open>process_data\<close> and the coefficient controller's \<open>decompress_data\<close> are parameters. Loops
  have a bound on their rounds as an argument. The progress monitor and warnings reach only the application.
\<close>

section \<open>Creating, aborting and destroying\<close>

text \<open>\<open>junk\<close> is what the application's structures held before; the source is attached later.\<close>

definition jpeg_CreateDecompress :: "int \<Rightarrow> int \<Rightarrow> int \<Rightarrow> 'e d_app \<Rightarrow> fault + 'e d_app" where
  "jpeg_CreateDecompress sizeof_struct version structsize a =
     (if version \<noteq> 62 then Inl (ErrExit (JERR_BAD_LIB_VERSION 62 version))
      else if structsize \<noteq> sizeof_struct then Inl (ErrExit (JERR_BAD_STRUCT_SIZE sizeof_struct structsize))
      else
        let r = (reader (core a))\<lparr>dinfo := zero_decompress, input := [], fills := []\<rparr>;
            s = jinit_input_controller ((core a)\<lparr>reader := jinit_marker_reader r\<rparr>)
        in Inr (a\<lparr>d_mem := True, core := set_state DSTATE_START s\<rparr>))"

text \<open>The image pool is \<open>JPOOL_IMAGE\<close> = 1; the permanent pool 0 stays.\<close>

definition jpeg_abort_decompress :: "'e d_app \<Rightarrow> 'e d_app" where
  "jpeg_abort_decompress a =
     (if \<not> d_mem a then a
      else set_app (\<lambda>d. d\<lparr>d_global_state := DSTATE_START, marker_list := []\<rparr>) (d_invoke [d_free_pool 1] a))"

definition jpeg_destroy_decompress :: "'e d_app \<Rightarrow> 'e d_app" where
  "jpeg_destroy_decompress a =
     (let a = (if d_mem a then d_invoke [d_self_destruct] a else a)
      in set_app (\<lambda>d. d\<lparr>d_global_state := 0\<rparr>) (a\<lparr>d_mem := False\<rparr>))"

section \<open>Reading the header\<close>

text \<open>The colour space is guessed from the markers and, without them, from the component numbers.\<close>

definition guess_colors :: "jpeg_decompress_struct \<Rightarrow> J_COLOR_SPACE \<times> J_COLOR_SPACE" where
  "guess_colors d =
     (let n = d_num_components d; cid = (\<lambda>i. component_id (d_comp_info d ! i))
      in if n = 1 then (JCS_GRAYSCALE, JCS_GRAYSCALE)
         else if n = 3
         then (if saw_JFIF_marker d then JCS_YCbCr
               else if saw_Adobe_marker d
               then (if Adobe_transform d = 0 then JCS_RGB else if Adobe_transform d = 1 then JCS_YCbCr else JCS_YCbCr)
               else if cid 0 = 1 \<and> cid 1 = 2 \<and> cid 2 = 3 then JCS_YCbCr
               else if cid 0 = 82 \<and> cid 1 = 71 \<and> cid 2 = 66 then JCS_RGB
               else JCS_YCbCr, JCS_RGB)
         else if n = 4
         then (if saw_Adobe_marker d
               then (if Adobe_transform d = 0 then JCS_CMYK else if Adobe_transform d = 2 then JCS_YCCK else JCS_YCCK)
               else JCS_CMYK, JCS_CMYK)
         else (JCS_UNKNOWN, JCS_UNKNOWN))"

definition default_decompress_parms :: "jpeg_decompress_struct \<Rightarrow> jpeg_decompress_struct" where
  "default_decompress_parms d =
     (case guess_colors d of (jcs, out) \<Rightarrow>
        d\<lparr>d_jpeg_color_space := jcs, out_color_space := out, scale_num := 1, scale_denom := 1, buffered_image := False,
          raw_data_out := False, d_dct_method := JDCT_ISLOW, do_fancy_upsampling := True, do_block_smoothing := True,
          quantize_colors := False, dither_mode := JDITHER_FS, two_pass_quantize := True, desired_number_of_colors := 256,
          colormap := None, enable_1pass_quant := False, enable_external_quant := False, enable_2pass_quant := False\<rparr>)"

definition header_step :: "'e entropy_decoder \<Rightarrow> 'e d_app \<Rightarrow> fault + (read_status \<times> 'e d_app)" where
  "header_step m a =
     ebind (consume m (core a)) (\<lambda>(retcode, s).
       let a = a\<lparr>core := s\<rparr>
       in Inr (retcode, if retcode = JPEG_REACHED_SOS then set_app (\<lambda>d. (default_decompress_parms d)\<lparr>d_global_state := DSTATE_READY\<rparr>) a else a))"

definition jpeg_consume_input :: "'e entropy_decoder \<Rightarrow> 'e d_app \<Rightarrow> fault + (read_status \<times> 'e d_app)" where
  "jpeg_consume_input m a =
     (let st = app_state a
      in if st = DSTATE_START
         then header_step m (a\<lparr>core := set_state DSTATE_INHEADER (reset_input_controller (core a)), d_calls := d_calls a @ [init_source]\<rparr>)
         else if st = DSTATE_INHEADER then header_step m a
         else if st = DSTATE_READY then Inr (JPEG_REACHED_SOS, a)
         else if st \<in> {DSTATE_PRELOAD, DSTATE_PRESCAN, DSTATE_SCANNING, DSTATE_RAW_OK, DSTATE_BUFIMAGE, DSTATE_BUFPOST, DSTATE_STOPPING}
         then ebind (consume m (core a)) (\<lambda>(retcode, s). Inr (retcode, a\<lparr>core := s\<rparr>))
         else Inl (ErrExit (JERR_BAD_STATE st)))"

text \<open>The result codes have the numbers of the header file; those of \<open>jpeg_read_header\<close> overlap them.\<close>

definition status_code :: "read_status \<Rightarrow> int" where
  "status_code r = (case r of JPEG_SUSPENDED \<Rightarrow> 0 | JPEG_REACHED_SOS \<Rightarrow> 1 | JPEG_REACHED_EOI \<Rightarrow> 2 | JPEG_ROW_COMPLETED \<Rightarrow> 3 | JPEG_SCAN_COMPLETED \<Rightarrow> 4)"

definition JPEG_HEADER_OK :: int where "JPEG_HEADER_OK = 1"
definition JPEG_HEADER_TABLES_ONLY :: int where "JPEG_HEADER_TABLES_ONLY = 2"

definition jpeg_read_header :: "'e entropy_decoder \<Rightarrow> bool \<Rightarrow> 'e d_app \<Rightarrow> fault + (int \<times> 'e d_app)" where
  "jpeg_read_header m require_image a =
     (if app_state a \<noteq> DSTATE_START \<and> app_state a \<noteq> DSTATE_INHEADER then Inl (ErrExit (JERR_BAD_STATE (app_state a)))
      else ebind (jpeg_consume_input m a) (\<lambda>(retcode, a).
        case retcode of
          JPEG_REACHED_SOS \<Rightarrow> Inr (JPEG_HEADER_OK, a)
        | JPEG_REACHED_EOI \<Rightarrow>
            if require_image then Inl (ErrExit JERR_NO_IMAGE) else Inr (JPEG_HEADER_TABLES_ONLY, jpeg_abort_decompress a)
        | _ \<Rightarrow> Inr (status_code retcode, a)))"

definition jpeg_input_complete :: "'e d_app \<Rightarrow> fault + bool" where
  "jpeg_input_complete a = (if app_state a < DSTATE_START \<or> DSTATE_STOPPING < app_state a
     then Inl (ErrExit (JERR_BAD_STATE (app_state a))) else Inr (eoi_reached (core a)))"

definition jpeg_has_multiple_scans :: "'e d_app \<Rightarrow> fault + bool" where
  "jpeg_has_multiple_scans a = (if app_state a < DSTATE_READY \<or> DSTATE_STOPPING < app_state a
     then Inl (ErrExit (JERR_BAD_STATE (app_state a))) else Inr (has_multiple_scans (core a)))"

section \<open>Output passes\<close>

text \<open>\<open>process_data a n\<close> delivers at most \<open>n\<close> rows and may take input; a dummy pass asks for no rows but is told of them.\<close>

type_synonym 'e row_source = "'e d_app \<Rightarrow> u32 \<Rightarrow> fault + (u32 \<times> 'e d_app)"

fun dummy_rows :: "'e row_source \<Rightarrow> nat \<Rightarrow> 'e d_app \<Rightarrow> fault + (bool \<times> 'e d_app)" where
  "dummy_rows process_data n a =
     (if output_scanline (app_info a) < output_height (app_info a)
      then case n of
        0 \<Rightarrow> Inl RoundsExhausted
      | Suc n \<Rightarrow>
          ebind (process_data a 0) (\<lambda>(rows, a).
            if rows = 0 then Inr (False, a)
            else dummy_rows process_data n (set_app (\<lambda>d. d\<lparr>output_scanline := output_scanline d + rows\<rparr>) a))
      else Inr (True, a))"

declare dummy_rows.simps [simp del]

fun dummy_passes :: "'e row_source \<Rightarrow> nat \<Rightarrow> nat \<Rightarrow> 'e d_app \<Rightarrow> fault + (bool \<times> 'e d_app)" where
  "dummy_passes process_data rounds n a =
     (if is_dummy_pass a
      then case n of
        0 \<Rightarrow> Inl RoundsExhausted
      | Suc n \<Rightarrow>
          ebind (dummy_rows process_data rounds a) (\<lambda>(ok, a).
            if \<not> ok then Inr (False, a)
            else ebind (finish_output_pass a) (\<lambda>a.
                 ebind (prepare_for_output_pass a) (\<lambda>a.
                 dummy_passes process_data rounds n (set_app (\<lambda>d. d\<lparr>output_scanline := 0\<rparr>) a))))
      else Inr (True, a))"

declare dummy_passes.simps [simp del]

definition output_pass_setup :: "'e row_source \<Rightarrow> nat \<Rightarrow> 'e d_app \<Rightarrow> fault + (bool \<times> 'e d_app)" where
  "output_pass_setup process_data rounds a =
     ebind (if app_state a \<noteq> DSTATE_PRESCAN
            then ebind (prepare_for_output_pass a) (\<lambda>a.
                 Inr (set_app (\<lambda>d. d\<lparr>output_scanline := 0, d_global_state := DSTATE_PRESCAN\<rparr>) a)) else Inr a) (\<lambda>a.
     ebind (dummy_passes process_data rounds rounds a) (\<lambda>(ok, a).
     if \<not> ok then Inr (False, a)
     else Inr (True, set_app (\<lambda>d. d\<lparr>d_global_state := (if raw_data_out d then DSTATE_RAW_OK else DSTATE_SCANNING)\<rparr>) a)))"

definition jpeg_start_decompress ::
  "'e entropy_inits \<Rightarrow> 'e entropy_decoder \<Rightarrow> 'e row_source \<Rightarrow> nat \<Rightarrow> 'e d_app \<Rightarrow> fault + (bool \<times> 'e d_app)" where
  "jpeg_start_decompress ji m process_data rounds a =
     ebind (if app_state a = DSTATE_READY
            then ebind (jinit_master_decompress ji m a) (\<lambda>a.
                 let buf = buffered_image (app_info a)
                 in Inr (buf, set_app (\<lambda>d. d\<lparr>d_global_state := (if buf then DSTATE_BUFIMAGE else DSTATE_PRELOAD)\<rparr>) a))
            else Inr (False, a)) (\<lambda>(done, a).
     if done then Inr (True, a)
     else ebind (if app_state a = DSTATE_PRELOAD
                 then ebind (if has_multiple_scans (core a) then absorb m rounds (core a) else Inr (True, core a)) (\<lambda>(ok, s).
                      let a = a\<lparr>core := s\<rparr>
                      in Inr (ok, if ok then set_app (\<lambda>d. d\<lparr>output_scan_number := input_scan_number d\<rparr>) a else a))
                 else if app_state a \<noteq> DSTATE_PRESCAN then Inl (ErrExit (JERR_BAD_STATE (app_state a)))
                 else Inr (True, a)) (\<lambda>(ok, a).
     if \<not> ok then Inr (False, a) else output_pass_setup process_data rounds a))"

definition jpeg_read_scanlines :: "'e row_source \<Rightarrow> u32 \<Rightarrow> 'e d_app \<Rightarrow> fault + (u32 \<times> 'e d_app)" where
  "jpeg_read_scanlines process_data max_lines a =
     (if app_state a \<noteq> DSTATE_SCANNING then Inl (ErrExit (JERR_BAD_STATE (app_state a)))
      else if output_height (app_info a) \<le> output_scanline (app_info a) then Inr (0, a)
      else ebind (process_data a max_lines) (\<lambda>(row_ctr, a).
           Inr (row_ctr, set_app (\<lambda>d. d\<lparr>output_scanline := output_scanline d + row_ctr\<rparr>) a)))"

definition jpeg_read_raw_data :: "('e d_app \<Rightarrow> fault + (bool \<times> 'e d_app)) \<Rightarrow> u32 \<Rightarrow> 'e d_app \<Rightarrow> fault + (u32 \<times> 'e d_app)" where
  "jpeg_read_raw_data decompress_data max_lines a =
     (if app_state a \<noteq> DSTATE_RAW_OK then Inl (ErrExit (JERR_BAD_STATE (app_state a)))
      else if output_height (app_info a) \<le> output_scanline (app_info a) then Inr (0, a)
      else
        let lines_per_iMCU_row = word_of_int (d_max_v_samp_factor (app_info a) * min_DCT_scaled_size (app_info a))
        in if max_lines < lines_per_iMCU_row then Inl (ErrExit JERR_BUFFER_SIZE)
           else ebind (decompress_data a) (\<lambda>(ok, a).
             if \<not> ok then Inr (0, a)
             else Inr (lines_per_iMCU_row, set_app (\<lambda>d. d\<lparr>output_scanline := output_scanline d + lines_per_iMCU_row\<rparr>) a)))"

section \<open>Buffered-image mode\<close>

definition jpeg_start_output :: "'e row_source \<Rightarrow> nat \<Rightarrow> int \<Rightarrow> 'e d_app \<Rightarrow> fault + (bool \<times> 'e d_app)" where
  "jpeg_start_output process_data rounds scanno a =
     (if app_state a \<noteq> DSTATE_BUFIMAGE \<and> app_state a \<noteq> DSTATE_PRESCAN then Inl (ErrExit (JERR_BAD_STATE (app_state a)))
      else
        let scanno = (if scanno \<le> 0 then 1 else scanno);
            scanno = (if eoi_reached (core a) \<and> input_scan_number (app_info a) < scanno then input_scan_number (app_info a)
                           else scanno)
        in output_pass_setup process_data rounds (set_app (\<lambda>d. d\<lparr>output_scan_number := scanno\<rparr>) a))"

text \<open>The loops of \<open>jpeg_finish_output\<close> and \<open>jpeg_finish_decompress\<close> consume input while a condition holds.\<close>

fun consume_while :: "('e d_object \<Rightarrow> bool) \<Rightarrow> 'e entropy_decoder \<Rightarrow> nat \<Rightarrow> 'e d_object \<Rightarrow> fault + (bool \<times> 'e d_object)" where
  "consume_while P m n s =
     (if P s
      then case n of
        0 \<Rightarrow> Inl RoundsExhausted
      | Suc n \<Rightarrow> ebind (consume m s) (\<lambda>(retcode, s). if retcode = JPEG_SUSPENDED then Inr (False, s) else consume_while P m n s)
      else Inr (True, s))"

declare consume_while.simps [simp del]

definition jpeg_finish_output :: "'e entropy_decoder \<Rightarrow> nat \<Rightarrow> 'e d_app \<Rightarrow> fault + (bool \<times> 'e d_app)" where
  "jpeg_finish_output m rounds a =
     ebind (if (app_state a = DSTATE_SCANNING \<or> app_state a = DSTATE_RAW_OK) \<and> buffered_image (app_info a)
            then ebind (finish_output_pass a) (\<lambda>a. Inr (set_app (\<lambda>d. d\<lparr>d_global_state := DSTATE_BUFPOST\<rparr>) a))
            else if app_state a \<noteq> DSTATE_BUFPOST then Inl (ErrExit (JERR_BAD_STATE (app_state a)))
            else Inr a) (\<lambda>a.
     ebind (consume_while (\<lambda>s. input_scan_number (info s) \<le> output_scan_number (info s) \<and> \<not> eoi_reached s) m rounds (core a)) (\<lambda>(ok, s).
     let a = a\<lparr>core := s\<rparr>
     in Inr (ok, if ok then set_app (\<lambda>d. d\<lparr>d_global_state := DSTATE_BUFIMAGE\<rparr>) a else a)))"

section \<open>Finishing\<close>

definition jpeg_finish_decompress :: "'e entropy_decoder \<Rightarrow> nat \<Rightarrow> 'e d_app \<Rightarrow> fault + (bool \<times> 'e d_app)" where
  "jpeg_finish_decompress m rounds a =
     ebind (if (app_state a = DSTATE_SCANNING \<or> app_state a = DSTATE_RAW_OK) \<and> \<not> buffered_image (app_info a)
            then if output_scanline (app_info a) < output_height (app_info a) then Inl (ErrExit JERR_TOO_LITTLE_DATA)
                 else ebind (finish_output_pass a) (\<lambda>a. Inr (set_app (\<lambda>d. d\<lparr>d_global_state := DSTATE_STOPPING\<rparr>) a))
            else if app_state a = DSTATE_BUFIMAGE then Inr (set_app (\<lambda>d. d\<lparr>d_global_state := DSTATE_STOPPING\<rparr>) a)
            else if app_state a \<noteq> DSTATE_STOPPING then Inl (ErrExit (JERR_BAD_STATE (app_state a)))
            else Inr a) (\<lambda>a.
     ebind (consume_while (\<lambda>s. \<not> eoi_reached s) m rounds (core a)) (\<lambda>(ok, s).
     let a = a\<lparr>core := s\<rparr>
     in Inr (ok, if ok then jpeg_abort_decompress (d_invoke [term_source] a) else a)))"

end
