(* ===== verification/Jdlimits.thy ===== *)
theory Jdlimits imports Jdapi begin

text \<open>
  What \<open>jdmaster.c\<close> computes for the output side: the range-limiting table and the output dimensions.
\<close>

section \<open>The range-limiting table\<close>

lemma table_parts:
  "prepare_range_limit_table = replicate 256 0 @ map word_of_int [0..255] @ replicate 384 255 @ replicate 384 0 @ map word_of_int [0..127]"
proof -
  have "take (nat CENTERJSAMPLE) (map word_of_int [0..MAXJSAMPLE]) = (map word_of_int [0..127] :: u8 list)"
    by (rule nth_equalityI) (simp_all add: MAXJSAMPLE_def CENTERJSAMPLE_def)
  then show ?thesis by (simp add: prepare_range_limit_table_def Let_def) (simp add: MAXJSAMPLE_def CENTERJSAMPLE_def)
qed

definition clamp_sample :: "int \<Rightarrow> u8" where
  "clamp_sample x = word_of_int (max 0 (min MAXJSAMPLE x))"

lemma simple_limit:
  assumes "-256 \<le> x" "x \<le> 639"
  shows "prepare_range_limit_table ! nat (256 + x) = clamp_sample x"
proof -
  consider "x < 0" | "0 \<le> x" "x \<le> 255" | "255 < x" by linarith
  then show ?thesis
  proof cases
    case 1
    then show ?thesis using assms by (simp add: table_parts nth_append clamp_sample_def nat_less_iff)
  next
    case 2
    then have "nat (256 + x) = 256 + nat x" "nat x < 256" by simp_all
    then show ?thesis using 2 by (simp add: table_parts nth_append clamp_sample_def MAXJSAMPLE_def)
  next
    case 3
    then have "nat (256 + x) = 512 + nat (x - 256)" "nat (x - 256) < 384" using assms by simp_all
    then show ?thesis using 3 by (simp add: table_parts nth_append clamp_sample_def MAXJSAMPLE_def)
  qed
qed

lemma idct_limit:
  assumes "-512 \<le> x" "x < 512"
  shows "prepare_range_limit_table ! nat (384 + (x AND 1023)) = clamp_sample (x + CENTERJSAMPLE)"
proof -
  have m: "x AND 1023 = x mod 1024" using take_bit_eq_mask [of 10 x] by (simp add: mask_eq_exp_minus_1 take_bit_int_def)
  show ?thesis
  proof (cases "0 \<le> x")
    case True
    then have "x AND 1023 = x" using assms m by simp
    moreover have "prepare_range_limit_table ! nat (256 + (x + 128)) = clamp_sample (x + 128)"
      using True assms by (intro simple_limit) simp_all
    ultimately show ?thesis by (simp add: CENTERJSAMPLE_def add.commute add.left_commute)
  next
    case False
    then have a: "x AND 1023 = x + 1024" using assms m mod_pos_pos_trivial [of "x + 1024" 1024] by simp
    show ?thesis
    proof (cases "x < -128")
      case True
      have "nat (384 + (x AND 1023)) = 896 + nat (x + 512)" "nat (x + 512) < 384" using assms True by (simp_all add: a)
      then show ?thesis using True by (simp add: table_parts nth_append clamp_sample_def CENTERJSAMPLE_def)
    next
      case f: False
      have "nat (384 + (x AND 1023)) = 1280 + nat (x + 128)" "nat (x + 128) < 128" using False f by (simp_all add: a)
      then show ?thesis using f False by (simp add: table_parts nth_append clamp_sample_def CENTERJSAMPLE_def MAXJSAMPLE_def)
    qed
  qed
qed

text \<open>
  C19. The range-limiting table does what the comment before it promises: subscripts up to 256 below the
  sample range and 384 above it give the value clamped to 0..255; the post-IDCT half, indexed with the low
  ten bits, adds 128 and clamps every value from -512 to 511; and no value of the inverse DCT, however
  wild, leads outside the table.
\<close>

theorem range_limit_clamps:
  "(\<forall>x. -256 \<le> x \<and> x \<le> 639 \<longrightarrow> prepare_range_limit_table ! nat (256 + x) = clamp_sample x) \<and>
   (\<forall>x. -512 \<le> x \<and> x < 512 \<longrightarrow> prepare_range_limit_table ! nat (256 + CENTERJSAMPLE + (x AND 1023)) = clamp_sample (x + CENTERJSAMPLE)) \<and>
   (\<forall>x. 256 + CENTERJSAMPLE + (x AND 1023) \<in> {0..<int (length prepare_range_limit_table)})"
proof (intro conjI allI impI)
  fix x :: int
  have "0 \<le> x AND 1023" "x AND 1023 \<le> 1023" by (simp_all add: AND_upper2)
  then show "256 + CENTERJSAMPLE + (x AND 1023) \<in> {0..<int (length prepare_range_limit_table)}"
    by (simp add: CENTERJSAMPLE_def table_parts)
qed (use simple_limit idct_limit in \<open>simp_all add: CENTERJSAMPLE_def\<close>)

theorem range_limit_clamps_witness:
  "prepare_range_limit_table ! 206 = clamp_sample (-50) \<and>
   prepare_range_limit_table ! 1274 = clamp_sample (-6) \<and> clamp_sample (-6) = 0"
proof -
  note r = range_limit_clamps [THEN conjunct1, rule_format, of "-50"] range_limit_clamps [THEN conjunct2, THEN conjunct1, rule_format, of "-134"]
  have "nat (256 + CENTERJSAMPLE + (-134 AND 1023)) = 1274" "-134 + CENTERJSAMPLE = -6"
    by (simp_all add: CENTERJSAMPLE_def)
  with r show ?thesis by (simp add: clamp_sample_def)
qed

section \<open>Output dimensions\<close>

lemma scale_step_range: "1 \<le> scale_step d \<and> scale_step d \<le> 16"
proof (cases "find (\<lambda>k. scale_num d * 8 \<le> scale_denom d * word_of_int k) [1..15]")
  case (Some k)
  then have "k \<in> set [1..15]" by (auto simp: find_Some_iff)
  then show ?thesis using Some by (simp add: scale_step_def)
qed (simp add: scale_step_def)

text \<open>
  The scaling asked for is \<open>num\<close>/\<open>denom\<close>; the one chosen is the smallest number of eighths that is not below
  it, from one to sixteen. The products are computed on 32-bit unsigned integers.
\<close>

definition eighths_for :: "int \<Rightarrow> int \<Rightarrow> int \<Rightarrow> bool" where
  "eighths_for k num denom \<longleftrightarrow> 1 \<le> k \<and> k \<le> 16 \<and> (k = 16 \<or> num * 8 \<le> denom * k) \<and> (k = 1 \<or> denom * (k - 1) < num * 8)"

lemma scale_step_eighths:
  assumes "uint (scale_num d) * 8 < 2 ^ 32" "uint (scale_denom d) * 15 < 2 ^ 32"
  shows "eighths_for (scale_step d) (uint (scale_num d)) (uint (scale_denom d))"
proof -
  let ?P = "\<lambda>k. scale_num d * 8 \<le> scale_denom d * word_of_int k" and ?N = "uint (scale_num d)" and ?D = "uint (scale_denom d)"
  have P: "?P k \<longleftrightarrow> ?N * 8 \<le> ?D * k" if "k \<in> {1..15}" for k
  proof -
    have "?D * k \<le> ?D * 15" using that by (intro mult_left_mono) simp_all
    then have "uint (scale_denom d * word_of_int k) = ?D * k"
      using assms(2) that by (simp add: uint_word_ariths uint_word_of_int)
    moreover have "uint (scale_num d * 8) = ?N * 8" using assms(1) by (simp add: uint_word_ariths)
    ultimately show ?thesis by (simp add: word_le_def)
  qed
  show ?thesis
  proof (cases "find ?P [1..15]")
    case None
    then have "\<forall>k \<in> set [1..15]. \<not> ?P k" by (simp only: find_None_iff) blast
    then have "\<not> ?P 15" by (rule bspec) simp
    then show ?thesis using None P [of 15] by (simp add: scale_step_def eighths_for_def)
  next
    case (Some k)
    then obtain i where i: "i < length [1..15 :: int]" "?P ([1..15] ! i)" "k = [1..15] ! i" "\<And>j. j < i \<Longrightarrow> \<not> ?P ([1..15] ! j)"
      by (auto simp: find_Some_iff)
    have k: "k = int i + 1" "k \<in> {1..15}" using i(1,3) by auto
    have "\<not> ?P (k - 1)" if "k \<noteq> 1"
    proof -
      have "[1..15] ! (i - 1) = k - 1" "i - 1 < i" using that k by (auto simp: of_nat_diff)
      then show ?thesis using i(4) by metis
    qed
    then have "k \<noteq> 1 \<Longrightarrow> ?D * (k - 1) < ?N * 8" using P [of "k - 1"] k(2) by auto
    then show ?thesis using Some P [OF k(2)] i(2,3) k(2) by (auto simp: scale_step_def eighths_for_def)
  qed
qed

text \<open>\<open>q\<close> is the quotient of \<open>a\<close> and \<open>b\<close>, rounded up.\<close>

definition rounded_up :: "int \<Rightarrow> int \<Rightarrow> int \<Rightarrow> bool" where
  "rounded_up q a b \<longleftrightarrow> a \<le> q * b \<and> q * b < a + b"

lemma rounded_up_jdiv: "0 \<le> a \<Longrightarrow> 0 < b \<Longrightarrow> rounded_up (jdiv_round_up a b) a b"
  using jdiv_round_up_iff [of a b "jdiv_round_up a b"] jdiv_round_up_iff [of a b "jdiv_round_up a b - 1"]
  by (simp add: rounded_up_def algebra_simps)

lemma jdiv_round_up_bounds: "0 \<le> a \<Longrightarrow> 1 \<le> b \<Longrightarrow> 0 \<le> jdiv_round_up a b \<and> jdiv_round_up a b \<le> a"
  using jdiv_round_up_iff [of a b a] mult_left_mono [of 1 b a]
  by (simp add: jdiv_round_up_pos pos_imp_zdiv_nonneg_iff)

lemma uint_rounded:
  assumes "0 \<le> a" "a < 2 ^ 31" "1 \<le> b"
  shows "uint (word_of_int (jdiv_round_up (as_long a) b) :: u32) = jdiv_round_up a b"
proof -
  have "as_long a = a" using assms by (simp add: as_long_small)
  then show ?thesis using jdiv_round_up_bounds [OF assms(1,3)] assms(2) by (simp add: uint_word_of_int)
qed

definition sampling_ok :: "jpeg_decompress_struct \<Rightarrow> jpeg_component_info \<Rightarrow> bool" where
  "sampling_ok d c \<longleftrightarrow> 1 \<le> h_samp_factor c \<and> h_samp_factor c \<le> d_max_h_samp_factor d \<and>
     1 \<le> v_samp_factor c \<and> v_samp_factor c \<le> d_max_v_samp_factor d"

definition ready_image :: "jpeg_decompress_struct \<Rightarrow> bool" where
  "ready_image d \<longleftrightarrow> d_global_state d = DSTATE_READY \<and> 1 \<le> sint (d_image_width d) \<and> sint (d_image_width d) \<le> JPEG_MAX_DIMENSION \<and>
     1 \<le> sint (d_image_height d) \<and> sint (d_image_height d) \<le> JPEG_MAX_DIMENSION \<and>
     d_max_h_samp_factor d \<le> MAX_SAMP_FACTOR \<and> d_max_v_samp_factor d \<le> MAX_SAMP_FACTOR \<and>
     list_all (sampling_ok d) (take (nat (d_num_components d)) (d_comp_info d))"

text \<open>
  A component is reconstructed at \<open>k\<close>, doubled as often as the result is not above eight before doubling and
  the doubled blocks still fill whole MCUs in both directions.
\<close>

definition grown_size :: "int \<Rightarrow> int \<Rightarrow> jpeg_component_info \<Rightarrow> int \<Rightarrow> int \<Rightarrow> bool" where
  "grown_size full_h full_v c k s \<longleftrightarrow>
     (let fits = (\<lambda>s. h_samp_factor c * s dvd full_h \<and> v_samp_factor c * s dvd full_v)
      in (\<exists>j. s = k * 2 ^ j) \<and> (s \<noteq> k \<longrightarrow> s < 16 \<and> fits s) \<and> (s < 8 \<longrightarrow> \<not> fits (s * 2)))"

lemma smod_dvd: "x smod y = 0 \<longleftrightarrow> y dvd (x :: int)"
  by (auto simp: signed_modulo_int_def sgn_if mod_eq_0_iff_dvd abs_if split: if_splits)

lemma grow_size_spec:
  assumes "1 \<le> s" "s \<le> 16"
  shows "grown_size fh fv c s (grow_size fh fv c s)"
  using assms(1,2)
proof (induction fh fv c s rule: grow_size.induct)
  case (1 fh fv c s)
  let ?fits = "\<lambda>s. h_samp_factor c * s dvd fh \<and> v_samp_factor c * s dvd fv"
  have e: "(0 < s \<and> s < DCTSIZE \<and> fh smod (h_samp_factor c * s * 2) = 0 \<and> fv smod (v_samp_factor c * s * 2) = 0) \<longleftrightarrow>
    s < 8 \<and> ?fits (s * 2)"
    using "1.prems" by (simp add: smod_dvd mult.assoc DCTSIZE_def)
  show ?case
  proof (cases "s < 8 \<and> ?fits (s * 2)")
    case True
    let ?g = "grow_size fh fv c (s * 2)"
    have "grown_size fh fv c (s * 2) ?g" using "1.IH" [OF e [THEN iffD2, OF True]] True "1.prems" by simp
    then have g: "\<exists>j. ?g = s * 2 * 2 ^ j" "?g \<noteq> s * 2 \<longrightarrow> ?g < 16 \<and> ?fits ?g" "?g < 8 \<longrightarrow> \<not> ?fits (?g * 2)"
      unfolding grown_size_def Let_def by blast+
    obtain j where j: "?g = s * 2 * 2 ^ j" using g(1) by blast
    have "?g = s * 2 ^ Suc j" using j by simp
    then have "\<exists>j. ?g = s * 2 ^ j" by blast
    moreover have "?g < 16 \<and> ?fits ?g" using g(2) True by (cases "?g = s * 2") auto
    moreover have "grow_size fh fv c s = ?g" using e True by (simp add: grow_size.simps [of fh fv c s])
    ultimately show ?thesis using g(3) unfolding grown_size_def Let_def by simp
  next
    case False
    then have "grow_size fh fv c s = s" using e by (subst grow_size.simps) (rule if_not_P, simp only: not_False_eq_True)
    moreover have "\<exists>j. s = s * 2 ^ j" by (intro exI [of _ 0]) simp
    ultimately show ?thesis using False unfolding grown_size_def Let_def by simp
  qed
qed

lemma grown_size_bounds:
  assumes "grown_size fh fv c k s" "1 \<le> k" "k \<le> 16"
  shows "k dvd s" "k \<le> s" "s \<le> 16"
proof -
  obtain j where j: "s = k * 2 ^ j" using assms(1) by (auto simp: grown_size_def Let_def)
  then show "k dvd s" by simp
  have "k * 1 \<le> k * 2 ^ j" using assms(2) by (intro mult_left_mono) simp_all
  then show "k \<le> s" by (simp add: j)
  show "s \<le> 16" using assms by (cases "s = k") (simp_all add: grown_size_def Let_def)
qed

lemma dimension_bounds:
  assumes "1 \<le> x" "x \<le> JPEG_MAX_DIMENSION" "1 \<le> k" "k \<le> 64"
  shows "0 \<le> x * k" "x * k < 2 ^ 31"
  using assms mult_mono [of x 65500 k 64] by (simp_all add: JPEG_MAX_DIMENSION_def)

lemma scaled_dimension:
  assumes "1 \<le> sint (x :: u32)" "sint x \<le> JPEG_MAX_DIMENSION" "1 \<le> k" "k \<le> 64" "1 \<le> b"
  shows "rounded_up (uint (word_of_int (jdiv_round_up (as_long (sint x * k)) b) :: u32)) (sint x * k) b"
  using dimension_bounds [OF assms(1-4)] assms(5) by (simp add: uint_rounded rounded_up_jdiv)

text \<open>A component's samples, expanded by a whole factor, are enough for the output.\<close>

lemma expansion_covers:
  assumes q: "rounded_up q (x * (h * s)) (m * 8)" and o: "rounded_up p (x * k) 8" and e: "e * (h * s) = m * k"
    and pos: "0 \<le> x" "0 < h" "0 < s" "0 < m" "0 < e"
  shows "p \<le> q * e"
proof -
  have "e * (x * (h * s)) \<le> e * (q * (m * 8))" using q pos by (intro mult_left_mono) (simp_all add: rounded_up_def)
  then have "m * (x * k) \<le> m * (q * e * 8)" using e by (simp add: algebra_simps) (metis (no_types, opaque_lifting) mult.assoc mult.commute)
  then have "x * k \<le> q * e * 8" using pos(4) by simp
  moreover have "p * 8 < x * k + 8" using o by (simp add: rounded_up_def)
  ultimately have "p * 8 < (q * e + 1) * 8" by simp
  then show ?thesis by simp
qed

definition component_scaled :: "jpeg_decompress_struct \<Rightarrow> jpeg_component_info \<Rightarrow> bool" where
  "component_scaled d c \<longleftrightarrow>
     (let k = min_DCT_scaled_size d; s = DCT_scaled_size c
      in grown_size (d_max_h_samp_factor d * k) (d_max_v_samp_factor d * k) c k s \<and>
         rounded_up (uint (downsampled_width c)) (sint (d_image_width d) * (h_samp_factor c * s)) (d_max_h_samp_factor d * 8) \<and>
         rounded_up (uint (downsampled_height c)) (sint (d_image_height d) * (v_samp_factor c * s)) (d_max_v_samp_factor d * 8) \<and>
         (\<forall>e>0. e * (h_samp_factor c * s) = d_max_h_samp_factor d * k \<longrightarrow> uint (output_width d) \<le> uint (downsampled_width c) * e) \<and>
         (\<forall>e>0. e * (v_samp_factor c * s) = d_max_v_samp_factor d * k \<longrightarrow> uint (output_height d) \<le> uint (downsampled_height c) * e))"

lemma scale_component_scaled:
  assumes "ready_image d" "sampling_ok d c" "1 \<le> min_DCT_scaled_size d" "min_DCT_scaled_size d \<le> 16"
    and "rounded_up (uint (output_width d)) (sint (d_image_width d) * min_DCT_scaled_size d) 8"
    and "rounded_up (uint (output_height d)) (sint (d_image_height d) * min_DCT_scaled_size d) 8"
  shows "component_scaled d (scale_component d c)"
proof -
  let ?k = "min_DCT_scaled_size d"
  let ?s = "grow_size (d_max_h_samp_factor d * ?k) (d_max_v_samp_factor d * ?k) c ?k"
  have gs: "grown_size (d_max_h_samp_factor d * ?k) (d_max_v_samp_factor d * ?k) c ?k ?s" by (rule grow_size_spec [OF assms(3,4)])
  note g = grown_size_bounds [OF gs assms(3,4)]
  define c' where "c' = scale_component d c"
  have gs': "grown_size (d_max_h_samp_factor d * ?k) (d_max_v_samp_factor d * ?k) c' ?k ?s"
    using gs by (simp add: c'_def scale_component_def grown_size_def Let_def)
  have h: "1 \<le> h_samp_factor c * ?s" "h_samp_factor c * ?s \<le> 64" "1 \<le> v_samp_factor c * ?s" "v_samp_factor c * ?s \<le> 64"
    "1 \<le> d_max_h_samp_factor d * DCTSIZE" "1 \<le> d_max_v_samp_factor d * DCTSIZE"
    using assms(1,2,3) g mult_mono [of "h_samp_factor c" 4 ?s 16] mult_mono [of "v_samp_factor c" 4 ?s 16]
      mult_mono [of 1 "h_samp_factor c" 1 ?s] mult_mono [of 1 "v_samp_factor c" 1 ?s]
    by (simp_all add: sampling_ok_def ready_image_def MAX_SAMP_FACTOR_def DCTSIZE_def)
  have w: "rounded_up (uint (scaled_samples (d_image_width d) (h_samp_factor c) ?s (d_max_h_samp_factor d)))
      (sint (d_image_width d) * (h_samp_factor c * ?s)) (d_max_h_samp_factor d * 8)"
    "rounded_up (uint (scaled_samples (d_image_height d) (v_samp_factor c) ?s (d_max_v_samp_factor d)))
      (sint (d_image_height d) * (v_samp_factor c * ?s)) (d_max_v_samp_factor d * 8)"
    using assms(1) h scaled_dimension [of "d_image_width d" "h_samp_factor c * ?s" "d_max_h_samp_factor d * DCTSIZE"]
      scaled_dimension [of "d_image_height d" "v_samp_factor c * ?s" "d_max_v_samp_factor d * DCTSIZE"]
    by (simp_all add: ready_image_def scaled_samples_def DCTSIZE_def)
  have p: "0 \<le> sint (d_image_width d)" "0 \<le> sint (d_image_height d)" "0 < h_samp_factor c" "0 < v_samp_factor c" "0 < ?s"
    "0 < d_max_h_samp_factor d" "0 < d_max_v_samp_factor d"
    using assms(1-3) g by (simp_all add: ready_image_def sampling_ok_def)
  show ?thesis
    using gs' [unfolded c'_def] w expansion_covers [OF w(1) assms(5) _ p(1,3,5,6)] expansion_covers [OF w(2) assms(6) _ p(2,4,5,7)]
    unfolding component_scaled_def by (simp add: scale_component_def Let_def)
qed

lemma component_scaled_cong:
  "min_DCT_scaled_size d = min_DCT_scaled_size d' \<Longrightarrow> d_image_width d = d_image_width d' \<Longrightarrow> d_image_height d = d_image_height d' \<Longrightarrow>
   d_max_h_samp_factor d = d_max_h_samp_factor d' \<Longrightarrow> d_max_v_samp_factor d = d_max_v_samp_factor d' \<Longrightarrow>
   output_width d = output_width d' \<Longrightarrow> output_height d = output_height d' \<Longrightarrow> component_scaled d c = component_scaled d' c"
  by (simp add: component_scaled_def)

lemma take_changed: "take n (map f (take n xs) @ drop n xs) = map f (take n xs)"
  by (cases "n \<le> length xs") (simp_all add: min_def)

lemma core_ready: "ready_image d \<Longrightarrow> ready_image (jpeg_core_output_dimensions d)"
proof -
  assume r: "ready_image d"
  let ?n = "nat (d_num_components d)" and ?e = "jpeg_core_output_dimensions d"
  have "d_comp_info ?e = map (\<lambda>c. c\<lparr>DCT_scaled_size := scale_step d\<rparr>) (take ?n (d_comp_info d)) @ drop ?n (d_comp_info d)"
    by (simp add: jpeg_core_output_dimensions_def Let_def)
  then have t: "take ?n (d_comp_info ?e) = map (\<lambda>c. c\<lparr>DCT_scaled_size := scale_step d\<rparr>) (take ?n (d_comp_info d))"
    by (simp only: take_changed)
  have f: "d_global_state ?e = d_global_state d" "d_image_width ?e = d_image_width d" "d_image_height ?e = d_image_height d"
    "d_max_h_samp_factor ?e = d_max_h_samp_factor d" "d_max_v_samp_factor ?e = d_max_v_samp_factor d" "d_num_components ?e = d_num_components d"
    by (simp_all add: jpeg_core_output_dimensions_def Let_def)
  have "list_all (sampling_ok ?e) (take ?n (d_comp_info ?e))"
    unfolding t using r by (simp add: ready_image_def list_all_iff sampling_ok_def f)
  then show ?thesis using r unfolding ready_image_def f by simp
qed

text \<open>
  C18. \<open>jpeg_calc_output_dimensions\<close> on an image the library accepts, with any scaling the application asks
  for: the output is the image scaled by \<open>k\<close>/8, rounded up, where \<open>k\<close> is the smallest number of eighths not
  below the scaling asked for, from 1 to 16 (if its numerator and denominator do not overflow 32 bits when
  multiplied by 8 and 15; if they do, some \<open>k\<close> from 1 to 16). Each component is reconstructed at \<open>k\<close> samples per
  block, doubled while that is below 8 and the blocks fit; its dimensions are the exact ones rounded up,
  and where whole-number expansion brings it to full resolution the expanded samples cover the output.
  No intermediate product of the dimensions overflows a 32-bit long.
\<close>

theorem output_dimensions:
  assumes "ready_image d"
  shows "\<exists>d'. jpeg_calc_output_dimensions d = Inr d' \<and>
     1 \<le> min_DCT_scaled_size d' \<and> min_DCT_scaled_size d' \<le> 16 \<and>
     (uint (scale_num d) * 8 < 2 ^ 32 \<and> uint (scale_denom d) * 15 < 2 ^ 32 \<longrightarrow>
        eighths_for (min_DCT_scaled_size d') (uint (scale_num d)) (uint (scale_denom d))) \<and>
     rounded_up (uint (output_width d')) (sint (d_image_width d) * min_DCT_scaled_size d') 8 \<and>
     rounded_up (uint (output_height d')) (sint (d_image_height d) * min_DCT_scaled_size d') 8 \<and>
     list_all (component_scaled d') (take (nat (d_num_components d)) (d_comp_info d'))"
proof -
  let ?n = "nat (d_num_components d)" and ?k = "scale_step d"
  let ?e = "jpeg_core_output_dimensions d"
  have k: "1 \<le> ?k" "?k \<le> 16" using scale_step_range [of d] by simp_all
  have w: "rounded_up (uint (output_width ?e)) (sint (d_image_width d) * ?k) 8" "rounded_up (uint (output_height ?e)) (sint (d_image_height d) * ?k) 8"
    using assms k scaled_dimension [of "d_image_width d" ?k 8] scaled_dimension [of "d_image_height d" ?k 8]
    by (simp_all add: jpeg_core_output_dimensions_def Let_def ready_image_def DCTSIZE_def)
  have e: "ready_image ?e" "min_DCT_scaled_size ?e = ?k" "d_image_width ?e = d_image_width d" "d_image_height ?e = d_image_height d"
    "d_num_components ?e = d_num_components d"
    using assms core_ready [of d] by (simp_all add: jpeg_core_output_dimensions_def Let_def)
  have "\<forall>c \<in> set (take ?n (d_comp_info ?e)). component_scaled ?e (scale_component ?e c)"
  proof
    fix c assume "c \<in> set (take ?n (d_comp_info ?e))"
    then have "sampling_ok ?e c" using e(1,5) by (simp add: ready_image_def list_all_iff)
    then show "component_scaled ?e (scale_component ?e c)" using e k w by (intro scale_component_scaled) simp_all
  qed
  then have c: "list_all (component_scaled ?e) (map (scale_component ?e) (take ?n (d_comp_info ?e)))" by (auto simp: list_all_iff)
  have st: "d_global_state d = DSTATE_READY" using assms by (simp add: ready_image_def)
  define comps where
    "comps = map (scale_component ?e) (take (nat (d_num_components ?e)) (d_comp_info ?e)) @ drop (nat (d_num_components ?e)) (d_comp_info ?e)"
  have "\<exists>y z v. jpeg_calc_output_dimensions d =
      Inr (?e\<lparr>d_comp_info := comps, out_color_components := y, output_components := z, rec_outbuf_height := v\<rparr>)"
    unfolding jpeg_calc_output_dimensions_def Let_def comps_def by (intro exI, rule trans [OF if_not_P refl]) (simp add: st)
  then obtain y z v where d': "jpeg_calc_output_dimensions d =
      Inr (?e\<lparr>d_comp_info := comps, out_color_components := y, output_components := z, rec_outbuf_height := v\<rparr>)" by blast
  have "take ?n comps = map (scale_component ?e) (take ?n (d_comp_info ?e))"
    by (simp only: comps_def take_changed e(5))
  then have "list_all (component_scaled (?e\<lparr>d_comp_info := comps, out_color_components := y, output_components := z, rec_outbuf_height := v\<rparr>)) (take ?n comps)"
    using c by (simp add: list_all_iff component_scaled_def)
  then show ?thesis using w k e(2) scale_step_eighths [of d]
    by (intro exI [of _ "?e\<lparr>d_comp_info := comps, out_color_components := y, output_components := z, rec_outbuf_height := v\<rparr>"])
       (simp add: d')
qed

text \<open>A 3-component image with subsampled chroma, reduced to three eighths.\<close>

definition chroma_image :: jpeg_decompress_struct where
  "chroma_image = zero_decompress\<lparr>d_global_state := 202, d_image_width := 1001, d_image_height := 65500, d_num_components := 3,
     scale_num := 3, scale_denom := 8, d_max_h_samp_factor := 2, d_max_v_samp_factor := 2,
     d_comp_info := map (\<lambda>f. (fresh_comp (idle_decompressor [] []) 0)\<lparr>h_samp_factor := f, v_samp_factor := f\<rparr>) [2, 1, 1]\<rparr>"

theorem output_dimensions_witness:
  "\<exists>d'. jpeg_calc_output_dimensions chroma_image = Inr d' \<and> eighths_for (min_DCT_scaled_size d') 3 8 \<and> rounded_up (uint (output_width d')) (1001 * min_DCT_scaled_size d') 8"
proof -
  have "ready_image chroma_image"
    by (simp add: ready_image_def chroma_image_def DSTATE_READY_def limits idle_decompressor_def sampling_ok_def)
  then show ?thesis using output_dimensions [of chroma_image] by (auto simp: chroma_image_def)
qed

end
