(* ===== verification/Jdkeeps.thy ===== *)
theory Jdkeeps imports Jdmarker begin

text \<open>
  Reading markers changes only what the markers tell: the state of the object and what the application, the
  input controller and the output side keep in it stay as they are.
\<close>

text \<open>The fields that no marker routine writes.\<close>

definition app_fields where
  "app_fields d = ((d_global_state d, d_MCU_membership d, buffered_image d, raw_data_out d, quantize_colors d, colormap d,
      enable_1pass_quant d, enable_external_quant d, enable_2pass_quant d, two_pass_quantize d),
     (output_width d, output_height d, out_color_components d, output_scanline d, output_scan_number d, output_iMCU_row d),
     (d_total_iMCU_rows d, input_iMCU_row d, d_max_h_samp_factor d, d_max_v_samp_factor d, d_MCUs_per_row d, d_blocks_in_MCU d))"

lemma app_fields_next [simp]: "next_byte s = Some (c, t) \<Longrightarrow> dinfo t = dinfo s"
  by (auto simp: next_byte_def split: list.splits)

definition keeps where
  "keeps v r \<longleftrightarrow> (\<forall>ok t. r = Inr (ok, t) \<longrightarrow> app_fields (dinfo t) = v)" for r :: routine

named_theorems keep_rules

lemma keeps_simps [simp]: "keeps v (Inl e)" "keeps v (Inr (ok, t)) \<longleftrightarrow> app_fields (dinfo t) = v"
  by (auto simp: keeps_def)

lemma keeps_BYTE [keep_rules]:
  "app_fields (dinfo s) = v \<Longrightarrow> (\<And>c s'. app_fields (dinfo s') = v \<Longrightarrow> keeps v (f c s')) \<Longrightarrow> keeps v (INPUT_BYTE s f)"
  by (auto simp: INPUT_BYTE_def split: option.split)

lemma keeps_2BYTES [keep_rules]:
  "app_fields (dinfo s) = v \<Longrightarrow> (\<And>c s'. app_fields (dinfo s') = v \<Longrightarrow> keeps v (f c s')) \<Longrightarrow> keeps v (INPUT_2BYTES s f)"
  unfolding INPUT_2BYTES_def by (intro keeps_BYTE) auto

lemma keeps_BYTES [keep_rules]:
  "app_fields (dinfo s) = v \<Longrightarrow> (\<And>c s'. app_fields (dinfo s') = v \<Longrightarrow> keeps v (f c s')) \<Longrightarrow> keeps v (INPUT_BYTES k s f)"
proof (induction k arbitrary: s f)
  case (Suc k)
  then show ?case by (simp, intro keeps_BYTE) auto
qed simp

lemma keeps_backtrack [keep_rules]: "keeps v r \<Longrightarrow> keeps v (backtrack s r)"
  by (auto simp: keeps_def backtrack_def split: sum.splits if_splits)

lemma keeps_if [keep_rules]: "(c \<Longrightarrow> keeps v a) \<Longrightarrow> (\<not> c \<Longrightarrow> keeps v b) \<Longrightarrow> keeps v (if c then a else b)"
  by simp

lemma keeps_Let [keep_rules]: "(\<And>x. x = y \<Longrightarrow> keeps v (f x)) \<Longrightarrow> keeps v (Let y f)"
  by simp

lemma app_fields_skip [simp]: "dinfo (skip_input_data k s) = dinfo s"
  by (simp add: skip_input_data_def split: prod.split)

lemma app_fields_examine [simp]:
  "app_fields (dinfo (examine_app0 b s)) = app_fields (dinfo s)" "app_fields (dinfo (examine_app14 b s)) = app_fields (dinfo s)"
  by (simp_all add: examine_app0_def examine_app14_def app_fields_def)

lemma app_fields_marks [simp]:
  "app_fields (set_quant n p x d) = app_fields d"
  "app_fields (d\<lparr>d_progressive_mode := x0\<rparr>) = app_fields d"
  "app_fields (d\<lparr>d_arith_code := x1\<rparr>) = app_fields d"
  "app_fields (d\<lparr>d_data_precision := x2\<rparr>) = app_fields d"
  "app_fields (d\<lparr>d_image_height := x3\<rparr>) = app_fields d"
  "app_fields (d\<lparr>d_image_width := x4\<rparr>) = app_fields d"
  "app_fields (d\<lparr>d_num_components := x5\<rparr>) = app_fields d"
  "app_fields (d\<lparr>d_comps_in_scan := x6\<rparr>) = app_fields d"
  "app_fields (d\<lparr>d_Ss := x7\<rparr>) = app_fields d"
  "app_fields (d\<lparr>d_Se := x8\<rparr>) = app_fields d"
  "app_fields (d\<lparr>d_Ah := x9\<rparr>) = app_fields d"
  "app_fields (d\<lparr>d_Al := x10\<rparr>) = app_fields d"
  "app_fields (d\<lparr>input_scan_number := x11\<rparr>) = app_fields d"
  "app_fields (d\<lparr>d_restart_interval := x12\<rparr>) = app_fields d"
  "app_fields (d\<lparr>d_arith_dc_L := x13\<rparr>) = app_fields d"
  "app_fields (d\<lparr>d_arith_dc_U := x14\<rparr>) = app_fields d"
  "app_fields (d\<lparr>d_arith_ac_K := x15\<rparr>) = app_fields d"
  "app_fields (d\<lparr>d_jpeg_color_space := x16\<rparr>) = app_fields d"
  "app_fields (d\<lparr>d_CCIR601_sampling := x17\<rparr>) = app_fields d"
  "app_fields (d\<lparr>saw_JFIF_marker := x18\<rparr>) = app_fields d"
  "app_fields (d\<lparr>d_JFIF_major_version := x19\<rparr>) = app_fields d"
  "app_fields (d\<lparr>d_JFIF_minor_version := x20\<rparr>) = app_fields d"
  "app_fields (d\<lparr>d_density_unit := x21\<rparr>) = app_fields d"
  "app_fields (d\<lparr>d_X_density := x22\<rparr>) = app_fields d"
  "app_fields (d\<lparr>d_Y_density := x23\<rparr>) = app_fields d"
  "app_fields (d\<lparr>saw_Adobe_marker := x24\<rparr>) = app_fields d"
  "app_fields (d\<lparr>Adobe_transform := x25\<rparr>) = app_fields d"
  "app_fields (d\<lparr>d_comp_info := cs\<rparr>) = app_fields d" "app_fields (d\<lparr>d_cur_comp_info := ci\<rparr>) = app_fields d"
  "app_fields (d\<lparr>d_quant_tbl_ptrs := q\<rparr>) = app_fields d" "app_fields (d\<lparr>d_dc_huff_tbl_ptrs := h\<rparr>) = app_fields d"
  "app_fields (d\<lparr>d_ac_huff_tbl_ptrs := h\<rparr>) = app_fields d" "app_fields (d\<lparr>marker_list := l\<rparr>) = app_fields d"
  by (simp_all add: app_fields_def set_quant_def)

lemma keeps_sof [keep_rules]:
  "app_fields (dinfo s) = v \<Longrightarrow> (\<And>s'. app_fields (dinfo s') = v \<Longrightarrow> keeps v (f s')) \<Longrightarrow> keeps v (sof_components cis s f)"
proof (induction cis arbitrary: s)
  case (Cons ci cis)
  then show ?case by (simp, intro keeps_BYTE) auto
qed simp

lemma keeps_sos [keep_rules]:
  "app_fields (dinfo s) = v \<Longrightarrow> (\<And>s'. app_fields (dinfo s') = v \<Longrightarrow> keeps v (f s')) \<Longrightarrow> keeps v (sos_components is s f)"
proof (induction "is" arbitrary: s)
  case (Cons i "is")
  then show ?case by (simp add: Let_def split: option.split, intro keeps_BYTE) (auto split: option.split)
qed simp

lemma keeps_values [keep_rules]:
  "app_fields (dinfo s) = v \<Longrightarrow> (\<And>s'. app_fields (dinfo s') = v \<Longrightarrow> keeps v (f s')) \<Longrightarrow> keeps v (dqt_values prec q ps s f)"
proof (induction ps arbitrary: s)
  case (Cons p ps)
  then show ?case by (simp, intro conjI impI keeps_BYTE keeps_2BYTES) auto
qed simp

lemma keeps_dac: "app_fields (dinfo s) = v \<Longrightarrow> keeps v (dac_loop len s)"
proof (induction "nat len" arbitrary: len s rule: less_induct)
  case less
  show ?case by (subst dac_loop.simps, intro keep_rules less) (use less.prems in \<open>auto simp: Let_def\<close>)
qed

lemma keeps_dht: "app_fields (dinfo s) = v \<Longrightarrow> keeps v (dht_loop len s)"
proof (induction "nat len" arbitrary: len s rule: less_induct)
  case less
  show ?case by (subst dht_loop.simps, intro keep_rules less) (use less.prems in \<open>auto simp: Let_def\<close>)
qed

lemma keeps_dqt: "app_fields (dinfo s) = v \<Longrightarrow> keeps v (dqt_loop len s)"
proof (induction "nat len" arbitrary: len s rule: less_induct)
  case less
  show ?case by (subst dqt_loop.simps, intro keep_rules less) (use less.prems in \<open>auto simp: Let_def DCTSIZE2_def\<close>)
qed

lemma app_fields_save: "save_bytes k m s = (ok, m', s') \<Longrightarrow> dinfo s' = dinfo s"
proof (induction k m s rule: save_bytes.induct)
  case (2 n m s)
  then show ?case by (cases "next_byte s") (auto split: prod.splits)
qed simp

lemma keeps_continue: "app_fields (dinfo s) = v \<Longrightarrow> keeps v (continue_saving m s)"
proof -
  assume s: "app_fields (dinfo s) = v"
  obtain ok m' s' where p: "save_bytes (unat (data_length m) - length (saved_data m)) m s = (ok, m', s')" by (cases rule: prod_cases3)
  then show ?thesis using s app_fields_save [OF p] by (cases ok) (simp_all add: continue_saving_def p process_saved_def Let_def)
qed

lemma keeps_save_marker: "app_fields (dinfo s) = v \<Longrightarrow> keeps v (save_marker s)"
  by (auto simp: save_marker_def Let_def process_saved_def keeps_continue split: option.splits)

lemma keeps_routines [keep_rules]:
  assumes "app_fields (dinfo s) = v"
  shows "keeps v (get_soi s)" "keeps v (get_sof p a s)" "keeps v (get_sos s)" "keeps v (get_dac s)" "keeps v (get_dht s)" "keeps v (get_dqt s)"
    "keeps v (get_dri s)" "keeps v (skip_variable s)" "keeps v (get_interesting_appn s)"
  using assms
  by (unfold get_soi_def get_sof_def sof_checks_def get_sos_def get_dac_def get_dht_def get_dqt_def get_dri_def skip_variable_def
        get_interesting_appn_def;
      intro keep_rules keeps_dac keeps_dht keeps_dqt; simp)+

lemma keeps_process [keep_rules]: "app_fields (dinfo s) = v \<Longrightarrow> keeps v (process_marker s)"
proof -
  assume s: "app_fields (dinfo s) = v"
  then have "keeps v (call_method m s)" for m by (cases m) (simp_all add: call_method_def keep_rules keeps_save_marker)
  then show ?thesis using s unfolding process_marker_def Let_def by (intro keep_rules) simp_all
qed

lemma app_fields_skip_ff: "skip_ff s = Some (c, t) \<Longrightarrow> dinfo t = dinfo s"
proof (induction s rule: skip_ff.induct)
  case (1 s)
  from "1.prems" obtain a u where n: "next_byte s = Some (a, u)" by (subst (asm) skip_ff.simps) (auto split: option.splits)
  show ?case
  proof (cases "a = 0xFF")
    case True
    then have "skip_ff u = Some (c, t)" using "1.prems" n by (subst (asm) skip_ff.simps) simp
    then show ?thesis using "1.IH" [OF n refl True] app_fields_next [OF n] by simp
  next
    case False
    then show ?thesis using "1.prems" n by (subst (asm) skip_ff.simps) auto
  qed
qed

lemma app_fields_next_marker: "dinfo (snd (next_marker s)) = dinfo s"
proof (induction s rule: next_marker.induct)
  case (1 s)
  then show ?case
    by (subst next_marker.simps) (auto split: option.split simp: app_fields_skip_ff)
qed

lemma keeps_obtain [keep_rules]: "app_fields (dinfo s) = v \<Longrightarrow> keeps v (obtain_marker s)"
proof -
  assume s: "app_fields (dinfo s) = v"
  then have "keeps v (first_marker s)" unfolding first_marker_def by (intro keep_rules) simp_all
  moreover have "keeps v (Inr (next_marker s))" using s app_fields_next_marker [of s] by (cases "next_marker s") simp
  ultimately show ?thesis using s by (simp add: obtain_marker_def)
qed

lemma app_fields_read: "read_markers s = Inr (st, t) \<Longrightarrow> app_fields (dinfo t) = app_fields (dinfo s)"
proof (induction s rule: read_markers.induct)
  case (1 s)
  from "1.prems" obtain ok u where o: "obtain_marker s = Inr (ok, u)" by (subst (asm) read_markers.simps) (auto simp: result_simps)
  have u: "app_fields (dinfo u) = app_fields (dinfo s)" using keeps_obtain [OF refl, of s] by (simp add: o)
  note r = "1.prems" [unfolded read_markers.simps [of s] o ebind_simps prod.case]
  consider "\<not> ok" | "ok" "unread_marker u = M_SOS" | "ok" "unread_marker u \<noteq> M_SOS" "unread_marker u = M_EOI"
    | "ok" "unread_marker u \<noteq> M_SOS" "unread_marker u \<noteq> M_EOI" by blast
  then show ?case
  proof cases
    case 1
    then show ?thesis using r u by simp
  next
    case 2
    then show ?thesis using r keeps_routines(3) [OF u] by (auto simp: result_simps split: if_splits)
  next
    case 3
    then show ?thesis using r u by auto
  next
    case 4
    from r 4 obtain ok2 w where p: "process_marker u = Inr (ok2, w)" by (auto simp: result_simps)
    have w: "app_fields (dinfo w) = app_fields (dinfo s)" using keeps_process [OF u] by (simp add: p)
    show ?thesis
    proof (cases ok2)
      case True
      then have "read_markers (w\<lparr>unread_marker := 0\<rparr>) = Inr (st, t)" using r 4 p by simp
      then show ?thesis using "1.IH" [OF o refl _ _ _ p refl] 4 True w by simp
    next
      case False
      then show ?thesis using r 4 p w by simp
    qed
  qed
qed

end
