(* ===== verification/Jdheader.thy ===== *)
theory Jdheader imports Jdapi Jdkeeps Jcgeometry MarkerRoundtrip begin

text \<open>
  The compressor's and the decompressor's view of one image: a decompressor that has read the headers
  guesses the colour space they were written for, and lays out the image and each scan as the compressor did.
\<close>

section \<open>The same layout\<close>

definition same_comp :: "jpeg_component_info \<Rightarrow> jpeg_component_info \<Rightarrow> bool" where
  "same_comp c d \<longleftrightarrow> h_samp_factor d = h_samp_factor c \<and> v_samp_factor d = v_samp_factor c \<and>
     width_in_blocks d = width_in_blocks c \<and> height_in_blocks d = height_in_blocks c \<and>
     downsampled_width d = downsampled_width c \<and> downsampled_height d = downsampled_height c \<and>
     DCT_scaled_size d = DCTSIZE"

definition same_mcu :: "jpeg_component_info \<Rightarrow> jpeg_component_info \<Rightarrow> bool" where
  "same_mcu c d \<longleftrightarrow> MCU_width d = MCU_width c \<and> MCU_height d = MCU_height c \<and> MCU_blocks d = MCU_blocks c \<and>
     MCU_sample_width d = MCU_sample_width c \<and> last_col_width d = last_col_width c \<and> last_row_height d = last_row_height c"

lemma check_sampling_cong:
  "list_all2 (\<lambda>c d. h_samp_factor d = h_samp_factor c \<and> v_samp_factor d = v_samp_factor c) cs ds \<Longrightarrow>
   check_sampling ds m = check_sampling cs m"
  by (induction cs ds arbitrary: m rule: list_all2_induct) (auto split: prod.splits)

lemma same_interleaved:
  "same_comp c d \<Longrightarrow> same_comp (interleaved_component c) (d_interleaved d) \<and> same_mcu (interleaved_component c) (d_interleaved d)"
  by (simp add: same_comp_def same_mcu_def interleaved_component_def d_interleaved_def)

lemma same_noninterleaved:
  "same_comp c d \<Longrightarrow> same_comp (noninterleaved_component c) (d_noninterleaved d) \<and> same_mcu (noninterleaved_component c) (d_noninterleaved d)"
  by (simp add: same_comp_def same_mcu_def noninterleaved_component_def d_noninterleaved_def)

lemma add_membership_take:
  assumes "0 \<le> b" "take (nat b) mm = take (nat b) dm" "length mm = 10" "length dm = 10" "nat b + n \<le> 10"
  shows "\<exists>mm' dm'. add_membership n ci (b, mm) = (b + int n, mm') \<and> add_membership n ci (b, dm) = (b + int n, dm') \<and>
     length mm' = 10 \<and> length dm' = 10 \<and> take (nat b + n) mm' = take (nat b + n) dm'"
  using assms
proof (induction n arbitrary: b mm dm)
  case (Suc n)
  have "take (nat (b + 1)) (mm[nat b := ci]) = take (nat (b + 1)) (dm[nat b := ci])"
    using Suc.prems by (simp add: nat_add_distrib take_Suc_conv_app_nth)
  then obtain mm' dm' where "add_membership n ci (b + 1, mm[nat b := ci]) = (b + 1 + int n, mm')"
    "add_membership n ci (b + 1, dm[nat b := ci]) = (b + 1 + int n, dm')" "length mm' = 10" "length dm' = 10"
    "take (nat (b + 1) + n) mm' = take (nat (b + 1) + n) dm'"
    using Suc.IH [of "b + 1" "mm[nat b := ci]" "dm[nat b := ci]"] Suc.prems by (auto simp: nat_add_distrib)
  moreover have "nat (b + 1) + n = nat b + Suc n" "b + 1 + int n = b + int (Suc n)" using Suc.prems(1) by simp_all
  ultimately show ?case by (intro exI [of _ mm'] exI [of _ dm']) simp
qed simp

text \<open>The compressor's array may have room for more components than the image has.\<close>

definition same_comps :: "jpeg_component_info list \<Rightarrow> jpeg_component_info list \<Rightarrow> bool" where
  "same_comps cs ds \<longleftrightarrow> length ds \<le> length cs \<and>
     (\<forall>i < length ds. same_comp (cs ! i) (ds ! i) \<and> 1 \<le> h_samp_factor (cs ! i) \<and> 1 \<le> v_samp_factor (cs ! i))"

lemma same_comps_update:
  assumes "same_comps cs ds" "same_comp c d" "h_samp_factor c = h_samp_factor (cs ! i)" "v_samp_factor c = v_samp_factor (cs ! i)"
  shows "same_comps (cs[i := c]) (ds[i := d])"
  unfolding same_comps_def
proof (intro conjI allI impI)
  fix k assume "k < length (ds[i := d])"
  then have k: "k < length ds" "k < length cs" using assms(1) by (simp_all add: same_comps_def)
  show "same_comp (cs[i := c] ! k) (ds[i := d] ! k)" "1 \<le> h_samp_factor (cs[i := c] ! k)" "1 \<le> v_samp_factor (cs[i := c] ! k)"
    using assms k by (cases "k = i"; simp add: same_comps_def)+
qed (use assms(1) in \<open>simp add: same_comps_def\<close>)

definition same_mcus :: "nat set \<Rightarrow> jpeg_component_info list \<Rightarrow> jpeg_component_info list \<Rightarrow> bool" where
  "same_mcus S cs ds \<longleftrightarrow> (\<forall>i \<in> S. i < length ds \<and> same_mcu (cs ! i) (ds ! i))"

lemma same_mcus_update:
  "same_mcus S cs ds \<Longrightarrow> i < length ds \<Longrightarrow> length ds \<le> length cs \<Longrightarrow> same_mcu c d \<Longrightarrow> same_mcus (insert i S) (cs[i := c]) (ds[i := d])"
  by (auto simp: same_mcus_def nth_list_update)

lemma interleave_same:
  assumes "interleave ci is (comps, b, mm) = Inr (comps', b', mm')" "same_comps comps ds" "\<forall>i \<in> set is. i < length ds" "same_mcus S comps ds"
    and "0 \<le> b" "take (nat b) mm = take (nat b) dm" "length mm = 10" "length dm = 10" "b \<le> 10"
  shows "\<exists>ds' dm'. d_interleave ci (map Some is) (ds, b, dm) = Inr (ds', b', dm') \<and> same_comps comps' ds' \<and> length ds' = length ds \<and>
     same_mcus (S \<union> set is) comps' ds' \<and> take (nat b') mm' = take (nat b') dm'"
  using assms
proof (induction ci "is" "(comps, b, mm)" arbitrary: comps b mm ds dm S rule: interleave.induct)
  case (2 ci i "is" comps b mm)
  let ?c = "interleaved_component (comps ! i)" and ?d = "d_interleaved (ds ! i)"
  have i: "i < length ds" "length ds \<le> length comps" using "2.prems"(2,3) by (auto simp: same_comps_def)
  have s: "same_comp ?c ?d" "same_mcu ?c ?d" using same_interleaved "2.prems"(2) i by (simp_all add: same_comps_def)
  have "1 \<le> h_samp_factor (comps ! i)" "1 \<le> v_samp_factor (comps ! i)" using "2.prems"(2) i by (simp_all add: same_comps_def)
  then have mb: "MCU_blocks ?d = MCU_blocks ?c" "0 \<le> MCU_blocks ?c"
    using s(2) by (simp_all add: same_mcu_def) (simp add: interleaved_component_def)
  have room: "b + MCU_blocks ?c \<le> 10"
    using "2.prems"(1) by (auto simp: Let_def C_MAX_BLOCKS_IN_MCU_def split: if_splits prod.splits)
  with mb "2.prems"(5) have "nat b + nat (MCU_blocks ?c) \<le> 10" by (simp flip: nat_add_distrib)
  from add_membership_take [OF "2.prems"(5-8) this, of ci] obtain mm1 dm1 where
    am: "add_membership (nat (MCU_blocks ?c)) ci (b, mm) = (b + MCU_blocks ?c, mm1)"
      "add_membership (nat (MCU_blocks ?c)) ci (b, dm) = (b + MCU_blocks ?c, dm1)"
      "length mm1 = 10" "length dm1 = 10" "take (nat (b + MCU_blocks ?c)) mm1 = take (nat (b + MCU_blocks ?c)) dm1"
    using mb(2) "2.prems"(5) by (auto simp: nat_add_distrib)
  have st: "interleave (ci + 1) is (comps[i := ?c], b + MCU_blocks ?c, mm1) = Inr (comps', b', mm')"
    "d_interleave ci (map Some (i # is)) (ds, b, dm) = d_interleave (ci + 1) (map Some is) (ds[i := ?d], b + MCU_blocks ?c, dm1)"
    using "2.prems"(1) room am(1,2) mb(1) by (simp_all add: Let_def C_MAX_BLOCKS_IN_MCU_def D_MAX_BLOCKS_IN_MCU_def)
  have l: "same_comps (comps[i := ?c]) (ds[i := ?d])"
    by (rule same_comps_update [OF "2.prems"(2) s(1)]) (simp_all add: interleaved_component_def)
  have dn: "same_mcus (insert i S) (comps[i := ?c]) (ds[i := ?d])" by (rule same_mcus_update [OF "2.prems"(4) i s(2)])
  have "\<not> C_MAX_BLOCKS_IN_MCU < b + MCU_blocks ?c" using room by (simp add: C_MAX_BLOCKS_IN_MCU_def)
  from "2.hyps" [OF refl this am(1) [symmetric] st(1) l _ dn _ am(5,3,4) room] "2.prems"(3,5) mb(2) st(2) show ?case by simp
qed auto

text \<open>What the decompressor has computed for the image and for the scan.\<close>

definition same_image :: "jpeg_compress_struct \<Rightarrow> jpeg_decompress_struct \<Rightarrow> bool" where
  "same_image ci d \<longleftrightarrow> d_image_width d = image_width ci \<and> d_image_height d = image_height ci \<and>
     d_max_h_samp_factor d = max_h_samp_factor ci \<and> d_max_v_samp_factor d = max_v_samp_factor ci \<and>
     d_total_iMCU_rows d = total_iMCU_rows ci \<and> same_comps (comp_info ci) (d_comp_info d)"

definition same_layout :: "jpeg_compress_struct \<Rightarrow> jpeg_decompress_struct \<Rightarrow> bool" where
  "same_layout ci d \<longleftrightarrow> same_image ci d \<and> d_MCUs_per_row d = MCUs_per_row ci \<and> d_MCU_rows_in_scan d = MCU_rows_in_scan ci \<and>
     d_blocks_in_MCU d = blocks_in_MCU ci \<and> take (nat (d_blocks_in_MCU d)) (d_MCU_membership d) = take (nat (blocks_in_MCU ci)) (MCU_membership ci) \<and>
     same_mcus (set (scan_comps_of ci)) (comp_info ci) (d_comp_info d)"

lemma per_scan_same:
  assumes r: "scan_ready c2" and p: "per_scan_setup c2 = Inr c" and i: "same_image c2 d" "length (d_MCU_membership d) = 10"
    and sc: "d_comps_in_scan d = comps_in_scan c2" "d_cur_comp_info d = map Some (scan_comps_of c2) @ x"
    and idx: "\<forall>i \<in> set (scan_comps_of c2). i < length (d_comp_info d)"
  shows "\<exists>d'. d_per_scan_setup d = Inr d' \<and> same_layout c d' \<and> length (d_comp_info d') = length (d_comp_info d)"
proof (cases "comps_in_scan c2 = 1")
  case True
  obtain i where sci: "scan_comps_of c2 = [i]"
    using scan_readyD(11) [OF r] True by (metis One_nat_def length_0_conv length_Suc_conv of_nat_1_eq_iff)
  have ci: "cur_comp_info c2 ! 0 = i" "i < length (d_comp_info d)" "d_cur_comp_info d ! 0 = Some i"
    using sci True idx sc(2) unfolding scan_comps_of_def by (cases "cur_comp_info c2"; simp)+
  let ?c = "noninterleaved_component (comp_info c2 ! i)" and ?d = "d_noninterleaved (d_comp_info d ! i)"
  have s: "same_comp (comp_info c2 ! i) (d_comp_info d ! i)" using i(1) ci(2) by (simp add: same_image_def same_comps_def)
  note n = same_noninterleaved [OF s]
  have c: "c = set_restart (c2\<lparr>MCUs_per_row := width_in_blocks (comp_info c2 ! i), MCU_rows_in_scan := height_in_blocks (comp_info c2 ! i),
      comp_info := (comp_info c2)[i := ?c], blocks_in_MCU := 1, MCU_membership := (MCU_membership c2)[0 := 0]\<rparr>)"
    using p True ci(1) by (simp add: per_scan_setup_def Let_def)
  have "same_comps ((comp_info c2)[i := ?c]) ((d_comp_info d)[i := ?d])"
    by (rule same_comps_update) (use i(1) n in \<open>simp_all add: same_image_def noninterleaved_component_def\<close>)
  moreover have "same_mcus {i} ((comp_info c2)[i := ?c]) ((d_comp_info d)[i := ?d])"
    by (rule same_mcus_update [of "{}"]) (use i(1) n ci(2) in \<open>simp_all add: same_mcus_def same_image_def same_comps_def\<close>)
  moreover have "take 1 ((d_MCU_membership d)[0 := 0]) = take 1 ((MCU_membership c2)[0 := 0])"
    using i(2) scan_readyD(10) [OF r] by (cases "d_MCU_membership d"; cases "MCU_membership c2") simp_all
  ultimately show ?thesis
    using True ci sc sci s i(1) unfolding d_per_scan_setup_def c
    by (simp add: Let_def same_layout_def same_image_def set_restart_def scan_comps_of_def same_comp_def)
next
  case False
  note R = scan_readyD [OF r]
  have cs: "1 < comps_in_scan c2" using R(11,12) False by (cases "scan_comps_of c2") auto
  from p False obtain comps' b' mm' where il: "interleave 0 (scan_comps_of c2) (comp_info c2, 0, MCU_membership c2) = Inr (comps', b', mm')"
    and lim: "comps_in_scan c2 \<le> MAX_COMPS_IN_SCAN"
    and c: "c = set_restart (c2\<lparr>
             MCUs_per_row := word_of_int (jdiv_round_up (sint (image_width c2)) (max_h_samp_factor c2 * DCTSIZE)),
             MCU_rows_in_scan := word_of_int (jdiv_round_up (sint (image_height c2)) (max_v_samp_factor c2 * DCTSIZE)),
             comp_info := comps', blocks_in_MCU := b', MCU_membership := mm'\<rparr>)"
    by (auto simp: per_scan_setup_def result_simps scan_comps_of_def split: if_splits)
  have "same_comps (comp_info c2) (d_comp_info d)" using i(1) by (simp add: same_image_def)
  from interleave_same [OF il this idx, of "{}" "d_MCU_membership d"] R(10) i(2) obtain ds' dm' where
    d: "d_interleave 0 (map Some (scan_comps_of c2)) (d_comp_info d, 0, d_MCU_membership d) = Inr (ds', b', dm')"
      "same_comps comps' ds'" "length ds' = length (d_comp_info d)" "same_mcus (set (scan_comps_of c2)) comps' ds'" "take (nat b') mm' = take (nat b') dm'"
    by (auto simp: same_mcus_def)
  have "d_scan_indices d = map Some (scan_comps_of c2)" using sc R(11) by (simp add: d_scan_indices_def)
  then show ?thesis
    using False cs lim sc d i(1) unfolding d_per_scan_setup_def c
    by (simp add: same_layout_def same_image_def set_restart_def scan_comps_of_def)
qed

lemma initial_same:
  assumes i: "initial_setup c0 = Inr c1"
    and d: "d_image_width d = image_width c0" "d_image_height d = image_height c0" "d_data_precision d = data_precision c0"
      "d_num_components d = num_components c0" "length (d_comp_info d) = nat (num_components c0)"
      "map samp (d_comp_info d) = take (nat (num_components c0)) (map samp (comp_info c0))"
  shows "\<exists>cs mh mv t. d_initial_setup d = Inr (d_comps_in_scan d < d_num_components d \<or> d_progressive_mode d,
      d\<lparr>d_max_h_samp_factor := mh, d_max_v_samp_factor := mv, min_DCT_scaled_size := DCTSIZE, d_comp_info := cs, d_total_iMCU_rows := t\<rparr>) \<and>
     same_image c1 (d\<lparr>d_max_h_samp_factor := mh, d_max_v_samp_factor := mv, min_DCT_scaled_size := DCTSIZE, d_comp_info := cs, d_total_iMCU_rows := t\<rparr>) \<and>
     length cs = length (d_comp_info d)"
proof -
  let ?n = "nat (num_components c0)"
  define cs where "cs = take ?n (comp_info c0)"
  from i obtain mh mv where a: "sint (image_height c0) \<le> JPEG_MAX_DIMENSION" "sint (image_width c0) \<le> JPEG_MAX_DIMENSION"
      "data_precision c0 = BITS_IN_JSAMPLE" "num_components c0 \<le> MAX_COMPONENTS" "num_components c0 \<le> int (length (comp_info c0))" "0 < num_components c0"
      "check_sampling cs (1, 1) = Inr (mh, mv)"
    and c1: "c1 = c0\<lparr>max_h_samp_factor := mh, max_v_samp_factor := mv,
        comp_info := map (\<lambda>ci. setup_component (c0\<lparr>max_h_samp_factor := mh, max_v_samp_factor := mv\<rparr>) ci (cs ! ci)) [0..<?n] @ drop ?n (comp_info c0),
        total_iMCU_rows := word_of_int (jdiv_round_up (sint (image_height c0)) (mv * DCTSIZE))\<rparr>"
    by (auto simp: initial_setup_def Let_def cs_def not_le not_less split: if_splits sum.splits prod.splits)
  have l: "length cs = ?n" using a(5) by (simp add: cs_def)
  have sm: "samp (d_comp_info d ! k) = samp (cs ! k)" if "k < ?n" for k
  proof -
    have "map samp (d_comp_info d) = map samp cs" using d(6) by (simp add: cs_def take_map)
    then show ?thesis using that l d(5) by (metis nth_map)
  qed
  have hv: "list_all2 (\<lambda>c d. h_samp_factor d = h_samp_factor c \<and> v_samp_factor d = v_samp_factor c) cs (d_comp_info d)"
    using sm l d(5) by (simp add: list_all2_conv_all_nth samp_def)
  have ck: "check_sampling (d_comp_info d) (1, 1) = Inr (mh, mv)" using check_sampling_cong [OF hv, of "(1, 1)"] a(7) by simp
  have pos: "1 \<le> h_samp_factor (cs ! k)" "1 \<le> v_samp_factor (cs ! k)" if "k < ?n" for k
    using check_sampling_ok [OF a(7), of "cs ! k"] that l by simp_all
  let ?c0 = "c0\<lparr>max_h_samp_factor := mh, max_v_samp_factor := mv\<rparr>"
  let ?d0 = "d\<lparr>d_max_h_samp_factor := mh, d_max_v_samp_factor := mv, min_DCT_scaled_size := DCTSIZE\<rparr>"
  have sc: "same_comp (setup_component ?c0 ci x) (d_setup_component ?d0 y)" if "samp y = samp x" for ci x y
    using that d(1,2) by (simp add: setup_component_def d_setup_component_def same_comp_def samp_def)
  have nth: "comp_info c1 ! k = setup_component ?c0 k (cs ! k)" if "k < ?n" for k
    using that by (simp add: c1 nth_append)
  have "length (comp_info c1) = length (comp_info c0)" using a(5) by (simp add: c1)
  then have "same_comps (comp_info c1) (map (d_setup_component ?d0) (d_comp_info d))"
    using a(5) d(5) sm pos nth sc by (auto simp: same_comps_def setup_component_def)
  then show ?thesis
    using a(1-6) d(1-5) ck by (intro exI) (auto simp: d_initial_setup_def Let_def same_image_def c1)
qed

lemma set_restart_fields [simp]:
  "comp_info (set_restart c) = comp_info c" "scan_comps_of (set_restart c) = scan_comps_of c" "num_components (set_restart c) = num_components c"
  "image_width (set_restart c) = image_width c" "image_height (set_restart c) = image_height c" "data_precision (set_restart c) = data_precision c"
  by (simp_all add: set_restart_def Let_def scan_comps_of_def)

lemma per_scan_samp:
  assumes "per_scan_setup c2 = Inr c" "scan_ready c2"
  shows "map samp (comp_info c) = map samp (comp_info c2)" "scan_comps_of c = scan_comps_of c2"
proof -
  have "map samp (comp_info c) = map samp (comp_info c2) \<and> scan_comps_of c = scan_comps_of c2"
  proof (cases "comps_in_scan c2 = 1")
    case True
    let ?i = "cur_comp_info c2 ! 0"
    have "samp (noninterleaved_component x) = samp x" for x by (simp add: samp_def noninterleaved_component_def)
    then have "map samp ((comp_info c2)[?i := noninterleaved_component (comp_info c2 ! ?i)]) = map samp (comp_info c2)"
      by (intro nth_equalityI) (auto simp: nth_list_update)
    then show ?thesis using assms(1) True by (auto simp: per_scan_setup_def Let_def) (simp_all add: scan_comps_of_def)
  next
    case False
    from assms(1) False obtain comps' b' mm' where il: "interleave 0 (scan_comps_of c2) (comp_info c2, 0, MCU_membership c2) = Inr (comps', b', mm')"
      and c: "comp_info c = comps'" "scan_comps_of c = scan_comps_of c2"
      by (auto simp: per_scan_setup_def result_simps split: if_splits) (simp_all add: scan_comps_of_def)
    have "\<forall>i \<in> set (scan_comps_of c2). sampled (map samp (comp_info c2)) i" using scan_ready_comp(1) [OF assms(2)] by blast
    from interleave_result [OF il _ scan_readyD(10) [OF assms(2)] this] c show ?thesis
      by (auto intro!: nth_equalityI simp: samp_def interleaved_component_def)
  qed
  then show "map samp (comp_info c) = map samp (comp_info c2)" "scan_comps_of c = scan_comps_of c2" by simp_all
qed

definition image_fields :: "jpeg_compress_struct \<Rightarrow> u32 \<times> u32 \<times> int \<times> int" where
  "image_fields c = (image_width c, image_height c, num_components c, data_precision c)"

lemma initial_setup_fields: "initial_setup c = Inr c' \<Longrightarrow> image_fields c' = image_fields c"
proof -
  assume "initial_setup c = Inr c'"
  then obtain mh mv cs t where "c' = c\<lparr>max_h_samp_factor := mh, max_v_samp_factor := mv, comp_info := cs, total_iMCU_rows := t\<rparr>"
    by (auto simp: initial_setup_def Let_def split: if_splits sum.splits prod.splits)
  then show ?thesis by (simp add: image_fields_def)
qed

lemma jinit_fields: "jinit_c_master_control b s = Inr t \<Longrightarrow> image_fields (cinfo t) = image_fields (cinfo s)"
proof -
  assume "jinit_c_master_control b s = Inr t"
  then obtain c1 where c1: "initial_setup (cinfo s) = Inr c1" "image_fields (cinfo t) = image_fields c1"
    by (auto simp: jinit_c_master_control_def result_simps Let_def image_fields_def split: option.splits)
  then show ?thesis using initial_setup_fields by simp
qed

lemma select_fields: "select_scan_parameters k c = Inr c' \<Longrightarrow> image_fields c' = image_fields c"
  by (auto simp: select_scan_parameters_def image_fields_def Let_def split: option.splits if_splits)

lemma image_fields_update [simp]: "image_fields (set_restart c) = image_fields c"
  by (simp add: image_fields_def)

lemma per_scan_fields:
  assumes "per_scan_setup c = Inr c'"
  shows "image_fields c' = image_fields c \<and> progressive_mode c' = progressive_mode c \<and> comps_in_scan c' = comps_in_scan c"
proof -
  from assms obtain mr mrs cs b mm where "c' = set_restart (c\<lparr>MCUs_per_row := mr, MCU_rows_in_scan := mrs, comp_info := cs, blocks_in_MCU := b, MCU_membership := mm\<rparr>)"
    by (auto simp: per_scan_setup_def result_simps Let_def split: if_splits)
  then show ?thesis by (simp add: image_fields_def set_restart_def Let_def)
qed

lemma setup_scan_fields: "setup_scan u = Inr w \<Longrightarrow> image_fields (cinfo w) = image_fields (cinfo u)"
proof -
  assume "setup_scan u = Inr w"
  then obtain c where c: "select_scan_parameters (scan_number (master u)) (cinfo u) = Inr c"
    "(case per_scan_setup c of Inl e \<Rightarrow> Inl (ErrExit e) | Inr ci \<Rightarrow> Inr (u\<lparr>cinfo := ci\<rparr>)) = Inr w"
    unfolding setup_scan_def by (auto simp: result_simps)
  then have "per_scan_setup c = Inr (cinfo w)" by (cases "per_scan_setup c") auto
  then show ?thesis using select_fields [OF c(1)] per_scan_fields by simp
qed

lemma layout_steps:
  assumes j: "jinit_c_master_control False s = Inr t" and a: "arrays_ok (cinfo s)" "length (MCU_membership (cinfo s)) = 10"
    and z: "sane_size (cinfo s)" and u: "cinfo u = cinfo t" "scan_number (master u) = int k" "k < nat (num_scans (cinfo t))"
    and v: "setup_scan u = Inr w"
    and d: "frame_learned (cinfo w) d" "scan_learned (cinfo w) d" "length (d_MCU_membership d) = 10"
  shows "\<exists>d1 d2. d_initial_setup d = Inr (comps_in_scan (cinfo w) < num_components (cinfo w) \<or> progressive_mode (cinfo w), d1) \<and>
     d_per_scan_setup d1 = Inr d2 \<and> same_layout (cinfo w) d2"
proof -
  obtain c1 c2 where c1: "initial_setup (cinfo s) = Inr c1" and c2: "scan_ready c2" "per_scan_setup c2 = Inr (cinfo w)"
    and e: "comp_info c2 = comp_info c1" "image_width c2 = image_width c1" "image_height c2 = image_height c1"
    "max_h_samp_factor c2 = max_h_samp_factor c1" "max_v_samp_factor c2 = max_v_samp_factor c1" "total_iMCU_rows c2 = total_iMCU_rows c1"
    and idx: "\<forall>i \<in> set (scan_comps_of c2). i < nat (num_components c1)" by (rule setup_scan_ready [OF j a z u v])
  have f: "image_fields (cinfo w) = image_fields (cinfo s)" using setup_scan_fields [OF v] jinit_fields [OF j] u(1) by simp
  note sm = per_scan_samp [OF c2(2,1)]
  have l: "length (d_comp_info d) = nat (num_components (cinfo s))" using d(1) f by (simp add: frame_learned_def image_fields_def)
  have "num_components (cinfo s) \<le> int (length (comp_info (cinfo s)))"
    using c1 by (auto simp: initial_setup_def Let_def split: if_splits)
  then have lc: "length (d_comp_info d) \<le> length (comp_info (cinfo w))" 
    using l sm(1) initial_setup_ok(9) [OF c1] e(1) by (metis length_map nat_int nat_mono)
  have n: "nat (num_components (cinfo w)) = length (d_comp_info d)" using l f by (simp add: image_fields_def)
  have "map samp (d_comp_info d) = take (length (d_comp_info d)) (map samp (comp_info (cinfo w)))"
    using lc d(1) n by (intro nth_equalityI) (simp_all add: frame_learned_def samp_def)
  then have hv: "map samp (d_comp_info d) = take (nat (num_components (cinfo s))) (map samp (comp_info (cinfo s)))"
    unfolding l sm(1) e(1) initial_setup_ok(9) [OF c1] .
  have fr: "d_image_width d = image_width (cinfo s)" "d_image_height d = image_height (cinfo s)" "d_data_precision d = data_precision (cinfo s)"
    "d_num_components d = num_components (cinfo s)"
    using d(1) f by (simp_all add: frame_learned_def image_fields_def)
  have sl: "d_comps_in_scan d = comps_in_scan (cinfo w)" "d_progressive_mode d = progressive_mode (cinfo w)"
    "d_cur_comp_info d = map Some (scan_comps_of c2) @ replicate (4 - nat (comps_in_scan (cinfo w))) None"
    using d(1,2) sm(2) by (simp_all add: frame_learned_def scan_learned_def scan_indices_def scan_comps_of_def)
  obtain cs mh mv tr where i: "d_initial_setup d = Inr (d_comps_in_scan d < d_num_components d \<or> d_progressive_mode d,
      d\<lparr>d_max_h_samp_factor := mh, d_max_v_samp_factor := mv, min_DCT_scaled_size := DCTSIZE, d_comp_info := cs, d_total_iMCU_rows := tr\<rparr>)"
    and si: "same_image c1 (d\<lparr>d_max_h_samp_factor := mh, d_max_v_samp_factor := mv, min_DCT_scaled_size := DCTSIZE, d_comp_info := cs, d_total_iMCU_rows := tr\<rparr>)"
    and lcs: "length cs = length (d_comp_info d)"
    using initial_same [OF c1 fr l hv] by blast
  let ?d1 = "d\<lparr>d_max_h_samp_factor := mh, d_max_v_samp_factor := mv, min_DCT_scaled_size := DCTSIZE, d_comp_info := cs, d_total_iMCU_rows := tr\<rparr>"
  have si2: "same_image c2 ?d1" using si e by (simp add: same_image_def)
  have ix: "\<forall>i \<in> set (scan_comps_of c2). i < length (d_comp_info ?d1)"
    using idx lcs l initial_setup_ok(5) [OF c1] by simp
  have "comps_in_scan c2 = comps_in_scan (cinfo w)" using per_scan_fields [OF c2(2)] by simp
  then have "\<exists>d'. d_per_scan_setup ?d1 = Inr d' \<and> same_layout (cinfo w) d' \<and> length (d_comp_info d') = length (d_comp_info ?d1)"
    using d(3) sl by (intro per_scan_same [OF c2 si2 _ _ _ ix]) simp_all
  then show ?thesis using i sl fr(4) f by (auto simp: image_fields_def)
qed

text \<open>
  C17. The two sides lay out an image of at most 65500 by 65500 pixels in the same way. After the compressor's parameter checks and its
  set-up of any scan, a decompressor that knows the frame and scan headers of that scan passes its own
  checks and computes the same maximal sampling factors, block and sample dimensions, MCU grid, MCU
  composition and last-MCU sizes, and it expects further scans exactly if some component is not in this
  one or the file is progressive.
\<close>

theorem layout_agrees:
  assumes j: "jinit_c_master_control False s = Inr t" and a: "arrays_ok (cinfo s)" "length (MCU_membership (cinfo s)) = 10"
    and z: "sane_size (cinfo s)" and u: "cinfo u = cinfo t" "scan_number (master u) = int k" "k < nat (num_scans (cinfo t))"
    and v: "setup_scan u = Inr w"
    and d: "frame_learned (cinfo w) d" "scan_learned (cinfo w) d" "length (d_MCU_membership d) = 10"
  shows "\<exists>d1 d2. d_initial_setup d = Inr (comps_in_scan (cinfo w) < num_components (cinfo w) \<or> progressive_mode (cinfo w), d1) \<and>
     d_per_scan_setup d1 = Inr d2 \<and> same_layout (cinfo w) d2"
  by (rule layout_steps [OF assms])

section \<open>The colour space\<close>

text \<open>The colour space and the markers that go with it, as \<open>jpeg_set_colorspace\<close> leaves them.\<close>

definition colours_set :: "J_COLOR_SPACE \<Rightarrow> jpeg_compress_struct \<Rightarrow> bool" where
  "colours_set cs c \<longleftrightarrow> jpeg_color_space c = cs \<and> (
     cs = JCS_GRAYSCALE \<and> num_components c = 1 \<or>
     cs = JCS_RGB \<and> num_components c = 3 \<and> \<not> write_JFIF_header c \<and> write_Adobe_marker c \<or>
     cs = JCS_YCbCr \<and> num_components c = 3 \<and> write_JFIF_header c \<or>
     cs = JCS_CMYK \<and> num_components c = 4 \<and> write_Adobe_marker c \<or>
     cs = JCS_YCCK \<and> num_components c = 4 \<and> write_Adobe_marker c)"

lemma set_colorspace_sets:
  "jpeg_set_colorspace cs c0 = Inr c \<Longrightarrow> cs \<noteq> JCS_UNKNOWN \<Longrightarrow> colours_set cs c"
  by (cases cs) (auto simp: jpeg_set_colorspace_def colours_set_def SET_COMP_def result_simps Let_def)

lemma guess_colors_right:
  assumes "colours_set cs c" "file_learned c d" "d_num_components d = num_components c"
  shows "fst (guess_colors d) = cs"
proof -
  have f: "saw_JFIF_marker d = write_JFIF_header c" "saw_Adobe_marker d = write_Adobe_marker c"
    "write_Adobe_marker c \<Longrightarrow> Adobe_transform d = (case jpeg_color_space c of JCS_YCbCr \<Rightarrow> 1 | JCS_YCCK \<Rightarrow> 2 | _ \<Rightarrow> 0)"
    using assms(2) by (simp_all add: file_learned_def)
  show ?thesis
    using assms(1) unfolding colours_set_def
    by (elim conjE disjE) (simp_all add: guess_colors_def Let_def assms(3) f)
qed

section \<open>Reading the header of a file\<close>

lemma d_initial_form:
  assumes "d_initial_setup d = Inr (multi, d1)"
  obtains mh mv cs t where "d1 = d\<lparr>d_max_h_samp_factor := mh, d_max_v_samp_factor := mv, min_DCT_scaled_size := DCTSIZE,
    d_comp_info := cs, d_total_iMCU_rows := t\<rparr>"
  using assms by (auto simp: d_initial_setup_def Let_def split: if_splits sum.splits prod.splits)

text \<open>The default parameters, for guessed colour spaces, and the layout of the scan do not depend on each other.\<close>

definition with_defaults :: "J_COLOR_SPACE \<Rightarrow> J_COLOR_SPACE \<Rightarrow> jpeg_decompress_struct \<Rightarrow> jpeg_decompress_struct" where
  "with_defaults jcs out d = d\<lparr>d_jpeg_color_space := jcs, out_color_space := out, scale_num := 1, scale_denom := 1, buffered_image := False,
     raw_data_out := False, d_dct_method := JDCT_ISLOW, do_fancy_upsampling := True, do_block_smoothing := True,
     quantize_colors := False, dither_mode := JDITHER_FS, two_pass_quantize := True, desired_number_of_colors := 256,
     colormap := None, enable_1pass_quant := False, enable_external_quant := False, enable_2pass_quant := False,
     d_global_state := DSTATE_READY\<rparr>"

lemma defaults_eq: "(default_decompress_parms d)\<lparr>d_global_state := DSTATE_READY\<rparr> = with_defaults (fst (guess_colors d)) (snd (guess_colors d)) d"
  by (simp add: default_decompress_parms_def with_defaults_def split: prod.split)

lemma with_defaults_fields [simp]:
  "d_comps_in_scan (with_defaults x y d) = d_comps_in_scan d" "d_cur_comp_info (with_defaults x y d) = d_cur_comp_info d"
  "d_comp_info (with_defaults x y d) = d_comp_info d" "d_MCU_membership (with_defaults x y d) = d_MCU_membership d"
  "d_image_width (with_defaults x y d) = d_image_width d" "d_image_height (with_defaults x y d) = d_image_height d"
  "d_max_h_samp_factor (with_defaults x y d) = d_max_h_samp_factor d" "d_max_v_samp_factor (with_defaults x y d) = d_max_v_samp_factor d"
  "d_jpeg_color_space (with_defaults x y d) = x" "d_global_state (with_defaults x y d) = DSTATE_READY"
  "same_layout c (with_defaults x y d) = same_layout c d" "d_scan_indices (with_defaults x y d) = d_scan_indices d"
  by (simp_all add: with_defaults_def same_layout_def same_image_def d_scan_indices_def)

lemma per_scan_with_defaults:
  "d_per_scan_setup d = Inr d' \<Longrightarrow> d_per_scan_setup (with_defaults x y d) = Inr (with_defaults x y d')"
  unfolding d_per_scan_setup_def with_defaults_fields
  by (auto simp: result_simps Let_def with_defaults_def split: option.splits if_splits)

text \<open>An object that is ready for a new file: its source delivers the bytes, and it may hold tables of earlier files.\<close>

definition awaits_file :: "'e d_app \<Rightarrow> bool" where
  "awaits_file a \<longleftrightarrow> app_state a = DSTATE_START \<and> live (reader (core a)) \<and> length (d_MCU_membership (app_info a)) = 10 \<and>
     process_APPn (reader (core a)) ! 0 = Get_interesting_appn \<and> process_APPn (reader (core a)) ! 14 = Get_interesting_appn"

lemma awaiting_reader:
  assumes "awaits_file app" "in_sync ci (reader (core app))" "upcoming (reader (core app)) = bs"
  defines "q \<equiv> reader (set_state DSTATE_INHEADER (reset_input_controller (core app)))"
  shows "fresh_reader q" "live q" "upcoming q = bs" "in_sync ci q" "length (d_MCU_membership (dinfo q)) = 10"
proof -
  have q: "q = upd (\<lambda>d. d\<lparr>d_comp_info := [], input_scan_number := 0, coef_bits := None, d_global_state := DSTATE_INHEADER\<rparr>) (reader (core app))
      \<lparr>unread_marker := 0, saw_SOI := False, saw_SOF := False, discarded_bytes := 0, cur_marker := None\<rparr>"
    by (simp add: q_def set_state_def set_info_def reset_input_controller_def reset_marker_reader_def upd_def)
  show "in_sync ci q" using assms(2) by (subst in_sync_cong [of q "reader (core app)"]) (simp_all add: q upd_def)
  show "fresh_reader q" "live q" "upcoming q = bs" "length (d_MCU_membership (dinfo q)) = 10"
    using assms(1,3) by (simp_all add: q awaits_file_def fresh_reader_def upd_def live_def upcoming_def)
qed

text \<open>
  C16. Opening a file. The compressor has checked its parameters and set up the first scan, and has written the
  headers into the memory destination. A decompressor that gets these bytes, cut into buffers in any way,
  returns from \<open>jpeg_read_header\<close> with JPEG_HEADER_OK and in the ready state, has consumed exactly the
  headers, has found the colour space the file was written in, if that is not JCS_UNKNOWN (a file of unknown
  colour space with three components is taken for YCbCr), has set \<open>has_multiple_scans\<close> exactly when the scan does not
  have all components of the image or the file is progressive, and lays out the image and the scan as the
  compressor did. The image has at most 65500 by 65500 pixels.
\<close>

theorem read_header_roundtrip:
  assumes j: "jinit_c_master_control False s = Inr t" and a: "arrays_ok (cinfo s)" "length (MCU_membership (cinfo s)) = 10"
    and z: "sane_size (cinfo s)" and u: "cinfo u = cinfo t" "scan_number (master u) = int k" "k < nat (num_scans (cinfo t))"
    and v: "setup_scan u = Inr v'"
    and w: "mem_ok malloc al lo (wr_dest w)" "0 < free_in_buffer (wr_dest w)" "next_output_byte (wr_dest w) = 0"
      "write_headers (empty_mem_output_buffer malloc) (cinfo v') w = Inr w'"
    and ok: "tables_ok (cinfo v')" "frame_ok (cinfo v')" "scan_ok (cinfo v')"
    and c: "jpeg_set_colorspace cs c0 = Inr cc" "cs \<noteq> JCS_UNKNOWN" "num_components cc = num_components (cinfo v')"
      "jpeg_color_space (wr_cinfo w) = cs" "write_JFIF_header (wr_cinfo w) = write_JFIF_header cc" "write_Adobe_marker (wr_cinfo w) = write_Adobe_marker cc"
      "num_components (wr_cinfo w) = num_components cc"
    and r: "awaits_file app" "in_sync (cinfo v') (reader (core app))" "upcoming (reader (core app)) = pending (wr_dest w') @ rest"
  shows "\<exists>app' d2. jpeg_read_header m require_image app = Inr (JPEG_HEADER_OK, app') \<and> app_state app' = DSTATE_READY \<and>
     upcoming (reader (core app')) = rest \<and> d_jpeg_color_space (app_info app') = cs \<and>
     has_multiple_scans (core app') = (comps_in_scan (cinfo v') < num_components (cinfo v') \<or> progressive_mode (cinfo v')) \<and>
     d_per_scan_setup (app_info app') = Inr d2 \<and> same_layout (cinfo v') d2"
proof -
  let ?a = "app\<lparr>core := set_state DSTATE_INHEADER (reset_input_controller (core app)), d_calls := d_calls app @ [init_source]\<rparr>"
  let ?r = "reader (set_state DSTATE_INHEADER (reset_input_controller (core app)))"
  note s = awaiting_reader [OF r]
  from headers_read [OF w(1-4) ok s(4,1,2,3)] obtain q where q: "read_markers ?r = Inr (JPEG_REACHED_SOS, q)" "upcoming q = rest"
    "file_learned (wr_cinfo w) (dinfo q)" "headers_learned (cinfo v') (dinfo q)" by blast
  have "length (d_MCU_membership (dinfo q)) = 10" using app_fields_read [OF q(1)] s(5) by (simp add: app_fields_def)
  with layout_steps [OF j a z u v, of "dinfo q"] q(4) obtain d1 d2 where
    d: "d_initial_setup (dinfo q) = Inr (comps_in_scan (cinfo v') < num_components (cinfo v') \<or> progressive_mode (cinfo v'), d1)"
      "d_per_scan_setup d1 = Inr d2" "same_layout (cinfo v') d2"
    by (auto simp: headers_learned_def)
  obtain mh mv cis tr where d1: "d1 = (dinfo q)\<lparr>d_max_h_samp_factor := mh, d_max_v_samp_factor := mv, min_DCT_scaled_size := DCTSIZE,
    d_comp_info := cis, d_total_iMCU_rows := tr\<rparr>" by (rule d_initial_form [OF d(1)])
  have "colours_set cs (wr_cinfo w)" using set_colorspace_sets [OF c(1,2)] c(4-7) by (simp add: colours_set_def)
  moreover have "file_learned (wr_cinfo w) d1" "d_num_components d1 = num_components (wr_cinfo w)"
    using q(3,4) c(3,7) by (simp_all add: d1 file_learned_def headers_learned_def frame_learned_def)
  ultimately have g: "fst (guess_colors d1) = cs" by (rule guess_colors_right)
  let ?multi = "comps_in_scan (cinfo v') < num_components (cinfo v') \<or> progressive_mode (cinfo v')"
  have "consume m (core ?a) = Inr (JPEG_REACHED_SOS, (set_info (\<lambda>_. d1) ((core ?a)\<lparr>reader := q\<rparr>))\<lparr>has_multiple_scans := ?multi, inheaders := False\<rparr>)"
    using q(1) d(1) by (simp add: consume_def consume_markers_def set_state_def reset_input_controller_def Let_def)
  then have "jpeg_read_header m require_image app = Inr (JPEG_HEADER_OK, ?a\<lparr>core := set_info (\<lambda>d. (default_decompress_parms d)\<lparr>d_global_state := DSTATE_READY\<rparr>)
      ((set_info (\<lambda>_. d1) ((core ?a)\<lparr>reader := q\<rparr>))\<lparr>has_multiple_scans := ?multi, inheaders := False\<rparr>)\<rparr>)"
    using r(1) by (simp add: jpeg_read_header_def jpeg_consume_input_def awaits_file_def header_step_def Let_def set_app_def)
  moreover have "d_per_scan_setup (with_defaults (fst (guess_colors d1)) (snd (guess_colors d1)) d1) =
      Inr (with_defaults (fst (guess_colors d1)) (snd (guess_colors d1)) d2)" by (rule per_scan_with_defaults [OF d(2)])
  ultimately show ?thesis
    using q(2) g d(3) by (auto simp: defaults_eq set_info_def)
qed

section \<open>Two files\<close>

text \<open>What the headers of that image tell.\<close>

definition told :: "jpeg_compress_struct \<Rightarrow> jpeg_decompress_struct" where
  "told c = zero_decompress\<lparr>d_image_width := image_width c, d_image_height := image_height c, d_data_precision := data_precision c,
     d_progressive_mode := progressive_mode c, d_arith_code := arith_code c, d_num_components := num_components c,
     d_comp_info := map (\<lambda>i. (comp_info c ! i)\<lparr>component_index := int i\<rparr>) [0..<nat (num_components c)],
     d_comps_in_scan := comps_in_scan c, d_cur_comp_info := map Some (scan_indices c) @ replicate (4 - nat (comps_in_scan c)) None,
     d_Ss := Ss c, d_Se := Se c, d_Ah := Ah c, d_Al := Al c, d_restart_interval := restart_interval c\<rparr>"

theorem layout_agrees_witness:
  "\<exists>d1 d2. d_initial_setup (told (cinfo colour_scan)) = Inr (False, d1) \<and> d_per_scan_setup d1 = Inr d2 \<and> same_layout (cinfo colour_scan) d2"
proof -
  have l: "frame_learned (cinfo colour_scan) (told (cinfo colour_scan))" "scan_learned (cinfo colour_scan) (told (cinfo colour_scan))"
    "length (d_MCU_membership (told (cinfo colour_scan))) = 10" by code_simp+
  have "\<not> (comps_in_scan (cinfo colour_scan) < num_components (cinfo colour_scan) \<or> progressive_mode (cinfo colour_scan))" by code_simp
  then show ?thesis
    using layout_agrees [OF colour_steps(1,3-5) refl colour_steps(6,7,2) l] by simp
qed

text \<open>A grey image, compressed from its parameters on.\<close>

definition job_start :: compressor where
  "job_start = grey_start\<lparr>cinfo := grey_ci\<lparr>input_components := 1\<rparr>\<rparr>"

definition job_checked :: compressor where
  "job_checked = projr (jinit_c_master_control False job_start)"

definition job_scan :: compressor where
  "job_scan = projr (setup_scan job_checked)"

definition job_w' :: "my_mem_destination_mgr marker_writer" where
  "job_w' = projr (write_headers (empty_mem_output_buffer (\<lambda>n. Some (replicate n 0))) (cinfo job_scan) grey_w)"

lemma job_steps:
  "jinit_c_master_control False job_start = Inr job_checked" "setup_scan job_checked = Inr job_scan"
  "arrays_ok (cinfo job_start)" "length (MCU_membership (cinfo job_start)) = 10" "sane_size (cinfo job_start)"
  "scan_number (master job_checked) = int 0" "0 < nat (num_scans (cinfo job_checked))"
  "write_headers (empty_mem_output_buffer (\<lambda>n. Some (replicate n 0))) (cinfo job_scan) grey_w = Inr job_w'"
proof -
  have "\<not> isl (jinit_c_master_control False job_start)" by code_simp
  then show "jinit_c_master_control False job_start = Inr job_checked" by (simp add: job_checked_def)
  have "\<not> isl (setup_scan job_checked)" by code_simp
  then show "setup_scan job_checked = Inr job_scan" by (simp add: job_scan_def)
  show "arrays_ok (cinfo job_start)" "length (MCU_membership (cinfo job_start)) = 10" "sane_size (cinfo job_start)"
    by (simp_all add: arrays_ok_def job_start_def grey_start_def grey_ci_def zero_struct_def sane_size_def)
  show "scan_number (master job_checked) = int 0" "0 < nat (num_scans (cinfo job_checked))" by code_simp+
  have "\<not> isl (write_headers (empty_mem_output_buffer (\<lambda>n. Some (replicate n 0))) (cinfo job_scan) grey_w)" by code_simp
  then show "write_headers (empty_mem_output_buffer (\<lambda>n. Some (replicate n 0))) (cinfo job_scan) grey_w = Inr job_w'" by (simp add: job_w'_def)
qed

lemma job_tables: "quant_tbl_ptrs (cinfo job_scan) = quant_tbl_ptrs grey_ci" "dc_huff_tbl_ptrs (cinfo job_scan) = dc_huff_tbl_ptrs grey_ci"
  "ac_huff_tbl_ptrs (cinfo job_scan) = ac_huff_tbl_ptrs grey_ci"
  by code_simp+

lemma job_ok: "tables_ok (cinfo job_scan)" "frame_ok (cinfo job_scan)" "scan_ok (cinfo job_scan)"
proof -
  show "tables_ok (cinfo job_scan)" using grey_ok(1) job_tables by (simp add: tables_ok_def)
  show "frame_ok (cinfo job_scan)" "scan_ok (cinfo job_scan)" by code_simp+
qed

lemma job_unsent: "\<not> quant_sent k (cinfo job_scan)" "\<not> huff_sent ac k (cinfo job_scan)"
  by (rule unsent [OF job_ok(1)]; simp only: job_tables; simp add: grey_ci_def)+

text \<open>A decompression object on a source with the bytes of the file.\<close>

definition job_app :: "'e \<Rightarrow> 'e d_app" where
  "job_app e = \<lparr>core = \<lparr>reader = upd (\<lambda>d. d\<lparr>d_global_state := DSTATE_START\<rparr>) (idle_decompressor (pending (wr_dest job_w') @ [0x55]) []), consume_input = Consume_markers,
      has_multiple_scans = False, eoi_reached = False, inheaders = True, MCU_ctr = 0, MCU_vert_offset = 0, MCU_rows_per_iMCU_row = 0,
      coef_arrays = None, entropy = e\<rparr>, d_mem = True, is_dummy_pass = False, d_pass_number = 0, using_merged_upsample = False,
     quantizer_1pass = None, quantizer_2pass = None, cquantize = None, d_calls = []\<rparr>"

theorem read_header_roundtrip_witness:
  "\<forall>m e. \<exists>app'. jpeg_read_header m True (job_app e) = Inr (JPEG_HEADER_OK, app') \<and> d_jpeg_color_space (app_info app') = JCS_GRAYSCALE \<and>
     upcoming (reader (core app')) = [0x55]"
proof (intro allI)
  fix m :: "'e entropy_decoder" and e :: 'e
  have w: "mem_ok (\<lambda>n. Some (replicate n 0)) True 240 (wr_dest grey_w)" "0 < free_in_buffer (wr_dest grey_w)" "next_output_byte (wr_dest grey_w) = 0"
    by (simp_all add: mem_ok_def grey_w_def)
  have "global_state ((cinfo grey_start)\<lparr>comp_info := replicate 10 grey_comp\<rparr>) = CSTATE_START" by (simp add: grey_start_def)
  then have c: "jpeg_set_colorspace JCS_GRAYSCALE ((cinfo grey_start)\<lparr>comp_info := replicate 10 grey_comp\<rparr>) =
      Inr (projr (jpeg_set_colorspace JCS_GRAYSCALE ((cinfo grey_start)\<lparr>comp_info := replicate 10 grey_comp\<rparr>)))" (is "_ = Inr ?cc")
    by (simp add: jpeg_set_colorspace_def require_state_def)
  have f: "num_components ?cc = num_components (cinfo job_scan)" "jpeg_color_space (wr_cinfo grey_w) = JCS_GRAYSCALE"
    "write_JFIF_header (wr_cinfo grey_w) = write_JFIF_header ?cc" "write_Adobe_marker (wr_cinfo grey_w) = write_Adobe_marker ?cc"
    "num_components (wr_cinfo grey_w) = num_components ?cc" by code_simp+
  have r: "awaits_file (job_app e)" "in_sync (cinfo job_scan) (reader (core (job_app e)))"
    "upcoming (reader (core (job_app e))) = pending (wr_dest job_w') @ [0x55]"
    using job_unsent
    by (simp_all add: in_sync_def quants_ok_def)
      (simp_all add: awaits_file_def job_app_def idle_decompressor_def zero_decompress_def live_def upcoming_def upd_def)
  from read_header_roundtrip [OF job_steps(1,3-5) refl job_steps(6,7,2) w job_steps(8) job_ok c _ f r, of m True]
  show "\<exists>app'. jpeg_read_header m True (job_app e) = Inr (JPEG_HEADER_OK, app') \<and> d_jpeg_color_space (app_info app') = JCS_GRAYSCALE \<and>
     upcoming (reader (core app')) = [0x55]" by auto
qed

end
