(* ===== verification/Jfdct.thy ===== *)
theory Jfdct imports Jutils begin

text \<open>
  \<open>jfdctint.c\<close>: the accurate integer forward DCT. Its 32-bit arithmetic is modelled on integers, with the
  list of all intermediate results: where one of them does not fit \<open>INT32\<close>, the result is undefined, \<open>None\<close>.
  A block is the list of its 64 values, row by row; \<open>DCTELEM\<close> is a 16-bit \<open>short\<close> in a build with SIMD support.
\<close>

section \<open>Fixed-point arithmetic\<close>

definition DESCALE :: "int \<Rightarrow> nat \<Rightarrow> int" where
  "DESCALE x n = drop_bit n (x + 2 ^ (n - 1))"

definition fits_INT32 :: "int \<Rightarrow> bool" where
  "fits_INT32 x \<longleftrightarrow> - (2 ^ 31) \<le> x \<and> x < 2 ^ 31"

text \<open>Conversion to \<open>short\<close>.\<close>

definition to_short :: "int \<Rightarrow> int" where
  "to_short x = signed_take_bit 15 x"

text \<open>All results of a list of computations that may be undefined.\<close>

fun all_some :: "'a option list \<Rightarrow> 'a list option" where
  "all_some [] = Some []"
| "all_some (None # xs) = None"
| "all_some (Some x # xs) = map_option (Cons x) (all_some xs)"

lemma all_some_map: "(\<And>x. x \<in> set xs \<Longrightarrow> f x = Some (g x)) \<Longrightarrow> all_some (map f xs) = Some (map g xs)"
  by (induction xs) auto

lemma to_short_id: "- 32768 \<le> x \<Longrightarrow> x < 32768 \<Longrightarrow> to_short x = x"
  by (simp add: to_short_def signed_take_bit_int_eq_self)

lemma DESCALE_div: "DESCALE x n = (x + 2 ^ (n - 1)) div 2 ^ n"
  by (simp add: DESCALE_def drop_bit_eq_div)

lemma DESCALE_range:
  assumes "- (b * 2 ^ n) \<le> x" "x \<le> b * 2 ^ n" "0 < n"
  shows "- b \<le> DESCALE x n" "DESCALE x n \<le> b"
proof -
  have p: "(2 :: int) ^ n = 2 * 2 ^ (n - 1)" using assms(3) by (cases n) simp_all
  have "- b * 2 ^ n \<le> x + 2 ^ (n - 1)" using assms(1) by (simp add: add_increasing2)
  then have "(- b * 2 ^ n) div 2 ^ n \<le> DESCALE x n" unfolding DESCALE_div by (rule zdiv_mono1) simp
  moreover have "(- b * 2 ^ n) div 2 ^ n = - b" by (rule nonzero_mult_div_cancel_right) simp
  ultimately show "- b \<le> DESCALE x n" by simp
  have "0 < (2 :: int) ^ (n - 1)" by simp
  moreover have "(b + 1) * 2 ^ n = b * 2 ^ n + 2 * 2 ^ (n - 1)" unfolding distrib_right by (simp add: p)
  ultimately have "x + 2 ^ (n - 1) < (b + 1) * 2 ^ n" using assms(2) by linarith
  moreover have "DESCALE x n * 2 ^ n \<le> x + 2 ^ (n - 1)"
    unfolding DESCALE_div by (metis div_mult_mod_eq le_add_same_cancel1 pos_mod_sign zero_less_numeral zero_less_power)
  ultimately have "DESCALE x n * 2 ^ n < (b + 1) * 2 ^ n" by linarith
  then have "DESCALE x n < b + 1" by (rule mult_right_less_imp_less) simp
  then show "DESCALE x n \<le> b" by simp
qed

section \<open>The transform\<close>

definition CONST_BITS :: nat where "CONST_BITS = 13"
definition PASS1_BITS :: nat where "PASS1_BITS = 2"

definition FIX_0_298631336 :: int where "FIX_0_298631336 = 2446"
definition FIX_0_390180644 :: int where "FIX_0_390180644 = 3196"
definition FIX_0_541196100 :: int where "FIX_0_541196100 = 4433"
definition FIX_0_765366865 :: int where "FIX_0_765366865 = 6270"
definition FIX_0_899976223 :: int where "FIX_0_899976223 = 7373"
definition FIX_1_175875602 :: int where "FIX_1_175875602 = 9633"
definition FIX_1_501321110 :: int where "FIX_1_501321110 = 12299"
definition FIX_1_847759065 :: int where "FIX_1_847759065 = 15137"
definition FIX_1_961570560 :: int where "FIX_1_961570560 = 16069"
definition FIX_2_053119869 :: int where "FIX_2_053119869 = 16819"
definition FIX_2_562915447 :: int where "FIX_2_562915447 = 20995"
definition FIX_3_072711026 :: int where "FIX_3_072711026 = 25172"

lemmas fix_defs = CONST_BITS_def PASS1_BITS_def FIX_0_298631336_def FIX_0_390180644_def FIX_0_541196100_def FIX_0_765366865_def
  FIX_0_899976223_def FIX_1_175875602_def FIX_1_501321110_def FIX_1_847759065_def FIX_1_961570560_def FIX_2_053119869_def
  FIX_2_562915447_def FIX_3_072711026_def

text \<open>
  One row or column: the results at their indices, before the conversion to \<open>DCTELEM\<close>, and the intermediate
  values. The two passes differ in how they scale results 0 and 4 and in the shift \<open>n\<close> of the others.
\<close>

definition fdct_1d :: "(int \<Rightarrow> int) \<Rightarrow> nat \<Rightarrow> int list \<Rightarrow> int list \<times> int list" where
  "fdct_1d scale n d =
     (let tmp0 = d ! 0 + d ! 7; tmp7 = d ! 0 - d ! 7;
          tmp1 = d ! 1 + d ! 6; tmp6 = d ! 1 - d ! 6;
          tmp2 = d ! 2 + d ! 5; tmp5 = d ! 2 - d ! 5;
          tmp3 = d ! 3 + d ! 4; tmp4 = d ! 3 - d ! 4;
          tmp10 = tmp0 + tmp3; tmp13 = tmp0 - tmp3;
          tmp11 = tmp1 + tmp2; tmp12 = tmp1 - tmp2;
          e = (tmp12 + tmp13) * FIX_0_541196100;
          e2 = e + tmp13 * FIX_0_765366865;
          e6 = e + tmp12 * - FIX_1_847759065;
          s1 = tmp4 + tmp7; s2 = tmp5 + tmp6; s3 = tmp4 + tmp6; s4 = tmp5 + tmp7;
          z5 = (s3 + s4) * FIX_1_175875602;
          m4 = tmp4 * FIX_0_298631336; m5 = tmp5 * FIX_2_053119869;
          m6 = tmp6 * FIX_3_072711026; m7 = tmp7 * FIX_1_501321110;
          z1 = s1 * - FIX_0_899976223; z2 = s2 * - FIX_2_562915447;
          p3 = s3 * - FIX_1_961570560; p4 = s4 * - FIX_0_390180644;
          z3 = p3 + z5; z4 = p4 + z5;
          o7 = m4 + z1 + z3; o5 = m5 + z2 + z4; o3 = m6 + z2 + z3; o1 = m7 + z1 + z4;
          r = 2 ^ (n - 1)
      in ([scale (tmp10 + tmp11), DESCALE o1 n, DESCALE e2 n, DESCALE o3 n, scale (tmp10 - tmp11), DESCALE o5 n, DESCALE e6 n, DESCALE o7 n],
          [tmp0, tmp7, tmp1, tmp6, tmp2, tmp5, tmp3, tmp4, tmp10, tmp13, tmp11, tmp12, (tmp10 + tmp11) * 4, (tmp10 - tmp11) * 4, tmp12 + tmp13,
           e, tmp13 * FIX_0_765366865, e2, tmp12 * - FIX_1_847759065, e6, s1, s2, s3, s4, s3 + s4, z5, m4, m5, m6, m7, z1, z2, p3, p4, z3, z4,
           m4 + z1, m5 + z2, m6 + z2, m7 + z1, o7, o5, o3, o1, e2 + r, e6 + r, o7 + r, o5 + r, o3 + r, o1 + r]))"

definition row_of :: "int list \<Rightarrow> nat \<Rightarrow> int list" where
  "row_of d r = map (\<lambda>c. d ! (8 * r + c)) [0..<8]"

definition col_of :: "int list \<Rightarrow> nat \<Rightarrow> int list" where
  "col_of d c = map (\<lambda>r. d ! (8 * r + c)) [0..<8]"

definition fdct_rows :: "int list \<Rightarrow> (int list \<times> int list) list" where
  "fdct_rows d = map (\<lambda>r. fdct_1d (\<lambda>x. x * 2 ^ PASS1_BITS) (CONST_BITS - PASS1_BITS) (row_of d r)) [0..<8]"

definition fdct_cols :: "int list \<Rightarrow> (int list \<times> int list) list" where
  "fdct_cols d = map (\<lambda>c. fdct_1d (\<lambda>x. DESCALE x PASS1_BITS) (CONST_BITS + PASS1_BITS) (col_of d c)) [0..<8]"

definition jpeg_fdct_islow :: "int list \<Rightarrow> int list option" where
  "jpeg_fdct_islow data =
     (let rows = fdct_rows data; data = concat (map (map to_short \<circ> fst) rows);
          cols = fdct_cols data
      in if list_all (list_all fits_INT32 \<circ> snd) rows \<and> list_all (list_all fits_INT32 \<circ> snd) cols
         then Some (concat (map (\<lambda>r. map (\<lambda>c. to_short (fst (cols ! c) ! r)) [0..<8]) [0..<8])) else None)"

section \<open>No overflow\<close>

definition bounded_by :: "int \<Rightarrow> int \<Rightarrow> bool" where
  "bounded_by b x \<longleftrightarrow> - b \<le> x \<and> x \<le> b"

lemma fdct_1d_fits:
  assumes "length d = 8" "list_all (bounded_by 4100) d" "n = 11 \<or> n = 15"
  shows "list_all fits_INT32 (snd (fdct_1d scale n d))"
proof -
  obtain d0 d1 d2 d3 d4 d5 d6 d7 where d: "d = [d0, d1, d2, d3, d4, d5, d6, d7]"
    using assms(1) by (auto simp: eval_nat_numeral length_Suc_conv)
  show ?thesis
    using assms(2,3) unfolding d fdct_1d_def Let_def fits_INT32_def bounded_by_def fix_defs
    by (elim disjE) (simp; intro conjI; linarith)+
qed

lemma fdct_first_pass:
  assumes "length d = 8" "list_all (bounded_by 128) d"
  shows "list_all (bounded_by 4100) (fst (fdct_1d (\<lambda>x. x * 2 ^ PASS1_BITS) (CONST_BITS - PASS1_BITS) d))"
proof -
  obtain d0 d1 d2 d3 d4 d5 d6 d7 where d: "d = [d0, d1, d2, d3, d4, d5, d6, d7]"
    using assms(1) by (auto simp: eval_nat_numeral length_Suc_conv)
  show ?thesis
    using assms(2) unfolding d fdct_1d_def Let_def bounded_by_def fix_defs
    by simp (intro conjI DESCALE_range [where b = 4100]; simp; linarith)
qed

lemma fdct_second_pass:
  assumes "length d = 8" "list_all (bounded_by 4100) d"
  shows "list_all (bounded_by 8200) (fst (fdct_1d (\<lambda>x. DESCALE x PASS1_BITS) (CONST_BITS + PASS1_BITS) d))"
proof -
  obtain d0 d1 d2 d3 d4 d5 d6 d7 where d: "d = [d0, d1, d2, d3, d4, d5, d6, d7]"
    using assms(1) by (auto simp: eval_nat_numeral length_Suc_conv)
  show ?thesis
    using assms(2) unfolding d fdct_1d_def Let_def bounded_by_def fix_defs
    by simp (intro conjI DESCALE_range [where b = 8200]; simp; linarith)
qed


text \<open>Both passes of a block of samples.\<close>

definition fdct_pass1 :: "int list \<Rightarrow> int list" where
  "fdct_pass1 data = concat (map (map to_short \<circ> fst) (fdct_rows data))"

lemma length_fdct_1d [simp]: "length (fst (fdct_1d s n d)) = 8"
  by (simp add: fdct_1d_def Let_def)

lemma to_short_within: "list_all (bounded_by b) xs \<Longrightarrow> b < 32768 \<Longrightarrow> map to_short xs = xs"
  by (induction xs) (auto simp: bounded_by_def to_short_id)

lemma concat_eights: "(\<And>r. r < n \<Longrightarrow> length (f r) = 8) \<Longrightarrow> length (concat (map f [0..<n])) = 8 * n"
  by (induction n) simp_all

lemma concat_eights_nth:
  assumes "\<And>r. r < n \<Longrightarrow> length (f r) = 8" "r < n" "c < 8"
  shows "concat (map f [0..<n]) ! (8 * r + c) = f r ! c"
  using assms
proof (induction n)
  case (Suc n)
  then have l: "length (concat (map f [0..<n])) = 8 * n" by (intro concat_eights) simp
  show ?case
  proof (cases "r = n")
    case True
    then show ?thesis using l by (simp add: nth_append)
  next
    case False
    then have "8 * r + c < 8 * n" using Suc.prems(2,3) by simp
    then show ?thesis using Suc False l by (simp add: nth_append)
  qed
qed simp

lemma within_row_of: "list_all (bounded_by b) d \<Longrightarrow> length d = 64 \<Longrightarrow> r < 8 \<Longrightarrow> list_all (bounded_by b) (row_of d r)"
  and within_col_of: "list_all (bounded_by b) d \<Longrightarrow> length d = 64 \<Longrightarrow> r < 8 \<Longrightarrow> list_all (bounded_by b) (col_of d r)"
  by (auto simp: row_of_def col_of_def list_all_length)

lemma length_row_of [simp]: "length (row_of d r) = 8" and length_col_of [simp]: "length (col_of d r) = 8"
  by (simp_all add: row_of_def col_of_def)

lemma fdct_pass1_facts:
  assumes "length d = 64" "list_all (bounded_by 128) d"
  shows "length (fdct_pass1 d) = 64" "list_all (bounded_by 4100) (fdct_pass1 d)"
    "\<And>r c. r < 8 \<Longrightarrow> c < 8 \<Longrightarrow> fdct_pass1 d ! (8 * r + c) = fst (fdct_1d (\<lambda>x. x * 2 ^ PASS1_BITS) (CONST_BITS - PASS1_BITS) (row_of d r)) ! c"
proof -
  let ?f = "\<lambda>r. fst (fdct_1d (\<lambda>x. x * 2 ^ PASS1_BITS) (CONST_BITS - PASS1_BITS) (row_of d r))"
  have b: "list_all (bounded_by 4100) (?f r)" if "r < 8" for r
    using fdct_first_pass within_row_of [OF assms(2,1) that] order.strict_trans1 by (simp add: list.pred_mono_strong)
  have e: "fdct_pass1 d = concat (map ?f [0..<8])"
    using to_short_within [OF b] by (auto simp: fdct_pass1_def fdct_rows_def intro!: arg_cong [where f = concat])
  show "length (fdct_pass1 d) = 64" unfolding e by (subst concat_eights) simp_all
  show "fdct_pass1 d ! (8 * r + c) = ?f r ! c" if "r < 8" "c < 8" for r c
    unfolding e by (rule concat_eights_nth) (simp_all add: that)
  show "list_all (bounded_by 4100) (fdct_pass1 d)" unfolding e using b by (auto simp: list_all_iff)
qed

lemma fdct_islow_ok:
  assumes "length d = 64" "list_all (bounded_by 128) d"
  obtains out where "jpeg_fdct_islow d = Some out" "length out = 64" "list_all (bounded_by 8200) out"
    "\<And>r c. r < 8 \<Longrightarrow> c < 8 \<Longrightarrow> out ! (8 * r + c) = fst (fdct_1d (\<lambda>x. DESCALE x PASS1_BITS) (CONST_BITS + PASS1_BITS) (col_of (fdct_pass1 d) c)) ! r"
proof -
  let ?p = "fdct_pass1 d" and ?g = "\<lambda>c. fst (fdct_1d (\<lambda>x. DESCALE x PASS1_BITS) (CONST_BITS + PASS1_BITS) (col_of (fdct_pass1 d) c))"
  note p = fdct_pass1_facts [OF assms]
  have b: "list_all (bounded_by 8200) (?g c)" if "c < 8" for c by (rule fdct_second_pass) (simp_all add: within_col_of p that)
  have s: "to_short (?g c ! r) = ?g c ! r" if "r < 8" "c < 8" for r c
  proof -
    have "bounded_by 8200 (?g c ! r)" using b [OF that(2)] that(1) by (simp add: list_all_length)
    then show ?thesis by (simp add: bounded_by_def to_short_id)
  qed
  have "list_all (list_all fits_INT32 \<circ> snd) (fdct_cols ?p)"
    using fdct_1d_fits [OF length_col_of within_col_of [OF p(2,1)]] by (simp add: fdct_cols_def list_all_length fix_defs)
  moreover have "list_all (bounded_by 4100) (row_of d r)" if "r < 8" for r
    using within_row_of [OF assms(2,1) that] by (rule list.pred_mono_strong) (simp add: bounded_by_def)
  then have "list_all (list_all fits_INT32 \<circ> snd) (fdct_rows d)"
    using fdct_1d_fits [OF length_row_of] by (simp add: fdct_rows_def list_all_length fix_defs)
  ultimately have f: "list_all (list_all fits_INT32 \<circ> snd) (fdct_rows d)" "list_all (list_all fits_INT32 \<circ> snd) (fdct_cols ?p)" by simp_all
  let ?out = "concat (map (\<lambda>r. map (\<lambda>c. ?g c ! r) [0..<8]) [0..<8])"
  have "jpeg_fdct_islow d = Some (concat (map (\<lambda>r. map (\<lambda>c. to_short (fst (fdct_cols ?p ! c) ! r)) [0..<8]) [0..<8]))"
    using f by (simp add: jpeg_fdct_islow_def fdct_pass1_def Let_def)
  also have "\<dots> = Some ?out" using s by (auto simp: fdct_cols_def intro!: arg_cong [where f = concat] map_cong)
  finally have o: "jpeg_fdct_islow d = Some ?out" .
  have "length ?out = 64" by (subst concat_eights) simp_all
  moreover have "?out ! (8 * r + c) = ?g c ! r" if "r < 8" "c < 8" for r c by (subst concat_eights_nth) (simp_all add: that)
  moreover have "list_all (bounded_by 8200) ?out" using b by (auto simp: list_all_length [of "bounded_by 8200" "?g _"]) (auto simp: list_all_iff)
  ultimately show ?thesis using o that by blast
qed


lemma sum_list_concat: "sum_list (concat xss) = sum_list (map sum_list xss)" for xss :: "int list list"
  by (induction xss) simp_all

lemma rows_of_block:
  assumes "length d = 64"
  shows "concat (map (row_of d) [0..<8]) = d"
proof (rule nth_equalityI)
  fix i assume "i < length (concat (map (row_of d) [0..<8]))"
  then have i: "i < 64" using concat_eights [of 8 "row_of d"] by simp
  have "concat (map (row_of d) [0..<8]) ! (8 * (i div 8) + i mod 8) = row_of d (i div 8) ! (i mod 8)"
    using i by (intro concat_eights_nth) (simp_all add: less_mult_imp_div_less)
  then show "concat (map (row_of d) [0..<8]) ! i = d ! i" by (simp add: row_of_def)
qed (use assms concat_eights [of 8 "row_of d"] in simp)

lemma fdct_DC:
  assumes "length d = 64" "list_all (bounded_by 128) d" "jpeg_fdct_islow d = Some out"
  shows "out ! 0 = sum_list d"
proof -
  from fdct_islow_ok [OF assms(1,2)] assms(3) have "out ! (8 * 0 + 0) = fst (fdct_1d (\<lambda>x. DESCALE x PASS1_BITS) (CONST_BITS + PASS1_BITS) (col_of (fdct_pass1 d) 0)) ! 0"
    by (metis option.inject zero_less_numeral)
  also have "\<dots> = DESCALE (sum_list (col_of (fdct_pass1 d) 0)) 2"
    by (simp add: fdct_1d_def Let_def fix_defs col_of_def upt_rec add.assoc add.commute add.left_commute)
  also have "col_of (fdct_pass1 d) 0 = map (\<lambda>r. 4 * sum_list (row_of d r)) [0..<8]"
  proof -
    have "fdct_pass1 d ! (8 * r + 0) = 4 * sum_list (row_of d r)" if "r < 8" for r
      using fdct_pass1_facts(3) [OF assms(1,2) that, of 0]
      by (simp add: fdct_1d_def Let_def fix_defs row_of_def upt_rec algebra_simps)
    then show ?thesis by (simp add: col_of_def)
  qed
  also have "sum_list (map (\<lambda>r. 4 * sum_list (row_of d r)) [0..<8]) = 4 * sum_list (map (\<lambda>r. sum_list (row_of d r)) [0..<8])"
    by (rule sum_list_const_mult)
  also have "sum_list (map (\<lambda>r. sum_list (row_of d r)) [0..<8]) = sum_list d"
  proof -
    have "sum_list d = sum_list (concat (map (row_of d) [0..<8]))" by (simp add: rows_of_block [OF assms(1)])
    also have "\<dots> = sum_list (map (sum_list \<circ> row_of d) [0..<8])" by (simp add: sum_list_concat)
    finally show ?thesis by (simp add: comp_def)
  qed
  finally show ?thesis by (simp add: DESCALE_div)
qed

end
