(* ===== verification/DctAccuracy.thy ===== *)
theory DctAccuracy imports Jfdct Complex_Main begin

text \<open>
  How close the integer forward DCT of \<open>jfdctint.c\<close> is to the discrete cosine transform itself, on real numbers.
\<close>

section \<open>The transform\<close>

definition dct_basis :: "nat \<Rightarrow> nat \<Rightarrow> real" where
  "dct_basis k x = (if k = 0 then 1 else sqrt 2 * cos (real ((2 * x + 1) * k) * pi / 16))"

text \<open>Coefficient \<open>v\<close> (vertical), \<open>u\<close> (horizontal) of the 8 by 8 DCT that JPEG prescribes.\<close>

definition dct_coefficient :: "int list \<Rightarrow> nat \<Rightarrow> nat \<Rightarrow> real" where
  "dct_coefficient d v u = (\<Sum>r<8. \<Sum>c<8. dct_basis v r * dct_basis u c * of_int (d ! (8 * r + c))) / 8"

section \<open>Cosines\<close>

definition cos_16 :: "nat \<Rightarrow> real" where "cos_16 n = cos (real n * pi / 16)"

lemma cos_16_values:
  "cos_16 0 = 1" "cos_16 8 = 0" "n \<le> 16 \<Longrightarrow> cos_16 (16 - n) = - cos_16 n" "n \<le> 32 \<Longrightarrow> cos_16 (32 - n) = cos_16 n" "cos_16 (n + 32) = cos_16 n"
proof -
  have a: "real (16 - n) * pi / 16 = pi - real n * pi / 16" if "n \<le> 16" for n using that by (simp add: of_nat_diff field_simps)
  have b: "real (32 - n) * pi / 16 = 2 * pi - real n * pi / 16" if "n \<le> 32" for n using that by (simp add: of_nat_diff field_simps)
  have c: "real (n + 32) * pi / 16 = real n * pi / 16 + 2 * pi" for n by (simp add: field_simps)
  show "cos_16 0 = 1" "cos_16 8 = 0" by (simp_all add: cos_16_def)
  show "n \<le> 16 \<Longrightarrow> cos_16 (16 - n) = - cos_16 n" unfolding cos_16_def a by (simp add: cos_diff)
  show "n \<le> 32 \<Longrightarrow> cos_16 (32 - n) = cos_16 n" unfolding cos_16_def b by (simp add: cos_diff)
  show "cos_16 (n + 32) = cos_16 n" unfolding cos_16_def c by (rule cos_periodic)
qed

lemma cos_16_double: "2 * (cos_16 n)\<^sup>2 = 1 + cos_16 (2 * n)"
  using cos_double_cos [of "real n * pi / 16"] by (simp add: cos_16_def mult.assoc)

lemma cos_16_nonneg: "n \<le> 8 \<Longrightarrow> 0 \<le> cos_16 n"
  unfolding cos_16_def by (rule cos_ge_zero) (simp_all add: field_simps, rule order_trans [of _ 0], simp_all)

lemma between_squares: "0 \<le> x \<Longrightarrow> 0 \<le> l \<Longrightarrow> 0 \<le> u \<Longrightarrow> l\<^sup>2 \<le> x\<^sup>2 \<Longrightarrow> x\<^sup>2 \<le> u\<^sup>2 \<Longrightarrow> l \<le> x \<and> x \<le> (u :: real)"
  by (auto intro: power2_le_imp_le)

lemma cosines:
  "0.7071067 \<le> cos_16 4 \<and> cos_16 4 \<le> 0.7071068" "0.9238795 \<le> cos_16 2 \<and> cos_16 2 \<le> 0.9238796" "0.3826834 \<le> cos_16 6 \<and> cos_16 6 \<le> 0.3826835"
proof -
  have "(cos_16 4)\<^sup>2 = 1 / 2" using cos_16_double [of 4] cos_16_values(2) by simp
  then show c4: "0.7071067 \<le> cos_16 4 \<and> cos_16 4 \<le> 0.7071068"
    using cos_16_nonneg [of 4] by (intro between_squares) (simp_all add: power2_eq_square)
  have "(cos_16 2)\<^sup>2 = (1 + cos_16 4) / 2" using cos_16_double [of 2] by simp
  then show "0.9238795 \<le> cos_16 2 \<and> cos_16 2 \<le> 0.9238796"
    using cos_16_nonneg [of 2] c4 by (intro between_squares) (simp_all add: power2_eq_square)
  have "cos_16 12 = - cos_16 4" using cos_16_values(3) [of 4] by simp
  then have "(cos_16 6)\<^sup>2 = (1 - cos_16 4) / 2" using cos_16_double [of 6] by simp
  then show "0.3826834 \<le> cos_16 6 \<and> cos_16 6 \<le> 0.3826835"
    using cos_16_nonneg [of 6] c4 by (intro between_squares) (simp_all add: power2_eq_square)
qed

definition scaled_cos :: "nat \<Rightarrow> real" where "scaled_cos n = 8192 * (sqrt 2 * cos_16 n)"

lemma scaled_cos_square: "(scaled_cos n)\<^sup>2 = 67108864 * (1 + cos_16 (2 * n))"
  using cos_16_double [of n] by (simp add: scaled_cos_def power_mult_distrib)

lemma scaled_cos_bounds:
  "11362.5 \<le> scaled_cos 1 \<and> scaled_cos 1 \<le> 11362.8" "10703.2 \<le> scaled_cos 2 \<and> scaled_cos 2 \<le> 10703.5"
  "9632.6 \<le> scaled_cos 3 \<and> scaled_cos 3 \<le> 9632.9" "scaled_cos 4 = 8192" "6436.3 \<le> scaled_cos 5 \<and> scaled_cos 5 \<le> 6436.6"
  "4433.4 \<le> scaled_cos 6 \<and> scaled_cos 6 \<le> 4433.6" "2260.1 \<le> scaled_cos 7 \<and> scaled_cos 7 \<le> 2260.2"
proof -
  note c = cosines
  have n: "0 \<le> scaled_cos k" if "k \<le> 8" for k using cos_16_nonneg [OF that] by (simp add: scaled_cos_def)
  have v: "cos_16 12 = - cos_16 4" "cos_16 10 = - cos_16 6" "cos_16 14 = - cos_16 2"
    using cos_16_values(3) [of 4] cos_16_values(3) [of 6] cos_16_values(3) [of 2] by simp_all
  have q: "(scaled_cos 1)\<^sup>2 = 67108864 * (1 + cos_16 2)" "(scaled_cos 2)\<^sup>2 = 67108864 * (1 + cos_16 4)"
    "(scaled_cos 3)\<^sup>2 = 67108864 * (1 + cos_16 6)" "(scaled_cos 4)\<^sup>2 = 8192\<^sup>2" "(scaled_cos 5)\<^sup>2 = 67108864 * (1 - cos_16 6)"
    "(scaled_cos 6)\<^sup>2 = 67108864 * (1 - cos_16 4)" "(scaled_cos 7)\<^sup>2 = 67108864 * (1 - cos_16 2)"
    using scaled_cos_square [of 1] scaled_cos_square [of 2] scaled_cos_square [of 3] scaled_cos_square [of 4]
      scaled_cos_square [of 5] scaled_cos_square [of 6] scaled_cos_square [of 7] v cos_16_values(2) by simp_all
  show "11362.5 \<le> scaled_cos 1 \<and> scaled_cos 1 \<le> 11362.8" by (rule between_squares) (use n [of 1] c q(1) in \<open>simp_all add: power2_eq_square\<close>)
  show "10703.2 \<le> scaled_cos 2 \<and> scaled_cos 2 \<le> 10703.5" by (rule between_squares) (use n [of 2] c q(2) in \<open>simp_all add: power2_eq_square\<close>)
  show "9632.6 \<le> scaled_cos 3 \<and> scaled_cos 3 \<le> 9632.9" by (rule between_squares) (use n [of 3] c q(3) in \<open>simp_all add: power2_eq_square\<close>)
  show "scaled_cos 4 = 8192" using q(4) n [of 4] by (rule power2_eq_imp_eq) simp_all
  show "6436.3 \<le> scaled_cos 5 \<and> scaled_cos 5 \<le> 6436.6" by (rule between_squares) (use n [of 5] c q(5) in \<open>simp_all add: power2_eq_square\<close>)
  show "4433.4 \<le> scaled_cos 6 \<and> scaled_cos 6 \<le> 4433.6" by (rule between_squares) (use n [of 6] c q(6) in \<open>simp_all add: power2_eq_square\<close>)
  show "2260.1 \<le> scaled_cos 7 \<and> scaled_cos 7 \<le> 2260.2" by (rule between_squares) (use n [of 7] c q(7) in \<open>simp_all add: power2_eq_square\<close>)
qed

section \<open>The matrix of the integer transform\<close>

definition fdct_matrix :: "int list list" where
  "fdct_matrix =
    [[8192, 8192, 8192, 8192, 8192, 8192, 8192, 8192],
     [11363, 9633, 6437, 2260, -2260, -6437, -9633, -11363],
     [10703, 4433, -4433, -10703, -10703, -4433, 4433, 10703],
     [9633, -2259, -11362, -6436, 6436, 11362, 2259, -9633],
     [8192, -8192, -8192, 8192, 8192, -8192, -8192, 8192],
     [6437, -11362, 2261, 9633, -9633, -2261, 11362, -6437],
     [4433, -10704, 10704, -4433, -4433, 10704, -10704, 4433],
     [2260, -6436, 9633, -11363, 11363, -9633, 6436, -2260]]"

lemma less_8: "(k :: nat) < 8 \<longleftrightarrow> k \<in> {0, 1, 2, 3, 4, 5, 6, 7}"
  by auto

lemma scaled_cos_reduce:
  "scaled_cos (n + 32) = scaled_cos n" "n \<le> 32 \<Longrightarrow> scaled_cos (32 - n) = scaled_cos n" "n \<le> 16 \<Longrightarrow> scaled_cos (16 - n) = - scaled_cos n"
  by (simp_all add: scaled_cos_def cos_16_values)

lemma scaled_cos_mod: "scaled_cos n = scaled_cos (n mod 32)"
proof (induction n rule: less_induct)
  case (less n)
  show ?case
  proof (cases "n < 32")
    case False
    then have "scaled_cos n = scaled_cos (n - 32)" using scaled_cos_reduce(1) [of "n - 32"] by simp
    then show ?thesis using less.IH [of "n - 32"] False by (simp add: le_mod_geq)
  qed simp
qed

lemma scaled_cos_upper: "16 < n \<Longrightarrow> n \<le> 32 \<Longrightarrow> scaled_cos n = scaled_cos (32 - n)"
  using scaled_cos_reduce(2) [of "32 - n"] by simp

text \<open>The angles that occur, reduced to the first quadrant.\<close>

lemma scaled_cos_upper16: "8 < n \<Longrightarrow> n \<le> 16 \<Longrightarrow> scaled_cos n = - scaled_cos (16 - n)"
  using scaled_cos_reduce(3) [of "16 - n"] by simp

lemma scaled_cos_fold:
  "scaled_cos n = (let m = n mod 32; m = (if 16 < m then 32 - m else m) in if 8 < m then - scaled_cos (16 - m) else scaled_cos m)"
proof (cases "16 < n mod 32")
  case True
  then show ?thesis
    unfolding scaled_cos_mod [of n] Let_def using scaled_cos_upper [of "n mod 32"] scaled_cos_upper16 [of "32 - n mod 32"] by simp
next
  case False
  then show ?thesis unfolding scaled_cos_mod [of n] Let_def using scaled_cos_upper16 [of "n mod 32"] by simp
qed

lemma scaled_cos_table:
  "scaled_cos 9 = - scaled_cos 7" "scaled_cos 10 = - scaled_cos 6" "scaled_cos 11 = - scaled_cos 5" "scaled_cos 12 = - scaled_cos 4"
  "scaled_cos 13 = - scaled_cos 3" "scaled_cos 14 = - scaled_cos 2" "scaled_cos 15 = - scaled_cos 1" "scaled_cos 18 = - scaled_cos 2"
  "scaled_cos 20 = - scaled_cos 4" "scaled_cos 21 = - scaled_cos 5" "scaled_cos 22 = - scaled_cos 6" "scaled_cos 25 = scaled_cos 7"
  "scaled_cos 26 = scaled_cos 6" "scaled_cos 27 = scaled_cos 5" "scaled_cos 28 = scaled_cos 4" "scaled_cos 30 = scaled_cos 2"
  "scaled_cos 33 = scaled_cos 1" "scaled_cos 35 = scaled_cos 3" "scaled_cos 36 = scaled_cos 4" "scaled_cos 39 = scaled_cos 7"
  "scaled_cos 42 = - scaled_cos 6" "scaled_cos 44 = - scaled_cos 4" "scaled_cos 45 = - scaled_cos 3" "scaled_cos 49 = - scaled_cos 1"
  "scaled_cos 52 = - scaled_cos 4" "scaled_cos 54 = - scaled_cos 6" "scaled_cos 55 = - scaled_cos 7" "scaled_cos 60 = scaled_cos 4"
  "scaled_cos 63 = scaled_cos 1" "scaled_cos 65 = scaled_cos 1" "scaled_cos 66 = scaled_cos 2" "scaled_cos 75 = - scaled_cos 5"
  "scaled_cos 77 = - scaled_cos 3" "scaled_cos 78 = - scaled_cos 2" "scaled_cos 90 = scaled_cos 6" "scaled_cos 91 = scaled_cos 5"
  "scaled_cos 105 = - scaled_cos 7"
  by (subst scaled_cos_fold, simp)+

lemma dct_basis_cos: "8192 * dct_basis k x = (if k = 0 then 8192 else scaled_cos ((2 * x + 1) * k))"
  by (simp add: dct_basis_def scaled_cos_def cos_16_def)

lemma fifths: "\<bar>x\<bar> \<le> 6 / 5 \<Longrightarrow> \<bar>x\<bar> * 5 \<le> (6 :: real)"
  by simp

lemma entries:
  "\<bar>11363 - scaled_cos 1\<bar> \<le> 6 / 5" "\<bar>scaled_cos 1 - 11363\<bar> \<le> 6 / 5"
  "\<bar>11362 - scaled_cos 1\<bar> \<le> 6 / 5" "\<bar>scaled_cos 1 - 11362\<bar> \<le> 6 / 5"
  "\<bar>10703 - scaled_cos 2\<bar> \<le> 6 / 5" "\<bar>scaled_cos 2 - 10703\<bar> \<le> 6 / 5"
  "\<bar>10704 - scaled_cos 2\<bar> \<le> 6 / 5" "\<bar>scaled_cos 2 - 10704\<bar> \<le> 6 / 5"
  "\<bar>9633 - scaled_cos 3\<bar> \<le> 6 / 5" "\<bar>scaled_cos 3 - 9633\<bar> \<le> 6 / 5"
  "\<bar>6437 - scaled_cos 5\<bar> \<le> 6 / 5" "\<bar>scaled_cos 5 - 6437\<bar> \<le> 6 / 5"
  "\<bar>6436 - scaled_cos 5\<bar> \<le> 6 / 5" "\<bar>scaled_cos 5 - 6436\<bar> \<le> 6 / 5"
  "\<bar>4433 - scaled_cos 6\<bar> \<le> 6 / 5" "\<bar>scaled_cos 6 - 4433\<bar> \<le> 6 / 5"
  "\<bar>2259 - scaled_cos 7\<bar> \<le> 6 / 5" "\<bar>scaled_cos 7 - 2259\<bar> \<le> 6 / 5"
  "\<bar>2260 - scaled_cos 7\<bar> \<le> 6 / 5" "\<bar>scaled_cos 7 - 2260\<bar> \<le> 6 / 5"
  "\<bar>2261 - scaled_cos 7\<bar> \<le> 6 / 5" "\<bar>scaled_cos 7 - 2261\<bar> \<le> 6 / 5"
  using scaled_cos_bounds by linarith+

lemmas entry_rules = scaled_cos_table scaled_cos_bounds(4) entries [THEN fifths] entries [THEN fifths, unfolded One_nat_def]

lemma matrix_error:
  assumes "k < 8" "x < 8"
  shows "\<bar>of_int (fdct_matrix ! k ! x) - 8192 * dct_basis k x\<bar> * 5 \<le> 6"
  using assms unfolding less_8 dct_basis_cos
  by (elim insertE emptyE; simp add: fdct_matrix_def entry_rules)

section \<open>The integer transform and its matrix\<close>

lemma sum_8: "(\<Sum>j<8. f j) = f 0 + f 1 + f 2 + f 3 + f 4 + f 5 + f 6 + f (7 :: nat)" for f :: "nat \<Rightarrow> 'a :: comm_monoid_add"
  by (simp add: eval_nat_numeral add.assoc)

definition matrix_row :: "nat \<Rightarrow> int list \<Rightarrow> int" where
  "matrix_row u d = (\<Sum>j<8. fdct_matrix ! u ! j * d ! j)"

lemma DESCALE_error: "0 < n \<Longrightarrow> \<bar>2 ^ n * DESCALE x n - x\<bar> \<le> 2 ^ (n - 1)"
proof -
  assume "0 < n"
  then have p: "(2 :: int) ^ n = 2 * 2 ^ (n - 1)" by (cases n) simp_all
  define r where "r = (2 :: int) ^ (n - 1)"
  have "0 \<le> (x + r) mod 2 ^ n" "(x + r) mod 2 ^ n < 2 ^ n" by simp_all
  moreover have "2 ^ n * DESCALE x n + (x + r) mod 2 ^ n = x + r" unfolding DESCALE_div r_def by simp
  ultimately show ?thesis unfolding p r_def [symmetric] by linarith
qed

lemma fdct_1d_matrix:
  assumes d: "length d = 8" and u: "u < 8" and n: "0 < n" and sc: "\<And>y. \<bar>2 ^ n * scale y - 8192 * y\<bar> \<le> 2 ^ (n - 1)"
  shows "\<bar>2 ^ n * fst (fdct_1d scale n d) ! u - matrix_row u d\<bar> \<le> 2 ^ (n - 1)"
proof -
  obtain d0 d1 d2 d3 d4 d5 d6 d7 where dd: "d = [d0, d1, d2, d3, d4, d5, d6, d7]"
    using d by (auto simp: eval_nat_numeral length_Suc_conv)
  define e0 e4 where "e0 = d0 + d7 + (d3 + d4) + (d1 + d6 + (d2 + d5))" and "e4 = d0 + d7 + (d3 + d4) - (d1 + d6 + (d2 + d5))"
  have m: "matrix_row 0 d = 8192 * e0" "matrix_row 4 d = 8192 * e4"
    by (simp_all add: matrix_row_def sum_8 fdct_matrix_def dd e0_def e4_def algebra_simps)
  have o: "fst (fdct_1d scale n d) = [scale e0, DESCALE (matrix_row 1 d) n, DESCALE (matrix_row 2 d) n, DESCALE (matrix_row 3 d) n,
      scale e4, DESCALE (matrix_row 5 d) n, DESCALE (matrix_row 6 d) n, DESCALE (matrix_row 7 d) n]"
    unfolding fdct_1d_def Let_def fix_defs matrix_row_def sum_8 fdct_matrix_def dd e0_def e4_def fst_conv
    by (simp add: algebra_simps)
  have "u = 0 \<or> u = 4 \<or> u \<in> {1, 2, 3, 5, 6, 7}" using u by auto
  then show ?thesis
  proof (elim disjE)
    assume "u \<in> {1, 2, 3, 5, 6, 7}"
    then have "fst (fdct_1d scale n d) ! u = DESCALE (matrix_row u d) n" unfolding o by auto
    then show ?thesis using DESCALE_error [OF n] by simp
  qed (use sc [of e0] sc [of e4] o m in simp_all)
qed

section \<open>Both passes\<close>

lemma weighted_sum:
  fixes k x :: "nat \<Rightarrow> 'a :: linordered_idom"
  assumes "\<And>j. j < 8 \<Longrightarrow> \<bar>x j\<bar> \<le> b"
  shows "\<bar>\<Sum>j<8. k j * x j\<bar> \<le> (\<Sum>j<8. \<bar>k j\<bar>) * b"
proof -
  have "\<bar>\<Sum>j<8. k j * x j\<bar> \<le> (\<Sum>j<8. \<bar>k j * x j\<bar>)" by (rule sum_abs)
  also have "\<dots> \<le> (\<Sum>j<8. \<bar>k j\<bar> * b)" using assms by (intro sum_mono) (simp add: abs_mult mult_left_mono)
  finally show ?thesis by (simp add: sum_distrib_right)
qed

lemma matrix_weight: "v < 8 \<Longrightarrow> (\<Sum>j<8. \<bar>fdct_matrix ! v ! j\<bar>) \<le> 65536"
  unfolding less_8 by (elim insertE emptyE) (simp_all add: sum_8 fdct_matrix_def)

lemma fdct_matrix_error:
  assumes d: "length d = 64" "list_all (bounded_by 128) d" and o: "jpeg_fdct_islow d = Some out" and vu: "v < 8" "u < 8"
  shows "\<bar>67108864 * out ! (8 * v + u) - (\<Sum>r<8. fdct_matrix ! v ! r * matrix_row u (row_of d r))\<bar> \<le> 100663296"
proof -
  let ?p = "\<lambda>r. fdct_pass1 d ! (8 * r + u)" and ?R = "\<lambda>r. matrix_row u (row_of d r)" and ?K = "\<lambda>r. fdct_matrix ! v ! r"
  have p: "\<bar>2048 * ?p r - ?R r\<bar> \<le> 1024" if "r < 8" for r
    using fdct_1d_matrix [of "row_of d r" u 11 "\<lambda>x. x * 4"] vu(2) fdct_pass1_facts(3) [OF d that vu(2)] by (simp add: fix_defs)
  have "\<bar>8192 * (4 * DESCALE y 2 - y)\<bar> \<le> 8192 * 2" for y
    using DESCALE_error [of 2 y] unfolding abs_mult by simp
  then have sc: "\<bar>2 ^ 15 * DESCALE y 2 - 8192 * y\<bar> \<le> 2 ^ (15 - 1)" for y by (simp add: right_diff_distrib)
  have "out ! (8 * v + u) = fst (fdct_1d (\<lambda>x. DESCALE x 2) 15 (col_of (fdct_pass1 d) u)) ! v"
    by (rule fdct_islow_ok [OF d]) (use o vu in \<open>simp add: fix_defs\<close>)
  then have q: "\<bar>32768 * out ! (8 * v + u) - (\<Sum>r<8. ?K r * ?p r)\<bar> \<le> 16384"
    using fdct_1d_matrix [of "col_of (fdct_pass1 d) u" v 15 "\<lambda>x. DESCALE x 2"] vu(1) sc by (simp add: matrix_row_def col_of_def)
  have "(\<Sum>r<8. ?K r * (2048 * ?p r - ?R r)) = 2048 * (\<Sum>r<8. ?K r * ?p r) - (\<Sum>r<8. ?K r * ?R r)"
    by (simp add: right_diff_distrib sum_subtractf sum_distrib_left mult.left_commute)
  moreover have "\<bar>\<Sum>r<8. ?K r * (2048 * ?p r - ?R r)\<bar> \<le> (\<Sum>r<8. \<bar>?K r\<bar>) * 1024" using p by (rule weighted_sum)
  moreover have "(\<Sum>r<8. \<bar>?K r\<bar>) * 1024 \<le> 65536 * 1024" using matrix_weight [OF vu(1)] by (rule mult_right_mono) simp
  ultimately have "\<bar>2048 * (\<Sum>r<8. ?K r * ?p r) - (\<Sum>r<8. ?K r * ?R r)\<bar> \<le> 67108864" by linarith
  with q show ?thesis by linarith
qed

lemma product_error:
  fixes k a R Q :: "nat \<Rightarrow> real"
  shows "(\<Sum>r<8. k r * R r) - 67108864 * (\<Sum>r<8. a r * Q r) =
    (\<Sum>r<8. k r * (R r - 8192 * Q r)) + (\<Sum>r<8. (8192 * Q r) * (k r - 8192 * a r))"
  unfolding sum_distrib_left sum.distrib [symmetric] sum_subtractf [symmetric] by (rule sum.cong) (simp_all add: algebra_simps)

lemma fdct_close:
  assumes d: "length d = 64" "list_all (bounded_by 128) d" and o: "jpeg_fdct_islow d = Some out" and vu: "v < 8" "u < 8"
  shows "\<bar>of_int (out ! (8 * v + u)) - 8 * dct_coefficient d v u\<bar> \<le> 4"
proof -
  let ?x = "\<lambda>r c. real_of_int (d ! (8 * r + c))" and ?K = "\<lambda>k j. real_of_int (fdct_matrix ! k ! j)" and ?a = dct_basis
  let ?Q = "\<lambda>r. \<Sum>c<8. ?a u c * ?x r c" and ?R = "\<lambda>r. \<Sum>c<8. ?K u c * ?x r c"
  have x: "\<bar>?x r c\<bar> \<le> 128" if "r < 8" "c < 8" for r c
  proof -
    have "8 * r + c < 64" using that by simp
    then have "- 128 \<le> d ! (8 * r + c)" "d ! (8 * r + c) \<le> 128" using d by (simp_all add: list_all_length bounded_by_def)
    then have "\<bar>d ! (8 * r + c)\<bar> \<le> 128" by simp
    then show ?thesis by (simp flip: of_int_abs)
  qed
  have e: "\<bar>?K k j - 8192 * ?a k j\<bar> \<le> 6 / 5" if "k < 8" "j < 8" for k j using matrix_error [OF that] by simp
  have w: "(\<Sum>j<8. \<bar>?K k j\<bar>) \<le> 65536" if "k < 8" for k
  proof -
    have "real_of_int (\<Sum>j<8. \<bar>fdct_matrix ! k ! j\<bar>) \<le> real_of_int 65536" using matrix_weight [OF that] by (simp only: of_int_le_iff)
    then show ?thesis by simp
  qed
  have R: "\<bar>?R r\<bar> \<le> 8388608" if "r < 8" for r
    using weighted_sum [of "?x r" 128 "?K u"] x [OF that] mult_right_mono [OF w [OF vu(2)], of 128] by simp
  have RQ: "\<bar>?R r - 8192 * ?Q r\<bar> \<le> 1228.8" if "r < 8" for r
  proof -
    have "?R r - 8192 * ?Q r = (\<Sum>c<8. ?x r c * (?K u c - 8192 * ?a u c))"
      by (simp add: right_diff_distrib sum_subtractf sum_distrib_left mult.left_commute mult.commute)
    moreover have "\<bar>\<Sum>c<8. ?x r c * (?K u c - 8192 * ?a u c)\<bar> \<le> (\<Sum>c<8. \<bar>?x r c\<bar>) * (6 / 5)" using e vu(2) by (intro weighted_sum)
    moreover have "(\<Sum>c<8. \<bar>?x r c\<bar>) \<le> (\<Sum>c<(8::nat). 128)" using x [OF that] by (intro sum_mono) simp
    ultimately show ?thesis by simp
  qed
  have Q: "\<bar>8192 * ?Q r\<bar> \<le> 8389836.8" if "r < 8" for r using R [OF that] RQ [OF that] by linarith
  define S D where "S = (\<Sum>r<8. ?K v r * ?R r)" and "D = (\<Sum>r<8. ?a v r * ?Q r)"
  have "S - 67108864 * D = (\<Sum>r<8. ?K v r * (?R r - 8192 * ?Q r)) + (\<Sum>r<8. (8192 * ?Q r) * (?K v r - 8192 * ?a v r))"
    unfolding S_def D_def by (rule product_error)
  moreover have "\<bar>\<Sum>r<8. ?K v r * (?R r - 8192 * ?Q r)\<bar> \<le> (\<Sum>r<8. \<bar>?K v r\<bar>) * 1228.8" using RQ by (rule weighted_sum)
  moreover have "(\<Sum>r<8. \<bar>?K v r\<bar>) * 1228.8 \<le> 65536 * 1228.8" using w [OF vu(1)] by (rule mult_right_mono) simp
  moreover have "\<bar>\<Sum>r<8. (8192 * ?Q r) * (?K v r - 8192 * ?a v r)\<bar> \<le> (\<Sum>r<8. \<bar>8192 * ?Q r\<bar>) * (6 / 5)" using e vu(1) by (intro weighted_sum)
  moreover have "(\<Sum>r<8. \<bar>8192 * ?Q r\<bar>) \<le> (\<Sum>r<(8::nat). 8389836.8)" using Q by (intro sum_mono) simp
  moreover have "(\<Sum>r<(8::nat). 8389836.8) = (67118694.4 :: real)" by simp
  ultimately have SD: "\<bar>S - 67108864 * D\<bar> \<le> 161073071" by linarith
  have "\<bar>real_of_int (67108864 * out ! (8 * v + u) - (\<Sum>r<8. fdct_matrix ! v ! r * matrix_row u (row_of d r)))\<bar> \<le> real_of_int 100663296"
    using fdct_matrix_error [OF assms] by (simp only: of_int_abs [symmetric] of_int_le_iff)
  moreover have "real_of_int (\<Sum>r<8. fdct_matrix ! v ! r * matrix_row u (row_of d r)) = S"
    by (simp add: S_def matrix_row_def row_of_def)
  ultimately have "\<bar>67108864 * real_of_int (out ! (8 * v + u)) - S\<bar> \<le> 100663296" by simp
  with SD have "\<bar>67108864 * real_of_int (out ! (8 * v + u)) - 67108864 * D\<bar> \<le> 268435456" by linarith
  then have "\<bar>67108864 * (real_of_int (out ! (8 * v + u)) - D)\<bar> \<le> 67108864 * 4" by (simp only: right_diff_distrib)
  then have "\<bar>real_of_int (out ! (8 * v + u)) - D\<bar> \<le> 4" unfolding abs_mult by simp
  moreover have "8 * dct_coefficient d v u = D"
    unfolding dct_coefficient_def D_def by (simp add: sum_distrib_left [symmetric] mult.assoc)
  ultimately show ?thesis by simp
qed

text \<open>
  C22. The integer forward DCT is the DCT: for a block of centred samples no 32-bit operation overflows, and each
  of the 64 results, which are scaled by 8, differs by at most 4 from 8 times the coefficient that the
  cosines of the JPEG standard give on real numbers, half a unit of the coefficient itself.
\<close>

theorem fdct_accurate:
  assumes "length d = 64" "list_all (bounded_by 128) d"
  shows "\<exists>out. jpeg_fdct_islow d = Some out \<and> length out = 64 \<and>
     (\<forall>v<8. \<forall>u<8. \<bar>of_int (out ! (8 * v + u)) - 8 * dct_coefficient d v u\<bar> \<le> 4)"
proof -
  obtain out where "jpeg_fdct_islow d = Some out" "length out = 64" by (rule fdct_islow_ok [OF assms])
  then show ?thesis using fdct_close [OF assms] by blast
qed

text \<open>A gradient from left to right.\<close>

theorem fdct_accurate_witness:
  "\<exists>out. jpeg_fdct_islow (concat (replicate 8 [-100, -70, -40, -10, 20, 50, 80, 110])) = Some out \<and>
     \<bar>of_int (out ! 1) - 8 * dct_coefficient (concat (replicate 8 [-100, -70, -40, -10, 20, 50, 80, 110])) 0 1\<bar> \<le> 4"
proof -
  let ?d = "concat (replicate 8 [-100, -70, -40, -10, 20, 50, 80, 110]) :: int list"
  have "length ?d = 64" "list_all (bounded_by 128) ?d" by (simp_all add: eval_nat_numeral bounded_by_def)
  from fdct_accurate [OF this] obtain out where o: "jpeg_fdct_islow ?d = Some out"
    "\<forall>v<8. \<forall>u<8. \<bar>of_int (out ! (8 * v + u)) - 8 * dct_coefficient ?d v u\<bar> \<le> 4" by blast
  have "\<bar>of_int (out ! (8 * 0 + 1)) - 8 * dct_coefficient ?d 0 1\<bar> \<le> 4" by (rule o(2) [rule_format]) simp_all
  then show ?thesis using o(1) by auto
qed

end
