(* ===== verification/Jcdctmgr.thy ===== *)
theory Jcdctmgr imports DctAccuracy Jpeglib begin

text \<open>
  \<open>jcdctmgr.c\<close>: the forward DCT manager in a build with SIMD support, where \<open>DCTELEM\<close> is a \<open>short\<close>,
  \<open>UDCTELEM\<close> an \<open>unsigned short\<close> and \<open>UDCTELEM2\<close> an \<open>unsigned int\<close>. Quantisation divides by multiplying
  with a reciprocal. \<open>None\<close> is behaviour C leaves undefined.
\<close>

unbundle bit_operations_syntax

section \<open>Reciprocals\<close>

definition flss_step :: "u16 \<Rightarrow> nat \<Rightarrow> nat \<times> u16 \<Rightarrow> nat \<times> u16" where
  "flss_step tops k = (\<lambda>(bt, val). if val AND tops = 0 then (bt - k, push_bit k val) else (bt, val))"

definition flss :: "u16 \<Rightarrow> nat" where
  "flss val = (if val = 0 then 0
     else fst (flss_step 0x8000 1 (flss_step 0xC000 2 (flss_step 0xF000 4 (flss_step 0xFF00 8 (16, val))))))"

text \<open>The returned code and the four table entries: reciprocal, correction, scale and shift.\<close>

definition compute_reciprocal :: "u16 \<Rightarrow> (nat \<times> u16 \<times> u16 \<times> u16 \<times> u16) option" where
  "compute_reciprocal divisor =
     (if divisor = 0 then None
      else
        let b = flss divisor - 1; r = 16 + b;
            fq = push_bit r (1 :: u32) div ucast divisor;
            fr = push_bit r (1 :: u32) mod ucast divisor;
            c = divisor div 2;
            (fq, r, c) = (if fr = 0 then (drop_bit 1 fq, r - 1, c)
                          else if fr \<le> ucast (divisor div 2) then (fq, r, c + 1)
                          else (fq + 1, r, c))
        in Some (if r \<le> 16 then 0 else 1, ucast fq, c, ucast (push_bit (32 - r) (1 :: u32)), word_of_int (int r - 16)))"

text \<open>A shift by the width of the type or more is undefined.\<close>

definition quantize_value :: "u16 \<Rightarrow> u16 \<Rightarrow> u16 \<Rightarrow> u16 \<Rightarrow> u16 option" where
  "quantize_value temp recip corr shift =
     (let n = unat shift + 16;
          quot = (\<lambda>temp. ucast (drop_bit n ((scast temp + ucast corr :: u32) * ucast recip)) :: u16)
      in if 32 \<le> n then None
         else if sint temp < 0 then Some (- quot (- temp)) else Some (quot temp))"

definition rounded_quotient :: "int \<Rightarrow> int \<Rightarrow> int" where
  "rounded_quotient x d = sgn x * ((\<bar>x\<bar> + d div 2) div d)"

lemma top_bits:
  "(v :: u16) AND 0xFF00 = 0 \<longleftrightarrow> uint v < 2 ^ 8" "v AND 0xF000 = 0 \<longleftrightarrow> uint v < 2 ^ 12"
  "v AND 0xC000 = 0 \<longleftrightarrow> uint v < 2 ^ 14" "v AND 0x8000 = 0 \<longleftrightarrow> uint v < 2 ^ 15"
proof -
  have h: "v AND NOT (mask k) = 0 \<longleftrightarrow> uint v < 2 ^ k" for k
  proof -
    have "v AND NOT (mask k) = 0 \<longleftrightarrow> take_bit k v = v"
      unfolding take_bit_eq_mask bit_eq_iff by (auto simp: bit_simps)
    also have "\<dots> \<longleftrightarrow> take_bit k (uint v) = uint v" by (metis unsigned_take_bit_eq word_uint_eqI)
    also have "\<dots> \<longleftrightarrow> uint v < 2 ^ k" by (simp add: take_bit_int_eq_self_iff)
    finally show ?thesis .
  qed
  have m: "NOT (mask 8) = (0xFF00 :: u16)" "NOT (mask 12) = (0xF000 :: u16)" "NOT (mask 14) = (0xC000 :: u16)" "NOT (mask 15) = (0x8000 :: u16)"
    by (simp_all add: mask_eq_exp_minus_1)
  show "v AND 0xFF00 = 0 \<longleftrightarrow> uint v < 2 ^ 8" "v AND 0xF000 = 0 \<longleftrightarrow> uint v < 2 ^ 12"
    "v AND 0xC000 = 0 \<longleftrightarrow> uint v < 2 ^ 14" "v AND 0x8000 = 0 \<longleftrightarrow> uint v < 2 ^ 15"
    using h [of 8] h [of 12] h [of 14] h [of 15] unfolding m by simp_all
qed

lemma flss_step_ok:
  assumes "v AND tops = 0 \<longleftrightarrow> uint v < 2 ^ (16 - k)" "uint v = d * 2 ^ (16 - bt)" "bt \<le> 16" "2 ^ (16 - 2 * k) \<le> uint v" "2 * k \<le> bt"
  obtains bt1 v' where "flss_step tops k (bt, v) = (bt1, v')" "uint v' = d * 2 ^ (16 - bt1)" "k \<le> bt1" "bt1 \<le> 16" "2 ^ (16 - k) \<le> uint v'"
proof (cases "uint v < 2 ^ (16 - k)")
  case True
  have "uint v * 2 ^ k < 2 ^ (16 - k) * 2 ^ k" using True by simp
  also have "(2 :: int) ^ (16 - k) * 2 ^ k = 2 ^ 16" using assms(3,5) by (simp flip: power_add)
  finally have u: "uint (push_bit k v) = uint v * 2 ^ k"
    by (subst unsigned_push_bit_eq) (simp add: push_bit_eq_mult take_bit_int_eq_self)
  have "2 ^ (16 - 2 * k) * 2 ^ k \<le> uint v * 2 ^ k" using assms(4) by simp
  moreover have "(2 :: int) ^ (16 - 2 * k) * 2 ^ k = 2 ^ (16 - k)" using assms(3,5) by (simp flip: power_add add: mult_2)
  moreover have "16 - bt + k = 16 - (bt - k)" using assms(3,5) by simp
  then have "(2 :: int) ^ (16 - bt) * 2 ^ k = 2 ^ (16 - (bt - k))" by (simp only: power_add [symmetric])
  moreover have "k \<le> bt - k" "bt - k \<le> 16" using assms(3,5) by simp_all
  ultimately show thesis using assms(1,2) True u
    by (intro that [of "bt - k" "push_bit k v"]) (simp_all only: flss_step_def mult.assoc split if_True)
next
  case False
  then show thesis using that [of bt v] assms by (simp add: flss_step_def)
qed

lemma flss_bits:
  assumes "v \<noteq> 0"
  shows "1 \<le> flss v" "flss v \<le> 16" "2 ^ (flss v - 1) \<le> uint v" "uint v < 2 ^ flss v"
proof -
  have "0 < uint v" using assms by (simp add: word_neq_0_conv word_less_def)
  then obtain b1 v1 where s1: "flss_step 0xFF00 8 (16, v) = (b1, v1)" "uint v1 = uint v * 2 ^ (16 - b1)" "8 \<le> b1" "b1 \<le> 16" "2 ^ 8 \<le> uint v1"
    using flss_step_ok [of v "0xFF00" 8 "uint v" 16] top_bits(1) by auto
  obtain b2 v2 where s2: "flss_step 0xF000 4 (b1, v1) = (b2, v2)" "uint v2 = uint v * 2 ^ (16 - b2)" "4 \<le> b2" "b2 \<le> 16" "2 ^ 12 \<le> uint v2"
    using flss_step_ok [of v1 "0xF000" 4 "uint v" b1] top_bits(2) s1 by auto
  obtain b3 v3 where s3: "flss_step 0xC000 2 (b2, v2) = (b3, v3)" "uint v3 = uint v * 2 ^ (16 - b3)" "2 \<le> b3" "b3 \<le> 16" "2 ^ 14 \<le> uint v3"
    using flss_step_ok [of v2 "0xC000" 2 "uint v" b2] top_bits(3) s2 by auto
  obtain b4 v4 where s4: "flss_step 0x8000 1 (b3, v3) = (b4, v4)" "uint v4 = uint v * 2 ^ (16 - b4)" "1 \<le> b4" "b4 \<le> 16" "2 ^ 15 \<le> uint v4"
    using flss_step_ok [of v3 "0x8000" 1 "uint v" b3] top_bits(4) s3 by auto
  have f: "flss v = b4" using assms by (simp add: flss_def s1(1) s2(1) s3(1) s4(1) [unfolded One_nat_def])
  have "uint v * 2 ^ (16 - b4) < 2 ^ 16" using uint_lt2p [of v4] s4(2) by simp
  also have "(2 :: int) ^ 16 = 2 ^ b4 * 2 ^ (16 - b4)" using s4(4) by (simp flip: power_add)
  finally have "uint v < 2 ^ b4" by simp
  moreover have "(2 :: int) ^ 15 = 2 ^ (b4 - 1) * 2 ^ (16 - b4)" using s4(3,4) by (simp flip: power_add)
  then have "2 ^ (b4 - 1) * 2 ^ (16 - b4) \<le> uint v * 2 ^ (16 - b4)" using s4(2,5) by linarith
  then have "2 ^ (b4 - 1) \<le> uint v" by simp
  ultimately show "1 \<le> flss v" "flss v \<le> 16" "2 ^ (flss v - 1) \<le> uint v" "uint v < 2 ^ flss v" using s4(3,4) f by simp_all
qed

section \<open>The manager\<close>

text \<open>
  The divisor tables have four parts of 64 entries. \<open>simd_quantize\<close> tells whether \<open>fdct->quantize\<close> is the
  SIMD routine; the tables of the floating-point method and how they are computed are parameters.
\<close>

record 'f fdct_controller =
  divisors :: "u16 list option list"
  float_divisors :: "'f option list"
  simd_quantize :: bool

fun set_divisors :: "(nat \<times> u16) list \<Rightarrow> u16 list \<times> bool \<Rightarrow> (u16 list \<times> bool) option" where
  "set_divisors [] s = Some s"
| "set_divisors ((i, d) # ds) (dtbl, simd) =
     (case compute_reciprocal d of
        None \<Rightarrow> None
      | Some (ret, recip, corr, scale, shift) \<Rightarrow>
          set_divisors ds (dtbl[i := recip, DCTSIZE2 + i := corr, DCTSIZE2 * 2 + i := scale, DCTSIZE2 * 3 + i := shift], simd \<and> ret \<noteq> 0))"

definition aanscales :: "int list" where
  "aanscales =
    [16384, 22725, 21407, 19266, 16384, 12873,  8867,  4520,
     22725, 31521, 29692, 26722, 22725, 17855, 12299,  6270,
     21407, 29692, 27969, 25172, 21407, 16819, 11585,  5906,
     19266, 26722, 25172, 22654, 19266, 15137, 10426,  5315,
     16384, 22725, 21407, 19266, 16384, 12873,  8867,  4520,
     12873, 17855, 16819, 15137, 12873, 10114,  6967,  3552,
      8867, 12299, 11585, 10426,  8867,  6967,  4799,  2446,
      4520,  6270,  5906,  5315,  4520,  3552,  2446,  1247]"

definition islow_divisors :: "u16 list \<Rightarrow> (nat \<times> u16) list" where
  "islow_divisors qv = map (\<lambda>i. (i, push_bit 3 (qv ! i))) [0..<DCTSIZE2]"

definition ifast_divisors :: "u16 list \<Rightarrow> (nat \<times> u16) list" where
  "ifast_divisors qv = map (\<lambda>i. (i, word_of_int (DESCALE (uint (qv ! i) * aanscales ! i) (14 - 3)))) [0..<DCTSIZE2]"

text \<open>One component; \<open>fresh\<close> is what newly allocated memory holds.\<close>

definition start_component ::
  "(u16 list \<Rightarrow> 'f) \<Rightarrow> u16 list \<Rightarrow> jpeg_compress_struct \<Rightarrow> jpeg_component_info \<Rightarrow> 'f fdct_controller \<Rightarrow> fault + 'f fdct_controller" where
  "start_component fdtbl fresh cinfo compptr fdct =
     (let qtblno = quant_tbl_no compptr
      in if qtblno < 0 \<or> int NUM_QUANT_TBLS \<le> qtblno then Inl (ErrExit (JERR_NO_QUANT_TABLE qtblno))
         else case quant_tbl_ptrs cinfo ! nat qtblno of
                None \<Rightarrow> Inl (ErrExit (JERR_NO_QUANT_TABLE qtblno))
              | Some qtbl \<Rightarrow>
                  let dtbl = (case divisors fdct ! nat qtblno of None \<Rightarrow> fresh | Some d \<Rightarrow> d);
                      integer = (\<lambda>ds. case set_divisors ds (dtbl, simd_quantize fdct) of
                          None \<Rightarrow> Inl OutOfBounds
                        | Some (dtbl, simd) \<Rightarrow> Inr (fdct\<lparr>divisors := (divisors fdct)[nat qtblno := Some dtbl], simd_quantize := simd\<rparr>))
                  in case dct_method cinfo of
                       JDCT_ISLOW \<Rightarrow> integer (islow_divisors (quantval qtbl))
                     | JDCT_IFAST \<Rightarrow> integer (ifast_divisors (quantval qtbl))
                     | JDCT_FLOAT \<Rightarrow> Inr (fdct\<lparr>float_divisors := (float_divisors fdct)[nat qtblno := Some (fdtbl (quantval qtbl))]\<rparr>))"

fun start_components ::
  "(u16 list \<Rightarrow> 'f) \<Rightarrow> u16 list \<Rightarrow> jpeg_compress_struct \<Rightarrow> jpeg_component_info list \<Rightarrow> 'f fdct_controller \<Rightarrow> fault + 'f fdct_controller" where
  "start_components fdtbl fresh cinfo [] fdct = Inr fdct"
| "start_components fdtbl fresh cinfo (c # cs) fdct =
     ebind (start_component fdtbl fresh cinfo c fdct) (start_components fdtbl fresh cinfo cs)"

definition start_pass_fdctmgr ::
  "(u16 list \<Rightarrow> 'f) \<Rightarrow> u16 list \<Rightarrow> jpeg_compress_struct \<Rightarrow> 'f fdct_controller \<Rightarrow> fault + 'f fdct_controller" where
  "start_pass_fdctmgr fdtbl fresh cinfo = start_components fdtbl fresh cinfo (take (nat (num_components cinfo)) (comp_info cinfo))"

definition jinit_forward_dct :: "bool \<Rightarrow> 'f fdct_controller" where
  "jinit_forward_dct can_quantize = \<lparr>divisors = replicate 4 None, float_divisors = replicate 4 None, simd_quantize = can_quantize\<rparr>"

section \<open>One block\<close>

text \<open>Samples outside the array are undefined.\<close>

definition convsamp :: "u8 list list \<Rightarrow> nat \<Rightarrow> int list option" where
  "convsamp sample_data start_col =
     (if length sample_data < 8 \<or> \<not> list_all (\<lambda>row. start_col + 8 \<le> length row) (take 8 sample_data) then None
      else Some (concat (map (\<lambda>elemr. map (\<lambda>c. uint (sample_data ! elemr ! (start_col + c)) - 128) [0..<8]) [0..<8])))"

definition quantize :: "u16 list \<Rightarrow> int list \<Rightarrow> int list option" where
  "quantize dtbl workspace =
     all_some (map (\<lambda>i. map_option sint (quantize_value (word_of_int (workspace ! i))
        (dtbl ! i) (dtbl ! (i + DCTSIZE2)) (dtbl ! (i + DCTSIZE2 * 3)))) [0..<DCTSIZE2])"

definition forward_block :: "(int list \<Rightarrow> int list option) \<Rightarrow> u16 list \<Rightarrow> u8 list list \<Rightarrow> nat \<Rightarrow> int list option" where
  "forward_block dct dtbl sample_data start_col =
     Option.bind (convsamp sample_data start_col) (\<lambda>w. Option.bind (dct w) (quantize dtbl))"

definition forward_DCT :: "(int list \<Rightarrow> int list option) \<Rightarrow> u16 list \<Rightarrow> u8 list list \<Rightarrow> nat \<Rightarrow> nat \<Rightarrow> nat \<Rightarrow> int list list option" where
  "forward_DCT dct dtbl sample_data start_row start_col num_blocks =
     all_some (map (\<lambda>bi. forward_block dct dtbl (drop start_row sample_data) (start_col + 8 * bi)) [0..<num_blocks])"

section \<open>Quantisation is rounded division\<close>

lemma div_between: "0 < (b :: int) \<Longrightarrow> q * b \<le> a \<Longrightarrow> a < (q + 1) * b \<Longrightarrow> a div b = q"
  by (rule int_div_pos_eq [of _ _ _ "a - q * b"]) (simp_all add: algebra_simps)

lemma div_bounds: "0 < (d :: int) \<Longrightarrow> n div d * d \<le> n \<and> n + 1 \<le> (n div d + 1) * d"
proof -
  assume "0 < d"
  then have "0 \<le> n mod d" "n mod d < d" by simp_all
  moreover have "n = n div d * d + n mod d" by simp
  ultimately show ?thesis unfolding distrib_right mult_1 by linarith
qed

text \<open>The three cases of the reciprocal, on integers.\<close>

lemma reciprocal_low:
  fixes n d f e :: int
  assumes "0 < d" "0 \<le> n" "2 ^ r = f * d + e" "0 < e" "(n + 1) * e \<le> 2 ^ r"
  shows "((n + 1) * f) div 2 ^ r = n div d"
proof -
  let ?q = "n div d" and ?R = "(2 :: int) ^ r"
  have n: "?q * d \<le> n" "n + 1 \<le> (?q + 1) * d"
    using div_bounds [OF assms(1)] by simp_all
  have fd: "d * ((n + 1) * f) = (n + 1) * ?R - (n + 1) * e" using assms(3) by (simp add: algebra_simps)
  have "?q * d * ?R + ?R \<le> (n + 1) * ?R" using mult_right_mono [of "?q * d + 1" "n + 1" ?R] n(1) by (simp add: distrib_right)
  then have "d * (?q * ?R) \<le> d * ((n + 1) * f)" using fd assms(5) by (simp add: mult.assoc mult.left_commute)
  then have lo: "?q * ?R \<le> (n + 1) * f" using assms(1) by simp
  have "(n + 1) * ?R \<le> (?q + 1) * d * ?R" using mult_right_mono [OF n(2), of ?R] by simp
  moreover have "0 < (n + 1) * e" using assms(2,4) by simp
  ultimately have "d * ((n + 1) * f) < (?q + 1) * d * ?R" using fd by linarith
  also have "(?q + 1) * d * ?R = d * ((?q + 1) * ?R)" by (simp only: ac_simps)
  finally have "d * ((n + 1) * f) < d * ((?q + 1) * ?R)" .
  then have hi: "(n + 1) * f < (?q + 1) * ?R" using assms(1) by simp
  show ?thesis using lo hi by (intro div_between) simp_all
qed

lemma reciprocal_high:
  fixes n d f e :: int
  assumes "0 < d" "0 \<le> n" "f * d = 2 ^ r + e" "0 \<le> e" "n * e < 2 ^ r"
  shows "(n * f) div 2 ^ r = n div d"
proof -
  let ?q = "n div d" and ?R = "(2 :: int) ^ r"
  have n: "?q * d \<le> n" "n + 1 \<le> (?q + 1) * d"
    using div_bounds [OF assms(1)] by simp_all
  have "d * (n * f) = n * (f * d)" by (simp only: ac_simps)
  then have fd: "d * (n * f) = n * ?R + n * e" by (simp add: assms(3) distrib_left)
  have "?q * d * ?R \<le> n * ?R" by (rule mult_right_mono [OF n(1)]) simp
  moreover have "?q * d * ?R = d * (?q * ?R)" by (simp only: ac_simps)
  moreover have "0 \<le> n * e" using assms(2,4) by simp
  ultimately have "d * (?q * ?R) \<le> d * (n * f)" using fd by linarith
  then have lo: "?q * ?R \<le> n * f" using assms(1) by simp
  have "(n + 1) * ?R \<le> (?q + 1) * d * ?R" using mult_right_mono [OF n(2), of ?R] by simp
  then have "d * (n * f) < (?q + 1) * d * ?R" using fd assms(5) by (simp add: distrib_right)
  also have "(?q + 1) * d * ?R = d * ((?q + 1) * ?R)" by (simp only: ac_simps)
  finally have "d * (n * f) < d * ((?q + 1) * ?R)" .
  then have hi: "n * f < (?q + 1) * ?R" using assms(1) by simp
  show ?thesis using lo hi by (intro div_between) simp_all
qed


text \<open>The values \<open>compute_reciprocal\<close> stores, for every divisor above 1.\<close>

lemma two_pow_div:
  assumes "2 ^ b < d" "d < 2 ^ (b + 1)" "b \<le> 15"
  shows "(2 :: int) ^ (16 + b) div d < 2 ^ 16 - 1"
proof -
  have "(2 :: int) ^ (16 + b) < (2 ^ 16 - 1) * (2 ^ b + 1)"
  proof -
    have "(2 :: int) ^ b \<le> 2 ^ 15" by (rule power_increasing) (use assms(3) in simp_all)
    then show ?thesis by (simp add: power_add algebra_simps)
  qed
  also have "\<dots> \<le> (2 ^ 16 - 1) * d" by (rule mult_left_mono) (use assms(1) in simp_all)
  finally have l: "(2 :: int) ^ (16 + b) < (2 ^ 16 - 1) * d" .
  have d: "0 < d" using assms(1) by (smt (verit) zero_less_power)
  have "(2 :: int) ^ (16 + b) div d * d \<le> 2 ^ (16 + b)" using div_bounds [OF d] by blast
  with l have "(2 :: int) ^ (16 + b) div d * d < (2 ^ 16 - 1) * d" by linarith
  then show ?thesis using d by simp
qed

lemma power2_factor: "0 < (x :: int) \<Longrightarrow> x * y = 2 ^ n \<Longrightarrow> \<exists>k. x = 2 ^ k"
proof (induction n arbitrary: x y)
  case 0
  then have "x = 1" by (simp add: pos_zmult_eq_1_iff)
  then show ?case by (intro exI [of _ 0]) simp
next
  case (Suc n)
  show ?case
  proof (cases "even x")
    case True
    then obtain x' where x: "x = 2 * x'" by blast
    then have "\<exists>k. x' = 2 ^ k" using Suc.IH [of x' y] Suc.prems by simp
    then show ?thesis using x by (metis power_Suc)
  next
    case False
    have "even (x * y)" using Suc.prems(2) by simp
    then obtain y' where "y = 2 * y'" using False by (auto elim: evenE)
    then show ?thesis using Suc.IH [of x y'] Suc.prems by simp
  qed
qed

text \<open>What a reciprocal must do: for all 16-bit numerators below 65535.\<close>

definition divides_by :: "int \<Rightarrow> u16 \<times> u16 \<times> u16 \<Rightarrow> bool" where
  "divides_by d = (\<lambda>(recip, corr, shift). uint shift < 16 \<and> uint corr \<le> 32768 \<and> 
     (\<forall>m. 0 \<le> m \<and> m \<le> 32767 \<longrightarrow> ((m + uint corr) * uint recip) div 2 ^ (unat shift + 16) = (m + d div 2) div d))"

lemma compute_reciprocal_ok:
  assumes "2 \<le> uint d"
  obtains ret recip corr scale shift where "compute_reciprocal d = Some (ret, recip, corr, scale, shift)" "divides_by (uint d) (recip, corr, shift)"
proof -
  define b where "b = flss d - 1"
  have d0: "d \<noteq> 0" using assms by auto
  note f = flss_bits [OF d0]
  have b: "b \<le> 15" "2 ^ b \<le> uint d" "uint d < 2 ^ (b + 1)" using f by (simp_all add: b_def)
  have b1: "1 \<le> b"
  proof (rule ccontr)
    assume "\<not> 1 \<le> b" then have "b = 0" by simp
    then show False using b(3) assms by simp
  qed
  define fq fr where "fq = (2 :: int) ^ (16 + b) div uint d" and "fr = (2 :: int) ^ (16 + b) mod uint d"
  let ?W = "push_bit (16 + b) (1 :: u32)"
  have W: "uint ?W = 2 ^ (16 + b)" using b(1) by (subst unsigned_push_bit_eq) (simp add: push_bit_eq_mult take_bit_int_eq_self power_strict_increasing)
  have ud: "uint (ucast d :: u32) = uint d" by (rule uint_up_ucast) (simp add: is_up)
  have wq: "uint (?W div ucast d) = fq" "uint (?W mod ucast d) = fr"
    unfolding fq_def fr_def by (simp_all only: uint_div_distrib uint_mod_distrib W ud)
  have e: "2 ^ (16 + b) = fq * uint d + fr" by (simp add: fq_def fr_def)
  have fr: "0 \<le> fr" "fr < uint d" using assms by (simp_all add: fr_def)
  have d16: "uint d < 65536" using uint_lt2p [of d] by simp
  have half: "uint (d div 2) = uint d div 2" by (simp add: uint_div_distrib)
  have c0: "?W mod ucast d = 0 \<longleftrightarrow> fr = 0" unfolding word_uint_eq_iff wq by simp
  have c1: "?W mod ucast d \<le> ucast (d div 2) \<longleftrightarrow> fr \<le> uint d div 2"
    unfolding word_le_def wq by (simp add: uint_up_ucast is_up half)
  have sh: "uint (word_of_int (int (16 + b) - 16) :: u16) = int b" "unat (word_of_int (int (16 + b) - 16) :: u16) = b"
    using order.strict_trans1 [OF b(1), of "65536"] by (simp_all add: unsigned_of_nat take_bit_nat_eq_self)
  have bd: "uint d div 2 < 2 ^ b" "(uint d - 1) div 2 < 2 ^ b" using b(3) by simp_all
  have strict: "fq < 65535" if "fr \<noteq> 0"
  proof -
    have "uint d \<noteq> 2 ^ b" using that by (auto simp: fr_def power_add)
    then show ?thesis using two_pow_div [of b "uint d"] b by (simp add: fq_def)
  qed
  have fq0: "0 \<le> fq" using assms by (simp add: fq_def pos_imp_zdiv_nonneg_iff)
  consider (exact) "fr = 0" | (low) "fr \<noteq> 0" "fr \<le> uint d div 2" | (high) "uint d div 2 < fr" by linarith
  then show thesis
  proof cases
    case exact
    obtain k where k: "uint d = 2 ^ k" using power2_factor [of "uint d" fq "16 + b"] e exact assms by (auto simp: mult.commute)
    have "k < b + 1" "b \<le> k" using b(2,3) unfolding k by (simp_all only: power_strict_increasing_iff power_increasing_iff one_less_numeral_iff semiring_norm)
    then have kb: "k = b" by simp
    have "fq = 2 ^ 16" using kb k by (simp add: fq_def power_add)
    moreover have "uint (drop_bit 1 (?W div ucast d)) = drop_bit 1 (take_bit LENGTH(32) fq)" by (simp only: unsigned_drop_bit_eq wq(1))
    ultimately have r: "uint (ucast (drop_bit 1 (?W div ucast d)) :: u16) = 2 ^ 15"
      unfolding unsigned_ucast_eq by (simp add: drop_bit_eq_div take_bit_eq_mod)
    have sh: "uint (word_of_int (int (16 + b - 1) - 16) :: u16) = int b - 1" "unat (word_of_int (int (16 + b - 1) - 16) :: u16) = b - 1"
    proof -
      have "int (16 + b - 1) - 16 = int (b - 1)" "b - 1 < 65536" using b(1) b1 by simp_all
      then show "uint (word_of_int (int (16 + b - 1) - 16) :: u16) = int b - 1" "unat (word_of_int (int (16 + b - 1) - 16) :: u16) = b - 1"
        using b1 by (simp_all add: unsigned_of_nat take_bit_nat_eq_self del: of_nat_diff)
    qed
    have "compute_reciprocal d = Some (if 16 + b - 1 \<le> 16 then 0 else 1, ucast (drop_bit 1 (?W div ucast d)), d div 2,
        ucast (push_bit (32 - (16 + b - 1)) (1 :: u32)), word_of_int (int (16 + b - 1) - 16))"
      using d0 exact c0 unfolding compute_reciprocal_def b_def [symmetric] Let_def by simp
    moreover have "divides_by (uint d) (ucast (drop_bit 1 (?W div ucast d)), d div 2, word_of_int (int (16 + b - 1) - 16))"
    proof -
      have p: "b - 1 + 16 = b + 15" using b1 by simp
      have "(m + uint d div 2) * 2 ^ 15 div 2 ^ (b + 15) = (m + uint d div 2) div uint d" for m
        unfolding k kb power_add by (rule div_mult_mult2) simp
      then show ?thesis using b(1) b1 d16 unfolding divides_by_def split r half sh p by simp
    qed
    ultimately show thesis using that by blast
  next
    case low
    have r: "uint (ucast (?W div ucast d) :: u16) = fq" using strict [OF low(1)] fq0 wq(1) by (simp add: unsigned_ucast_eq take_bit_int_eq_self)
    have c: "uint (d div 2 + 1) = uint d div 2 + 1" using d16 by (simp add: uint_word_ariths half)
    have "compute_reciprocal d = Some (if 16 + b \<le> 16 then 0 else 1, ucast (?W div ucast d), d div 2 + 1,
        ucast (push_bit (32 - (16 + b)) (1 :: u32)), word_of_int (int (16 + b) - 16))"
      using d0 low c0 c1 unfolding compute_reciprocal_def b_def [symmetric] Let_def by simp
    moreover have "divides_by (uint d) (ucast (?W div ucast d), d div 2 + 1, word_of_int (int (16 + b) - 16))"
    proof -
      have "((m + (uint d div 2 + 1)) * fq) div 2 ^ (b + 16) = (m + uint d div 2) div uint d" if m: "0 \<le> m" "m \<le> 32767" for m
      proof -
        have "(m + uint d div 2 + 1) * fr \<le> 2 ^ 16 * 2 ^ b"
          by (rule mult_mono) (use m d16 low(2) bd(1) fr in simp_all)
        then have "(m + uint d div 2 + 1) * fq div 2 ^ (16 + b) = (m + uint d div 2) div uint d"
          using m assms e fr low(1) by (intro reciprocal_low [of _ _ _ _ fr]) (simp_all add: power_add)
        then show ?thesis by (simp add: add.assoc add.commute add.left_commute)
      qed
      then show ?thesis using b(1) d16 unfolding divides_by_def split r c sh by simp
    qed
    ultimately show thesis using that by blast
  next
    case high
    then have h: "fr \<noteq> 0" using assms by auto
    have r: "uint (ucast (?W div ucast d + 1) :: u16) = fq + 1"
      using strict [OF h] fq0 wq(1) by (simp add: unsigned_ucast_eq take_bit_int_eq_self uint_word_ariths)
    have "compute_reciprocal d = Some (if 16 + b \<le> 16 then 0 else 1, ucast (?W div ucast d + 1), d div 2,
        ucast (push_bit (32 - (16 + b)) (1 :: u32)), word_of_int (int (16 + b) - 16))"
      using d0 high h c0 c1 unfolding compute_reciprocal_def b_def [symmetric] Let_def by simp
    moreover have "divides_by (uint d) (ucast (?W div ucast d + 1), d div 2, word_of_int (int (16 + b) - 16))"
    proof -
      have "((m + uint d div 2) * (fq + 1)) div 2 ^ (b + 16) = (m + uint d div 2) div uint d" if m: "0 \<le> m" "m \<le> 32767" for m
      proof -
        have d2: "uint d - fr \<le> (uint d - 1) div 2" using high by linarith
        have "(m + uint d div 2) * (uint d - fr) \<le> 65535 * (2 ^ b - 1)"
          by (rule mult_mono) (use m d16 d2 bd(2) fr in simp_all)
        also have "65535 * (2 ^ b - 1) < (2 :: int) ^ 16 * 2 ^ b" by (rule less_le_trans [of _ "65535 * 2 ^ b"]) simp_all
        finally have "(m + uint d div 2) * (fq + 1) div 2 ^ (16 + b) = (m + uint d div 2) div uint d"
          using m assms e fr by (intro reciprocal_high [of _ _ _ _ "uint d - fr"]) (simp_all add: power_add distrib_right)
        then show ?thesis by (simp add: add.commute)
      qed
      then show ?thesis using b(1) d16 unfolding divides_by_def split r half sh by simp
    qed
    ultimately show thesis using that by blast
  qed
qed


lemma uint_drop_bit_div: "uint (drop_bit n w) = uint w div 2 ^ n" for w :: u32
proof -
  have "take_bit LENGTH(32) (uint w) = uint w" using uint_lt2p [of w] by (intro take_bit_int_eq_self) simp_all
  then show ?thesis unfolding unsigned_drop_bit_eq by (simp only: drop_bit_eq_div)
qed

lemma quantize_value_ok:
  assumes "divides_by d (recip, corr, shift)" "0 < d" "sint t \<noteq> - 32768" "d < 65536"
  shows "quantize_value t recip corr shift = Some (word_of_int (rounded_quotient (sint t) d))"
proof -
  have sr: "- 32768 \<le> sint t" "sint t < 32768" using sint_range_size [of t] by (simp_all add: word_size)
  have D: "uint shift < 16" "uint corr \<le> 32768"
    "\<And>m. 0 \<le> m \<Longrightarrow> m \<le> 32767 \<Longrightarrow> ((m + uint corr) * uint recip) div 2 ^ (unat shift + 16) = (m + d div 2) div d"
    using assms(1) by (auto simp: divides_by_def)
  have n: "unat shift + 16 < 32" using D(1) by (simp flip: nat_uint_eq)
  have q: "ucast (drop_bit (unat shift + 16) ((scast u + ucast corr :: u32) * ucast recip)) = (word_of_int ((sint u + d div 2) div d) :: u16)"
    if "0 \<le> sint u" "sint u \<le> 32767" for u :: u16
  proof -
    have "uint (word_of_int (sint u) :: u32) = sint u" unfolding uint_word_of_int using that by (intro mod_pos_pos_trivial) simp_all
    then have "uint (scast u :: u32) = sint u" by (simp only: scast_eq)
    moreover have "uint (ucast corr :: u32) = uint corr" "uint (ucast recip :: u32) = uint recip" by (simp_all add: uint_up_ucast is_up)
    moreover have "(sint u + uint corr) * uint recip \<le> 65535 * 65535"
      by (rule mult_mono) (use that D(2) uint_lt2p [of recip] in simp_all)
    ultimately have "uint ((scast u + ucast corr :: u32) * ucast recip) = (sint u + uint corr) * uint recip"
      using that D(2) by (simp add: uint_word_ariths)
    then have "uint (drop_bit (unat shift + 16) ((scast u + ucast corr :: u32) * ucast recip)) = (sint u + d div 2) div d"
      using D(3) [OF that] by (simp only: uint_drop_bit_div)
    then show ?thesis by (metis word_of_int_uint ucast_eq)
  qed
  show ?thesis
  proof (cases "sint t < 0")
    case True
    have "sint (- t) = - sint t" using assms(3) sr True by (simp add: sint_word_ariths signed_take_bit_int_eq_self)
    then show ?thesis using q [of "- t"] True sr assms(3) n
      by (simp add: quantize_value_def Let_def rounded_quotient_def)
  next
    case False
    then show ?thesis using q [of t] sr n assms(2)
      by (cases "sint t = 0") (simp_all add: quantize_value_def Let_def rounded_quotient_def)
  qed
qed


section \<open>A block of samples\<close>

text \<open>The tables of the accurate method: after the first \<open>k\<close> entries have been written.\<close>

lemma set_divisors_ok:
  assumes "length qv = 64" "\<forall>i<64. 1 \<le> uint (qv ! i) \<and> uint (qv ! i) \<le> 8191" "length dtbl = 256" "k \<le> 64"
    and "\<forall>i<k. divides_by (8 * uint (qv ! i)) (dtbl ! i, dtbl ! (64 + i), dtbl ! (192 + i))"
  shows "\<exists>dtbl' simd'. set_divisors (map (\<lambda>i. (i, push_bit 3 (qv ! i))) [k..<64]) (dtbl, simd) = Some (dtbl', simd') \<and> length dtbl' = 256 \<and>
     (\<forall>i<64. divides_by (8 * uint (qv ! i)) (dtbl' ! i, dtbl' ! (64 + i), dtbl' ! (192 + i)))"
  using assms(3-5)
proof (induction "64 - k" arbitrary: k dtbl simd)
  case 0
  then show ?case by simp
next
  case (Suc n)
  have k: "k < 64" using Suc.hyps(2) by simp
  have d: "uint (push_bit 3 (qv ! k)) = 8 * uint (qv ! k)"
    using assms(2) [rule_format, OF k] by (subst unsigned_push_bit_eq) (simp add: push_bit_eq_mult take_bit_int_eq_self)
  obtain ret recip corr scale shift where c: "compute_reciprocal (push_bit 3 (qv ! k)) = Some (ret, recip, corr, scale, shift)"
    "divides_by (8 * uint (qv ! k)) (recip, corr, shift)"
  proof -
    have "2 \<le> uint (push_bit 3 (qv ! k))" using assms(2) [rule_format, OF k] unfolding d by simp
    then obtain ret recip corr scale shift where "compute_reciprocal (push_bit 3 (qv ! k)) = Some (ret, recip, corr, scale, shift)"
      "divides_by (uint (push_bit 3 (qv ! k))) (recip, corr, shift)" by (rule compute_reciprocal_ok)
    then show thesis using that unfolding d by blast
  qed
  let ?t = "dtbl[k := recip, 64 + k := corr, 128 + k := scale, 192 + k := shift]"
  have "divides_by (8 * uint (qv ! i)) (?t ! i, ?t ! (64 + i), ?t ! (192 + i))" if "i < Suc k" for i
    using that c(2) Suc.prems k by (cases "i = k") (simp_all add: nth_list_update)
  then have "\<exists>dtbl' simd'. set_divisors (map (\<lambda>i. (i, push_bit 3 (qv ! i))) [Suc k..<64]) (?t, simd \<and> ret \<noteq> 0) = Some (dtbl', simd') \<and> length dtbl' = 256 \<and>
     (\<forall>i<64. divides_by (8 * uint (qv ! i)) (dtbl' ! i, dtbl' ! (64 + i), dtbl' ! (192 + i)))"
    using Suc.hyps Suc.prems k by (intro Suc.hyps(1)) simp_all
  then show ?case using k c(1) by (simp add: upt_conv_Cons DCTSIZE2_def)
qed


text \<open>The samples of the block in column \<open>start_col\<close>, centred.\<close>

definition centred :: "u8 list list \<Rightarrow> nat \<Rightarrow> int list" where
  "centred rows col = concat (map (\<lambda>r. map (\<lambda>c. uint (rows ! r ! (col + c)) - 128) [0..<8]) [0..<8])"

lemma length_centred [simp]: "length (centred rows col) = 64"
  unfolding centred_def by (subst concat_eights) simp_all

lemma centred_within: "list_all (bounded_by 128) (centred rows col)"
proof -
  have "bounded_by 128 (uint (b :: u8) - 128)" for b using uint_lt2p [of b] by (simp add: bounded_by_def)
  then show ?thesis by (auto simp: centred_def list_all_iff)
qed

lemma rounded_quotient_smaller:
  assumes "2 \<le> d"
  shows "\<bar>rounded_quotient x d\<bar> \<le> \<bar>x\<bar>"
proof (cases "x = 0")
  case False
  have "\<bar>x\<bar> + d div 2 < (\<bar>x\<bar> + 1) * d"
  proof -
    have "\<bar>x\<bar> * 1 \<le> \<bar>x\<bar> * d" by (rule mult_left_mono) (use assms in simp_all)
    moreover have "d div 2 < d" using assms by simp
    ultimately show ?thesis unfolding distrib_right by simp
  qed
  moreover have "(\<bar>x\<bar> + d div 2) div d * d \<le> \<bar>x\<bar> + d div 2" using div_bounds [of d "\<bar>x\<bar> + d div 2"] assms by simp
  ultimately have "(\<bar>x\<bar> + d div 2) div d * d < (\<bar>x\<bar> + 1) * d" by linarith
  then have "(\<bar>x\<bar> + d div 2) div d \<le> \<bar>x\<bar>" using assms by (simp add: mult_less_cancel_right)
  moreover have "0 \<le> (\<bar>x\<bar> + d div 2) div d" using assms by (simp add: pos_imp_zdiv_nonneg_iff)
  ultimately show ?thesis by (simp add: rounded_quotient_def abs_mult abs_sgn_eq)
qed (use assms in \<open>simp add: rounded_quotient_def\<close>)

lemma quantize_ok:
  assumes "length w = 64" "list_all (bounded_by 8200) w" "\<forall>i<64. 1 \<le> q ! i \<and> q ! i \<le> 8191"
    and "\<forall>i<64. divides_by (8 * q ! i) (dtbl ! i, dtbl ! (64 + i), dtbl ! (192 + i))"
  shows "quantize dtbl w = Some (map (\<lambda>i. rounded_quotient (w ! i) (8 * q ! i)) [0..<64])"
  unfolding quantize_def DCTSIZE2_def
proof (rule all_some_map)
  fix i assume "i \<in> set [0..<64]"
  then have i: "i < 64" by simp
  have w: "bounded_by 8200 (w ! i)" using assms(1,2) i by (simp add: list_all_length)
  then have s: "sint (word_of_int (w ! i) :: u16) = w ! i" by (simp add: bounded_by_def sint_sbintrunc' signed_take_bit_int_eq_self)
  have d: "8 \<le> 8 * q ! i" "8 * q ! i < 65536" using assms(3) i by auto
  have "\<bar>rounded_quotient (w ! i) (8 * q ! i)\<bar> \<le> \<bar>w ! i\<bar>" using d(1) by (intro rounded_quotient_smaller) simp
  then have "- 8200 \<le> rounded_quotient (w ! i) (8 * q ! i)" "rounded_quotient (w ! i) (8 * q ! i) \<le> 8200"
    using w unfolding bounded_by_def by linarith+
  then have "sint (word_of_int (rounded_quotient (w ! i) (8 * q ! i)) :: u16) = rounded_quotient (w ! i) (8 * q ! i)"
    by (simp add: sint_sbintrunc' signed_take_bit_int_eq_self)
  moreover have "quantize_value (word_of_int (w ! i)) (dtbl ! i) (dtbl ! (64 + i)) (dtbl ! (192 + i)) =
      Some (word_of_int (rounded_quotient (w ! i) (8 * q ! i)))"
    using quantize_value_ok [OF assms(4) [rule_format, OF i], of "word_of_int (w ! i)"] w d unfolding s by (simp add: bounded_by_def)
  ultimately show "map_option sint (quantize_value (word_of_int (w ! i)) (dtbl ! i) (dtbl ! (i + 64)) (dtbl ! (i + 64 * 3))) =
      Some (rounded_quotient (w ! i) (8 * q ! i))" by (simp add: add.commute)
qed


text \<open>
  C23. The reciprocals divide exactly: for every divisor from 2 to 65535 and every 16-bit workspace value
  but -32768, \<open>quantize\<close> computes, in 32-bit arithmetic and without a division, the quotient rounded half
  away from zero. The divisor 0 divides by zero, and 1 makes \<open>quantize\<close> shift by more than 31.
\<close>

theorem reciprocal_exact:
  assumes "2 \<le> uint d" "sint t \<noteq> - 32768"
  shows "\<exists>ret recip corr scale shift. compute_reciprocal d = Some (ret, recip, corr, scale, shift) \<and>
     quantize_value t recip corr shift = Some (word_of_int (rounded_quotient (sint t) (uint d)))"
proof -
  obtain ret recip corr scale shift where c: "compute_reciprocal d = Some (ret, recip, corr, scale, shift)"
    "divides_by (uint d) (recip, corr, shift)" using assms(1) by (rule compute_reciprocal_ok)
  have "uint d < 65536" using uint_lt2p [of d] by simp
  with quantize_value_ok [OF c(2) _ assms(2)] assms(1) c(1) show ?thesis by auto
qed

theorem reciprocal_exact_witness:
  "\<exists>ret recip corr scale shift. compute_reciprocal 48 = Some (ret, recip, corr, scale, shift) \<and>
     quantize_value (- 1000) recip corr shift = Some (word_of_int (- 21))"
  using reciprocal_exact [of 48 "- 1000"] by (simp add: rounded_quotient_def)

lemma forward_block_ok:
  assumes "length qv = 64" "\<forall>i<64. 1 \<le> uint (qv ! i) \<and> uint (qv ! i) \<le> 8191"
    and "\<forall>i<64. divides_by (8 * uint (qv ! i)) (dtbl ! i, dtbl ! (64 + i), dtbl ! (192 + i))"
    and "8 \<le> length rows" "\<forall>r<8. col + 8 \<le> length (rows ! r)"
    and f: "jpeg_fdct_islow (centred rows col) = Some f" "length f = 64" "list_all (bounded_by 8200) f"
  shows "forward_block jpeg_fdct_islow dtbl rows col = Some (map (\<lambda>i. rounded_quotient (f ! i) (8 * map uint qv ! i)) [0..<64])"
proof -
  have "list_all (\<lambda>row. col + 8 \<le> length row) (take 8 rows)" using assms(4,5) by (simp add: list_all_length)
  then have c: "convsamp rows col = Some (centred rows col)" using assms(4) by (simp add: convsamp_def centred_def)
  have "quantize dtbl f = Some (map (\<lambda>i. rounded_quotient (f ! i) (8 * map uint qv ! i)) [0..<64])"
    by (rule quantize_ok [OF f(2,3)]) (use assms(1-3) in \<open>simp_all\<close>)
  then show ?thesis by (simp add: forward_block_def c f(1))
qed

text \<open>
  A block as the JPEG standard describes it: the quotient, rounded, of a value within half a unit of each
  DCT coefficient and its quantisation step; the DC value is exactly the sum of the centred samples.
\<close>

definition quantised_dct :: "int list \<Rightarrow> (nat \<Rightarrow> int) \<Rightarrow> int list \<Rightarrow> bool" where
  "quantised_dct samples q block \<longleftrightarrow> length block = 64 \<and> block ! 0 = rounded_quotient (sum_list samples) (8 * q 0) \<and>
     (\<forall>v<8. \<forall>u<8. \<exists>x. \<bar>of_int x - 8 * dct_coefficient samples v u\<bar> \<le> 4 \<and> block ! (8 * v + u) = rounded_quotient x (8 * q (8 * v + u)))"

lemma forward_block_quantised:
  assumes "length qv = 64" "\<forall>i<64. 1 \<le> uint (qv ! i) \<and> uint (qv ! i) \<le> 8191"
    and "\<forall>i<64. divides_by (8 * uint (qv ! i)) (dtbl ! i, dtbl ! (64 + i), dtbl ! (192 + i))"
    and "8 \<le> length rows" "\<forall>r<8. col + 8 \<le> length (rows ! r)"
  shows "\<exists>block. forward_block jpeg_fdct_islow dtbl rows col = Some block \<and> quantised_dct (centred rows col) (\<lambda>i. uint (qv ! i)) block"
proof -
  obtain f where f: "jpeg_fdct_islow (centred rows col) = Some f" "length f = 64" "list_all (bounded_by 8200) f"
    by (rule fdct_islow_ok [OF length_centred centred_within])
  have x: "\<bar>of_int (f ! (8 * v + u)) - 8 * dct_coefficient (centred rows col) v u\<bar> \<le> 4" if "v < 8" "u < 8" for v u
    by (rule fdct_close [OF length_centred centred_within f(1) that])
  have "quantised_dct (centred rows col) (\<lambda>i. uint (qv ! i)) (map (\<lambda>i. rounded_quotient (f ! i) (8 * map uint qv ! i)) [0..<64])"
    using assms(1) x fdct_DC [OF length_centred centred_within f(1)] unfolding quantised_dct_def by auto
  then show ?thesis using forward_block_ok [OF assms f] by blast
qed

lemma forward_DCT_quantised:
  assumes "length qv = 64" "\<forall>i<64. 1 \<le> uint (qv ! i) \<and> uint (qv ! i) \<le> 8191"
    and d: "\<forall>i<64. divides_by (8 * uint (qv ! i)) (dtbl ! i, dtbl ! (64 + i), dtbl ! (192 + i))"
    and "8 \<le> length rows - start_row" "\<forall>r<8. start_col + 8 * n \<le> length (rows ! (start_row + r))"
  shows "\<exists>blocks. forward_DCT jpeg_fdct_islow dtbl rows start_row start_col n = Some blocks \<and> length blocks = n \<and>
     (\<forall>b<n. quantised_dct (centred (drop start_row rows) (start_col + 8 * b)) (\<lambda>i. uint (qv ! i)) (blocks ! b))"
proof -
  let ?rows = "drop start_row rows"
  have "\<exists>block. forward_block jpeg_fdct_islow dtbl ?rows (start_col + 8 * b) = Some block \<and>
      quantised_dct (centred ?rows (start_col + 8 * b)) (\<lambda>i. uint (qv ! i)) block" if "b < n" for b
  proof -
    have "\<forall>r<8. start_col + 8 * b + 8 \<le> length (?rows ! r)" using assms(4,5) that by (auto intro: order_trans [rotated])
    then show ?thesis using forward_block_quantised [OF assms(1,2) d] assms(4) by simp
  qed
  then obtain B where b: "\<And>b. b < n \<Longrightarrow> forward_block jpeg_fdct_islow dtbl ?rows (start_col + 8 * b) = Some (B b)"
    "\<And>b. b < n \<Longrightarrow> quantised_dct (centred ?rows (start_col + 8 * b)) (\<lambda>i. uint (qv ! i)) (B b)" by metis
  have "forward_DCT jpeg_fdct_islow dtbl rows start_row start_col n = Some (map B [0..<n])"
    unfolding forward_DCT_def by (rule all_some_map) (simp add: b(1))
  then show ?thesis using b(2) by simp
qed

section \<open>The tables of all components\<close>

text \<open>The table a component names is there and has legal entries.\<close>

definition table_ready :: "jpeg_compress_struct \<Rightarrow> jpeg_component_info \<Rightarrow> bool" where
  "table_ready cinfo c \<longleftrightarrow> 0 \<le> quant_tbl_no c \<and> quant_tbl_no c < 4 \<and>
     (case quant_tbl_ptrs cinfo ! nat (quant_tbl_no c) of None \<Rightarrow> False
      | Some t \<Rightarrow> length (quantval t) = 64 \<and> (\<forall>i<64. 1 \<le> uint (quantval t ! i) \<and> uint (quantval t ! i) \<le> 8191))"

definition divisors_for :: "jpeg_compress_struct \<Rightarrow> 'f fdct_controller \<Rightarrow> nat \<Rightarrow> bool" where
  "divisors_for cinfo fdct n \<longleftrightarrow>
     (\<exists>t dtbl. quant_tbl_ptrs cinfo ! n = Some t \<and> divisors fdct ! n = Some dtbl \<and>
        (\<forall>i<64. divides_by (8 * uint (quantval t ! i)) (dtbl ! i, dtbl ! (64 + i), dtbl ! (192 + i))))"

definition allocated :: "'f fdct_controller \<Rightarrow> bool" where
  "allocated fdct \<longleftrightarrow> length (divisors fdct) = 4 \<and> (\<forall>d. Some d \<in> set (divisors fdct) \<longrightarrow> length d = 256)"

lemma start_component_ok:
  assumes m: "dct_method cinfo = JDCT_ISLOW" and c: "table_ready cinfo c" and f: "length fresh = 256" and a: "allocated fdct"
  obtains fdct' where "start_component fdtbl fresh cinfo c fdct = Inr fdct'" "allocated fdct'" "divisors_for cinfo fdct' (nat (quant_tbl_no c))"
    "\<And>n. divisors_for cinfo fdct n \<Longrightarrow> divisors_for cinfo fdct' n"
proof -
  let ?k = "nat (quant_tbl_no c)"
  obtain t where t: "quant_tbl_ptrs cinfo ! ?k = Some t" "length (quantval t) = 64" "\<forall>i<64. 1 \<le> uint (quantval t ! i) \<and> uint (quantval t ! i) \<le> 8191"
    using c by (auto simp: table_ready_def split: option.splits)
  have k: "\<not> (quant_tbl_no c < 0 \<or> int NUM_QUANT_TBLS \<le> quant_tbl_no c)" "?k < 4" using c by (auto simp: table_ready_def NUM_QUANT_TBLS_def)
  define d0 where "d0 = (case divisors fdct ! ?k of None \<Rightarrow> fresh | Some d \<Rightarrow> d)"
  have "length d0 = 256"
  proof (cases "divisors fdct ! ?k")
    case (Some d)
    then have "Some d \<in> set (divisors fdct)" using a k(2) by (metis allocated_def nth_mem)
    then show ?thesis using a Some by (simp add: d0_def allocated_def)
  qed (simp add: d0_def f)
  then obtain dtbl simd where s: "set_divisors (islow_divisors (quantval t)) (d0, simd_quantize fdct) = Some (dtbl, simd)" "length dtbl = 256"
    "\<forall>i<64. divides_by (8 * uint (quantval t ! i)) (dtbl ! i, dtbl ! (64 + i), dtbl ! (192 + i))"
    using set_divisors_ok [OF t(2,3), of d0 0 "simd_quantize fdct"] by (auto simp: islow_divisors_def DCTSIZE2_def)
  define fdct' where "fdct' = fdct\<lparr>divisors := (divisors fdct)[?k := Some dtbl], simd_quantize := simd\<rparr>"
  have "start_component fdtbl fresh cinfo c fdct = Inr fdct'"
    using k(1) s(1) by (simp add: start_component_def m t(1) fdct'_def Let_def flip: d0_def)
  moreover have "allocated fdct'"
    using a s(2) by (auto simp: allocated_def fdct'_def dest: set_update_subset_insert [THEN subsetD])
  moreover have "divisors_for cinfo fdct' n" if "n = ?k \<or> divisors_for cinfo fdct n" for n
    using that t(1) s(3) a k(2) by (cases "n = ?k") (auto simp: divisors_for_def fdct'_def allocated_def)
  ultimately show ?thesis using that by blast
qed

lemma start_components_ok:
  assumes m: "dct_method cinfo = JDCT_ISLOW" and f: "length fresh = 256"
  shows "\<forall>c \<in> set cs. table_ready cinfo c \<Longrightarrow> allocated fdct \<Longrightarrow>
    \<exists>fdct'. start_components fdtbl fresh cinfo cs fdct = Inr fdct' \<and> (\<forall>c \<in> set cs. divisors_for cinfo fdct' (nat (quant_tbl_no c))) \<and>
      (\<forall>n. divisors_for cinfo fdct n \<longrightarrow> divisors_for cinfo fdct' n)"
proof (induction cs arbitrary: fdct)
  case (Cons c cs)
  have "table_ready cinfo c" using Cons.prems(1) by simp
  then obtain g where g: "start_component fdtbl fresh cinfo c fdct = Inr g" "allocated g" "divisors_for cinfo g (nat (quant_tbl_no c))"
    "\<And>n. divisors_for cinfo fdct n \<Longrightarrow> divisors_for cinfo g n"
    using start_component_ok [OF m _ f Cons.prems(2)] by metis
  from Cons.IH [OF _ g(2)] Cons.prems(1) obtain h where
    "start_components fdtbl fresh cinfo cs g = Inr h" "\<forall>c \<in> set cs. divisors_for cinfo h (nat (quant_tbl_no c))"
    "\<forall>n. divisors_for cinfo g n \<longrightarrow> divisors_for cinfo h n" by auto
  then show ?case using g by auto
qed simp

text \<open>
  C24. The forward DCT manager, started by \<open>start_pass_fdctmgr\<close> for the accurate integer method, with the
  divisor tables of a new or an earlier pass and components that name tables with entries from 1 to 8191:
  it starts without an error or a division by zero, and then, for each component and on any 8 sample rows,
  no 32-bit operation overflows, no coefficient is cut to 16 bits, and each block is the quantised DCT of
  its samples by the component's own table: every entry is the rounded quotient, by the table's entry, of a
  value within half a unit of the DCT coefficient of the JPEG standard, and for the first entry that value
  is exactly an eighth of the sum of the centred samples.
\<close>

theorem forward_DCT_quantises:
  assumes "dct_method cinfo = JDCT_ISLOW" "\<forall>c \<in> set (take (nat (num_components cinfo)) (comp_info cinfo)). table_ready cinfo c"
    and "length fresh = 256" "allocated fdct"
  shows "\<exists>fdct'. start_pass_fdctmgr fdtbl fresh cinfo fdct = Inr fdct' \<and>
     (\<forall>c \<in> set (take (nat (num_components cinfo)) (comp_info cinfo)).
        \<exists>t dtbl. quant_tbl_ptrs cinfo ! nat (quant_tbl_no c) = Some t \<and> divisors fdct' ! nat (quant_tbl_no c) = Some dtbl \<and>
          (\<forall>rows start_row start_col n. 8 \<le> length rows - start_row \<longrightarrow> (\<forall>r<8. start_col + 8 * n \<le> length (rows ! (start_row + r))) \<longrightarrow>
             (\<exists>blocks. forward_DCT jpeg_fdct_islow dtbl rows start_row start_col n = Some blocks \<and> length blocks = n \<and>
                (\<forall>b<n. quantised_dct (centred (drop start_row rows) (start_col + 8 * b)) (\<lambda>i. uint (quantval t ! i)) (blocks ! b)))))"
proof -
  let ?cs = "take (nat (num_components cinfo)) (comp_info cinfo)"
  obtain fdct' where s: "start_pass_fdctmgr fdtbl fresh cinfo fdct = Inr fdct'" "\<forall>c \<in> set ?cs. divisors_for cinfo fdct' (nat (quant_tbl_no c))"
    using start_components_ok [OF assms(1,3,2,4), of fdtbl] by (auto simp: start_pass_fdctmgr_def)
  have "\<exists>t dtbl. quant_tbl_ptrs cinfo ! nat (quant_tbl_no c) = Some t \<and> divisors fdct' ! nat (quant_tbl_no c) = Some dtbl \<and>
          (\<forall>rows start_row start_col n. 8 \<le> length rows - start_row \<longrightarrow> (\<forall>r<8. start_col + 8 * n \<le> length (rows ! (start_row + r))) \<longrightarrow>
             (\<exists>blocks. forward_DCT jpeg_fdct_islow dtbl rows start_row start_col n = Some blocks \<and> length blocks = n \<and>
                (\<forall>b<n. quantised_dct (centred (drop start_row rows) (start_col + 8 * b)) (\<lambda>i. uint (quantval t ! i)) (blocks ! b))))"
    if c: "c \<in> set ?cs" for c
  proof -
    obtain t dtbl where t: "quant_tbl_ptrs cinfo ! nat (quant_tbl_no c) = Some t" "divisors fdct' ! nat (quant_tbl_no c) = Some dtbl"
      "\<forall>i<64. divides_by (8 * uint (quantval t ! i)) (dtbl ! i, dtbl ! (64 + i), dtbl ! (192 + i))"
      using s(2) c by (auto simp: divisors_for_def)
    have "length (quantval t) = 64" "\<forall>i<64. 1 \<le> uint (quantval t ! i) \<and> uint (quantval t ! i) \<le> 8191"
      using assms(2) c t(1) by (auto simp: table_ready_def)
    then show ?thesis using forward_DCT_quantised [OF _ _ t(3)] t(1,2) by blast
  qed
  then show ?thesis using s(1) by blast
qed

text \<open>Two flat blocks of value 200, quantised with 16 throughout.\<close>

definition flat_job :: jpeg_compress_struct where
  "flat_job = zero_struct\<lparr>num_components := 1, dct_method := JDCT_ISLOW, quant_tbl_ptrs := [None, Some \<lparr>quantval = replicate 64 16, sent_table = False\<rparr>, None, None],
     comp_info := [\<lparr>component_id = 1, component_index = 0, h_samp_factor = 1, v_samp_factor = 1, quant_tbl_no = 1, dc_tbl_no = 0,
       ac_tbl_no = 0, width_in_blocks = 0, height_in_blocks = 0, DCT_scaled_size = 0, downsampled_width = 0,
       downsampled_height = 0, component_needed = False, MCU_width = 0, MCU_height = 0, MCU_blocks = 0,
       MCU_sample_width = 0, last_col_width = 0, last_row_height = 0, quant_table = None\<rparr>]\<rparr>"

theorem forward_DCT_quantises_witness:
  "\<exists>fdct dtbl blocks. start_pass_fdctmgr (\<lambda>_. ()) (replicate 256 0) flat_job (jinit_forward_dct True) = Inr fdct \<and> divisors fdct ! 1 = Some dtbl \<and>
     forward_DCT jpeg_fdct_islow dtbl (replicate 9 (replicate 16 200)) 1 0 2 = Some blocks \<and> blocks ! 1 ! 0 = 36"
proof -
  have "dct_method flat_job = JDCT_ISLOW" "\<forall>c \<in> set (take (nat (num_components flat_job)) (comp_info flat_job)). table_ready flat_job c"
    "length (replicate 256 (0 :: u16)) = 256" "allocated (jinit_forward_dct True)"
    by (simp_all add: flat_job_def table_ready_def allocated_def jinit_forward_dct_def)
  from forward_DCT_quantises [OF this, of "\<lambda>_. ()"] obtain fdct dtbl where
    f: "start_pass_fdctmgr (\<lambda>_. ()) (replicate 256 0) flat_job (jinit_forward_dct True) = Inr fdct" "divisors fdct ! 1 = Some dtbl"
    and b: "\<forall>rows start_row start_col n. 8 \<le> length rows - start_row \<longrightarrow> (\<forall>r<8. start_col + 8 * n \<le> length (rows ! (start_row + r))) \<longrightarrow>
       (\<exists>blocks. forward_DCT jpeg_fdct_islow dtbl rows start_row start_col n = Some blocks \<and> length blocks = n \<and>
          (\<forall>b<n. quantised_dct (centred (drop start_row rows) (start_col + 8 * b)) (\<lambda>i. uint (replicate 64 (16 :: u16) ! i)) (blocks ! b)))"
    by (auto simp: flat_job_def)
  let ?rows = "replicate 9 (replicate 16 (200 :: u8))"
  have "8 \<le> length ?rows - 1" "\<forall>r<8. 0 + 8 * 2 \<le> length (?rows ! (1 + r))" by simp_all
  with b obtain blocks where l: "forward_DCT jpeg_fdct_islow dtbl ?rows 1 0 2 = Some blocks"
    "\<forall>b<2. quantised_dct (centred (drop 1 ?rows) (0 + 8 * b)) (\<lambda>i. uint (replicate 64 (16 :: u16) ! i)) (blocks ! b)" by blast
  have s: "sum_list (centred (drop 1 ?rows) (0 + 8 * 1)) = 4608" by code_simp
  have one_less_two: "1 < (2 :: nat)" by simp
  have "blocks ! 1 ! 0 = rounded_quotient 4608 128"
    using l(2) [rule_format, OF one_less_two] s by (simp add: quantised_dct_def)
  then show ?thesis using f l(1) by (auto simp: rounded_quotient_def)
qed

end
