(* ===== verification/Jidct.thy ===== *)
theory Jidct imports Jfdct Jdlimits begin

text \<open>
  \<open>jpeg_idct_islow\<close> of \<open>jidctint.c\<close>: dequantisation and the accurate integer inverse DCT. As in \<open>Jfdct\<close>, the
  result is \<open>None\<close> where an \<open>INT32\<close> or \<open>int\<close> operation overflows or a subscript leaves a table. A block is the list of its 64
  coefficients, the quantisation multipliers are 16-bit values, the output is the list of the 64 samples.
\<close>

unbundle bit_operations_syntax

section \<open>The transform\<close>

text \<open>One column or row: the results, descaled by \<open>n\<close> bits, and the intermediate values.\<close>

definition idct_1d :: "nat \<Rightarrow> int list \<Rightarrow> int list \<times> int list" where
  "idct_1d n d =
     (let e = (d ! 2 + d ! 6) * FIX_0_541196100;
          t2 = e + d ! 6 * - FIX_1_847759065;
          t3 = e + d ! 2 * FIX_0_765366865;
          t0 = (d ! 0 + d ! 4) * 2 ^ CONST_BITS;
          t1 = (d ! 0 - d ! 4) * 2 ^ CONST_BITS;
          tmp10 = t0 + t3; tmp13 = t0 - t3; tmp11 = t1 + t2; tmp12 = t1 - t2;
          s1 = d ! 7 + d ! 1; s2 = d ! 5 + d ! 3; s3 = d ! 7 + d ! 3; s4 = d ! 5 + d ! 1;
          z5 = (s3 + s4) * FIX_1_175875602;
          m0 = d ! 7 * FIX_0_298631336; m1 = d ! 5 * FIX_2_053119869;
          m2 = d ! 3 * FIX_3_072711026; m3 = d ! 1 * FIX_1_501321110;
          z1 = s1 * - FIX_0_899976223; z2 = s2 * - FIX_2_562915447;
          p3 = s3 * - FIX_1_961570560; p4 = s4 * - FIX_0_390180644;
          z3 = p3 + z5; z4 = p4 + z5;
          tmp0 = m0 + (z1 + z3); tmp1 = m1 + (z2 + z4); tmp2 = m2 + (z2 + z3); tmp3 = m3 + (z1 + z4);
          r = 2 ^ (n - 1);
          sums = [tmp10 + tmp3, tmp11 + tmp2, tmp12 + tmp1, tmp13 + tmp0, tmp13 - tmp0, tmp12 - tmp1, tmp11 - tmp2, tmp10 - tmp3]
      in (map (\<lambda>x. DESCALE x n) sums,
          d @ [d ! 2 + d ! 6, e, d ! 6 * - FIX_1_847759065, t2, d ! 2 * FIX_0_765366865, t3, d ! 0 + d ! 4, d ! 0 - d ! 4, t0, t1,
           tmp10, tmp13, tmp11, tmp12, s1, s2, s3, s4, s3 + s4, z5, m0, m1, m2, m3, z1, z2, p3, p4, z3, z4,
           z1 + z3, z2 + z4, z2 + z3, z1 + z4, tmp0, tmp1, tmp2, tmp3] @ sums @ map (\<lambda>x. x + r) sums))"

text \<open>The columns, with the shortcut for those without AC coefficients, and the rows with theirs.\<close>

definition idct_col :: "int list \<Rightarrow> int list \<Rightarrow> int list \<times> int list" where
  "idct_col quant coef =
     (let d = map2 (*) coef quant
      in if list_all (\<lambda>x. x = 0) (tl coef) then (replicate 8 (d ! 0 * 2 ^ PASS1_BITS), [d ! 0, d ! 0 * 2 ^ PASS1_BITS])
         else idct_1d (CONST_BITS - PASS1_BITS) d)"

definition idct_row :: "int list \<Rightarrow> int list \<times> int list" where
  "idct_row ws = (if list_all (\<lambda>x. x = 0) (tl ws) then (replicate 8 (DESCALE (ws ! 0) (PASS1_BITS + 3)), [ws ! 0 + 2 ^ (PASS1_BITS + 2)])
     else idct_1d (CONST_BITS + PASS1_BITS + 3) ws)"

definition RANGE_MASK :: int where "RANGE_MASK = MAXJSAMPLE * 4 + 3"

text \<open>\<open>IDCT_range_limit\<close> points to the middle of the simple table; a subscript outside the table is undefined.\<close>

definition range_limit :: "int \<Rightarrow> u8 option" where
  "range_limit x =
     (let i = MAXJSAMPLE + 1 + CENTERJSAMPLE + (x AND RANGE_MASK)
      in if 0 \<le> i \<and> i < int (length prepare_range_limit_table) then Some (prepare_range_limit_table ! nat i) else None)"

definition idct_with ::
  "(int list \<Rightarrow> int list \<Rightarrow> int list \<times> int list) \<Rightarrow> (int list \<Rightarrow> int list \<times> int list) \<Rightarrow> int list \<Rightarrow> int list \<Rightarrow> u8 list option" where
  "idct_with col row quant coef =
     (let cols = map (\<lambda>c. col (col_of quant c) (col_of coef c)) [0..<8];
          ws = map (\<lambda>r. map (\<lambda>p. fst p ! r) cols) [0..<8];
          rows = map row ws
      in if list_all (list_all fits_INT32 \<circ> snd) cols \<and> list_all (list_all fits_INT32 \<circ> snd) rows
         then all_some (concat (map (map range_limit \<circ> fst) rows)) else None)"

definition jpeg_idct_islow :: "int list \<Rightarrow> int list \<Rightarrow> u8 list option" where
  "jpeg_idct_islow = idct_with idct_col idct_row"

text \<open>The same transform without the shortcuts.\<close>

definition plain_idct :: "int list \<Rightarrow> int list \<Rightarrow> u8 list option" where
  "plain_idct = idct_with (\<lambda>quant coef. idct_1d (CONST_BITS - PASS1_BITS) (map2 (*) coef quant)) (idct_1d (CONST_BITS + PASS1_BITS + 3))"

text \<open>The mask keeps every subscript in the table.\<close>

definition limited :: "int \<Rightarrow> u8" where
  "limited x = prepare_range_limit_table ! nat (384 + (x AND 1023))"

lemma range_limit_eq: "range_limit x = Some (limited x)"
proof -
  have "0 \<le> x AND 1023" "x AND 1023 \<le> 1023" by (simp_all add: AND_upper2)
  then show ?thesis
    by (simp add: range_limit_def limited_def RANGE_MASK_def MAXJSAMPLE_def CENTERJSAMPLE_def table_parts Let_def)
qed

lemma all_some_limits: "all_some (concat (map (map range_limit \<circ> fst) rows)) = Some (concat (map (map limited \<circ> fst) rows))"
proof -
  have "concat (map (map range_limit \<circ> fst) rows) = map range_limit (concat (map fst rows))" by (simp add: map_concat)
  also have "all_some \<dots> = Some (map limited (concat (map fst rows)))" by (rule all_some_map) (simp add: range_limit_eq)
  also have "map limited (concat (map fst rows)) = concat (map (map limited \<circ> fst) rows)" by (simp add: map_concat)
  finally show ?thesis .
qed

lemma idct_with_limited:
  "idct_with col row quant coef =
     (let cols = map (\<lambda>c. col (col_of quant c) (col_of coef c)) [0..<8];
          ws = map (\<lambda>r. map (\<lambda>p. fst p ! r) cols) [0..<8];
          rows = map row ws
      in if list_all (list_all fits_INT32 \<circ> snd) cols \<and> list_all (list_all fits_INT32 \<circ> snd) rows
         then Some (concat (map (map limited \<circ> fst) rows)) else None)"
  unfolding idct_with_def all_some_limits ..

section \<open>The shortcuts\<close>

lemma eight:
  assumes "length d = 8"
  obtains d0 d1 d2 d3 d4 d5 d6 d7 where "d = [d0, d1, d2, d3, d4, d5, d6, d7]"
  using assms by (auto simp: eval_nat_numeral length_Suc_conv)

lemma replicate_eight: "replicate 8 x = [x, x, x, x, x, x, x, x]"
  by (simp add: eval_nat_numeral)

lemma idct_1d_dc:
  assumes "n = 11 \<or> n = 18"
  shows "fst (idct_1d n [d0, 0, 0, 0, 0, 0, 0, 0]) = replicate 8 (if n = 11 then d0 * 4 else DESCALE d0 5)"
    and "list_all fits_INT32 (snd (idct_1d n [d0, 0, 0, 0, 0, 0, 0, 0])) \<Longrightarrow> fits_INT32 d0 \<and> fits_INT32 (d0 * 4) \<and> fits_INT32 (d0 + 16)"
proof -
  have "DESCALE (d0 * 8192) 11 = d0 * 4" unfolding DESCALE_div by simp
  moreover have "DESCALE (d0 * 8192) 18 = DESCALE d0 5" unfolding DESCALE_div by simp
  ultimately show "fst (idct_1d n [d0, 0, 0, 0, 0, 0, 0, 0]) = replicate 8 (if n = 11 then d0 * 4 else DESCALE d0 5)"
    using assms unfolding replicate_eight idct_1d_def Let_def fix_defs by (elim disjE) simp_all
  assume "list_all fits_INT32 (snd (idct_1d n [d0, 0, 0, 0, 0, 0, 0, 0]))"
  then have "fits_INT32 d0" "fits_INT32 (d0 * 8192)" unfolding idct_1d_def Let_def fix_defs by simp_all
  then show "fits_INT32 d0 \<and> fits_INT32 (d0 * 4) \<and> fits_INT32 (d0 + 16)" by (simp add: fits_INT32_def)
qed


lemma idct_col_dc:
  assumes "length quant = 8" "length coef = 8"
    and f: "list_all fits_INT32 (snd (idct_1d (CONST_BITS - PASS1_BITS) (map2 (*) coef quant)))"
  shows "fst (idct_col quant coef) = fst (idct_1d (CONST_BITS - PASS1_BITS) (map2 (*) coef quant)) \<and> list_all fits_INT32 (snd (idct_col quant coef))"
proof (cases "list_all (\<lambda>x. x = 0) (tl coef)")
  case True
  obtain c0 c1 c2 c3 c4 c5 c6 c7 where c: "coef = [c0, c1, c2, c3, c4, c5, c6, c7]" using assms(2) by (rule eight)
  obtain q0 q1 q2 q3 q4 q5 q6 q7 where q: "quant = [q0, q1, q2, q3, q4, q5, q6, q7]" using assms(1) by (rule eight)
  have d: "map2 (*) coef quant = [c0 * q0, 0, 0, 0, 0, 0, 0, 0]" using True by (simp add: c q)
  have n: "CONST_BITS - PASS1_BITS = 11" by (simp add: fix_defs)
  show ?thesis
    using idct_1d_dc [of 11 "c0 * q0"] f True unfolding d n by (simp add: idct_col_def d Let_def PASS1_BITS_def)
qed (use f in \<open>simp add: idct_col_def Let_def\<close>)

lemma idct_row_dc:
  assumes "length ws = 8" and f: "list_all fits_INT32 (snd (idct_1d (CONST_BITS + PASS1_BITS + 3) ws))"
  shows "fst (idct_row ws) = fst (idct_1d (CONST_BITS + PASS1_BITS + 3) ws) \<and> list_all fits_INT32 (snd (idct_row ws))"
proof (cases "list_all (\<lambda>x. x = 0) (tl ws)")
  case True
  obtain c0 c1 c2 c3 c4 c5 c6 c7 where c: "ws = [c0, c1, c2, c3, c4, c5, c6, c7]" using assms(1) by (rule eight)
  have d: "ws = [c0, 0, 0, 0, 0, 0, 0, 0]" using True by (simp add: c)
  have n: "CONST_BITS + PASS1_BITS + 3 = 18" by (simp add: fix_defs)
  show ?thesis
    using idct_1d_dc [of 18 c0] f True unfolding d n by (simp add: idct_row_def PASS1_BITS_def)
qed (use f in \<open>simp add: idct_row_def\<close>)

lemma length_idct_1d [simp]: "length (fst (idct_1d n d)) = 8"
  by (simp add: idct_1d_def Let_def)

lemma idct_with_replace:
  assumes col: "\<And>q c. length q = 8 \<Longrightarrow> length c = 8 \<Longrightarrow> list_all fits_INT32 (snd (col q c)) \<Longrightarrow>
      fst (col' q c) = fst (col q c) \<and> list_all fits_INT32 (snd (col' q c))"
    and row: "\<And>ws. length ws = 8 \<Longrightarrow> list_all fits_INT32 (snd (row ws)) \<Longrightarrow> fst (row' ws) = fst (row ws) \<and> list_all fits_INT32 (snd (row' ws))"
    and o: "idct_with col row quant coef = Some out"
  shows "idct_with col' row' quant coef = Some out"
proof -
  let ?c = "\<lambda>c. col (col_of quant c) (col_of coef c)" and ?c' = "\<lambda>c. col' (col_of quant c) (col_of coef c)"
  let ?w = "\<lambda>r. map (\<lambda>c. fst (?c c) ! r) [0..<8]"
  have f: "\<forall>c<8. list_all fits_INT32 (snd (?c c))" "\<forall>r<8. list_all fits_INT32 (snd (row (?w r)))"
    and out: "out = concat (map (\<lambda>r. map limited (fst (row (?w r)))) [0..<8])"
    using o by (auto simp: idct_with_limited Let_def list_all_iff comp_def cong: map_cong split: if_splits)
  have c: "fst (?c' c) = fst (?c c)" "list_all fits_INT32 (snd (?c' c))" if "c < 8" for c
    using col [OF length_col_of length_col_of] f(1) that by simp_all
  have w: "map (\<lambda>c. fst (?c' c) ! r) [0..<8] = ?w r" for r using c(1) by (intro map_cong) simp_all
  have r: "fst (row' (?w r)) = fst (row (?w r))" "list_all fits_INT32 (snd (row' (?w r)))" if "r < 8" for r
    using row [of "?w r"] f(2) that by simp_all
  show ?thesis unfolding idct_with_limited Let_def out
    using c(2) r by (auto simp: w list_all_iff comp_def intro!: arg_cong [where f = concat] cong: map_cong)
qed

text \<open>
  C25. The shortcuts of \<open>jpeg_idct_islow\<close> for columns and rows without AC coefficients do not change the
  result: wherever the full computation staysbounded_by 32 bits, both give the same samples.
\<close>

theorem idct_shortcuts:
  assumes "plain_idct quant coef = Some out"
  shows "jpeg_idct_islow quant coef = Some out"
  unfolding jpeg_idct_islow_def
  by (rule idct_with_replace [OF _ _ assms [unfolded plain_idct_def]]) (simp_all add: idct_col_dc idct_row_dc)


section \<open>No overflow\<close>

lemma idct_first_pass:
  assumes "length d = 8" "list_all (bounded_by 1170) d"
  shows "list_all fits_INT32 (snd (idct_1d (CONST_BITS - PASS1_BITS) d))" "list_all (bounded_by 34972) (fst (idct_1d (CONST_BITS - PASS1_BITS) d))"
proof -
  obtain d0 d1 d2 d3 d4 d5 d6 d7 where d: "d = [d0, d1, d2, d3, d4, d5, d6, d7]" using assms(1) by (rule eight)
  show "list_all fits_INT32 (snd (idct_1d (CONST_BITS - PASS1_BITS) d))"
    using assms(2) unfolding d idct_1d_def Let_def fits_INT32_def bounded_by_def fix_defs
    by simp
  show "list_all (bounded_by 34972) (fst (idct_1d (CONST_BITS - PASS1_BITS) d))"
    using assms(2) unfolding d idct_1d_def Let_def bounded_by_def fix_defs
    by simp (intro conjI DESCALE_range [where b = 34972]; simp; linarith)
qed

lemma idct_second_pass:
  assumes "length d = 8" "list_all (bounded_by 34972) d"
  shows "list_all fits_INT32 (snd (idct_1d (CONST_BITS + PASS1_BITS + 3) d))"
proof -
  obtain d0 d1 d2 d3 d4 d5 d6 d7 where d: "d = [d0, d1, d2, d3, d4, d5, d6, d7]" using assms(1) by (rule eight)
  show ?thesis
    using assms(2) unfolding d idct_1d_def Let_def fits_INT32_def bounded_by_def fix_defs
    by simp
qed

lemma plain_idct_defined:
  assumes "length quant = 64" "length coef = 64" "\<forall>i<64.bounded_by 1170 (coef ! i * quant ! i)"
  shows "\<exists>out. plain_idct quant coef = Some out \<and> length out = 64"
proof -
  let ?d = "\<lambda>c. map2 (*) (col_of coef c) (col_of quant c)"
  have d: "list_all (bounded_by 1170) (?d c)" if "c < 8" for c
    using assms(3) that by (auto simp: col_of_def list_all_length)
  let ?p = "\<lambda>c. idct_1d (CONST_BITS - PASS1_BITS) (?d c)"
  have p: "list_all fits_INT32 (snd (?p c))" "list_all (bounded_by 34972) (fst (?p c))" if "c < 8" for c
    using idct_first_pass [OF _ d [OF that]] by simp_all
  have w: "list_all (bounded_by 34972) (map (\<lambda>c. fst (?p c) ! r) [0..<8])" if "r < 8" for r
    using p(2) that by (auto simp: list_all_length)
  have "list_all fits_INT32 (snd (idct_1d (CONST_BITS + PASS1_BITS + 3) (map (\<lambda>c. fst (?p c) ! r) [0..<8])))" if "r < 8" for r
    by (rule idct_second_pass [OF _ w [OF that]]) simp
  then show ?thesis using p(1) by (simp add: plain_idct_def idct_with_limited Let_def list_all_iff comp_def concat_eights)
qed


theorem idct_shortcuts_witness:
  "jpeg_idct_islow (replicate 64 3) (5 # replicate 7 0 @ 2 # replicate 55 0) =
     plain_idct (replicate 64 3) (5 # replicate 7 0 @ 2 # replicate 55 0) \<and>
   jpeg_idct_islow (replicate 64 3) (5 # replicate 7 0 @ 2 # replicate 55 0) \<noteq> None"
proof -
  let ?c = "5 # replicate 7 0 @ 2 # replicate 55 0 :: int list"
  have "bounded_by 1170 (?c ! i * replicate 64 3 ! i)" if "i < 64" for i
  proof -
    have "?c ! i \<in> set ?c" using that by (intro nth_mem) simp
    then have "?c ! i \<in> {0, 2, 5}" by auto
    then show ?thesis using that by (auto simp: bounded_by_def)
  qed
  then obtain out where p: "plain_idct (replicate 64 3) ?c = Some out" using plain_idct_defined [of "replicate 64 3" ?c] by auto
  with idct_shortcuts [OF p] show ?thesis by simp
qed

end
