(* ===== verification/Blocks.thy ===== *)
theory Blocks imports Jcdctmgr Jidct begin

text \<open>A block of samples through the forward DCT, quantisation and the inverse DCT.\<close>

unbundle bit_operations_syntax

lemma rounded_quotient_error:
  assumes "0 < d"
  shows "2 * \<bar>rounded_quotient x d * d - x\<bar> \<le> d"
proof -
  let ?q = "(\<bar>x\<bar> + d div 2) div d"
  have "?q * d \<le> \<bar>x\<bar> + d div 2" "\<bar>x\<bar> + d div 2 + 1 \<le> (?q + 1) * d" using div_bounds [OF assms] by blast+
  moreover have "2 * (d div 2) \<le> d" "d \<le> 2 * (d div 2) + 1" by presburger+
  moreover define Q h where "Q = ?q * d" and "h = d div 2"
  ultimately have "Q \<le> \<bar>x\<bar> + h" "\<bar>x\<bar> + h + 1 \<le> Q + d" "2 * h \<le> d" "d \<le> 2 * h + 1" by (simp_all add: distrib_right)
  then have "2 * (Q - \<bar>x\<bar>) \<le> d \<and> 2 * (\<bar>x\<bar> - Q) \<le> d" by presburger
  moreover have "rounded_quotient x d * d = (if 0 \<le> x then Q else - Q)"
    using assms by (cases "x = 0") (simp_all add: rounded_quotient_def Q_def)
  ultimately show ?thesis by presburger
qed

text \<open>
  C20. A baseline table (entries up to 255) cannot make the decoder overflow on blocks this encoder has made:
  every block of samples is transformed and quantised, and dequantising and transforming it back involves no
  32-bit overflow and no subscript outside the range-limiting table, and gives 64 samples.
\<close>

theorem blocks_decode:
  assumes "length qv = 64" "\<forall>i<64. 1 \<le> uint (qv ! i) \<and> uint (qv ! i) \<le> 255" "length fresh = 256"
    and "8 \<le> length rows" "\<forall>r<8. col + 8 \<le> length (rows ! r)"
  shows "\<exists>dtbl simd' coefs samples. set_divisors (islow_divisors qv) (fresh, simd) = Some (dtbl, simd') \<and>
     forward_block jpeg_fdct_islow dtbl rows col = Some coefs \<and> jpeg_idct_islow (map uint qv) coefs = Some samples \<and> length samples = 64"
proof -
  have q: "\<forall>i<64. 1 \<le> uint (qv ! i) \<and> uint (qv ! i) \<le> 8191" using assms(2) by (auto intro: order_trans)
  obtain dtbl simd' where t: "set_divisors (islow_divisors qv) (fresh, simd) = Some (dtbl, simd')"
    and d: "\<forall>i<64. divides_by (8 * uint (qv ! i)) (dtbl ! i, dtbl ! (64 + i), dtbl ! (192 + i))"
    using set_divisors_ok [OF assms(1) q assms(3), of 0 simd] by (auto simp: islow_divisors_def DCTSIZE2_def)
  obtain f where f: "jpeg_fdct_islow (centred rows col) = Some f" "length f = 64" "list_all (bounded_by 8200) f"
    by (rule fdct_islow_ok [OF length_centred centred_within])
  let ?c = "map (\<lambda>i. rounded_quotient (f ! i) (8 * map uint qv ! i)) [0..<64]"
  note b = forward_block_ok [OF assms(1) q d assms(4,5) f]
  have "bounded_by 1170 (?c ! i * map uint qv ! i)" if i: "i < 64" for i
  proof -
    have "2 * \<bar>rounded_quotient (f ! i) (8 * uint (qv ! i)) * (8 * uint (qv ! i)) - f ! i\<bar> \<le> 8 * uint (qv ! i)"
      using assms(2) i by (intro rounded_quotient_error) auto
    moreover have "- 8200 \<le> f ! i" "f ! i \<le> 8200" using f(2,3) i by (simp_all add: list_all_length bounded_by_def)
    moreover have "uint (qv ! i) \<le> 255" using assms(2) i by simp
    moreover define P where "P = rounded_quotient (f ! i) (8 * uint (qv ! i)) * uint (qv ! i)"
    ultimately have "bounded_by 1170 P" unfolding bounded_by_def by (simp add: mult.left_commute) linarith
    then show ?thesis using i assms(1) by (simp add: P_def)
  qed
  then obtain out where o: "plain_idct (map uint qv) ?c = Some out" "length out = 64" using plain_idct_defined [of "map uint qv" ?c] assms(1) by auto
  have "jpeg_idct_islow (map uint qv) ?c = Some out" unfolding jpeg_idct_islow_def
    by (rule idct_with_replace [OF _ _ o(1) [unfolded plain_idct_def]]) (simp_all add: idct_col_dc idct_row_dc)
  with t b o(2) show ?thesis by blast
qed


section \<open>Flat blocks\<close>

lemma eight_rows: "concat (map (\<lambda>r. replicate 8 w) [0..<8]) = replicate 64 w"
  by (simp add: upt_rec flip: replicate_add)

lemma fdct_1d_flat: "1 \<le> n \<Longrightarrow> s 0 = 0 \<Longrightarrow> fst (fdct_1d s n (replicate 8 x)) = [s (8 * x), 0, 0, 0, 0, 0, 0, 0]"
  unfolding replicate_eight fdct_1d_def Let_def by (simp add: DESCALE_div)

lemma fdct_flat:
  assumes "bounded_by 128 x"
  shows "jpeg_fdct_islow (replicate 64 x) = Some (64 * x # replicate 63 0)"
proof -
  let ?d = "replicate 64 x"
  have d: "length ?d = 64" "list_all (bounded_by 128) ?d" using assms by (simp_all add: list_all_length)
  have row: "row_of ?d r = replicate 8 x" if "r < 8" for r using that by (intro nth_equalityI) (simp_all add: row_of_def)
  have p: "fdct_pass1 ?d ! (8 * r + c) = (if c = 0 then 32 * x else 0)" if "r < 8" "c < 8" for r c
    using fdct_pass1_facts(3) [OF d that] fdct_1d_flat [of "CONST_BITS - PASS1_BITS" "\<lambda>x. x * 2 ^ PASS1_BITS" x] that(2)
    unfolding row [OF that(1)] by (auto simp: fix_defs less_Suc_eq eval_nat_numeral nth_Cons')
  have col: "col_of (fdct_pass1 ?d) c = replicate 8 (if c = 0 then 32 * x else 0)" if "c < 8" for c
    using p that by (intro nth_equalityI) (simp_all add: col_of_def)
  obtain out where o: "jpeg_fdct_islow ?d = Some out" "length out = 64"
    "\<And>r c. r < 8 \<Longrightarrow> c < 8 \<Longrightarrow> out ! (8 * r + c) = fst (fdct_1d (\<lambda>x. DESCALE x PASS1_BITS) (CONST_BITS + PASS1_BITS) (col_of (fdct_pass1 ?d) c)) ! r"
    by (rule fdct_islow_ok [OF d]) blast
  have n: "out ! (8 * r + c) = (if r = 0 \<and> c = 0 then 64 * x else 0)" if "r < 8" "c < 8" for r c
    using o(3) [OF that] fdct_1d_flat [of "CONST_BITS + PASS1_BITS" "\<lambda>x. DESCALE x PASS1_BITS" "if c = 0 then 32 * x else 0"] that(1)
    unfolding col [OF that(2)] by (auto simp: fix_defs DESCALE_div less_Suc_eq eval_nat_numeral nth_Cons')
  have "out = 64 * x # replicate 63 0"
  proof (rule nth_equalityI)
    fix i assume "i < length out"
    then have i: "i < 64" using o(2) by simp
    have "out ! i = out ! (8 * (i div 8) + i mod 8)" by simp
    also have "\<dots> = (if i div 8 = 0 \<and> i mod 8 = 0 then 64 * x else 0)" using i by (intro n) (simp_all add: less_mult_imp_div_less)
    also have "(i div 8 = 0 \<and> i mod 8 = 0) = (i = 0)" by (metis div_mult_mod_eq add_0 mult_0 div_0 mod_0)
    finally show "out ! i = (64 * x # replicate 63 0) ! i" using i by (cases i) simp_all
  qed (simp add: o(2))
  then show ?thesis using o(1) by simp
qed

lemma idct_flat:
  assumes "length q = 64" "fits_INT32 (y * 4)" "fits_INT32 (y * 4 + 16)" "y = c0 * q ! 0"
  shows "jpeg_idct_islow q (c0 # replicate 63 0) = Some (replicate 64 (limited (DESCALE (y * 4) 5)))"
proof -
  let ?c = "c0 # replicate 63 0"
  have nth: "?c ! (8 * r + c) = (if r = 0 \<and> c = 0 then c0 else 0)" if "r < 8" "c < 8" for r c
    using that by (cases "8 * r + c") auto
  have c: "col_of ?c c = (if c = 0 then c0 else 0) # replicate 7 0" if "c < 8" for c
    using nth that by (intro nth_equalityI) (auto simp: col_of_def nth_Cons')
  have f: "fits_INT32 y" "fits_INT32 0" using assms(2) by (simp_all add: fits_INT32_def)
  have k: "idct_col (col_of q c) (col_of ?c c) = (replicate 8 (if c = 0 then y * 4 else 0), [if c = 0 then y else 0, if c = 0 then y * 4 else 0])"
    if "c < 8" for c
  proof -
    have "map2 (*) ((if c = 0 then c0 else 0) # replicate 7 0) (col_of q c) ! 0 = (if c = 0 then y else 0)"
      using that assms(4) by (simp add: col_of_def)
    then show ?thesis unfolding c [OF that] idct_col_def Let_def by (simp add: PASS1_BITS_def list_all_length)
  qed
  define w where "w = limited (DESCALE (y * 4) 5)"
  have ws: "map (\<lambda>c. if c = 0 then y * 4 else 0) [0..<8] = [y * 4, 0, 0, 0, 0, 0, 0, 0]" by (simp add: upt_rec)
  have r: "idct_row [y * 4, 0, 0, 0, 0, 0, 0, 0] = (replicate 8 (DESCALE (y * 4) 5), [y * 4 + 16])"
    by (simp add: idct_row_def PASS1_BITS_def)
  have cols: "map (\<lambda>c. idct_col (col_of q c) (col_of ?c c)) [0..<8] =
      map (\<lambda>c. (replicate 8 (if c = 0 then y * 4 else 0), [if c = 0 then y else 0, if c = 0 then y * 4 else 0])) [0..<8]"
    by (rule map_cong) (simp_all add: k)
  have rows: "map (\<lambda>r. map (\<lambda>p. fst p ! r) (map (\<lambda>c. idct_col (col_of q c) (col_of ?c c)) [0..<8])) [0..<8] =
      map (\<lambda>r. [y * 4, 0, 0, 0, 0, 0, 0, 0]) [0..<8]"
    unfolding cols by (rule map_cong) (simp_all add: comp_def ws [symmetric] if_distrib cong: if_cong)
  have "concat (map (\<lambda>r. replicate 8 w) [0..<8]) = replicate 64 w" by (rule eight_rows)
  then show ?thesis
    using assms(2,3) f unfolding jpeg_idct_islow_def idct_with_limited Let_def unfolding rows unfolding cols
    by (simp add: list_all_iff comp_def r w_def)
qed

text \<open>
  C21. A flat block survives compression up to the quantisation error of its mean: for a baseline table all
  64 decoded samples are equal and differ from the original value by at most a sixteenth of the table's first
  entry plus one half; with a first entry up to 7 they are the original value.
\<close>

theorem flat_block_roundtrip:
  assumes "length qv = 64" "\<forall>i<64. 1 \<le> uint (qv ! i) \<and> uint (qv ! i) \<le> 255" "length fresh = 256"
    and "8 \<le> length rows" "\<forall>r<8. col + 8 \<le> length (rows ! r)" "\<forall>r<8. \<forall>c<8. rows ! r ! (col + c) = v"
  shows "\<exists>dtbl simd' coefs w. set_divisors (islow_divisors qv) (fresh, simd) = Some (dtbl, simd') \<and>
     forward_block jpeg_fdct_islow dtbl rows col = Some coefs \<and> jpeg_idct_islow (map uint qv) coefs = Some (replicate 64 w) \<and>
     16 * \<bar>uint w - uint v\<bar> \<le> uint (qv ! 0) + 8"
proof -
  have q: "\<forall>i<64. 1 \<le> uint (qv ! i) \<and> uint (qv ! i) \<le> 8191" using assms(2) by (auto intro: order_trans)
  obtain dtbl simd' where t: "set_divisors (islow_divisors qv) (fresh, simd) = Some (dtbl, simd')"
    and d: "\<forall>i<64. divides_by (8 * uint (qv ! i)) (dtbl ! i, dtbl ! (64 + i), dtbl ! (192 + i))"
    using set_divisors_ok [OF assms(1) q assms(3), of 0 simd] by (auto simp: islow_divisors_def DCTSIZE2_def)
  define x where "x = uint v - 128"
  have x: "- 128 \<le> x" "x \<le> 127" using uint_lt2p [of v] by (simp_all add: x_def)
  have "map (\<lambda>r. map (\<lambda>c. uint (rows ! r ! (col + c)) - 128) [0..<8]) [0..<8] = map (\<lambda>r. replicate 8 x) [0..<8]"
    using assms(6) by (intro map_cong nth_equalityI) (simp_all add: x_def)
  then have cen: "centred rows col = replicate 64 x" unfolding centred_def by (simp only: eight_rows)
  have f: "jpeg_fdct_islow (centred rows col) = Some (64 * x # replicate 63 0)" unfolding cen using x by (intro fdct_flat) (simp add: bounded_by_def)
  have w: "list_all (bounded_by 8200) (64 * x # replicate 63 0)" using x by (simp add: list_all_length bounded_by_def nth_Cons')
  define q0 c0 where "q0 = uint (qv ! 0)" and "c0 = rounded_quotient (64 * x) (8 * q0)"
  have "map (\<lambda>i. rounded_quotient ((64 * x # replicate 63 0) ! i) (8 * map uint qv ! i)) [0..<64] = c0 # replicate 63 0"
  proof (rule nth_equalityI)
    fix i assume "i < length (map (\<lambda>i. rounded_quotient ((64 * x # replicate 63 0) ! i) (8 * map uint qv ! i)) [0..<64])"
    then show "map (\<lambda>i. rounded_quotient ((64 * x # replicate 63 0) ! i) (8 * map uint qv ! i)) [0..<64] ! i = (c0 # replicate 63 0) ! i"
      using assms(1) by (cases i) (simp_all add: c0_def q0_def rounded_quotient_def)
  qed simp
  then have b: "forward_block jpeg_fdct_islow dtbl rows col = Some (c0 # replicate 63 0)"
    using forward_block_ok [OF assms(1) q d assms(4,5) f _ w] by simp
  have q0: "1 \<le> q0" "q0 \<le> 255" using assms(2) by (simp_all add: q0_def)
  have "2 * \<bar>c0 * (8 * q0) - 64 * x\<bar> \<le> 8 * q0" unfolding c0_def using q0 by (intro rounded_quotient_error) simp
  moreover define y where "y = c0 * q0"
  moreover have "c0 * (8 * q0) = 8 * y" by (simp add: y_def)
  ultimately have "2 * \<bar>8 * y - 64 * x\<bar> \<le> 8 * q0" by simp
  then have y: "2 * \<bar>y - 8 * x\<bar> \<le> q0" by presburger
  then have yr: "bounded_by 1200 y" unfolding bounded_by_def using q0 x by presburger
  have i: "jpeg_idct_islow (map uint qv) (c0 # replicate 63 0) = Some (replicate 64 (limited (DESCALE (y * 4) 5)))"
    using yr assms(1) by (intro idct_flat) (simp_all add: bounded_by_def fits_INT32_def y_def q0_def)
  define z where "z = DESCALE (y * 4) 5"
  have z: "8 * z \<le> y + 4" "y + 4 < 8 * z + 8" unfolding z_def DESCALE_div by simp_all
  have zr: "- 512 \<le> z" "z < 512" using z yr unfolding bounded_by_def by presburger+
  have "limited z = clamp_sample (z + 128)"
    using idct_limit [OF zr] by (simp add: limited_def CENTERJSAMPLE_def)
  then have "uint (limited z) = max 0 (min 255 (z + 128))"
    by (simp add: clamp_sample_def MAXJSAMPLE_def unsigned_of_int take_bit_int_eq_self)
  then consider "uint (limited z) = z + 128" | "z + 128 < 0" "uint (limited z) = 0" | "255 < z + 128" "uint (limited z) = 255"
    by linarith
  then have "16 * \<bar>uint (limited z) - (x + 128)\<bar> \<le> q0 + 8"
  proof cases
    case 1
    then show ?thesis using y z by presburger
  next
    case 2
    then show ?thesis using y z x(1) by presburger
  next
    case 3
    then show ?thesis using y z x(2) by presburger
  qed
  then have "16 * \<bar>uint (limited z) - uint v\<bar> \<le> q0 + 8" by (simp add: x_def)
  then show ?thesis using t b i unfolding z_def q0_def by blast
qed


section \<open>Concrete blocks\<close>

definition photo_rows :: "u8 list list" where
  "photo_rows = map (\<lambda>r. map (\<lambda>c. word_of_int (int (40 + 25 * r + (if even c then 17 else 0)))) [0..<8]) [0..<8]"

lemma table_20: "length (replicate 64 20 :: u16 list) = 64" "\<forall>i<64. 1 \<le> uint ((replicate 64 20 :: u16 list) ! i) \<and> uint ((replicate 64 20 :: u16 list) ! i) \<le> 255"
  "length (replicate 256 0 :: u16 list) = 256"
  by simp_all

theorem blocks_decode_witness:
  "\<exists>dtbl simd' coefs samples. set_divisors (islow_divisors (replicate 64 20)) (replicate 256 0, True) = Some (dtbl, simd') \<and>
     forward_block jpeg_fdct_islow dtbl photo_rows 0 = Some coefs \<and> jpeg_idct_islow (map uint (replicate 64 20 :: u16 list)) coefs = Some samples \<and> length samples = 64"
proof -
  have "8 \<le> length photo_rows" "\<forall>r<8. 0 + 8 \<le> length (photo_rows ! r)" by (simp_all add: photo_rows_def)
  from blocks_decode [OF table_20 this] show ?thesis by blast
qed

theorem flat_block_roundtrip_witness:
  "\<exists>dtbl simd' coefs w. set_divisors (islow_divisors (replicate 64 20)) (replicate 256 0, True) = Some (dtbl, simd') \<and>
     forward_block jpeg_fdct_islow dtbl (replicate 8 (replicate 9 77)) 1 = Some coefs \<and>
     jpeg_idct_islow (map uint (replicate 64 20 :: u16 list)) coefs = Some (replicate 64 w) \<and> \<bar>uint w - 77\<bar> \<le> 1"
proof -
  have "8 \<le> length (replicate 8 (replicate 9 (77 :: u8)))" "\<forall>r<8. 1 + 8 \<le> length (replicate 8 (replicate 9 (77 :: u8)) ! r)"
    "\<forall>r<8. \<forall>c<8. replicate 8 (replicate 9 (77 :: u8)) ! r ! (1 + c) = 77" by simp_all
  from flat_block_roundtrip [OF table_20 this, of True] obtain dtbl simd' coefs w where
    r: "set_divisors (islow_divisors (replicate 64 20)) (replicate 256 0, True) = Some (dtbl, simd')"
      "forward_block jpeg_fdct_islow dtbl (replicate 8 (replicate 9 77)) 1 = Some coefs"
      "jpeg_idct_islow (map uint (replicate 64 20 :: u16 list)) coefs = Some (replicate 64 w)"
    and e: "16 * \<bar>uint w - uint (77 :: u8)\<bar> \<le> uint ((replicate 64 20 :: u16 list) ! 0) + 8" by blast
  have "uint (77 :: u8) = 77" "uint ((replicate 64 20 :: u16 list) ! 0) = 20" by simp_all
  with e have "16 * \<bar>uint w - 77\<bar> \<le> 28" by simp
  then have "\<bar>uint w - 77\<bar> \<le> 1" by presburger
  with r show ?thesis by blast
qed

end
