(* ===== verification/Jccolor.thy ===== *)
theory Jccolor imports Jdmaster "HOL-Library.Monad_Syntax" begin

text \<open>
  \<open>jccolor.c\<close> with \<open>jccolext.c\<close>: conversion of the application's rows of interleaved pixels to planes of the JPEG
  colour space. A row is a list of samples, \<open>None\<close> an access outside a row or to tables that were not
  built. The SIMD routines the code may choose instead are a parameter.
\<close>

unbundle bit_operations_syntax

section \<open>Access to rows\<close>

definition sample_at :: "'a list \<Rightarrow> nat \<Rightarrow> 'a option" where
  "sample_at row i = (if i < length row then Some (row ! i) else None)"

definition store_samples :: "'a list \<Rightarrow> 'a list \<Rightarrow> 'a list option" where
  "store_samples vs row = (if length vs \<le> length row then Some (vs @ drop (length vs) row) else None)"

text \<open>The samples of one row for every plane, stored at row \<open>output_row\<close> of the planes.\<close>

fun store_planes :: "u8 list list \<Rightarrow> nat \<Rightarrow> u8 list list list \<Rightarrow> u8 list list list option" where
  "store_planes [] output_row out = Some out"
| "store_planes (p # ps) output_row [] = None"
| "store_planes (p # ps) output_row (plane # out) =
     do { outptr \<leftarrow> sample_at plane output_row;
          r \<leftarrow> store_samples p outptr;
          rest \<leftarrow> store_planes ps output_row out;
          Some (plane[output_row := r] # rest) }"

section \<open>Colour spaces of pixels\<close>

text \<open>Offsets of red, green and blue and the size of a pixel, -1 where there are none.\<close>

definition rgb_red :: "J_COLOR_SPACE \<Rightarrow> int" where
  "rgb_red cs = (case cs of JCS_RGB \<Rightarrow> 0 | JCS_EXT_RGB \<Rightarrow> 0 | JCS_EXT_RGBX \<Rightarrow> 0 | JCS_EXT_BGR \<Rightarrow> 2 | JCS_EXT_BGRX \<Rightarrow> 2
     | JCS_EXT_XBGR \<Rightarrow> 3 | JCS_EXT_XRGB \<Rightarrow> 1 | JCS_EXT_RGBA \<Rightarrow> 0 | JCS_EXT_BGRA \<Rightarrow> 2 | JCS_EXT_ABGR \<Rightarrow> 3 | JCS_EXT_ARGB \<Rightarrow> 1 | _ \<Rightarrow> - 1)"

definition rgb_green :: "J_COLOR_SPACE \<Rightarrow> int" where
  "rgb_green cs = (case cs of JCS_RGB \<Rightarrow> 1 | JCS_EXT_RGB \<Rightarrow> 1 | JCS_EXT_RGBX \<Rightarrow> 1 | JCS_EXT_BGR \<Rightarrow> 1 | JCS_EXT_BGRX \<Rightarrow> 1
     | JCS_EXT_XBGR \<Rightarrow> 2 | JCS_EXT_XRGB \<Rightarrow> 2 | JCS_EXT_RGBA \<Rightarrow> 1 | JCS_EXT_BGRA \<Rightarrow> 1 | JCS_EXT_ABGR \<Rightarrow> 2 | JCS_EXT_ARGB \<Rightarrow> 2 | _ \<Rightarrow> - 1)"

definition rgb_blue :: "J_COLOR_SPACE \<Rightarrow> int" where
  "rgb_blue cs = (case cs of JCS_RGB \<Rightarrow> 2 | JCS_EXT_RGB \<Rightarrow> 2 | JCS_EXT_RGBX \<Rightarrow> 2 | JCS_EXT_BGR \<Rightarrow> 0 | JCS_EXT_BGRX \<Rightarrow> 0
     | JCS_EXT_XBGR \<Rightarrow> 1 | JCS_EXT_XRGB \<Rightarrow> 3 | JCS_EXT_RGBA \<Rightarrow> 2 | JCS_EXT_BGRA \<Rightarrow> 0 | JCS_EXT_ABGR \<Rightarrow> 1 | JCS_EXT_ARGB \<Rightarrow> 3 | _ \<Rightarrow> - 1)"

definition is_rgb :: "J_COLOR_SPACE \<Rightarrow> bool" where
  "is_rgb cs \<longleftrightarrow> cs \<in> {JCS_RGB, JCS_EXT_RGB, JCS_EXT_RGBX, JCS_EXT_BGR, JCS_EXT_BGRX, JCS_EXT_XBGR, JCS_EXT_XRGB,
     JCS_EXT_RGBA, JCS_EXT_BGRA, JCS_EXT_ABGR, JCS_EXT_ARGB}"

text \<open>\<open>RGB_RED\<close>, \<open>RGB_GREEN\<close>, \<open>RGB_BLUE\<close> and \<open>RGB_PIXELSIZE\<close> of the instance of \<open>jccolext.c\<close> the switches select.\<close>

definition rgb_layout :: "J_COLOR_SPACE \<Rightarrow> nat \<times> nat \<times> nat \<times> nat" where
  "rgb_layout cs = (case cs of
       JCS_EXT_RGB \<Rightarrow> (0, 1, 2, 3)
     | JCS_EXT_RGBX \<Rightarrow> (0, 1, 2, 4) | JCS_EXT_RGBA \<Rightarrow> (0, 1, 2, 4)
     | JCS_EXT_BGR \<Rightarrow> (2, 1, 0, 3)
     | JCS_EXT_BGRX \<Rightarrow> (2, 1, 0, 4) | JCS_EXT_BGRA \<Rightarrow> (2, 1, 0, 4)
     | JCS_EXT_XBGR \<Rightarrow> (3, 2, 1, 4) | JCS_EXT_ABGR \<Rightarrow> (3, 2, 1, 4)
     | JCS_EXT_XRGB \<Rightarrow> (1, 2, 3, 4) | JCS_EXT_ARGB \<Rightarrow> (1, 2, 3, 4)
     | _ \<Rightarrow> (0, 1, 2, 3))"

section \<open>RGB to YCbCr\<close>

definition SCALEBITS :: nat where "SCALEBITS = 16"
definition CBCR_OFFSET :: int where "CBCR_OFFSET = push_bit SCALEBITS 128"
definition ONE_HALF :: int where "ONE_HALF = push_bit (SCALEBITS - 1) 1"

text \<open>\<open>FIX\<close> of a constant with five decimal places, given in units of the last.\<close>

definition FIX :: "int \<Rightarrow> int" where
  "FIX x = (x * 2 ^ SCALEBITS + 50000) div 100000"

definition R_Y_OFF :: nat where "R_Y_OFF = 0"
definition G_Y_OFF :: nat where "G_Y_OFF = 256"
definition B_Y_OFF :: nat where "B_Y_OFF = 512"
definition R_CB_OFF :: nat where "R_CB_OFF = 768"
definition G_CB_OFF :: nat where "G_CB_OFF = 1024"
definition B_CB_OFF :: nat where "B_CB_OFF = 1280"
definition R_CR_OFF :: nat where "R_CR_OFF = B_CB_OFF"
definition G_CR_OFF :: nat where "G_CR_OFF = 1536"
definition B_CR_OFF :: nat where "B_CR_OFF = 1792"

lemmas offsets = R_Y_OFF_def G_Y_OFF_def B_Y_OFF_def R_CB_OFF_def G_CB_OFF_def B_CB_OFF_def R_CR_OFF_def G_CR_OFF_def B_CR_OFF_def
lemmas scales = SCALEBITS_def CBCR_OFFSET_def ONE_HALF_def

definition rgb_ycc_table :: "int list" where
  "rgb_ycc_table = concat (map (\<lambda>f. map f [0..255])
     [\<lambda>i. FIX 29900 * i, \<lambda>i. FIX 58700 * i, \<lambda>i. FIX 11400 * i + ONE_HALF,
      \<lambda>i. - FIX 16874 * i, \<lambda>i. - FIX 33126 * i, \<lambda>i. FIX 50000 * i + CBCR_OFFSET + ONE_HALF - 1,
      \<lambda>i. - FIX 41869 * i, \<lambda>i. - FIX 8131 * i])"

definition tab_sum :: "int list \<Rightarrow> nat \<Rightarrow> nat \<Rightarrow> nat \<Rightarrow> u8" where
  "tab_sum ctab i j k = word_of_int (drop_bit SCALEBITS (ctab ! i + ctab ! j + ctab ! k))"

definition y_of :: "int list \<Rightarrow> u8 \<Rightarrow> u8 \<Rightarrow> u8 \<Rightarrow> u8" where
  "y_of ctab r g b = tab_sum ctab (unat r + R_Y_OFF) (unat g + G_Y_OFF) (unat b + B_Y_OFF)"

definition cb_of :: "int list \<Rightarrow> u8 \<Rightarrow> u8 \<Rightarrow> u8 \<Rightarrow> u8" where
  "cb_of ctab r g b = tab_sum ctab (unat r + R_CB_OFF) (unat g + G_CB_OFF) (unat b + B_CB_OFF)"

definition cr_of :: "int list \<Rightarrow> u8 \<Rightarrow> u8 \<Rightarrow> u8 \<Rightarrow> u8" where
  "cr_of ctab r g b = tab_sum ctab (unat r + R_CR_OFF) (unat g + G_CR_OFF) (unat b + B_CR_OFF)"

section \<open>One row\<close>

text \<open>The components of every pixel, from the samples of the pixel at \<open>px * col\<close>.\<close>

definition row_pixels :: "nat \<Rightarrow> nat \<Rightarrow> nat list \<Rightarrow> (u8 list \<Rightarrow> u8 list) \<Rightarrow> u8 list \<Rightarrow> u8 list list option" where
  "row_pixels num_cols px offs f inptr =
     those (map (\<lambda>col. map_option f (those (map (\<lambda>o'. sample_at inptr (col * px + o')) offs))) [0..<num_cols])"

definition to_planes :: "nat \<Rightarrow> u8 list list \<Rightarrow> u8 list list" where
  "to_planes nc pixels = map (\<lambda>ci. map (\<lambda>p. p ! ci) pixels) [0..<nc]"

definition rgb_ycc_convert_internal :: "int list \<Rightarrow> nat \<times> nat \<times> nat \<times> nat \<Rightarrow> nat \<Rightarrow> u8 list \<Rightarrow> u8 list list option" where
  "rgb_ycc_convert_internal ctab = (\<lambda>(red, green, blue, px) num_cols inptr.
     map_option (to_planes 3) (row_pixels num_cols px [red, green, blue]
       (\<lambda>p. [y_of ctab (p ! 0) (p ! 1) (p ! 2), cb_of ctab (p ! 0) (p ! 1) (p ! 2), cr_of ctab (p ! 0) (p ! 1) (p ! 2)]) inptr))"

definition rgb_gray_convert_internal :: "int list \<Rightarrow> nat \<times> nat \<times> nat \<times> nat \<Rightarrow> nat \<Rightarrow> u8 list \<Rightarrow> u8 list list option" where
  "rgb_gray_convert_internal ctab = (\<lambda>(red, green, blue, px) num_cols inptr.
     map_option (to_planes 1) (row_pixels num_cols px [red, green, blue] (\<lambda>p. [y_of ctab (p ! 0) (p ! 1) (p ! 2)]) inptr))"

definition rgb_rgb_convert_internal :: "nat \<times> nat \<times> nat \<times> nat \<Rightarrow> nat \<Rightarrow> u8 list \<Rightarrow> u8 list list option" where
  "rgb_rgb_convert_internal = (\<lambda>(red, green, blue, px) num_cols inptr.
     map_option (to_planes 3) (row_pixels num_cols px [red, green, blue] (\<lambda>p. p) inptr))"

definition cmyk_ycck_row :: "int list \<Rightarrow> nat \<Rightarrow> u8 list \<Rightarrow> u8 list list option" where
  "cmyk_ycck_row ctab num_cols inptr =
     map_option (to_planes 4) (row_pixels num_cols 4 [0, 1, 2, 3]
       (\<lambda>p. let r = 255 - p ! 0; g = 255 - p ! 1; b = 255 - p ! 2 in [y_of ctab r g b, cb_of ctab r g b, cr_of ctab r g b, p ! 3]) inptr)"

definition grayscale_row :: "nat \<Rightarrow> nat \<Rightarrow> u8 list \<Rightarrow> u8 list list option" where
  "grayscale_row instride num_cols inptr = map_option (to_planes 1) (row_pixels num_cols instride [0] (\<lambda>p. p) inptr)"

definition null_row :: "nat \<Rightarrow> nat \<Rightarrow> u8 list \<Rightarrow> u8 list list option" where
  "null_row nc num_cols inptr = map_option (to_planes nc) (row_pixels num_cols nc [0..<nc] (\<lambda>p. p) inptr)"

section \<open>The module\<close>

datatype c_start = null_method | rgb_ycc_start

datatype c_convert =
    rgb_ycc_convert | rgb_gray_convert | rgb_rgb_convert | cmyk_ycck_convert | grayscale_convert | null_convert
  | jsimd_rgb_gray_convert | jsimd_rgb_ycc_convert

record color_converter =
  cc_start :: c_start
  cc_convert :: c_convert
  rgb_ycc_tab :: "int list option"

definition start_pass_cconvert :: "color_converter \<Rightarrow> color_converter" where
  "start_pass_cconvert cc = (case cc_start cc of null_method \<Rightarrow> cc | rgb_ycc_start \<Rightarrow> cc\<lparr>rgb_ycc_tab := Some rgb_ycc_table\<rparr>)"

definition convert_row ::
  "(c_convert \<Rightarrow> jpeg_compress_struct \<Rightarrow> u8 list \<Rightarrow> u8 list list option) \<Rightarrow> jpeg_compress_struct \<Rightarrow> color_converter \<Rightarrow> u8 list \<Rightarrow> u8 list list option" where
  "convert_row simd cin cc inptr =
     (let num_cols = unat (image_width cin); layout = rgb_layout (in_color_space cin)
      in case cc_convert cc of
           rgb_ycc_convert \<Rightarrow> Option.bind (rgb_ycc_tab cc) (\<lambda>ctab. rgb_ycc_convert_internal ctab layout num_cols inptr)
         | rgb_gray_convert \<Rightarrow> Option.bind (rgb_ycc_tab cc) (\<lambda>ctab. rgb_gray_convert_internal ctab layout num_cols inptr)
         | rgb_rgb_convert \<Rightarrow> rgb_rgb_convert_internal layout num_cols inptr
         | cmyk_ycck_convert \<Rightarrow> Option.bind (rgb_ycc_tab cc) (\<lambda>ctab. cmyk_ycck_row ctab num_cols inptr)
         | grayscale_convert \<Rightarrow> grayscale_row (nat (input_components cin)) num_cols inptr
         | null_convert \<Rightarrow> null_row (nat (num_components cin)) num_cols inptr
         | jsimd_rgb_gray_convert \<Rightarrow> simd jsimd_rgb_gray_convert cin inptr
         | jsimd_rgb_ycc_convert \<Rightarrow> simd jsimd_rgb_ycc_convert cin inptr)"

fun convert_rows :: "(u8 list \<Rightarrow> u8 list list option) \<Rightarrow> u8 list list \<Rightarrow> nat \<Rightarrow> u8 list list list \<Rightarrow> u8 list list list option" where
  "convert_rows f [] output_row out = Some out"
| "convert_rows f (inptr # ins) output_row out =
     do { planes \<leftarrow> f inptr; out \<leftarrow> store_planes planes output_row out; convert_rows f ins (output_row + 1) out }"

definition color_convert ::
  "(c_convert \<Rightarrow> jpeg_compress_struct \<Rightarrow> u8 list \<Rightarrow> u8 list list option) \<Rightarrow> jpeg_compress_struct \<Rightarrow> color_converter \<Rightarrow>
   u8 list list \<Rightarrow> u8 list list list \<Rightarrow> nat \<Rightarrow> u8 list list list option" where
  "color_convert simd cin cc input_buf output_buf output_row = convert_rows (convert_row simd cin cc) input_buf output_row output_buf"

definition input_components_ok :: "jpeg_compress_struct \<Rightarrow> bool" where
  "input_components_ok cin =
     (let n = input_components cin; cs = in_color_space cin
      in if cs = JCS_GRAYSCALE then n = 1
         else if is_rgb cs then n = rgb_pixelsize cs
         else if cs = JCS_YCbCr then n = 3
         else if cs = JCS_CMYK \<or> cs = JCS_YCCK then n = 4
         else 1 \<le> n)"

definition jinit_color_converter :: "bool \<Rightarrow> bool \<Rightarrow> jpeg_compress_struct \<Rightarrow> jerr + color_converter" where
  "jinit_color_converter can_rgb_gray can_rgb_ycc cin =
     (let cs = in_color_space cin; nc = num_components cin;
          use = (\<lambda>st cv. Inr \<lparr>cc_start = st, cc_convert = cv, rgb_ycc_tab = None\<rparr>)
      in if \<not> input_components_ok cin then Inl JERR_BAD_IN_COLORSPACE
         else case jpeg_color_space cin of
           JCS_GRAYSCALE \<Rightarrow>
             if nc \<noteq> 1 then Inl JERR_BAD_J_COLORSPACE
             else if cs = JCS_GRAYSCALE then use null_method grayscale_convert
             else if is_rgb cs then (if can_rgb_gray then use null_method jsimd_rgb_gray_convert else use rgb_ycc_start rgb_gray_convert)
             else if cs = JCS_YCbCr then use null_method grayscale_convert
             else Inl JERR_CONVERSION_NOTIMPL
         | JCS_RGB \<Rightarrow>
             if nc \<noteq> 3 then Inl JERR_BAD_J_COLORSPACE
             else if rgb_red cs = 0 \<and> rgb_green cs = 1 \<and> rgb_blue cs = 2 \<and> rgb_pixelsize cs = 3 then use null_method null_convert
             else if is_rgb cs then use null_method rgb_rgb_convert
             else Inl JERR_CONVERSION_NOTIMPL
         | JCS_YCbCr \<Rightarrow>
             if nc \<noteq> 3 then Inl JERR_BAD_J_COLORSPACE
             else if is_rgb cs then (if can_rgb_ycc then use null_method jsimd_rgb_ycc_convert else use rgb_ycc_start rgb_ycc_convert)
             else if cs = JCS_YCbCr then use null_method null_convert
             else Inl JERR_CONVERSION_NOTIMPL
         | JCS_CMYK \<Rightarrow>
             if nc \<noteq> 4 then Inl JERR_BAD_J_COLORSPACE
             else if cs = JCS_CMYK then use null_method null_convert
             else Inl JERR_CONVERSION_NOTIMPL
         | JCS_YCCK \<Rightarrow>
             if nc \<noteq> 4 then Inl JERR_BAD_J_COLORSPACE
             else if cs = JCS_CMYK then use rgb_ycc_start cmyk_ycck_convert
             else if cs = JCS_YCCK then use null_method null_convert
             else Inl JERR_CONVERSION_NOTIMPL
         | jcs \<Rightarrow>
             if jcs \<noteq> cs \<or> nc \<noteq> input_components cin then Inl JERR_CONVERSION_NOTIMPL
             else use null_method null_convert)"

section \<open>What a conversion computes\<close>

definition luma :: "u8 \<Rightarrow> u8 \<Rightarrow> u8 \<Rightarrow> int" where
  "luma r g b = (19595 * uint r + 38470 * uint g + 7471 * uint b + 32768) div 65536"

definition blue_diff :: "u8 \<Rightarrow> u8 \<Rightarrow> u8 \<Rightarrow> int" where
  "blue_diff r g b = (32768 * uint b - 11059 * uint r - 21709 * uint g + 8421375) div 65536"

definition red_diff :: "u8 \<Rightarrow> u8 \<Rightarrow> u8 \<Rightarrow> int" where
  "red_diff r g b = (32768 * uint r - 27439 * uint g - 5329 * uint b + 8421375) div 65536"

definition ycc_pixel :: "u8 \<Rightarrow> u8 \<Rightarrow> u8 \<Rightarrow> u8 list" where
  "ycc_pixel r g b = map word_of_int [luma r g b, blue_diff r g b, red_diff r g b]"

definition convert_pixel :: "J_COLOR_SPACE \<Rightarrow> J_COLOR_SPACE \<Rightarrow> u8 list \<Rightarrow> u8 list" where
  "convert_pixel cs jcs p =
     (let (red, green, blue, _) = rgb_layout cs; r = p ! red; g = p ! green; b = p ! blue
      in case jcs of
           JCS_GRAYSCALE \<Rightarrow> if is_rgb cs then [word_of_int (luma r g b)] else [p ! 0]
         | JCS_RGB \<Rightarrow> [r, g, b]
         | JCS_YCbCr \<Rightarrow> if is_rgb cs then ycc_pixel r g b else p
         | JCS_YCCK \<Rightarrow> if cs = JCS_CMYK then ycc_pixel (255 - p ! 0) (255 - p ! 1) (255 - p ! 2) @ [p ! 3] else p
         | _ \<Rightarrow> p)"

lemma u8_less: "unat (v :: u8) < 256" "uint (v :: u8) < 256"
  using unsigned_less [of v, where 'a = nat] unsigned_less [of v, where 'a = int] by simp_all

lemma table_entry_at: "i < 256 \<Longrightarrow> k < length fs \<Longrightarrow> concat (map (\<lambda>f. map f [0..255]) fs) ! (i + 256 * k) = (fs ! k) (int i)"
proof (induction fs arbitrary: k)
  case (Cons f fs)
  have l: "length [0..255 :: int] = 256" by simp
  show ?case
  proof (cases k)
    case 0
    then show ?thesis using Cons.prems l by (simp add: nth_append)
  next
    case (Suc k')
    then show ?thesis using Cons.IH [of k'] Cons.prems by (simp add: nth_append)
  qed
qed simp

lemma fix_values: "FIX 29900 = 19595" "FIX 58700 = 38470" "FIX 11400 = 7471" "FIX 16874 = 11059" "FIX 33126 = 21709"
  "FIX 50000 = 32768" "FIX 41869 = 27439" "FIX 8131 = 5329"
  by (simp_all add: FIX_def SCALEBITS_def)

lemma ycc_entries:
  assumes "i < 256"
  shows "rgb_ycc_table ! (i + R_Y_OFF) = 19595 * int i" "rgb_ycc_table ! (i + G_Y_OFF) = 38470 * int i"
    "rgb_ycc_table ! (i + B_Y_OFF) = 7471 * int i + 32768" "rgb_ycc_table ! (i + R_CB_OFF) = - 11059 * int i"
    "rgb_ycc_table ! (i + G_CB_OFF) = - 21709 * int i" "rgb_ycc_table ! (i + B_CB_OFF) = 32768 * int i + 8421375"
    "rgb_ycc_table ! (i + G_CR_OFF) = - 27439 * int i" "rgb_ycc_table ! (i + B_CR_OFF) = - 5329 * int i"
proof -
  define fs where "fs = [\<lambda>i. FIX 29900 * i, \<lambda>i. FIX 58700 * i, \<lambda>i. FIX 11400 * i + ONE_HALF,
    \<lambda>i. - FIX 16874 * i, \<lambda>i. - FIX 33126 * i, \<lambda>i. FIX 50000 * i + CBCR_OFFSET + ONE_HALF - 1, \<lambda>i. - FIX 41869 * i, \<lambda>i. - FIX 8131 * i]"
  have "rgb_ycc_table ! (i + 256 * k) = (fs ! k) (int i)" if "k < 8" for k
    using table_entry_at [OF assms, of k fs] that by (simp add: rgb_ycc_table_def fs_def)
  from this [of 0] this [of 1] this [of 2] this [of 3] this [of 4] this [of 5] this [of 6] this [of 7]
  show "rgb_ycc_table ! (i + R_Y_OFF) = 19595 * int i" "rgb_ycc_table ! (i + G_Y_OFF) = 38470 * int i"
    "rgb_ycc_table ! (i + B_Y_OFF) = 7471 * int i + 32768" "rgb_ycc_table ! (i + R_CB_OFF) = - 11059 * int i"
    "rgb_ycc_table ! (i + G_CB_OFF) = - 21709 * int i" "rgb_ycc_table ! (i + B_CB_OFF) = 32768 * int i + 8421375"
    "rgb_ycc_table ! (i + G_CR_OFF) = - 27439 * int i" "rgb_ycc_table ! (i + B_CR_OFF) = - 5329 * int i"
    by (simp_all add: offsets fs_def fix_values scales)
qed

lemma ycc_of:
  "y_of rgb_ycc_table r g b = word_of_int (luma r g b)"
  "cb_of rgb_ycc_table r g b = word_of_int (blue_diff r g b)"
  "cr_of rgb_ycc_table r g b = word_of_int (red_diff r g b)"
  unfolding y_of_def cb_of_def cr_of_def tab_sum_def R_CR_OFF_def ycc_entries [OF u8_less(1)] luma_def blue_diff_def red_diff_def
  by (simp_all add: drop_bit_eq_div SCALEBITS_def algebra_simps)

text \<open>No value needs range limiting.\<close>

lemma scaled_range: "0 \<le> (x :: int) \<Longrightarrow> x < 16777216 \<Longrightarrow> 0 \<le> x div 65536 \<and> x div 65536 \<le> 255"
  using zdiv_mono1 [of 0 x 65536] zdiv_mono1 [of x 16777215 65536] by simp

lemma ycc_range: "0 \<le> luma r g b" "luma r g b \<le> 255" "0 \<le> blue_diff r g b" "blue_diff r g b \<le> 255" "0 \<le> red_diff r g b" "red_diff r g b \<le> 255"
proof -
  have "0 \<le> uint r" "uint r \<le> 255" "0 \<le> uint g" "uint g \<le> 255" "0 \<le> uint b" "uint b \<le> 255"
    using u8_less(2) [of r] u8_less(2) [of g] u8_less(2) [of b] by simp_all
  then show "0 \<le> luma r g b" "luma r g b \<le> 255" "0 \<le> blue_diff r g b" "blue_diff r g b \<le> 255" "0 \<le> red_diff r g b" "red_diff r g b \<le> 255"
    using scaled_range [of "19595 * uint r + 38470 * uint g + 7471 * uint b + 32768"]
      scaled_range [of "32768 * uint b - 11059 * uint r - 21709 * uint g + 8421375"]
      scaled_range [of "32768 * uint r - 27439 * uint g - 5329 * uint b + 8421375"]
    unfolding luma_def blue_diff_def red_diff_def by linarith+
qed

section \<open>Rows and planes\<close>

lemma those_map: "(\<And>x. x \<in> set xs \<Longrightarrow> f x = Some (g x)) \<Longrightarrow> those (map f xs) = Some (map g xs)"
  by (induction xs) simp_all

lemma row_pixels_ok:
  assumes "\<And>col k. col < n \<Longrightarrow> k \<in> set offs \<Longrightarrow> col * px + k < length inptr"
  shows "row_pixels n px offs f inptr = Some (map (\<lambda>col. f (map (\<lambda>k. inptr ! (col * px + k)) offs)) [0..<n])"
  unfolding row_pixels_def
proof (rule those_map)
  fix col assume "col \<in> set [0..<n]"
  then have "those (map (\<lambda>k. sample_at inptr (col * px + k)) offs) = Some (map (\<lambda>k. inptr ! (col * px + k)) offs)"
    using assms by (intro those_map) (simp add: sample_at_def)
  then show "map_option f (those (map (\<lambda>k. sample_at inptr (col * px + k)) offs)) = Some (f (map (\<lambda>k. inptr ! (col * px + k)) offs))" by simp
qed

lemma pixel_inside: "col < n \<Longrightarrow> k < px \<Longrightarrow> n * px \<le> l \<Longrightarrow> col * px + k < (l :: nat)"
proof -
  assume a: "col < n" "k < px" "n * px \<le> l"
  have "col * px + px \<le> n * px" using mult_le_mono1 [of "Suc col" n px] a(1) by simp
  then show ?thesis using a by linarith
qed

definition pixel_at :: "nat \<Rightarrow> u8 list \<Rightarrow> nat \<Rightarrow> u8 list" where
  "pixel_at px inptr col = take px (drop (col * px) inptr)"

lemma pixel_at_nth: "col < n \<Longrightarrow> k < px \<Longrightarrow> n * px \<le> length inptr \<Longrightarrow> inptr ! (col * px + k) = pixel_at px inptr col ! k"
  using pixel_inside [of col n k px "length inptr"] by (simp add: pixel_at_def)

lemma row_pixels_at:
  assumes "n * px \<le> length inptr" "\<forall>k \<in> set offs. k < px"
  shows "row_pixels n px offs f inptr = Some (map (\<lambda>col. f (map (\<lambda>k. pixel_at px inptr col ! k) offs)) [0..<n])"
  using assms by (subst row_pixels_ok) (auto simp: pixel_inside pixel_at_nth intro!: arg_cong [where f = f])

lemma pixel_at_length: "col < n \<Longrightarrow> n * px \<le> length inptr \<Longrightarrow> length (pixel_at px inptr col) = px"
proof -
  assume a: "col < n" "n * px \<le> length inptr"
  have "col * px + px \<le> n * px" using mult_le_mono1 [of "Suc col" n px] a(1) by simp
  then show ?thesis using a by (simp add: pixel_at_def)
qed

section \<open>The whole conversion\<close>

text \<open>The row of component \<open>ci\<close> that a row of pixels gives.\<close>

definition plane_row :: "jpeg_compress_struct \<Rightarrow> u8 list \<Rightarrow> nat \<Rightarrow> u8 list" where
  "plane_row cin inptr ci =
     map (\<lambda>col. convert_pixel (in_color_space cin) (jpeg_color_space cin) (pixel_at (nat (input_components cin)) inptr col) ! ci)
       [0..<unat (image_width cin)]"

definition converted_row :: "jpeg_compress_struct \<Rightarrow> u8 list \<Rightarrow> u8 list list" where
  "converted_row cin inptr = map (plane_row cin inptr) [0..<nat (num_components cin)]"

lemma to_planes_map:
  assumes "\<And>col ci. col < n \<Longrightarrow> ci < nc \<Longrightarrow> p col ! ci = q col ! ci"
  shows "to_planes nc (map p [0..<n]) = map (\<lambda>ci. map (\<lambda>col. q col ! ci) [0..<n]) [0..<nc]"
  using assms by (simp add: to_planes_def)

lemma rgb_layout_sizes:
  assumes "is_rgb cs" "rgb_layout cs = (red, green, blue, px)"
  shows "red < px" "green < px" "blue < px" "int px = rgb_pixelsize cs"
  using assms by (cases cs; simp add: rgb_layout_def is_rgb_def rgb_pixelsize_def)+

lemma plain_layout:
  assumes "rgb_red cs = 0" "rgb_green cs = 1" "rgb_blue cs = 2" "rgb_pixelsize cs = 3"
  shows "is_rgb cs" "rgb_layout cs = (0, 1, 2, 3)"
  using assms by (cases cs; simp add: rgb_layout_def is_rgb_def rgb_pixelsize_def rgb_red_def)+

lemma rgb_rows:
  assumes "is_rgb cs" "rgb_pixelsize cs = n" "w * nat n \<le> length inptr"
  shows "rgb_ycc_convert_internal rgb_ycc_table (rgb_layout cs) w inptr =
       Some (map (\<lambda>ci. map (\<lambda>col. convert_pixel cs JCS_YCbCr (pixel_at (nat n) inptr col) ! ci) [0..<w]) [0..<3])"
    and "rgb_gray_convert_internal rgb_ycc_table (rgb_layout cs) w inptr =
       Some (map (\<lambda>ci. map (\<lambda>col. convert_pixel cs JCS_GRAYSCALE (pixel_at (nat n) inptr col) ! ci) [0..<w]) [0..<1])"
    and "rgb_rgb_convert_internal (rgb_layout cs) w inptr =
       Some (map (\<lambda>ci. map (\<lambda>col. convert_pixel cs JCS_RGB (pixel_at (nat n) inptr col) ! ci) [0..<w]) [0..<3])"
proof -
  obtain red green blue px where l: "rgb_layout cs = (red, green, blue, px)" by (cases "rgb_layout cs") auto
  note s = rgb_layout_sizes [OF assms(1) l]
  have n: "nat n = px" using s(4) assms(2) by simp
  have r: "\<forall>k \<in> set [red, green, blue]. k < px" using s by simp
  note rp = row_pixels_at [OF assms(3) [unfolded n] r]
  show "rgb_ycc_convert_internal rgb_ycc_table (rgb_layout cs) w inptr =
       Some (map (\<lambda>ci. map (\<lambda>col. convert_pixel cs JCS_YCbCr (pixel_at (nat n) inptr col) ! ci) [0..<w]) [0..<3])"
    unfolding rgb_ycc_convert_internal_def l split rp option.map option.inject
    by (rule to_planes_map) (simp add: convert_pixel_def l assms(1) ycc_of ycc_pixel_def n Let_def)
  show "rgb_gray_convert_internal rgb_ycc_table (rgb_layout cs) w inptr =
       Some (map (\<lambda>ci. map (\<lambda>col. convert_pixel cs JCS_GRAYSCALE (pixel_at (nat n) inptr col) ! ci) [0..<w]) [0..<1])"
    unfolding rgb_gray_convert_internal_def l split rp option.map option.inject
    by (rule to_planes_map) (simp add: convert_pixel_def l assms(1) ycc_of n Let_def)
  show "rgb_rgb_convert_internal (rgb_layout cs) w inptr =
       Some (map (\<lambda>ci. map (\<lambda>col. convert_pixel cs JCS_RGB (pixel_at (nat n) inptr col) ! ci) [0..<w]) [0..<3])"
    unfolding rgb_rgb_convert_internal_def l split rp option.map option.inject
    by (rule to_planes_map) (simp add: convert_pixel_def l n Let_def)
qed

lemma null_row_ok:
  assumes "w * n \<le> length inptr"
  shows "null_row n w inptr = Some (map (\<lambda>ci. map (\<lambda>col. pixel_at n inptr col ! ci) [0..<w]) [0..<n])"
proof -
  have "row_pixels w n [0..<n] (\<lambda>p. p) inptr = Some (map (\<lambda>col. map ((!) (pixel_at n inptr col)) [0..<n]) [0..<w])"
    using assms by (subst row_pixels_at) simp_all
  then show ?thesis unfolding null_row_def by (simp add: to_planes_def)
qed

lemma grayscale_row_ok:
  assumes "w * n \<le> length inptr" "1 \<le> n"
  shows "grayscale_row n w inptr = Some [map (\<lambda>col. pixel_at n inptr col ! 0) [0..<w]]"
  using assms by (simp add: grayscale_row_def row_pixels_at to_planes_def)

lemma cmyk_row_ok:
  assumes "w * 4 \<le> length inptr"
  shows "cmyk_ycck_row rgb_ycc_table w inptr =
     Some (map (\<lambda>ci. map (\<lambda>col. convert_pixel JCS_CMYK JCS_YCCK (pixel_at 4 inptr col) ! ci) [0..<w]) [0..<4])"
proof -
  have r: "\<forall>k \<in> set [0, 1, 2, 3]. k < (4 :: nat)" by simp
  show ?thesis
    unfolding cmyk_ycck_row_def row_pixels_at [OF assms r] option.map option.inject
    by (rule to_planes_map) (simp add: convert_pixel_def ycc_of ycc_pixel_def Let_def split: prod.splits)
qed

lemma rgb_not_other: "is_rgb cs \<Longrightarrow> cs \<noteq> JCS_GRAYSCALE \<and> cs \<noteq> JCS_YCbCr \<and> cs \<noteq> JCS_CMYK \<and> cs \<noteq> JCS_YCCK"
  by (auto simp: is_rgb_def)

lemma input_components_rgb: "is_rgb (in_color_space cin) \<Longrightarrow> input_components_ok cin \<Longrightarrow> rgb_pixelsize (in_color_space cin) = input_components cin"
  using rgb_not_other by (auto simp: input_components_ok_def Let_def split: if_splits)

lemma convert_other:
  "\<not> is_rgb cs \<Longrightarrow> convert_pixel cs JCS_GRAYSCALE p = [p ! 0]"
  "\<not> is_rgb cs \<Longrightarrow> convert_pixel cs JCS_YCbCr p = p"
  "cs \<noteq> JCS_CMYK \<Longrightarrow> convert_pixel cs JCS_YCCK p = p"
  "jcs \<notin> {JCS_GRAYSCALE, JCS_RGB, JCS_YCbCr, JCS_YCCK} \<Longrightarrow> convert_pixel cs jcs p = p"
  by (auto simp: convert_pixel_def Let_def split: prod.splits J_COLOR_SPACE.splits)

lemma nth_three: "ci < 3 \<Longrightarrow> [p ! 0, p ! Suc 0, p ! 2] ! ci = p ! ci"
  by (auto simp: less_Suc_eq numeral_eq_Suc)

lemma convert_row_ok:
  assumes "jinit_color_converter False False cin = Inr cc"
    and len: "unat (image_width cin) * nat (input_components cin) \<le> length inptr"
  shows "convert_row simd cin (start_pass_cconvert cc) inptr = Some (converted_row cin inptr)"
proof -
  have ok: "input_components_ok cin" using assms(1) by (simp add: jinit_color_converter_def Let_def split: if_splits)
  note rgb = rgb_rows [OF _ input_components_rgb [OF _ ok] len]
  note null = null_row_ok [OF len]
  note simps = jinit_color_converter_def Let_def start_pass_cconvert_def convert_row_def ok converted_row_def plane_row_def
  let ?cs = "in_color_space cin"
  have rgb_cs: "?cs \<noteq> JCS_GRAYSCALE" "?cs \<noteq> JCS_YCbCr" "?cs \<noteq> JCS_CMYK" "?cs \<noteq> JCS_YCCK" if "is_rgb ?cs"
    using rgb_not_other [OF that] by simp_all
  have other: "(?cs = JCS_GRAYSCALE \<longrightarrow> input_components cin = 1) \<and> (?cs = JCS_YCbCr \<longrightarrow> input_components cin = 3) \<and>
     (?cs = JCS_CMYK \<or> ?cs = JCS_YCCK \<longrightarrow> input_components cin = 4)" if "\<not> is_rgb ?cs"
    using ok that by (auto simp: input_components_ok_def Let_def)
  show ?thesis
  proof (cases "jpeg_color_space cin")
    case JCS_GRAYSCALE
    show ?thesis
    proof (cases "is_rgb ?cs")
      case True
      with assms(1) JCS_GRAYSCALE rgb_cs show ?thesis by (auto simp: simps rgb(2) split: if_splits)
    next
      case False
      with assms(1) JCS_GRAYSCALE len other show ?thesis
        by (auto simp: simps convert_other grayscale_row_ok split: if_splits)
    qed
  next
    case JCS_RGB
    show ?thesis
    proof (cases "cc_convert cc = null_convert")
      case True
      then have p: "rgb_red ?cs = 0" "rgb_green ?cs = 1" "rgb_blue ?cs = 2" "rgb_pixelsize ?cs = 3" "num_components cin = 3"
        using assms(1) JCS_RGB by (auto simp: simps split: if_splits)
      note l = plain_layout [OF p(1-4)]
      have "input_components cin = 3" using input_components_rgb [OF l(1) ok] p(4) by simp
      with True assms(1) p JCS_RGB null show ?thesis
        by (auto simp: simps convert_pixel_def l nth_three cong: map_cong split: if_splits)
    next
      case False
      then show ?thesis using assms(1) JCS_RGB by (auto simp: simps rgb(3) split: if_splits)
    qed
  next
    case JCS_YCbCr
    show ?thesis
    proof (cases "is_rgb ?cs")
      case True
      with assms(1) JCS_YCbCr show ?thesis by (auto simp: simps rgb(1) split: if_splits)
    next
      case False
      with assms(1) JCS_YCbCr null other show ?thesis by (auto simp: simps convert_other split: if_splits)
    qed
  next
    case JCS_CMYK
    have "\<not> is_rgb ?cs" using assms(1) JCS_CMYK rgb_cs by (auto simp: simps split: if_splits)
    with assms(1) JCS_CMYK null other show ?thesis by (auto simp: simps convert_other split: if_splits)
  next
    case JCS_YCCK
    have r: "\<not> is_rgb ?cs" using assms(1) JCS_YCCK rgb_cs by (auto simp: simps split: if_splits)
    show ?thesis
    proof (cases "?cs = JCS_CMYK")
      case True
      with assms(1) JCS_YCCK len other r show ?thesis by (auto simp: simps cmyk_row_ok split: if_splits)
    next
      case False
      with assms(1) JCS_YCCK null other r show ?thesis by (auto simp: simps convert_other split: if_splits)
    qed
  qed (use assms(1) null in \<open>auto simp: simps convert_other split: if_splits\<close>)
qed

definition put_row :: "'a list \<Rightarrow> nat \<Rightarrow> 'a list list \<Rightarrow> 'a list list" where
  "put_row r k plane = plane[k := r @ drop (length r) (plane ! k)]"

lemma store_planes_ok:
  "length ps = length out \<Longrightarrow> \<forall>plane \<in> set out. k < length plane \<and> (\<forall>p \<in> set ps. length p \<le> length (plane ! k)) \<Longrightarrow>
   store_planes ps k out = Some (map2 (\<lambda>p plane. put_row p k plane) ps out)"
proof (induction ps arbitrary: out)
  case (Cons p ps)
  then obtain plane out' where out: "out = plane # out'" by (cases out) auto
  then have "store_planes ps k out' = Some (map2 (\<lambda>p plane. put_row p k plane) ps out')"
    using Cons.IH [of out'] Cons.prems by simp
  then show ?case using Cons.prems out by (simp add: sample_at_def store_samples_def put_row_def)
qed simp

text \<open>Rows put into a plane one after the other.\<close>

definition put_rows :: "'a list list \<Rightarrow> nat \<Rightarrow> 'a list list \<Rightarrow> 'a list list" where
  "put_rows rs k plane = map (\<lambda>i. if k \<le> i \<and> i < k + length rs then rs ! (i - k) @ drop (length (rs ! (i - k))) (plane ! i) else plane ! i) [0..<length plane]"

lemma put_rows_Nil [simp]: "put_rows [] k plane = plane"
  by (rule nth_equalityI) (auto simp: put_rows_def)

lemma put_rows_Cons: "put_rows (r # rs) k plane = put_rows rs (Suc k) (put_row r k plane)"
  by (rule nth_equalityI) (auto simp: put_rows_def put_row_def nth_list_update not_less_eq_eq Suc_diff_le nth_Cons' le_Suc_eq)

lemma convert_rows_ok:
  assumes "\<And>inptr. inptr \<in> set ins \<Longrightarrow> f inptr = Some (map (g inptr) [0..<nc])"
    and "\<And>inptr ci. inptr \<in> set ins \<Longrightarrow> length (g inptr ci) = w"
    and "length out = nc" "\<forall>plane \<in> set out. k + length ins \<le> length plane \<and> (\<forall>row \<in> set plane. w \<le> length row)"
  shows "convert_rows f ins k out = Some (map2 (\<lambda>ci plane. put_rows (map (\<lambda>inptr. g inptr ci) ins) k plane) [0..<nc] out)"
  using assms
proof (induction ins arbitrary: k out)
  case Nil
  then show ?case by (auto intro!: nth_equalityI)
next
  case (Cons inptr ins)
  let ?out = "map2 (\<lambda>p plane. put_row p k plane) (map (g inptr) [0..<nc]) out"
  have st: "store_planes (map (g inptr) [0..<nc]) k out = Some ?out"
    using Cons.prems by (intro store_planes_ok) (auto simp: nth_mem)
  have fit: "\<forall>plane \<in> set ?out. Suc k + length ins \<le> length plane \<and> (\<forall>row \<in> set plane. w \<le> length row)"
  proof
    fix plane assume "plane \<in> set ?out"
    then obtain ci where ci: "ci < length out" "plane = put_row (g inptr ci) k (out ! ci)" by (auto simp: in_set_zip)
    define p where "p = out ! ci"
    have p: "p \<in> set out" "plane = put_row (g inptr ci) k p" using ci by (simp_all add: p_def)
    have "\<forall>row \<in> set p. w \<le> length row" "Suc k + length ins \<le> length p" using Cons.prems(4) p(1) by auto
    then show "Suc k + length ins \<le> length plane \<and> (\<forall>row \<in> set plane. w \<le> length row)"
      using Cons.prems(2) [of inptr ci] by (auto simp: p(2) put_row_def dest!: set_update_subset_insert [THEN subsetD])
  qed
  have "convert_rows f ins (Suc k) ?out = Some (map2 (\<lambda>ci plane. put_rows (map (\<lambda>inptr. g inptr ci) ins) (Suc k) plane) [0..<nc] ?out)"
    by (rule Cons.IH) (use Cons.prems fit in simp_all)
  moreover have "map2 (\<lambda>ci plane. put_rows (map (\<lambda>inptr. g inptr ci) ins) (Suc k) plane) [0..<nc] ?out =
      map2 (\<lambda>ci plane. put_rows (map (\<lambda>inptr. g inptr ci) (inptr # ins)) k plane) [0..<nc] out"
    by (rule nth_equalityI) (use Cons.prems(3) in \<open>simp_all add: put_rows_Cons\<close>)
  ultimately show ?case using Cons.prems(1) [of inptr] st by simp
qed

lemma color_convert_planes:
  assumes "jinit_color_converter False False cin = Inr cc"
    and "\<forall>inptr \<in> set input_buf. unat (image_width cin) * nat (input_components cin) \<le> length inptr"
    and "length output_buf = nat (num_components cin)"
    and "\<forall>plane \<in> set output_buf. output_row + length input_buf \<le> length plane \<and> (\<forall>row \<in> set plane. unat (image_width cin) \<le> length row)"
  shows "color_convert simd cin (start_pass_cconvert cc) input_buf output_buf output_row =
    Some (map2 (\<lambda>ci plane. put_rows (map (\<lambda>inptr. plane_row cin inptr ci) input_buf) output_row plane) [0..<nat (num_components cin)] output_buf)"
  unfolding color_convert_def
  by (rule convert_rows_ok [where w = "unat (image_width cin)"])
    (use assms convert_row_ok [OF assms(1)] in \<open>simp_all add: converted_row_def plane_row_def\<close>)

text \<open>
  C27. A compressor whose colour spaces \<open>jinit_color_converter\<close> accepts converts every row: no access leaves a
  row, sample \<open>col\<close> of component \<open>ci\<close> of each row is what the conversion of the pixel \<open>col\<close> of that row
  specifies, and nothing else in the planes changes.
\<close>

theorem color_convert_rows:
  assumes "jinit_color_converter False False cin = Inr cc"
    and "\<forall>inptr \<in> set input_buf. unat (image_width cin) * nat (input_components cin) \<le> length inptr"
    and "length output_buf = nat (num_components cin)"
    and "\<forall>plane \<in> set output_buf. output_row + length input_buf \<le> length plane \<and> (\<forall>row \<in> set plane. unat (image_width cin) \<le> length row)"
  shows "\<exists>out. color_convert simd cin (start_pass_cconvert cc) input_buf output_buf output_row = Some out \<and> length out = length output_buf \<and>
     (\<forall>ci < length out. length (out ! ci) = length (output_buf ! ci) \<and>
       (\<forall>i < length (out ! ci). out ! ci ! i =
          (if output_row \<le> i \<and> i < output_row + length input_buf
           then map (\<lambda>col. convert_pixel (in_color_space cin) (jpeg_color_space cin)
                              (pixel_at (nat (input_components cin)) (input_buf ! (i - output_row)) col) ! ci) [0..<unat (image_width cin)]
                @ drop (unat (image_width cin)) (output_buf ! ci ! i)
           else output_buf ! ci ! i)))"
  using color_convert_planes [OF assms] assms(3) by (auto simp: put_rows_def plane_row_def less_diff_conv2)

theorem color_convert_rows_witness:
  "\<exists>cc out. jinit_color_converter False False (zero_struct\<lparr>image_width := 2, input_components := 4, in_color_space := JCS_EXT_BGRX,
       num_components := 3, jpeg_color_space := JCS_YCbCr\<rparr>) = Inr cc \<and>
     color_convert (\<lambda>_ _ _. None) (zero_struct\<lparr>image_width := 2, input_components := 4, in_color_space := JCS_EXT_BGRX,
       num_components := 3, jpeg_color_space := JCS_YCbCr\<rparr>) (start_pass_cconvert cc)
       [[0, 0, 255, 9, 255, 0, 0, 9]] [[[0, 0]], [[0, 0]], [[0, 0]]] 0 = Some out \<and> length out = 3"
proof -
  let ?c = "zero_struct\<lparr>image_width := 2, input_components := 4, in_color_space := JCS_EXT_BGRX,
       num_components := 3, jpeg_color_space := JCS_YCbCr\<rparr>"
  have j: "jinit_color_converter False False ?c = Inr \<lparr>cc_start = rgb_ycc_start, cc_convert = rgb_ycc_convert, rgb_ycc_tab = None\<rparr>"
    by (simp add: jinit_color_converter_def Let_def input_components_ok_def is_rgb_def rgb_pixelsize_def)
  show ?thesis
    using color_convert_rows [OF j, of "[[0, 0, 255, 9, 255, 0, 0, 9]]" "[[[0, 0]], [[0, 0]], [[0, 0]]]" 0 "\<lambda>_ _ _. None"] j by auto
qed

end
