(* ===== verification/Jdcolor.thy ===== *)
theory Jdcolor imports Jdlimits Jccolor begin

text \<open>
  \<open>jdcolor.c\<close> with \<open>jdcolext.c\<close> and \<open>jdcol565.c\<close>: conversion of planes of the JPEG colour space to rows of pixels.
  \<open>None\<close> is an access outside a row, the range table, or to tables that were not built. RGB565 rows are
  written as on a little-endian machine; whether a row starts on an address divisible by four is a
  parameter. The SIMD routines the code may choose instead are a parameter.
\<close>

unbundle bit_operations_syntax

section \<open>YCbCr to RGB\<close>

record ycc_rgb_tables =
  Cr_r_tab :: "int list"
  Cb_b_tab :: "int list"
  Cr_g_tab :: "int list"
  Cb_g_tab :: "int list"

definition build_ycc_rgb_table :: ycc_rgb_tables where
  "build_ycc_rgb_table =
     (let xs = map (\<lambda>i. i - CENTERJSAMPLE) [0..MAXJSAMPLE]
      in \<lparr>Cr_r_tab = map (\<lambda>x. drop_bit SCALEBITS (FIX 140200 * x + ONE_HALF)) xs,
          Cb_b_tab = map (\<lambda>x. drop_bit SCALEBITS (FIX 177200 * x + ONE_HALF)) xs,
          Cr_g_tab = map (\<lambda>x. - FIX 71414 * x) xs,
          Cb_g_tab = map (\<lambda>x. - FIX 34414 * x + ONE_HALF) xs\<rparr>)"

definition build_rgb_y_table :: "int list" where
  "build_rgb_y_table = concat (map (\<lambda>f. map f [0..255]) [\<lambda>i. FIX 29900 * i, \<lambda>i. FIX 58700 * i, \<lambda>i. FIX 11400 * i + ONE_HALF])"

text \<open>\<open>sample_range_limit\<close> points \<open>MAXJSAMPLE + 1\<close> entries into the table.\<close>

definition limit_at :: "int \<Rightarrow> u8 option" where
  "limit_at x = (if - 256 \<le> x then sample_at prepare_range_limit_table (nat (256 + x)) else None)"

text \<open>The three values before range limiting.\<close>

definition ycc_red :: "ycc_rgb_tables \<Rightarrow> u8 \<Rightarrow> u8 \<Rightarrow> u8 \<Rightarrow> int" where
  "ycc_red t y cb cr = uint y + Cr_r_tab t ! unat cr"

definition ycc_green :: "ycc_rgb_tables \<Rightarrow> u8 \<Rightarrow> u8 \<Rightarrow> u8 \<Rightarrow> int" where
  "ycc_green t y cb cr = uint y + drop_bit SCALEBITS (Cb_g_tab t ! unat cb + Cr_g_tab t ! unat cr)"

definition ycc_blue :: "ycc_rgb_tables \<Rightarrow> u8 \<Rightarrow> u8 \<Rightarrow> u8 \<Rightarrow> int" where
  "ycc_blue t y cb cr = uint y + Cb_b_tab t ! unat cb"

section \<open>One row of pixels\<close>

text \<open>\<open>RGB_ALPHA\<close> of the instance of \<open>jdcolext.c\<close>, if defined; with it every byte of a pixel is written.\<close>

definition rgb_alpha :: "J_COLOR_SPACE \<Rightarrow> nat option" where
  "rgb_alpha cs = (case cs of
       JCS_EXT_RGBX \<Rightarrow> Some 3 | JCS_EXT_RGBA \<Rightarrow> Some 3 | JCS_EXT_BGRX \<Rightarrow> Some 3 | JCS_EXT_BGRA \<Rightarrow> Some 3
     | JCS_EXT_XBGR \<Rightarrow> Some 0 | JCS_EXT_ABGR \<Rightarrow> Some 0 | JCS_EXT_XRGB \<Rightarrow> Some 0 | JCS_EXT_ARGB \<Rightarrow> Some 0 | _ \<Rightarrow> None)"

definition rgb_bytes :: "J_COLOR_SPACE \<Rightarrow> u8 \<Rightarrow> u8 \<Rightarrow> u8 \<Rightarrow> u8 list" where
  "rgb_bytes cs r g b =
     (let (red, green, blue, px) = rgb_layout cs;
          outptr = (replicate px 0)[red := r, green := g, blue := b]
      in case rgb_alpha cs of None \<Rightarrow> outptr | Some a \<Rightarrow> outptr[a := 0xFF])"

definition column :: "u8 list list \<Rightarrow> nat \<Rightarrow> u8 list option" where
  "column inptrs col = those (map (\<lambda>inptr. sample_at inptr col) inptrs)"

definition row_bytes :: "nat \<Rightarrow> (u8 list \<Rightarrow> u8 list option) \<Rightarrow> u8 list list \<Rightarrow> u8 list option" where
  "row_bytes num_cols f inptrs = map_option concat (those (map (\<lambda>col. Option.bind (column inptrs col) f) [0..<num_cols]))"

definition ycc_rgb_pixel :: "ycc_rgb_tables \<Rightarrow> J_COLOR_SPACE \<Rightarrow> u8 list \<Rightarrow> u8 list option" where
  "ycc_rgb_pixel t cs p =
     do { r \<leftarrow> limit_at (ycc_red t (p ! 0) (p ! 1) (p ! 2));
          g \<leftarrow> limit_at (ycc_green t (p ! 0) (p ! 1) (p ! 2));
          b \<leftarrow> limit_at (ycc_blue t (p ! 0) (p ! 1) (p ! 2));
          Some (rgb_bytes cs r g b) }"

definition gray_rgb_pixel :: "J_COLOR_SPACE \<Rightarrow> u8 list \<Rightarrow> u8 list option" where
  "gray_rgb_pixel cs p = Some (rgb_bytes cs (p ! 0) (p ! 0) (p ! 0))"

definition rgb_rgb_pixel :: "J_COLOR_SPACE \<Rightarrow> u8 list \<Rightarrow> u8 list option" where
  "rgb_rgb_pixel cs p = Some (rgb_bytes cs (p ! 0) (p ! 1) (p ! 2))"

definition rgb_gray_pixel :: "int list \<Rightarrow> u8 list \<Rightarrow> u8 list option" where
  "rgb_gray_pixel ctab p = Some [y_of ctab (p ! 0) (p ! 1) (p ! 2)]"

definition ycck_cmyk_pixel :: "ycc_rgb_tables \<Rightarrow> u8 list \<Rightarrow> u8 list option" where
  "ycck_cmyk_pixel t p =
     do { c \<leftarrow> limit_at (MAXJSAMPLE - ycc_red t (p ! 0) (p ! 1) (p ! 2));
          m \<leftarrow> limit_at (MAXJSAMPLE - ycc_green t (p ! 0) (p ! 1) (p ! 2));
          y \<leftarrow> limit_at (MAXJSAMPLE - ycc_blue t (p ! 0) (p ! 1) (p ! 2));
          Some [c, m, y, p ! 3] }"

section \<open>RGB565\<close>

definition PACK_SHORT_565 :: "u32 \<Rightarrow> u32 \<Rightarrow> u32 \<Rightarrow> u32" where
  "PACK_SHORT_565 r g b = (push_bit 8 r AND 0xF800) OR (push_bit 3 g AND 0x7E0) OR drop_bit 3 b"

definition PACK_TWO_PIXELS :: "u32 \<Rightarrow> u32 \<Rightarrow> u32" where
  "PACK_TWO_PIXELS l r = push_bit 16 r OR l"

definition DITHER_MASK :: u32 where "DITHER_MASK = 3"

definition DITHER_ROTATE :: "u32 \<Rightarrow> u32" where
  "DITHER_ROTATE x = push_bit 24 x OR (drop_bit 8 x AND 0x00FFFFFF)"

definition dither_matrix :: "u32 list" where
  "dither_matrix = [0x0008020A, 0x0C040E06, 0x030B0109, 0x0F070D05]"

text \<open>The three dithers: the low byte, for green its half.\<close>

definition dither_565 :: "u32 \<Rightarrow> int \<times> int \<times> int" where
  "dither_565 d0 = (let x = uint (d0 AND 0xFF) in (x, drop_bit 1 x, x))"

definition write_short :: "u32 \<Rightarrow> u8 list" where
  "write_short rgb = [ucast rgb, ucast (drop_bit 8 rgb)]"

definition write_int :: "u32 \<Rightarrow> u8 list" where
  "write_int rgb = [ucast rgb, ucast (drop_bit 8 rgb), ucast (drop_bit 16 rgb), ucast (drop_bit 24 rgb)]"

definition ycc_565 :: "ycc_rgb_tables \<Rightarrow> u32 option \<Rightarrow> u8 list \<Rightarrow> u32 option" where
  "ycc_565 t d0 p =
     (let (dr, dg, db) = (case d0 of None \<Rightarrow> (0, 0, 0) | Some d0 \<Rightarrow> dither_565 d0)
      in do { r \<leftarrow> limit_at (ycc_red t (p ! 0) (p ! 1) (p ! 2) + dr);
              g \<leftarrow> limit_at (ycc_green t (p ! 0) (p ! 1) (p ! 2) + dg);
              b \<leftarrow> limit_at (ycc_blue t (p ! 0) (p ! 1) (p ! 2) + db);
              Some (PACK_SHORT_565 (ucast r) (ucast g) (ucast b)) })"

definition rgb_565 :: "u32 option \<Rightarrow> u8 list \<Rightarrow> u32 option" where
  "rgb_565 d0 p = (case d0 of
       None \<Rightarrow> Some (PACK_SHORT_565 (ucast (p ! 0)) (ucast (p ! 1)) (ucast (p ! 2)))
     | Some d0 \<Rightarrow> (let (dr, dg, db) = dither_565 d0
         in do { r \<leftarrow> limit_at (uint (p ! 0) + dr);
                 g \<leftarrow> limit_at (uint (p ! 1) + dg);
                 b \<leftarrow> limit_at (uint (p ! 2) + db);
                 Some (PACK_SHORT_565 (ucast r) (ucast g) (ucast b)) }))"

definition gray_565 :: "u32 option \<Rightarrow> u8 list \<Rightarrow> u32 option" where
  "gray_565 d0 p = (case d0 of
       None \<Rightarrow> Some (PACK_SHORT_565 (ucast (p ! 0)) (ucast (p ! 0)) (ucast (p ! 0)))
     | Some d0 \<Rightarrow> map_option (\<lambda>g. PACK_SHORT_565 (ucast g) (ucast g) (ucast g)) (limit_at (uint (p ! 0) + fst (dither_565 d0))))"

text \<open>
  One row: a single pixel first where the row is not aligned, then pairs, then a last single pixel.
  \<open>num_cols\<close> and the dither \<open>d0\<close> are variables outside the loop over the rows.
\<close>

fun pairs_565 :: "(u32 option \<Rightarrow> nat \<Rightarrow> u32 option) \<Rightarrow> nat \<Rightarrow> nat \<Rightarrow> u32 option \<Rightarrow> (u8 list \<times> u32 option) option" where
  "pairs_565 p 0 col d0 = Some ([], d0)"
| "pairs_565 p (Suc n) col d0 =
     do { rgb \<leftarrow> p d0 col;
          let d0 = map_option DITHER_ROTATE d0;
          rgb' \<leftarrow> p d0 (col + 1);
          let d0 = map_option DITHER_ROTATE d0;
          (rest, d0) \<leftarrow> pairs_565 p n (col + 2) d0;
          Some (write_int (PACK_TWO_PIXELS rgb rgb') @ rest, d0) }"

definition row_565 :: "(u32 option \<Rightarrow> nat \<Rightarrow> u32 option) \<Rightarrow> bool \<Rightarrow> u32 \<times> u32 option \<Rightarrow> (u8 list \<times> u32 \<times> u32 option) option" where
  "row_565 p unaligned = (\<lambda>(num_cols, d0).
     do { (first, col, num_cols) \<leftarrow>
            (if unaligned then map_option (\<lambda>rgb. (write_short rgb, 1, num_cols - 1)) (p d0 0) else Some ([], 0, num_cols));
          (pairs, d0) \<leftarrow> pairs_565 p (unat (drop_bit 1 num_cols)) col d0;
          last \<leftarrow> (if num_cols AND 1 \<noteq> 0 then map_option write_short (p d0 (col + 2 * unat (drop_bit 1 num_cols))) else Some []);
          Some (first @ pairs @ last, num_cols, d0) })"

section \<open>The module\<close>

datatype d_convert =
    d_ycc_rgb_convert | d_gray_rgb_convert | d_rgb_rgb_convert | d_rgb_gray_convert | d_grayscale_convert | d_null_convert
  | ycck_cmyk_convert | ycc_rgb565_convert | ycc_rgb565D_convert | rgb_rgb565_convert | rgb_rgb565D_convert
  | gray_rgb565_convert | gray_rgb565D_convert | jsimd_ycc_rgb_convert | jsimd_ycc_rgb565_convert

record color_deconverter =
  dc_convert :: d_convert
  ycc_rgb_tab :: "ycc_rgb_tables option"
  rgb_y_tab :: "int list option"

text \<open>The rows of the first \<open>nc\<close> planes.\<close>

definition plane_rows :: "nat \<Rightarrow> u8 list list list \<Rightarrow> nat \<Rightarrow> u8 list list option" where
  "plane_rows nc input_buf input_row = those (map (\<lambda>ci. Option.bind (sample_at input_buf ci) (\<lambda>plane. sample_at plane input_row)) [0..<nc])"

text \<open>The bytes of one output row, with the variables the RGB565 loops carry from row to row.\<close>

definition deconvert_row ::
  "(d_convert \<Rightarrow> jpeg_decompress_struct \<Rightarrow> u8 list list \<Rightarrow> u8 list option) \<Rightarrow> jpeg_decompress_struct \<Rightarrow> color_deconverter \<Rightarrow>
   u8 list list list \<Rightarrow> nat \<Rightarrow> bool \<Rightarrow> u32 \<times> u32 option \<Rightarrow> (u8 list \<times> u32 \<times> u32 option) option" where
  "deconvert_row simd d cc input_buf input_row unaligned v =
     (let num_cols = unat (output_width d);
          cs = out_color_space d;
          bytes = (\<lambda>nc f. map_option (\<lambda>bs. (bs, v)) (Option.bind (plane_rows nc input_buf input_row) f));
          packed = (\<lambda>nc p. Option.bind (plane_rows nc input_buf input_row)
             (\<lambda>inptrs. row_565 (\<lambda>d0 col. Option.bind (column inptrs col) (p d0)) unaligned v))
      in case dc_convert cc of
           d_ycc_rgb_convert \<Rightarrow> Option.bind (ycc_rgb_tab cc) (\<lambda>t. bytes 3 (row_bytes num_cols (ycc_rgb_pixel t cs)))
         | d_gray_rgb_convert \<Rightarrow> bytes 1 (row_bytes num_cols (gray_rgb_pixel cs))
         | d_rgb_rgb_convert \<Rightarrow> bytes 3 (row_bytes num_cols (rgb_rgb_pixel cs))
         | d_rgb_gray_convert \<Rightarrow> Option.bind (rgb_y_tab cc) (\<lambda>t. bytes 3 (row_bytes num_cols (rgb_gray_pixel t)))
         | d_grayscale_convert \<Rightarrow> bytes 1 (row_bytes num_cols Some)
         | d_null_convert \<Rightarrow> bytes (nat (d_num_components d)) (row_bytes num_cols Some)
         | ycck_cmyk_convert \<Rightarrow> Option.bind (ycc_rgb_tab cc) (\<lambda>t. bytes 4 (row_bytes num_cols (ycck_cmyk_pixel t)))
         | ycc_rgb565_convert \<Rightarrow> Option.bind (ycc_rgb_tab cc) (\<lambda>t. packed 3 (ycc_565 t))
         | ycc_rgb565D_convert \<Rightarrow> Option.bind (ycc_rgb_tab cc) (\<lambda>t. packed 3 (ycc_565 t))
         | rgb_rgb565_convert \<Rightarrow> packed 3 rgb_565
         | rgb_rgb565D_convert \<Rightarrow> packed 3 rgb_565
         | gray_rgb565_convert \<Rightarrow> packed 1 gray_565
         | gray_rgb565D_convert \<Rightarrow> packed 1 gray_565
         | jsimd_ycc_rgb_convert \<Rightarrow> bytes 3 (simd jsimd_ycc_rgb_convert d)
         | jsimd_ycc_rgb565_convert \<Rightarrow> bytes 3 (simd jsimd_ycc_rgb565_convert d))"

text \<open>The output rows come with the flag that they are not aligned.\<close>

fun deconvert_rows ::
  "(nat \<Rightarrow> bool \<Rightarrow> u32 \<times> u32 option \<Rightarrow> (u8 list \<times> u32 \<times> u32 option) option) \<Rightarrow> nat \<Rightarrow> (bool \<times> u8 list) list \<Rightarrow> u32 \<times> u32 option \<Rightarrow>
   u8 list list option" where
  "deconvert_rows f input_row [] v = Some []"
| "deconvert_rows f input_row ((unaligned, outptr) # outs) v =
     do { (bs, v) \<leftarrow> f input_row unaligned v;
          r \<leftarrow> store_samples bs outptr;
          rest \<leftarrow> deconvert_rows f (input_row + 1) outs v;
          Some (r # rest) }"

definition is_dithered :: "d_convert \<Rightarrow> bool" where
  "is_dithered cv \<longleftrightarrow> cv \<in> {ycc_rgb565D_convert, rgb_rgb565D_convert, gray_rgb565D_convert}"

definition color_deconvert ::
  "(d_convert \<Rightarrow> jpeg_decompress_struct \<Rightarrow> u8 list list \<Rightarrow> u8 list option) \<Rightarrow> jpeg_decompress_struct \<Rightarrow> color_deconverter \<Rightarrow>
   u8 list list list \<Rightarrow> nat \<Rightarrow> (bool \<times> u8 list) list \<Rightarrow> u8 list list option" where
  "color_deconvert simd d cc input_buf input_row output_buf =
     deconvert_rows (deconvert_row simd d cc input_buf) input_row output_buf
       (output_width d, if is_dithered (dc_convert cc) then Some (dither_matrix ! unat (output_scanline d AND DITHER_MASK)) else None)"

definition num_components_ok :: "jpeg_decompress_struct \<Rightarrow> bool" where
  "num_components_ok d =
     (let n = d_num_components d
      in case d_jpeg_color_space d of
           JCS_GRAYSCALE \<Rightarrow> n = 1 | JCS_RGB \<Rightarrow> n = 3 | JCS_YCbCr \<Rightarrow> n = 3 | JCS_CMYK \<Rightarrow> n = 4 | JCS_YCCK \<Rightarrow> n = 4 | _ \<Rightarrow> 1 \<le> n)"

definition init_color_deconverter :: "bool \<Rightarrow> bool \<Rightarrow> jpeg_decompress_struct \<Rightarrow> jerr + jpeg_decompress_struct \<times> color_deconverter" where
  "init_color_deconverter can_ycc_rgb can_ycc_rgb565 d =
     (let jcs = d_jpeg_color_space d; cs = out_color_space d;
          use = (\<lambda>d n cv t y. let d = d\<lparr>out_color_components := n\<rparr>
             in Inr (d\<lparr>output_components := (if quantize_colors d then 1 else out_color_components d)\<rparr>,
                     \<lparr>dc_convert = cv, ycc_rgb_tab = t, rgb_y_tab = y\<rparr>));
          ycc = Some build_ycc_rgb_table
      in if \<not> num_components_ok d then Inl JERR_BAD_J_COLORSPACE
         else if cs = JCS_GRAYSCALE then
           (if jcs = JCS_GRAYSCALE \<or> jcs = JCS_YCbCr then
              use (d\<lparr>d_comp_info := (case d_comp_info d of [] \<Rightarrow> [] | c # cs \<Rightarrow>
                     c # map (\<lambda>c. c\<lparr>component_needed := False\<rparr>) (take (nat (d_num_components d) - 1) cs) @ drop (nat (d_num_components d) - 1) cs)\<rparr>)
                1 d_grayscale_convert None None
            else if jcs = JCS_RGB then use d 1 d_rgb_gray_convert None (Some build_rgb_y_table)
            else Inl JERR_CONVERSION_NOTIMPL)
         else if is_rgb cs then
           (let n = rgb_pixelsize cs
            in if jcs = JCS_YCbCr then
                 (if can_ycc_rgb then use d n jsimd_ycc_rgb_convert None None else use d n d_ycc_rgb_convert ycc None)
               else if jcs = JCS_GRAYSCALE then use d n d_gray_rgb_convert None None
               else if jcs = JCS_RGB then
                 (if rgb_red cs = 0 \<and> rgb_green cs = 1 \<and> rgb_blue cs = 2 \<and> rgb_pixelsize cs = 3 then use d n d_null_convert None None
                  else use d n d_rgb_rgb_convert None None)
               else Inl JERR_CONVERSION_NOTIMPL)
         else if cs = JCS_RGB565 then
           (if dither_mode d = JDITHER_NONE then
              (if jcs = JCS_YCbCr then
                 (if can_ycc_rgb565 then use d 3 jsimd_ycc_rgb565_convert None None else use d 3 ycc_rgb565_convert ycc None)
               else if jcs = JCS_GRAYSCALE then use d 3 gray_rgb565_convert None None
               else if jcs = JCS_RGB then use d 3 rgb_rgb565_convert None None
               else Inl JERR_CONVERSION_NOTIMPL)
            else
              (if jcs = JCS_YCbCr then use d 3 ycc_rgb565D_convert ycc None
               else if jcs = JCS_GRAYSCALE then use d 3 gray_rgb565D_convert None None
               else if jcs = JCS_RGB then use d 3 rgb_rgb565D_convert None None
               else Inl JERR_CONVERSION_NOTIMPL))
         else if cs = JCS_CMYK then
           (if jcs = JCS_YCCK then use d 4 ycck_cmyk_convert ycc None
            else if jcs = JCS_CMYK then use d 4 d_null_convert None None
            else Inl JERR_CONVERSION_NOTIMPL)
         else if cs = jcs then use d (d_num_components d) d_null_convert None None
         else Inl JERR_CONVERSION_NOTIMPL)"

section \<open>What a pixel becomes\<close>

definition red_of :: "u8 \<Rightarrow> u8 \<Rightarrow> u8 \<Rightarrow> int" where
  "red_of y cb cr = uint y + (91881 * (uint cr - 128) + 32768) div 65536"

definition green_of :: "u8 \<Rightarrow> u8 \<Rightarrow> u8 \<Rightarrow> int" where
  "green_of y cb cr = uint y + (32768 - 22554 * (uint cb - 128) - 46802 * (uint cr - 128)) div 65536"

definition blue_of :: "u8 \<Rightarrow> u8 \<Rightarrow> u8 \<Rightarrow> int" where
  "blue_of y cb cr = uint y + (116130 * (uint cb - 128) + 32768) div 65536"

lemma ycc_values:
  "ycc_red build_ycc_rgb_table y cb cr = red_of y cb cr"
  "ycc_green build_ycc_rgb_table y cb cr = green_of y cb cr"
  "ycc_blue build_ycc_rgb_table y cb cr = blue_of y cb cr"
proof -
  have l: "unat v < length [0..MAXJSAMPLE]" "[0..MAXJSAMPLE] ! unat v = uint v" for v :: u8
    using u8_less [of v] nth_upto [of 0 "unat v" 255] by (simp_all add: MAXJSAMPLE_def)
  have f: "FIX 140200 = 91881" "FIX 177200 = 116130" "FIX 71414 = 46802" "FIX 34414 = 22554"
    by (simp_all add: FIX_def SCALEBITS_def)
  show "ycc_red build_ycc_rgb_table y cb cr = red_of y cb cr"
    "ycc_green build_ycc_rgb_table y cb cr = green_of y cb cr"
    "ycc_blue build_ycc_rgb_table y cb cr = blue_of y cb cr"
    by (simp_all add: ycc_red_def ycc_green_def ycc_blue_def red_of_def green_of_def blue_of_def build_ycc_rgb_table_def Let_def
        l f scales drop_bit_eq_div CENTERJSAMPLE_def del: length_upto)
qed

lemma sample_range: "0 \<le> uint (v :: u8)" "uint (v :: u8) \<le> 255"
  using u8_less(2) [of v] by simp_all

text \<open>The values before limiting stay well inside the table.\<close>

lemma offset_range:
  "x < 128 \<Longrightarrow> -129 < x \<Longrightarrow> -180 \<le> (91881 * x + 32768) div 65536 \<and> (91881 * x + 32768) div 65536 \<le> 179"
  "x < 128 \<Longrightarrow> -129 < x \<Longrightarrow> -227 \<le> (116130 * x + 32768) div 65536 \<and> (116130 * x + 32768) div 65536 \<le> 226"
  "x < 128 \<Longrightarrow> -129 < x \<Longrightarrow> z < 128 \<Longrightarrow> -129 < z \<Longrightarrow>
     -136 \<le> (32768 - 22554 * x - 46802 * z) div 65536 \<and> (32768 - 22554 * x - 46802 * z) div 65536 \<le> (136 :: int)"
proof -
  have d: "a * 65536 \<le> y \<Longrightarrow> y < b * 65536 \<Longrightarrow> a \<le> y div 65536 \<and> y div 65536 \<le> b" for a b y :: int
    using zdiv_mono1 [of "a * 65536" y 65536] zdiv_mono1 [of y "b * 65536" 65536] by simp
  show "x < 128 \<Longrightarrow> -129 < x \<Longrightarrow> -180 \<le> (91881 * x + 32768) div 65536 \<and> (91881 * x + 32768) div 65536 \<le> 179" by (rule d) linarith+
  show "x < 128 \<Longrightarrow> -129 < x \<Longrightarrow> -227 \<le> (116130 * x + 32768) div 65536 \<and> (116130 * x + 32768) div 65536 \<le> 226" by (rule d) linarith+
  show "x < 128 \<Longrightarrow> -129 < x \<Longrightarrow> z < 128 \<Longrightarrow> -129 < z \<Longrightarrow>
     -136 \<le> (32768 - 22554 * x - 46802 * z) div 65536 \<and> (32768 - 22554 * x - 46802 * z) div 65536 \<le> (136 :: int)" by (rule d) linarith+
qed

lemma ycc_value_range:
  "- 227 \<le> red_of y cb cr" "red_of y cb cr \<le> 481" "- 227 \<le> green_of y cb cr" "green_of y cb cr \<le> 481"
  "- 227 \<le> blue_of y cb cr" "blue_of y cb cr \<le> 481"
proof -
  have c: "uint v - 128 < 128" "- 129 < uint v - 128" for v :: u8 using sample_range [of v] by linarith+
  show "- 227 \<le> red_of y cb cr" "red_of y cb cr \<le> 481" "- 227 \<le> green_of y cb cr" "green_of y cb cr \<le> 481"
    "- 227 \<le> blue_of y cb cr" "blue_of y cb cr \<le> 481"
    using offset_range(1) [OF c [of cr]] offset_range(2) [OF c [of cb]] offset_range(3) [OF c [of cb] c [of cr]] sample_range [of y]
    unfolding red_of_def green_of_def blue_of_def by linarith+
qed

lemma limit_at_ok: "-256 \<le> x \<Longrightarrow> x \<le> 639 \<Longrightarrow> limit_at x = Some (clamp_sample x)"
  using simple_limit [of x] by (simp add: limit_at_def sample_at_def nat_less_iff) (simp add: table_parts)

definition clamped_rgb :: "u8 list \<Rightarrow> u8 list" where
  "clamped_rgb p = map clamp_sample [red_of (p ! 0) (p ! 1) (p ! 2), green_of (p ! 0) (p ! 1) (p ! 2), blue_of (p ! 0) (p ! 1) (p ! 2)]"

definition deconvert_pixel :: "J_COLOR_SPACE \<Rightarrow> J_COLOR_SPACE \<Rightarrow> u8 list \<Rightarrow> u8 list" where
  "deconvert_pixel jcs cs p =
     (if is_rgb cs then
        (let c = (case jcs of JCS_YCbCr \<Rightarrow> clamped_rgb p | JCS_GRAYSCALE \<Rightarrow> replicate 3 (p ! 0) | _ \<Rightarrow> p)
         in rgb_bytes cs (c ! 0) (c ! 1) (c ! 2))
      else if cs = JCS_GRAYSCALE then (if jcs = JCS_RGB then [word_of_int (luma (p ! 0) (p ! 1) (p ! 2))] else [p ! 0])
      else if cs = JCS_CMYK \<and> jcs = JCS_YCCK then
        [clamp_sample (255 - red_of (p ! 0) (p ! 1) (p ! 2)), clamp_sample (255 - green_of (p ! 0) (p ! 1) (p ! 2)),
         clamp_sample (255 - blue_of (p ! 0) (p ! 1) (p ! 2)), p ! 3]
      else p)"

lemma pixel_methods:
  "ycc_rgb_pixel build_ycc_rgb_table cs p = Some (rgb_bytes cs (clamped_rgb p ! 0) (clamped_rgb p ! 1) (clamped_rgb p ! 2))"
  "ycck_cmyk_pixel build_ycc_rgb_table p = Some [clamp_sample (255 - red_of (p ! 0) (p ! 1) (p ! 2)), clamp_sample (255 - green_of (p ! 0) (p ! 1) (p ! 2)),
         clamp_sample (255 - blue_of (p ! 0) (p ! 1) (p ! 2)), p ! 3]"
proof -
  have l: "limit_at x = Some (clamp_sample x)" "limit_at (255 - x) = Some (clamp_sample (255 - x))" if "-227 \<le> x" "x \<le> 481" for x
    using that by (simp_all add: limit_at_ok)
  note r = ycc_value_range [of "p ! 0" "p ! 1" "p ! 2"]
  show "ycc_rgb_pixel build_ycc_rgb_table cs p = Some (rgb_bytes cs (clamped_rgb p ! 0) (clamped_rgb p ! 1) (clamped_rgb p ! 2))"
    by (simp add: ycc_rgb_pixel_def ycc_values clamped_rgb_def l r [unfolded One_nat_def])
  show "ycck_cmyk_pixel build_ycc_rgb_table p = Some [clamp_sample (255 - red_of (p ! 0) (p ! 1) (p ! 2)), clamp_sample (255 - green_of (p ! 0) (p ! 1) (p ! 2)),
         clamp_sample (255 - blue_of (p ! 0) (p ! 1) (p ! 2)), p ! 3]"
    by (simp add: ycck_cmyk_pixel_def ycc_values MAXJSAMPLE_def l r [unfolded One_nat_def])
qed

section \<open>Rows of pixels\<close>

definition samples_at :: "nat \<Rightarrow> u8 list list list \<Rightarrow> nat \<Rightarrow> nat \<Rightarrow> u8 list" where
  "samples_at nc input_buf row col = map (\<lambda>ci. input_buf ! ci ! row ! col) [0..<nc]"

lemma samples_at_nth [simp]: "ci < nc \<Longrightarrow> samples_at nc input_buf row col ! ci = input_buf ! ci ! row ! col" "length (samples_at nc input_buf row col) = nc"
  by (simp_all add: samples_at_def)

lemma samples_one [simp]: "samples_at (Suc 0) input_buf row col = [input_buf ! 0 ! row ! col]"
  by (simp add: samples_at_def)

text \<open>The planes hold \<open>nc\<close> components with the rows up to \<open>rows\<close> and \<open>w\<close> columns.\<close>

definition planes_hold :: "nat \<Rightarrow> nat \<Rightarrow> nat \<Rightarrow> u8 list list list \<Rightarrow> bool" where
  "planes_hold nc rows w input_buf \<longleftrightarrow> nc \<le> length input_buf \<and>
     (\<forall>ci < nc. rows \<le> length (input_buf ! ci) \<and> (\<forall>r < rows. w \<le> length (input_buf ! ci ! r)))"

lemma planes_hold_fewer: "planes_hold nc rows w input_buf \<Longrightarrow> k \<le> nc \<Longrightarrow> planes_hold k rows w input_buf"
  by (auto simp: planes_hold_def)

lemma plane_rows_ok:
  "planes_hold nc rows w input_buf \<Longrightarrow> row < rows \<Longrightarrow> plane_rows nc input_buf row = Some (map (\<lambda>ci. input_buf ! ci ! row) [0..<nc])"
  unfolding plane_rows_def by (rule those_map) (auto simp: planes_hold_def sample_at_def)

lemma column_ok:
  assumes "planes_hold nc rows w input_buf" "row < rows" "col < w"
  shows "column (map (\<lambda>ci. input_buf ! ci ! row) [0..<nc]) col = Some (samples_at nc input_buf row col)"
proof -
  have "column (map (\<lambda>ci. input_buf ! ci ! row) [0..<nc]) col = Some (map (\<lambda>inptr. inptr ! col) (map (\<lambda>ci. input_buf ! ci ! row) [0..<nc]))"
    unfolding column_def using assms by (intro those_map) (force simp: planes_hold_def sample_at_def)
  then show ?thesis by (simp add: samples_at_def comp_def)
qed

lemma row_bytes_ok:
  assumes "planes_hold nc rows w input_buf" "row < rows" "\<And>p. length p = nc \<Longrightarrow> f p = Some (g p)"
  shows "row_bytes w f (map (\<lambda>ci. input_buf ! ci ! row) [0..<nc]) = Some (concat (map (\<lambda>col. g (samples_at nc input_buf row col)) [0..<w]))"
proof -
  have "those (map (\<lambda>col. Option.bind (column (map (\<lambda>ci. input_buf ! ci ! row) [0..<nc]) col) f) [0..<w]) =
      Some (map (\<lambda>col. g (samples_at nc input_buf row col)) [0..<w])"
    using assms by (intro those_map) (simp add: column_ok)
  then show ?thesis by (simp add: row_bytes_def)
qed

text \<open>One row of each method that writes bytes.\<close>

definition pixel_row :: "jpeg_decompress_struct \<Rightarrow> u8 list list list \<Rightarrow> nat \<Rightarrow> u8 list" where
  "pixel_row d input_buf row =
     concat (map (\<lambda>col. deconvert_pixel (d_jpeg_color_space d) (out_color_space d) (samples_at (nat (d_num_components d)) input_buf row col))
       [0..<unat (output_width d)])"

lemma bytes_ok:
  assumes "planes_hold nc rows w input_buf" "row < rows" "k \<le> nc" "\<And>p. length p = k \<Longrightarrow> f p = Some (g p)"
    and "\<And>col. g (samples_at k input_buf row col) = h (samples_at nc input_buf row col)"
  shows "Option.bind (plane_rows k input_buf row) (row_bytes w f) = Some (concat (map (\<lambda>col. h (samples_at nc input_buf row col)) [0..<w]))"
proof -
  note p = planes_hold_fewer [OF assms(1,3)]
  show ?thesis by (simp add: plane_rows_ok [OF p assms(2)] row_bytes_ok [OF p assms(2), of f g] assms(4,5))
qed

lemma build_rgb_y_ok: "y_of build_rgb_y_table r g b = word_of_int (luma r g b)"
proof -
  define fs where "fs = [\<lambda>i. FIX 29900 * i, \<lambda>i. FIX 58700 * i, \<lambda>i. FIX 11400 * i + ONE_HALF]"
  have e: "build_rgb_y_table ! (unat v + 256 * k) = (fs ! k) (uint v)" if "k < 3" for k and v :: u8
    using table_entry_at [OF u8_less(1) [of v], of k fs] that by (simp add: build_rgb_y_table_def fs_def)
  show ?thesis using e [of 0 r] e [of 1 g] e [of 2 b]
    by (simp add: y_of_def tab_sum_def luma_def offsets fs_def fix_values scales drop_bit_eq_div algebra_simps)
qed

lemma deconvert_row_ok:
  assumes init: "init_color_deconverter False False d = Inr (d', cc)" and "out_color_space d \<noteq> JCS_RGB565"
    and "planes_hold (nat (d_num_components d)) rows (unat (output_width d)) input_buf" "row < rows"
  shows "deconvert_row simd d' cc input_buf row u v = Some (pixel_row d input_buf row, v)"
proof -
  let ?nc = "nat (d_num_components d)" and ?w = "unat (output_width d)" and ?cs = "out_color_space d" and ?jcs = "d_jpeg_color_space d"
  note b = bytes_ok [OF assms(3,4), where h = "deconvert_pixel ?jcs ?cs"]
  have ok: "num_components_ok d" using init by (simp add: init_color_deconverter_def Let_def split: if_splits)
  have d': "output_width d' = output_width d" "out_color_space d' = ?cs" "d_num_components d' = d_num_components d"
    using init by (auto simp: init_color_deconverter_def Let_def split: if_splits)
  note row = deconvert_row_def pixel_row_def d' Let_def
  consider
      (gray) "?cs = JCS_GRAYSCALE" "?jcs \<noteq> JCS_RGB" "cc = \<lparr>dc_convert = d_grayscale_convert, ycc_rgb_tab = None, rgb_y_tab = None\<rparr>" "1 \<le> ?nc"
    | (rgb_gray) "?cs = JCS_GRAYSCALE" "?jcs = JCS_RGB" "cc = \<lparr>dc_convert = d_rgb_gray_convert, ycc_rgb_tab = None, rgb_y_tab = Some build_rgb_y_table\<rparr>" "?nc = 3"
    | (ycc_rgb) "is_rgb ?cs" "?jcs = JCS_YCbCr" "cc = \<lparr>dc_convert = d_ycc_rgb_convert, ycc_rgb_tab = Some build_ycc_rgb_table, rgb_y_tab = None\<rparr>" "?nc = 3"
    | (gray_rgb) "is_rgb ?cs" "?jcs = JCS_GRAYSCALE" "cc = \<lparr>dc_convert = d_gray_rgb_convert, ycc_rgb_tab = None, rgb_y_tab = None\<rparr>" "?nc = 1"
    | (rgb_null) "is_rgb ?cs" "?jcs = JCS_RGB" "cc = \<lparr>dc_convert = d_null_convert, ycc_rgb_tab = None, rgb_y_tab = None\<rparr>" "?nc = 3" "rgb_layout ?cs = (0, 1, 2, 3)"
        "rgb_pixelsize ?cs = 3"
    | (rgb_rgb) "is_rgb ?cs" "?jcs = JCS_RGB" "cc = \<lparr>dc_convert = d_rgb_rgb_convert, ycc_rgb_tab = None, rgb_y_tab = None\<rparr>" "?nc = 3"
    | (cmyk) "?cs = JCS_CMYK" "?jcs = JCS_YCCK" "cc = \<lparr>dc_convert = ycck_cmyk_convert, ycc_rgb_tab = Some build_ycc_rgb_table, rgb_y_tab = None\<rparr>" "?nc = 4"
    | (null) "\<not> is_rgb ?cs" "?cs \<noteq> JCS_GRAYSCALE" "?jcs = ?cs" "cc = \<lparr>dc_convert = d_null_convert, ycc_rgb_tab = None, rgb_y_tab = None\<rparr>"
    using init assms(2) ok plain_layout by (auto simp: init_color_deconverter_def num_components_ok_def Let_def split: if_splits)
  then show ?thesis
  proof cases
    case gray
    then have "Option.bind (plane_rows 1 input_buf row) (row_bytes ?w Some) = Some (pixel_row d input_buf row)"
      unfolding pixel_row_def by (intro b [where g = "\<lambda>p. p"]) (simp_all add: deconvert_pixel_def clamped_rgb_def is_rgb_def samples_one)
    with gray show ?thesis by (simp add: row)
  next
    case rgb_gray
    then have "Option.bind (plane_rows 3 input_buf row) (row_bytes ?w (rgb_gray_pixel build_rgb_y_table)) = Some (pixel_row d input_buf row)"
      unfolding pixel_row_def by (intro b [where g = "\<lambda>p. [word_of_int (luma (p ! 0) (p ! 1) (p ! 2))]"]) (simp_all add: deconvert_pixel_def clamped_rgb_def is_rgb_def rgb_gray_pixel_def build_rgb_y_ok)
    with rgb_gray show ?thesis by (simp add: row)
  next
    case ycc_rgb
    then have "Option.bind (plane_rows 3 input_buf row) (row_bytes ?w (ycc_rgb_pixel build_ycc_rgb_table ?cs)) = Some (pixel_row d input_buf row)"
      unfolding pixel_row_def by (intro b [where g = "\<lambda>p. rgb_bytes ?cs (clamped_rgb p ! 0) (clamped_rgb p ! 1) (clamped_rgb p ! 2)"]) (simp_all add: deconvert_pixel_def clamped_rgb_def pixel_methods)
    with ycc_rgb show ?thesis by (simp add: row)
  next
    case gray_rgb
    then have "Option.bind (plane_rows 1 input_buf row) (row_bytes ?w (gray_rgb_pixel ?cs)) = Some (pixel_row d input_buf row)"
      unfolding pixel_row_def by (intro b [where g = "\<lambda>p. rgb_bytes ?cs (p ! 0) (p ! 0) (p ! 0)"]) (simp_all add: deconvert_pixel_def clamped_rgb_def gray_rgb_pixel_def)
    with gray_rgb show ?thesis by (simp add: row)
  next
    case rgb_null
    then have "rgb_alpha ?cs = None" by (cases ?cs) (simp_all add: rgb_alpha_def rgb_pixelsize_def is_rgb_def)
    then have "rgb_bytes ?cs (p ! 0) (p ! 1) (p ! 2) = p" if "length p = 3" for p
      using that rgb_null(5) by (auto simp: rgb_bytes_def numeral_eq_Suc length_Suc_conv)
    from this [of "samples_at 3 input_buf row col" for col]
    have "rgb_bytes ?cs (input_buf ! 0 ! row ! col) (input_buf ! 1 ! row ! col) (input_buf ! 2 ! row ! col) = samples_at 3 input_buf row col" for col
      by simp
    then have "Option.bind (plane_rows 3 input_buf row) (row_bytes ?w Some) = Some (pixel_row d input_buf row)"
      unfolding pixel_row_def using rgb_null by (intro b [where g = "\<lambda>p. p"]) (simp_all add: deconvert_pixel_def)
    with rgb_null show ?thesis by (simp add: row)
  next
    case rgb_rgb
    then have "Option.bind (plane_rows 3 input_buf row) (row_bytes ?w (rgb_rgb_pixel ?cs)) = Some (pixel_row d input_buf row)"
      unfolding pixel_row_def by (intro b [where g = "\<lambda>p. rgb_bytes ?cs (p ! 0) (p ! 1) (p ! 2)"]) (simp_all add: deconvert_pixel_def clamped_rgb_def rgb_rgb_pixel_def)
    with rgb_rgb show ?thesis by (simp add: row)
  next
    case cmyk
    then have "Option.bind (plane_rows 4 input_buf row) (row_bytes ?w (ycck_cmyk_pixel build_ycc_rgb_table)) = Some (pixel_row d input_buf row)"
      unfolding pixel_row_def by (intro b [where g = "\<lambda>p. [clamp_sample (255 - red_of (p ! 0) (p ! 1) (p ! 2)), clamp_sample (255 - green_of (p ! 0) (p ! 1) (p ! 2)), clamp_sample (255 - blue_of (p ! 0) (p ! 1) (p ! 2)), p ! 3]"]) (simp_all add: deconvert_pixel_def clamped_rgb_def is_rgb_def pixel_methods)
    with cmyk show ?thesis by (simp add: row)
  next
    case null
    then have "Option.bind (plane_rows ?nc input_buf row) (row_bytes ?w Some) = Some (pixel_row d input_buf row)"
      unfolding pixel_row_def by (intro b [where g = "\<lambda>p. p"]) (auto simp: deconvert_pixel_def clamped_rgb_def )
    with null show ?thesis by (simp add: row)
  qed
qed

lemma rgb_bytes_length: "is_rgb cs \<Longrightarrow> length (rgb_bytes cs r g b) = nat (rgb_pixelsize cs)"
  by (cases cs) (simp_all add: rgb_bytes_def rgb_layout_def rgb_alpha_def rgb_pixelsize_def is_rgb_def)

lemma deconvert_pixel_length:
  assumes "init_color_deconverter False False d = Inr (d', cc)" "out_color_space d \<noteq> JCS_RGB565" "length p = nat (d_num_components d)"
  shows "length (deconvert_pixel (d_jpeg_color_space d) (out_color_space d) p) = nat (out_color_components d')"
proof -
  have ok: "num_components_ok d" using assms(1) by (simp add: init_color_deconverter_def Let_def split: if_splits)
  show ?thesis
  proof (cases "is_rgb (out_color_space d)")
    case True
    then show ?thesis using assms rgb_not_other [OF True]
      by (auto simp: init_color_deconverter_def deconvert_pixel_def Let_def rgb_bytes_length split: if_splits)
  next
    case False
    then show ?thesis using assms ok
      by (auto simp: init_color_deconverter_def deconvert_pixel_def num_components_ok_def Let_def split: if_splits)
  qed
qed

lemma length_concat_const: "(\<And>x. x \<in> set xs \<Longrightarrow> length (f x) = n) \<Longrightarrow> length (concat (map f xs)) = length xs * n"
  by (induction xs) simp_all

lemma pixel_row_length:
  assumes "init_color_deconverter False False d = Inr (d', cc)" "out_color_space d \<noteq> JCS_RGB565"
  shows "length (pixel_row d input_buf row) = unat (output_width d) * nat (out_color_components d')"
  unfolding pixel_row_def by (subst length_concat_const [OF deconvert_pixel_length [OF assms]]) simp_all

lemma deconvert_rows_ok:
  assumes "\<And>i u. i < length outs \<Longrightarrow> f (row + i) u v = Some (bs (row + i), v)" "\<And>i. i < length outs \<Longrightarrow> length (bs (row + i)) \<le> length (snd (outs ! i))"
  shows "deconvert_rows f row outs v = Some (map (\<lambda>i. bs (row + i) @ drop (length (bs (row + i))) (snd (outs ! i))) [0..<length outs])"
  using assms
proof (induction outs arbitrary: row)
  case (Cons out outs)
  obtain u outptr where o: "out = (u, outptr)" by (cases out)
  have "deconvert_rows f (Suc row) outs v = Some (map (\<lambda>i. bs (Suc row + i) @ drop (length (bs (Suc row + i))) (snd (outs ! i))) [0..<length outs])"
    using Cons.prems(1) [of "Suc i" for i] Cons.prems(2) [of "Suc i" for i] by (intro Cons.IH) simp_all
  moreover have "f row u v = Some (bs row, v)" "length (bs row) \<le> length outptr"
    using Cons.prems(1) [of 0 u] Cons.prems(2) [of 0] o by simp_all
  ultimately show ?case by (simp add: o store_samples_def upt_rec [of 0 "Suc n" for n] map_Suc_upt [symmetric] comp_def del: upt_Suc)
qed simp

lemma color_deconvert_eq:
  assumes "init_color_deconverter False False d = Inr (d', cc)" and "out_color_space d \<noteq> JCS_RGB565"
    and "planes_hold (nat (d_num_components d)) (input_row + length output_buf) (unat (output_width d)) input_buf"
    and "\<forall>(u, row) \<in> set output_buf. unat (output_width d) * nat (out_color_components d') \<le> length row"
  shows "color_deconvert simd d' cc input_buf input_row output_buf =
     Some (map (\<lambda>i. pixel_row d input_buf (input_row + i) @ drop (unat (output_width d) * nat (out_color_components d')) (snd (output_buf ! i)))
       [0..<length output_buf])"
proof -
  have "unat (output_width d) * nat (out_color_components d') \<le> length (snd (output_buf ! i))" if "i < length output_buf" for i
    using assms(4) nth_mem [OF that] by (simp add: case_prod_unfold)
  then have "deconvert_rows (deconvert_row simd d' cc input_buf) input_row output_buf v =
      Some (map (\<lambda>i. pixel_row d input_buf (input_row + i) @ drop (length (pixel_row d input_buf (input_row + i))) (snd (output_buf ! i)))
        [0..<length output_buf])" for v
    using pixel_row_length [OF assms(1,2)] by (intro deconvert_rows_ok deconvert_row_ok [OF assms(1,2,3)]) simp_all
  then show ?thesis by (simp add: color_deconvert_def pixel_row_length [OF assms(1,2)])
qed

text \<open>
  C29. A decompressor whose colour spaces \<open>init_color_deconverter\<close> accepts, for any output colour space but
  JCS_RGB565, converts any samples to pixels of the announced number of components (RGB565 output announces three
  components and writes two bytes per pixel; \<open>Rgb565\<close> is about it): no access leaves a row, the conversion tables or the range table, each pixel
  is what the conversion specifies, with red, green and blue limited to 0..255, and the rest of each row stays.
\<close>

theorem color_deconvert_rows:
  assumes "init_color_deconverter False False d = Inr (d', cc)" and "out_color_space d \<noteq> JCS_RGB565"
    and "planes_hold (nat (d_num_components d)) (input_row + length output_buf) (unat (output_width d)) input_buf"
    and "\<forall>(u, row) \<in> set output_buf. unat (output_width d) * nat (out_color_components d') \<le> length row"
  shows "color_deconvert simd d' cc input_buf input_row output_buf =
     Some (map (\<lambda>i. concat (map (\<lambda>col. deconvert_pixel (d_jpeg_color_space d) (out_color_space d)
                              (samples_at (nat (d_num_components d)) input_buf (input_row + i) col)) [0..<unat (output_width d)])
                    @ drop (unat (output_width d) * nat (out_color_components d')) (snd (output_buf ! i))) [0..<length output_buf]) \<and>
     (\<forall>p. length p = nat (d_num_components d) \<longrightarrow>
        length (deconvert_pixel (d_jpeg_color_space d) (out_color_space d) p) = nat (out_color_components d'))"
  using color_deconvert_eq [OF assms] deconvert_pixel_length [OF assms(1,2)] by (simp add: pixel_row_def)

theorem color_deconvert_rows_witness:
  "\<exists>d' cc out. init_color_deconverter False False (zero_decompress\<lparr>d_num_components := 3, d_jpeg_color_space := JCS_YCbCr,
       out_color_space := JCS_EXT_BGRX, output_width := 2\<rparr>) = Inr (d', cc) \<and>
     color_deconvert (\<lambda>_ _ _. None) d' cc [[[255, 1]], [[255, 7]], [[255, 9]]] 0 [(False, replicate 8 0)] = Some out \<and>
     length out = 1 \<and> length (deconvert_pixel JCS_YCbCr JCS_EXT_BGRX [1, 2, 3]) = 4"
proof -
  let ?d = "zero_decompress\<lparr>d_num_components := 3, d_jpeg_color_space := JCS_YCbCr, out_color_space := JCS_EXT_BGRX, output_width := 2\<rparr>"
  let ?cc = "\<lparr>dc_convert = d_ycc_rgb_convert, ycc_rgb_tab = Some build_ycc_rgb_table, rgb_y_tab = None\<rparr>"
  let ?d' = "?d\<lparr>out_color_components := 4, output_components := 4\<rparr>"
  have j: "init_color_deconverter False False ?d = Inr (?d', ?cc)"
    by (simp add: init_color_deconverter_def Let_def num_components_ok_def is_rgb_def rgb_pixelsize_def zero_decompress_def)
  have p: "planes_hold (nat (d_num_components ?d)) (0 + length [(False, replicate 8 (0 :: u8))]) (unat (output_width ?d)) [[[255, 1]], [[255, 7]], [[255, 9]]]"
    by (simp add: planes_hold_def less_Suc_eq numeral_3_eq_3)
  show ?thesis
    using color_deconvert_rows [OF j _ p, of "\<lambda>_ _ _. None"] j by auto
qed

end
