(* ===== verification/Colors.thy ===== *)
theory Colors imports Jdcolor begin

text \<open>
  RGB images through \<open>jccolor.c\<close> and back through \<open>jdcolor.c\<close>, and the RGB565 output of \<open>jdcol565.c\<close>.
\<close>

unbundle bit_operations_syntax

section \<open>RGB to YCbCr and back\<close>

lemma div_65536: "65536 * (x div 65536) \<le> (x :: int) \<and> x < 65536 * (x div 65536) + 65536"
proof -
  have "0 \<le> x mod 65536" "x mod 65536 < 65536" by simp_all
  moreover have "65536 * (x div 65536) + x mod 65536 = x" by simp
  ultimately show ?thesis by linarith
qed

lemma near_rgb:
  fixes r g b y c e v w z :: int
  assumes "0 \<le> r" "r \<le> 255" "0 \<le> g" "g \<le> 255" "0 \<le> b" "b \<le> 255"
    and y: "y = (19595 * r + 38470 * g + 7471 * b + 32768) div 65536"
    and e: "e = (32768 * b - 11059 * r - 21709 * g + 8421375) div 65536 - 128"
    and c: "c = (32768 * r - 27439 * g - 5329 * b + 8421375) div 65536 - 128"
    and v: "v = (91881 * c + 32768) div 65536"
    and w: "w = (32768 - 22554 * e - 46802 * c) div 65536"
    and z: "z = (116130 * e + 32768) div 65536"
  shows "\<bar>y + v - r\<bar> \<le> 1 \<and> \<bar>y + w - g\<bar> \<le> 1 \<and> \<bar>y + z - b\<bar> \<le> 1"
proof -
  have ys: "65536 * y \<le> 19595 * r + 38470 * g + 7471 * b + 32768" "19595 * r + 38470 * g + 7471 * b + 32768 < 65536 * y + 65536"
    using div_65536 [of "19595 * r + 38470 * g + 7471 * b + 32768"] y by simp_all
  have cs: "65536 * c \<le> 32768 * r - 27439 * g - 5329 * b + 32767" "32768 * r - 27439 * g - 5329 * b + 32767 < 65536 * c + 65536"
    using div_65536 [of "32768 * r - 27439 * g - 5329 * b + 8421375"] c by (simp_all add: algebra_simps)
  have es: "65536 * e \<le> 32768 * b - 11059 * r - 21709 * g + 32767" "32768 * b - 11059 * r - 21709 * g + 32767 < 65536 * e + 65536"
    using div_65536 [of "32768 * b - 11059 * r - 21709 * g + 8421375"] e by (simp_all add: algebra_simps)
  have "65536 * v \<le> 91881 * c + 32768" "91881 * c + 32768 < 65536 * v + 65536"
    using div_65536 [of "91881 * c + 32768"] v by simp_all
  with ys cs have "- 2 < y + v - r" "y + v - r < 2" using assms(1-6) by linarith+
  moreover have "65536 * z \<le> 116130 * e + 32768" "116130 * e + 32768 < 65536 * z + 65536"
    using div_65536 [of "116130 * e + 32768"] z by simp_all
  with ys es have "- 2 < y + z - b" "y + z - b < 2" using assms(1-6) by linarith+
  moreover have "65536 * w \<le> 32768 - 22554 * e - 46802 * c" "32768 - 22554 * e - 46802 * c < 65536 * w + 65536"
    using div_65536 [of "32768 - 22554 * e - 46802 * c"] w by simp_all
  with ys es cs have "- 2 < y + w - g" "y + w - g < 2" using assms(1-6) by linarith+
  ultimately show ?thesis by linarith
qed

lemma uint_luma: "uint (word_of_int (luma r g b) :: u8) = luma r g b" "uint (word_of_int (blue_diff r g b) :: u8) = blue_diff r g b"
  "uint (word_of_int (red_diff r g b) :: u8) = red_diff r g b"
  using ycc_range [of r g b] by (simp_all add: uint_word_of_int take_bit_int_eq_self)

lemma uint_clamp: "uint (clamp_sample x) = max 0 (min 255 x)"
  by (simp add: clamp_sample_def MAXJSAMPLE_def uint_word_of_int take_bit_int_eq_self)

text \<open>The three channels come back within one, greys exactly.\<close>

lemma rgb_back:
  "let c = clamped_rgb (ycc_pixel r g b)
   in \<bar>uint (c ! 0) - uint r\<bar> \<le> 1 \<and> \<bar>uint (c ! 1) - uint g\<bar> \<le> 1 \<and> \<bar>uint (c ! 2) - uint b\<bar> \<le> 1 \<and>
      (r = g \<and> g = b \<longrightarrow> c = [r, g, b])"
proof -
  let ?y = "word_of_int (luma r g b) :: u8" and ?e = "word_of_int (blue_diff r g b) :: u8" and ?c = "word_of_int (red_diff r g b) :: u8"
  note n = near_rgb [OF sample_range [of r] sample_range [of g] sample_range [of b] luma_def [of r g b]
      arg_cong [where f = "\<lambda>x. x - 128", OF blue_diff_def [of r g b]] arg_cong [where f = "\<lambda>x. x - 128", OF red_diff_def [of r g b]] refl refl refl]
  have n: "\<bar>red_of ?y ?e ?c - uint r\<bar> \<le> 1" "\<bar>green_of ?y ?e ?c - uint g\<bar> \<le> 1" "\<bar>blue_of ?y ?e ?c - uint b\<bar> \<le> 1"
    using n unfolding red_of_def green_of_def blue_of_def uint_luma by simp_all
  have near: "\<bar>uint (clamp_sample x) - uint v\<bar> \<le> 1" if "\<bar>x - uint v\<bar> \<le> 1" for x and v :: u8
    using that sample_range [of v] unfolding uint_clamp by linarith
  have grey: "clamped_rgb (ycc_pixel v v v) = [v, v, v]" for v
  proof -
    have l: "luma v v v = uint v" "blue_diff v v v = 128" "red_diff v v v = 128" by (simp_all add: luma_def blue_diff_def red_diff_def)
    have "clamp_sample (uint v) = v" using sample_range [of v] by (simp add: word_uint_eq_iff uint_clamp)
    then show ?thesis by (simp add: clamped_rgb_def ycc_pixel_def l red_of_def green_of_def blue_of_def)
  qed
  show ?thesis using near [OF n(1)] near [OF n(2)] near [OF n(3)] grey by (auto simp: Let_def clamped_rgb_def ycc_pixel_def)
qed

section \<open>Whole rows\<close>

lemma rgb_bytes_nth:
  assumes "is_rgb cs" "rgb_layout cs = (red, green, blue, px)"
  shows "rgb_bytes cs r g b ! red = r" "rgb_bytes cs r g b ! green = g" "rgb_bytes cs r g b ! blue = b"
  using assms by (cases cs; auto simp: rgb_bytes_def rgb_layout_def rgb_alpha_def is_rgb_def)+

lemma pixel_at_concat:
  assumes "\<And>k. k < w \<Longrightarrow> length (f k) = px" "col < w"
  shows "pixel_at px (concat (map f [0..<w]) @ rest) col = f col"
proof -
  have "[0..<w] = [0..<col] @ col # [Suc col..<w]" using assms(2) by (metis le_add1 upt_add_eq_append upt_conv_Cons less_imp_add_positive add_0)
  then have "concat (map f [0..<w]) = concat (map f [0..<col]) @ f col @ concat (map f [Suc col..<w])" by simp
  moreover have "length (concat (map f [0..<col])) = col * px"
    using assms length_concat_const [of "[0..<col]" f px] by simp
  ultimately show ?thesis using assms by (simp add: pixel_at_def)
qed

lemma put_rows_nth:
  "k \<le> i \<Longrightarrow> i < k + length rs \<Longrightarrow> i < length plane \<Longrightarrow> put_rows rs k plane ! i = rs ! (i - k) @ drop (length (rs ! (i - k))) (plane ! i)"
  "\<not> (k \<le> i \<and> i < k + length rs) \<Longrightarrow> i < length plane \<Longrightarrow> put_rows rs k plane ! i = plane ! i"
  "length (put_rows rs k plane) = length plane"
  by (auto simp: put_rows_def)

text \<open>What the compressor's conversion leaves for the decompressor's.\<close>

lemma converted_planes:
  fixes cin :: jpeg_compress_struct
  defines "w \<equiv> unat (image_width cin)"
  assumes fit: "\<forall>plane \<in> set out. k + length ins \<le> length plane \<and> (\<forall>row \<in> set plane. w \<le> length row)" and len: "length out = nc"
  defines "planes \<equiv> map2 (\<lambda>ci plane. put_rows (map (\<lambda>inptr. plane_row cin inptr ci) ins) k plane) [0..<nc] out"
  shows "planes_hold nc (k + length ins) w planes"
    and "i < length ins \<Longrightarrow> col < w \<Longrightarrow>
      samples_at nc planes (k + i) col = map (\<lambda>ci. convert_pixel (in_color_space cin) (jpeg_color_space cin) (pixel_at (nat (input_components cin)) (ins ! i) col) ! ci) [0..<nc]"
proof -
  have pl: "planes ! ci = put_rows (map (\<lambda>inptr. plane_row cin inptr ci) ins) k (out ! ci)" if "ci < nc" for ci
    using that len by (simp add: planes_def)
  have f: "k + length ins \<le> length (out ! ci)" "\<And>r. r < length (out ! ci) \<Longrightarrow> w \<le> length (out ! ci ! r)" if "ci < nc" for ci
    using fit that len by (auto dest: nth_mem)
  have l: "length (plane_row cin inptr ci) = w" for inptr ci by (simp add: plane_row_def w_def)
  have "w \<le> length (planes ! ci ! r)" if "ci < nc" "r < k + length ins" for ci r
  proof (cases "k \<le> r")
    case True
    have "r < length (out ! ci)" using f(1) [OF that(1)] that(2) by linarith
    then show ?thesis using True that by (simp add: pl put_rows_nth l less_diff_conv2)
  next
    case False
    then show ?thesis using f [OF that(1)] that by (simp add: pl put_rows_nth)
  qed
  then show "planes_hold nc (k + length ins) w planes"
    using f(1) len by (auto simp: planes_hold_def pl put_rows_nth(3)) (simp add: planes_def)
  show "samples_at nc planes (k + i) col = map (\<lambda>ci. convert_pixel (in_color_space cin) (jpeg_color_space cin) (pixel_at (nat (input_components cin)) (ins ! i) col) ! ci) [0..<nc]"
    if i: "i < length ins" "col < w"
  proof -
    have "planes ! ci ! (k + i) ! col = convert_pixel (in_color_space cin) (jpeg_color_space cin) (pixel_at (nat (input_components cin)) (ins ! i) col) ! ci"
      if "ci < nc" for ci
    proof -
      have "k + i < length (out ! ci)" using f(1) [OF that] i(1) by linarith
      then have "planes ! ci ! (k + i) = plane_row cin (ins ! i) ci @ drop w (out ! ci ! (k + i))"
        using i(1) by (simp add: pl [OF that] put_rows_nth l)
      then show ?thesis using i(2) l by (simp add: nth_append) (simp add: plane_row_def w_def)
    qed
    then show ?thesis by (simp add: samples_at_def)
  qed
qed

text \<open>Two pixels of RGB spaces whose channels differ by at most one, not at all for greys.\<close>

definition near_pixel :: "J_COLOR_SPACE \<Rightarrow> J_COLOR_SPACE \<Rightarrow> u8 list \<Rightarrow> u8 list \<Rightarrow> bool" where
  "near_pixel cs cs' p q =
     (let (red, green, blue, px) = rgb_layout cs; (red', green', blue', px') = rgb_layout cs'
      in \<bar>uint (q ! red') - uint (p ! red)\<bar> \<le> 1 \<and> \<bar>uint (q ! green') - uint (p ! green)\<bar> \<le> 1 \<and> \<bar>uint (q ! blue') - uint (p ! blue)\<bar> \<le> 1 \<and>
         (p ! red = p ! green \<and> p ! green = p ! blue \<longrightarrow> q ! red' = p ! red \<and> q ! green' = p ! red \<and> q ! blue' = p ! red))"

lemma near_deconverted:
  assumes "is_rgb cs" "is_rgb cs'"
  shows "near_pixel cs cs' p (deconvert_pixel JCS_YCbCr cs' (convert_pixel cs JCS_YCbCr p))"
proof -
  obtain red green blue px where l: "rgb_layout cs = (red, green, blue, px)" by (cases "rgb_layout cs") auto
  obtain red' green' blue' px' where l': "rgb_layout cs' = (red', green', blue', px')" by (cases "rgb_layout cs'") auto
  show ?thesis
    using rgb_back [of "p ! red" "p ! green" "p ! blue"] assms
    by (simp add: near_pixel_def l l' deconvert_pixel_def convert_pixel_def Let_def rgb_bytes_nth [OF assms(2) l'])
qed

text \<open>
  C26. RGB rows converted to YCbCr and back, between any two RGB pixel layouts, come back with every channel off by
  at most one, and greys exactly; on the way no access leaves a row or a table.
\<close>

theorem rgb_roundtrip:
  assumes "jinit_color_converter False False cin = Inr cc" "is_rgb (in_color_space cin)" "jpeg_color_space cin = JCS_YCbCr"
    and "\<forall>inptr \<in> set input_buf. unat (image_width cin) * nat (input_components cin) \<le> length inptr"
    and "length planes = 3" "\<forall>plane \<in> set planes. k + length input_buf \<le> length plane \<and> (\<forall>row \<in> set plane. unat (image_width cin) \<le> length row)"
    and "init_color_deconverter False False d = Inr (d', dc)" "d_jpeg_color_space d = JCS_YCbCr" "is_rgb (out_color_space d)"
    and "output_width d = image_width cin"
    and "length output_buf = length input_buf" "\<forall>(u, row) \<in> set output_buf. unat (image_width cin) * nat (out_color_components d') \<le> length row"
  shows "\<exists>planes' rows. color_convert simd cin (start_pass_cconvert cc) input_buf planes k = Some planes' \<and>
     color_deconvert simd' d' dc planes' k output_buf = Some rows \<and> length rows = length input_buf \<and>
     (\<forall>i < length input_buf. \<forall>col < unat (image_width cin).
        near_pixel (in_color_space cin) (out_color_space d)
          (pixel_at (nat (input_components cin)) (input_buf ! i) col) (pixel_at (nat (out_color_components d')) (rows ! i) col))"
proof -
  let ?w = "unat (image_width cin)" and ?n = "length input_buf"
  have nc: "num_components cin = 3" using assms(1,3) by (auto simp: jinit_color_converter_def Let_def split: if_splits)
  have dn: "d_num_components d = 3" using assms(7,8) by (auto simp: init_color_deconverter_def num_components_ok_def Let_def split: if_splits)
  have rgb: "out_color_space d \<noteq> JCS_RGB565" using assms(9) by (auto simp: is_rgb_def)
  define planes' where "planes' = map2 (\<lambda>ci plane. put_rows (map (\<lambda>inptr. plane_row cin inptr ci) input_buf) k plane) [0..<3] planes"
  have conv: "color_convert simd cin (start_pass_cconvert cc) input_buf planes k = Some planes'"
    using color_convert_planes [OF assms(1,4)] assms(5,6) nc by (simp add: planes'_def)
  have hold: "planes_hold (nat (d_num_components d)) (k + length output_buf) (unat (output_width d)) planes'"
    using converted_planes(1) [OF assms(6,5)] by (simp add: planes'_def assms(10,11) dn)
  define rows where "rows = map (\<lambda>i. pixel_row d planes' (k + i) @ drop (?w * nat (out_color_components d')) (snd (output_buf ! i))) [0..<?n]"
  have deconv: "color_deconvert simd' d' dc planes' k output_buf = Some rows"
    using color_deconvert_eq [OF assms(7) rgb hold] assms(10-12) by (simp add: rows_def)
  have "near_pixel (in_color_space cin) (out_color_space d)
          (pixel_at (nat (input_components cin)) (input_buf ! i) col) (pixel_at (nat (out_color_components d')) (rows ! i) col)"
    if i: "i < ?n" "col < ?w" for i col
  proof -
    let ?p = "pixel_at (nat (input_components cin)) (input_buf ! i) col"
    let ?f = "\<lambda>col. deconvert_pixel JCS_YCbCr (out_color_space d) (samples_at 3 planes' (k + i) col)"
    have "samples_at 3 planes' (k + i) col = map (\<lambda>ci. convert_pixel (in_color_space cin) JCS_YCbCr ?p ! ci) [0..<3]"
      using converted_planes(2) [OF assms(6,5) i] by (simp add: planes'_def assms(3))
    also have "\<dots> = convert_pixel (in_color_space cin) JCS_YCbCr ?p"
      using assms(2) by (intro nth_equalityI) (auto simp: convert_pixel_def ycc_pixel_def Let_def split: prod.splits)
    finally have s: "samples_at 3 planes' (k + i) col = convert_pixel (in_color_space cin) JCS_YCbCr ?p" .
    have "length (?f c) = nat (out_color_components d')" for c
      using deconvert_pixel_length [OF assms(7) rgb, of "samples_at 3 planes' (k + i) c"] by (simp add: assms(8) dn)
    moreover have "rows ! i = concat (map ?f [0..<?w]) @ drop (?w * nat (out_color_components d')) (snd (output_buf ! i))"
      using i(1) by (simp add: rows_def pixel_row_def assms(8,10) dn)
    ultimately have "pixel_at (nat (out_color_components d')) (rows ! i) col = ?f col"
      using i(2) by (simp add: pixel_at_concat)
    then show ?thesis using near_deconverted [OF assms(2,9)] by (simp add: s)
  qed
  then show ?thesis using conv deconv by (auto simp: rows_def)
qed

theorem rgb_roundtrip_witness:
  "\<exists>cc d' dc planes' rows. jinit_color_converter False False (zero_struct\<lparr>image_width := 1, input_components := 4, in_color_space := JCS_EXT_XBGR,
       num_components := 3, jpeg_color_space := JCS_YCbCr\<rparr>) = Inr cc \<and>
     init_color_deconverter False False (zero_decompress\<lparr>d_num_components := 3, d_jpeg_color_space := JCS_YCbCr,
       out_color_space := JCS_RGB, output_width := 1\<rparr>) = Inr (d', dc) \<and>
     color_convert (\<lambda>_ _ _. None) (zero_struct\<lparr>image_width := 1, input_components := 4, in_color_space := JCS_EXT_XBGR,
       num_components := 3, jpeg_color_space := JCS_YCbCr\<rparr>) (start_pass_cconvert cc) [[0, 10, 200, 70]] [[[0]], [[0]], [[0]]] 0 = Some planes' \<and>
     color_deconvert (\<lambda>_ _ _. None) d' dc planes' 0 [(False, [0, 0, 0])] = Some rows \<and>
     near_pixel JCS_EXT_XBGR JCS_RGB [0, 10, 200, 70] (pixel_at 3 (rows ! 0) 0)"
proof -
  let ?c = "zero_struct\<lparr>image_width := 1, input_components := 4, in_color_space := JCS_EXT_XBGR, num_components := 3, jpeg_color_space := JCS_YCbCr\<rparr>"
  let ?cc = "\<lparr>cc_start = rgb_ycc_start, cc_convert = rgb_ycc_convert, rgb_ycc_tab = None\<rparr>"
  let ?d = "zero_decompress\<lparr>d_num_components := 3, d_jpeg_color_space := JCS_YCbCr, out_color_space := JCS_RGB, output_width := 1\<rparr>"
  let ?dc = "\<lparr>dc_convert = d_ycc_rgb_convert, ycc_rgb_tab = Some build_ycc_rgb_table, rgb_y_tab = None\<rparr>"
  let ?d' = "?d\<lparr>out_color_components := 3, output_components := 3\<rparr>"
  have j: "jinit_color_converter False False ?c = Inr ?cc"
    by (simp add: jinit_color_converter_def Let_def input_components_ok_def is_rgb_def rgb_pixelsize_def)
  have k: "init_color_deconverter False False ?d = Inr (?d', ?dc)"
    by (simp add: init_color_deconverter_def Let_def num_components_ok_def is_rgb_def rgb_pixelsize_def zero_decompress_def)
  show ?thesis
    using rgb_roundtrip [OF j _ _ _ _ _ k, of "[[0, 10, 200, 70]]" "[[[0]], [[0]], [[0]]]" 0 "[(False, [0, 0, 0])]" "\<lambda>_ _ _. None" "\<lambda>_ _ _. None"] j k
    by (auto simp: is_rgb_def pixel_at_def)
qed

end
