(* ===== verification/Rgb565.thy ===== *)
theory Rgb565 imports Colors Screen begin

text \<open>
  The RGB565 output of \<open>jdcol565.c\<close>: what the loops over pairs of pixels write, and that the packing is the one
  of the screen capture.
\<close>

unbundle bit_operations_syntax

section \<open>Packing\<close>

lemma pack_short: "PACK_SHORT_565 (ucast r) (ucast g) (ucast (b :: u8)) = ucast (red565 r OR green565 g OR blue565 b)"
proof -
  have m: "(0xF800 :: u32) = push_bit 11 (mask 5)" "(0x7E0 :: u32) = push_bit 5 (mask 6)" "(0x1f :: u16) = mask 5" "(0x3f :: u16) = mask 6"
    by (simp_all add: mask_eq_exp_minus_1)
  have "push_bit 8 (ucast r :: u32) AND push_bit 11 (mask 5) = ucast (push_bit 11 (drop_bit 3 (ucast r) AND mask 5) :: u16)"
    by (rule bit_word_eqI) (auto simp: bit_simps)
  moreover have s: "Suc (Suc (n - 5)) = n - 3" if "5 \<le> n" for n using that by simp
  have "push_bit 3 (ucast g :: u32) AND push_bit 5 (mask 6) = ucast (push_bit 5 (drop_bit 2 (ucast g) AND mask 6) :: u16)"
    by (rule bit_word_eqI) (auto simp: bit_simps s)
  moreover have "drop_bit 3 (ucast b :: u32) = ucast (drop_bit 3 (ucast b) AND mask 5 :: u16)"
    by (rule bit_word_eqI) (auto simp: bit_simps dest: bit_imp_le_length)
  ultimately show ?thesis unfolding PACK_SHORT_565_def red565_def green565_def blue565_def m unsigned_or_eq by simp
qed

definition packed565 :: "u8 list \<Rightarrow> u16" where
  "packed565 c = red565 (c ! 0) OR green565 (c ! 1) OR blue565 (c ! 2)"

lemma write_pair: "write_int (PACK_TWO_PIXELS (ucast (a :: u16)) (ucast (b :: u16))) = write_short (ucast a) @ write_short (ucast b)"
  unfolding write_int_def write_short_def PACK_TWO_PIXELS_def append.simps
  by (intro arg_cong2 [where f = Cons] refl; rule bit_word_eqI; auto simp: bit_simps dest: bit_imp_le_length)

section \<open>One row\<close>

abbreviation rotated :: "u32 option \<Rightarrow> nat \<Rightarrow> u32 option" where
  "rotated d0 k \<equiv> (map_option DITHER_ROTATE ^^ k) d0"

lemma pairs_565_ok:
  "(\<And>k c. c < col + 2 * n \<Longrightarrow> p (rotated d0 k) c = Some (ucast (f (rotated d0 k) c :: u16))) \<Longrightarrow> pairs_565 p n col d0 =
     Some (concat (map (\<lambda>k. write_short (ucast (f (rotated d0 k) (col + k)))) [0..<2 * n]), rotated d0 (2 * n))"
proof (induction n arbitrary: col d0)
  case (Suc n)
  let ?g = "\<lambda>k. write_short (ucast (f (rotated d0 k) (col + k)))"
  have "[0..<2 * Suc n] = 0 # 1 # map (\<lambda>k. k + 2) [0..<2 * n]"
    by (simp add: upt_conv_Cons map_Suc_upt [symmetric] comp_def del: upt_Suc)
  then have "concat (map ?g [0..<2 * Suc n]) = ?g 0 @ ?g 1 @ concat (map (\<lambda>k. ?g (k + 2)) [0..<2 * n])" by (simp add: comp_def)
  moreover have "rotated d0 (k + 2) = rotated (map_option DITHER_ROTATE (map_option DITHER_ROTATE d0)) k" for k
    by (simp add: funpow_swap1)
  ultimately show ?case using Suc.IH [of "col + 2" "map_option DITHER_ROTATE (map_option DITHER_ROTATE d0)"]
      Suc.prems [of _ "k + 2" for k] Suc.prems [of _ 0] Suc.prems [of _ 1]
    by (simp add: write_pair Let_def add.commute add.left_commute)
qed simp

text \<open>The pixels of a row, and the variables after it; the first pixel of an unaligned row does not rotate the dither.\<close>

definition row_shorts :: "(u32 option \<Rightarrow> nat \<Rightarrow> u16) \<Rightarrow> bool \<Rightarrow> nat \<Rightarrow> u32 option \<Rightarrow> u8 list" where
  "row_shorts f unaligned n d0 =
     concat (map (\<lambda>col. write_short (ucast (f (rotated d0 (if unaligned then col - 1 else col)) col))) [0..<n])"

lemma half_word: "unat (drop_bit 1 (n :: u32)) = unat n div 2" "(n AND 1 \<noteq> 0) = odd (unat n)"
proof -
  show "unat (drop_bit 1 n) = unat n div 2" by (simp add: drop_bit_eq_div unat_div_distrib)
  show "(n AND 1 \<noteq> 0) = odd (unat n)" by (simp add: and_one_eq mod_2_eq_odd bit_unsigned_iff flip: bit_0)
qed

lemma concat_pairs: "concat (map g [0..<n]) = concat (map g [0..<2 * (n div 2)]) @ (if odd n then g (2 * (n div 2)) else [])"
  by (cases "odd n") (auto elim!: oddE evenE)

lemma row_565_ok:
  assumes p: "\<And>k c. c < unat num_cols \<Longrightarrow> p (rotated d0 k) c = Some (ucast (f (rotated d0 k) c :: u16))" and n: "num_cols \<noteq> 0"
  shows "row_565 p unaligned (num_cols, d0) =
     (let num_cols' = (if unaligned then num_cols - 1 else num_cols)
      in Some (row_shorts f unaligned (unat num_cols) d0, num_cols', rotated d0 (2 * (unat num_cols' div 2))))"
proof -
  let ?s = "\<lambda>d0 k. write_short (ucast (f d0 k))"
  define w where "w = unat num_cols"
  have w: "0 < w" using n by (simp add: w_def unat_gt_0)
  have u: "unat (num_cols - 1) = w - 1" using n by (simp add: w_def unat_minus_one)
  show ?thesis
  proof (cases unaligned)
    case True
    obtain m where m: "w = Suc m" using w by (cases w) simp_all
    define h where "h = m div 2"
    have hw: "unat (drop_bit 1 (num_cols - 1)) = h" "unat (num_cols - 1) div 2 = h" "((num_cols - 1) AND 1 \<noteq> 0) = odd m"
      unfolding half_word u m h_def by simp_all
    have pr: "pairs_565 p h 1 d0 = Some (concat (map (\<lambda>k. ?s (rotated d0 k) (1 + k)) [0..<2 * h]), rotated d0 (2 * h))"
      using m by (intro pairs_565_ok p) (simp add: h_def flip: w_def)
    have "row_shorts f True w d0 = concat (map (\<lambda>k. ?s (rotated d0 (k - 1)) k) (0 # map Suc [0..<m]))"
      by (simp add: row_shorts_def map_Suc_upt upt_conv_Cons [symmetric] m del: upt_Suc)
    also have "\<dots> = ?s d0 0 @ concat (map (\<lambda>k. ?s (rotated d0 k) (1 + k)) [0..<m])" by (simp add: comp_def)
    also have "concat (map (\<lambda>k. ?s (rotated d0 k) (1 + k)) [0..<m]) =
        concat (map (\<lambda>k. ?s (rotated d0 k) (1 + k)) [0..<2 * h]) @ (if odd m then ?s (rotated d0 (2 * h)) (1 + 2 * h) else [])"
      unfolding h_def by (rule concat_pairs)
    finally have r: "row_shorts f True w d0 = ?s d0 0 @ concat (map (\<lambda>k. ?s (rotated d0 k) (1 + k)) [0..<2 * h]) @
        (if odd m then ?s (rotated d0 (2 * h)) (1 + 2 * h) else [])" .
    have last: "p (rotated d0 (2 * h)) (1 + 2 * h) = Some (ucast (f (rotated d0 (2 * h)) (1 + 2 * h)))" if "odd m"
      by (rule p) (use that in \<open>auto simp: h_def m elim!: oddE simp flip: w_def\<close>)
    have first: "p d0 0 = Some (ucast (f d0 0))" using w p [of 0 0] by (simp add: w_def)
    show ?thesis
      using True by (simp add: row_565_def pr first last hw Let_def r w_def [symmetric] del: One_nat_def)
  next
    case False
    define h where "h = w div 2"
    have hw: "unat (drop_bit 1 num_cols) = h" "unat num_cols div 2 = h" "(num_cols AND 1 \<noteq> 0) = odd w"
      unfolding half_word h_def w_def by simp_all
    have pr: "pairs_565 p h 0 d0 = Some (concat (map (\<lambda>k. ?s (rotated d0 k) (0 + k)) [0..<2 * h]), rotated d0 (2 * h))"
      by (intro pairs_565_ok p) (simp add: h_def w_def)
    have r: "row_shorts f False w d0 =
        concat (map (\<lambda>k. ?s (rotated d0 k) k) [0..<2 * h]) @ (if odd w then ?s (rotated d0 (2 * h)) (2 * h) else [])"
      unfolding row_shorts_def h_def if_False by (rule concat_pairs)
    have last: "p (rotated d0 (2 * h)) (2 * h) = Some (ucast (f (rotated d0 (2 * h)) (2 * h)))" if "odd w"
      by (rule p) (use that in \<open>auto simp: h_def elim!: oddE simp flip: w_def\<close>)
    show ?thesis
      using False by (simp add: row_565_def pr last [unfolded w_def] hw [unfolded w_def] Let_def r [unfolded w_def] del: One_nat_def)
  qed
qed

section \<open>Several rows in one call\<close>

definition rgb_components :: "J_COLOR_SPACE \<Rightarrow> u8 list \<Rightarrow> u8 list" where
  "rgb_components jcs p = (case jcs of JCS_YCbCr \<Rightarrow> clamped_rgb p | JCS_GRAYSCALE \<Rightarrow> replicate 3 (p ! 0) | _ \<Rightarrow> p)"

text \<open>The first \<open>n\<close> pixels of row \<open>row\<close>, packed.\<close>

definition packed_row :: "jpeg_decompress_struct \<Rightarrow> u8 list list list \<Rightarrow> nat \<Rightarrow> nat \<Rightarrow> u8 list" where
  "packed_row d input_buf row n =
     concat (map (\<lambda>col. write_short (ucast (packed565 (rgb_components (d_jpeg_color_space d) (samples_at (nat (d_num_components d)) input_buf row col))))) [0..<n])"

lemma packed_row_length: "length (packed_row d input_buf row n) = 2 * n"
  unfolding packed_row_def by (subst length_concat_const [where n = 2]) (simp_all add: write_short_def)

lemma rotated_None [simp]: "rotated None k = None"
  by (induction k) simp_all

lemma packed_ok:
  assumes "planes_hold nc rows w input_buf" "row < rows" "k \<le> nc" "n \<noteq> 0" "unat n \<le> w"
    and "\<And>col. col < unat n \<Longrightarrow> p None (samples_at k input_buf row col) = Some (ucast (packed565 (rgb_components jcs (samples_at nc input_buf row col))))"
  shows "Option.bind (plane_rows k input_buf row) (\<lambda>inptrs. row_565 (\<lambda>d0 col. Option.bind (column inptrs col) (p d0)) u (n, None)) =
     Some (concat (map (\<lambda>col. write_short (ucast (packed565 (rgb_components jcs (samples_at nc input_buf row col))))) [0..<unat n]),
       if u then n - 1 else n, None)"
proof -
  note h = planes_hold_fewer [OF assms(1,3)]
  let ?p = "\<lambda>d0 col. Option.bind (column (map (\<lambda>ci. input_buf ! ci ! row) [0..<k]) col) (p d0)"
  let ?f = "\<lambda>d0 col. packed565 (rgb_components jcs (samples_at nc input_buf row col))"
  have "?p (rotated None k) c = Some (ucast (?f (rotated None k) c))" if "c < unat n" for k c
    using column_ok [OF h assms(2), of c] assms(5,6) that by simp
  from row_565_ok [of n ?p None ?f, OF this assms(4), of u] show ?thesis
    by (simp add: plane_rows_ok [OF h assms(2)] row_shorts_def Let_def)
qed

lemma deconvert_row_565:
  assumes init: "init_color_deconverter False False d = Inr (d', cc)" and cs: "out_color_space d = JCS_RGB565" "dither_mode d = JDITHER_NONE"
    and "planes_hold (nat (d_num_components d)) rows (unat (output_width d)) input_buf" "row < rows" "n \<noteq> 0" "unat n \<le> unat (output_width d)"
  shows "deconvert_row simd d' cc input_buf row u (n, None) = Some (packed_row d input_buf row (unat n), if u then n - 1 else n, None)"
    and "is_dithered (dc_convert cc) = False" "output_width d' = output_width d"
proof -
  let ?nc = "nat (d_num_components d)" and ?w = "unat (output_width d)" and ?jcs = "d_jpeg_color_space d"
  have ok: "num_components_ok d" using init by (simp add: init_color_deconverter_def Let_def split: if_splits)
  have cs': "\<not> is_rgb JCS_RGB565" by (simp add: is_rgb_def)
  note b = packed_ok [OF assms(4,5) _ assms(6,7), where jcs = ?jcs]
  consider
      (ycc) "?jcs = JCS_YCbCr" "cc = \<lparr>dc_convert = ycc_rgb565_convert, ycc_rgb_tab = Some build_ycc_rgb_table, rgb_y_tab = None\<rparr>" "?nc = 3"
    | (gray) "?jcs = JCS_GRAYSCALE" "cc = \<lparr>dc_convert = gray_rgb565_convert, ycc_rgb_tab = None, rgb_y_tab = None\<rparr>" "?nc = 1"
    | (rgb) "?jcs = JCS_RGB" "cc = \<lparr>dc_convert = rgb_rgb565_convert, ycc_rgb_tab = None, rgb_y_tab = None\<rparr>" "?nc = 3"
    using init cs cs' ok by (auto simp: init_color_deconverter_def num_components_ok_def Let_def split: if_splits)
  note c = this
  show "is_dithered (dc_convert cc) = False" using c by cases (simp_all add: is_dithered_def)
  show "output_width d' = output_width d" using init by (auto simp: init_color_deconverter_def Let_def split: if_splits)
  show "deconvert_row simd d' cc input_buf row u (n, None) = Some (packed_row d input_buf row (unat n), if u then n - 1 else n, None)"
    using c
  proof cases
    case ycc
    have "ycc_565 build_ycc_rgb_table None p = Some (ucast (packed565 (clamped_rgb p)))" for p
      using ycc_value_range [of "p ! 0" "p ! 1" "p ! 2"]
      by (simp add: ycc_565_def ycc_values limit_at_ok clamped_rgb_def pack_short packed565_def)
    then have "Option.bind (plane_rows 3 input_buf row) (\<lambda>inptrs. row_565 (\<lambda>d0 col. Option.bind (column inptrs col) (ycc_565 build_ycc_rgb_table d0)) u (n, None)) =
        Some (packed_row d input_buf row (unat n), if u then n - 1 else n, None)"
      unfolding packed_row_def using ycc by (intro b) (simp_all add: rgb_components_def)
    then show ?thesis by (simp add: ycc(2) deconvert_row_def Let_def)
  next
    case gray
    have "Option.bind (plane_rows 1 input_buf row) (\<lambda>inptrs. row_565 (\<lambda>d0 col. Option.bind (column inptrs col) (gray_565 d0)) u (n, None)) =
        Some (packed_row d input_buf row (unat n), if u then n - 1 else n, None)"
      unfolding packed_row_def using gray by (intro b) (simp_all add: rgb_components_def gray_565_def pack_short packed565_def numeral_eq_Suc)
    then show ?thesis by (simp add: gray(2) deconvert_row_def Let_def)
  next
    case rgb
    have "Option.bind (plane_rows 3 input_buf row) (\<lambda>inptrs. row_565 (\<lambda>d0 col. Option.bind (column inptrs col) (rgb_565 d0)) u (n, None)) =
        Some (packed_row d input_buf row (unat n), if u then n - 1 else n, None)"
      unfolding packed_row_def using rgb by (intro b) (simp_all add: rgb_components_def rgb_565_def pack_short packed565_def)
    then show ?thesis by (simp add: rgb(2) deconvert_row_def Let_def)
  qed
qed

text \<open>The rows before \<open>i\<close> that are not aligned.\<close>

definition unaligned_before :: "nat \<Rightarrow> (bool \<times> u8 list) list \<Rightarrow> nat" where
  "unaligned_before i outs = length (filter fst (take i outs))"

lemma unaligned_before_simps [simp]:
  "unaligned_before 0 outs = 0" "unaligned_before (Suc i) (out # outs) = (if fst out then 1 else 0) + unaligned_before i outs"
  by (simp_all add: unaligned_before_def)

lemma deconvert_rows_565:
  assumes "\<And>i u n. i < length outs \<Longrightarrow> n \<noteq> 0 \<Longrightarrow> unat n \<le> w \<Longrightarrow> f (row + i) u (n, None) = Some (bs (row + i) (unat n), if u then n - 1 else n, None)"
    and "\<And>r n. length (bs r n) = 2 * n" "\<And>i. i < length outs \<Longrightarrow> 2 * w \<le> length (snd (outs ! i))"
    and "\<And>i. i < length outs \<Longrightarrow> unaligned_before i outs < unat n" "unat n \<le> w"
  shows "deconvert_rows f row outs (n, None) =
    Some (map (\<lambda>i. let m = unat n - unaligned_before i outs in bs (row + i) m @ drop (2 * m) (snd (outs ! i))) [0..<length outs])"
  using assms
proof (induction outs arbitrary: row n)
  case (Cons out outs)
  obtain u outptr where o: "out = (u, outptr)" by (cases out)
  let ?n = "if u then n - 1 else n"
  have n: "n \<noteq> 0" using Cons.prems(4) [of 0] by auto
  have un: "unat ?n = unat n - (if u then 1 else 0)" using n by (simp add: unat_minus_one)
  have "unaligned_before i outs < unat ?n" if "i < length outs" for i
    using Cons.prems(4) [of "Suc i"] that n by (simp add: un o split: if_splits)
  then have "deconvert_rows f (Suc row) outs (?n, None) =
      Some (map (\<lambda>i. let m = unat ?n - unaligned_before i outs in bs (Suc row + i) m @ drop (2 * m) (snd (outs ! i))) [0..<length outs])"
    using Cons.prems(1) [of "Suc i" for i] Cons.prems(2) Cons.prems(3) [of "Suc i" for i] Cons.prems(5)
    by (intro Cons.IH) (simp_all add: un)
  moreover have "f row u (n, None) = Some (bs row (unat n), ?n, None)" using Cons.prems(1) [of 0] Cons.prems(5) n by simp
  moreover have "2 * unat n \<le> length outptr" using Cons.prems(3) [of 0] Cons.prems(5) o by simp
  moreover have "[0..<length (out # outs)] = 0 # map Suc [0..<length outs]" by (simp add: upt_conv_Cons map_Suc_upt del: upt_Suc)
  ultimately show ?case using Cons.prems(2) by (simp add: o store_samples_def un Let_def comp_def del: upt_Suc)
qed simp

text \<open>
  C30. RGB565 output without dithering: a row holds its pixels in order, each packed as the screen capture packs it,
  whether or not it starts on an address divisible by four. But \<open>num_cols\<close> is counted down for each unaligned row and
  never set back, so each of these shortens all the rows after it in the same call by one pixel.
\<close>

theorem rgb565_rows:
  assumes "init_color_deconverter False False d = Inr (d', cc)" "out_color_space d = JCS_RGB565" "dither_mode d = JDITHER_NONE"
    and "planes_hold (nat (d_num_components d)) (input_row + length output_buf) (unat (output_width d)) input_buf"
    and "\<forall>i < length output_buf. 2 * unat (output_width d) \<le> length (snd (output_buf ! i)) \<and> unaligned_before i output_buf < unat (output_width d)"
  shows "color_deconvert simd d' cc input_buf input_row output_buf =
    Some (map (\<lambda>i. let n = unat (output_width d) - unaligned_before i output_buf
       in concat (map (\<lambda>col. write_short (ucast (packed565 (rgb_components (d_jpeg_color_space d)
                    (samples_at (nat (d_num_components d)) input_buf (input_row + i) col))))) [0..<n])
          @ drop (2 * n) (snd (output_buf ! i))) [0..<length output_buf])"
proof -
  note row = deconvert_row_565 [OF assms(1-4)]
  have "deconvert_rows (deconvert_row simd d' cc input_buf) input_row output_buf (output_width d, None) =
      Some (map (\<lambda>i. let m = unat (output_width d) - unaligned_before i output_buf
          in packed_row d input_buf (input_row + i) m @ drop (2 * m) (snd (output_buf ! i))) [0..<length output_buf])"
    by (rule deconvert_rows_565 [where w = "unat (output_width d)"]) (use assms(5) row(1) packed_row_length in simp_all)
  moreover have "color_deconvert simd d' cc input_buf input_row output_buf =
      deconvert_rows (deconvert_row simd d' cc input_buf) input_row output_buf (output_width d, None)" if "output_buf \<noteq> []"
  proof -
    have "input_row < input_row + length output_buf" "output_width d \<noteq> 0" using that assms(5) by auto
    from row(2,3) [OF this(1,2)] show ?thesis by (simp add: color_deconvert_def)
  qed
  ultimately show ?thesis unfolding packed_row_def by (cases "output_buf = []") (simp_all add: color_deconvert_def)
qed

theorem rgb565_rows_witness:
  "\<exists>d' cc rows. init_color_deconverter False False (zero_decompress\<lparr>d_num_components := 1, d_jpeg_color_space := JCS_GRAYSCALE,
       out_color_space := JCS_RGB565, output_width := 2\<rparr>) = Inr (d', cc) \<and>
     color_deconvert (\<lambda>_ _ _. None) d' cc [[[255, 255], [255, 255]]] 0 [(True, replicate 4 0), (False, replicate 4 0)] = Some rows \<and>
     rows = [[255, 255, 255, 255], [255, 255, 0, 0]]"
proof -
  let ?d = "zero_decompress\<lparr>d_num_components := 1, d_jpeg_color_space := JCS_GRAYSCALE, out_color_space := JCS_RGB565, output_width := 2\<rparr>"
  let ?cc = "\<lparr>dc_convert = gray_rgb565_convert, ycc_rgb_tab = None, rgb_y_tab = None\<rparr>"
  let ?d' = "?d\<lparr>out_color_components := 3, output_components := 3\<rparr>"
  have k: "init_color_deconverter False False ?d = Inr (?d', ?cc)"
    by (simp add: init_color_deconverter_def Let_def num_components_ok_def is_rgb_def zero_decompress_def)
  let ?out = "[(True, replicate 4 0), (False, replicate 4 0)] :: (bool \<times> u8 list) list"
  have two: "[0..<2] = [0, 1 :: nat]" by (simp add: upt_rec)
  have p: "planes_hold (nat (d_num_components ?d)) (0 + length ?out) (unat (output_width ?d)) [[[255, 255], [255, 255]]]"
    by (simp add: planes_hold_def less_Suc_eq numeral_eq_Suc)
  have o: "\<forall>i < length ?out. 2 * unat (output_width ?d) \<le> length (snd (?out ! i)) \<and> unaligned_before i ?out < unat (output_width ?d)"
    by (simp add: less_Suc_eq unaligned_before_def)
  have white: "write_short (ucast (packed565 (replicate 3 255))) = [255, 255]" by code_simp
  have d: "dither_mode ?d = JDITHER_NONE" by (simp add: zero_decompress_def)
  let ?bytes = "\<lambda>i col. write_short (ucast (packed565 (rgb_components JCS_GRAYSCALE (samples_at 1 [[[255, 255], [255, 255]]] i col))))"
  have w: "write_short (ucast (packed565 (rgb_components JCS_GRAYSCALE [255]))) = [255, 255]"
    using white by (simp add: rgb_components_def)
  have "color_deconvert (\<lambda>_ _ _. None) ?d' ?cc [[[255, 255], [255, 255]]] 0 ?out =
      Some [concat (map (?bytes 0) [0..<2]) @ drop 4 (replicate 4 0), concat (map (?bytes 1) [0..<1]) @ drop 2 (replicate 4 0)]"
    using rgb565_rows [OF k _ d p o, of "\<lambda>_ _ _. None"] by (simp add: two unaligned_before_def Let_def)
  also have "\<dots> = Some [[255, 255, 255, 255], [255, 255, 0, 0]]" by (simp add: two w numeral_eq_Suc)
  finally have "color_deconvert (\<lambda>_ _ _. None) ?d' ?cc [[[255, 255], [255, 255]]] 0 ?out = Some [[255, 255, 255, 255], [255, 255, 0, 0]]" .
  then show ?thesis using k by blast
qed

end
