(* ===== verification/VirtArray.thy ===== *)
theory VirtArray imports Jpeglib begin

text \<open>
  Virtual arrays of \<open>jmemmgr.c\<close>: an image-sized array of rows of which a window is kept in memory and the rest
  in a backing store. The store itself, system code outside the repository except for the refusing one of
  \<open>jmemnobs.c\<close>, is a pair of parameters: \<open>rd s row n\<close> are \<open>n\<close> rows, \<open>wr s row rs\<close> the store after writing. Offsets
  in the store are counted in rows, their byte counts are taken to fit a \<open>long\<close>; for coefficient blocks a row
  in memory is as long as one in the store.
\<close>

section \<open>Control blocks\<close>

record 'r virt_array =
  mem_buffer :: "'r list option"
  rows_in_array :: u32
  blocksperrow :: u32
  maxaccess :: u32
  rows_in_mem :: u32
  rowsperchunk :: u32
  cur_start_row :: u32
  first_undef_row :: u32
  pre_zero :: bool
  dirty :: bool
  b_s_open :: bool

text \<open>Conversion of a \<open>JDIMENSION\<close> to \<open>long\<close>.\<close>

definition long_of :: "u32 \<Rightarrow> int" where
  "long_of w = as_long (uint w)"

definition JPOOL_IMAGE :: int where "JPOOL_IMAGE = 1"

text \<open>\<open>v\<close> is what the new control block held; the fields not set here are set by \<open>realize_virt_arrays\<close>.\<close>

definition request_virt_barray :: "'r virt_array \<Rightarrow> int \<Rightarrow> bool \<Rightarrow> u32 \<Rightarrow> u32 \<Rightarrow> u32 \<Rightarrow> 'r virt_array list \<Rightarrow> fault + 'r virt_array list" where
  "request_virt_barray v pool_id pz bpr numrows macc virt_list =
     (if pool_id \<noteq> JPOOL_IMAGE then Inl (ErrExit (JERR_BAD_POOL_ID pool_id))
      else Inr (v\<lparr>mem_buffer := None, rows_in_array := numrows, blocksperrow := bpr, maxaccess := macc,
                  pre_zero := pz, b_s_open := False\<rparr> # virt_list))"

section \<open>Realization\<close>

definition MAX_ALLOC_CHUNK :: u32 where "MAX_ALLOC_CHUNK = 1000000000"

text \<open>\<open>alloc_barray\<close>: the rows of the buffer, with whatever they hold, and \<open>last_rowsperchunk\<close>. \<open>fresh\<close> obtains
  the rows from the pool allocator, which may run out of memory.\<close>

definition alloc_barray :: "(u32 \<Rightarrow> fault + 'r list) \<Rightarrow> u32 \<Rightarrow> u32 \<Rightarrow> fault + ('r list \<times> u32)" where
  "alloc_barray fresh bpr numrows =
     (if bpr * 128 = 0 then Inl OutOfBounds
      else let ltemp = long_of ((MAX_ALLOC_CHUNK - 12) div (bpr * 128))
           in if ltemp \<le> 0 then Inl (ErrExit JERR_WIDTH_OVERFLOW)
              else ebind (fresh numrows) (\<lambda>buf. Inr (buf, if ltemp < long_of numrows then word_of_int ltemp else numrows)))"

definition unrealized_space :: "(u32 \<times> u32) \<Rightarrow> 'r virt_array list \<Rightarrow> u32 \<times> u32" where
  "unrealized_space = foldl (\<lambda>(mi, ma) v. if mem_buffer v = None then (mi + maxaccess v * blocksperrow v * 128, ma + rows_in_array v * blocksperrow v * 128) else (mi, ma))"

text \<open>\<open>open_store\<close> is \<open>jpeg_open_backing_store\<close>. A division by zero is undefined.\<close>

definition realize_array ::
  "(u32 \<Rightarrow> fault + unit) \<Rightarrow> (u32 \<Rightarrow> fault + 'r list) \<Rightarrow> u32 \<Rightarrow> 'r virt_array \<Rightarrow> fault + 'r virt_array" where
  "realize_array open_store fresh max_minheights v =
     (if mem_buffer v \<noteq> None then Inr v
      else if maxaccess v = 0 then Inl OutOfBounds
      else let minheights = (rows_in_array v - 1) div maxaccess v + 1
           in ebind (if minheights \<le> max_minheights then Inr (v\<lparr>rows_in_mem := rows_in_array v\<rparr>)
                     else ebind (open_store (rows_in_array v * blocksperrow v * 128))
                            (\<lambda>_. Inr (v\<lparr>rows_in_mem := max_minheights * maxaccess v, b_s_open := True\<rparr>)))
              (\<lambda>v. ebind (alloc_barray fresh (blocksperrow v) (rows_in_mem v))
                 (\<lambda>(buf, rpc). Inr (v\<lparr>mem_buffer := Some buf, rowsperchunk := rpc, cur_start_row := 0, first_undef_row := 0, dirty := False\<rparr>))))"

fun realize_arrays :: "(u32 \<Rightarrow> fault + unit) \<Rightarrow> (u32 \<Rightarrow> fault + 'r list) \<Rightarrow> u32 \<Rightarrow> 'r virt_array list \<Rightarrow> fault + 'r virt_array list" where
  "realize_arrays open_store fresh mm [] = Inr []"
| "realize_arrays open_store fresh mm (v # vs) =
     ebind (realize_array open_store fresh mm v) (\<lambda>v. ebind (realize_arrays open_store fresh mm vs) (\<lambda>vs. Inr (v # vs)))"

text \<open>For an object without sample arrays; \<open>available\<close> is \<open>jpeg_mem_available\<close>.\<close>

definition realize_virt_arrays ::
  "(u32 \<Rightarrow> u32 \<Rightarrow> u32) \<Rightarrow> (u32 \<Rightarrow> fault + unit) \<Rightarrow> (u32 \<Rightarrow> fault + 'r list) \<Rightarrow> 'r virt_array list \<Rightarrow> fault + 'r virt_array list" where
  "realize_virt_arrays available open_store fresh vs =
     (let (space_per_minheight, maximum_space) = unrealized_space (0, 0) vs
      in if space_per_minheight = 0 then Inr vs
         else let avail_mem = available space_per_minheight maximum_space;
                  max_minheights = (if maximum_space \<le> avail_mem then 1000000000
                                    else if avail_mem div space_per_minheight = 0 then 1 else avail_mem div space_per_minheight)
              in realize_arrays open_store fresh max_minheights vs)"

text \<open>\<open>jmemnobs.c\<close>, which this build uses.\<close>

definition jpeg_mem_available :: "u32 \<Rightarrow> u32 \<Rightarrow> u32" where
  "jpeg_mem_available min_bytes_needed max_bytes_needed = max_bytes_needed"

definition jpeg_open_backing_store :: "u32 \<Rightarrow> fault + unit" where
  "jpeg_open_backing_store total_bytes_needed = Inl (ErrExit JERR_NO_BACKING_STORE)"

section \<open>Access\<close>

text \<open>
  The loop over the allocation chunks, \<open>i\<close> and the offset being \<open>long\<close>. The fuel is the height of the buffer
  and one more, since every chunk has a row; \<open>None\<close> would be running out of it.
\<close>

definition chunk_rows :: "'r virt_array \<Rightarrow> int \<Rightarrow> int" where
  "chunk_rows v i =
     (let rows = min (long_of (rowsperchunk v)) (long_of (rows_in_mem v) - i);
          thisrow = long_of (cur_start_row v) + i;
          rows = min rows (long_of (first_undef_row v) - thisrow)
      in min rows (long_of (rows_in_array v) - thisrow))"

primrec io_loop ::
  "('s \<Rightarrow> nat \<Rightarrow> nat \<Rightarrow> 'r list) \<Rightarrow> ('s \<Rightarrow> nat \<Rightarrow> 'r list \<Rightarrow> 's) \<Rightarrow> bool \<Rightarrow> 'r virt_array \<Rightarrow> nat \<Rightarrow> int \<Rightarrow> int \<Rightarrow> 'r list \<times> 's \<Rightarrow> ('r list \<times> 's) option" where
  "io_loop rd wr writing v 0 i file_offset m = None"
| "io_loop rd wr writing v (Suc fuel) i file_offset m =
     (if \<not> i < long_of (rows_in_mem v) then Some m
      else let rows = chunk_rows v i; (buf, s) = m
           in if rows \<le> 0 then Some m
              else io_loop rd wr writing v fuel (i + long_of (rowsperchunk v)) (file_offset + rows)
                (if writing then (buf, wr s (nat file_offset) (take (nat rows) (drop (nat i) buf)))
                 else (take (nat i) buf @ rd s (nat file_offset) (nat rows) @ drop (nat i + nat rows) buf, s)))"

definition do_barray_io ::
  "('s \<Rightarrow> nat \<Rightarrow> nat \<Rightarrow> 'r list) \<Rightarrow> ('s \<Rightarrow> nat \<Rightarrow> 'r list \<Rightarrow> 's) \<Rightarrow> bool \<Rightarrow> 'r virt_array \<Rightarrow> 'r list \<times> 's \<Rightarrow> fault + ('r list \<times> 's)" where
  "do_barray_io rd wr writing v m =
     (case io_loop rd wr writing v (unat (rows_in_mem v) + 1) 0 (long_of (cur_start_row v)) m of
        None \<Rightarrow> Inl RoundsExhausted | Some m \<Rightarrow> Inr m)"

text \<open>Bringing the rows into the window.\<close>

definition move_window ::
  "('s \<Rightarrow> nat \<Rightarrow> nat \<Rightarrow> 'r list) \<Rightarrow> ('s \<Rightarrow> nat \<Rightarrow> 'r list \<Rightarrow> 's) \<Rightarrow> u32 \<Rightarrow> u32 \<Rightarrow> 'r virt_array \<Rightarrow> 'r list \<times> 's \<Rightarrow>
   fault + ('r virt_array \<times> 'r list \<times> 's)" where
  "move_window rd wr start_row end_row v m =
     (if \<not> b_s_open v then Inl (ErrExit JERR_VIRTUAL_BUG)
      else ebind (if dirty v then ebind (do_barray_io rd wr True v m) (\<lambda>m. Inr (v\<lparr>dirty := False\<rparr>, m)) else Inr (v, m))
        (\<lambda>(v, m). let ltemp = long_of end_row - long_of (rows_in_mem v);
                      v = v\<lparr>cur_start_row := (if cur_start_row v < start_row then start_row
                                               else word_of_int (if ltemp < 0 then 0 else ltemp))\<rparr>
          in ebind (do_barray_io rd wr False v m) (\<lambda>m. Inr (v, m))))"

text \<open>Making the rows defined; \<open>zero_row\<close> is a row of zeros.\<close>

definition define_rows ::
  "'r \<Rightarrow> u32 \<Rightarrow> u32 \<Rightarrow> bool \<Rightarrow> 'r virt_array \<Rightarrow> 'r list \<Rightarrow> fault + ('r virt_array \<times> 'r list)" where
  "define_rows zero_row start_row end_row writable v buf =
     (if \<not> first_undef_row v < end_row then Inr (v, buf)
      else if first_undef_row v < start_row \<and> writable then Inl (ErrExit JERR_BAD_VIRTUAL_ACCESS)
      else let undef_row = (if first_undef_row v < start_row then start_row else first_undef_row v);
               v = (if writable then v\<lparr>first_undef_row := end_row\<rparr> else v)
           in if pre_zero v then
                let u = unat (undef_row - cur_start_row v); e = unat (end_row - cur_start_row v)
                in if u < e \<and> length buf < e then Inl OutOfBounds
                   else Inr (v, map (\<lambda>k. if u \<le> k \<and> k < e then zero_row else buf ! k) [0..<length buf])
              else if \<not> writable then Inl (ErrExit JERR_BAD_VIRTUAL_ACCESS) else Inr (v, buf))"

text \<open>The result is the index of the first row accessed in the buffer.\<close>

definition access_virt_barray ::
  "('s \<Rightarrow> nat \<Rightarrow> nat \<Rightarrow> 'r list) \<Rightarrow> ('s \<Rightarrow> nat \<Rightarrow> 'r list \<Rightarrow> 's) \<Rightarrow> 'r \<Rightarrow> u32 \<Rightarrow> u32 \<Rightarrow> bool \<Rightarrow> 'r virt_array \<times> 's \<Rightarrow>
   fault + (nat \<times> 'r virt_array \<times> 's)" where
  "access_virt_barray rd wr zero_row start_row num_rows writable = (\<lambda>(v, s).
     (let end_row = start_row + num_rows
      in case mem_buffer v of
           None \<Rightarrow> Inl (ErrExit JERR_BAD_VIRTUAL_ACCESS)
         | Some buf \<Rightarrow>
             if rows_in_array v < end_row \<or> maxaccess v < num_rows then Inl (ErrExit JERR_BAD_VIRTUAL_ACCESS)
             else ebind (if start_row < cur_start_row v \<or> cur_start_row v + rows_in_mem v < end_row
                         then move_window rd wr start_row end_row v (buf, s) else Inr (v, buf, s))
               (\<lambda>(v, buf, s). ebind (define_rows zero_row start_row end_row writable v buf)
                 (\<lambda>(v, buf). Inr (unat (start_row - cur_start_row v),
                    v\<lparr>mem_buffer := Some buf, dirty := (if writable then True else dirty v)\<rparr>, s)))))"

section \<open>A flat array\<close>

text \<open>What a virtual array promises: an array in memory that knows how far it has been written.\<close>

record 'r flat_array =
  contents :: "'r list"
  defined_to :: nat
  max_rows :: nat
  zeroed :: bool

text \<open>Uses of an accessed strip: reading it, and replacing its rows by a function of them.\<close>

datatype 'r row_op = Read_rows u32 u32 | Modify_rows u32 u32 "'r list \<Rightarrow> 'r list"

definition flat_rows :: "'r \<Rightarrow> 'r flat_array \<Rightarrow> nat \<Rightarrow> nat \<Rightarrow> 'r list" where
  "flat_rows zero_row a start n = map (\<lambda>i. if i < defined_to a then contents a ! i else zero_row) [start..<start + n]"

fun flat_step :: "'r \<Rightarrow> 'r row_op \<Rightarrow> 'r flat_array \<Rightarrow> fault + ('r list \<times> 'r flat_array)" where
  "flat_step zero_row (Read_rows start n) a =
     (if length (contents a) < unat start + unat n \<or> max_rows a < unat n \<or> (\<not> zeroed a \<and> defined_to a < unat start + unat n)
      then Inl (ErrExit JERR_BAD_VIRTUAL_ACCESS)
      else Inr (flat_rows zero_row a (unat start) (unat n), a))"
| "flat_step zero_row (Modify_rows start n g) a =
     (if length (contents a) < unat start + unat n \<or> max_rows a < unat n \<or> defined_to a < unat start
      then Inl (ErrExit JERR_BAD_VIRTUAL_ACCESS)
      else Inr ([], a\<lparr>contents := take (unat start) (contents a) @ g (flat_rows zero_row a (unat start) (unat n)) @ drop (unat start + unat n) (contents a),
                     defined_to := max (defined_to a) (unat start + unat n)\<rparr>))"

fun virt_step ::
  "('s \<Rightarrow> nat \<Rightarrow> nat \<Rightarrow> 'r list) \<Rightarrow> ('s \<Rightarrow> nat \<Rightarrow> 'r list \<Rightarrow> 's) \<Rightarrow> 'r \<Rightarrow> 'r row_op \<Rightarrow> 'r virt_array \<times> 's \<Rightarrow>
   fault + ('r list \<times> 'r virt_array \<times> 's)" where
  "virt_step rd wr zero_row (Read_rows start n) st =
     ebind (access_virt_barray rd wr zero_row start n False st)
       (\<lambda>(k, v, s). Inr (take (unat n) (drop k (the (mem_buffer v))), v, s))"
| "virt_step rd wr zero_row (Modify_rows start n g) st =
     ebind (access_virt_barray rd wr zero_row start n True st)
       (\<lambda>(k, v, s). let buf = the (mem_buffer v)
          in Inr ([], v\<lparr>mem_buffer := Some (take k buf @ g (take (unat n) (drop k buf)) @ drop (k + unat n) buf)\<rparr>, s))"

text \<open>A strip is replaced by one of the same height that does not depend on rows that were never defined.\<close>

definition op_ok :: "'r row_op \<Rightarrow> 'r flat_array \<Rightarrow> bool" where
  "op_ok r a = (case r of Read_rows start n \<Rightarrow> unat start + unat n < 2 ^ 32
     | Modify_rows start n g \<Rightarrow> unat start + unat n < 2 ^ 32 \<and> (\<forall>rs. length (g rs) = length rs) \<and>
         (zeroed a \<or> (\<forall>xs ys. length xs = length ys \<longrightarrow> take (defined_to a - unat start) xs = take (defined_to a - unat start) ys \<longrightarrow> g xs = g ys)))"

definition is_store :: "('s \<Rightarrow> nat \<Rightarrow> nat \<Rightarrow> 'r list) \<Rightarrow> ('s \<Rightarrow> nat \<Rightarrow> 'r list \<Rightarrow> 's) \<Rightarrow> bool" where
  "is_store rd wr \<longleftrightarrow> (\<forall>s a n. rd s a n = map (\<lambda>k. hd (rd s (a + k) 1)) [0..<n]) \<and>
     (\<forall>s a rs i. hd (rd (wr s a rs) i 1) = (if a \<le> i \<and> i < a + length rs then rs ! (i - a) else hd (rd s i 1)))"

section \<open>The transfer loop\<close>

lemma long_of_small: "unat w < 2 ^ 31 \<Longrightarrow> long_of w = int (unat w)"
proof -
  assume a: "unat w < 2 ^ 31"
  have "int (unat w) < int (2 ^ 31)" using a by (simp only: of_nat_less_iff)
  then have "int (unat w) < 2 ^ 31" by (simp only: of_nat_power of_nat_numeral)
  moreover have "uint w = int (unat w)" by simp
  ultimately show ?thesis unfolding long_of_def by (subst as_long_small) linarith+
qed

text \<open>How many rows of the window are defined.\<close>

definition defined_rows :: "'r virt_array \<Rightarrow> nat" where
  "defined_rows v = min (min (unat (first_undef_row v)) (unat (rows_in_array v))) (unat (cur_start_row v) + unat (rows_in_mem v)) - unat (cur_start_row v)"

definition sizes_ok :: "'r virt_array \<Rightarrow> bool" where
  "sizes_ok v \<longleftrightarrow> 0 < unat (rowsperchunk v) \<and> unat (rowsperchunk v) < 2 ^ 31 \<and> unat (rows_in_mem v) < 2 ^ 31 \<and>
     unat (cur_start_row v) < 2 ^ 31 \<and> unat (first_undef_row v) < 2 ^ 31 \<and> unat (rows_in_array v) < 2 ^ 31"

lemma io_step:
  assumes "sizes_ok v" "i < unat (rows_in_mem v)"
  defines "rows \<equiv> min (unat (rowsperchunk v)) (defined_rows v - i)"
  shows "io_loop rd wr writing v (Suc fuel) (int i) file_offset (buf, s) =
     (if defined_rows v \<le> i then Some (buf, s)
      else io_loop rd wr writing v fuel (int (i + unat (rowsperchunk v))) (file_offset + int rows)
        (if writing then (buf, wr s (nat file_offset) (take rows (drop i buf)))
         else (take i buf @ rd s (nat file_offset) rows @ drop (i + rows) buf, s)))"
proof -
  note s = assms(1) [unfolded sizes_ok_def]
  define p where "p = unat (rowsperchunk v)"
  define m where "m = unat (rows_in_mem v)"
  define c where "c = unat (cur_start_row v)"
  define u where "u = unat (first_undef_row v)"
  define h where "h = unat (rows_in_array v)"
  note defs = p_def [symmetric] m_def [symmetric] c_def [symmetric] u_def [symmetric] h_def [symmetric]
  have l: "long_of (rowsperchunk v) = int p" "long_of (rows_in_mem v) = int m" "long_of (first_undef_row v) = int u"
    "long_of (cur_start_row v) = int c" "long_of (rows_in_array v) = int h"
    using s by (simp_all only: long_of_small defs)
  have d: "defined_rows v = min (min u h) (c + m) - c" unfolding defined_rows_def defs ..
  have p: "0 < p" "i < m" using s assms(2) unfolding defs by simp_all
  show ?thesis
  proof (cases "defined_rows v \<le> i")
    case True
    then have "chunk_rows v (int i) \<le> 0" using p unfolding chunk_rows_def l Let_def d by linarith
    then show ?thesis using True by simp
  next
    case False
    then have "chunk_rows v (int i) = int rows" "0 < rows"
      using p unfolding chunk_rows_def l Let_def d rows_def defs by linarith+
    then show ?thesis using False p by (simp add: l p_def [symmetric])
  qed
qed

lemma io_done: "sizes_ok v \<Longrightarrow> \<not> i < unat (rows_in_mem v) \<Longrightarrow> io_loop rd wr writing v (Suc fuel) (int i) file_offset m = Some m"
proof -
  assume a: "sizes_ok v" "\<not> i < unat (rows_in_mem v)"
  then have "\<not> int i < long_of (rows_in_mem v)" unfolding sizes_ok_def by (simp only: long_of_small of_nat_less_iff not_False_eq_True)
  then show ?thesis by simp
qed

declare io_loop.simps(2) [simp del]

lemma io_stop:
  assumes "sizes_ok v" "\<not> (i < unat (rows_in_mem v) \<and> i < defined_rows v)"
  shows "io_loop rd wr writing v (Suc fuel) (int i) off (buf, s) = Some (buf, s)"
  using io_done [OF assms(1), of i] io_step [OF assms(1), of i] assms(2) by (cases "i < unat (rows_in_mem v)") simp_all

abbreviation store_row :: "('s \<Rightarrow> nat \<Rightarrow> nat \<Rightarrow> 'r list) \<Rightarrow> 's \<Rightarrow> nat \<Rightarrow> 'r" where
  "store_row rd s i \<equiv> hd (rd s i 1)"

lemma store_laws:
  assumes "is_store rd wr"
  shows "length (rd s a n) = n" "k < n \<Longrightarrow> rd s a n ! k = store_row rd s (a + k)"
    "store_row rd (wr s a rs) i = (if a \<le> i \<and> i < a + length rs then rs ! (i - a) else store_row rd s i)"
proof -
  have r: "rd s a n = map (\<lambda>k. store_row rd s (a + k)) [0..<n]" using assms unfolding is_store_def by blast
  show "length (rd s a n) = n" by (subst r) simp
  show "k < n \<Longrightarrow> rd s a n ! k = store_row rd s (a + k)" by (subst r) simp
  show "store_row rd (wr s a rs) i = (if a \<le> i \<and> i < a + length rs then rs ! (i - a) else store_row rd s i)"
    using assms unfolding is_store_def by blast
qed

lemma defined_rows_le: "defined_rows v \<le> unat (rows_in_mem v)"
  by (simp add: defined_rows_def)

lemma io_write:
  assumes "is_store rd wr" "sizes_ok v" "length buf = unat (rows_in_mem v)"
    and "unat (rows_in_mem v) - i < fuel" "i \<le> defined_rows v \<Longrightarrow> off = int (unat (cur_start_row v) + i)"
  shows "\<exists>s'. io_loop rd wr True v fuel (int i) off (buf, s) = Some (buf, s') \<and>
    (\<forall>j. store_row rd s' j = (if unat (cur_start_row v) + i \<le> j \<and> j < unat (cur_start_row v) + defined_rows v
       then buf ! (j - unat (cur_start_row v)) else store_row rd s j))"
  using assms(4,5)
proof (induction fuel arbitrary: i off s)
  case (Suc fuel)
  define c where "c = unat (cur_start_row v)"
  define N where "N = defined_rows v"
  define p where "p = unat (rowsperchunk v)"
  have N: "N \<le> length buf" using defined_rows_le assms(3) by (simp add: N_def)
  have p: "0 < p" using assms(2) by (simp add: sizes_ok_def p_def)
  show ?case
  proof (cases "i < unat (rows_in_mem v) \<and> i < N")
    case False
    then have "io_loop rd wr True v (Suc fuel) (int i) off (buf, s) = Some (buf, s)"
      using io_stop [OF assms(2), of i] by (simp add: N_def)
    then show ?thesis using False N assms(3) by (intro exI [of _ s]) (auto simp: N_def)
  next
    case True
    define rows where "rows = min p (N - i)"
    define s1 where "s1 = wr s (c + i) (take rows (drop i buf))"
    have off: "off = int (c + i)" using Suc.prems(2) True by (simp add: c_def N_def)
    have step: "io_loop rd wr True v (Suc fuel) (int i) off (buf, s) = io_loop rd wr True v fuel (int (i + p)) (off + int rows) (buf, s1)"
      using io_step [OF assms(2), of i rd wr True fuel off buf s] True by (simp add: off s1_def rows_def p_def N_def nat_int_add)
    have "unat (rows_in_mem v) - (i + p) < fuel" using Suc.prems(1) p True by linarith
    moreover have "off + int rows = int (c + (i + p))" if "i + p \<le> N" using that by (simp add: off rows_def)
    ultimately obtain s' where s': "io_loop rd wr True v fuel (int (i + p)) (off + int rows) (buf, s1) = Some (buf, s')"
      "\<And>j. store_row rd s' j = (if c + (i + p) \<le> j \<and> j < c + N then buf ! (j - c) else store_row rd s1 j)"
      using Suc.IH [of "i + p" "off + int rows" s1] by (auto simp: c_def N_def)
    have l: "length (take rows (drop i buf)) = rows" using N True by (simp add: rows_def)
    have "store_row rd s' j = (if c + i \<le> j \<and> j < c + N then buf ! (j - c) else store_row rd s j)" for j
    proof -
      have "store_row rd s1 j = (if c + i \<le> j \<and> j < c + i + rows then buf ! (j - c) else store_row rd s j)"
      proof (cases "c + i \<le> j \<and> j < c + i + rows")
        case inside: True
        then have "i + (j - (c + i)) = j - c" "j - (c + i) < rows" "i \<le> length buf" using N True by linarith+
        then have "take rows (drop i buf) ! (j - (c + i)) = buf ! (j - c)" by simp
        then show ?thesis using inside unfolding s1_def store_laws(3) [OF assms(1)] l by simp
      next
        case False
        then show ?thesis unfolding s1_def store_laws(3) [OF assms(1)] l by (simp only: if_False)
      qed
      then show ?thesis unfolding s'(2) using True by (auto simp: rows_def)
    qed
    then show ?thesis using step s'(1) by (auto simp: c_def N_def)
  qed
qed simp

lemma io_read:
  assumes "is_store rd wr" "sizes_ok v" "length buf = unat (rows_in_mem v)"
    and "unat (rows_in_mem v) - i < fuel" "i \<le> defined_rows v \<Longrightarrow> off = int (unat (cur_start_row v) + i)"
  shows "\<exists>buf'. io_loop rd wr False v fuel (int i) off (buf, s) = Some (buf', s) \<and> length buf' = unat (rows_in_mem v) \<and>
    (\<forall>k < unat (rows_in_mem v). buf' ! k = (if i \<le> k \<and> k < defined_rows v then store_row rd s (unat (cur_start_row v) + k) else buf ! k))"
  using assms(3-5)
proof (induction fuel arbitrary: i off buf)
  case (Suc fuel)
  define c where "c = unat (cur_start_row v)"
  define N where "N = defined_rows v"
  define p where "p = unat (rowsperchunk v)"
  have N: "N \<le> length buf" using defined_rows_le Suc.prems(1) by (simp add: N_def)
  have p: "0 < p" using assms(2) by (simp add: sizes_ok_def p_def)
  show ?case
  proof (cases "i < unat (rows_in_mem v) \<and> i < N")
    case False
    then have "io_loop rd wr False v (Suc fuel) (int i) off (buf, s) = Some (buf, s)"
      using io_stop [OF assms(2), of i] by (simp add: N_def)
    then show ?thesis using False N Suc.prems(1) by (intro exI [of _ buf]) (auto simp: N_def)
  next
    case True
    define rows where "rows = min p (N - i)"
    define b1 where "b1 = take i buf @ rd s (c + i) rows @ drop (i + rows) buf"
    have off: "off = int (c + i)" using Suc.prems(3) True by (simp add: c_def N_def)
    have step: "io_loop rd wr False v (Suc fuel) (int i) off (buf, s) = io_loop rd wr False v fuel (int (i + p)) (off + int rows) (b1, s)"
      using io_step [OF assms(2), of i rd wr False fuel off buf s] True by (simp add: off b1_def rows_def p_def N_def nat_int_add)
    have ir: "i + rows \<le> length buf" using N True unfolding rows_def by linarith
    have b1: "length b1 = unat (rows_in_mem v)" using ir Suc.prems(1) store_laws(1) [OF assms(1)] by (simp add: b1_def)
    have b1k: "b1 ! k = (if i \<le> k \<and> k < i + rows then store_row rd s (c + k) else buf ! k)" if "k < length buf" for k
      using ir that store_laws(1,2) [OF assms(1)] by (auto simp: b1_def nth_append)
    have "unat (rows_in_mem v) - (i + p) < fuel" using Suc.prems(2) p True by linarith
    moreover have "off + int rows = int (c + (i + p))" if "i + p \<le> N" using that by (simp add: off rows_def)
    ultimately obtain buf' where b': "io_loop rd wr False v fuel (int (i + p)) (off + int rows) (b1, s) = Some (buf', s)" "length buf' = unat (rows_in_mem v)"
      "\<And>k. k < unat (rows_in_mem v) \<Longrightarrow> buf' ! k = (if i + p \<le> k \<and> k < N then store_row rd s (c + k) else b1 ! k)"
      using Suc.IH [of b1 "i + p" "off + int rows"] b1 by (auto simp: c_def N_def)
    have "buf' ! k = (if i \<le> k \<and> k < N then store_row rd s (c + k) else buf ! k)" if "k < unat (rows_in_mem v)" for k
      using b'(3) [OF that] b1k [of k] that Suc.prems(1) True by (auto simp: rows_def)
    then show ?thesis using step b'(1,2) by (auto simp: c_def N_def)
  qed
qed simp

section \<open>The window\<close>

definition represents :: "('s \<Rightarrow> nat \<Rightarrow> nat \<Rightarrow> 'r list) \<Rightarrow> 'r virt_array \<Rightarrow> 'r list \<Rightarrow> 's \<Rightarrow> 'r flat_array \<Rightarrow> bool" where
  "represents rd v buf s a \<longleftrightarrow>
     length buf = unat (rows_in_mem v) \<and> length (contents a) = unat (rows_in_array v) \<and> max_rows a = unat (maxaccess v) \<and>
     zeroed a = pre_zero v \<and> defined_to a = unat (first_undef_row v) \<and> defined_to a \<le> length (contents a) \<and>
     unat (rows_in_array v) < 2 ^ 31 \<and> unat (rows_in_mem v) < 2 ^ 31 \<and> unat (cur_start_row v) \<le> unat (rows_in_array v) \<and>
     (if b_s_open v then 0 < unat (rowsperchunk v) \<and> unat (rowsperchunk v) < 2 ^ 31 \<and> unat (maxaccess v) \<le> unat (rows_in_mem v)
      else rows_in_mem v = rows_in_array v \<and> cur_start_row v = 0) \<and>
     (\<forall>i < defined_to a. (if unat (cur_start_row v) \<le> i \<and> i < unat (cur_start_row v) + unat (rows_in_mem v)
        then buf ! (i - unat (cur_start_row v)) else store_row rd s i) = contents a ! i) \<and>
     (b_s_open v \<and> \<not> dirty v \<longrightarrow> (\<forall>i < defined_to a. store_row rd s i = contents a ! i))"

lemma flush_ok:
  assumes "is_store rd wr" "represents rd v buf s a" "b_s_open v"
  obtains s1 where "(if dirty v then ebind (do_barray_io rd wr True v (buf, s)) (\<lambda>m. Inr (v\<lparr>dirty := False\<rparr>, m)) else Inr (v, buf, s)) =
      Inr (v\<lparr>dirty := False\<rparr>, buf, s1)"
    "\<And>i. i < defined_to a \<Longrightarrow> store_row rd s1 i = contents a ! i"
proof (cases "dirty v")
  case False
  moreover have "v\<lparr>dirty := False\<rparr> = v" using False by simp
  ultimately show ?thesis using that [of s] assms(2,3) by (simp add: represents_def)
next
  case True
  note r = assms(2) [unfolded represents_def]
  have sz: "sizes_ok v" using r assms(3) unfolding sizes_ok_def by auto
  have "long_of (cur_start_row v) = int (unat (cur_start_row v) + 0)" using sz unfolding sizes_ok_def by (simp only: long_of_small add_0_right)
  then obtain s1 where s1: "io_loop rd wr True v (unat (rows_in_mem v) + 1) (int 0) (long_of (cur_start_row v)) (buf, s) = Some (buf, s1)"
    "\<And>j. store_row rd s1 j = (if unat (cur_start_row v) + 0 \<le> j \<and> j < unat (cur_start_row v) + defined_rows v
       then buf ! (j - unat (cur_start_row v)) else store_row rd s j)"
    using io_write [OF assms(1) sz, of buf 0 "unat (rows_in_mem v) + 1" "long_of (cur_start_row v)" s] r by auto
  have "store_row rd s1 i = contents a ! i" if "i < defined_to a" for i
  proof -
    have "(unat (cur_start_row v) \<le> i \<and> i < unat (cur_start_row v) + defined_rows v) =
        (unat (cur_start_row v) \<le> i \<and> i < unat (cur_start_row v) + unat (rows_in_mem v))"
      using r that unfolding defined_rows_def by linarith
    then show ?thesis using r that unfolding s1(2) by simp
  qed
  moreover have "(if dirty v then ebind (do_barray_io rd wr True v (buf, s)) (\<lambda>m. Inr (v\<lparr>dirty := False\<rparr>, m)) else Inr (v, buf, s)) =
      Inr (v\<lparr>dirty := False\<rparr>, buf, s1)"
    using True s1(1) by (simp add: do_barray_io_def)
  ultimately show ?thesis using that by blast
qed

lemma load_ok:
  assumes "is_store rd wr" "represents rd v buf s a" "b_s_open v" "\<And>i. i < defined_to a \<Longrightarrow> store_row rd s1 i = contents a ! i"
    and "unat start \<le> unat (rows_in_array v)" "w = v\<lparr>dirty := False, cur_start_row := start\<rparr>"
  obtains buf1 where "do_barray_io rd wr False w (buf, s1) = Inr (buf1, s1)" "represents rd w buf1 s1 a"
proof -
  note r = assms(2) [unfolded represents_def]
  have w: "rows_in_mem w = rows_in_mem v" "rows_in_array w = rows_in_array v" "rowsperchunk w = rowsperchunk v" "first_undef_row w = first_undef_row v"
    "maxaccess w = maxaccess v" "pre_zero w = pre_zero v" "b_s_open w = b_s_open v" "cur_start_row w = start"
    by (simp_all add: assms(6))
  have sz: "sizes_ok w" using r assms(3,5) unfolding sizes_ok_def w by auto
  have "long_of (cur_start_row w) = int (unat (cur_start_row w) + 0)" using sz unfolding sizes_ok_def by (simp only: long_of_small add_0_right)
  then obtain buf1 where b1: "io_loop rd wr False w (unat (rows_in_mem w) + 1) (int 0) (long_of (cur_start_row w)) (buf, s1) = Some (buf1, s1)"
    "length buf1 = unat (rows_in_mem w)"
    "\<And>k. k < unat (rows_in_mem w) \<Longrightarrow> buf1 ! k = (if 0 \<le> k \<and> k < defined_rows w then store_row rd s1 (unat (cur_start_row w) + k) else buf ! k)"
    using io_read [OF assms(1) sz, of buf 0 "unat (rows_in_mem w) + 1" "long_of (cur_start_row w)" s1] r w by auto
  have "(if unat start \<le> i \<and> i < unat start + unat (rows_in_mem v) then buf1 ! (i - unat start) else store_row rd s1 i) = contents a ! i"
    if i: "i < defined_to a" for i
  proof (cases "unat start \<le> i \<and> i < unat start + unat (rows_in_mem v)")
    case True
    then have k: "i - unat start < defined_rows w" "i - unat start < unat (rows_in_mem w)" "unat start + (i - unat start) = i"
      using r i unfolding defined_rows_def w by linarith+
    have "buf1 ! (i - unat start) = store_row rd s1 (unat (cur_start_row w) + (i - unat start))" using b1(3) [OF k(2)] k(1) by simp
    then show ?thesis using True assms(4) [OF i] unfolding w(8) k(3) by simp
  next
    case False
    then show ?thesis using assms(4) [OF i] by auto
  qed
  then have "represents rd w buf1 s1 a"
    using r b1(2) assms(3-5) unfolding represents_def w by simp
  moreover have "do_barray_io rd wr False w (buf, s1) = Inr (buf1, s1)" using b1(1) by (simp add: do_barray_io_def)
  ultimately show ?thesis using that by blast
qed

text \<open>After the first part of an access the window covers the rows and the same array is represented.\<close>

lemma window_ok:
  assumes st: "is_store rd wr" and r: "represents rd v buf s a"
    and e: "unat (start + n) = unat start + unat n" and in_array: "unat start + unat n \<le> length (contents a)" "unat n \<le> max_rows a"
  obtains v1 buf1 s1 where
    "(if start < cur_start_row v \<or> cur_start_row v + rows_in_mem v < start + n then move_window rd wr start (start + n) v (buf, s) else Inr (v, buf, s)) =
       Inr (v1, buf1, s1)"
    "represents rd v1 buf1 s1 a" "unat (cur_start_row v1) \<le> unat start" "unat start + unat n \<le> unat (cur_start_row v1) + unat (rows_in_mem v1)"
proof -
  note rep = r [unfolded represents_def]
  have win: "unat (cur_start_row v + rows_in_mem v) = unat (cur_start_row v) + unat (rows_in_mem v)"
    using rep by (subst unat_add_lem [THEN iffD1]) auto
  show ?thesis
  proof (cases "start < cur_start_row v \<or> cur_start_row v + rows_in_mem v < start + n")
    case False
    then have "unat (cur_start_row v) \<le> unat start" "unat start + unat n \<le> unat (cur_start_row v) + unat (rows_in_mem v)"
      by (simp_all add: word_less_nat_alt win e)
    then show ?thesis using that [of v buf s] False r by simp
  next
    case True
    have outside: "unat start < unat (cur_start_row v) \<or> unat (cur_start_row v) + unat (rows_in_mem v) < unat start + unat n"
      using True by (simp add: word_less_nat_alt win e)
    have b: "b_s_open v"
    proof (rule ccontr)
      assume "\<not> b_s_open v"
      then have "unat (cur_start_row v) = 0" "unat (rows_in_mem v) = length (contents a)" using rep by simp_all
      then show False using outside in_array(1) by simp
    qed
    have m: "unat n \<le> unat (rows_in_mem v)" "unat (rows_in_mem v) < 2 ^ 31" "length (contents a) < 2 ^ 31" "unat (rows_in_array v) = length (contents a)"
      using rep b in_array(2) by simp_all
    obtain s1 where s1: "(if dirty v then ebind (do_barray_io rd wr True v (buf, s)) (\<lambda>m. Inr (v\<lparr>dirty := False\<rparr>, m)) else Inr (v, buf, s)) =
        Inr (v\<lparr>dirty := False\<rparr>, buf, s1)" "\<And>i. i < defined_to a \<Longrightarrow> store_row rd s1 i = contents a ! i"
      using flush_ok [OF st r b] by blast
    define lt where "lt = long_of (start + n) - long_of (rows_in_mem v)"
    define c where "c = (if cur_start_row v < start then start else word_of_int (if lt < 0 then 0 else lt))"
    have lt: "lt = int (unat start + unat n) - int (unat (rows_in_mem v))"
      using in_array(1) m unfolding lt_def by (simp only: long_of_small e)
    have c: "unat c \<le> unat start" "unat start + unat n \<le> unat c + unat (rows_in_mem v)" "unat c \<le> unat (rows_in_array v)"
    proof -
      have "unat c \<le> unat start \<and> unat start + unat n \<le> unat c + unat (rows_in_mem v)"
      proof (cases "cur_start_row v < start")
        case True
        then show ?thesis using m by (simp add: c_def)
      next
        case False
        then have "unat start \<le> unat (cur_start_row v)" by (simp add: word_less_nat_alt)
        then have "unat start < unat (cur_start_row v)" using outside m(1) by linarith
        have "unat c = nat lt"
        proof (cases "lt < 0")
          case False
          have "length (contents a) < 2147483648" using m(3) by simp
          then have "0 \<le> lt" "lt < 4294967296" using False lt in_array(1) by linarith+
          then show ?thesis using \<open>\<not> cur_start_row v < start\<close> by (simp add: c_def unsigned_of_int take_bit_int_eq_self)
        qed (simp add: c_def \<open>\<not> cur_start_row v < start\<close>)
        then show ?thesis using lt m(1) by linarith
      qed
      then show "unat c \<le> unat start" "unat start + unat n \<le> unat c + unat (rows_in_mem v)" "unat c \<le> unat (rows_in_array v)"
        using in_array(1) m(4) by linarith+
    qed
    obtain buf1 where b1: "do_barray_io rd wr False (v\<lparr>dirty := False, cur_start_row := c\<rparr>) (buf, s1) = Inr (buf1, s1)"
      "represents rd (v\<lparr>dirty := False, cur_start_row := c\<rparr>) buf1 s1 a"
      using load_ok [OF st r b s1(2) c(3) refl] by blast
    have fields: "cur_start_row (v\<lparr>dirty := False\<rparr>) = cur_start_row v" "rows_in_mem (v\<lparr>dirty := False\<rparr>) = rows_in_mem v" by simp_all
    have "move_window rd wr start (start + n) v (buf, s) = Inr (v\<lparr>dirty := False, cur_start_row := c\<rparr>, buf1, s1)"
      by (simp only: move_window_def s1(1) b ebind_simps split Let_def fields simp_thms if_False
          lt_def [symmetric] c_def [symmetric] b1(1))
    then show ?thesis using that [of "v\<lparr>dirty := False, cur_start_row := c\<rparr>" buf1 s1] True b1(2) c by simp
  qed
qed

section \<open>Defining the rows\<close>

text \<open>The rows in the window are those of the flat array, the undefined ones zero if they were made so.\<close>

lemma define_ok:
  assumes r: "represents rd v buf s a" and e: "unat (start + n) = unat start + unat n" and in_array: "unat start + unat n \<le> length (contents a)"
    and win: "unat (cur_start_row v) \<le> unat start" "unat start + unat n \<le> unat (cur_start_row v) + unat (rows_in_mem v)"
    and ok: "writable \<longrightarrow> unat start \<le> defined_to a" "\<not> writable \<longrightarrow> zeroed a \<or> unat start + unat n \<le> defined_to a"
  obtains buf1 where
    "define_rows zero_row start (start + n) writable v buf =
       Inr (if writable then v\<lparr>first_undef_row := (if first_undef_row v < start + n then start + n else first_undef_row v)\<rparr> else v, buf1)"
    "length buf1 = length buf" "\<And>k. unat (cur_start_row v) + k < defined_to a \<Longrightarrow> k < length buf \<Longrightarrow> buf1 ! k = buf ! k"
    "\<And>i. unat start \<le> i \<Longrightarrow> i < unat start + unat n \<Longrightarrow> zeroed a \<or> i < defined_to a \<Longrightarrow>
       buf1 ! (i - unat (cur_start_row v)) = (if i < defined_to a then contents a ! i else zero_row)"
proof -
  note rep = r [unfolded represents_def]
  define c where "c = unat (cur_start_row v)"
  have def_buf: "buf ! (i - c) = contents a ! i" if "i < defined_to a" "unat start \<le> i" "i < unat start + unat n" for i
  proof -
    have "c \<le> i" "i < c + unat (rows_in_mem v)" using that win unfolding c_def by linarith+
    then show ?thesis using rep that(1) unfolding c_def [symmetric] by force
  qed
  show ?thesis
  proof (cases "first_undef_row v < start + n")
    case False
    then have "unat start + unat n \<le> defined_to a" using rep by (simp add: word_less_nat_alt e)
    then show ?thesis using that [of buf] False def_buf by (auto simp: define_rows_def c_def)
  next
    case True
    then have u: "defined_to a < unat start + unat n" using rep by (simp add: word_less_nat_alt e)
    define w where "w = (if writable then v\<lparr>first_undef_row := start + n\<rparr> else v)"
    define und where "und = (if first_undef_row v < start then start else first_undef_row v)"
    have und: "unat und = max (unat start) (defined_to a)" using rep by (simp add: und_def word_less_nat_alt max_def)
    have nw: "\<not> (first_undef_row v < start \<and> writable)" using ok(1) rep by (auto simp: word_less_nat_alt)
    have w: "cur_start_row w = cur_start_row v" "pre_zero w = pre_zero v" by (simp_all add: w_def)
    show ?thesis
    proof (cases "pre_zero v")
      case pz: True
      define buf1 where "buf1 = map (\<lambda>k. if unat und - c \<le> k \<and> k < unat start + unat n - c then zero_row else buf ! k) [0..<length buf]"
      have le: "unat (cur_start_row v) \<le> unat und" "unat (cur_start_row v) \<le> unat (start + n)" using win(1) und by (simp_all add: e)
      have su: "unat (und - cur_start_row v) = unat und - c" "unat (start + n - cur_start_row v) = unat start + unat n - c"
        using le by (simp_all add: unat_sub_if' e c_def)
      have lb: "unat start + unat n - c \<le> length buf" using rep win(2) unfolding c_def by linarith
      have dr: "define_rows zero_row start (start + n) writable v buf = Inr (w, buf1)"
        using True nw pz lb unfolding define_rows_def und_def [symmetric] w_def [symmetric] Let_def w su buf1_def by auto
      show ?thesis
      proof (rule that [of buf1])
        show "define_rows zero_row start (start + n) writable v buf =
          Inr (if writable then v\<lparr>first_undef_row := (if first_undef_row v < start + n then start + n else first_undef_row v)\<rparr> else v, buf1)"
          using dr True by (simp add: w_def)
        show "length buf1 = length buf" by (simp add: buf1_def)
        show "buf1 ! k = buf ! k" if "unat (cur_start_row v) + k < defined_to a" "k < length buf" for k
          using that und by (auto simp: buf1_def c_def)
        fix i assume i: "unat start \<le> i" "i < unat start + unat n"
        have k: "i - c < length buf" using i win rep unfolding c_def by linarith
        show "buf1 ! (i - unat (cur_start_row v)) = (if i < defined_to a then contents a ! i else zero_row)"
        proof (cases "i < defined_to a")
          case True
          have "\<not> unat und - c \<le> i - c" using True i win(1) und unfolding c_def by linarith
          then show ?thesis using def_buf [OF True i] k True by (simp add: buf1_def c_def [symmetric])
        next
          case False
          have "unat und - c \<le> i - c \<and> i - c < unat start + unat n - c" using False i win(1) und unfolding c_def by linarith
          then show ?thesis using k False by (simp add: buf1_def c_def [symmetric])
        qed
      qed
    next
      case False
      then have "writable" using ok(2) u rep by auto
      then have "define_rows zero_row start (start + n) writable v buf = Inr (w, buf)"
        using True nw False by (simp add: define_rows_def w_def)
      then show ?thesis using that [of buf] True False rep def_buf by (auto simp: w_def c_def)
    qed
  qed
qed

section \<open>One access\<close>

lemma represents_buf:
  assumes "represents rd v buf s a" "length buf1 = length buf"
    and "\<And>k. unat (cur_start_row v) + k < defined_to a \<Longrightarrow> k < length buf \<Longrightarrow> buf1 ! k = buf ! k"
  shows "represents rd v buf1 s a"
proof -
  note rep = assms(1) [unfolded represents_def]
  have "buf1 ! (i - unat (cur_start_row v)) = buf ! (i - unat (cur_start_row v))"
    if "i < defined_to a" "unat (cur_start_row v) \<le> i" "i < unat (cur_start_row v) + unat (rows_in_mem v)" for i
    using that rep by (intro assms(3)) simp_all
  then show ?thesis using rep assms(2) unfolding represents_def by auto
qed

lemma access_ok:
  assumes st: "is_store rd wr" and mb: "mem_buffer v = Some buf" and r: "represents rd v buf s a" and e: "unat (start + n) = unat start + unat n"
    and in_array: "unat start + unat n \<le> length (contents a)" "unat n \<le> max_rows a"
    and ok: "writable \<longrightarrow> unat start \<le> defined_to a" "\<not> writable \<longrightarrow> zeroed a \<or> unat start + unat n \<le> defined_to a"
  obtains w buf1 s1 where
    "access_virt_barray rd wr zero_row start n writable (v, s) =
       Inr (unat start - unat (cur_start_row w),
         (if writable then w\<lparr>first_undef_row := (if first_undef_row w < start + n then start + n else first_undef_row w), mem_buffer := Some buf1, dirty := True\<rparr>
          else w\<lparr>mem_buffer := Some buf1\<rparr>), s1)"
    "represents rd w buf1 s1 a" "unat (cur_start_row w) \<le> unat start" "unat start + unat n \<le> unat (cur_start_row w) + unat (rows_in_mem w)"
    "\<And>i. unat start \<le> i \<Longrightarrow> i < unat start + unat n \<Longrightarrow> zeroed a \<or> i < defined_to a \<Longrightarrow>
       buf1 ! (i - unat (cur_start_row w)) = (if i < defined_to a then contents a ! i else zero_row)"
proof -
  note rep = r [unfolded represents_def]
  have checks: "\<not> (rows_in_array v < start + n \<or> maxaccess v < n)" using rep in_array by (simp add: word_less_nat_alt e)
  obtain w buf0 s1 where w:
    "(if start < cur_start_row v \<or> cur_start_row v + rows_in_mem v < start + n then move_window rd wr start (start + n) v (buf, s) else Inr (v, buf, s)) =
       Inr (w, buf0, s1)"
    "represents rd w buf0 s1 a" "unat (cur_start_row w) \<le> unat start" "unat start + unat n \<le> unat (cur_start_row w) + unat (rows_in_mem w)"
    using window_ok [OF st r e in_array] by blast
  obtain buf1 where b1: "define_rows zero_row start (start + n) writable w buf0 =
       Inr (if writable then w\<lparr>first_undef_row := (if first_undef_row w < start + n then start + n else first_undef_row w)\<rparr> else w, buf1)"
    "length buf1 = length buf0" "\<And>k. unat (cur_start_row w) + k < defined_to a \<Longrightarrow> k < length buf0 \<Longrightarrow> buf1 ! k = buf0 ! k"
    "\<And>i. unat start \<le> i \<Longrightarrow> i < unat start + unat n \<Longrightarrow> zeroed a \<or> i < defined_to a \<Longrightarrow>
       buf1 ! (i - unat (cur_start_row w)) = (if i < defined_to a then contents a ! i else zero_row)"
    using define_ok [OF w(2) e in_array(1) w(3,4) ok] by blast
  have k: "unat (start - cur_start_row w) = unat start - unat (cur_start_row w)" using w(3) by (simp add: unat_sub_if')
  have "access_virt_barray rd wr zero_row start n writable (v, s) =
       Inr (unat start - unat (cur_start_row w),
         (if writable then w\<lparr>first_undef_row := (if first_undef_row w < start + n then start + n else first_undef_row w), mem_buffer := Some buf1, dirty := True\<rparr>
          else w\<lparr>mem_buffer := Some buf1\<rparr>), s1)"
    using checks by (simp add: access_virt_barray_def Let_def mb w(1) b1(1) k)
  then show ?thesis using that [of w buf1 s1] represents_buf [OF w(2) b1(2,3)] w(3,4) b1(4) by blast
qed

lemma access_refused:
  assumes st: "is_store rd wr" and mb: "mem_buffer v = Some buf" and r: "represents rd v buf s a" and e: "unat (start + n) = unat start + unat n"
    and no: "length (contents a) < unat start + unat n \<or> max_rows a < unat n \<or>
      (if writable then defined_to a < unat start else \<not> zeroed a \<and> defined_to a < unat start + unat n)"
  shows "access_virt_barray rd wr zero_row start n writable (v, s) = Inl (ErrExit JERR_BAD_VIRTUAL_ACCESS)"
proof (cases "length (contents a) < unat start + unat n \<or> max_rows a < unat n")
  case True
  then have "rows_in_array v < start + n \<or> maxaccess v < n" using r by (auto simp: represents_def word_less_nat_alt e)
  then show ?thesis by (simp add: access_virt_barray_def Let_def mb)
next
  case False
  then have in_array: "unat start + unat n \<le> length (contents a)" "unat n \<le> max_rows a" by simp_all
  have checks: "\<not> (rows_in_array v < start + n \<or> maxaccess v < n)" using r in_array by (simp add: represents_def word_less_nat_alt e)
  obtain w buf0 s1 where w:
    "(if start < cur_start_row v \<or> cur_start_row v + rows_in_mem v < start + n then move_window rd wr start (start + n) v (buf, s) else Inr (v, buf, s)) =
       Inr (w, buf0, s1)"
    "represents rd w buf0 s1 a"
    using window_ok [OF st r e in_array] by blast
  have u: "unat (first_undef_row w) = defined_to a" "pre_zero w = zeroed a" using w(2) by (simp_all add: represents_def)
  have "define_rows zero_row start (start + n) writable w buf0 = Inl (ErrExit JERR_BAD_VIRTUAL_ACCESS)"
    using no False by (auto simp: define_rows_def word_less_nat_alt e u Let_def split: if_splits)
  then show ?thesis using checks by (simp add: access_virt_barray_def Let_def mb w(1))
qed

section \<open>Simulation\<close>

lemma represents_mem_buffer [simp]: "represents rd (v\<lparr>mem_buffer := x\<rparr>) buf s a = represents rd v buf s a"
  by (simp add: represents_def)

lemma strip_of_buffer:
  assumes "length buf = unat (rows_in_mem w)" "unat (cur_start_row w) \<le> s" "s + n \<le> unat (cur_start_row w) + unat (rows_in_mem w)"
  shows "length (take n (drop (s - unat (cur_start_row w)) buf)) = n"
    "j < n \<Longrightarrow> take n (drop (s - unat (cur_start_row w)) buf) ! j = buf ! (s + j - unat (cur_start_row w))"
  using assms by auto

lemma read_sim:
  assumes "is_store rd wr" "mem_buffer v = Some buf" "represents rd v buf s a" "unat start + unat n < 2 ^ 32"
    and "flat_step zero_row (Read_rows start n) a = Inr (rs, a')"
  shows "\<exists>v' buf' s'. virt_step rd wr zero_row (Read_rows start n) (v, s) = Inr (rs, v', s') \<and> mem_buffer v' = Some buf' \<and> represents rd v' buf' s' a'"
proof -
  have e: "unat (start + n) = unat start + unat n" using assms(4) by (subst unat_add_lem [THEN iffD1]) simp_all
  have f: "unat start + unat n \<le> length (contents a)" "unat n \<le> max_rows a" "zeroed a \<or> unat start + unat n \<le> defined_to a"
    "rs = flat_rows zero_row a (unat start) (unat n)" "a' = a"
    using assms(5) by (auto split: if_splits)
  obtain w buf1 s1 where w: "access_virt_barray rd wr zero_row start n False (v, s) = Inr (unat start - unat (cur_start_row w), w\<lparr>mem_buffer := Some buf1\<rparr>, s1)"
    "represents rd w buf1 s1 a" "unat (cur_start_row w) \<le> unat start" "unat start + unat n \<le> unat (cur_start_row w) + unat (rows_in_mem w)"
    "\<And>i. unat start \<le> i \<Longrightarrow> i < unat start + unat n \<Longrightarrow> zeroed a \<or> i < defined_to a \<Longrightarrow>
       buf1 ! (i - unat (cur_start_row w)) = (if i < defined_to a then contents a ! i else zero_row)"
    using access_ok [OF assms(1-3) e f(1,2), of False zero_row] f(3) by auto
  have l: "length buf1 = unat (rows_in_mem w)" using w(2) by (simp add: represents_def)
  note strip = strip_of_buffer [OF l w(3,4)]
  have "take (unat n) (drop (unat start - unat (cur_start_row w)) buf1) = rs"
  proof (rule nth_equalityI)
    fix j assume "j < length (take (unat n) (drop (unat start - unat (cur_start_row w)) buf1))"
    then have j: "j < unat n" using strip(1) by simp
    then have "zeroed a \<or> unat start + j < defined_to a" using f(3) by linarith
    then show "take (unat n) (drop (unat start - unat (cur_start_row w)) buf1) ! j = rs ! j"
      using w(5) [of "unat start + j"] j unfolding strip(2) [OF j] by (simp add: f(4) flat_rows_def)
  qed (use strip(1) in \<open>simp add: f(4) flat_rows_def\<close>)
  then show ?thesis using w(1,2) f(5) by (auto simp del: represents_def)
qed

lemma modify_sim:
  assumes "is_store rd wr" "mem_buffer v = Some buf" "represents rd v buf s a" "op_ok (Modify_rows start n g) a"
    and "flat_step zero_row (Modify_rows start n g) a = Inr (rs, a')"
  shows "\<exists>v' buf' s'. virt_step rd wr zero_row (Modify_rows start n g) (v, s) = Inr (rs, v', s') \<and> mem_buffer v' = Some buf' \<and> represents rd v' buf' s' a'"
proof -
  have e: "unat (start + n) = unat start + unat n" using assms(4) by (subst unat_add_lem [THEN iffD1]) (simp_all add: op_ok_def)
  let ?F = "flat_rows zero_row a (unat start) (unat n)"
  have f: "unat start + unat n \<le> length (contents a)" "unat n \<le> max_rows a" "unat start \<le> defined_to a" "rs = []"
    "a' = a\<lparr>contents := take (unat start) (contents a) @ g ?F @ drop (unat start + unat n) (contents a), defined_to := max (defined_to a) (unat start + unat n)\<rparr>"
    using assms(5) by (auto split: if_splits)
  obtain w buf1 s1 where w: "access_virt_barray rd wr zero_row start n True (v, s) = Inr (unat start - unat (cur_start_row w),
      w\<lparr>first_undef_row := (if first_undef_row w < start + n then start + n else first_undef_row w), mem_buffer := Some buf1, dirty := True\<rparr>, s1)"
    "represents rd w buf1 s1 a" "unat (cur_start_row w) \<le> unat start" "unat start + unat n \<le> unat (cur_start_row w) + unat (rows_in_mem w)"
    "\<And>i. unat start \<le> i \<Longrightarrow> i < unat start + unat n \<Longrightarrow> zeroed a \<or> i < defined_to a \<Longrightarrow>
       buf1 ! (i - unat (cur_start_row w)) = (if i < defined_to a then contents a ! i else zero_row)"
    using access_ok [OF assms(1-3) e f(1,2), of True zero_row] f(3) by auto
  note rep = w(2) [unfolded represents_def]
  define c k S where "c = unat (cur_start_row w)" and "k = unat start - c" and "S = take (unat n) (drop k buf1)"
  have l: "length buf1 = unat (rows_in_mem w)" using rep by simp
  note strip = strip_of_buffer [OF l w(3,4), folded c_def, folded k_def, folded S_def]
  have lg: "length (g xs) = length xs" for xs using assms(4) by (simp add: op_ok_def)
  have at: "S ! j = (if unat start + j < defined_to a then contents a ! (unat start + j) else zero_row)"
    if "j < unat n" "zeroed a \<or> unat start + j < defined_to a" for j
    using w(5) [of "unat start + j"] that unfolding strip(2) [OF that(1)] by (simp add: c_def)
  have lF: "length ?F = unat n" by (simp add: flat_rows_def)
  have "g S = g ?F"
  proof (cases "zeroed a")
    case True
    then have "S = ?F" using at strip(1) by (intro nth_equalityI) (simp_all add: lF, simp add: flat_rows_def)
    then show ?thesis by simp
  next
    case False
    have "take (defined_to a - unat start) S = take (defined_to a - unat start) ?F"
      using at strip(1) lF by (intro nth_equalityI) (simp_all add: flat_rows_def less_diff_conv add.commute)
    then show ?thesis using assms(4) False strip(1) lF by (simp add: op_ok_def)
  qed
  note gS = this
  define buf2 where "buf2 = take k buf1 @ g ?F @ drop (k + unat n) buf1"
  have kn: "k + unat n \<le> length buf1" "c + k = unat start" using w(3,4) l unfolding k_def c_def by linarith+
  have l2: "length buf2 = length buf1" using kn(1) lg lF by (simp add: buf2_def)
  have b2: "buf2 ! m = (if k \<le> m \<and> m < k + unat n then g ?F ! (m - k) else buf1 ! m)" if "m < length buf1" for m
    using that kn(1) lg lF by (auto simp: buf2_def nth_append)
  have c2: "contents a' ! i = (if unat start \<le> i \<and> i < unat start + unat n then g ?F ! (i - unat start) else contents a ! i)"
    if "i < length (contents a)" for i
    using that f(1) lg lF by (auto simp: f(5) nth_append)
  let ?w = "w\<lparr>first_undef_row := (if first_undef_row w < start + n then start + n else first_undef_row w), mem_buffer := Some buf2, dirty := True\<rparr>"
  have rows: "(if c \<le> i \<and> i < c + unat (rows_in_mem w) then buf2 ! (i - c) else store_row rd s1 i) = contents a' ! i" if i: "i < defined_to a'" for i
  proof -
    have "i < max (defined_to a) (unat start + unat n)" "defined_to a \<le> length (contents a)" using i rep by (simp_all add: f(5))
    then have il: "i < length (contents a)" using f(1) by linarith
    show ?thesis
    proof (cases "unat start \<le> i \<and> i < unat start + unat n")
      case True
      then have "c \<le> i \<and> i < c + unat (rows_in_mem w)" "i - c < length buf1" "k \<le> i - c \<and> i - c < k + unat n" "i - c - k = i - unat start"
        using kn l by linarith+
      then show ?thesis using True b2 [of "i - c"] c2 [OF il(1)] by simp
    next
      case False
      then have d: "i < defined_to a" using i f(3) by (auto simp: f(5))
      have eq: "(if c \<le> i \<and> i < c + unat (rows_in_mem w) then buf1 ! (i - c) else store_row rd s1 i) = contents a ! i"
        using rep d unfolding c_def by blast
      show ?thesis
      proof (cases "c \<le> i \<and> i < c + unat (rows_in_mem w)")
        case inside: True
        then have "i - c < length buf1" "\<not> (k \<le> i - c \<and> i - c < k + unat n)" using False kn l by linarith+
        then show ?thesis using inside eq b2 [of "i - c"] c2 [OF il(1)] False by auto
      next
        case outside: False
        then show ?thesis using eq c2 [OF il(1)] False by auto
      qed
    qed
  qed
  have fu: "unat (first_undef_row ?w) = defined_to a'" using rep by (auto simp: f(5) word_less_nat_alt e max_def)
  have "length (contents a') = length (contents a)" "max_rows a' = max_rows a" "zeroed a' = zeroed a" "defined_to a' \<le> length (contents a)"
    using f(1) lg lF rep by (simp_all add: f(5))
  then have lens: "length buf2 = unat (rows_in_mem w)" "length (contents a') = unat (rows_in_array w)" "max_rows a' = unat (maxaccess w)"
    "zeroed a' = pre_zero w" "defined_to a' \<le> length (contents a')"
    using rep l2 by simp_all
  have wf: "rows_in_mem ?w = rows_in_mem w" "rows_in_array ?w = rows_in_array w" "maxaccess ?w = maxaccess w" "pre_zero ?w = pre_zero w"
    "cur_start_row ?w = cur_start_row w" "b_s_open ?w = b_s_open w" "rowsperchunk ?w = rowsperchunk w" "dirty ?w = True"
    by simp_all
  have all: "\<forall>i < defined_to a'. (if unat (cur_start_row w) \<le> i \<and> i < unat (cur_start_row w) + unat (rows_in_mem w)
      then buf2 ! (i - unat (cur_start_row w)) else store_row rd s1 i) = contents a' ! i"
    using rows unfolding c_def by blast
  have rep': "represents rd ?w buf2 s1 a'"
    unfolding represents_def fu wf using rep lens all by (elim conjE, intro conjI) (assumption | blast | simp)+
  have step: "virt_step rd wr zero_row (Modify_rows start n g) (v, s) = Inr (rs, ?w, s1)"
    using gS by (simp add: w(1) Let_def f(4) buf2_def S_def k_def c_def)
  have "mem_buffer ?w = Some buf2" by simp
  then show ?thesis using rep' step by blast
qed

text \<open>Sequences of uses, with what the reads returned.\<close>

primrec flat_run :: "'r \<Rightarrow> 'r row_op list \<Rightarrow> 'r flat_array \<Rightarrow> fault + 'r list list" where
  "flat_run zero_row [] a = Inr []"
| "flat_run zero_row (r # rs) a =
     ebind (flat_step zero_row r a) (\<lambda>(x, a). ebind (flat_run zero_row rs a) (\<lambda>xs. Inr (x # xs)))"

primrec virt_run ::
  "('s \<Rightarrow> nat \<Rightarrow> nat \<Rightarrow> 'r list) \<Rightarrow> ('s \<Rightarrow> nat \<Rightarrow> 'r list \<Rightarrow> 's) \<Rightarrow> 'r \<Rightarrow> 'r row_op list \<Rightarrow> 'r virt_array \<times> 's \<Rightarrow>
   fault + 'r list list" where
  "virt_run rd wr zero_row [] st = Inr []"
| "virt_run rd wr zero_row (r # rs) st =
     ebind (virt_step rd wr zero_row r st) (\<lambda>(x, st). ebind (virt_run rd wr zero_row rs st) (\<lambda>xs. Inr (x # xs)))"

primrec ops_ok :: "'r \<Rightarrow> 'r row_op list \<Rightarrow> 'r flat_array \<Rightarrow> bool" where
  "ops_ok zero_row [] a = True"
| "ops_ok zero_row (r # rs) a = (op_ok r a \<and> (case flat_step zero_row r a of Inl _ \<Rightarrow> True | Inr (_, a) \<Rightarrow> ops_ok zero_row rs a))"

lemma refused_sim:
  assumes "is_store rd wr" "mem_buffer v = Some buf" "represents rd v buf s a" "op_ok r a" "flat_step zero_row r a = Inl e"
  shows "virt_step rd wr zero_row r (v, s) = Inl e"
proof (cases r)
  case (Read_rows start n)
  then have e: "unat (start + n) = unat start + unat n"
    using assms(4) by (subst unat_add_lem [THEN iffD1]) (simp_all add: op_ok_def)
  show ?thesis using assms(5) access_refused [OF assms(1-3) e, of False zero_row]
    by (auto simp: Read_rows split: if_splits)
next
  case (Modify_rows start n g)
  then have e: "unat (start + n) = unat start + unat n"
    using assms(4) by (subst unat_add_lem [THEN iffD1]) (simp_all add: op_ok_def)
  show ?thesis using assms(5) access_refused [OF assms(1-3) e, of True zero_row]
    by (auto simp: Modify_rows split: if_splits)
qed

lemma step_sim:
  assumes "is_store rd wr" "mem_buffer v = Some buf" "represents rd v buf s a" "op_ok r a" "flat_step zero_row r a = Inr (rs, a')"
  shows "\<exists>v' buf' s'. virt_step rd wr zero_row r (v, s) = Inr (rs, v', s') \<and> mem_buffer v' = Some buf' \<and> represents rd v' buf' s' a'"
proof (cases r)
  case (Read_rows start n)
  then show ?thesis using read_sim [OF assms(1-3), of start n zero_row rs a'] assms(4,5) by (simp add: op_ok_def)
next
  case (Modify_rows start n g)
  then show ?thesis using modify_sim [OF assms(1-3), of start n g zero_row rs a'] assms(4,5) by simp
qed

lemma run_sim:
  assumes "is_store rd wr"
  shows "mem_buffer v = Some buf \<Longrightarrow> represents rd v buf s a \<Longrightarrow> ops_ok zero_row ops a \<Longrightarrow>
    virt_run rd wr zero_row ops (v, s) = flat_run zero_row ops a"
proof (induction ops arbitrary: v buf s a)
  case (Cons r ops)
  show ?case
  proof (cases "flat_step zero_row r a")
    case (Inl e)
    then show ?thesis using refused_sim [OF assms Cons.prems(1,2) _ Inl] Cons.prems(3) by simp
  next
    case (Inr xa)
    obtain x a' where xa: "flat_step zero_row r a = Inr (x, a')" using Inr by (cases xa) simp
    have ok: "op_ok r a" "ops_ok zero_row ops a'" using Cons.prems(3) xa by simp_all
    obtain v' buf' s' where v': "virt_step rd wr zero_row r (v, s) = Inr (x, v', s')" "mem_buffer v' = Some buf'" "represents rd v' buf' s' a'"
      using step_sim [OF assms Cons.prems(1,2) ok(1) xa] by blast
    show ?thesis using Cons.IH [OF v'(2,3) ok(2)] by (simp add: v'(1) xa)
  qed
qed simp

section \<open>Realized arrays\<close>

lemma min_heights:
  assumes "0 < r" "m < (r - 1) div k + (1 :: nat)"
  shows "m * k \<le> r - 1"
proof -
  have "m * k \<le> (r - 1) div k * k" using assms(2) by (intro mult_le_mono1) linarith
  also have "\<dots> \<le> r - 1" by simp
  finally show ?thesis .
qed

lemma alloc_barray_chunk:
  assumes "alloc_barray fresh bpr n = Inr (buf, rpc)" "0 < unat n" "unat n < 2 ^ 31"
  shows "fresh n = Inr buf \<and> 0 < unat rpc \<and> unat rpc < 2 ^ 31"
proof -
  define lt where "lt = long_of ((MAX_ALLOC_CHUNK - 12) div (bpr * 128))"
  have a: "fresh n = Inr buf" "0 < lt" "rpc = (if lt < long_of n then word_of_int lt else n)"
    using assms(1) unfolding alloc_barray_def lt_def [symmetric] by (auto simp: Let_def ebind_eq_Inr split: if_splits)
  show ?thesis
  proof (cases "lt < long_of n")
    case True
    then have "lt < int (unat n)" using assms(3) by (simp only: long_of_small)
    moreover have "unat n < 2147483648" using assms(3) by simp
    ultimately have "lt < 4294967296" "nat lt < 2147483648" by linarith+
    then have "unat (word_of_int lt :: u32) = nat lt"
      using a(2) by (simp add: unsigned_of_int take_bit_int_eq_self)
    then show ?thesis using a True \<open>nat lt < 2147483648\<close> by auto
  qed (use a assms(2,3) in simp)
qed

lemma realize_array_represents:
  assumes v: "realize_array open_store fresh mm v0 = Inr v" and new: "mem_buffer v0 = None" "\<not> b_s_open v0"
    and rows: "0 < unat (rows_in_array v0)" "unat (rows_in_array v0) < 2 ^ 31" "length cs = unat (rows_in_array v0)"
    and mm: "0 < unat mm" and fresh: "\<And>n b. fresh n = Inr b \<Longrightarrow> length b = unat n"
  shows "\<exists>buf. mem_buffer v = Some buf \<and>
    represents rd v buf s \<lparr>contents = cs, defined_to = 0, max_rows = unat (maxaccess v0), zeroed = pre_zero v0\<rparr>"
proof -
  define minh where "minh = (rows_in_array v0 - 1) div maxaccess v0 + 1"
  have ma: "maxaccess v0 \<noteq> 0" using v new(1) by (auto simp: realize_array_def split: if_splits)
  have ma': "0 < unat (maxaccess v0)" using ma by (simp add: unat_gt_0)
  obtain w buf rpc where w: "alloc_barray fresh (blocksperrow w) (rows_in_mem w) = Inr (buf, rpc)"
    "v = w\<lparr>mem_buffer := Some buf, rowsperchunk := rpc, cur_start_row := 0, first_undef_row := 0, dirty := False\<rparr>"
    "w = (if minh \<le> mm then v0\<lparr>rows_in_mem := rows_in_array v0\<rparr> else v0\<lparr>rows_in_mem := mm * maxaccess v0, b_s_open := True\<rparr>)"
    using v new(1) ma unfolding realize_array_def minh_def [symmetric]
    by (auto simp: Let_def ebind_eq_Inr split: if_splits prod.splits)
  have one: "unat (rows_in_array v0 - 1) = unat (rows_in_array v0) - 1" using rows(1) by (subst unat_minus_one) auto
  have big: "unat mm * unat (maxaccess v0) \<le> unat (rows_in_array v0) - 1" if "\<not> minh \<le> mm"
  proof -
    have "unat minh \<le> unat ((rows_in_array v0 - 1) div maxaccess v0) + 1"
      unfolding minh_def by (simp add: unat_word_ariths)
    then have "unat mm < (unat (rows_in_array v0) - 1) div unat (maxaccess v0) + 1"
      using that by (simp add: word_le_nat_alt unat_div one)
    then show ?thesis using min_heights rows(1) by blast
  qed
  have prod: "unat (mm * maxaccess v0) = unat mm * unat (maxaccess v0)" if "\<not> minh \<le> mm"
    proof -
    have "unat (rows_in_array v0) < 4294967296" using rows(2) by simp
    then have "unat mm * unat (maxaccess v0) < 2 ^ LENGTH(32)" using big [OF that] by simp
    then show ?thesis by (subst unat_mult_lem [THEN iffD1]) auto
  qed
  have wf: "0 < unat (rows_in_mem w)" "unat (rows_in_mem w) < 2 ^ 31" "b_s_open w \<longrightarrow> unat (maxaccess v0) \<le> unat (rows_in_mem w)"
    "\<not> b_s_open w \<longrightarrow> rows_in_mem w = rows_in_array v0"
    using rows(1,2) new(2) big prod mm ma' by (auto simp: w(3))
  have fields: "rows_in_array w = rows_in_array v0" "maxaccess w = maxaccess v0" "pre_zero w = pre_zero v0" by (simp_all add: w(3))
  have "fresh (rows_in_mem w) = Inr buf" "0 < unat rpc" "unat rpc < 2 ^ 31" using alloc_barray_chunk [OF w(1) wf(1,2)] by simp_all
  then have "represents rd v buf s \<lparr>contents = cs, defined_to = 0, max_rows = unat (maxaccess v0), zeroed = pre_zero v0\<rparr>"
    using wf rows(2,3) fresh by (auto simp: represents_def w(2) fields)
  then show ?thesis by (simp add: w(2))
qed

text \<open>\<open>realize_virt_arrays\<close> never gives an array fewer than one strip.\<close>

lemma realize_arrays_Cons:
  assumes "realize_virt_arrays available open_store fresh (v0 # vs) = Inr vs'" "fst (unrealized_space (0, 0) (v0 # vs)) \<noteq> 0"
  obtains mm v vs1 where "realize_array open_store fresh mm v0 = Inr v" "0 < unat mm" "vs' = v # vs1"
proof -
  obtain sp mx where sp: "unrealized_space (0, 0) (v0 # vs) = (sp, mx)" by fastforce
  define avail where "avail = available sp mx"
  define mm where "mm = (if mx \<le> avail then 1000000000 else if avail div sp = 0 then 1 else avail div sp)"
  have nz: "sp \<noteq> 0" using assms(2) sp by simp
  have "realize_virt_arrays available open_store fresh (v0 # vs) = realize_arrays open_store fresh mm (v0 # vs)"
    unfolding realize_virt_arrays_def sp split Let_def mm_def avail_def if_not_P [OF nz] ..
  then have "realize_arrays open_store fresh mm (v0 # vs) = Inr vs'" using assms(1) by simp
  moreover have "0 < unat mm" by (simp add: mm_def unat_gt_0)
  ultimately show ?thesis using that by (auto simp: ebind_eq_Inr)
qed


text \<open>Three rows with memory for one: the window is written out and read back.\<close>

definition map_store_rd :: "(nat \<Rightarrow> 'r) \<Rightarrow> nat \<Rightarrow> nat \<Rightarrow> 'r list" where
  "map_store_rd s a n = map (\<lambda>k. s (a + k)) [0..<n]"

definition map_store_wr :: "(nat \<Rightarrow> 'r) \<Rightarrow> nat \<Rightarrow> 'r list \<Rightarrow> nat \<Rightarrow> 'r" where
  "map_store_wr s a rs = (\<lambda>i. if a \<le> i \<and> i < a + length rs then rs ! (i - a) else s i)"

lemma map_is_store: "is_store map_store_rd map_store_wr"
  by (auto simp: is_store_def map_store_rd_def map_store_wr_def)


text \<open>With \<open>jmemnobs.c\<close> every array is wholly in memory, or is not realized.\<close>

lemma nobs_in_memory:
  assumes "realize_array jpeg_open_backing_store fresh mm v0 = Inr v" "mem_buffer v0 = None" "\<not> b_s_open v0"
  shows "\<not> b_s_open v \<and> rows_in_mem v = rows_in_array v"
  using assms by (auto simp: realize_array_def jpeg_open_backing_store_def Let_def ebind_eq_Inr split: if_splits)

end
