(* ===== verification/Spec2Isabelle.thy ===== *)
theory Spec2Isabelle imports Screen HuffScan HuffRoundtrip HuffSafe Jcscript Jcgeometry Jcmarker MarkerRoundtrip Jdlimits Jdheader Blocks Rgb565 VirtArray begin

text \<open>
  A verification library for mika-audio, an Android application that sends its screen to another
  device. Its own native code is the frame module (\<open>server/app/src/main/jni/frame\<close>); the bulk of its
  C is the JPEG library it ships, libjpeg-turbo 1.4.1
  (\<open>server/app/src/main/jni/libjpeg-turbo/libjpeg-turbo-1.4.1\<close>, below just the file names), which the
  native build compiles for armeabi-v7a: \<open>int\<close>, \<open>long\<close>, \<open>INT32\<close> and \<open>size_t\<close> have 32 bits, the API is
  that of version 62, both entropy coders are compiled in, and the memory managers are present.

  \<^bold>\<open>The program and the theories.\<close>
  \<^item> \<open>Prelude\<close>, \<open>Jutils\<close>: machine types, results that may be an error exit (\<open>ERREXIT\<close> does not return),
    bit strings; rounding and the zigzag order of \<open>jutils.c\<close>, the error codes of \<open>jerror.h\<close>.
  \<^item> \<open>Screen\<close>: \<open>Screen.cpp\<close>, \<open>Screen.h\<close>, \<open>Frame.cpp\<close>. The platform's display and screenshot client are
    parameters. The loop of \<open>updateFrame\<close> is run with the fuel its own bound gives; \<open>updateFrame_returns\<close>
    shows that it is enough for every size, also when the size computation wraps around.
  \<^item> \<open>HuffTables\<close>: derived tables of \<open>jchuff.c\<close> and \<open>jdhuff.c\<close>, the standard tables of \<open>jstdhuff.c\<close>.
  \<^item> \<open>DestMgr\<close>: the destination managers of \<open>jdatadst.c\<close> and \<open>jdatadst-tj.c\<close>. What a client may rely on
    is the locale \<open>destination\<close>; both managers are interpretations of it.
  \<^item> \<open>HuffEnc\<close>, \<open>HuffScan\<close>: the sequential Huffman encoder of \<open>jchuff.c\<close>, and that a scan puts exactly
    the specified bytes into either destination. The copying loop of \<open>STORE_BUFFER\<close> has as fuel twice
    the number of bytes, which is enough because an emptied buffer has room.
  \<^item> \<open>DecSource\<close>, \<open>HuffDec\<close>, \<open>HuffRead\<close>, \<open>HuffFast\<close>, \<open>HuffRoundtrip\<close>, \<open>HuffSafe\<close>: the source and the restart
    logic of \<open>jdmarker.c\<close>, the sequential Huffman decoder of \<open>jdhuff.c\<close> with its slow and its fast path, that
    it reads back what the encoder writes, and that on arbitrary input it stays inside its tables. What the
    decoding of a block needs from the bit-reading macros is the locale \<open>bit_source\<close>, interpreted on both sets.
  \<^item> \<open>Jpeglib\<close>, \<open>Jcparam\<close>, \<open>Jcmaster\<close>, \<open>Jcscript\<close>, \<open>Jcapi\<close>, \<open>Jcpasses\<close>, \<open>Jcgeometry\<close>: the compression object,
    its parameters (\<open>jcparam.c\<close>), the master control (\<open>jcmaster.c\<close>) and the API (\<open>jcapimin.c\<close>,
    \<open>jcapistd.c\<close>, \<open>jcinit.c\<close>, \<open>jcomapi.c\<close>). The master calls the other modules through method
    pointers; the model records these calls in order. The loop over the passes has as fuel
    \<open>total_passes\<close>; \<open>compress_session\<close> shows that it is enough.
  \<^item> \<open>Jmarker\<close>, \<open>Jcmarker\<close>: the marker writer of \<open>jcmarker.c\<close>.
  \<^item> \<open>Jdlib\<close>, \<open>Jdmarker\<close>, \<open>Jdflat\<close>: the decompression object, the marker reader of \<open>jdmarker.c\<close>, and that its
    result does not depend on how the source splits the data into buffers.
  \<^item> \<open>MarkerFeed\<close>, \<open>MarkerRoundtrip\<close>: what the reader makes of each segment the writer writes, and that the
    headers of a Huffman-coded file are read back as they were meant, tables sent earlier included.
  \<^item> \<open>Jdinput\<close>, \<open>Jdcoef\<close>, \<open>Jdmaster\<close>, \<open>Jdapi\<close>: the decompressor's input controller (\<open>jdinput.c\<close>), the input side
    of its coefficient controller (\<open>jdcoefct.c\<close>) with the Huffman decoder behind it, \<open>jdtrans.c\<close>, the master
    control (\<open>jdmaster.c\<close>) and the API (\<open>jdapimin.c\<close>, \<open>jdapistd.c\<close>). Loops that read until the source ends
    have a bound on their rounds. \<open>Jdlimits\<close> shows that the output dimensions are exact and that the range table
    clamps; \<open>Jdkeeps\<close> and \<open>Jdheader\<close>, that \<open>jpeg_read_header\<close> on the headers of a compressed file ends in
    the ready state with the compressor's own layout of the image.
  \<^item> \<open>Jfdct\<close>, \<open>DctAccuracy\<close>, \<open>Jcdctmgr\<close>, \<open>Jidct\<close>, \<open>Blocks\<close>: the accurate integer forward and inverse DCT (\<open>jfdctint.c\<close>,
    \<open>jpeg_idct_islow\<close> of \<open>jidctint.c\<close>) and the forward DCT manager with its division by reciprocals
    (\<open>jcdctmgr.c\<close>): the forward DCT is the real one up to half a unit,
    the reciprocals divide exactly, no 32-bit operation overflows in either direction
    for the standard tables, and a flat block comes back within half a quantisation step.
  \<^item> \<open>Jccolor\<close>, \<open>Jdcolor\<close>, \<open>Colors\<close>, \<open>Rgb565\<close>: colour conversion in both directions (\<open>jccolor.c\<close>, \<open>jccolext.c\<close>,
    \<open>jdcolor.c\<close>, \<open>jdcolext.c\<close>, \<open>jdcol565.c\<close>), on rows of samples: what each accepted pair of colour spaces computes,
    that RGB comes back from YCbCr within one, and what the RGB565 loops write.
  \<^item> \<open>VirtArray\<close>: the virtual coefficient arrays of \<open>jmemmgr.c\<close>. A window in memory and a backing store together
    behave as one flat array, for every sequence of accesses. A store that works is system code and a parameter;
    the one of \<open>jmemnobs.c\<close>, which this build uses, refuses. The loop over the chunks of a window has as fuel
    the rows of the buffer plus one, which is enough because every chunk has at least one row.

  \<^bold>\<open>Limits of the statements.\<close> Where the C code overflows or misbehaves on legal input, the properties exclude that
  input by a named condition. \<open>scan_codable\<close>: every symbol has a code and no block takes more than 1008 bits, since a
  longer one can overflow the encoder's local buffer. \<open>scan_fits\<close>: without restart markers an MCU plus 31 bits takes
  at most 512 bits per block, since the fast path of the decoder checks its input only once for an MCU. \<open>mcus_fit\<close>:
  an interleaved scan has at most 10 blocks in an MCU, which is checked only when the scan begins. \<open>sane_size\<close>:
  the image is at most 65500 by 65500, since sizes of 2^31 and more pass the check of the code.

  \<^bold>\<open>Not modelled.\<close> The pool allocator, which works on raw pointers (its failure is an error exit); the progress
  monitor, warnings and trace messages, which only reach the application; sampling and upsampling, the main and
  preprocessing controllers and the output side of the coefficient controller; the fast, floating-point and scaled
  DCTs, colour quantisation, the progressive and arithmetic coders, lossless transformations, TurboJPEG's own API,
  and the SIMD code, which is assembler.
\<close>

end
